(* ===== verification/Prelude.thy ===== *)
theory Prelude
  imports Main "HOL-Library.Word"
begin

text \<open>
  Shared vocabulary of the development: names for Rust's machine integers, the
  three-way comparison result of \<open>std::cmp::Ordering\<close>, little-endian byte
  conversions, and the list and word lemmas several components use.

  Arithmetic on \<open>u8\<close>, \<open>u16\<close>, \<open>u32\<close>, \<open>u64\<close> is \<open>'n word\<close> arithmetic, i.e. it wraps,
  as Rust does for the \<open>wrapping_*\<close> and atomic operations and, in a release build,
  for the plain operators. Where an operation can panic or touch memory out of range
  in the code, the model returns \<open>None\<close> instead.
\<close>

unbundle bit_operations_syntax

type_synonym u8 = "8 word"
type_synonym u16 = "16 word"
type_synonym u32 = "32 word"
type_synonym u64 = "64 word"

named_theorems bitsimp \<open>bit-level characterisations used by the codec proofs\<close>

subsection \<open>Three-way comparison\<close>

datatype ordering = Less | Equal | Greater

definition ord_cmp :: "'a::linorder \<Rightarrow> 'a \<Rightarrow> ordering" where
  "ord_cmp a b = (if a < b then Less else if a = b then Equal else Greater)"

fun then_with :: "ordering \<Rightarrow> ordering \<Rightarrow> ordering" where
  "then_with Equal o2 = o2"
| "then_with o1 _ = o1"

lemma ord_cmp_eq_iff [simp]:
  "ord_cmp a b = Less \<longleftrightarrow> a < b"
  "ord_cmp a b = Equal \<longleftrightarrow> a = b"
  "ord_cmp a b = Greater \<longleftrightarrow> b < a"
  by (auto simp: ord_cmp_def)

lemma then_with_eq_iff [simp]:
  "then_with a b = Less \<longleftrightarrow> a = Less \<or> (a = Equal \<and> b = Less)"
  "then_with a b = Equal \<longleftrightarrow> a = Equal \<and> b = Equal"
  "then_with a b = Greater \<longleftrightarrow> a = Greater \<or> (a = Equal \<and> b = Greater)"
  by (cases a; simp)+

lemma then_with_Equal_right [simp]: "then_with a Equal = a"
  by (cases a) auto

subsection \<open>Saturating and checked operations of Rust's integers\<close>

definition saturating_sub :: "'n::len word \<Rightarrow> 'n word \<Rightarrow> 'n word" where
  "saturating_sub a b = (if a < b then 0 else a - b)"

definition saturating_add :: "'n::len word \<Rightarrow> 'n word \<Rightarrow> 'n word" where
  "saturating_add a b = (if unat a + unat b < 2 ^ LENGTH('n) then a + b else - 1)"

definition checked_add :: "'n::len word \<Rightarrow> 'n word \<Rightarrow> 'n word option" where
  "checked_add a b = (if unat a + unat b < 2 ^ LENGTH('n) then Some (a + b) else None)"

lemma unat_saturating_sub [simp]:
  "unat (saturating_sub a b) = unat a - unat b"
  by (auto simp: saturating_sub_def word_less_nat_alt unat_sub_if' not_less)

lemma saturating_sub_le: "saturating_sub a b \<le> a"
  by (simp add: word_le_nat_alt)

lemma unat_saturating_add:
  fixes a b :: "'n::len word"
  shows "unat (saturating_add a b) = min (unat a + unat b) (2 ^ LENGTH('n) - 1)"
  by (auto simp: saturating_add_def unat_word_ariths min_def unsigned_minus_1_eq_mask mask_eq_exp_minus_1)

lemma checked_add_Some_unat:
  "checked_add a b = Some c \<Longrightarrow> unat c = unat a + unat b"
  by (auto simp: checked_add_def unat_word_ariths split: if_splits)

subsection \<open>Little-endian bytes\<close>

text \<open>
  \<open>le_bytes n w\<close> is the first \<open>n\<close> bytes of \<open>w.to_le_bytes()\<close>; \<open>le_word bs\<close> is
  \<open>from_le_bytes\<close> of the bytes, zero-extended or truncated to the result's width.
\<close>

definition le_bytes :: "nat \<Rightarrow> 'a::len word \<Rightarrow> u8 list" where
  "le_bytes n w = map (\<lambda>i. ucast (drop_bit (8 * i) w)) [0..<n]"

fun le_word :: "u8 list \<Rightarrow> 'a::len word" where
  "le_word [] = 0"
| "le_word (b # bs) = ucast b OR push_bit 8 (le_word bs)"

lemma length_le_bytes [simp]: "length (le_bytes n w) = n"
  by (simp add: le_bytes_def)

lemma bit_le_word [bitsimp]:
  "bit (le_word bs :: 'a::len word) k \<longleftrightarrow>
     k < LENGTH('a) \<and> k div 8 < length bs \<and> bit (bs ! (k div 8)) (k mod 8)"
proof (induction bs arbitrary: k)
  case Nil
  then show ?case by simp
next
  case (Cons b bs)
  show ?case
  proof (cases "k < 8")
    case True
    then show ?thesis
      by (auto simp: bit_simps)
  next
    case False
    then have "k div 8 = Suc ((k - 8) div 8)" and "(k - 8) mod 8 = k mod 8"
      by (simp_all add: div_if mod_if)
    moreover have "\<not> bit b k"
      using False bit_imp_le_length[of b k] by auto
    ultimately show ?thesis
      using False by (auto simp: bit_simps Cons.IH)
  qed
qed

lemma bit_nth_le_bytes [bitsimp]:
  "i < n \<Longrightarrow> bit (le_bytes n w ! i) j \<longleftrightarrow> j < 8 \<and> bit w (8 * i + j)"
  by (auto simp: le_bytes_def bit_simps)

text \<open>The low \<open>8 * n\<close> bits survive a trip through \<open>n\<close> bytes.\<close>

lemma le_word_le_bytes:
  fixes w :: "'a::len word"
  shows "(le_word (le_bytes n w) :: 'a word) = take_bit (8 * n) w"
proof (rule bit_word_eqI)
  fix k
  assume k: "k < LENGTH('a)"
  have d: "8 * (k div 8) + k mod 8 = k" by simp
  show "bit (le_word (le_bytes n w) :: 'a word) k \<longleftrightarrow> bit (take_bit (8 * n) w) k"
  proof (cases "k div 8 < n")
    case True
    then have "k < 8 * n" by linarith
    then show ?thesis
      using k d by (simp add: bit_le_word bit_nth_le_bytes bit_take_bit_iff div_less_iff_less_mult mult.commute)
  next
    case False
    then have "\<not> k < 8 * n" by linarith
    with False show ?thesis
      by (simp add: bit_le_word bit_take_bit_iff)
  qed
qed

lemma le_word_le_bytes_full:
  fixes w :: "'a::len word"
  assumes "LENGTH('a) \<le> 8 * n"
  shows "(le_word (le_bytes n w) :: 'a word) = w"
proof -
  have "take_bit (8 * n) w = w"
    by (rule bit_word_eqI) (use assms in \<open>auto simp: bit_take_bit_iff\<close>)
  then show ?thesis by (simp add: le_word_le_bytes)
qed

lemma le_bytes_le_word:
  assumes "length bs = n" and "8 * n \<le> LENGTH('a::len)"
  shows "le_bytes n (le_word bs :: 'a word) = bs"
proof (rule nth_equalityI)
  show "length (le_bytes n (le_word bs :: 'a word)) = length bs"
    using assms by simp
  fix i
  assume i: "i < length (le_bytes n (le_word bs :: 'a word))"
  show "le_bytes n (le_word bs :: 'a word) ! i = bs ! i"
  proof (rule bit_word_eqI)
    fix j
    assume "j < LENGTH(8)"
    with i assms show "bit (le_bytes n (le_word bs :: 'a word) ! i) j \<longleftrightarrow> bit (bs ! i) j"
      by (simp add: bit_nth_le_bytes bit_le_word)
  qed
qed

subsection \<open>Lists\<close>

lemma sum_list_update_nat:
  fixes xs :: "nat list"
  assumes "i < length xs"
  shows "sum_list (xs[i := v]) + xs ! i = sum_list xs + v"
  using assms by (induction xs arbitrary: i) (auto split: nat.splits simp: less_Suc_eq_0_disj)


lemma unat8_less: "unat (w :: u8) < 256"
  using unsigned_less[where 'b = 8 and w = w] by simp

lemma unat16_less: "unat (w :: u16) < 65536"
  using unsigned_less[where 'b = 16 and w = w] by simp

lemma unat32_less: "unat (w :: u32) < 4294967296"
  using unsigned_less[where 'b = 32 and w = w] by simp

lemma unat64_less: "unat (w :: u64) < 18446744073709551616"
  using unsigned_less[where 'b = 64 and w = w] by simp

subsection \<open>Loops over a list that may fail\<close>

fun fold_opt :: "('a \<Rightarrow> 'b \<Rightarrow> 'b option) \<Rightarrow> 'a list \<Rightarrow> 'b \<Rightarrow> 'b option" where
  "fold_opt f [] b = Some b"
| "fold_opt f (x # xs) b = (case f x b of None \<Rightarrow> None | Some b' \<Rightarrow> fold_opt f xs b')"

text \<open>Short-circuit search: the first \<open>True\<close> ends it, a failure before that is a failure.\<close>

fun any_opt :: "('a \<Rightarrow> bool option) \<Rightarrow> 'a list \<Rightarrow> bool option" where
  "any_opt f [] = Some False"
| "any_opt f (x # xs) = (case f x of None \<Rightarrow> None | Some True \<Rightarrow> Some True | Some False \<Rightarrow> any_opt f xs)"

lemma fold_opt_Some:
  "(\<And>x b. x \<in> set xs \<Longrightarrow> f x b = Some (g x b)) \<Longrightarrow> fold_opt f xs b = Some (fold g xs b)"
  by (induction xs arbitrary: b) auto

lemma fold_opt_invariant:
  "\<lbrakk>fold_opt f xs b = Some b'; I b; \<And>x b b'. x \<in> set xs \<Longrightarrow> I b \<Longrightarrow> f x b = Some b' \<Longrightarrow> I b'\<rbrakk> \<Longrightarrow> I b'"
proof (induction xs arbitrary: b)
  case (Cons x xs)
  then obtain b1 where b1: "f x b = Some b1" "fold_opt f xs b1 = Some b'" by (auto split: option.splits)
  have "I b1" using Cons.prems(3)[OF _ Cons.prems(2) b1(1)] by simp
  show ?case by (rule Cons.IH[OF b1(2) \<open>I b1\<close>], rule Cons.prems(3)) simp_all
qed simp

lemma any_opt_Some:
  "(\<And>x. x \<in> set xs \<Longrightarrow> f x = Some (P x)) \<Longrightarrow> any_opt f xs = Some (\<exists>x \<in> set xs. P x)"
  by (induction xs) (auto split: option.splits bool.splits)

end
