(* ===== verification/Keys.thy ===== *)
theory Keys
  imports Prelude
begin

text \<open>
  The key and value types of \<open>btree/key.rs\<close> and \<open>btree/types.rs\<close>: search positions
  (\<open>Bpos\<close>) and their order, the legacy \<open>BtreeKey\<close>, key types, values and their byte
  encodings, and whole entries. \<open>Bpos\<close> is a datatype with selectors rather than a
  record so that it can be an instance of \<open>linorder\<close>; its order is the code's \<open>Ord\<close>.
\<close>

section \<open>Bit helpers and 48-bit addresses\<close>

text \<open>\<open>fls64\<close>: one more than the index of the highest set bit, 0 for 0
  (\<open>64 - v.leading_zeros()\<close>).\<close>

definition leading_zeros :: "u64 \<Rightarrow> nat" where
  "leading_zeros v = length (takeWhile (\<lambda>i. \<not> bit v i) (rev [0..<64]))"

definition fls64 :: "u64 \<Rightarrow> nat" where
  "fls64 v = (if v = 0 then 0 else 64 - leading_zeros v)"

lemma fls64_le_iff: "b \<le> 64 \<Longrightarrow> fls64 v \<le> b \<longleftrightarrow> (\<forall>k\<ge>b. \<not> bit v k)"
proof
  assume b: "b \<le> 64" and le: "fls64 v \<le> b"
  show "\<forall>k\<ge>b. \<not> bit v k"
  proof (intro allI impI notI)
    fix k assume k: "b \<le> k" and bit: "bit v k"
    then have k64: "k < 64" using bit_imp_le_length[of v k] by simp
    from bit have "v \<noteq> 0" by auto
    with le k k64 have "63 - k < leading_zeros v" by (simp add: fls64_def)
    then have "\<not> bit v (rev [0..<64] ! (63 - k))"
      unfolding leading_zeros_def by (metis nth_mem set_takeWhileD takeWhile_nth)
    with k64 bit show False by (simp add: rev_nth)
  qed
next
  assume b: "b \<le> 64" and z: "\<forall>k\<ge>b. \<not> bit v k"
  have "64 - b \<le> leading_zeros v"
    unfolding leading_zeros_def
    by (rule length_takeWhile_less_P_nth) (use b z in \<open>auto simp: rev_nth\<close>)
  then show "fls64 v \<le> b" using b by (auto simp: fls64_def)
qed

definition u64_bitmask :: "nat \<Rightarrow> u64" where
  "u64_bitmask bits = (if 64 \<le> bits then - 1 else push_bit bits 1 - 1)"

definition addr48_max :: u64 where
  "addr48_max = push_bit 48 1 - 1"

text \<open>\<open>Addr48::new\<close> asserts the bound; a failed assertion is \<open>None\<close>.\<close>

definition addr48_new :: "u64 \<Rightarrow> u64 option" where
  "addr48_new v = (if v \<le> addr48_max then Some v else None)"

section \<open>Key types\<close>

datatype key_type = Normal | Deleted | Whiteout

fun key_type_u8 :: "key_type \<Rightarrow> u8" where
  "key_type_u8 Normal = 0"
| "key_type_u8 Deleted = 1"
| "key_type_u8 Whiteout = 2"

text \<open>\<open>KeyType::from_u8\<close> panics on any other byte.\<close>

definition key_type_from_u8 :: "u8 \<Rightarrow> key_type option" where
  "key_type_from_u8 v = (if v = 0 then Some Normal else if v = 1 then Some Deleted
     else if v = 2 then Some Whiteout else None)"

lemma key_type_roundtrip [simp]: "key_type_from_u8 (key_type_u8 t) = Some t"
  by (cases t) (auto simp: key_type_from_u8_def)

lemma key_type_u8_inj [simp]: "key_type_u8 a = key_type_u8 b \<longleftrightarrow> a = b"
  by (cases a; cases b) auto

section \<open>Search positions\<close>

datatype bpos = Bpos (inode: u64) (offset: u64) (snapshot: u32)

definition bpos_min :: bpos where
  "bpos_min = Bpos 0 0 0"

definition bpos_max :: bpos where
  "bpos_max = Bpos (- 1) (- 1) (- 1)"

definition bpos_is_min :: "bpos \<Rightarrow> bool" where
  "bpos_is_min p \<longleftrightarrow> inode p = 0 \<and> offset p = 0 \<and> snapshot p = 0"

definition bpos_is_max :: "bpos \<Rightarrow> bool" where
  "bpos_is_max p \<longleftrightarrow> inode p = - 1 \<and> offset p = - 1 \<and> snapshot p = - 1"

text \<open>\<open>impl Ord for Bpos\<close>: lexicographic on inode, offset, snapshot.\<close>

definition bpos_cmp :: "bpos \<Rightarrow> bpos \<Rightarrow> ordering" where
  "bpos_cmp l r = then_with (ord_cmp (inode l) (inode r))
     (then_with (ord_cmp (offset l) (offset r)) (ord_cmp (snapshot l) (snapshot r)))"

instantiation bpos :: linorder
begin

definition less_eq_bpos :: "bpos \<Rightarrow> bpos \<Rightarrow> bool" where
  "less_eq_bpos l r \<longleftrightarrow> bpos_cmp l r \<noteq> Greater"

definition less_bpos :: "bpos \<Rightarrow> bpos \<Rightarrow> bool" where
  "less_bpos l r \<longleftrightarrow> bpos_cmp l r = Less"

instance
proof
  fix x y z :: bpos
  show "x < y \<longleftrightarrow> x \<le> y \<and> \<not> y \<le> x"
    by (auto simp: less_eq_bpos_def less_bpos_def bpos_cmp_def)
  show "x \<le> x"
    by (simp add: less_eq_bpos_def bpos_cmp_def)
  show "x \<le> y \<Longrightarrow> y \<le> z \<Longrightarrow> x \<le> z"
    by (auto simp: less_eq_bpos_def bpos_cmp_def not_less)
  show "x \<le> y \<Longrightarrow> y \<le> x \<Longrightarrow> x = y"
    by (cases x; cases y) (auto simp: less_eq_bpos_def bpos_cmp_def not_less)
  show "x \<le> y \<or> y \<le> x"
    by (auto simp: less_eq_bpos_def bpos_cmp_def)
qed

end

text \<open>\<open>bpos_eq\<close>, \<open>bpos_lt\<close>, ... are the operators of that order.\<close>

lemma bpos_cmp_iff [simp]:
  "bpos_cmp l r = Less \<longleftrightarrow> l < r"
  "bpos_cmp l r = Equal \<longleftrightarrow> l = r"
  "bpos_cmp l r = Greater \<longleftrightarrow> r < l"
  by (cases l; cases r; auto simp: less_bpos_def bpos_cmp_def)+

lemma bpos_cmp_ord_cmp: "bpos_cmp l r = ord_cmp l r"
  by (metis bpos_cmp_iff ord_cmp_eq_iff ordering.exhaust)

lemma bpos_less_iff:
  "l < r \<longleftrightarrow> inode l < inode r \<or> (inode l = inode r \<and>
     (offset l < offset r \<or> (offset l = offset r \<and> snapshot l < snapshot r)))"
  by (auto simp: less_bpos_def bpos_cmp_def)

lemma bpos_le_iff:
  "l \<le> r \<longleftrightarrow> inode l < inode r \<or> (inode l = inode r \<and>
     (offset l < offset r \<or> (offset l = offset r \<and> snapshot l \<le> snapshot r)))"
  by (auto simp: less_eq_bpos_def bpos_cmp_def not_less)

definition bpos_successor :: "bpos \<Rightarrow> bpos" where
  "bpos_successor p =
     (let s = snapshot p + 1 in
      if s = 0 then
        (let off = offset p + 1 in
         if off = 0 then Bpos (inode p + 1) off s else Bpos (inode p) off s)
      else Bpos (inode p) (offset p) s)"

definition bpos_predecessor :: "bpos \<Rightarrow> bpos" where
  "bpos_predecessor p =
     (let s = snapshot p - 1 in
      if s = - 1 then
        (let off = offset p - 1 in
         if off = - 1 then Bpos (inode p - 1) off s else Bpos (inode p) off s)
      else Bpos (inode p) (offset p) s)"

lemma bpos_min_least: "bpos_min \<le> p"
  by (simp add: bpos_le_iff bpos_min_def) (meson not_gr_zero word_coorder.not_eq_extremum)

lemma bpos_max_greatest: "p \<le> bpos_max"
  by (simp add: bpos_le_iff bpos_max_def) (meson word_order.not_eq_extremum)

text \<open>Stepping a single word up or down, without wrap-around.\<close>

lemma word_less_plus_1:
  fixes w :: "'a::len word"
  assumes "w + 1 \<noteq> 0"
  shows "w < w + 1"
proof -
  have "unat (w + 1) = Suc (unat w)"
    using assms unatSuc[of w] by (simp add: add.commute)
  then show ?thesis by (simp add: word_less_nat_alt)
qed

lemma word_plus_1_eq_0: "w + 1 = 0 \<longleftrightarrow> w = - 1" for w :: "'a::len word"
  by (metis add.inverse_inverse add_eq_0_iff add.commute)

lemma word_minus_1_eq: "w - 1 = - 1 \<longleftrightarrow> w = 0" for w :: "'a::len word"
  by (metis diff_0 diff_add_cancel)

lemma bpos_successor_max [simp]: "bpos_successor bpos_max = bpos_min"
  by (simp add: bpos_successor_def bpos_max_def bpos_min_def)

lemma bpos_successor_gt:
  assumes "p \<noteq> bpos_max"
  shows "p < bpos_successor p"
  using assms
  by (cases p) (auto simp: bpos_successor_def bpos_max_def bpos_less_iff Let_def
      word_plus_1_eq_0 intro: word_less_plus_1)

lemma bpos_successor_least:
  assumes "p < q"
  shows "bpos_successor p \<le> q"
  using assms
  by (auto simp: bpos_successor_def bpos_less_iff bpos_le_iff Let_def
      word_plus_1_eq_0 not_less dest: inc_le order.strict_trans2
      simp flip: word_order.not_eq_extremum)

lemma bpos_predecessor_successor [simp]: "bpos_predecessor (bpos_successor p) = p"
  by (cases p) (auto simp: bpos_successor_def bpos_predecessor_def Let_def word_minus_1_eq
      word_plus_1_eq_0)

lemma bpos_successor_predecessor [simp]: "bpos_successor (bpos_predecessor p) = p"
  by (cases p) (auto simp: bpos_successor_def bpos_predecessor_def Let_def word_minus_1_eq
      word_plus_1_eq_0)

text \<open>
  The successor of a position is the next position in the key order: it is strictly
  above, nothing lies between, the predecessor undoes it, and only the maximal position
  wraps (to the minimum).
\<close>

theorem bpos_successor_adjacent:
  "(p = bpos_max \<longrightarrow> bpos_successor p = bpos_min) \<and>
   (p \<noteq> bpos_max \<longrightarrow> p < bpos_successor p \<and> (\<forall>q. p < q \<longrightarrow> bpos_successor p \<le> q)) \<and>
   bpos_predecessor (bpos_successor p) = p"
  using bpos_successor_gt[of p] bpos_successor_least[of p] by simp

theorem bpos_successor_adjacent_witness:
  "Bpos 3 (- 1) (- 1) < Bpos 4 0 0 \<and> \<not> (Bpos 3 (- 1) (- 1) < Bpos 3 7 9)
   \<and> bpos_successor (Bpos 3 (- 1) (- 1)) \<le> Bpos 4 0 5"
proof -
  have "Bpos 3 (- 1) (- 1) \<noteq> bpos_max" by (simp add: bpos_max_def)
  moreover have "Bpos 3 (- 1) (- 1) < Bpos 4 0 5" by (simp add: bpos_less_iff)
  ultimately have "bpos_successor (Bpos 3 (- 1) (- 1)) \<le> Bpos 4 0 5"
    using bpos_successor_adjacent[of "Bpos 3 (- 1) (- 1)"] by blast
  then show ?thesis by (simp add: bpos_less_iff)
qed

section \<open>The legacy key\<close>

text \<open>
  \<open>BtreeKey\<close> orders by address, then by snapshot downwards, then by type; the version
  takes no part in comparisons, so the code's \<open>==\<close> is \<open>btree_key_eq\<close>, not HOL's \<open>=\<close>.
\<close>

record btree_key =
  vaddr :: u64
  snapshot_id :: u32
  bk_type :: key_type
  bk_version :: u64

definition btree_key_new :: "u64 \<Rightarrow> u32 \<Rightarrow> key_type \<Rightarrow> btree_key" where
  "btree_key_new va sid kt = \<lparr>vaddr = va, snapshot_id = sid, bk_type = kt, bk_version = 0\<rparr>"

definition btree_key_max :: btree_key where
  "btree_key_max = btree_key_new (- 1) 0 Normal"

definition btree_key_min :: btree_key where
  "btree_key_min = btree_key_new 0 (- 1) Normal"

definition btree_key_eq :: "btree_key \<Rightarrow> btree_key \<Rightarrow> bool" where
  "btree_key_eq a b \<longleftrightarrow> vaddr a = vaddr b \<and> snapshot_id a = snapshot_id b \<and> bk_type a = bk_type b"

definition btree_key_cmp :: "btree_key \<Rightarrow> btree_key \<Rightarrow> ordering" where
  "btree_key_cmp a b = then_with (ord_cmp (vaddr a) (vaddr b))
     (then_with (ord_cmp (snapshot_id b) (snapshot_id a))
       (ord_cmp (key_type_u8 (bk_type a)) (key_type_u8 (bk_type b))))"

definition btree_key_to_bpos :: "btree_key \<Rightarrow> bpos" where
  "btree_key_to_bpos k = Bpos 0 (vaddr k) (snapshot_id k)"

definition btree_key_from_bpos :: "bpos \<Rightarrow> key_type \<Rightarrow> btree_key" where
  "btree_key_from_bpos p kt = btree_key_new (offset p) (snapshot p) kt"

text \<open>
  The legacy key order is a total preorder whose equality is the hand-written
  \<open>PartialEq\<close>: comparing is antisymmetric and transitive, and two keys compare equal
  exactly when \<open>==\<close> holds, whatever their versions.
\<close>

theorem btree_key_cmp_order:
  "(btree_key_cmp a b = Equal \<longleftrightarrow> btree_key_eq a b) \<and>
   (btree_key_cmp a b = Less \<longleftrightarrow> btree_key_cmp b a = Greater) \<and>
   (btree_key_cmp a b \<noteq> Greater \<longrightarrow> btree_key_cmp b c \<noteq> Greater \<longrightarrow> btree_key_cmp a c \<noteq> Greater) \<and>
   btree_key_cmp btree_key_min a \<noteq> Greater"
proof (intro conjI impI)
  show "btree_key_cmp a b = Equal \<longleftrightarrow> btree_key_eq a b"
    by (auto simp: btree_key_cmp_def btree_key_eq_def)
  show "btree_key_cmp a b = Less \<longleftrightarrow> btree_key_cmp b a = Greater"
    by (auto simp: btree_key_cmp_def)
  show "btree_key_cmp a c \<noteq> Greater"
    if "btree_key_cmp a b \<noteq> Greater" and "btree_key_cmp b c \<noteq> Greater"
    using that by (auto simp: btree_key_cmp_def not_less)
  show "btree_key_cmp btree_key_min a \<noteq> Greater"
    by (auto simp: btree_key_cmp_def btree_key_min_def btree_key_new_def)
qed

theorem btree_key_cmp_order_witness:
  "btree_key_cmp (btree_key_new 5 9 Normal) (btree_key_new 7 1 Deleted) \<noteq> Greater"
proof -
  have "btree_key_cmp (btree_key_new 5 9 Normal) (btree_key_new 5 4 Whiteout) \<noteq> Greater"
    "btree_key_cmp (btree_key_new 5 4 Whiteout) (btree_key_new 7 1 Deleted) \<noteq> Greater"
    by (simp_all add: btree_key_cmp_def btree_key_new_def ord_cmp_def)
  then show ?thesis using btree_key_cmp_order by blast
qed

section \<open>Node pointers\<close>

datatype storage_error =
    InvalidData
  | InvalidBlockSize u64
  | ChecksumMismatch u32 u32
  | InvalidArgument
  | NotFound
  | TransactionErr
  | SpaceExhausted u64
  | SerializationErr

record btree_ptr_v2 =
  block_addr :: u64
  sectors_written :: u16
  level :: u8
  generation :: u32

definition btree_ptr_invalid :: btree_ptr_v2 where
  "btree_ptr_invalid = \<lparr>block_addr = 0, sectors_written = 0, level = 0, generation = 0\<rparr>"

definition btree_ptr_is_valid :: "btree_ptr_v2 \<Rightarrow> bool" where
  "btree_ptr_is_valid p \<longleftrightarrow> block_addr p \<noteq> 0 \<and> sectors_written p \<noteq> 0"

definition btree_ptr_disk_bytes :: nat where
  "btree_ptr_disk_bytes = 16"

text \<open>\<open>to_bytes\<close> fills a zeroed array: byte 11 is never written and stays 0.\<close>

definition btree_ptr_to_bytes :: "btree_ptr_v2 \<Rightarrow> u8 list" where
  "btree_ptr_to_bytes p =
     le_bytes 8 (block_addr p) @ le_bytes 2 (sectors_written p) @ [level p, 0] @ le_bytes 4 (generation p)"

definition btree_ptr_from_bytes :: "u8 list \<Rightarrow> storage_error + btree_ptr_v2" where
  "btree_ptr_from_bytes bs =
     (if length bs \<noteq> btree_ptr_disk_bytes then Inl InvalidData
      else if bs ! 11 \<noteq> 0 then Inl InvalidData
      else Inr \<lparr>block_addr = le_word (take 8 bs),
                sectors_written = le_word (take 2 (drop 8 bs)),
                level = bs ! 10,
                generation = le_word (take 4 (drop 12 bs))\<rparr>)"

lemma length_btree_ptr_to_bytes [simp]: "length (btree_ptr_to_bytes p) = 16"
  by (simp add: btree_ptr_to_bytes_def)

lemma btree_ptr_decode_encode:
  "btree_ptr_from_bytes (btree_ptr_to_bytes p) = Inr p"
proof -
  have "btree_ptr_to_bytes p ! 11 = 0" "btree_ptr_to_bytes p ! 10 = level p"
    by (simp_all add: btree_ptr_to_bytes_def nth_append)
  moreover have "take 8 (btree_ptr_to_bytes p) = le_bytes 8 (block_addr p)"
    "take 2 (drop 8 (btree_ptr_to_bytes p)) = le_bytes 2 (sectors_written p)"
    "take 4 (drop 12 (btree_ptr_to_bytes p)) = le_bytes 4 (generation p)"
    by (simp_all add: btree_ptr_to_bytes_def)
  ultimately show ?thesis
    by (simp add: btree_ptr_from_bytes_def btree_ptr_disk_bytes_def le_word_le_bytes_full)
qed

lemma split_at_10_12:
  assumes "length bs = 16"
  shows "take 8 bs @ take 2 (drop 8 bs) @ [bs ! 10, bs ! 11] @ take 4 (drop 12 bs) = bs"
  by (rule nth_equalityI)
    (use assms in \<open>auto simp: nth_append nth_Cons' less_Suc_eq numeral_eq_Suc\<close>)

lemma btree_ptr_encode_decode:
  assumes "btree_ptr_from_bytes bs = Inr p"
  shows "btree_ptr_to_bytes p = bs"
proof -
  from assms have len: "length bs = 16" and z: "bs ! 11 = 0"
    and p: "p = \<lparr>block_addr = le_word (take 8 bs), sectors_written = le_word (take 2 (drop 8 bs)),
                level = bs ! 10, generation = le_word (take 4 (drop 12 bs))\<rparr>"
    by (auto simp: btree_ptr_from_bytes_def btree_ptr_disk_bytes_def split: if_splits)
  have "btree_ptr_to_bytes p
    = take 8 bs @ take 2 (drop 8 bs) @ [bs ! 10, bs ! 11] @ take 4 (drop 12 bs)"
    using len z by (simp add: p btree_ptr_to_bytes_def le_bytes_le_word)
  also have "\<dots> = bs" using len by (rule split_at_10_12)
  finally show ?thesis .
qed

text \<open>
  The 16-byte node pointer codec is a bijection between pointers and the byte strings
  it accepts: decoding an encoding returns the pointer, and every accepted byte string is
  the encoding of what it decodes to, so no two disk images stand for one pointer.
\<close>

theorem btree_ptr_codec:
  "btree_ptr_from_bytes (btree_ptr_to_bytes p) = Inr p \<and>
   (btree_ptr_from_bytes bs = Inr q \<longrightarrow> bs = btree_ptr_to_bytes q)"
  using btree_ptr_decode_encode btree_ptr_encode_decode by auto

theorem btree_ptr_codec_witness:
  "btree_ptr_to_bytes \<lparr>block_addr = 1, sectors_written = 8, level = 2, generation = 3\<rparr>
     = [1,0,0,0,0,0,0,0, 8,0, 2, 0, 3,0,0,0]"
proof -
  have "btree_ptr_from_bytes [1,0,0,0,0,0,0,0, 8,0, 2, 0, 3,0,0,0]
    = Inr \<lparr>block_addr = 1, sectors_written = 8, level = 2, generation = 3\<rparr>"
    by (simp add: btree_ptr_from_bytes_def btree_ptr_disk_bytes_def)
  then show ?thesis using btree_ptr_codec by metis
qed

section \<open>Values and entries\<close>

record bch_val =
  paddr :: u64
  ver :: u16

definition bch_val_new :: "u64 \<Rightarrow> u16 \<Rightarrow> bch_val option" where
  "bch_val_new pa v = map_option (\<lambda>a. \<lparr>paddr = a, ver = v\<rparr>) (addr48_new pa)"

definition bch_val_wf :: "bch_val \<Rightarrow> bool" where
  "bch_val_wf v \<longleftrightarrow> paddr v \<le> addr48_max"

datatype key_value = Extent bch_val | BtreePtr btree_ptr_v2 | Raw "u8 list"

fun as_extent :: "key_value \<Rightarrow> bch_val option" where
  "as_extent (Extent v) = Some v"
| "as_extent _ = None"

fun as_btree_ptr :: "key_value \<Rightarrow> btree_ptr_v2 option" where
  "as_btree_ptr (BtreePtr p) = Some p"
| "as_btree_ptr _ = None"

fun key_value_to_bytes :: "key_value \<Rightarrow> u8 list" where
  "key_value_to_bytes (Extent v) = le_bytes 6 (paddr v) @ le_bytes 2 (ver v)"
| "key_value_to_bytes (BtreePtr p) = btree_ptr_to_bytes p"
| "key_value_to_bytes (Raw bs) = bs"

record btree_entry =
  pos :: bpos
  ekey_type :: key_type
  evalue :: key_value

text \<open>
  \<open>to_legacy\<close> builds a \<open>BchVal\<close> from the pointer variant and so can fail the 48-bit
  assertion on its address; its generation is cut to 16 bits.
\<close>

definition entry_to_legacy :: "btree_entry \<Rightarrow> (btree_key \<times> bch_val) option" where
  "entry_to_legacy e =
     (let key = btree_key_new (offset (pos e)) (snapshot (pos e)) (ekey_type e) in
      case evalue e of
        Extent v \<Rightarrow> Some (key, v)
      | BtreePtr p \<Rightarrow> map_option (Pair key) (bch_val_new (block_addr p) (ucast (generation p)))
      | Raw _ \<Rightarrow> map_option (Pair key) (bch_val_new 0 0))"

definition entry_from_legacy :: "btree_key \<Rightarrow> bch_val \<Rightarrow> btree_entry" where
  "entry_from_legacy k v =
     \<lparr>pos = Bpos 0 (vaddr k) (snapshot_id k), ekey_type = bk_type k, evalue = Extent v\<rparr>"

definition div_ceil8 :: "nat \<Rightarrow> nat" where
  "div_ceil8 n = (n + 7) div 8"

definition bkey_u64s :: nat where
  "bkey_u64s = 3"

definition entry_packed_size :: "btree_entry \<Rightarrow> u32" where
  "entry_packed_size e =
     (of_nat bkey_u64s + of_nat (div_ceil8 (length (key_value_to_bytes (evalue e))))) * 8"

text \<open>The address/version pair read back from the first eight value bytes, as
  \<open>read_packed_entry\<close> does.\<close>

definition bch_val_of_bytes :: "u8 list \<Rightarrow> u64 \<times> u16" where
  "bch_val_of_bytes bs = (le_word (take 6 bs), le_word (take 2 (drop 6 bs)))"

lemma addr48_take_bit:
  assumes "a \<le> addr48_max"
  shows "take_bit 48 a = a"
proof -
  have "unat a < 2 ^ 48" using assms by (simp add: word_le_nat_alt addr48_max_def)
  then have "unat (take_bit 48 a) = unat a"
    by (simp add: unsigned_take_bit_eq take_bit_nat_eq_self)
  then show ?thesis by (simp only: word_unat_eq_iff)
qed

lemma extent_bytes_roundtrip:
  assumes "bch_val_wf v"
  shows "bch_val_of_bytes (key_value_to_bytes (Extent v)) = (paddr v, ver v)"
proof -
  have "(le_word (le_bytes 2 (ver v)) :: u16) = ver v"
    by (rule le_word_le_bytes_full) simp
  moreover have "take_bit 48 (paddr v) = paddr v"
    using assms by (simp add: bch_val_wf_def addr48_take_bit)
  ultimately show ?thesis
    by (simp add: bch_val_of_bytes_def le_word_le_bytes)
qed

section \<open>Btree ids\<close>

datatype btree_id = Extents | Subvolumes | Snapshots | SnapshotTrees | Alloc | Freespace | BucketGens

fun btree_id_index :: "btree_id \<Rightarrow> u8" where
  "btree_id_index Extents = 0"
| "btree_id_index Subvolumes = 1"
| "btree_id_index Snapshots = 2"
| "btree_id_index SnapshotTrees = 3"
| "btree_id_index Alloc = 4"
| "btree_id_index Freespace = 5"
| "btree_id_index BucketGens = 6"

definition btree_id_from_u8 :: "u8 \<Rightarrow> btree_id option" where
  "btree_id_from_u8 v =
     (if v = 0 then Some Extents else if v = 1 then Some Subvolumes else if v = 2 then Some Snapshots
      else if v = 3 then Some SnapshotTrees else if v = 4 then Some Alloc else if v = 5 then Some Freespace
      else if v = 6 then Some BucketGens else None)"

end
