(* ===== verification/KeyPack.thy ===== *)
theory KeyPack
  imports Keys
begin

text \<open>
  The packed-key codec of \<open>btree/key.rs\<close>: \<open>BkeyFormat\<close>, the header of \<open>BkeyPacked\<close>, the
  bit-stream writer and reader (\<open>PackState\<close>, \<open>UnpackState\<close>, \<open>set_inc_field\<close>,
  \<open>get_inc_field\<close>), the pack and unpack entry points and the packed comparisons.

  The key area is the list of its 64-bit words, as the code accesses it through a \<open>u64\<close>
  pointer; on a little-endian machine the three header bytes are the three low bytes of
  word 0. The value bytes follow. Reads and writes outside the key area, and shifts by
  64 or more, are undefined behaviour or a panic in the code and \<open>None\<close> here.
\<close>

section \<open>Formats and packed keys\<close>

record bkey_format =
  key_u64s :: u8
  nr_fields :: u8
  bits_per_field :: "u8 list"
  field_offset :: "u64 list"

definition bkey_format_current :: bkey_format where
  "bkey_format_current = \<lparr>key_u64s = 3, nr_fields = 5, bits_per_field = [64, 64, 32, 48, 16],
     field_offset = [0, 0, 0, 0, 0]\<rparr>"

definition key_bytes :: "bkey_format \<Rightarrow> nat" where
  "key_bytes fmt = unat (key_u64s fmt) * 8"

definition field_max :: "bkey_format \<Rightarrow> nat \<Rightarrow> u64" where
  "field_max fmt f =
     (let bits = unat (bits_per_field fmt ! f) in
      if 64 \<le> bits then - 1 else field_offset fmt ! f + (push_bit bits 1 - 1))"

record bkey_packed =
  kwords :: "u64 list"
  vbytes :: "u8 list"

definition set_byte :: "nat \<Rightarrow> u8 \<Rightarrow> u64 \<Rightarrow> u64" where
  "set_byte i b w = (w AND NOT (push_bit (8 * i) 255)) OR push_bit (8 * i) (ucast b)"

definition get_byte :: "nat \<Rightarrow> u64 \<Rightarrow> u8" where
  "get_byte i w = ucast (drop_bit (8 * i) w)"

definition pk_u64s :: "bkey_packed \<Rightarrow> u8" where
  "pk_u64s k = get_byte 0 (kwords k ! 0)"

definition pk_format :: "bkey_packed \<Rightarrow> u8" where
  "pk_format k = get_byte 1 (kwords k ! 0) AND 0x7F"

definition pk_needs_whiteout :: "bkey_packed \<Rightarrow> bool" where
  "pk_needs_whiteout k \<longleftrightarrow> get_byte 1 (kwords k ! 0) AND 0x80 \<noteq> 0"

definition pk_type :: "bkey_packed \<Rightarrow> u8" where
  "pk_type k = get_byte 2 (kwords k ! 0)"

definition pk_is_packed :: "bkey_packed \<Rightarrow> bool" where
  "pk_is_packed k \<longleftrightarrow> pk_format k \<noteq> 1"

text \<open>Writing the three header bytes: \<open>out.u64s\<close>, \<open>out.set_format\<close>, \<open>out.type_\<close>.\<close>

definition set_header :: "u8 \<Rightarrow> u8 \<Rightarrow> u8 \<Rightarrow> u64 list \<Rightarrow> u64 list" where
  "set_header u64s fmt ty ws =
     ws[0 := set_byte 2 ty
          (set_byte 1 ((get_byte 1 (ws ! 0) AND 0x80) OR fmt)
            (set_byte 0 u64s (ws ! 0)))]"

section \<open>Bit-stream states\<close>

record pack_state =
  ps_bits :: nat
  ps_w :: u64
  ps_p :: int
  ps_mem :: "u64 list"

record unpack_state =
  us_bits :: nat
  us_w :: u64
  us_p :: int

definition pack_new :: "nat \<Rightarrow> u64 list \<Rightarrow> pack_state" where
  "pack_new n mem = \<lparr>ps_bits = 64, ps_w = 0, ps_p = int n - 1, ps_mem = mem\<rparr>"

definition pack_finish :: "pack_state \<Rightarrow> pack_state option" where
  "pack_finish st =
     (if 0 \<le> ps_p st \<and> ps_p st < int (length (ps_mem st))
      then Some (st\<lparr>ps_mem := (ps_mem st)[nat (ps_p st) := ps_w st]\<rparr>) else None)"

definition read_word :: "u64 list \<Rightarrow> int \<Rightarrow> u64 option" where
  "read_word mem p = (if 0 \<le> p \<and> p < int (length mem) then Some (mem ! nat p) else None)"

definition unpack_new :: "nat \<Rightarrow> u64 list \<Rightarrow> unpack_state option" where
  "unpack_new n mem = (case read_word mem (int n - 1) of
     None \<Rightarrow> None
   | Some w \<Rightarrow> Some \<lparr>us_bits = 64, us_w = w, us_p = int n - 1\<rparr>)"

definition unpack_prev_word :: "u64 list \<Rightarrow> unpack_state \<Rightarrow> unpack_state option" where
  "unpack_prev_word mem st = (case read_word mem (us_p st - 1) of
     None \<Rightarrow> None
   | Some w \<Rightarrow> Some \<lparr>us_bits = 64, us_w = w, us_p = us_p st - 1\<rparr>)"

text \<open>
  \<open>set_inc_field\<close>: \<open>Some (False, _)\<close> is the code's \<open>false\<close> (value below the field offset
  or too wide); \<open>None\<close> is a write outside the key area or an arithmetic fault.
\<close>

definition set_inc_field ::
    "bkey_format \<Rightarrow> pack_state \<Rightarrow> nat \<Rightarrow> u64 \<Rightarrow> (bool \<times> pack_state) option" where
  "set_inc_field fmt st field raw =
     (let bits = unat (bits_per_field fmt ! field); off = field_offset fmt ! field in
      if raw < off then Some (False, st)
      else let v = raw - off in
      if fls64 v > bits then Some (False, st)
      else if bits > 0 then
        (if bits > ps_bits st then
           let fill = ps_bits st; remaining = bits - fill;
               w1 = (if fill > 0 \<and> remaining > 0 then ps_w st OR drop_bit remaining v else ps_w st)
           in case pack_finish (st\<lparr>ps_w := w1, ps_bits := 0\<rparr>) of
                None \<Rightarrow> None
              | Some st1 \<Rightarrow>
                  if remaining > 64 then None
                  else Some (True, st1\<lparr>ps_p := ps_p st1 - 1, ps_bits := 64 - remaining,
                                       ps_w := push_bit (64 - remaining) v\<rparr>)
         else Some (True, st\<lparr>ps_bits := ps_bits st - bits,
                             ps_w := ps_w st OR push_bit (ps_bits st - bits) v\<rparr>))
      else Some (True, st))"

definition get_inc_field ::
    "bkey_format \<Rightarrow> u64 list \<Rightarrow> unpack_state \<Rightarrow> nat \<Rightarrow> (u64 \<times> unpack_state) option" where
  "get_inc_field fmt mem st field =
     (let bits = unat (bits_per_field fmt ! field); off = field_offset fmt ! field in
      if bits = 0 \<or> 64 < bits then None
      else if us_bits st \<le> bits then
        (let v = drop_bit (64 - bits) (us_w st); remaining = bits - us_bits st in
         if 63 < remaining then None
         else case unpack_prev_word mem st of
           None \<Rightarrow> None
         | Some st1 \<Rightarrow>
             Some ((v OR drop_bit (63 - remaining) (drop_bit 1 (us_w st1))) + off,
                   st1\<lparr>us_w := push_bit remaining (us_w st1), us_bits := us_bits st1 - remaining\<rparr>))
      else Some (drop_bit (64 - bits) (us_w st) + off,
                 st\<lparr>us_w := push_bit bits (us_w st), us_bits := us_bits st - bits\<rparr>))"

section \<open>Packing\<close>

text \<open>
  \<open>Rejected\<close> is the code's \<open>false\<close>; \<open>Fault\<close> an access outside the key area. The key
  area is cleared before packing, so its old content plays no part.
\<close>

datatype 'a outcome = Packed 'a | Rejected | Fault

fun set_fields :: "bkey_format \<Rightarrow> pack_state \<Rightarrow> (nat \<times> u64) list \<Rightarrow> u64 list outcome" where
  "set_fields fmt st [] = (case pack_finish st of None \<Rightarrow> Fault | Some st' \<Rightarrow> Packed (ps_mem st'))"
| "set_fields fmt st ((f, v) # fs) =
     (case set_inc_field fmt st f v of
        None \<Rightarrow> Fault
      | Some (ok, st') \<Rightarrow> if \<not> ok then Rejected else set_fields fmt st' fs)"

definition pos_fields :: "bpos \<Rightarrow> (nat \<times> u64) list" where
  "pos_fields p = [(0, inode p), (1, offset p), (2, ucast (snapshot p))]"

definition pack_key_words :: "bkey_format \<Rightarrow> bpos \<Rightarrow> u64 list outcome" where
  "pack_key_words fmt p =
     (let n = unat (key_u64s fmt) in set_fields fmt (pack_new n (replicate n 0)) (pos_fields p))"

definition bkey_pack_pos :: "bkey_format \<Rightarrow> bpos \<Rightarrow> bkey_packed outcome" where
  "bkey_pack_pos fmt p =
     (case pack_key_words fmt p of
        Packed ws \<Rightarrow> Packed \<lparr>kwords = set_header (key_u64s fmt) 0 0 ws, vbytes = []\<rparr>
      | Rejected \<Rightarrow> Rejected | Fault \<Rightarrow> Fault)"

definition bkey_pack_raw :: "bkey_format \<Rightarrow> bpos \<Rightarrow> u8 \<Rightarrow> u8 list \<Rightarrow> bkey_packed outcome" where
  "bkey_pack_raw fmt p ty vb =
     (case pack_key_words fmt p of
        Packed ws \<Rightarrow>
          (let total = key_u64s fmt + of_nat (div_ceil8 (length vb));
               pad = unat total * 8 - (unat (key_u64s fmt) * 8 + length vb)
           in Packed \<lparr>kwords = set_header total 0 ty ws, vbytes = vb @ replicate pad 0\<rparr>)
      | Rejected \<Rightarrow> Rejected | Fault \<Rightarrow> Fault)"

definition bkey_pack :: "bkey_format \<Rightarrow> bpos \<Rightarrow> u8 \<Rightarrow> u64 \<Rightarrow> u16 \<Rightarrow> bkey_packed outcome" where
  "bkey_pack fmt p ty pa v =
     (case pack_key_words fmt p of
        Packed ws \<Rightarrow> Packed \<lparr>kwords = set_header (key_u64s fmt + 1) 0 ty ws,
                             vbytes = le_bytes 6 pa @ le_bytes 2 v\<rparr>
      | Rejected \<Rightarrow> Rejected | Fault \<Rightarrow> Fault)"

section \<open>Unpacking and comparing\<close>

fun get_fields :: "bkey_format \<Rightarrow> u64 list \<Rightarrow> unpack_state \<Rightarrow> nat list \<Rightarrow> u64 list option" where
  "get_fields fmt mem st [] = Some []"
| "get_fields fmt mem st (f # fs) =
     (case get_inc_field fmt mem st f of
        None \<Rightarrow> None
      | Some (v, st') \<Rightarrow> map_option ((#) v) (get_fields fmt mem st' fs))"

definition unpack_key_fields :: "bkey_format \<Rightarrow> bkey_packed \<Rightarrow> u64 list option" where
  "unpack_key_fields fmt k =
     (case unpack_new (unat (key_u64s fmt)) (kwords k) of
        None \<Rightarrow> None
      | Some st \<Rightarrow> get_fields fmt (kwords k) st [0, 1, 2])"

definition bkey_unpack_pos :: "bkey_format \<Rightarrow> bkey_packed \<Rightarrow> bpos option" where
  "bkey_unpack_pos fmt k =
     map_option (\<lambda>vs. Bpos (vs ! 0) (vs ! 1) (ucast (vs ! 2))) (unpack_key_fields fmt k)"

definition bkey_unpack :: "bkey_format \<Rightarrow> bkey_packed \<Rightarrow> (bpos \<times> u8 \<times> u64 \<times> u16) option" where
  "bkey_unpack fmt k =
     (if length (vbytes k) < 8 then None
      else map_option (\<lambda>p. (p, pk_type k, bch_val_of_bytes (vbytes k))) (bkey_unpack_pos fmt k))"

definition bkey_unpack_bytes :: "bkey_format \<Rightarrow> bkey_packed \<Rightarrow> (bpos \<times> u8 \<times> u8 list) option" where
  "bkey_unpack_bytes fmt k =
     (let total = unat (pk_u64s k) * 8; off = unat (key_u64s fmt) * 8 in
      if total < off \<or> length (vbytes k) < total - off then None
      else map_option (\<lambda>p. (p, pk_type k, take (total - off) (vbytes k))) (bkey_unpack_pos fmt k))"

text \<open>
  The packed comparisons read a field of each key only while all earlier fields agreed.
\<close>

fun cmp_fields ::
    "bkey_format \<Rightarrow> u64 list \<Rightarrow> unpack_state \<Rightarrow> u64 list \<Rightarrow> unpack_state \<Rightarrow> nat list \<Rightarrow> ordering option" where
  "cmp_fields fmt ma sa mb sb [] = Some Equal"
| "cmp_fields fmt ma sa mb sb (f # fs) =
     (case get_inc_field fmt ma sa f of None \<Rightarrow> None | Some (va, sa') \<Rightarrow>
      (case get_inc_field fmt mb sb f of None \<Rightarrow> None | Some (vb, sb') \<Rightarrow>
       (if va = vb then cmp_fields fmt ma sa' mb sb' fs else Some (ord_cmp va vb))))"

definition bkey_cmp_packed :: "bkey_format \<Rightarrow> bkey_packed \<Rightarrow> bkey_packed \<Rightarrow> ordering option" where
  "bkey_cmp_packed fmt a b =
     (let n = unat (key_u64s fmt) in
      case unpack_new n (kwords a) of None \<Rightarrow> None | Some sa \<Rightarrow>
      (case unpack_new n (kwords b) of None \<Rightarrow> None | Some sb \<Rightarrow>
        cmp_fields fmt (kwords a) sa (kwords b) sb [0, 1, 2]))"

fun cmp_fields_vs ::
    "bkey_format \<Rightarrow> u64 list \<Rightarrow> unpack_state \<Rightarrow> (nat \<times> u64) list \<Rightarrow> ordering option" where
  "cmp_fields_vs fmt ma sa [] = Some Equal"
| "cmp_fields_vs fmt ma sa ((f, b) # fs) =
     (case get_inc_field fmt ma sa f of None \<Rightarrow> None | Some (va, sa') \<Rightarrow>
       (if va = b then cmp_fields_vs fmt ma sa' fs else Some (ord_cmp va b)))"

definition bkey_cmp_packed_vs_bpos :: "bkey_format \<Rightarrow> bkey_packed \<Rightarrow> bpos \<Rightarrow> ordering option" where
  "bkey_cmp_packed_vs_bpos fmt k p =
     (case unpack_new (unat (key_u64s fmt)) (kwords k) of
        None \<Rightarrow> None
      | Some st \<Rightarrow> cmp_fields_vs fmt (kwords k) st (pos_fields p))"

definition entry_size_bytes :: "bkey_packed \<Rightarrow> nat" where
  "entry_size_bytes k = unat (pk_u64s k) * 8"

definition bkey_packed_bytes :: "bkey_format \<Rightarrow> bkey_packed \<Rightarrow> nat" where
  "bkey_packed_bytes fmt k = (if pk_is_packed k then key_bytes fmt else unat (pk_u64s k) * 8)"

section \<open>The key area as a bit stream\<close>

text \<open>
  Stream bit \<open>s\<close> counts from the top bit of the highest word downwards: the code fills
  and reads fields in this order.
\<close>

definition sbit :: "u64 list \<Rightarrow> nat \<Rightarrow> bool" where
  "sbit mem s = bit (mem ! (length mem - 1 - s div 64)) (63 - s mod 64)"

definition reading :: "u64 list \<Rightarrow> unpack_state \<Rightarrow> nat \<Rightarrow> bool" where
  "reading mem st s \<longleftrightarrow>
     s < 64 * length mem \<and> us_p st = int (length mem) - 1 - int (s div 64) \<and>
     us_bits st = 64 - s mod 64 \<and>
     (\<forall>k. bit (us_w st) k \<longleftrightarrow> k < 64 \<and> s mod 64 \<le> k \<and> sbit mem (s + (63 - k)))"

text \<open>The value of \<open>b\<close> stream bits from \<open>s\<close>, most significant first.\<close>

definition stream_value :: "u64 list \<Rightarrow> nat \<Rightarrow> nat \<Rightarrow> u64 \<Rightarrow> bool" where
  "stream_value mem s b v \<longleftrightarrow> (\<forall>k. bit v k \<longleftrightarrow> k < b \<and> k < 64 \<and> sbit mem (s + (b - 1 - k)))"

lemma stream_value_unique: "stream_value mem s b v \<Longrightarrow> stream_value mem s b v' \<Longrightarrow> v = v'"
  by (rule bit_word_eqI) (simp add: stream_value_def)

lemma reading_new:
  assumes "0 < n" and "length mem = n"
  shows "\<exists>st. unpack_new n mem = Some st \<and> reading mem st 0"
proof -
  have "bit (mem ! (n - Suc 0)) k \<longleftrightarrow> k < 64 \<and> sbit mem (63 - k)" for k
    using assms bit_imp_le_length[of "mem ! (n - Suc 0)" k]
    by (auto simp: sbit_def)
  then show ?thesis
    using assms by (auto simp: unpack_new_def read_word_def reading_def nat_diff_distrib')
qed

lemma div_mod_64:
  assumes "s = 64 * q + r" and "r < (64::nat)"
  shows "s div 64 = q" and "s mod 64 = r"
  using assms by simp_all

lemma add_div_mod_64:
  assumes "s mod 64 + b < (64::nat)"
  shows "(s + b) div 64 = s div 64" and "(s + b) mod 64 = s mod 64 + b"
proof -
  have "s + b = 64 * (s div 64) + (s mod 64 + b)" by simp
  then show "(s + b) div 64 = s div 64" and "(s + b) mod 64 = s mod 64 + b"
    using assms by (blast intro: div_mod_64)+
qed

lemma block_less_64:
  assumes "64 * q + r < 64 * (n::nat)"
  shows "q < n"
  using assms by linarith

lemma add_less_64:
  assumes "s mod 64 + b < (64::nat)" and "s < 64 * n"
  shows "s + b < 64 * n"
proof -
  define q where "q = s div 64"
  define r where "r = s mod 64"
  have s: "s = 64 * q + r" "r + b < 64" using assms(1) by (simp_all add: q_def r_def)
  then have "q < n" using assms(2) by (simp add: block_less_64)
  with s show ?thesis by linarith
qed

lemma sbit_word:
  assumes "q < length mem" and "k < 64"
  shows "sbit mem (64 * q + (63 - k)) = bit (mem ! (length mem - 1 - q)) k"
proof -
  have "63 - k < 64" by simp
  then have "(64 * q + (63 - k)) div 64 = q" and "(64 * q + (63 - k)) mod 64 = 63 - k"
    by (rule div_mod_64[OF refl])+
  then show ?thesis using assms unfolding sbit_def by simp
qed

lemma reading_prev_word:
  assumes "reading mem st s" and "s div 64 + 1 < length mem"
  shows "\<exists>st1. unpack_prev_word mem st = Some st1 \<and> us_bits st1 = 64 \<and>
    us_p st1 = us_p st - 1 \<and>
    (\<forall>k. bit (us_w st1) k \<longleftrightarrow> k < 64 \<and> sbit mem (64 * (s div 64 + 1) + (63 - k)))"
proof -
  let ?q = "s div 64 + 1"
  have p: "us_p st - 1 = int (length mem - 1 - ?q)"
    using assms by (simp add: reading_def of_nat_diff)
  have "bit (mem ! (length mem - 1 - ?q)) k \<longleftrightarrow> k < 64 \<and> sbit mem (64 * ?q + (63 - k))" for k
    using sbit_word[OF assms(2), of k] bit_imp_le_length[of "mem ! (length mem - 1 - ?q)" k]
    by (cases "k < 64") auto
  moreover have "unpack_prev_word mem st
      = Some \<lparr>us_bits = 64, us_w = mem ! (length mem - 1 - ?q), us_p = us_p st - 1\<rparr>"
  proof -
    have "read_word mem (int (length mem - 1 - ?q)) = Some (mem ! (length mem - 1 - ?q))"
      using assms(2) by (simp add: read_word_def del: of_nat_diff)
    then show ?thesis by (simp only: unpack_prev_word_def p option.case)
  qed
  ultimately show ?thesis by simp
qed

lemma get_inc_field_short:
  assumes R: "reading mem st s" and b: "unat (bits_per_field fmt ! f) = b" "1 \<le> b"
    and short: "s mod 64 + b < 64"
  shows "\<exists>v st'. get_inc_field fmt mem st f = Some (v + field_offset fmt ! f, st') \<and>
    reading mem st' (s + b) \<and> stream_value mem s b v"
proof -
  note dm = add_div_mod_64[OF short]
  have lt: "s + b < 64 * length mem"
    by (rule add_less_64[OF short]) (use R in \<open>simp add: reading_def\<close>)
  have ub: "us_bits st = 64 - s mod 64" and up: "us_p st = int (length mem) - 1 - int (s div 64)"
    and w: "\<And>k. bit (us_w st) k \<longleftrightarrow> k < 64 \<and> s mod 64 \<le> k \<and> sbit mem (s + (63 - k))"
    using R by (auto simp: reading_def)
  have nle: "\<not> us_bits st \<le> b" "b \<noteq> 0" "\<not> 64 < b" using ub b short by linarith+
  let ?v = "drop_bit (64 - b) (us_w st)"
  let ?st' = "st\<lparr>us_w := push_bit b (us_w st), us_bits := us_bits st - b\<rparr>"
  have "get_inc_field fmt mem st f = Some (?v + field_offset fmt ! f, ?st')"
    using b nle by (simp add: get_inc_field_def Let_def)
  moreover have "reading mem ?st' (s + b)"
    unfolding reading_def
  proof (intro conjI allI)
    fix k
    have "b \<le> k \<Longrightarrow> k < 64 \<Longrightarrow> s + (63 - (k - b)) = s + b + (63 - k)" by simp
    moreover have "b \<le> k \<Longrightarrow> s mod 64 \<le> k - b \<longleftrightarrow> s mod 64 + b \<le> k" by (rule le_diff_conv2)
    ultimately show "bit (us_w ?st') k \<longleftrightarrow> k < 64 \<and> (s + b) mod 64 \<le> k \<and> sbit mem (s + b + (63 - k))"
      unfolding dm by (cases "b \<le> k"; cases "k < 64") (simp_all add: bit_simps w less_imp_diff_less)
  qed (use dm lt ub up in simp_all)
  moreover have "stream_value mem s b ?v"
    unfolding stream_value_def
  proof
    fix k
    have e: "bit ?v k \<longleftrightarrow> 64 - b + k < 64 \<and> s mod 64 \<le> 64 - b + k \<and> sbit mem (s + (63 - (64 - b + k)))"
      by (simp only: bit_drop_bit_eq comp_def w)
    have "k < b \<Longrightarrow> s + (63 - (64 - b + k)) = s + (b - 1 - k)" using nle by simp
    moreover have "s mod 64 \<le> 64 - b + k" using short by linarith
    moreover have "64 - b + k < 64 \<longleftrightarrow> k < b" "k < b \<Longrightarrow> k < 64" using nle by linarith+
    ultimately show "bit ?v k \<longleftrightarrow> k < b \<and> k < 64 \<and> sbit mem (s + (b - 1 - k))"
      unfolding e by auto
  qed
  ultimately show ?thesis by blast
qed

lemma get_inc_field_long:
  assumes R: "reading mem st s" and b: "unat (bits_per_field fmt ! f) = b" "b \<le> 64"
    and long: "64 \<le> s mod 64 + b" and room: "s + b < 64 * length mem"
  shows "\<exists>v st'. get_inc_field fmt mem st f = Some (v + field_offset fmt ! f, st') \<and>
    reading mem st' (s + b) \<and> stream_value mem s b v"
proof -
  define m where "m = s mod 64"
  define d where "d = s div 64"
  define r where "r = m + b - 64"
  let ?q = "d + 1"
  have s: "s = 64 * d + m" and m: "m < 64" by (simp_all add: m_def d_def)
  have long: "64 \<le> m + b" using long by (simp add: m_def)
  have mb: "m + b = 64 + r" using long by (simp add: r_def)
  have r: "r < 64" "r \<le> 63" using mb b m by simp_all
  have sb: "s + b = 64 * ?q + r" using mb s by simp
  have dm: "(s + b) div 64 = ?q" "(s + b) mod 64 = r"
    using div_mod_64[OF sb r(1)] by simp_all
  have q: "?q < length mem"
    by (rule block_less_64[of _ r]) (use room sb in simp)
  obtain st1 where st1: "unpack_prev_word mem st = Some st1" "us_bits st1 = 64"
    "us_p st1 = us_p st - 1"
    and w1: "\<And>k. bit (us_w st1) k \<longleftrightarrow> k < 64 \<and> sbit mem (64 * ?q + (63 - k))"
    using reading_prev_word[OF R] q unfolding d_def by blast
  have ub: "us_bits st = 64 - m" and up: "us_p st = int (length mem) - 1 - int (d)"
    and w: "\<And>k. bit (us_w st) k \<longleftrightarrow> k < 64 \<and> m \<le> k \<and> sbit mem (s + (63 - k))"
    using R by (auto simp: reading_def m_def d_def)
  have rem: "b - us_bits st = r" and le: "us_bits st \<le> b" and b0: "b \<noteq> 0"
    using ub mb m by simp_all
  let ?v = "drop_bit (64 - b) (us_w st) OR drop_bit (63 - r) (drop_bit 1 (us_w st1))"
  let ?st' = "st1\<lparr>us_w := push_bit r (us_w st1), us_bits := us_bits st1 - r\<rparr>"
  have "get_inc_field fmt mem st f = Some (?v + field_offset fmt ! f, ?st')"
    using b b0 le r(2) st1(1) by (simp add: get_inc_field_def Let_def rem)
  moreover have "reading mem ?st' (s + b)"
    unfolding reading_def
  proof (intro conjI allI)
    fix k
    have "r \<le> k \<Longrightarrow> k < 64 \<Longrightarrow> 64 * ?q + (63 - (k - r)) = s + b + (63 - k)"
      using sb by linarith
    then show "bit (us_w ?st') k \<longleftrightarrow> k < 64 \<and> (s + b) mod 64 \<le> k \<and> sbit mem (s + b + (63 - k))"
      unfolding dm by (auto simp: bit_simps w1 less_imp_diff_less)
  qed (use room dm st1 up in auto)
  moreover have "stream_value mem s b ?v"
    unfolding stream_value_def
  proof
    fix k
    have e: "bit ?v k \<longleftrightarrow>
        (64 - b + k < 64 \<and> m \<le> 64 - b + k \<and> sbit mem (s + (63 - (64 - b + k)))) \<or>
        (1 + (63 - r + k) < 64 \<and> sbit mem (64 * ?q + (63 - (1 + (63 - r + k)))))"
      by (simp only: bit_or_iff bit_drop_bit_eq comp_def w w1)
    have "k < b \<Longrightarrow> s + (63 - (64 - b + k)) = s + (b - 1 - k)" using b by simp
    moreover have "64 * ?q + (63 - (1 + (63 - r + k))) = s + (b - 1 - k)" if "k < r"
    proof -
      have "63 - (1 + (63 - r + k)) = r - 1 - k" using r that by simp
      moreover have "s + b = 64 * ?q + r" by (rule sb)
      moreover have "r \<le> b" using mb m by simp
      ultimately show ?thesis using that by simp
    qed
    moreover have "m \<le> 64 - b + k \<longleftrightarrow> r \<le> k" using b mb by auto
    moreover have "64 - b + k < 64 \<longleftrightarrow> k < b" "1 + (63 - r + k) < 64 \<longleftrightarrow> k < r" "k < b \<Longrightarrow> k < 64"
      "k < r \<Longrightarrow> k < b"
      using b b0 r mb m by auto
    ultimately show "bit ?v k \<longleftrightarrow> k < b \<and> k < 64 \<and> sbit mem (s + (b - 1 - k))"
      unfolding e by (cases "k < r") auto
  qed
  ultimately show ?thesis by blast
qed

lemma get_inc_field_reads:
  assumes "reading mem st s" and "unat (bits_per_field fmt ! f) = b" "1 \<le> b" "b \<le> 64"
    and "s + b < 64 * length mem"
  shows "\<exists>v st'. get_inc_field fmt mem st f = Some (v + field_offset fmt ! f, st') \<and>
    reading mem st' (s + b) \<and> stream_value mem s b v"
  using assms get_inc_field_short get_inc_field_long by (metis linorder_not_le)

section \<open>The writer lays fields out in the stream\<close>

text \<open>
  \<open>writing n q r f st\<close>: words above word \<open>q\<close> (counted from the top) are stored and hold
  the stream \<open>f\<close>; the word under construction has \<open>r\<close> free low bits; the rest is zero.
\<close>

definition wpos :: "nat \<Rightarrow> nat \<Rightarrow> nat" where
  "wpos q k = 64 * q + (63 - k)"

definition writing :: "nat \<Rightarrow> nat \<Rightarrow> nat \<Rightarrow> (nat \<Rightarrow> bool) \<Rightarrow> pack_state \<Rightarrow> bool" where
  "writing n q r f st \<longleftrightarrow>
     length (ps_mem st) = n \<and> q < n \<and> r \<le> 64 \<and>
     ps_p st = int n - 1 - int q \<and> ps_bits st = r \<and>
     (\<forall>q'<q. \<forall>k<64. bit (ps_mem st ! (n - 1 - q')) k = f (wpos q' k)) \<and>
     (\<forall>k. bit (ps_w st) k \<longleftrightarrow> k < 64 \<and> r \<le> k \<and> f (wpos q k)) \<and>
     (\<forall>q'<n. q < q' \<longrightarrow> ps_mem st ! (n - 1 - q') = 0)"

definition stream_upd :: "(nat \<Rightarrow> bool) \<Rightarrow> nat \<Rightarrow> nat \<Rightarrow> u64 \<Rightarrow> nat \<Rightarrow> bool" where
  "stream_upd f s b v t = (if t < s then f t else bit v (b - 1 - (t - s)))"

lemma writing_new: "0 < n \<Longrightarrow> writing n 0 64 f (pack_new n (replicate n 0))"
  by (auto simp: writing_def pack_new_def)

lemma set_inc_field_short:
  assumes W: "writing n q r f st"
    and fit: "unat (bits_per_field fmt ! i) = b" "1 \<le> b" "field_offset fmt ! i \<le> raw"
      "v = raw - field_offset fmt ! i" "fls64 v \<le> b" "b \<le> 64"
    and short: "b \<le> r"
  shows "\<exists>st'. set_inc_field fmt st i raw = Some (True, st') \<and>
    writing n q (r - b) (stream_upd f (64 * q + (64 - r)) b v) st'"
proof -
  let ?st' = "st\<lparr>ps_bits := r - b, ps_w := ps_w st OR push_bit (r - b) v\<rparr>"
  let ?f' = "stream_upd f (64 * q + (64 - r)) b v"
  have r: "r \<le> 64" "ps_bits st = r" and w: "\<And>k. bit (ps_w st) k \<longleftrightarrow> k < 64 \<and> r \<le> k \<and> f (wpos q k)"
    using W by (auto simp: writing_def)
  have z: "\<And>k. b \<le> k \<Longrightarrow> \<not> bit v k" using fit fls64_le_iff by blast
  have "set_inc_field fmt st i raw = Some (True, ?st')"
    using fit r short by (simp add: set_inc_field_def Let_def)
  moreover have "bit (ps_w ?st') k \<longleftrightarrow> k < 64 \<and> r - b \<le> k \<and> ?f' (wpos q k)" for k
  proof (cases "k < 64")
    case k: True
    show ?thesis
    proof (cases "r \<le> k")
      case True
      have "b \<le> k - (r - b)" using True short by simp
      then have "\<not> bit v (k - (r - b))" by (rule z)
      moreover have "wpos q k < 64 * q + (64 - r)" using True k by (simp add: wpos_def)
      moreover have "r - b \<le> k" using True by simp
      ultimately show ?thesis using k True by (simp add: bit_simps w stream_upd_def)
    next
      case False
      have "\<not> wpos q k < 64 * q + (64 - r)" using False r by (simp add: wpos_def)
      moreover have "b - 1 - (wpos q k - (64 * q + (64 - r))) = k - (r - b)" if "r - b \<le> k"
        using that False r k short by (simp add: wpos_def)
      ultimately show ?thesis
        using k False by (auto simp: bit_simps w stream_upd_def add.commute[of k b])
    qed
  qed (auto dest: bit_imp_le_length)
  moreover have "?f' (wpos q' k) = f (wpos q' k)" if "q' < q" for q' k
  proof -
    have "wpos q' k < 64 * q" using that by (simp add: wpos_def)
    then show ?thesis by (simp add: stream_upd_def)
  qed
  ultimately show ?thesis using W by (auto simp: writing_def)
qed

lemma set_inc_field_long:
  assumes W: "writing n q r f st"
    and fit: "unat (bits_per_field fmt ! i) = b" "field_offset fmt ! i \<le> raw"
      "v = raw - field_offset fmt ! i" "fls64 v \<le> b" "b \<le> 64"
    and long: "r < b" and room: "q + 1 < n"
  shows "\<exists>st'. set_inc_field fmt st i raw = Some (True, st') \<and>
    writing n (q + 1) (64 - (b - r)) (stream_upd f (64 * q + (64 - r)) b v) st'"
proof -
  define m where "m = b - r"
  have m: "b = r + m" "1 \<le> m" "m \<le> 64" using long fit by (simp_all add: m_def)
  let ?f' = "stream_upd f (64 * q + (64 - r)) b v"
  let ?w1 = "if 0 < r \<and> 0 < m then ps_w st OR drop_bit m v else ps_w st"
  let ?mem = "(ps_mem st)[n - 1 - q := ?w1]"
  let ?st' = "\<lparr>ps_bits = 64 - m, ps_w = push_bit (64 - m) v, ps_p = ps_p st - 1, ps_mem = ?mem\<rparr>"
  have r: "r \<le> 64" "ps_bits st = r" and w: "\<And>k. bit (ps_w st) k \<longleftrightarrow> k < 64 \<and> r \<le> k \<and> f (wpos q k)"
    and len: "length (ps_mem st) = n" and p: "ps_p st = int n - 1 - int q"
    and full: "\<And>q' k. q' < q \<Longrightarrow> k < 64 \<Longrightarrow> bit (ps_mem st ! (n - 1 - q')) k = f (wpos q' k)"
    and zero: "\<And>q'. q' < n \<Longrightarrow> q < q' \<Longrightarrow> ps_mem st ! (n - 1 - q') = 0"
    using W by (auto simp: writing_def)
  have z: "\<And>k. b \<le> k \<Longrightarrow> \<not> bit v k" using fit fls64_le_iff by blast
  have pn: "ps_p st = int (n - 1 - q)" using p room by simp
  have fin: "pack_finish (st\<lparr>ps_w := ?w1, ps_bits := 0\<rparr>)
      = Some (st\<lparr>ps_w := ?w1, ps_bits := 0, ps_mem := ?mem\<rparr>)"
    using len room by (simp add: pack_finish_def pn del: of_nat_diff)
  have "set_inc_field fmt st i raw = Some (True, ?st')"
  proof -
    have c: "\<not> raw < field_offset fmt ! i" "\<not> b < fls64 v" "0 < b" "r < b" "\<not> 64 < m" "b - r = m"
      using fit long m by (simp_all add: not_less)
    show ?thesis
      by (simp only: set_inc_field_def Let_def fit(1) fit(3)[symmetric] r(2) c fin option.case
          if_True if_False simp_thms) simp
  qed
  moreover have "bit (?mem ! (n - 1 - q')) k = ?f' (wpos q' k)" if "q' < q + 1" "k < 64" for q' k
  proof (cases "q' < q")
    case True
    have "wpos q' k < 64 * q" using True by (simp add: wpos_def)
    moreover have "n - 1 - q' \<noteq> n - 1 - q" using True room by simp
    ultimately show ?thesis using full[OF True that(2)] by (simp add: stream_upd_def)
  next
    case False
    then have q': "q' = q" using that by simp
    have mem: "?mem ! (n - 1 - q') = ?w1" using q' len room by simp
    show ?thesis
    proof (cases "r \<le> k")
      case True
      then have "\<not> bit v (m + k)" by (intro z) (simp add: m)
      moreover have "wpos q k < 64 * q + (64 - r)" using True that by (simp add: wpos_def)
      ultimately show ?thesis
        using True that(2) unfolding mem unfolding q' by (simp add: bit_simps w stream_upd_def)
    next
      case False
      have "\<not> wpos q k < 64 * q + (64 - r)" using False r by (simp add: wpos_def)
      moreover have "b - 1 - (wpos q k - (64 * q + (64 - r))) = m + k"
        using False r that(2) m by (simp add: wpos_def)
      ultimately show ?thesis
        using False m that(2) unfolding mem unfolding q' by (simp add: bit_simps w stream_upd_def)
    qed
  qed
  moreover have "bit (push_bit (64 - m) v) k \<longleftrightarrow> k < 64 \<and> 64 - m \<le> k \<and> ?f' (wpos (q + 1) k)" for k
  proof (cases "64 - m \<le> k \<and> k < 64")
    case True
    have "b - 1 - (wpos (q + 1) k - (64 * q + (64 - r))) = k - (64 - m)"
      using True m r by (simp add: wpos_def)
    moreover have "\<not> wpos (q + 1) k < 64 * q + (64 - r)" by (simp add: wpos_def)
    ultimately show ?thesis using True by (simp add: bit_simps stream_upd_def)
  qed (auto simp: bit_simps)
  moreover have "?mem ! (n - 1 - q') = 0" if "q' < n" "q + 1 < q'" for q'
    using zero[of q'] that by simp
  ultimately show ?thesis
    unfolding m_def[symmetric] writing_def using room len p by (intro exI[of _ ?st']) auto
qed

text \<open>The two cases together: a fitting field is written and extends the stream.\<close>

definition field_fits :: "bkey_format \<Rightarrow> nat \<times> u64 \<Rightarrow> bool" where
  "field_fits fmt fv \<longleftrightarrow> (case fv of (i, raw) \<Rightarrow>
     1 \<le> unat (bits_per_field fmt ! i) \<and> unat (bits_per_field fmt ! i) \<le> 64 \<and>
     field_offset fmt ! i \<le> raw \<and>
     fls64 (raw - field_offset fmt ! i) \<le> unat (bits_per_field fmt ! i))"

lemma set_inc_field_writes:
  assumes W: "writing n q r f st" and s: "s = 64 * q + (64 - r)"
    and fit: "field_fits fmt (i, raw)" and b: "b = unat (bits_per_field fmt ! i)"
    and v: "v = raw - field_offset fmt ! i" and room: "s + b \<le> 64 * n"
  shows "\<exists>st' q' r'. set_inc_field fmt st i raw = Some (True, st') \<and>
    writing n q' r' (stream_upd f s b v) st' \<and> s + b = 64 * q' + (64 - r')"
proof (cases "b \<le> r")
  case True
  have "r \<le> 64" using W by (simp add: writing_def)
  then have "s + b = 64 * q + (64 - (r - b))" using True s by simp
  then show ?thesis
    using set_inc_field_short[OF W b[symmetric] _ _ v _ _ True] fit b v s
    by (fastforce simp: field_fits_def)
next
  case False
  have r: "r \<le> 64" using W by (simp add: writing_def)
  have b64: "b \<le> 64" using fit b by (simp add: field_fits_def)
  have e: "s + b = 64 * (q + 1) + (64 - (64 - (b - r)))" using False s r b64 by simp
  then have "64 * (q + 1) + (b - r) \<le> 64 * n" using room b64 by simp
  moreover have "0 < b - r" using False by simp
  ultimately have "64 * (q + 1) < 64 * n" by (meson add_less_same_cancel1 less_le_trans less_add_same_cancel1)
  then have "q + 1 < n" by simp
  then show ?thesis
    using set_inc_field_long[OF W b[symmetric] _ v _ b64] fit b v s False e
    by (fastforce simp: field_fits_def)
qed

lemma wpos_div_mod: "wpos (t div 64) (63 - t mod 64) = t"
  by (simp add: wpos_def)

lemma finish_stream:
  assumes W: "writing n q r f st"
  shows "\<exists>st'. pack_finish st = Some st' \<and> length (ps_mem st') = n \<and>
    (\<forall>t < 64 * q + (64 - r). sbit (ps_mem st') t = f t)"
proof -
  have len: "length (ps_mem st) = n" and q: "q < n" and p: "ps_p st = int (n - 1 - q)"
    and full: "\<And>q' k. q' < q \<Longrightarrow> k < 64 \<Longrightarrow> bit (ps_mem st ! (n - 1 - q')) k = f (wpos q' k)"
    and w: "\<And>k. bit (ps_w st) k \<longleftrightarrow> k < 64 \<and> r \<le> k \<and> f (wpos q k)"
    using W by (auto simp: writing_def)
  let ?mem = "(ps_mem st)[n - 1 - q := ps_w st]"
  have fin: "pack_finish st = Some (st\<lparr>ps_mem := ?mem\<rparr>)"
    using len q by (simp add: pack_finish_def p del: of_nat_diff)
  have "sbit ?mem t = f t" if t: "t < 64 * q + (64 - r)" for t
  proof -
    let ?q = "t div 64" and ?k = "63 - t mod 64"
    have k: "?k < 64" by simp
    have sb: "sbit ?mem t = bit (?mem ! (n - 1 - ?q)) ?k" using len by (simp add: sbit_def)
    show ?thesis
    proof (cases "?q < q")
      case True
      then have "n - 1 - ?q \<noteq> n - 1 - q" using q by simp
      then show ?thesis using full[OF True k] unfolding sb wpos_div_mod by simp
    next
      case False
      define d where "d = t div 64"
      define m where "m = t mod 64"
      have tdm: "t = 64 * d + m" "m < 64" and "q \<le> d"
        using False by (simp_all add: d_def m_def)
      moreover have "64 - r \<le> 64" by simp
      ultimately have dq: "d = q" using t by linarith
      then have "r \<le> 63 - m" using t tdm by simp
      then have "?q = q" and "r \<le> ?k" using dq unfolding d_def m_def by blast+
      moreover have "?mem ! (n - 1 - q) = ps_w st" using len q by simp
      ultimately show ?thesis unfolding sb using w[of ?k] wpos_div_mod[of t] k by simp
    qed
  qed
  with fin len show ?thesis by simp
qed

fun fields_at :: "bkey_format \<Rightarrow> u64 list \<Rightarrow> nat \<Rightarrow> (nat \<times> u64) list \<Rightarrow> bool" where
  "fields_at fmt mem s [] \<longleftrightarrow> True"
| "fields_at fmt mem s ((i, raw) # fs) \<longleftrightarrow>
     stream_value mem s (unat (bits_per_field fmt ! i)) (raw - field_offset fmt ! i) \<and>
     fields_at fmt mem (s + unat (bits_per_field fmt ! i)) fs"

definition total_width :: "bkey_format \<Rightarrow> (nat \<times> u64) list \<Rightarrow> nat" where
  "total_width fmt fs = sum_list (map (\<lambda>(i, _). unat (bits_per_field fmt ! i)) fs)"

lemma total_width_simps [simp]:
  "total_width fmt [] = 0"
  "total_width fmt ((i, raw) # fs) = unat (bits_per_field fmt ! i) + total_width fmt fs"
  by (simp_all add: total_width_def)

lemma set_fields_lays_out:
  assumes "writing n q r f st" and "s = 64 * q + (64 - r)"
    and "list_all (field_fits fmt) fs" and "s + total_width fmt fs \<le> 64 * n"
  shows "\<exists>mem. set_fields fmt st fs = Packed mem \<and> length mem = n \<and>
    (\<forall>t < s. sbit mem t = f t) \<and> fields_at fmt mem s fs"
  using assms
proof (induction fs arbitrary: st q r f s)
  case Nil
  then show ?case using finish_stream[OF Nil(1)] by auto
next
  case (Cons fv fs)
  obtain i raw where fv: "fv = (i, raw)" by (cases fv)
  define b where "b = unat (bits_per_field fmt ! i)"
  define v where "v = raw - field_offset fmt ! i"
  have fit: "field_fits fmt (i, raw)" using Cons.prems by (simp add: fv)
  have "s + b \<le> 64 * n" using Cons.prems by (simp add: fv b_def)
  then obtain st' q' r' where step: "set_inc_field fmt st i raw = Some (True, st')"
    and W': "writing n q' r' (stream_upd f s b v) st'" and s': "s + b = 64 * q' + (64 - r')"
    using set_inc_field_writes[OF Cons.prems(1,2) fit b_def v_def] by blast
  obtain mem where mem: "set_fields fmt st' fs = Packed mem" "length mem = n"
    "\<forall>t < s + b. sbit mem t = stream_upd f s b v t" "fields_at fmt mem (s + b) fs"
    using Cons.IH[OF W' s'] Cons.prems by (auto simp: fv b_def add.assoc)
  have z: "\<And>k. b \<le> k \<Longrightarrow> \<not> bit v k" and b: "1 \<le> b" "b \<le> 64"
    using fit fls64_le_iff by (auto simp: field_fits_def b_def v_def)
  have "stream_value mem s b v"
    unfolding stream_value_def
  proof
    fix k
    have "sbit mem (s + (b - 1 - k)) = bit v k" if "k < b"
    proof -
      have "\<not> s + (b - 1 - k) < s" "s + (b - 1 - k) < s + b" using that by simp_all
      then show ?thesis using mem(3) that by (simp add: stream_upd_def)
    qed
    then show "bit v k \<longleftrightarrow> k < b \<and> k < 64 \<and> sbit mem (s + (b - 1 - k))"
      using z[of k] b by (cases "k < b") auto
  qed
  moreover have "\<forall>t < s. sbit mem t = f t" using mem(3) by (simp add: stream_upd_def)
  ultimately show ?case using step mem by (simp add: fv b_def v_def)
qed

section \<open>Round trip and packed comparison\<close>

text \<open>
  A format is usable when its three key fields are 1 to 64 bits wide and fit, with the
  24-bit header, into the key words. A zero-width field cannot be read back: the reader
  would shift by 64.
\<close>

definition format_wf :: "bkey_format \<Rightarrow> bool" where
  "format_wf fmt \<longleftrightarrow>
     list_all (\<lambda>i. 1 \<le> unat (bits_per_field fmt ! i) \<and> unat (bits_per_field fmt ! i) \<le> 64) [0, 1, 2] \<and>
     unat (bits_per_field fmt ! 0) + unat (bits_per_field fmt ! 1) + unat (bits_per_field fmt ! 2) + 24
       \<le> 64 * unat (key_u64s fmt)"

lemma format_wf_current [simp]: "format_wf bkey_format_current"
  by (simp add: format_wf_def bkey_format_current_def)

definition pos_fits :: "bkey_format \<Rightarrow> bpos \<Rightarrow> bool" where
  "pos_fits fmt p \<longleftrightarrow> list_all (field_fits fmt) (pos_fields p)"

text \<open>The current format, the only one the node code uses, takes every position.\<close>

lemma fls64_le_64: "fls64 v \<le> 64"
  by (simp add: fls64_def)

lemma fls64_ucast_u32: "fls64 (ucast (s :: u32)) \<le> 32"
proof -
  have "\<forall>k\<ge>32. \<not> bit (ucast s :: u64) k"
    by (auto simp: bit_simps dest: bit_imp_le_length)
  then show ?thesis by (simp add: fls64_le_iff)
qed

lemma pos_fits_current [simp]: "pos_fits bkey_format_current p"
  by (simp add: pos_fits_def pos_fields_def field_fits_def bkey_format_current_def
      fls64_le_64 fls64_ucast_u32)

lemma bit_set_byte:
  "bit (set_byte i b w) k \<longleftrightarrow>
     k < 64 \<and> (if 8 * i \<le> k \<and> k < 8 * i + 8 then bit b (k - 8 * i) else bit w k)"
proof -
  have m: "(255 :: u64) = mask 8" by (simp add: mask_eq_exp_minus_1)
  show ?thesis
    unfolding set_byte_def m
    by (auto simp: bit_simps dest: bit_imp_le_length)
qed

lemma get_byte_set_byte [simp]:
  "i < 8 \<Longrightarrow> get_byte i (set_byte i b w) = b"
  "i < 8 \<Longrightarrow> j \<noteq> i \<Longrightarrow> get_byte j (set_byte i b w) = get_byte j w"
  unfolding get_byte_def by (rule bit_word_eqI; auto simp: bit_simps bit_set_byte dest: bit_imp_le_length)+

lemma length_set_header [simp]: "length (set_header u f ty ws) = length ws"
  by (simp add: set_header_def)

lemma sbit_set_header:
  assumes "t + 24 < 64 * length ws" and "ws \<noteq> []"
  shows "sbit (set_header u f ty ws) t = sbit ws t"
proof (cases "length ws - 1 - t div 64 = 0")
  case True
  define d where "d = t div 64"
  define m where "m = t mod 64"
  have t: "t = 64 * d + m" "m < 64" by (simp_all add: d_def m_def)
  have "length ws \<le> d + 1" using True by (simp add: d_def)
  then have "64 * length ws \<le> 64 * d + 64" by simp
  then have "24 \<le> 63 - m" using assms(1) t by simp
  then have "24 \<le> 63 - t mod 64" by (simp add: m_def)
  then show ?thesis using True assms(2)
    by (auto simp: sbit_def set_header_def bit_set_byte dest: bit_imp_le_length)
next
  case False
  then show ?thesis by (simp add: sbit_def set_header_def)
qed

lemma fields_at_cong:
  assumes "fields_at fmt mem s fs" and "list_all (field_fits fmt) fs"
    and "\<And>t. t < s + total_width fmt fs \<Longrightarrow> sbit mem' t = sbit mem t"
  shows "fields_at fmt mem' s fs"
  using assms
proof (induction fs arbitrary: s)
  case (Cons fv fs)
  obtain i raw where fv: "fv = (i, raw)" by (cases fv)
  define b where "b = unat (bits_per_field fmt ! i)"
  have eq: "sbit mem' (s + (b - 1 - k)) = sbit mem (s + (b - 1 - k))" if "k < b" for k
    by (rule Cons.prems(3)) (use that in \<open>simp add: fv b_def\<close>)
  have "stream_value mem s b (raw - field_offset fmt ! i)"
    using Cons.prems(1) by (simp add: fv b_def)
  then have "stream_value mem' s b (raw - field_offset fmt ! i)"
    unfolding stream_value_def using eq by blast
  moreover have "fields_at fmt mem' (s + b) fs"
    by (rule Cons.IH) (use Cons.prems in \<open>simp_all add: fv b_def add.assoc\<close>)
  ultimately show ?case by (simp add: fv b_def)
qed simp

lemma get_fields_reads:
  assumes "reading mem st s" and "fields_at fmt mem s fs" and "list_all (field_fits fmt) fs"
    and "s + total_width fmt fs < 64 * length mem"
  shows "get_fields fmt mem st (map fst fs) = Some (map snd fs)"
  using assms
proof (induction fs arbitrary: st s)
  case (Cons fv fs)
  obtain i raw where fv: "fv = (i, raw)" by (cases fv)
  have fit: "field_fits fmt (i, raw)" using Cons.prems by (simp add: fv)
  obtain v st' where g: "get_inc_field fmt mem st i = Some (v + field_offset fmt ! i, st')"
    and R': "reading mem st' (s + unat (bits_per_field fmt ! i))"
    and v: "stream_value mem s (unat (bits_per_field fmt ! i)) v"
    using get_inc_field_reads[OF Cons.prems(1) refl, of fmt i] fit Cons.prems(4)
    by (auto simp: field_fits_def fv)
  have "v = raw - field_offset fmt ! i"
    using v Cons.prems(2) by (auto simp: fv intro: stream_value_unique)
  moreover have "get_fields fmt mem st' (map fst fs) = Some (map snd fs)"
    using Cons.prems by (intro Cons.IH[OF R']) (auto simp: fv)
  ultimately show ?case using g by (simp add: fv)
qed simp

lemma total_width_pos_fields:
  "total_width fmt (pos_fields p) = unat (bits_per_field fmt ! 0) + unat (bits_per_field fmt ! 1)
     + unat (bits_per_field fmt ! 2)"
  by (simp add: pos_fields_def)

lemma pack_key_words_fields:
  assumes wf: "format_wf fmt" and fit: "pos_fits fmt p"
  shows "\<exists>ws. pack_key_words fmt p = Packed ws \<and> length ws = unat (key_u64s fmt) \<and> ws \<noteq> [] \<and>
    fields_at fmt (set_header u f ty ws) 0 (pos_fields p)"
proof -
  let ?n = "unat (key_u64s fmt)"
  have room: "total_width fmt (pos_fields p) + 24 \<le> 64 * ?n" and n: "0 < ?n"
    using wf by (auto simp: format_wf_def total_width_pos_fields)
  have "writing ?n 0 64 (\<lambda>_. False) (pack_new ?n (replicate ?n 0))"
    using n by (rule writing_new)
  then obtain ws where ws: "pack_key_words fmt p = Packed ws" "length ws = ?n"
      "fields_at fmt ws 0 (pos_fields p)"
    using set_fields_lays_out[of ?n 0 64 "\<lambda>_. False" _ 0 fmt "pos_fields p"] fit room
    by (auto simp: pack_key_words_def Let_def pos_fits_def)
  have ne: "ws \<noteq> []" using ws n by auto
  have "fields_at fmt (set_header u f ty ws) 0 (pos_fields p)"
    by (rule fields_at_cong[OF ws(3)])
      (use fit ne room ws(2) in \<open>auto simp: pos_fits_def sbit_set_header\<close>)
  with ws ne show ?thesis by blast
qed

lemma unpack_packed_fields:
  assumes wf: "format_wf fmt" and fit: "pos_fits fmt p"
    and len: "length (kwords k) = unat (key_u64s fmt)"
    and at: "fields_at fmt (kwords k) 0 (pos_fields p)"
  shows "unpack_key_fields fmt k = Some (map snd (pos_fields p))"
proof -
  have room: "total_width fmt (pos_fields p) < 64 * length (kwords k)"
    and n: "0 < unat (key_u64s fmt)"
    using wf len by (auto simp: format_wf_def total_width_pos_fields)
  obtain st where st: "unpack_new (unat (key_u64s fmt)) (kwords k) = Some st"
    and R: "reading (kwords k) st 0"
    using reading_new[OF n len] by blast
  have "get_fields fmt (kwords k) st (map fst (pos_fields p)) = Some (map snd (pos_fields p))"
    by (rule get_fields_reads[OF R at]) (use fit room in \<open>simp_all add: pos_fits_def\<close>)
  moreover have "map fst (pos_fields p) = [0, 1, 2]" by (simp add: pos_fields_def)
  ultimately show ?thesis using st by (simp only: unpack_key_fields_def option.case)
qed

lemma ucast_ucast_u32 [simp]: "ucast (ucast (s :: u32) :: u64) = s"
  by (rule bit_word_eqI) (auto simp: bit_simps)

lemma bkey_unpack_pos_packed:
  assumes "format_wf fmt" and "pos_fits fmt p" and "length (kwords k) = unat (key_u64s fmt)"
    and "fields_at fmt (kwords k) 0 (pos_fields p)"
  shows "bkey_unpack_pos fmt k = Some p"
  using unpack_packed_fields[OF assms] by (simp add: bkey_unpack_pos_def pos_fields_def)

lemma pk_set_header:
  assumes "kwords k = set_header u f ty ws" and "ws \<noteq> []"
  shows "pk_u64s k = u" and "pk_type k = ty"
  using assms by (simp_all add: pk_u64s_def pk_type_def set_header_def)

text \<open> C4. Packing a key with arbitrary value bytes and unpacking it gives back the position,
  the type byte and the value bytes zero-padded to whole words, for every usable format
  and every position whose fields fit the format, as long as the entry's size fits its
  one-byte length.
\<close>

theorem bkey_pack_raw_roundtrip:
  assumes "format_wf fmt" and "pos_fits fmt p"
    and "unat (key_u64s fmt) + div_ceil8 (length vb) < 256"
  shows "\<exists>k. bkey_pack_raw fmt p ty vb = Packed k \<and>
    unat (pk_u64s k) = unat (key_u64s fmt) + div_ceil8 (length vb) \<and>
    bkey_unpack_bytes fmt k =
      Some (p, ty, vb @ replicate (8 * div_ceil8 (length vb) - length vb) 0)"
proof -
  let ?c = "div_ceil8 (length vb)"
  let ?total = "key_u64s fmt + of_nat ?c"
  have tot: "unat ?total = unat (key_u64s fmt) + ?c"
    using assms(3) by (simp add: unat_word_ariths unat_of_nat)
  have c: "length vb \<le> 8 * ?c" by (simp add: div_ceil8_def)
  obtain ws where ws: "pack_key_words fmt p = Packed ws" "length ws = unat (key_u64s fmt)" "ws \<noteq> []"
    and at: "fields_at fmt (set_header ?total 0 ty ws) 0 (pos_fields p)"
    using pack_key_words_fields[OF assms(1,2)] by blast
  let ?pad = "8 * ?c - length vb"
  let ?k = "\<lparr>kwords = set_header ?total 0 ty ws, vbytes = vb @ replicate ?pad 0\<rparr>"
  have pad: "unat ?total * 8 - (unat (key_u64s fmt) * 8 + length vb) = ?pad"
    by (simp add: tot)
  have pk: "bkey_pack_raw fmt p ty vb = Packed ?k"
    using ws(1) pad by (simp add: bkey_pack_raw_def Let_def)
  have hd: "pk_u64s ?k = ?total" "pk_type ?k = ty"
    using pk_set_header[of ?k ?total 0 ty ws] ws(3) by simp_all
  have "bkey_unpack_pos fmt ?k = Some p"
    by (rule bkey_unpack_pos_packed[OF assms(1,2)]) (use ws(2) at in simp_all)
  moreover have "unat ?total * 8 - unat (key_u64s fmt) * 8 = 8 * ?c" by (simp add: tot)
  ultimately have "bkey_unpack_bytes fmt ?k = Some (p, ty, vb @ replicate ?pad 0)"
    using c by (simp add: bkey_unpack_bytes_def Let_def hd tot)
  moreover have "unat (pk_u64s ?k) = unat (key_u64s fmt) + ?c" by (simp only: hd tot)
  ultimately show ?thesis using pk by (intro exI[of _ ?k] conjI)
qed

theorem bkey_pack_raw_roundtrip_witness:
  "\<exists>k. bkey_pack_raw bkey_format_current (Bpos 5 77 9) 1 [1, 2, 3, 4, 5, 6, 7] = Packed k \<and>
    bkey_unpack_bytes bkey_format_current k = Some (Bpos 5 77 9, 1, [1, 2, 3, 4, 5, 6, 7, 0])"
proof -
  let ?vb = "[1, 2, 3, 4, 5, 6, 7] :: u8 list"
  have "unat (key_u64s bkey_format_current) + div_ceil8 (length ?vb) < 256"
    by (simp add: bkey_format_current_def div_ceil8_def)
  note rt = bkey_pack_raw_roundtrip[OF format_wf_current pos_fits_current this]
  have e: "?vb @ replicate (8 * div_ceil8 (length ?vb) - length ?vb) 0 = [1, 2, 3, 4, 5, 6, 7, 0]"
    by (simp add: div_ceil8_def)
  from rt[where ty = 1, unfolded e] show ?thesis by blast
qed

text \<open>
  Field-by-field comparison agrees with comparing the unpacked field lists.
\<close>

fun cmp_lists :: "u64 list \<Rightarrow> u64 list \<Rightarrow> ordering" where
  "cmp_lists (a # as) (b # bs) = then_with (ord_cmp a b) (cmp_lists as bs)"
| "cmp_lists _ _ = Equal"

lemma cmp_fields_get_fields:
  assumes "get_fields fmt ma sa fs = Some va" and "get_fields fmt mb sb fs = Some vb"
  shows "cmp_fields fmt ma sa mb sb fs = Some (cmp_lists va vb)"
  using assms
proof (induction fs arbitrary: sa sb va vb)
  case (Cons f fs)
  then show ?case by (auto split: option.splits) (auto simp: ord_cmp_def)
qed simp

lemma cmp_fields_vs_get_fields:
  assumes "get_fields fmt ma sa (map fst fs) = Some va"
  shows "cmp_fields_vs fmt ma sa fs = Some (cmp_lists va (map snd fs))"
  using assms
proof (induction fs arbitrary: sa va)
  case (Cons f fs)
  then show ?case by (cases f) (auto simp: ord_cmp_def split: option.splits)
qed simp

lemma ucast_u32_less: "(ucast (a :: u32) :: u64) < ucast b \<longleftrightarrow> a < b"
proof -
  have "unat (ucast w :: u64) = unat w" for w :: u32
  proof -
    have "unat w < 2 ^ 32" using unsigned_less[where 'b = 32 and w = w] by simp
    then show ?thesis by (simp add: unsigned_ucast_eq take_bit_nat_eq_self)
  qed
  then show ?thesis by (simp add: word_less_nat_alt)
qed

lemma cmp_lists_pos_fields:
  "cmp_lists (map snd (pos_fields a)) (map snd (pos_fields b)) = bpos_cmp a b"
proof -
  have "(ucast (snapshot a) :: u64) = ucast (snapshot b) \<longleftrightarrow> snapshot a = snapshot b"
    by (metis ucast_ucast_u32)
  then have "ord_cmp (ucast (snapshot a) :: u64) (ucast (snapshot b)) = ord_cmp (snapshot a) (snapshot b)"
    by (simp add: ord_cmp_def ucast_u32_less)
  then show ?thesis by (simp add: pos_fields_def bpos_cmp_def)
qed

lemma bkey_pack_pos_key:
  assumes "format_wf fmt" and "pos_fits fmt p"
  shows "\<exists>k. bkey_pack_pos fmt p = Packed k \<and> length (kwords k) = unat (key_u64s fmt) \<and>
    unpack_key_fields fmt k = Some (map snd (pos_fields p))"
proof -
  obtain ws where ws: "pack_key_words fmt p = Packed ws" "length ws = unat (key_u64s fmt)"
    and at: "fields_at fmt (set_header (key_u64s fmt) 0 0 ws) 0 (pos_fields p)"
    using pack_key_words_fields[OF assms] by blast
  let ?k = "\<lparr>kwords = set_header (key_u64s fmt) 0 0 ws, vbytes = []\<rparr>"
  have "unpack_key_fields fmt ?k = Some (map snd (pos_fields p))"
    by (rule unpack_packed_fields[OF assms]) (use ws(2) at in simp_all)
  with ws show ?thesis by (simp add: bkey_pack_pos_def)
qed

text \<open> C31. Comparing two packed keys field by field, without unpacking them, orders them as
  their positions are ordered, and so does comparing a packed key with an unpacked
  position: the documented equivalence with \<open>bkey_unpack_pos(a).cmp(&bkey_unpack_pos(b))\<close>,
  for keys the packer produced.
\<close>

theorem bkey_cmp_packed_is_bpos_cmp:
  assumes "format_wf fmt" and "pos_fits fmt a" and "pos_fits fmt b"
    and "bkey_pack_pos fmt a = Packed ka" and "bkey_pack_pos fmt b = Packed kb"
  shows "bkey_cmp_packed fmt ka kb = Some (bpos_cmp a b) \<and>
    bkey_cmp_packed_vs_bpos fmt ka b = Some (bpos_cmp a b) \<and>
    bkey_unpack_pos fmt ka = Some a"
proof -
  have fa: "unpack_key_fields fmt ka = Some (map snd (pos_fields a))"
    and fb: "unpack_key_fields fmt kb = Some (map snd (pos_fields b))"
    using bkey_pack_pos_key[OF assms(1,2)] bkey_pack_pos_key[OF assms(1,3)] assms(4,5) by auto
  obtain sa sb where
    sa: "unpack_new (unat (key_u64s fmt)) (kwords ka) = Some sa"
      "get_fields fmt (kwords ka) sa [0, 1, 2] = Some (map snd (pos_fields a))" and
    sb: "unpack_new (unat (key_u64s fmt)) (kwords kb) = Some sb"
      "get_fields fmt (kwords kb) sb [0, 1, 2] = Some (map snd (pos_fields b))"
    using fa fb unfolding unpack_key_fields_def by (auto split: option.splits)
  have "bkey_cmp_packed fmt ka kb = Some (bpos_cmp a b)"
    using cmp_fields_get_fields[OF sa(2) sb(2)] sa(1) sb(1)
    by (simp add: bkey_cmp_packed_def Let_def cmp_lists_pos_fields)
  moreover have "map fst (pos_fields b) = [0, 1, 2]" by (simp add: pos_fields_def)
  then have "bkey_cmp_packed_vs_bpos fmt ka b = Some (bpos_cmp a b)"
    using cmp_fields_vs_get_fields[of fmt "kwords ka" sa "pos_fields b"] sa
    by (simp add: bkey_cmp_packed_vs_bpos_def cmp_lists_pos_fields)
  moreover have "bkey_unpack_pos fmt ka = Some a"
    using fa by (simp add: bkey_unpack_pos_def pos_fields_def)
  ultimately show ?thesis by simp
qed

theorem bkey_cmp_packed_is_bpos_cmp_witness:
  "\<exists>ka kb. bkey_pack_pos bkey_format_current (Bpos 5 77 9) = Packed ka \<and>
     bkey_pack_pos bkey_format_current (Bpos 5 78 2) = Packed kb \<and>
     bkey_cmp_packed bkey_format_current ka kb = Some Less"
proof -
  obtain ka kb where k: "bkey_pack_pos bkey_format_current (Bpos 5 77 9) = Packed ka"
      "bkey_pack_pos bkey_format_current (Bpos 5 78 2) = Packed kb"
    using bkey_pack_pos_key[OF format_wf_current pos_fits_current] by metis
  have "bpos_cmp (Bpos 5 77 9) (Bpos 5 78 2) = Less" by (simp add: bpos_less_iff)
  with k show ?thesis
    using bkey_cmp_packed_is_bpos_cmp[OF format_wf_current pos_fits_current pos_fits_current k]
    by metis
qed

end
