(* ===== verification/NodeData.thy ===== *)
theory NodeData
  imports KeyPack "HOL-Library.Sublist"
begin

text \<open>
  The data region of a btree node (\<open>btree/node.rs\<close>): packed entries in a byte buffer, read and
  written at byte offsets. A panic, a bad type byte and an access that leaves the buffer are
  \<open>None\<close>. The lemmas relate a stretch of the buffer to the list of entries it holds.
\<close>

subsection \<open>Bytes\<close>

definition put_bytes :: "nat \<Rightarrow> u8 list \<Rightarrow> u8 list \<Rightarrow> u8 list" where
  "put_bytes off bs data = take off data @ bs @ drop (off + length bs) data"

definition word_at :: "u8 list \<Rightarrow> nat \<Rightarrow> u64" where
  "word_at data off = le_word (take 8 (drop off data))"

text \<open>The packed key a pointer into the buffer stands for; its value bytes are all that follow.\<close>

definition packed_at :: "u8 list \<Rightarrow> nat \<Rightarrow> bkey_packed option" where
  "packed_at data off =
     (if off + 24 \<le> length data
      then Some \<lparr>kwords = map (\<lambda>i. word_at data (off + 8 * i)) [0..<3], vbytes = drop (off + 24) data\<rparr> else None)"

definition packed_bytes :: "bkey_packed \<Rightarrow> u8 list" where
  "packed_bytes k = concat (map (le_bytes 8) (kwords k)) @ vbytes k"

subsection \<open>Reading and writing an entry\<close>

definition read_entry_u64s :: "u8 list \<Rightarrow> nat \<Rightarrow> nat option" where
  "read_entry_u64s data off = (if off < length data then Some (unat (data ! off)) else None)"

definition target_bpos :: "btree_key \<Rightarrow> bpos" where
  "target_bpos t = Bpos 0 (vaddr t) (snapshot_id t)"

definition compare_packed_entry :: "u8 list \<Rightarrow> nat \<Rightarrow> btree_key \<Rightarrow> ordering option" where
  "compare_packed_entry data off t =
     (case packed_at data off of None \<Rightarrow> None | Some k \<Rightarrow> bkey_cmp_packed_vs_bpos bkey_format_current k (target_bpos t))"

definition read_packed_entry :: "u8 list \<Rightarrow> nat \<Rightarrow> (btree_key \<times> bch_val) option" where
  "read_packed_entry data off =
     (case packed_at data off of None \<Rightarrow> None | Some k \<Rightarrow>
      (case bkey_unpack bkey_format_current k of None \<Rightarrow> None | Some (p, ty, pa, v) \<Rightarrow>
       (case key_type_from_u8 ty of None \<Rightarrow> None | Some kt \<Rightarrow>
         map_option (Pair (btree_key_from_bpos p kt)) (bch_val_new pa v))))"

definition value_of_bytes :: "u8 \<Rightarrow> u8 list \<Rightarrow> key_value" where
  "value_of_bytes lvl vb =
     (if 0 < lvl \<and> length vb = btree_ptr_disk_bytes
      then (case btree_ptr_from_bytes vb of Inr ptr \<Rightarrow> BtreePtr ptr | Inl _ \<Rightarrow> Raw vb) else Raw vb)"

definition read_packed_entry_raw :: "u8 \<Rightarrow> u8 list \<Rightarrow> nat \<Rightarrow> btree_entry option" where
  "read_packed_entry_raw lvl data off =
     (case packed_at data off of None \<Rightarrow> None | Some k \<Rightarrow>
      (case bkey_unpack_bytes bkey_format_current k of None \<Rightarrow> None | Some (p, ty, vb) \<Rightarrow>
        map_option (\<lambda>kt. \<lparr>pos = p, ekey_type = kt, evalue = value_of_bytes lvl vb\<rparr>) (key_type_from_u8 ty)))"

text \<open>Both writers return the buffer and the size \<open>u64s * 8\<close> of what they wrote.\<close>

definition write_packed :: "u8 list \<Rightarrow> nat \<Rightarrow> bkey_packed outcome \<Rightarrow> (u8 list \<times> nat) option" where
  "write_packed data off r =
     (case r of
        Packed k \<Rightarrow> (if off + length (packed_bytes k) \<le> length data
                     then Some (put_bytes off (packed_bytes k) data, unat (pk_u64s k) * 8) else None)
      | _ \<Rightarrow> None)"

definition write_entry :: "u8 list \<Rightarrow> nat \<Rightarrow> btree_key \<Rightarrow> bch_val \<Rightarrow> (u8 list \<times> nat) option" where
  "write_entry data off k v =
     write_packed data off (bkey_pack bkey_format_current (target_bpos k) (key_type_u8 (bk_type k)) (paddr v) (ver v))"

definition write_entry_bytes :: "u8 list \<Rightarrow> nat \<Rightarrow> btree_entry \<Rightarrow> (u8 list \<times> nat) option" where
  "write_entry_bytes data off e =
     write_packed data off (bkey_pack_raw bkey_format_current (pos e) (key_type_u8 (ekey_type e)) (key_value_to_bytes (evalue e)))"

text \<open>
  Every loop over a set goes from entry to entry by the length byte. \<open>f\<close> is its body: it reads at
  the offset and continues with \<open>Inl\<close> or returns with \<open>Inr\<close>. A length byte of 0 makes the code
  visit the same entry for ever; the bodies here do the same at each visit, so that case has no result.
\<close>

function scan_set ::
  "u8 list \<Rightarrow> (nat \<Rightarrow> 's \<Rightarrow> ('s + 'r) option) \<Rightarrow> nat \<Rightarrow> nat \<Rightarrow> 's \<Rightarrow> ('s + 'r) option" where
  "scan_set data f cur e s =
     (if e \<le> cur then Some (Inl s)
      else case f cur s of
        None \<Rightarrow> None
      | Some (Inr r) \<Rightarrow> Some (Inr r)
      | Some (Inl s') \<Rightarrow>
          (case read_entry_u64s data cur of
             None \<Rightarrow> None
           | Some n \<Rightarrow> if n = 0 then None else scan_set data f (cur + n * 8) e s'))"
  by pat_completeness auto
termination by (relation "measure (\<lambda>(data, f, cur, e, s). e - cur)") auto

declare scan_set.simps [simp del]

subsection \<open>What the bytes mean\<close>

text \<open>An entry as it is stored: position, type, value bytes padded to whole words.\<close>

type_synonym pent = "bpos \<times> key_type \<times> u8 list"

definition pad8 :: "u8 list \<Rightarrow> u8 list" where
  "pad8 bs = bs @ replicate (8 * div_ceil8 (length bs) - length bs) 0"

definition pent_of :: "btree_entry \<Rightarrow> pent" where
  "pent_of e = (pos e, ekey_type e, pad8 (key_value_to_bytes (evalue e)))"

definition pent_size :: "pent \<Rightarrow> nat" where
  "pent_size x = 24 + length (snd (snd x))"

definition pent_entry :: "u8 \<Rightarrow> pent \<Rightarrow> btree_entry" where
  "pent_entry lvl x = \<lparr>pos = fst x, ekey_type = fst (snd x), evalue = value_of_bytes lvl (snd (snd x))\<rparr>"

definition pent_ok :: "pent \<Rightarrow> bool" where
  "pent_ok x \<longleftrightarrow> length (snd (snd x)) mod 8 = 0 \<and> 3 + length (snd (snd x)) div 8 < 256"

definition pent_bytes :: "pent \<Rightarrow> u8 list" where
  "pent_bytes x = (case bkey_pack_raw bkey_format_current (fst x) (key_type_u8 (fst (snd x))) (snd (snd x)) of
     Packed k \<Rightarrow> packed_bytes k | _ \<Rightarrow> [])"

lemma length_pad8: "length (pad8 bs) = 8 * div_ceil8 (length bs)" "length (pad8 bs) mod 8 = 0"
  by (simp_all add: pad8_def div_ceil8_def)

lemma pad8_id: "length bs mod 8 = 0 \<Longrightarrow> pad8 bs = bs"
proof -
  assume "length bs mod 8 = 0"
  then obtain n where "length bs = 8 * n" by fastforce
  then show ?thesis by (simp add: pad8_def div_ceil8_def)
qed

lemma div_ceil8_pad8 [simp]: "div_ceil8 (length (pad8 bs)) = div_ceil8 (length bs)"
  by (simp add: length_pad8) (simp add: div_ceil8_def)

lemma key_u64s_current [simp]: "key_u64s bkey_format_current = 3"
  by (simp add: bkey_format_current_def)

text \<open>What the packer makes of an entry.\<close>

lemma pack_raw_current:
  assumes "3 + div_ceil8 (length vb) < 256"
  shows "\<exists>k. bkey_pack_raw bkey_format_current p ty vb = Packed k \<and> length (kwords k) = 3 \<and> vbytes k = pad8 vb \<and>
    unat (pk_u64s k) = 3 + div_ceil8 (length vb) \<and> pk_type k = ty \<and>
    fields_at bkey_format_current (kwords k) 0 (pos_fields p)"
proof -
  let ?c = "div_ceil8 (length vb)"
  have tot: "unat (3 + of_nat ?c :: u8) = 3 + ?c" using assms by (simp add: unat_word_ariths unat_of_nat)
  obtain ws where ws: "pack_key_words bkey_format_current p = Packed ws" "length ws = 3" "ws \<noteq> []"
    and at: "fields_at bkey_format_current (set_header (3 + of_nat ?c) 0 ty ws) 0 (pos_fields p)"
    using pack_key_words_fields[OF format_wf_current pos_fits_current, of p "3 + of_nat ?c" 0 ty] by auto
  let ?k = "\<lparr>kwords = set_header (3 + of_nat ?c) 0 ty ws, vbytes = pad8 vb\<rparr>"
  have "(3 + ?c) * 8 - (24 + length vb) = 8 * ?c - length vb" by simp
  then have pk: "bkey_pack_raw bkey_format_current p ty vb = Packed ?k"
    using ws(1) tot by (simp add: bkey_pack_raw_def Let_def pad8_def)
  have "pk_u64s ?k = 3 + of_nat ?c" "pk_type ?k = ty" using pk_set_header[of ?k "3 + of_nat ?c" 0 ty ws] ws(3) by simp_all
  then show ?thesis using pk at tot ws(2) by (intro exI[of _ ?k] conjI) (simp_all add: set_header_def)
qed

lemma pack_raw_eq:
  assumes "3 + div_ceil8 (length vb) < 256"
  shows "bkey_pack_raw bkey_format_current p ty vb =
    (case pack_key_words bkey_format_current p of
       Packed ws \<Rightarrow> Packed \<lparr>kwords = set_header (3 + of_nat (div_ceil8 (length vb))) 0 ty ws, vbytes = pad8 vb\<rparr>
     | Rejected \<Rightarrow> Rejected | Fault \<Rightarrow> Fault)"
proof -
  let ?c = "div_ceil8 (length vb)"
  have tot: "unat (3 + of_nat ?c :: u8) = 3 + ?c" using assms by (simp add: unat_word_ariths unat_of_nat)
  have "(3 + ?c) * 8 - (24 + length vb) = 8 * ?c - length vb" by simp
  then show ?thesis
    using tot by (cases "pack_key_words bkey_format_current p") (simp_all add: bkey_pack_raw_def Let_def pad8_def)
qed

lemma pack_raw_pad8:
  assumes "3 + div_ceil8 (length vb) < 256"
  shows "bkey_pack_raw bkey_format_current p ty (pad8 vb) = bkey_pack_raw bkey_format_current p ty vb"
proof -
  have "3 + div_ceil8 (length (pad8 vb)) < 256" using assms by simp
  from pack_raw_eq[OF this] pack_raw_eq[OF assms] show ?thesis
    by (cases "pack_key_words bkey_format_current p") (simp_all add: pad8_id length_pad8(2))
qed

text \<open>The bytes of an entry and what the readers make of them, wherever they lie in the buffer.\<close>

lemma div_ceil8_mult: "n mod 8 = 0 \<Longrightarrow> div_ceil8 n = n div 8"
  by (auto simp: div_ceil8_def elim!: dvdE simp flip: dvd_eq_mod_eq_0)

lemma pent_packed:
  assumes "pent_ok x"
  obtains k where "bkey_pack_raw bkey_format_current (fst x) (key_type_u8 (fst (snd x))) (snd (snd x)) = Packed k"
    "length (kwords k) = 3" "vbytes k = snd (snd x)" "unat (pk_u64s k) * 8 = pent_size x"
    "pk_type k = key_type_u8 (fst (snd x))" "fields_at bkey_format_current (kwords k) 0 (pos_fields (fst x))"
    "pent_bytes x = concat (map (le_bytes 8) (kwords k)) @ snd (snd x)"
proof -
  let ?vb = "snd (snd x)"
  have ok: "3 + div_ceil8 (length ?vb) < 256" "length ?vb mod 8 = 0" using assms by (simp_all add: pent_ok_def div_ceil8_mult)
  have "8 * (length ?vb div 8) = length ?vb" using ok(2) by (metis add.right_neutral mult_div_mod_eq)
  then have sz: "(3 + length ?vb div 8) * 8 = pent_size x" by (simp add: pent_size_def)
  from pack_raw_current[OF ok(1), of "fst x" "key_type_u8 (fst (snd x))"] obtain k where
    "bkey_pack_raw bkey_format_current (fst x) (key_type_u8 (fst (snd x))) ?vb = Packed k" "length (kwords k) = 3"
    "vbytes k = pad8 ?vb" "unat (pk_u64s k) = 3 + div_ceil8 (length ?vb)" "pk_type k = key_type_u8 (fst (snd x))"
    "fields_at bkey_format_current (kwords k) 0 (pos_fields (fst x))" by blast
  with sz ok show ?thesis by (intro that[of k]) (simp_all add: pent_bytes_def packed_bytes_def pad8_id div_ceil8_mult)
qed

lemma length_concat_le_bytes [simp]: "length (concat (map (le_bytes n) ws)) = n * length ws"
  by (induction ws) simp_all

lemma length_pent_bytes [simp]: "pent_ok x \<Longrightarrow> length (pent_bytes x) = pent_size x"
  by (rule pent_packed[of x]) (simp_all add: pent_size_def)

lemma drop_split: "drop a xs = ys @ zs \<Longrightarrow> drop (a + length ys) xs = zs"
  by (metis add.commute append_eq_conv_conj drop_drop)

lemma drop_split_bound: "drop a xs = ys @ zs \<Longrightarrow> ys \<noteq> [] \<Longrightarrow> a + length ys \<le> length xs"
proof -
  assume h: "drop a xs = ys @ zs" "ys \<noteq> []"
  then have "length xs - a = length ys + length zs" by (metis length_append length_drop)
  then show ?thesis using h(2) by (cases ys) auto
qed

lemma le_word_8 [simp]: "(le_word (le_bytes 8 w) :: u64) = w"
  by (rule le_word_le_bytes_full) simp

lemma word_at_concat:
  "drop off data = concat (map (le_bytes 8) ws) @ rest \<Longrightarrow> i < length ws \<Longrightarrow> word_at data (off + 8 * i) = ws ! i"
proof (induction ws arbitrary: off i)
  case (Cons w ws)
  show ?case
  proof (cases i)
    case 0
    then show ?thesis using Cons.prems by (simp add: word_at_def)
  next
    case (Suc j)
    have "drop (off + 8) data = concat (map (le_bytes 8) ws) @ rest"
      using drop_split[of off data "le_bytes 8 w" "concat (map (le_bytes 8) ws) @ rest"] Cons.prems(1) by simp
    from Cons.IH[OF this, of j] show ?thesis using Cons.prems Suc by (simp add: ac_simps)
  qed
qed simp

lemma packed_at_words:
  assumes "drop off data = concat (map (le_bytes 8) ws) @ rest" "length ws = 3"
  shows "packed_at data off = Some \<lparr>kwords = ws, vbytes = rest\<rparr>"
proof -
  have ne: "concat (map (le_bytes 8) ws) \<noteq> []"
    using assms(2) by (metis length_concat_le_bytes list.size(3) mult_is_0 zero_neq_numeral)
  have "map (\<lambda>i. word_at data (off + 8 * i)) [0..<3] = ws"
    by (rule nth_equalityI) (use assms(2) word_at_concat[OF assms(1)] in simp_all)
  moreover have "off + 24 \<le> length data" "drop (off + 24) data = rest"
    using drop_split_bound[OF assms(1) ne] drop_split[OF assms(1)] assms(2) by simp_all
  ultimately show ?thesis by (simp add: packed_at_def)
qed

lemma unpack_at:
  assumes "length (kwords k) = 3" "fields_at bkey_format_current (kwords k) 0 (pos_fields p)"
  shows "bkey_unpack_pos bkey_format_current k = Some p"
    "bkey_cmp_packed_vs_bpos bkey_format_current k q = Some (bpos_cmp p q)"
proof -
  have len: "length (kwords k) = unat (key_u64s bkey_format_current)" using assms(1) by simp
  show "bkey_unpack_pos bkey_format_current k = Some p"
    by (rule bkey_unpack_pos_packed[OF format_wf_current pos_fits_current len assms(2)])
  from unpack_packed_fields[OF format_wf_current pos_fits_current len assms(2)]
  obtain st where st: "unpack_new (unat (key_u64s bkey_format_current)) (kwords k) = Some st"
    "get_fields bkey_format_current (kwords k) st [0, 1, 2] = Some (map snd (pos_fields p))"
    unfolding unpack_key_fields_def by (auto split: option.splits)
  have "map fst (pos_fields q) = [0, 1, 2]" by (simp add: pos_fields_def)
  then show "bkey_cmp_packed_vs_bpos bkey_format_current k q = Some (bpos_cmp p q)"
    using cmp_fields_vs_get_fields[of bkey_format_current "kwords k" st "pos_fields q"] st
    by (simp only: bkey_cmp_packed_vs_bpos_def option.case cmp_lists_pos_fields)
qed

lemma nth_of_drop: "drop off data = xs @ rest \<Longrightarrow> i < length xs \<Longrightarrow> data ! (off + i) = xs ! i \<and> off + i < length data"
proof -
  assume h: "drop off data = xs @ rest" "i < length xs"
  then have "off + length xs \<le> length data" by (intro drop_split_bound[OF h(1)]) auto
  moreover have "drop off data ! i = data ! (off + i)" using h calculation by (intro nth_drop) simp
  ultimately show ?thesis using h by (simp add: nth_append)
qed

text \<open>An entry at an offset of the buffer, and its three readers.\<close>

lemma entry_at:
  assumes at: "drop off data = pent_bytes x @ rest" and ok: "pent_ok x"
  shows "read_entry_u64s data off = Some (pent_size x div 8)"
    "read_packed_entry_raw lvl data off = Some (pent_entry lvl x)"
    "compare_packed_entry data off t = Some (bpos_cmp (fst x) (target_bpos t))"
    "off + 2 < length data \<and> data ! (off + 2) = key_type_u8 (fst (snd x))"
    "off + pent_size x \<le> length data"
    "8 \<le> length (drop (off + 24) data) \<Longrightarrow> read_packed_entry data off =
       map_option (Pair (btree_key_from_bpos (fst x) (fst (snd x))))
         (case bch_val_of_bytes (drop (off + 24) data) of (pa, v) \<Rightarrow> bch_val_new pa v)"
    "drop (off + 24) data = snd (snd x) @ rest"
proof -
  obtain k where k: "length (kwords k) = 3" "vbytes k = snd (snd x)" "unat (pk_u64s k) * 8 = pent_size x"
    "pk_type k = key_type_u8 (fst (snd x))" "fields_at bkey_format_current (kwords k) 0 (pos_fields (fst x))"
    "pent_bytes x = concat (map (le_bytes 8) (kwords k)) @ snd (snd x)"
    by (rule pent_packed[OF ok])
  let ?k = "\<lparr>kwords = kwords k, vbytes = snd (snd x) @ rest\<rparr>"
  have d: "drop off data = concat (map (le_bytes 8) (kwords k)) @ (snd (snd x) @ rest)" using at k(6) by simp
  have pk: "packed_at data off = Some ?k" by (rule packed_at_words[OF d k(1)])
  obtain a ws where ws: "kwords k = a # ws" using k(1) by (cases "kwords k") auto
  have h: "data ! off = pk_u64s k" "off < length data" "data ! (off + 2) = pk_type k" "off + 2 < length data"
    using nth_of_drop[OF d, of 0] nth_of_drop[OF d, of 2] k(1) ws
    by (simp_all add: pk_u64s_def pk_type_def get_byte_def nth_append le_bytes_def)
  show "read_entry_u64s data off = Some (pent_size x div 8)" using h k(3) by (simp add: read_entry_u64s_def)
  show "off + 2 < length data \<and> data ! (off + 2) = key_type_u8 (fst (snd x))" using h k(4) by simp
  show b: "off + pent_size x \<le> length data"
    using drop_split_bound[OF at] ok by (cases "pent_bytes x = []") (auto dest: length_pent_bytes simp: pent_size_def)
  show v: "drop (off + 24) data = snd (snd x) @ rest" using drop_split[OF d] k(1) by simp
  note u = unpack_at[of ?k "fst x", simplified, OF k(1,5)]
  have t: "pk_type ?k = key_type_u8 (fst (snd x))" "pk_u64s ?k = pk_u64s k" using k(4) by (simp_all add: pk_type_def pk_u64s_def)
  show "compare_packed_entry data off t = Some (bpos_cmp (fst x) (target_bpos t))"
    using pk u(2) by (simp add: compare_packed_entry_def)
  have "pent_size x - 24 = length (snd (snd x))" "24 \<le> pent_size x" by (simp_all add: pent_size_def)
  then show "read_packed_entry_raw lvl data off = Some (pent_entry lvl x)"
    using pk u(1) t k(3) by (simp add: read_packed_entry_raw_def bkey_unpack_bytes_def Let_def pent_entry_def)
  show "read_packed_entry data off =
       map_option (Pair (btree_key_from_bpos (fst x) (fst (snd x))))
         (case bch_val_of_bytes (drop (off + 24) data) of (pa, w) \<Rightarrow> bch_val_new pa w)"
    if "8 \<le> length (drop (off + 24) data)"
    using that pk u(1) t unfolding v by (simp add: read_packed_entry_def bkey_unpack_def split: prod.split)
qed

lemma pent_of_entry: "pent_ok x \<Longrightarrow> pent_of (pent_entry lvl x) = x"
  by (auto simp: pent_of_def pent_entry_def value_of_bytes_def pent_ok_def pad8_id dest: btree_ptr_encode_decode
      split: sum.split) 

lemma pent_ok_of: "pent_ok (pent_of e) \<longleftrightarrow> 3 + div_ceil8 (length (key_value_to_bytes (evalue e))) < 256"
  by (simp add: pent_ok_def pent_of_def length_pad8)

lemma pent_size_of: "pent_size (pent_of e) = 24 + 8 * div_ceil8 (length (key_value_to_bytes (evalue e)))"
  by (simp add: pent_size_def pent_of_def length_pad8)

text \<open>The writers put an entry's bytes.\<close>

lemma write_entry_bytes_eq:
  assumes "pent_ok (pent_of e)"
  shows "write_entry_bytes data off e =
    (if off + pent_size (pent_of e) \<le> length data
     then Some (put_bytes off (pent_bytes (pent_of e)) data, pent_size (pent_of e)) else None)"
proof -
  let ?vb = "key_value_to_bytes (evalue e)"
  have c: "3 + div_ceil8 (length ?vb) < 256" using assms by (simp add: pent_ok_of)
  obtain k where k: "bkey_pack_raw bkey_format_current (pos e) (key_type_u8 (ekey_type e)) (pad8 ?vb) = Packed k"
    "vbytes k = pad8 ?vb" "unat (pk_u64s k) * 8 = pent_size (pent_of e)"
    "pent_bytes (pent_of e) = concat (map (le_bytes 8) (kwords k)) @ pad8 ?vb"
    using pent_packed[OF assms] by (auto simp: pent_of_def)
  then have eq: "packed_bytes k = pent_bytes (pent_of e)" by (simp add: packed_bytes_def)
  then have "length (packed_bytes k) = pent_size (pent_of e)" using length_pent_bytes[OF assms] by simp
  with k eq show ?thesis using pack_raw_pad8[OF c] by (simp add: write_entry_bytes_def write_packed_def)
qed

definition legacy_pent :: "btree_key \<Rightarrow> bch_val \<Rightarrow> pent" where
  "legacy_pent k v = (target_bpos k, bk_type k, le_bytes 6 (paddr v) @ le_bytes 2 (ver v))"

lemma legacy_pent_of: "legacy_pent k v = pent_of (entry_from_legacy k v)"
  by (simp add: legacy_pent_def pent_of_def entry_from_legacy_def target_bpos_def pad8_id)

lemma legacy_pent_ok [simp]: "pent_ok (legacy_pent k v)" "pent_size (legacy_pent k v) = 32"
  by (simp_all add: legacy_pent_def pent_ok_def pent_size_def)

lemma write_entry_legacy: "write_entry data off k v = write_entry_bytes data off (entry_from_legacy k v)"
proof -
  have "bkey_pack bkey_format_current p ty (paddr v) (ver v) =
    bkey_pack_raw bkey_format_current p ty (le_bytes 6 (paddr v) @ le_bytes 2 (ver v))" for p ty
    by (cases "pack_key_words bkey_format_current p")
      (simp_all add: bkey_pack_def pack_raw_eq div_ceil8_def pad8_id)
  then show ?thesis by (simp add: write_entry_def write_entry_bytes_def entry_from_legacy_def target_bpos_def)
qed

lemma write_entry_eq: "write_entry data off k v =
    (if off + 32 \<le> length data then Some (put_bytes off (pent_bytes (legacy_pent k v)) data, 32) else None)"
proof -
  have "pent_ok (pent_of (entry_from_legacy k v))" "pent_size (pent_of (entry_from_legacy k v)) = 32"
    using legacy_pent_ok[of k v] by (simp_all add: legacy_pent_of)
  then show ?thesis by (simp add: write_entry_legacy write_entry_bytes_eq legacy_pent_of)
qed

subsection \<open>Stretches of the buffer\<close>

definition laid :: "u8 list \<Rightarrow> nat \<Rightarrow> pent list \<Rightarrow> bool" where
  "laid data off xs \<longleftrightarrow> prefix (concat (map pent_bytes xs)) (drop off data)"

definition pents_size :: "pent list \<Rightarrow> nat" where
  "pents_size xs = sum_list (map pent_size xs)"

lemma pents_size_simps [simp]: "pents_size [] = 0" "pents_size (x # xs) = pent_size x + pents_size xs"
  "pents_size (xs @ ys) = pents_size xs + pents_size ys"
  by (simp_all add: pents_size_def)

lemma length_pents_bytes: "list_all pent_ok xs \<Longrightarrow> length (concat (map pent_bytes xs)) = pents_size xs"
  by (induction xs) simp_all

lemma pent_size_pos [simp]: "0 < pent_size x"
  by (simp add: pent_size_def)

lemma laid_Nil [simp]: "laid data off []"
  by (simp add: laid_def)

lemma laid_Cons: "pent_ok x \<Longrightarrow> laid data off (x # xs) \<longleftrightarrow>
    (\<exists>rest. drop off data = pent_bytes x @ rest) \<and> laid data (off + pent_size x) xs"
proof
  assume ok: "pent_ok x"
  show "(\<exists>rest. drop off data = pent_bytes x @ rest) \<and> laid data (off + pent_size x) xs" if "laid data off (x # xs)"
  proof -
    from that obtain r where "drop off data = pent_bytes x @ concat (map pent_bytes xs) @ r" by (auto simp: laid_def elim!: prefixE)
    moreover from drop_split[OF this] have "drop (off + pent_size x) data = concat (map pent_bytes xs) @ r" using ok by simp
    ultimately show ?thesis by (auto simp: laid_def)
  qed
  assume h: "(\<exists>rest. drop off data = pent_bytes x @ rest) \<and> laid data (off + pent_size x) xs"
  then obtain rest where r: "drop off data = pent_bytes x @ rest" by blast
  from drop_split[OF r] h ok show "laid data off (x # xs)" by (simp add: laid_def r)
qed

lemma laid_append: "list_all pent_ok xs \<Longrightarrow>
    laid data off (xs @ ys) \<longleftrightarrow> laid data off xs \<and> laid data (off + pents_size xs) ys"
proof (induction xs arbitrary: off)
  case (Cons x xs)
  then show ?case by (simp add: laid_Cons ac_simps)
qed simp

lemma laid_bound: "laid data off xs \<Longrightarrow> list_all pent_ok xs \<Longrightarrow> xs \<noteq> [] \<Longrightarrow> off + pents_size xs \<le> length data"
proof -
  assume h: "laid data off xs" "list_all pent_ok xs" "xs \<noteq> []"
  then obtain r where "drop off data = concat (map pent_bytes xs) @ r" by (auto simp: laid_def elim: prefixE)
  moreover have "0 < pents_size xs" using h(3) by (cases xs) auto
  ultimately show ?thesis
    using drop_split_bound[of off data "concat (map pent_bytes xs)" r] length_pents_bytes[OF h(2)] by (metis length_greater_0_conv)
qed

lemma length_put_bytes [simp]: "off + length bs \<le> length data \<Longrightarrow> length (put_bytes off bs data) = length data"
  by (simp add: put_bytes_def)

lemma drop_put_bytes: "off + length bs \<le> length data \<Longrightarrow> drop off (put_bytes off bs data) = bs @ drop (off + length bs) data"
  by (simp add: put_bytes_def)

lemma laid_frame:
  assumes "laid data o1 xs" "list_all pent_ok xs" "o1 + pents_size xs \<le> off \<or> off + length bs \<le> o1"
    "off + length bs \<le> length data"
  shows "laid (put_bytes off bs data) o1 xs"
  using assms(3)
proof
  assume "off + length bs \<le> o1"
  then have "drop o1 (put_bytes off bs data) = drop o1 data"
    using assms(4) by (simp add: put_bytes_def)
  then show ?thesis using assms(1) by (simp add: laid_def)
next
  assume le: "o1 + pents_size xs \<le> off"
  obtain r where r: "drop o1 data = concat (map pent_bytes xs) @ r" using assms(1) by (auto simp: laid_def elim: prefixE)
  have "prefix (take (off - o1) (drop o1 data)) (drop o1 (put_bytes off bs data))"
    using le assms(4) by (simp add: put_bytes_def drop_take)
  moreover have "prefix (concat (map pent_bytes xs)) (take (off - o1) (drop o1 data))"
    using le length_pents_bytes[OF assms(2)] by (simp add: r)
  ultimately show ?thesis unfolding laid_def by (rule prefix_order.trans[rotated])
qed

lemma laid_put:
  assumes "list_all pent_ok xs" "off + pents_size xs \<le> length data"
  shows "laid (put_bytes off (concat (map pent_bytes xs)) data) off xs"
  using assms by (simp add: laid_def drop_put_bytes length_pents_bytes)

text \<open>A scan over a stretch visits exactly its entries.\<close>

lemma scan_set_laid:
  assumes "laid data off (x # xs)" "pent_ok x" "e = off + pents_size (x # xs)"
  shows "scan_set data f off e s =
    (case f off s of None \<Rightarrow> None | Some (Inr r) \<Rightarrow> Some (Inr r)
     | Some (Inl s') \<Rightarrow> scan_set data f (off + pent_size x) e s')"
proof -
  obtain rest where r: "drop off data = pent_bytes x @ rest" using assms by (auto simp: laid_Cons)
  have "pent_size x mod 8 = 0" using assms(2) by (simp add: pent_size_def pent_ok_def mod_add_eq[symmetric])
  then have "8 * (pent_size x div 8) = pent_size x" "pent_size x div 8 \<noteq> 0"
    using pent_size_pos[of x] by (metis mult_div_mod_eq add.right_neutral, metis mult_div_mod_eq add.right_neutral mult_0_right less_irrefl)
  moreover have "\<not> e \<le> off" using assms(3) pent_size_pos[of x] by simp
  ultimately show ?thesis
    using entry_at(1)[OF r assms(2)] by (subst scan_set.simps) (simp add: mult.commute split: option.split sum.split)
qed

lemma scan_set_end [simp]: "scan_set data f e e s = Some (Inl s)"
  by (simp add: scan_set.simps)

end
