(* ===== verification/Node.thy ===== *)
theory Node
  imports NodeData
begin

text \<open>
  A btree node (\<open>btree/node.rs\<close>): \<open>BsetTree\<close>, \<open>BtreeNode\<close>, its flags and life-cycle state, and the
  operations on the entries: insertion, deletion, collection, compaction, lookup, splitting and
  absorption. Offsets and sizes are \<open>u32\<close> in the code and bounded by the buffer, so they are \<open>nat\<close>
  here; entry counts and the \<open>u16\<close> fields of a set keep their width. The lock, the condition
  variables and the journal pin slot carry no data and are left out.
\<close>

section \<open>State\<close>

record bset_tree =
  bs_data :: nat
  bs_end :: nat
  bs_aux :: nat
  bs_size :: u16
  bs_extra :: u16

definition bset_empty :: bset_tree where
  "bset_empty = \<lparr>bs_data = 0, bs_end = 0, bs_aux = 0, bs_size = 0, bs_extra = 0\<rparr>"

definition bset_data_bytes :: "bset_tree \<Rightarrow> nat" where
  "bset_data_bytes t = bs_end t - bs_data t"

datatype aux_tree_type = NoAuxTree | RoAuxTree | RwAuxTree

text \<open>The debug assertions of \<open>aux_tree_type\<close> are \<open>None\<close>.\<close>

definition bset_aux_tree_type :: "bset_tree \<Rightarrow> aux_tree_type option" where
  "bset_aux_tree_type t =
     (if bs_extra t = - 1 then (if bs_size t = 0 then Some NoAuxTree else None)
      else if bs_size t = 0 then None
      else Some (if bs_extra t = - 2 then RwAuxTree else RoAuxTree))"

record node =
  nd_level :: u8
  nd_key_count :: u32
  nd_whiteouts :: u32
  nd_size :: nat
  nd_data :: "u8 list"
  nd_sets :: "bset_tree list"
  nd_refcount :: u32
  nd_state :: u8
  nd_flags :: u8
  nd_min :: bpos
  nd_max :: bpos
  nd_seq :: u64
  nd_addr :: u64
  nd_reachable :: bool
  nd_pins :: u32
  nd_reading :: bool

definition default_node_size :: nat where
  "default_node_size = 256 * 1024"

definition node_new :: "u8 \<Rightarrow> node" where
  "node_new lvl =
     \<lparr>nd_level = lvl, nd_key_count = 0, nd_whiteouts = 0, nd_size = default_node_size,
      nd_data = replicate default_node_size 0, nd_sets = replicate 3 bset_empty, nd_refcount = 1,
      nd_state = 0, nd_flags = 0, nd_min = bpos_max, nd_max = bpos_min, nd_seq = 0, nd_addr = 0,
      nd_reachable = False, nd_pins = 0, nd_reading = False\<rparr>"

section \<open>Flags and life cycle\<close>

datatype node_state = Alive | Deleting | InFlight | Reclaim

fun node_state_u8 :: "node_state \<Rightarrow> u8" where
  "node_state_u8 Alive = 0"
| "node_state_u8 Deleting = 1"
| "node_state_u8 InFlight = 2"
| "node_state_u8 Reclaim = 3"

definition node_transition_state :: "node_state \<Rightarrow> node \<Rightarrow> node" where
  "node_transition_state s n = n\<lparr>nd_state := node_state_u8 s\<rparr>"

definition node_get_state :: "node \<Rightarrow> node_state" where
  "node_get_state n = (if nd_state n = 1 then Deleting else if nd_state n = 2 then InFlight
     else if nd_state n = 3 then Reclaim else Alive)"

text \<open>The flag bits; setting, clearing and testing one is the same code for each.\<close>

definition node_accessed :: u8 where "node_accessed = 1"
definition node_need_rewrite :: u8 where "node_need_rewrite = 2"
definition node_write_in_flight :: u8 where "node_write_in_flight = 4"
definition node_read_in_flight :: u8 where "node_read_in_flight = 8"
definition node_just_written :: u8 where "node_just_written = 16"

definition node_has_flag :: "u8 \<Rightarrow> node \<Rightarrow> bool" where
  "node_has_flag f n \<longleftrightarrow> nd_flags n AND f \<noteq> 0"

definition node_set_flag :: "u8 \<Rightarrow> node \<Rightarrow> node" where
  "node_set_flag f n = n\<lparr>nd_flags := nd_flags n OR f\<rparr>"

definition node_clear_flag :: "u8 \<Rightarrow> node \<Rightarrow> node" where
  "node_clear_flag f n = n\<lparr>nd_flags := nd_flags n AND NOT f\<rparr>"

definition set_read_in_flight :: "node \<Rightarrow> node" where
  "set_read_in_flight n = (node_set_flag node_read_in_flight n)\<lparr>nd_reading := True\<rparr>"

definition clear_read_in_flight :: "node \<Rightarrow> node" where
  "clear_read_in_flight n = (node_clear_flag node_read_in_flight n)\<lparr>nd_reading := False\<rparr>"

text \<open>The compare-and-swap loops, as the one atomic step they amount to.\<close>

definition try_lock_write_in_flight :: "node \<Rightarrow> bool \<times> node" where
  "try_lock_write_in_flight n =
     (if node_has_flag node_write_in_flight n then (False, n) else (True, node_set_flag node_write_in_flight n))"

definition try_lock_read_in_flight :: "node \<Rightarrow> bool \<times> node" where
  "try_lock_read_in_flight n =
     (if node_has_flag node_read_in_flight n then (False, n) else (True, set_read_in_flight n))"

definition reset_for_reuse :: "u8 \<Rightarrow> node \<Rightarrow> node" where
  "reset_for_reuse lvl n =
     (let n1 = n\<lparr>nd_level := lvl, nd_key_count := 0, nd_whiteouts := 0, nd_size := default_node_size,
                 nd_data := replicate (length (nd_data n)) 0, nd_sets := replicate 3 bset_empty,
                 nd_refcount := 1, nd_state := node_state_u8 Alive\<rparr>;
          n2 = (if node_has_flag node_read_in_flight n1 then clear_read_in_flight n1 else n1);
          n3 = (if node_has_flag node_write_in_flight n2 then node_clear_flag node_write_in_flight n2 else n2)
      in n3\<lparr>nd_flags := 0, nd_min := bpos_max, nd_max := bpos_min, nd_seq := 0, nd_addr := 0,
            nd_reachable := False, nd_pins := 0, nd_reading := False\<rparr>)"

definition node_clone :: "node \<Rightarrow> node" where
  "node_clone n = n\<lparr>nd_pins := 0\<rparr>"

section \<open>Sets\<close>

definition nsets :: "node \<Rightarrow> nat" where
  "nsets n =
     (if 0 < bs_size (nd_sets n ! 2) \<or> 0 < bset_data_bytes (nd_sets n ! 2) then 3
      else if 0 < bs_size (nd_sets n ! 1) \<or> 0 < bset_data_bytes (nd_sets n ! 1) then 2 else 1)"

definition current_bset :: "node \<Rightarrow> bset_tree" where
  "current_bset n = nd_sets n ! (nsets n - 1)"

definition keys_init :: "node \<Rightarrow> node" where
  "keys_init n = n\<lparr>nd_sets := map (\<lambda>t. bset_empty) (nd_sets n), nd_key_count := 0, nd_whiteouts := 0\<rparr>"

text \<open>Looping over the entries of all sets in turn.\<close>

fun scan_all ::
  "u8 list \<Rightarrow> (nat \<Rightarrow> 's \<Rightarrow> ('s + 'r) option) \<Rightarrow> bset_tree list \<Rightarrow> 's \<Rightarrow> ('s + 'r) option" where
  "scan_all data f [] s = Some (Inl s)"
| "scan_all data f (t # ts) s =
     (case scan_set data f (bs_data t) (bs_end t) s of
        Some (Inl s') \<Rightarrow> scan_all data f ts s'
      | r \<Rightarrow> r)"

text \<open>A scan that never returns early.\<close>

definition scan_state :: "('s + 'r) option \<Rightarrow> 's option" where
  "scan_state r = (case r of Some (Inl s) \<Rightarrow> Some s | _ \<Rightarrow> None)"

definition total_data_bytes :: "node \<Rightarrow> nat option" where
  "total_data_bytes n = scan_state (scan_all (nd_data n)
     (\<lambda>cur acc. map_option (\<lambda>u. Inl (acc + u * 8) :: nat + unit) (read_entry_u64s (nd_data n) cur)) (nd_sets n) 0)"

definition read_all_entries :: "node \<Rightarrow> btree_entry list option" where
  "read_all_entries n = scan_state (scan_all (nd_data n)
     (\<lambda>cur acc. map_option (\<lambda>e. Inl (acc @ [e]) :: btree_entry list + unit)
        (read_packed_entry_raw (nd_level n) (nd_data n) cur)) (nd_sets n) [])"

section \<open>Sorting and deduplication\<close>

text \<open>The comparator of the stable sort: offset up, snapshot down; the inode plays no part.\<close>

definition node_cmp :: "btree_entry \<Rightarrow> btree_entry \<Rightarrow> ordering" where
  "node_cmp a b = then_with (ord_cmp (offset (pos a)) (offset (pos b)))
     (ord_cmp (snapshot (pos b)) (snapshot (pos a)))"

text \<open>The sort key whose order the comparator is (\<open>node_cmp_key\<close>).\<close>

definition bpos_key :: "bpos \<Rightarrow> nat" where
  "bpos_key p = unat (offset p) * 2 ^ 32 + (2 ^ 32 - 1 - unat (snapshot p))"

abbreviation node_key :: "btree_entry \<Rightarrow> nat" where
  "node_key e \<equiv> bpos_key (pos e)"

definition same_slot :: "btree_entry \<Rightarrow> btree_entry \<Rightarrow> bool" where
  "same_slot a b \<longleftrightarrow> offset (pos a) = offset (pos b) \<and> snapshot (pos a) = snapshot (pos b)"

text \<open>\<open>Vec::dedup_by\<close>: an element equal to the last one kept is dropped.\<close>

fun dedup_by :: "('a \<Rightarrow> 'a \<Rightarrow> bool) \<Rightarrow> 'a list \<Rightarrow> 'a list" where
  "dedup_by eq (x # y # ys) = (if eq y x then dedup_by eq (x # ys) else x # dedup_by eq (y # ys))"
| "dedup_by eq xs = xs"

definition live_entries :: "btree_entry list \<Rightarrow> btree_entry list" where
  "live_entries es =
     filter (\<lambda>e. ekey_type e \<noteq> Deleted) (rev (dedup_by same_slot (rev (sort_key node_key es))))"

definition collect_all_entries :: "node \<Rightarrow> btree_entry list option" where
  "collect_all_entries n = map_option live_entries (read_all_entries n)"

section \<open>Writing entries and the search arrays\<close>

fun write_entries :: "u8 list \<Rightarrow> nat \<Rightarrow> btree_entry list \<Rightarrow> (u8 list \<times> nat list \<times> nat) option" where
  "write_entries data cur [] = Some (data, [], cur)"
| "write_entries data cur (e # es) =
     (case write_entry_bytes data cur e of None \<Rightarrow> None | Some (d, sz) \<Rightarrow>
      (case write_entries d (cur + sz) es of None \<Rightarrow> None | Some (d', offs, c) \<Rightarrow> Some (d', cur # offs, c)))"

text \<open>An aux element: the packed 21-byte \<open>BtreeKey\<close> and the \<open>u32\<close> offset of its entry.\<close>

definition aux_entry_size :: nat where
  "aux_entry_size = 25"

type_synonym aux_entry = "btree_key \<times> u32"

definition aux_bytes :: "aux_entry \<Rightarrow> u8 list" where
  "aux_bytes a = le_bytes 8 (vaddr (fst a)) @ le_bytes 4 (snapshot_id (fst a)) @ [key_type_u8 (bk_type (fst a))] @
     le_bytes 8 (bk_version (fst a)) @ le_bytes 4 (snd a)"

fun write_aux :: "u8 list \<Rightarrow> nat \<Rightarrow> aux_entry list \<Rightarrow> u8 list option" where
  "write_aux data off [] = Some data"
| "write_aux data off (a # as) =
     (if off + aux_entry_size \<le> length data
      then write_aux (put_bytes off (aux_bytes a) data) (off + aux_entry_size) as else None)"

definition read_aux :: "u8 list \<Rightarrow> nat \<Rightarrow> aux_entry option" where
  "read_aux data off =
     (if off + aux_entry_size \<le> length data
      then let bs = drop off data in
        map_option (\<lambda>kt. (\<lparr>vaddr = le_word (take 8 bs), snapshot_id = le_word (take 4 (drop 8 bs)), bk_type = kt,
            bk_version = le_word (take 8 (drop 13 bs))\<rparr>, le_word (take 4 (drop 21 bs))))
          (key_type_from_u8 (bs ! 12))
      else None)"

text \<open>The Eytzinger permutation, recursing on the sorted range \<open>l..r\<close>; slots past the array are skipped.\<close>

function build_eytz_rec :: "nat list \<Rightarrow> nat \<Rightarrow> nat \<Rightarrow> nat \<Rightarrow> nat list" where
  "build_eytz_rec out l r i =
     (if r \<le> l \<or> length out \<le> i then out
      else let mid = l + (r - l) div 2 in
        build_eytz_rec (build_eytz_rec (out[i := mid]) l mid (i * 2)) (mid + 1) r (i * 2 + 1))"
  by pat_completeness auto
termination by (relation "measure (\<lambda>(out, l, r, i). r - l)") (auto simp: less_diff_conv2)

declare build_eytz_rec.simps [simp del]

function build_rec :: "'a list \<Rightarrow> 'a list \<Rightarrow> nat \<Rightarrow> nat \<Rightarrow> nat \<Rightarrow> 'a list" where
  "build_rec keys out l r i =
     (if r \<le> l \<or> length out \<le> i then out
      else let mid = l + (r - l) div 2 in
        build_rec keys (build_rec keys (out[i := keys ! mid]) l mid (i * 2)) (mid + 1) r (i * 2 + 1))"
  by pat_completeness auto
termination by (relation "measure (\<lambda>(keys, out, l, r, i). r - l)") (auto simp: less_diff_conv2)

declare build_rec.simps [simp del]

definition build_eytzinger :: "(btree_key \<times> bch_val) list \<Rightarrow> (btree_key \<times> bch_val) list" where
  "build_eytzinger keys =
     (if keys = [] then []
      else build_rec keys (replicate (length keys + 1) (btree_key_min, \<lparr>paddr = 0, ver = 0\<rparr>)) 0 (length keys) 1)"

section \<open>Compaction\<close>

definition eytzinger_min_entries :: nat where
  "eytzinger_min_entries = 16"

definition entry_key :: "btree_entry \<Rightarrow> btree_key" where
  "entry_key e = btree_key_from_bpos (pos e) (ekey_type e)"

definition aux_list :: "btree_entry list \<Rightarrow> nat list \<Rightarrow> aux_entry list" where
  "aux_list es offs = map (\<lambda>(e, o1). (entry_key e, of_nat o1)) (zip es offs)"

text \<open>\<open>compact\<close> after the entries \<open>es\<close> have been rewritten up to \<open>ds\<close>: both arrays and the set header.\<close>

definition build_aux_arrays :: "nat \<Rightarrow> u8 list \<Rightarrow> aux_entry list \<Rightarrow> nat \<Rightarrow> (u8 list \<times> bset_tree) option" where
  "build_aux_arrays nsize data aux ds =
     (let n = length aux; plain = \<lparr>bs_data = 0, bs_end = ds, bs_aux = 0, bs_size = of_nat n, bs_extra = 0\<rparr> in
      if nsize < ds + n * aux_entry_size then Some (data, plain)
      else case write_aux data ds aux of None \<Rightarrow> None | Some d1 \<Rightarrow>
        let base = ds + n * aux_entry_size in
        if eytzinger_min_entries \<le> n \<and> base + n * aux_entry_size \<le> nsize
        then (let order = build_eytz_rec (replicate (n + 1) 0) 0 n 1 in
              map_option (\<lambda>d2. (d2, plain\<lparr>bs_aux := ds, bs_extra := of_nat base\<rparr>))
                (write_aux d1 base (map (\<lambda>i. aux ! i) (tl order))))
        else Some (d1, plain\<lparr>bs_aux := ds\<rparr>))"

definition node_compact :: "node \<Rightarrow> node option" where
  "node_compact n =
     (case collect_all_entries n of None \<Rightarrow> None | Some es \<Rightarrow>
      (case write_entries (nd_data n) 0 es of None \<Rightarrow> None | Some (d, offs, ds) \<Rightarrow>
       (case build_aux_arrays (nd_size n) d (aux_list es offs) ds of None \<Rightarrow> None | Some (d', t) \<Rightarrow>
          Some (n\<lparr>nd_data := d', nd_sets := [t, bset_empty, bset_empty], nd_key_count := of_nat (length es),
                  nd_whiteouts := 0\<rparr>))))"

definition whiteout_threshold_fraction :: u32 where
  "whiteout_threshold_fraction = 8"

definition maybe_compact :: "node \<Rightarrow> node option" where
  "maybe_compact n =
     (if 0 < nd_key_count n \<and> nd_key_count n div whiteout_threshold_fraction \<le> nd_whiteouts n
      then node_compact n else Some n)"

section \<open>Insertion\<close>

definition active_inc_set :: "node \<Rightarrow> nat" where
  "active_inc_set n = (if bs_size (nd_sets n ! 2) = 0 \<and> bset_data_bytes (nd_sets n ! 2) = 0 then 1 else 2)"

definition aux_end :: "bset_tree \<Rightarrow> nat" where
  "aux_end t = (if 0 < bs_aux t then bs_aux t + unat (bs_size t) * aux_entry_size else 0)"

definition calc_free_start :: "bset_tree list \<Rightarrow> nat" where
  "calc_free_start ts = (foldr max (map (\<lambda>t. max (bs_end t) (aux_end t)) ts) 0 + 7) div 8 * 8"

text \<open>
  The space check the three writers share: \<open>Some free\<close> with the node to go on with, whose aux array
  is given up when only that makes room; \<open>None\<close> when there is none.
\<close>

definition make_room :: "node \<Rightarrow> nat \<Rightarrow> node \<times> nat option" where
  "make_room n es =
     (let free = calc_free_start (nd_sets n) in
      if free + es \<le> nd_size n then (n, Some free)
      else let t0 = nd_sets n ! 0;
               n1 = (if 0 < bs_aux t0 then n\<lparr>nd_sets := (nd_sets n)[0 := t0\<lparr>bs_aux := 0\<rparr>]\<rparr> else n);
               free1 = (if 0 < bs_aux t0 then calc_free_start (nd_sets n1) else free)
           in (n1, if free1 + es \<le> nd_size n1 then Some free1 else None))"

text \<open>Appending to set \<open>si\<close>, which is moved to \<open>free\<close> while it is empty.\<close>

definition append_to_set ::
  "nat \<Rightarrow> nat \<Rightarrow> (u8 list \<Rightarrow> nat \<Rightarrow> (u8 list \<times> nat) option) \<Rightarrow> node \<Rightarrow> node option" where
  "append_to_set si free wr n =
     (let t = nd_sets n ! si;
          t1 = (if bs_end t = bs_data t then t\<lparr>bs_data := free, bs_end := free\<rparr> else t)
      in map_option (\<lambda>(d, sz). n\<lparr>nd_data := d,
             nd_sets := (nd_sets n)[si := t1\<lparr>bs_end := bs_end t1 + sz, bs_size := bs_size t1 + 1\<rparr>]\<rparr>)
           (wr (nd_data n) (bs_end t1)))"

definition entry_size :: nat where
  "entry_size = (bkey_u64s + 1) * 8"

definition node_insert :: "node \<Rightarrow> btree_key \<Rightarrow> bch_val \<Rightarrow> (bool \<times> node) option" where
  "node_insert n k v =
     (let si = active_inc_set n; (n1, r) = make_room n entry_size in
      case r of
        None \<Rightarrow> Some (False, n1)
      | Some free \<Rightarrow> map_option (\<lambda>n2. (True, n2\<lparr>nd_key_count := nd_key_count n2 + 1\<rparr>))
          (append_to_set si free (\<lambda>d o1. write_entry d o1 k v) n1))"

definition node_insert_entry :: "node \<Rightarrow> btree_entry \<Rightarrow> (bool \<times> node) option" where
  "node_insert_entry n e =
     (let si = active_inc_set n;
          es = (bkey_u64s + div_ceil8 (length (key_value_to_bytes (evalue e)))) * 8;
          (n1, r) = make_room n es in
      case r of
        None \<Rightarrow> Some (False, n1)
      | Some free \<Rightarrow> map_option (\<lambda>n2. (True, n2\<lparr>nd_key_count := nd_key_count n2 + 1\<rparr>))
          (append_to_set si free (\<lambda>d o1. write_entry_bytes d o1 e) n1))"

section \<open>Deletion\<close>

definition at_slot :: "u64 \<Rightarrow> u32 \<Rightarrow> bpos \<Rightarrow> bool" where
  "at_slot va sid p \<longleftrightarrow> offset p = va \<and> snapshot p = sid"

definition has_live_entry :: "node \<Rightarrow> u64 \<Rightarrow> u32 \<Rightarrow> bool option" where
  "has_live_entry n va sid =
     map_option (case_sum id id)
       (scan_all (nd_data n) (\<lambda>cur found.
          case packed_at (nd_data n) cur of None \<Rightarrow> None | Some k \<Rightarrow>
          (case bkey_unpack bkey_format_current k of None \<Rightarrow> None | Some (p, ty, pa, v) \<Rightarrow>
           (if at_slot va sid p
            then (case key_type_from_u8 ty of
                    None \<Rightarrow> None
                  | Some Normal \<Rightarrow> Some (Inl True)
                  | Some Deleted \<Rightarrow> Some (Inr False)
                  | Some Whiteout \<Rightarrow> Some (Inl found))
            else Some (Inl found)))) (nd_sets n) False)"

definition mark_entry_deleted_inplace :: "node \<Rightarrow> u64 \<Rightarrow> u32 \<Rightarrow> (bool \<times> node) option" where
  "mark_entry_deleted_inplace n va sid =
     map_option (case_sum (\<lambda>u. (False, n)) (\<lambda>d. (True, n\<lparr>nd_data := d\<rparr>)))
       (scan_all (nd_data n) (\<lambda>cur (u :: unit).
          case packed_at (nd_data n) cur of None \<Rightarrow> None | Some k \<Rightarrow>
          (case bkey_unpack bkey_format_current k of None \<Rightarrow> None | Some (p, ty, pa, v) \<Rightarrow>
           (if at_slot va sid p
            then map_option (\<lambda>kt. Inr (if kt = Normal then (nd_data n)[cur + 2 := key_type_u8 Deleted] else nd_data n))
                   (key_type_from_u8 ty)
            else Some (Inl u)))) (nd_sets n) ())"

definition delete_key :: "node \<Rightarrow> btree_key \<Rightarrow> (bool \<times> node) option" where
  "delete_key n target =
     (let va = vaddr target; sid = snapshot_id target in
      case has_live_entry n va sid of
        None \<Rightarrow> None
      | Some False \<Rightarrow> Some (False, n)
      | Some True \<Rightarrow>
          (let si = active_inc_set n; (n1, r) = make_room n entry_size in
           case r of
             None \<Rightarrow>
               (case mark_entry_deleted_inplace n1 va sid of
                  None \<Rightarrow> None
                | Some (False, n2) \<Rightarrow> Some (False, n2)
                | Some (True, n2) \<Rightarrow>
                    map_option (Pair True) (maybe_compact (n2\<lparr>nd_whiteouts := nd_whiteouts n2 + 1\<rparr>)))
           | Some free \<Rightarrow>
               (case append_to_set si free
                       (\<lambda>d o1. write_entry d o1 (btree_key_new va sid Deleted) \<lparr>paddr = 0, ver = 0\<rparr>) n1 of
                  None \<Rightarrow> None
                | Some n2 \<Rightarrow> map_option (Pair True) (maybe_compact (n2\<lparr>nd_whiteouts := nd_whiteouts n2 + 1\<rparr>)))))"

end
