(* ===== verification/NodeOps.thy ===== *)
theory NodeOps
  imports Node
begin

text \<open>
  Lookup in a node, splitting, absorption and the iterator over the sets of a node
  (\<open>btree/node.rs\<close>), as definitions on the node of \<open>Node\<close>.
\<close>

section \<open>Indexed access\<close>

fun skip_entries :: "u8 list \<Rightarrow> nat \<Rightarrow> nat \<Rightarrow> nat option" where
  "skip_entries data cur 0 = Some cur"
| "skip_entries data cur (Suc k) =
     (case read_entry_u64s data cur of None \<Rightarrow> None | Some u \<Rightarrow> skip_entries data (cur + u * 8) k)"

text \<open>Where the \<open>idx\<close>-th entry of a set is (from 1): through the aux array, or by walking.\<close>

definition entry_offset :: "u8 list \<Rightarrow> bset_tree \<Rightarrow> nat \<Rightarrow> nat option" where
  "entry_offset data t idx =
     (if idx = 0 then None
      else if 0 < bs_aux t then
        (let a = bs_aux t + (idx - 1) * aux_entry_size + 21 in
         if a + 4 \<le> length data then Some (unat (le_word (take 4 (drop a data)) :: u32)) else None)
      else skip_entries data (bs_data t) (idx - 1))"

definition read_entry :: "u8 list \<Rightarrow> bset_tree \<Rightarrow> nat \<Rightarrow> (btree_key \<times> bch_val) option" where
  "read_entry data t idx = Option.bind (entry_offset data t idx) (read_packed_entry data)"

definition read_entry_raw :: "u8 \<Rightarrow> u8 list \<Rightarrow> bset_tree \<Rightarrow> nat \<Rightarrow> btree_entry option" where
  "read_entry_raw lvl data t idx = Option.bind (entry_offset data t idx) (read_packed_entry_raw lvl data)"

definition read_aux_key :: "u8 list \<Rightarrow> bset_tree \<Rightarrow> nat \<Rightarrow> btree_key option" where
  "read_aux_key data t idx = map_option fst (read_aux data (bs_aux t + (idx - 1) * aux_entry_size))"

section \<open>Lookup\<close>

text \<open>
  The walk down the Eytzinger array: \<open>Some (Some r)\<close> is a hit, \<open>Some None\<close> a miss. Its index starts
  at 1.
\<close>

function eytz_walk :: "u8 list \<Rightarrow> nat \<Rightarrow> nat \<Rightarrow> btree_key \<Rightarrow> nat \<Rightarrow> (btree_key \<times> bch_val) option option" where
  "eytz_walk data base n target i =
     (if n < i then Some None
      else if i = 0 then None
      else case read_aux data (base + (i - 1) * aux_entry_size) of None \<Rightarrow> None | Some (k, o1) \<Rightarrow>
        (case btree_key_cmp target k of
           Equal \<Rightarrow> (case read_packed_entry data (unat o1) of None \<Rightarrow> None
                     | Some (k', v) \<Rightarrow> Some (if bk_type k' \<noteq> Deleted then Some (k', v) else None))
         | Less \<Rightarrow> eytz_walk data base n target (i * 2)
         | Greater \<Rightarrow> eytz_walk data base n target (i * 2 + 1)))"
  by pat_completeness auto
termination by (relation "measure (\<lambda>(data, base, n, target, i). n + 1 - i)") auto

declare eytz_walk.simps [simp del]

text \<open>The binary search on the sorted aux array, with the code's signed bounds.\<close>

function aux_search :: "u8 list \<Rightarrow> bset_tree \<Rightarrow> btree_key \<Rightarrow> int \<Rightarrow> int \<Rightarrow> (btree_key \<times> bch_val) option option" where
  "aux_search data t target lo hi =
     (if hi < lo then Some None
      else let mid = (lo + hi) div 2 in
        case read_aux_key data t (nat mid) of None \<Rightarrow> None | Some k \<Rightarrow>
        (case btree_key_cmp target k of
           Equal \<Rightarrow> (case read_entry data t (nat mid) of None \<Rightarrow> None
                     | Some (k', v) \<Rightarrow> Some (if bk_type k' \<noteq> Deleted then Some (k', v) else None))
         | Less \<Rightarrow> aux_search data t target lo (mid - 1)
         | Greater \<Rightarrow> aux_search data t target (mid + 1) hi))"
  by pat_completeness auto
termination by (relation "measure (\<lambda>(data, t, target, lo, hi). nat (hi + 1 - lo))") (auto simp: Let_def)

declare aux_search.simps [simp del]

text \<open>The linear scan decodes a match from its type byte and its first eight value bytes.\<close>

definition linear_step :: "u8 list \<Rightarrow> btree_key \<Rightarrow> nat \<Rightarrow> unit \<Rightarrow> (unit + (btree_key \<times> bch_val)) option" where
  "linear_step data target cur u =
     (case compare_packed_entry data cur target of None \<Rightarrow> None | Some c \<Rightarrow>
      (if c = Equal \<and> data ! (cur + 2) \<noteq> key_type_u8 Deleted
       then (if cur + 32 \<le> length data
             then (case key_type_from_u8 (data ! (cur + 2)) of None \<Rightarrow> None | Some kt \<Rightarrow>
               (case bch_val_of_bytes (drop (cur + 24) data) of (pa, v) \<Rightarrow>
                 map_option (\<lambda>bv. Inr (btree_key_from_bpos (target_bpos target) kt, bv)) (bch_val_new pa v)))
             else None)
       else Some (Inl u)))"

definition search_set :: "u8 list \<Rightarrow> bool \<Rightarrow> bset_tree \<Rightarrow> btree_key \<Rightarrow> (btree_key \<times> bch_val) option option" where
  "search_set data is_first t target =
     (if bs_size t = 0 then Some None
      else if is_first \<and> 0 < bs_aux t then
        (let n = unat (bs_size t);
             hit = (if 0 < bs_extra t then eytz_walk data (unat (bs_extra t)) n target 1 else Some None)
         in case hit of
              None \<Rightarrow> None
            | Some (Some r) \<Rightarrow> Some (Some r)
            | Some None \<Rightarrow> aux_search data t target 1 (int n))
      else map_option (case_sum (\<lambda>u. None) Some)
             (scan_set data (linear_step data target) (bs_data t) (bs_end t) ()))"

fun search_sets :: "u8 list \<Rightarrow> bool \<Rightarrow> bset_tree list \<Rightarrow> btree_key \<Rightarrow> (btree_key \<times> bch_val) option option" where
  "search_sets data is_first [] target = Some None"
| "search_sets data is_first (t # ts) target =
     (case search_set data is_first t target of
        Some None \<Rightarrow> search_sets data False ts target
      | r \<Rightarrow> r)"

definition node_search :: "node \<Rightarrow> btree_key \<Rightarrow> (btree_key \<times> bch_val) option option" where
  "node_search n target = search_sets (nd_data n) True (nd_sets n) target"

section \<open>Thresholds\<close>

definition btree_max_u64s :: "nat \<Rightarrow> nat" where
  "btree_max_u64s nsize = nsize div 8"

definition should_split :: "nat \<Rightarrow> nat \<Rightarrow> bool" where
  "should_split live nsize \<longleftrightarrow> btree_max_u64s nsize * 3 div 4 < live"

definition should_merge :: "nat \<Rightarrow> nat \<Rightarrow> bool" where
  "should_merge live nsize \<longleftrightarrow> live < btree_max_u64s nsize * 1 div 3"

definition merge_fits_high_mark :: "nat \<Rightarrow> nat \<Rightarrow> bool" where
  "merge_fits_high_mark live nsize \<longleftrightarrow> live \<le> btree_max_u64s nsize * 3 div 5"

definition balance_target_u64s :: "nat \<Rightarrow> nat" where
  "balance_target_u64s tot = tot * 3 div 5"

section \<open>Splitting\<close>

definition split_entry_bytes :: "btree_entry \<Rightarrow> nat" where
  "split_entry_bytes e = (bkey_u64s + div_ceil8 (length (key_value_to_bytes (evalue e)))) * 8"

definition predict_split_bias :: "btree_entry list \<Rightarrow> nat \<Rightarrow> nat \<times> nat" where
  "predict_split_bias es i =
     (sum_list (map split_entry_bytes (take i es)) + i * aux_entry_size,
      sum_list (map split_entry_bytes (drop i es)) + (length es - i) * aux_entry_size)"

definition entry_eff_u64s :: "btree_entry \<Rightarrow> nat" where
  "entry_eff_u64s e = bkey_u64s + div_ceil8 (length (key_value_to_bytes (evalue e))) + div_ceil8 aux_entry_size"

definition shard_factor :: u64 where
  "shard_factor = 1024"

definition find_shard_split :: "btree_entry list \<Rightarrow> nat option" where
  "find_shard_split es =
     (let n = length es in
      if n < 3 then None
      else find (\<lambda>i. offset (pos (es ! (i - 1))) div shard_factor < offset (pos (es ! i)) div shard_factor \<and>
                     n div 5 < i \<and> i < n * 4 div 5) [1..<n])"

text \<open>The accumulation loop: the first index past 0 at which the sum before it reaches the target.\<close>

definition accumulate_split :: "nat list \<Rightarrow> nat \<Rightarrow> nat option" where
  "accumulate_split us target = find (\<lambda>i. target \<le> sum_list (take i us) \<and> 0 < i) [0..<length us]"

definition clamp :: "nat \<Rightarrow> nat \<Rightarrow> nat \<Rightarrow> nat" where
  "clamp x lo hi = (if x < lo then lo else if hi < x then hi else x)"

definition find_balanced_split :: "btree_entry list \<Rightarrow> nat \<Rightarrow> (nat \<times> btree_key) option" where
  "find_balanced_split es nsize =
     (let n = length es in
      if n < 2 then None
      else let us = map entry_eff_u64s es;
               m0 = (case accumulate_split us (balance_target_u64s (sum_list us)) of None \<Rightarrow> n div 2 | Some i \<Rightarrow> i);
               m1 = (case find_shard_split es of None \<Rightarrow> m0 | Some i \<Rightarrow> i);
               hi = n - n div 5;
               m2 = clamp m1 (n div 5) hi;
               max_side = nsize * 3 div 4;
               m3 = (if 0 < nsize \<and> max_side < fst (predict_split_bias es m2) \<and> m2 < hi
                     then (case find (\<lambda>i. fst (predict_split_bias es i) \<le> max_side) [m2 + 1..<hi + 1] of
                             None \<Rightarrow> m2 | Some i \<Rightarrow> i)
                     else m2)
           in if m3 < n then Some (m3, entry_key (es ! m3)) else None)"

text \<open>One half of \<open>pack_entries_into\<close>. An empty half keeps its key range.\<close>

definition pack_half :: "node \<Rightarrow> btree_entry list \<Rightarrow> node option" where
  "pack_half n es =
     (case write_entries (nd_data n) 0 es of None \<Rightarrow> None | Some (d, offs, c) \<Rightarrow>
        let n1 = n\<lparr>nd_data := d,
                   nd_sets := [\<lparr>bs_data = 0, bs_end = c, bs_aux = 0, bs_size = of_nat (length es), bs_extra = 0\<rparr>,
                               bset_empty, bset_empty],
                   nd_key_count := of_nat (length es)\<rparr>
        in Some (if es = [] then n1 else n1\<lparr>nd_min := pos (hd es), nd_max := pos (last es)\<rparr>))"

definition pack_entries_into :: "node \<Rightarrow> btree_entry list \<Rightarrow> nat \<Rightarrow> node \<Rightarrow> (node \<times> node) option" where
  "pack_entries_into l es mid r =
     (case pack_half l (take mid es) of None \<Rightarrow> None | Some l' \<Rightarrow>
        map_option (Pair l') (pack_half r (drop mid es)))"

text \<open>\<open>split\<close>: \<open>Some None\<close> is the code's \<open>None\<close>; otherwise the median key and both nodes.\<close>

definition node_split :: "node \<Rightarrow> (btree_key \<times> node \<times> node) option option" where
  "node_split n =
     (case collect_all_entries n of None \<Rightarrow> None | Some es \<Rightarrow>
        if length es < 2 then Some None
        else case find_balanced_split es (nd_size n) of None \<Rightarrow> Some None | Some (mid, median) \<Rightarrow>
          map_option (\<lambda>(l, r). Some (median, l, r)) (pack_entries_into n es mid (node_new (nd_level n))))"

section \<open>Absorption\<close>

definition can_absorb :: "node \<Rightarrow> node \<Rightarrow> bool option" where
  "can_absorb n m =
     (case total_data_bytes n of None \<Rightarrow> None | Some a \<Rightarrow>
      (case total_data_bytes m of None \<Rightarrow> None | Some b \<Rightarrow> Some (a + b + entry_size + 64 \<le> nd_size n)))"

fun read_entries :: "u8 list \<Rightarrow> bset_tree \<Rightarrow> nat list \<Rightarrow> (btree_key \<times> bch_val) list option" where
  "read_entries data t [] = Some []"
| "read_entries data t (i # is) =
     (case read_entry data t i of None \<Rightarrow> None | Some x \<Rightarrow> map_option ((#) x) (read_entries data t is))"

fun write_legacy :: "u8 list \<Rightarrow> nat \<Rightarrow> (btree_key \<times> bch_val) list \<Rightarrow> (u8 list \<times> nat) option" where
  "write_legacy data cur [] = Some (data, cur)"
| "write_legacy data cur ((k, v) # xs) =
     (case write_entry data cur k v of None \<Rightarrow> None | Some (d, sz) \<Rightarrow> write_legacy d (cur + sz) xs)"

definition update_range :: "node \<Rightarrow> node option" where
  "update_range n =
     (if 0 < nd_key_count n then
        (case read_entry (nd_data n) (nd_sets n ! 0) 1 of None \<Rightarrow> None | Some (f, fv) \<Rightarrow>
         (case read_entry (nd_data n) (nd_sets n ! 0) (unat (nd_key_count n)) of None \<Rightarrow> None | Some (l, lv) \<Rightarrow>
           Some (n\<lparr>nd_min := btree_key_to_bpos f, nd_max := btree_key_to_bpos l\<rparr>)))
      else Some n)"

definition node_absorb :: "node \<Rightarrow> node \<Rightarrow> (node \<times> node) option" where
  "node_absorb n m =
     (case node_compact n of None \<Rightarrow> None | Some n1 \<Rightarrow>
      (case node_compact m of None \<Rightarrow> None | Some m1 \<Rightarrow>
       let a = unat (bs_size (nd_sets n1 ! 0)); b = unat (bs_size (nd_sets m1 ! 0)) in
       case read_entries (nd_data n1) (nd_sets n1 ! 0) [1..<a + 1] of None \<Rightarrow> None | Some xs \<Rightarrow>
       (case read_entries (nd_data m1) (nd_sets m1 ! 0) [1..<b + 1] of None \<Rightarrow> None | Some ys \<Rightarrow>
        (case write_legacy (nd_data n1) 0 (xs @ ys) of None \<Rightarrow> None | Some (d, c) \<Rightarrow>
         (let n2 = n1\<lparr>nd_data := d,
            nd_sets := (nd_sets n1)[0 := \<lparr>bs_data = 0, bs_end = c, bs_aux = 0, bs_size = of_nat (a + b), bs_extra = 0\<rparr>],
            nd_key_count := of_nat (a + b)\<rparr>
          in case node_compact n2 of None \<Rightarrow> None | Some n3 \<Rightarrow>
             map_option (\<lambda>n4. (n4, m1\<lparr>nd_sets := (nd_sets m1)[0 := bset_empty], nd_key_count := 0\<rparr>))
               (update_range n3))))))"

definition compact_fits :: "node \<Rightarrow> nat \<Rightarrow> bool" where
  "compact_fits n u64s \<longleftrightarrow> calc_free_start (nd_sets n) + (bkey_u64s + u64s) * 8 \<le> nd_size n"

section \<open>The iterator over the sets of a node\<close>

record iter_set =
  is_k :: nat
  is_end :: nat

type_synonym node_iter = "iter_set list"

definition iter_default :: node_iter where
  "iter_default = replicate 3 \<lparr>is_k = 0, is_end = 0\<rparr>"

definition iter_set_end :: "node_iter \<Rightarrow> nat \<Rightarrow> bool" where
  "iter_set_end it i \<longleftrightarrow> is_k (it ! i) = is_end (it ! i)"

definition iter_is_end :: "node_iter \<Rightarrow> bool" where
  "iter_is_end it \<longleftrightarrow> iter_set_end it 0"

definition iter_cmp :: "u8 list \<Rightarrow> iter_set \<Rightarrow> iter_set \<Rightarrow> ordering option" where
  "iter_cmp data l r =
     (if is_end l \<le> is_k l \<and> is_end r \<le> is_k r then Some Equal
      else if is_end l \<le> is_k l then Some Greater
      else if is_end r \<le> is_k r then Some Less
      else case read_packed_entry data (is_k l) of None \<Rightarrow> None | Some (a, av) \<Rightarrow>
        (case read_packed_entry data (is_k r) of None \<Rightarrow> None | Some (b, bv) \<Rightarrow> Some (btree_key_cmp a b)))"

text \<open>One comparison of the exchange sort, and the sort: all pairs \<open>i < j\<close> in the code's order.\<close>

definition iter_exchange :: "u8 list \<Rightarrow> nat \<times> nat \<Rightarrow> node_iter \<Rightarrow> node_iter option" where
  "iter_exchange data ij it =
     (case ij of (i, j) \<Rightarrow> let a = it ! i; b = it ! j in
      if is_end b \<le> is_k b then Some it
      else if is_end a \<le> is_k a then Some (it[i := b, j := a])
      else map_option (\<lambda>c. if c = Less then it[i := b, j := a] else it) (iter_cmp data b a))"

definition iter_sort :: "u8 list \<Rightarrow> node_iter \<Rightarrow> node_iter option" where
  "iter_sort data it = fold_opt (iter_exchange data) [(i, j). i \<leftarrow> [0..<length it], j \<leftarrow> [i + 1..<length it]] it"

definition iter_init_from_start :: "node \<Rightarrow> node_iter option" where
  "iter_init_from_start n = iter_sort (nd_data n)
     (map (\<lambda>t. if 0 < bs_size t then \<lparr>is_k = bs_data t, is_end = bs_end t\<rparr> else \<lparr>is_k = 0, is_end = 0\<rparr>) (nd_sets n))"

text \<open>Positioning one set: the first offset whose key is not below the target, or where the set was left.\<close>

function seek_set :: "u8 list \<Rightarrow> btree_key \<Rightarrow> nat \<Rightarrow> nat \<Rightarrow> nat option" where
  "seek_set data target cur e =
     (if e \<le> cur then Some cur
      else case read_packed_entry data cur of None \<Rightarrow> None | Some (k, v) \<Rightarrow>
        (if btree_key_cmp k target \<noteq> Less then Some cur
         else case read_entry_u64s data cur of None \<Rightarrow> None | Some u \<Rightarrow>
           if u = 0 then None else seek_set data target (cur + u * 8) e))"
  by pat_completeness auto
termination by (relation "measure (\<lambda>(data, target, cur, e). e - cur)") auto

declare seek_set.simps [simp del]

fun seek_sets :: "u8 list \<Rightarrow> btree_key \<Rightarrow> bset_tree list \<Rightarrow> node_iter option" where
  "seek_sets data target [] = Some []"
| "seek_sets data target (t # ts) =
     (case (if 0 < bs_size t then map_option (\<lambda>c. \<lparr>is_k = c, is_end = bs_end t\<rparr>) (seek_set data target (bs_data t) (bs_end t))
            else Some \<lparr>is_k = 0, is_end = 0\<rparr>) of
        None \<Rightarrow> None
      | Some s \<Rightarrow> map_option ((#) s) (seek_sets data target ts))"

definition iter_init :: "node \<Rightarrow> btree_key \<Rightarrow> node_iter option" where
  "iter_init n target = Option.bind (seek_sets (nd_data n) target (nd_sets n)) (iter_sort (nd_data n))"

text \<open>The entry under the iterator, as its offset and its length byte (the code returns the slice).\<close>

definition entry_slice :: "u8 list \<Rightarrow> nat \<Rightarrow> u8 list option" where
  "entry_slice data cur =
     (case read_entry_u64s data cur of None \<Rightarrow> None | Some u \<Rightarrow>
        if cur + u * 8 \<le> length data then Some (take (u * 8) (drop cur data)) else None)"

definition iter_peek_all :: "u8 list \<Rightarrow> node_iter \<Rightarrow> u8 list option option" where
  "iter_peek_all data it =
     (let s = it ! 0 in if is_k s < is_end s then map_option Some (entry_slice data (is_k s)) else Some None)"

definition iter_advance :: "u8 list \<Rightarrow> node_iter \<Rightarrow> node_iter option" where
  "iter_advance data it =
     (let s = it ! 0 in
      case (if is_k s < is_end s
            then map_option (\<lambda>u. it[0 := s\<lparr>is_k := is_k s + u * 8\<rparr>]) (read_entry_u64s data (is_k s)) else Some it) of
        None \<Rightarrow> None
      | Some it' \<Rightarrow> iter_sort data it')"

definition iter_next_all :: "u8 list \<Rightarrow> node_iter \<Rightarrow> (u8 list option \<times> node_iter) option" where
  "iter_next_all data it =
     (case iter_peek_all data it of
        None \<Rightarrow> None
      | Some None \<Rightarrow> Some (None, it)
      | Some (Some bs) \<Rightarrow> map_option (Pair (Some bs)) (iter_advance data it))"

text \<open>Skipping deleted entries; \<open>fuel\<close> bounds the entries left, running out of it is \<open>None\<close>.\<close>

fun iter_peek :: "nat \<Rightarrow> u8 list \<Rightarrow> node_iter \<Rightarrow> (u8 list option \<times> node_iter) option" where
  "iter_peek 0 data it = None"
| "iter_peek (Suc fuel) data it =
     (let s = it ! 0 in
      if is_k s < is_end s then
        (if is_k s + 2 < length data then
           (if data ! (is_k s + 2) \<noteq> key_type_u8 Deleted
            then map_option (\<lambda>bs. (Some bs, it)) (entry_slice data (is_k s))
            else case iter_advance data it of None \<Rightarrow> None | Some it' \<Rightarrow> iter_peek fuel data it')
         else None)
      else Some (None, it))"

definition iter_set_drop :: "u8 list \<Rightarrow> nat \<Rightarrow> node_iter \<Rightarrow> node_iter option" where
  "iter_set_drop data i it =
     iter_sort data (if i < length it then it[i := \<lparr>is_k = 0, is_end = 0\<rparr>] else it)"

section \<open>Helpers on sets\<close>

definition bset_next_set :: "bset_tree \<Rightarrow> nat" where
  "bset_next_set t = (bs_end t + 4096 - 1) div 4096 * 4096"

text \<open>A shift by 32 or more panics.\<close>

definition btree_keys_cachelines :: "nat \<Rightarrow> nat option" where
  "btree_keys_cachelines order = (if order < 32 then Some (2 ^ order div 256) else None)"

definition btree_aux_data_bytes :: "nat \<Rightarrow> nat option" where
  "btree_aux_data_bytes order = map_option (\<lambda>c. c * 8) (btree_keys_cachelines order)"

definition bset_slice :: "node \<Rightarrow> bset_tree \<Rightarrow> u8 list option" where
  "bset_slice n t =
     (if bs_data t \<le> bs_end t \<and> bs_end t \<le> length (nd_data n)
      then Some (take (bs_end t - bs_data t) (drop (bs_data t) (nd_data n))) else None)"

definition bset_u64s :: "bset_tree \<Rightarrow> nat option" where
  "bset_u64s t = (if bs_data t \<le> bs_end t then Some (bs_end t - bs_data t) else None)"

definition btree_bset_first :: "node \<Rightarrow> u8 list option" where
  "btree_bset_first n = bset_slice n (nd_sets n ! 0)"

definition btree_bset_last :: "node \<Rightarrow> u8 list option" where
  "btree_bset_last n = bset_slice n (nd_sets n ! (nsets n - 1))"

end
