(* ===== verification/NodeLive.thy ===== *)
theory NodeLive
  imports NodeOps "HOL-Library.Multiset"
begin

text \<open>
  What a node holds: sorting with the last write winning (\<open>live_entries\<close>) against lookup in the
  entries as written, the well-formedness of a node over the entries of its two used sets, and the
  scans on such a node.
\<close>

section \<open>The last write wins\<close>

lemma bpos_key_le: "2 ^ 32 - 1 - unat (s :: u32) < 2 ^ 32"
  by simp

lemma bpos_key_less_iff:
  "bpos_key p < bpos_key q \<longleftrightarrow> offset p < offset q \<or> (offset p = offset q \<and> snapshot q < snapshot p)"
proof -
  let ?a = "unat (offset p)" and ?b = "unat (offset q)" and ?s = "2 ^ 32 - 1 - unat (snapshot p)"
    and ?t = "2 ^ 32 - 1 - unat (snapshot q)" and ?m = "2 ^ 32 :: nat"
  have s: "?s < ?m" "?t < ?m" "unat (snapshot p) < ?m" "unat (snapshot q) < ?m"
    using unat32_less[of "snapshot p"] unat32_less[of "snapshot q"] by simp_all
  have lt: "a * ?m + c < b * ?m + d" if "a < b" "c < ?m" for a b c d :: nat
  proof -
    from that(1) obtain k where "b = a + Suc k" by (auto simp: less_iff_Suc_add)
    then have "b * ?m = a * ?m + k * ?m + ?m" by (simp add: algebra_simps)
    then show ?thesis using that(2) by linarith
  qed
  consider "?a < ?b" | "?a = ?b" | "?b < ?a" by linarith
  then show ?thesis
  proof cases
    case 1
    then show ?thesis using lt[OF 1 s(1), of ?t] by (simp add: bpos_key_def word_less_nat_alt)
  next
    case 2
    then have "offset p = offset q" by (simp add: word_unat_eq_iff)
    moreover have "?s < ?t \<longleftrightarrow> unat (snapshot q) < unat (snapshot p)" using s(3,4) by linarith
    ultimately show ?thesis by (simp add: bpos_key_def word_less_nat_alt)
  next
    case 3
    then show ?thesis using lt[OF 3 s(2), of ?s] by (auto simp: bpos_key_def word_less_nat_alt)
  qed
qed

lemma bpos_key_eq_iff: "bpos_key p = bpos_key q \<longleftrightarrow> offset p = offset q \<and> snapshot p = snapshot q"
proof
  assume "bpos_key p = bpos_key q"
  then have "\<not> (offset p < offset q \<or> (offset p = offset q \<and> snapshot q < snapshot p))"
    "\<not> (offset q < offset p \<or> (offset q = offset p \<and> snapshot p < snapshot q))"
    using bpos_key_less_iff[of p q] bpos_key_less_iff[of q p] by simp_all
  then show "offset p = offset q \<and> snapshot p = snapshot q" by (metis not_less_iff_gr_or_eq)
qed (simp add: bpos_key_def)

lemma node_cmp_key: "node_cmp a b = ord_cmp (node_key a) (node_key b)"
  using bpos_key_less_iff[of "pos a" "pos b"] bpos_key_eq_iff[of "pos a" "pos b"]
  by (auto simp: node_cmp_def ord_cmp_def)

lemma same_slot_key: "same_slot a b \<longleftrightarrow> node_key a = node_key b"
  by (simp add: same_slot_def bpos_key_eq_iff)

text \<open>The last entry written for a slot.\<close>

definition last_written :: "btree_entry list \<Rightarrow> nat \<Rightarrow> btree_entry option" where
  "last_written es k = find (\<lambda>e. node_key e = k) (rev es)"

definition live_at :: "btree_entry list \<Rightarrow> nat \<Rightarrow> btree_entry option" where
  "live_at es k = (case last_written es k of None \<Rightarrow> None | Some e \<Rightarrow> if ekey_type e = Deleted then None else Some e)"

lemma find_dedup: "find (\<lambda>e. node_key e = k) (dedup_by same_slot es) = find (\<lambda>e. node_key e = k) es"
  by (induction "same_slot :: btree_entry \<Rightarrow> _" es rule: dedup_by.induct) (auto simp: same_slot_key)

lemma set_dedup: "set (dedup_by eq es) \<subseteq> set es"
  by (induction eq es rule: dedup_by.induct) auto

lemma dedup_strict:
  "sorted_wrt (\<lambda>a b. node_key b \<le> node_key a) es \<Longrightarrow> sorted_wrt (\<lambda>a b. node_key b < node_key a) (dedup_by same_slot es)"
proof (induction "same_slot :: btree_entry \<Rightarrow> _" es rule: dedup_by.induct)
  case (1 x y ys)
  show ?case
  proof (cases "same_slot y x")
    case True
    then show ?thesis using 1 by simp
  next
    case False
    then have lt: "node_key y < node_key x" using 1(3) by (auto simp: same_slot_key)
    have "node_key z < node_key x" if "z \<in> set (dedup_by same_slot (y # ys))" for z
      using that set_dedup[of same_slot "y # ys"] 1(3) lt by fastforce
    then show ?thesis using 1 False by auto
  qed
qed auto

lemma find_filter_hd: "find P xs = (case filter P xs of [] \<Rightarrow> None | x # _ \<Rightarrow> Some x)"
  by (induction xs) auto

lemma last_written_sort: "last_written (sort_key node_key es) k = last_written es k"
  by (simp add: last_written_def find_filter_hd rev_filter[symmetric] sort_key_stable)

lemma find_rev_unique:
  "sorted_wrt (\<lambda>a b. node_key a < node_key b) es \<Longrightarrow> find (\<lambda>e. node_key e = k) (rev es) = find (\<lambda>e. node_key e = k) es"
proof (induction es)
  case (Cons x es)
  have "find P (xs @ ys) = (case find P xs of None \<Rightarrow> find P ys | r \<Rightarrow> r)" for P :: "btree_entry \<Rightarrow> bool" and xs ys
    by (induction xs) auto
  moreover have "find (\<lambda>e. node_key e = k) es = None" if "node_key x = k"
    using Cons.prems that by (auto simp: find_None_iff)
  ultimately show ?case using Cons by (auto split: option.split)
qed simp

lemma find_filter_unique:
  "sorted_wrt (\<lambda>a b. node_key a < node_key b) es \<Longrightarrow>
   find (\<lambda>e. node_key e = k) (filter Q es) =
     (case find (\<lambda>e. node_key e = k) es of None \<Rightarrow> None | Some e \<Rightarrow> if Q e then Some e else None)"
proof (induction es)
  case (Cons x es)
  then show ?case by (auto split: option.splits simp: find_None_iff find_Some_iff)
qed simp

lemma live_entries_sorted: "sorted_wrt (\<lambda>a b. node_key a < node_key b) (live_entries es)"
proof -
  have "sorted_wrt (\<lambda>a b. node_key b \<le> node_key a) (rev (sort_key node_key es))"
    using sorted_sort_key[of node_key es] by (simp add: sorted_wrt_rev sorted_map)
  from dedup_strict[OF this] show ?thesis by (simp add: live_entries_def sorted_wrt_filter sorted_wrt_rev)
qed

text \<open>
  What collection keeps of a slot: the last entry written there, unless it is a deletion.
\<close>

lemma find_live_entries: "find (\<lambda>e. node_key e = k) (live_entries es) = live_at es k"
proof -
  let ?d = "dedup_by same_slot (rev (sort_key node_key es))"
  have "sorted_wrt (\<lambda>a b. node_key b \<le> node_key a) (rev (sort_key node_key es))"
    using sorted_sort_key[of node_key es] by (simp add: sorted_wrt_rev sorted_map)
  from dedup_strict[OF this] have s: "sorted_wrt (\<lambda>a b. node_key a < node_key b) (rev ?d)" by (simp add: sorted_wrt_rev)
  have "find (\<lambda>e. node_key e = k) (rev ?d) = last_written es k"
    using find_rev_unique[OF s, of k] last_written_sort[of es k] by (simp add: find_dedup last_written_def)
  then show ?thesis using find_filter_unique[OF s, of k] by (simp add: live_entries_def live_at_def split: option.split)
qed

lemma mset_dedup: "mset (dedup_by eq es) \<subseteq># mset es"
proof (induction eq es rule: dedup_by.induct)
  case (1 eq x y ys)
  show ?case
  proof (cases "eq y x")
    case True
    then have "mset (dedup_by eq (x # y # ys)) \<subseteq># mset (x # ys)" using 1(1) by simp
    also have "\<dots> \<subseteq># mset (x # y # ys)" by simp
    finally show ?thesis .
  qed (use 1(2) in simp)
qed auto

lemma mset_live_entries: "mset (live_entries es) \<subseteq># mset es"
proof -
  have "mset (live_entries es) \<subseteq># mset (dedup_by same_slot (rev (sort_key node_key es)))"
    by (simp add: live_entries_def)
  also have "\<dots> \<subseteq># mset es" using mset_dedup[of same_slot "rev (sort_key node_key es)"] by simp
  finally show ?thesis .
qed

lemma set_live_entries: "set (live_entries es) \<subseteq> set es"
  using set_mset_mono[OF mset_live_entries[of es]] by simp

lemma live_entries_not_deleted: "e \<in> set (live_entries es) \<Longrightarrow> ekey_type e \<noteq> Deleted"
  by (simp add: live_entries_def)

text \<open>Collecting what is already collected changes nothing.\<close>

lemma dedup_id: "sorted_wrt (\<lambda>a b. node_key b < node_key a) es \<Longrightarrow> dedup_by same_slot es = es"
  by (induction "same_slot :: btree_entry \<Rightarrow> _" es rule: dedup_by.induct) (auto simp: same_slot_key)

lemma live_entries_id:
  assumes "sorted_wrt (\<lambda>a b. node_key a < node_key b) es" "\<And>e. e \<in> set es \<Longrightarrow> ekey_type e \<noteq> Deleted"
  shows "live_entries es = es"
proof -
  have "sorted (map node_key es)" using assms(1) by (auto simp: sorted_map intro: sorted_wrt_mono_rel[rotated])
  then have "sort_key node_key es = es" by (simp add: sort_key_id_if_sorted)
  moreover have "dedup_by same_slot (rev es) = rev es" using assms(1) by (intro dedup_id) (simp add: sorted_wrt_rev)
  ultimately show ?thesis using assms(2) by (simp add: live_entries_def)
qed

section \<open>Scans as folds over the entries\<close>

fun run_entries :: "(pent \<Rightarrow> 's \<Rightarrow> ('s + 'r) option) \<Rightarrow> pent list \<Rightarrow> 's \<Rightarrow> ('s + 'r) option" where
  "run_entries g [] s = Some (Inl s)"
| "run_entries g (x # xs) s =
     (case g x s of None \<Rightarrow> None | Some (Inr r) \<Rightarrow> Some (Inr r) | Some (Inl s') \<Rightarrow> run_entries g xs s')"

lemma run_entries_append: "run_entries g (xs @ ys) s =
    (case run_entries g xs s of Some (Inl s') \<Rightarrow> run_entries g ys s' | r \<Rightarrow> r)"
  by (induction xs arbitrary: s) (auto split: option.split sum.split)

text \<open>The body \<open>f\<close> does on the bytes what \<open>g\<close> does on the entry there.\<close>

definition scans :: "u8 list \<Rightarrow> (nat \<Rightarrow> 's \<Rightarrow> ('s + 'r) option) \<Rightarrow> (pent \<Rightarrow> 's \<Rightarrow> ('s + 'r) option) \<Rightarrow> pent set \<Rightarrow> bool" where
  "scans data f g X \<longleftrightarrow>
     (\<forall>x \<in> X. \<forall>off rest s. drop off data = pent_bytes x @ rest \<longrightarrow> pent_ok x \<longrightarrow> f off s = g x s)"

lemma scan_set_run:
  assumes "laid data off xs" "list_all pent_ok xs" "scans data f g (set xs)"
  shows "scan_set data f off (off + pents_size xs) s = run_entries g xs s"
  using assms
proof (induction xs arbitrary: off s)
  case (Cons x xs)
  then have ok: "pent_ok x" by simp
  have at: "\<exists>rest. drop off data = pent_bytes x @ rest" and l: "laid data (off + pent_size x) xs"
    using Cons.prems(1) laid_Cons[OF ok] by blast+
  have f: "f off s = g x s" using at ok Cons.prems(3) by (auto simp: scans_def)
  have "scan_set data f (off + pent_size x) (off + pents_size (x # xs)) s' = run_entries g xs s'" for s'
    using Cons.IH[OF l, of s'] Cons.prems(2,3) by (simp add: scans_def ac_simps)
  then show ?case using scan_set_laid[OF Cons.prems(1) ok refl, of f s] by (simp add: f split: option.split sum.split)
qed simp

section \<open>Well-formed nodes\<close>

definition set_holds :: "u8 list \<Rightarrow> bset_tree \<Rightarrow> pent list \<Rightarrow> bool" where
  "set_holds data t xs \<longleftrightarrow> laid data (bs_data t) xs \<and> list_all pent_ok xs \<and>
     bs_end t = bs_data t + pents_size xs \<and> unat (bs_size t) = length xs"

text \<open>
  \<open>node_wf n xs ys\<close>: the compacted set holds \<open>xs\<close>, the incremental set \<open>ys\<close>, the third set is unused, the
  incremental set lies behind the entries and the sorted aux array of the first, and everything
  fits the node.
\<close>

definition node_wf :: "node \<Rightarrow> pent list \<Rightarrow> pent list \<Rightarrow> bool" where
  "node_wf n xs ys \<longleftrightarrow> (\<exists>t0 t1. nd_sets n = [t0, t1, bset_empty] \<and>
     set_holds (nd_data n) t0 xs \<and> set_holds (nd_data n) t1 ys \<and>
     (ys \<noteq> [] \<longrightarrow> bs_end t0 \<le> bs_data t1 \<and> aux_end t0 \<le> bs_data t1) \<and>
     bs_aux t1 = 0 \<and> bs_end t0 \<le> nd_size n \<and> bs_end t1 \<le> nd_size n) \<and>
     nd_size n \<le> length (nd_data n) \<and> nd_size n \<le> default_node_size"

lemma node_wfE:
  assumes "node_wf n xs ys"
  obtains t0 t1 where "nd_sets n = [t0, t1, bset_empty]" "set_holds (nd_data n) t0 xs" "set_holds (nd_data n) t1 ys"
    "ys \<noteq> [] \<Longrightarrow> bs_end t0 \<le> bs_data t1" "ys \<noteq> [] \<Longrightarrow> aux_end t0 \<le> bs_data t1"
    "bs_aux t1 = 0" "bs_end t0 \<le> nd_size n" "bs_end t1 \<le> nd_size n"
    "nd_size n \<le> length (nd_data n)" "nd_size n \<le> 262144"
  using assms by (auto simp: node_wf_def default_node_size_def)

lemma set_holds_empty [simp]: "set_holds data bset_empty []"
  by (simp add: set_holds_def bset_empty_def)

lemma node_wf_new: "node_wf (node_new lvl) [] []"
proof -
  have r3: "replicate 3 bset_empty = [bset_empty, bset_empty, bset_empty]" by (simp add: numeral_3_eq_3)
  have "bs_end bset_empty = 0" "bs_aux bset_empty = 0" by (simp_all add: bset_empty_def)
  then show ?thesis unfolding node_wf_def node_new_def node.simps r3 by simp
qed

lemma scan_all_run:
  assumes wf: "node_wf n xs ys" and sc: "scans (nd_data n) f g (set (xs @ ys))"
  shows "scan_all (nd_data n) f (nd_sets n) s = run_entries g (xs @ ys) s"
proof -
  obtain t0 t1 where t: "nd_sets n = [t0, t1, bset_empty]" "set_holds (nd_data n) t0 xs" "set_holds (nd_data n) t1 ys"
    using wf by (rule node_wfE)
  have "scan_set (nd_data n) f (bs_data t0) (bs_end t0) s = run_entries g xs s"
    "\<And>s. scan_set (nd_data n) f (bs_data t1) (bs_end t1) s = run_entries g ys s"
    using t(2,3) sc by (auto simp: set_holds_def scans_def intro!: scan_set_run)
  then show ?thesis by (simp add: t(1) run_entries_append bset_empty_def split: option.split sum.split)
qed

lemma run_entries_collect:
  "run_entries (\<lambda>x acc. Some (Inl (acc @ [h x]))) xs s = (Some (Inl (s @ map h xs)) :: ('a list + 'r) option)"
  by (induction xs arbitrary: s) simp_all

text \<open>Reading all entries, and collecting them.\<close>

lemma read_all_wf:
  assumes "node_wf n xs ys"
  shows "read_all_entries n = Some (map (pent_entry (nd_level n)) (xs @ ys))"
proof -
  have "scans (nd_data n) (\<lambda>cur acc. map_option (\<lambda>e. Inl (acc @ [e]) :: btree_entry list + unit)
        (read_packed_entry_raw (nd_level n) (nd_data n) cur))
      (\<lambda>x acc. Some (Inl (acc @ [pent_entry (nd_level n) x]))) (set (xs @ ys))"
    by (auto simp: scans_def entry_at(2))
  from scan_all_run[OF assms this] show ?thesis by (simp add: read_all_entries_def scan_state_def run_entries_collect)
qed

lemma collect_wf:
  assumes "node_wf n xs ys"
  shows "collect_all_entries n = Some (live_entries (map (pent_entry (nd_level n)) (xs @ ys)))"
  by (simp add: collect_all_entries_def read_all_wf[OF assms])

lemma total_data_bytes_wf:
  assumes "node_wf n xs ys"
  shows "total_data_bytes n = Some (pents_size (xs @ ys))"
proof -
  have m: "pent_size x div 8 * 8 = pent_size x" if "pent_ok x" for x
    using that by (auto simp: pent_ok_def pent_size_def elim!: dvdE simp flip: dvd_eq_mod_eq_0)
  have "scans (nd_data n) (\<lambda>cur acc. map_option (\<lambda>u. Inl (acc + u * 8) :: nat + unit) (read_entry_u64s (nd_data n) cur))
      (\<lambda>x acc. Some (Inl (acc + pent_size x))) (set (xs @ ys))"
    by (simp add: scans_def entry_at(1) m)
  from scan_all_run[OF assms this, of 0]
  have "scan_all (nd_data n) (\<lambda>cur acc. map_option (\<lambda>u. Inl (acc + u * 8) :: nat + unit) (read_entry_u64s (nd_data n) cur))
      (nd_sets n) 0 = run_entries (\<lambda>x acc. Some (Inl (acc + pent_size x))) (xs @ ys) 0" .
  moreover have "run_entries (\<lambda>x acc. Some (Inl (acc + pent_size x))) zs a = (Some (Inl (a + pents_size zs)) :: (nat + unit) option)" for zs a
    by (induction zs arbitrary: a) simp_all
  ultimately show ?thesis by (simp add: total_data_bytes_def scan_state_def)
qed

lemma node_wf_sizes:
  assumes "node_wf n xs ys"
  shows "pents_size (xs @ ys) \<le> nd_size n" "length (xs @ ys) \<le> 10922"
proof -
  obtain t0 t1 where t: "set_holds (nd_data n) t0 xs" "set_holds (nd_data n) t1 ys"
    "ys \<noteq> [] \<longrightarrow> bs_end t0 \<le> bs_data t1" "bs_end t0 \<le> nd_size n" "bs_end t1 \<le> nd_size n" "nd_size n \<le> 262144"
    using assms by (rule node_wfE) blast
  then show s: "pents_size (xs @ ys) \<le> nd_size n" by (cases "ys = []") (auto simp: set_holds_def)
  have "24 * length zs \<le> pents_size zs" for zs by (induction zs) (simp_all add: pent_size_def)
  from this[of "xs @ ys"] s t(6) show "length (xs @ ys) \<le> 10922" by simp
qed

end
