(* ===== verification/NodeInsert.thy ===== *)
theory NodeInsert
  imports NodeLive
begin

text \<open>
  Insertion and deletion on a well-formed node: where the entry goes, that nothing else moves, when
  a deletion is refused, and what compaction leaves behind.
\<close>

section \<open>Room\<close>

lemma foldr_max_ge: "x \<in> set xs \<Longrightarrow> (x :: nat) \<le> foldr max xs 0"
  by (induction xs) auto

lemma calc_free_start_ge:
  assumes "t \<in> set ts"
  shows "bs_end t \<le> calc_free_start ts" "aux_end t \<le> calc_free_start ts"
proof -
  have "max (bs_end t) (aux_end t) \<le> foldr max (map (\<lambda>t. max (bs_end t) (aux_end t)) ts) 0"
    using assms by (intro foldr_max_ge) simp
  moreover have "k \<le> (k + 7) div 8 * 8" for k :: nat by linarith
  ultimately show "bs_end t \<le> calc_free_start ts" "aux_end t \<le> calc_free_start ts"
    unfolding calc_free_start_def by (meson max.boundedE order_trans)+
qed

lemma make_room_wf:
  assumes wf: "node_wf n xs ys" and mr: "make_room n es = (n1, r)"
  shows "node_wf n1 xs ys \<and> nd_data n1 = nd_data n \<and> nd_level n1 = nd_level n \<and> nd_size n1 = nd_size n \<and>
    nd_key_count n1 = nd_key_count n \<and> nd_whiteouts n1 = nd_whiteouts n \<and>
    (r = Some free \<longrightarrow> free = calc_free_start (nd_sets n1) \<and> free + es \<le> nd_size n1) \<and>
    (r = None \<longrightarrow> nd_size n1 < calc_free_start (nd_sets n1) + es)"
proof (cases "calc_free_start (nd_sets n) + es \<le> nd_size n \<or> bs_aux (nd_sets n ! 0) = 0")
  case True
  then show ?thesis using assms by (auto simp: make_room_def Let_def split: if_splits)
next
  case False
  obtain t0 t1 where t: "nd_sets n = [t0, t1, bset_empty]" "set_holds (nd_data n) t0 xs" "set_holds (nd_data n) t1 ys"
    "ys \<noteq> [] \<longrightarrow> bs_end t0 \<le> bs_data t1" "bs_aux t1 = 0" "bs_end t0 \<le> nd_size n" "bs_end t1 \<le> nd_size n"
    "nd_size n \<le> length (nd_data n)" "nd_size n \<le> 262144"
    using wf by (rule node_wfE) blast
  let ?t = "t0\<lparr>bs_aux := 0\<rparr>"
  have "n1 = n\<lparr>nd_sets := [?t, t1, bset_empty]\<rparr>"
    "r = (if calc_free_start (nd_sets n1) + es \<le> nd_size n1 then Some (calc_free_start (nd_sets n1)) else None)"
    using mr False t(1) by (auto simp: make_room_def Let_def)
  moreover have "node_wf (n\<lparr>nd_sets := [?t, t1, bset_empty]\<rparr>) xs ys"
    using t by (simp add: node_wf_def set_holds_def aux_end_def default_node_size_def)
  ultimately show ?thesis by auto
qed

lemma active_inc_set_wf: "node_wf n xs ys \<Longrightarrow> active_inc_set n = 1"
  by (elim node_wfE) (simp add: active_inc_set_def bset_empty_def bset_data_bytes_def)

section \<open>Appending\<close>

lemma append_entry_wf:
  assumes wf: "node_wf n xs ys" and free: "free = calc_free_start (nd_sets n)" "free + pent_size x \<le> nd_size n"
    and x: "pent_ok x"
    and wr: "\<And>d o1. wr d o1 = (if o1 + pent_size x \<le> length d then Some (put_bytes o1 (pent_bytes x) d, pent_size x) else None)"
  shows "\<exists>n'. append_to_set 1 free wr n = Some n' \<and> node_wf n' xs (ys @ [x]) \<and> nd_level n' = nd_level n \<and>
    nd_key_count n' = nd_key_count n \<and> nd_whiteouts n' = nd_whiteouts n"
proof -
  obtain t0 t1 where t: "nd_sets n = [t0, t1, bset_empty]" "set_holds (nd_data n) t0 xs" "set_holds (nd_data n) t1 ys"
    "ys \<noteq> [] \<longrightarrow> bs_end t0 \<le> bs_data t1" "ys \<noteq> [] \<longrightarrow> aux_end t0 \<le> bs_data t1" "bs_aux t1 = 0"
    "bs_end t0 \<le> nd_size n" "bs_end t1 \<le> nd_size n" "nd_size n \<le> length (nd_data n)" "nd_size n \<le> 262144"
    using wf by (rule node_wfE) blast
  define t1' where "t1' = (if bs_end t1 = bs_data t1 then t1\<lparr>bs_data := free, bs_end := free\<rparr> else t1)"
  have ge: "bs_end t0 \<le> free" "aux_end t0 \<le> free" "bs_end t1 \<le> free"
    using calc_free_start_ge[of t0 "nd_sets n"] calc_free_start_ge(1)[of t1 "nd_sets n"] by (simp_all add: t(1) free(1))
  have empty: "bs_end t1 = bs_data t1 \<longleftrightarrow> ys = []" using t(3) by (cases ys) (simp_all add: set_holds_def)
  have t1': "set_holds (nd_data n) t1' ys" "bs_end t1' \<le> free" "bs_end t0 \<le> bs_data t1'" "aux_end t0 \<le> bs_data t1'" "bs_aux t1' = 0"
    using t ge empty by (auto simp: t1'_def set_holds_def)
  define d where "d = put_bytes (bs_end t1') (pent_bytes x) (nd_data n)"
  have room: "bs_end t1' + pent_size x \<le> nd_size n" "bs_end t1' + length (pent_bytes x) \<le> length (nd_data n)"
    using t1'(2) free(2) t(9) x by simp_all
  define t1'' where "t1'' = t1'\<lparr>bs_end := bs_end t1' + pent_size x, bs_size := bs_size t1' + 1\<rparr>"
  define n' where "n' = n\<lparr>nd_data := d, nd_sets := [t0, t1'', bset_empty]\<rparr>"
  have "append_to_set 1 free wr n = Some n'"
    using room(2) x by (simp add: append_to_set_def Let_def t(1) wr t1'_def[symmetric] n'_def t1''_def d_def)
  moreover have len: "length d = length (nd_data n)" using room(2) by (simp add: d_def)
  moreover have s0: "set_holds d t0 xs"
    using t(2) t1'(3) room(2) unfolding set_holds_def d_def
    by (intro conjI) (auto intro!: laid_frame simp: t1'(1)[unfolded set_holds_def])
  moreover have s1: "set_holds d t1'' (ys @ [x])"
  proof -
    have h: "laid (nd_data n) (bs_data t1') ys" "list_all pent_ok ys" "bs_end t1' = bs_data t1' + pents_size ys"
      "unat (bs_size t1') = length ys" using t1'(1) by (simp_all add: set_holds_def)
    have "laid d (bs_data t1') ys" unfolding d_def by (rule laid_frame[OF h(1,2) _ room(2)]) (simp add: h(3))
    moreover have "laid d (bs_end t1') [x]"
      using laid_put[of "[x]" "bs_end t1'" "nd_data n"] room(2) x by (simp add: d_def)
    moreover have "unat (bs_size t1' + 1) = Suc (length ys)"
      using h(4) node_wf_sizes(2)[OF wf] by (simp add: unat_word_ariths)
    ultimately show ?thesis using h x by (simp add: set_holds_def t1''_def laid_append add.assoc)
  qed
  ultimately show ?thesis
    using t t1' room(1) by (intro exI[of _ n'] conjI) (simp_all add: n'_def node_wf_def t1''_def default_node_size_def)
qed

text \<open>
  Insertion of an entry: the node stays well-formed, an accepted entry is the last one of the
  incremental set, a refused one leaves the entries as they are, and it is refused exactly when even
  without the aux array the entry does not fit behind the sets.
\<close>

lemma insert_entry_wf:
  assumes wf: "node_wf n xs ys" and e: "pent_ok (pent_of e)"
  shows "\<exists>b n'. node_insert_entry n e = Some (b, n') \<and> nd_level n' = nd_level n \<and>
    (if b then node_wf n' xs (ys @ [pent_of e]) \<and> nd_key_count n' = nd_key_count n + 1
     else node_wf n' xs ys \<and> nd_key_count n' = nd_key_count n \<and> nd_data n' = nd_data n \<and>
          nd_size n < calc_free_start (nd_sets n') + pent_size (pent_of e))"
proof -
  let ?es = "(bkey_u64s + div_ceil8 (length (key_value_to_bytes (evalue e)))) * 8"
  have es: "?es = pent_size (pent_of e)" by (simp add: pent_size_of bkey_u64s_def)
  obtain n1 r where mr: "make_room n ?es = (n1, r)" by (metis surj_pair)
  note m = make_room_wf[OF wf mr]
  show ?thesis
  proof (cases r)
    case None
    then show ?thesis using m mr es by (auto simp: node_insert_entry_def Let_def)
  next
    case (Some free)
    have f: "node_wf n1 xs ys" "free = calc_free_start (nd_sets n1)" "free + pent_size (pent_of e) \<le> nd_size n1"
      using make_room_wf[OF wf mr, of free] Some es by auto
    have "\<exists>n'. append_to_set 1 free (\<lambda>d o1. write_entry_bytes d o1 e) n1 = Some n' \<and>
      node_wf n' xs (ys @ [pent_of e]) \<and> nd_level n' = nd_level n1 \<and> nd_key_count n' = nd_key_count n1 \<and>
      nd_whiteouts n' = nd_whiteouts n1"
      by (rule append_entry_wf[OF f e]) (simp add: e write_entry_bytes_eq)
    then obtain n' where n': "append_to_set 1 free (\<lambda>d o1. write_entry_bytes d o1 e) n1 = Some n'"
      "node_wf n' xs (ys @ [pent_of e])" "nd_level n' = nd_level n1" "nd_key_count n' = nd_key_count n1" by blast
    have "node_wf (n'\<lparr>nd_key_count := k\<rparr>) xs (ys @ [pent_of e])" for k using n'(2) by (simp add: node_wf_def)
    then show ?thesis
      using n' m mr Some
      by (intro exI[of _ True] exI[of _ "n'\<lparr>nd_key_count := nd_key_count n' + 1\<rparr>"])
        (simp add: node_insert_entry_def Let_def active_inc_set_wf[OF wf])
  qed
qed

lemma node_insert_legacy: "node_insert n k v = node_insert_entry n (entry_from_legacy k v)"
  by (simp add: node_insert_def node_insert_entry_def Let_def write_entry_legacy entry_from_legacy_def
      entry_size_def div_ceil8_def)

end
