(* ===== verification/NodeCompact.thy ===== *)
theory NodeCompact
  imports NodeInsert
begin

text \<open>
  What compaction leaves in a node: the live entries from offset 0, the sorted aux array behind them
  and, in larger nodes, the Eytzinger array behind that.
\<close>

section \<open>Writing runs of entries and aux elements\<close>

lemma put_bytes_put_bytes:
  assumes "off + length a + length b \<le> length data"
  shows "put_bytes (off + length a) b (put_bytes off a data) = put_bytes off (a @ b) data"
  using assms by (simp add: put_bytes_def ac_simps)

lemma put_bytes_Nil [simp]: "put_bytes off [] data = data"
  by (simp add: put_bytes_def)

definition entry_offsets :: "nat \<Rightarrow> pent list \<Rightarrow> nat list" where
  "entry_offsets cur ps = map (\<lambda>i. cur + pents_size (take i ps)) [0..<length ps]"

lemma entry_offsets_Cons: "entry_offsets cur (p # ps) = cur # entry_offsets (cur + pent_size p) ps"
proof -
  have "[0..<Suc (length ps)] = 0 # [Suc 0..<Suc (length ps)]" by (rule upt_conv_Cons) simp
  then have "[0..<Suc (length ps)] = 0 # map Suc [0..<length ps]" by (simp only: map_Suc_upt)
  then show ?thesis by (simp add: entry_offsets_def add.assoc del: upt_Suc)
qed

lemma length_entry_offsets [simp]: "length (entry_offsets cur ps) = length ps"
  by (simp add: entry_offsets_def)

lemma write_entries_eq:
  assumes "list_all pent_ok (map pent_of es)" "cur + pents_size (map pent_of es) \<le> length data"
  shows "write_entries data cur es =
    Some (put_bytes cur (concat (map pent_bytes (map pent_of es))) data, entry_offsets cur (map pent_of es),
          cur + pents_size (map pent_of es))"
  using assms
proof (induction es arbitrary: cur data)
  case Nil
  then show ?case by (simp add: entry_offsets_def)
next
  case (Cons e es)
  let ?p = "pent_of e" and ?ps = "map pent_of es"
  let ?d = "put_bytes cur (pent_bytes ?p) data"
  have ok: "pent_ok ?p" "list_all pent_ok ?ps" and len: "length (pent_bytes ?p) = pent_size ?p" using Cons.prems(1) by simp_all
  have fit: "cur + pent_size ?p + pents_size ?ps \<le> length data" using Cons.prems(2) by simp
  then have "write_entry_bytes data cur e = Some (?d, pent_size ?p)" "length ?d = length data"
    using write_entry_bytes_eq[OF ok(1), of data cur] len by simp_all
  moreover have "write_entries ?d (cur + pent_size ?p) es =
      Some (put_bytes (cur + pent_size ?p) (concat (map pent_bytes ?ps)) ?d, entry_offsets (cur + pent_size ?p) ?ps,
            cur + pent_size ?p + pents_size ?ps)"
    using Cons.IH[OF ok(2), of "cur + pent_size ?p" ?d] fit calculation(2) by simp
  moreover have "put_bytes (cur + pent_size ?p) (concat (map pent_bytes ?ps)) ?d
      = put_bytes cur (pent_bytes ?p @ concat (map pent_bytes ?ps)) data"
    using put_bytes_put_bytes[of cur "pent_bytes ?p" "concat (map pent_bytes ?ps)" data] fit len length_pents_bytes[OF ok(2)]
    by simp
  ultimately show ?case by (simp add: entry_offsets_Cons)
qed

lemma length_aux_bytes [simp]: "length (aux_bytes a) = 25"
  by (simp add: aux_bytes_def)

lemma length_auxs_bytes [simp]: "length (concat (map aux_bytes as)) = 25 * length as"
  by (induction as) simp_all

lemma write_aux_eq:
  "off + 25 * length as \<le> length data \<Longrightarrow> write_aux data off as = Some (put_bytes off (concat (map aux_bytes as)) data)"
proof (induction as arbitrary: off data)
  case (Cons a as)
  then show ?case
    using put_bytes_put_bytes[of off "aux_bytes a" "concat (map aux_bytes as)" data] by (simp add: aux_entry_size_def)
qed simp

lemma le_word_full [simp]: "(le_word (le_bytes 4 w) :: u32) = w"
  by (rule le_word_le_bytes_full) simp

lemma read_aux_at:
  assumes "drop off data = aux_bytes a @ rest"
  shows "read_aux data off = Some a"
proof -
  have b: "off + 25 \<le> length data" using drop_split_bound[OF assms] by (metis length_0_conv length_aux_bytes zero_neq_numeral)
  have "take 8 (drop off data) = le_bytes 8 (vaddr (fst a))" "take 4 (drop 8 (drop off data)) = le_bytes 4 (snapshot_id (fst a))"
    "drop off data ! 12 = key_type_u8 (bk_type (fst a))" "take 8 (drop 13 (drop off data)) = le_bytes 8 (bk_version (fst a))"
    "take 4 (drop 21 (drop off data)) = le_bytes 4 (snd a)"
    unfolding assms by (simp_all add: aux_bytes_def nth_append)
  moreover have "(\<lparr>vaddr = vaddr (fst a), snapshot_id = snapshot_id (fst a), bk_type = bk_type (fst a),
      bk_version = bk_version (fst a)\<rparr>, snd a) = a" by (simp add: prod_eq_iff)
  ultimately show ?thesis using b by (simp add: read_aux_def aux_entry_size_def Let_def)
qed

definition aux_laid :: "u8 list \<Rightarrow> nat \<Rightarrow> aux_entry list \<Rightarrow> bool" where
  "aux_laid data off as \<longleftrightarrow> prefix (concat (map aux_bytes as)) (drop off data)"

lemma aux_laid_nth:
  assumes "aux_laid data off as" "i < length as"
  shows "\<exists>rest. drop (off + i * 25) data = aux_bytes (as ! i) @ rest"
proof -
  obtain r where r: "drop off data = concat (map aux_bytes as) @ r" using assms(1) by (auto simp: aux_laid_def elim: prefixE)
  have "as = take i as @ as ! i # drop (Suc i) as" using assms(2) by (simp add: id_take_nth_drop)
  then have "drop off data = concat (map aux_bytes (take i as)) @ aux_bytes (as ! i) @ concat (map aux_bytes (drop (Suc i) as)) @ r"
    using r by (metis append.assoc concat.simps(2) concat_append list.simps(9) map_append)
  from drop_split[OF this] show ?thesis using assms(2) by (simp add: mult.commute)
qed

lemma read_aux_laid: "aux_laid data off as \<Longrightarrow> i < length as \<Longrightarrow> read_aux data (off + i * 25) = Some (as ! i)"
  using aux_laid_nth read_aux_at by metis

lemma aux_laid_put: "off + 25 * length as \<le> length data \<Longrightarrow> aux_laid (put_bytes off (concat (map aux_bytes as)) data) off as"
  by (simp add: aux_laid_def drop_put_bytes)

lemma aux_laid_frame:
  assumes "aux_laid data o1 as" "o1 + 25 * length as \<le> off" "off + length bs \<le> length data"
  shows "aux_laid (put_bytes off bs data) o1 as"
proof -
  obtain r where r: "drop o1 data = concat (map aux_bytes as) @ r" using assms(1) by (auto simp: aux_laid_def elim: prefixE)
  have "prefix (take (off - o1) (drop o1 data)) (drop o1 (put_bytes off bs data))"
    using assms(2,3) by (simp add: put_bytes_def drop_take)
  moreover have "prefix (concat (map aux_bytes as)) (take (off - o1) (drop o1 data))" using assms(2) by (simp add: r)
  ultimately show ?thesis unfolding aux_laid_def by (rule prefix_order.trans[rotated])
qed

section \<open>The arrays\<close>

definition sorted_aux :: "btree_entry list \<Rightarrow> aux_entry list" where
  "sorted_aux es = aux_list es (entry_offsets 0 (map pent_of es))"

lemma length_sorted_aux [simp]: "length (sorted_aux es) = length es"
  by (simp add: sorted_aux_def aux_list_def)

lemma length_build_eytz_rec [simp]: "length (build_eytz_rec out l r i) = length out"
  by (induction out l r i rule: build_eytz_rec.induct) (subst build_eytz_rec.simps, simp add: Let_def)

text \<open>Whatever the permutation misses, its values stay indices of the sorted array.\<close>

lemma set_build_eytz_rec:
  "\<forall>x \<in> set out. x < n \<Longrightarrow> r \<le> n \<Longrightarrow> \<forall>x \<in> set (build_eytz_rec out l r i). x < n"
proof (induction out l r i rule: build_eytz_rec.induct)
  case (1 out l r i)
  show ?case
  proof (cases "r \<le> l \<or> length out \<le> i")
    case True
    then show ?thesis using 1(3) by (subst build_eytz_rec.simps) simp
  next
    case False
    let ?mid = "l + (r - l) div 2"
    have mid: "?mid < n" "?mid \<le> n" using False 1(4) by (auto simp: not_le)
    have "\<forall>x \<in> set (out[i := ?mid]). x < n" using 1(3) mid(1) using set_update_subset_insert[of out i ?mid] by auto
    from 1(1)[OF False refl this mid(2)] have "\<forall>x \<in> set (build_eytz_rec (out[i := ?mid]) l ?mid (i * 2)). x < n" .
    from 1(2)[OF False refl this 1(4)] show ?thesis using False by (subst build_eytz_rec.simps) (simp add: Let_def)
  qed
qed

definition eytz_aux :: "btree_entry list \<Rightarrow> aux_entry list" where
  "eytz_aux es = map (\<lambda>i. sorted_aux es ! i) (tl (build_eytz_rec (replicate (length es + 1) 0) 0 (length es) 1))"

lemma eytz_aux_subset: "set (eytz_aux es) \<subseteq> set (sorted_aux es)" "length (eytz_aux es) = length es"
proof -
  let ?o = "build_eytz_rec (replicate (length es + 1) 0) 0 (length es) 1"
  show "length (eytz_aux es) = length es" by (simp add: eytz_aux_def)
  show "set (eytz_aux es) \<subseteq> set (sorted_aux es)"
  proof (cases "es = []")
    case False
    then have "\<forall>x \<in> set ?o. x < length es" by (intro set_build_eytz_rec) (auto simp: set_replicate_conv_if)
    moreover have "set (tl ?o) \<subseteq> set ?o" by (cases ?o) auto
    ultimately show ?thesis by (auto simp: eytz_aux_def)
  next
    case True
    then show ?thesis by (simp add: eytz_aux_def) (subst build_eytz_rec.simps, simp)
  qed
qed

text \<open>
  A node as compaction leaves it: \<open>es\<close> from offset 0, then the sorted array and the Eytzinger array
  when they fit. The \<open>u16\<close> field keeps the low 16 bits of the second array's offset.
\<close>

definition compacted :: "node \<Rightarrow> btree_entry list \<Rightarrow> bool" where
  "compacted n es \<longleftrightarrow> (let ps = map pent_of es; ds = pents_size ps; base = ds + 25 * length es;
       t = \<lparr>bs_data = 0, bs_end = ds, bs_aux = (if base \<le> nd_size n then ds else 0), bs_size = of_nat (length es),
            bs_extra = (if 16 \<le> length es \<and> base + 25 * length es \<le> nd_size n then of_nat base else 0)\<rparr> in
     nd_sets n = [t, bset_empty, bset_empty] \<and> node_wf n ps [] \<and>
     (base \<le> nd_size n \<longrightarrow> aux_laid (nd_data n) ds (sorted_aux es)) \<and>
     (16 \<le> length es \<and> base + 25 * length es \<le> nd_size n \<longrightarrow> aux_laid (nd_data n) base (eytz_aux es)) \<and>
     nd_key_count n = of_nat (length es) \<and> nd_whiteouts n = 0)"

lemma build_aux_arrays_laid:
  assumes es: "laid data 0 (map pent_of es)" "list_all pent_ok (map pent_of es)" and ds: "ds = pents_size (map pent_of es)"
    and fit: "nsize \<le> length data" and base: "base = ds + 25 * length es"
  shows "\<exists>d. build_aux_arrays nsize data (sorted_aux es) ds =
      Some (d, \<lparr>bs_data = 0, bs_end = ds, bs_aux = (if base \<le> nsize then ds else 0), bs_size = of_nat (length es),
            bs_extra = (if 16 \<le> length es \<and> base + 25 * length es \<le> nsize then of_nat base else 0)\<rparr>) \<and>
    length d = length data \<and> laid d 0 (map pent_of es) \<and> (base \<le> nsize \<longrightarrow> aux_laid d ds (sorted_aux es)) \<and>
    (16 \<le> length es \<and> base + 25 * length es \<le> nsize \<longrightarrow> aux_laid d base (eytz_aux es))"
proof (cases "base \<le> nsize")
  case False
  then show ?thesis using es(1) by (simp add: build_aux_arrays_def Let_def base aux_entry_size_def mult.commute)
next
  case True
  have c2: "length es * aux_entry_size = 25 * length es" "eytzinger_min_entries = 16"
    by (simp_all add: aux_entry_size_def eytzinger_min_entries_def)
  let ?d1 = "put_bytes ds (concat (map aux_bytes (sorted_aux es))) data"
  have r1: "ds + 25 * length es \<le> length data" using True fit base by simp
  have d1: "write_aux data ds (sorted_aux es) = Some ?d1" "length ?d1 = length data" "aux_laid ?d1 ds (sorted_aux es)"
    using r1 write_aux_eq[of ds "sorted_aux es" data] aux_laid_put[of ds "sorted_aux es" data] by simp_all
  have l1: "laid ?d1 0 (map pent_of es)" using r1 ds by (intro laid_frame[OF es]) simp_all
  show ?thesis
  proof (cases "16 \<le> length es \<and> base + 25 * length es \<le> nsize")
    case False
    show ?thesis
      unfolding build_aux_arrays_def Let_def length_sorted_aux c2 base[symmetric]
      using True False d1 l1 by (intro exI[of _ ?d1]) auto
  next
    case big: True
    let ?d2 = "put_bytes base (concat (map aux_bytes (eytz_aux es))) ?d1"
    have r2: "base + 25 * length (eytz_aux es) \<le> length ?d1" using big fit d1(2) by (simp add: eytz_aux_subset(2))
    have d2: "write_aux ?d1 base (eytz_aux es) = Some ?d2" "length ?d2 = length data" "aux_laid ?d2 base (eytz_aux es)"
      using r2 d1(2) write_aux_eq[OF r2] aux_laid_put[OF r2] by simp_all
    moreover have "aux_laid ?d2 ds (sorted_aux es)" using r2 base by (intro aux_laid_frame[OF d1(3)]) simp_all
    moreover have "laid ?d2 0 (map pent_of es)" using r2 base ds by (intro laid_frame[OF l1 es(2)]) simp_all
    ultimately show ?thesis
      unfolding build_aux_arrays_def Let_def length_sorted_aux c2 base[symmetric]
      using True big d1 by (intro exI[of _ ?d2]) (simp add: eytz_aux_def)
  qed
qed

section \<open>Compaction\<close>

lemma pents_size_mset: "pents_size xs = sum_mset (image_mset pent_size (mset xs))"
  by (simp add: pents_size_def sum_mset_sum_list[symmetric])

lemma live_pents:
  assumes "node_wf n xs ys" and es: "es = live_entries (map (pent_entry lvl) (xs @ ys))"
  shows "list_all pent_ok (map pent_of es)" "pents_size (map pent_of es) \<le> nd_size n" "length es \<le> 10922"
    "map (pent_entry lvl) (map pent_of es) = es" "pents_size (map pent_of es) \<le> pents_size (xs @ ys)"
proof -
  have ok: "\<forall>x \<in> set (xs @ ys). pent_ok x" using assms(1) by (auto elim!: node_wfE simp: set_holds_def list_all_iff)
  have sub: "set es \<subseteq> pent_entry lvl ` set (xs @ ys)" using set_live_entries es by (metis list.set_map)
  then show "list_all pent_ok (map pent_of es)" using ok by (auto simp: list_all_iff pent_of_entry)
  show "map (pent_entry lvl) (map pent_of es) = es" using sub ok by (auto simp: map_idI pent_of_entry subset_iff intro!: map_idI)
  have m: "mset es \<subseteq># image_mset (pent_entry lvl) (mset (xs @ ys))" using mset_live_entries es by (metis mset_map)
  have "mset (map pent_of es) \<subseteq># image_mset pent_of (image_mset (pent_entry lvl) (mset (xs @ ys)))"
    using image_mset_subseteq_mono[OF m] by simp
  also have "\<dots> = mset (map pent_of (map (pent_entry lvl) (xs @ ys)))" by (simp only: mset_map)
  also have "map pent_of (map (pent_entry lvl) (xs @ ys)) = xs @ ys" using ok by (auto intro!: map_idI simp: pent_of_entry simp del: map_append)
  finally have s: "mset (map pent_of es) \<subseteq># mset (xs @ ys)" .
  then obtain r where "mset (xs @ ys) = mset (map pent_of es) + r" by (auto simp: subset_mset.le_iff_add)
  then show "pents_size (map pent_of es) \<le> pents_size (xs @ ys)" unfolding pents_size_mset by simp
  then show "pents_size (map pent_of es) \<le> nd_size n" using node_wf_sizes(1)[OF assms(1)] by simp
  show "length es \<le> 10922" using size_mset_mono[OF s] node_wf_sizes(2)[OF assms(1)] by simp
qed

lemma node_compact_wf:
  assumes wf: "node_wf n xs ys" and es: "es = live_entries (map (pent_entry (nd_level n)) (xs @ ys))"
  shows "\<exists>n'. node_compact n = Some n' \<and> compacted n' es \<and> nd_level n' = nd_level n \<and> nd_size n' = nd_size n \<and>
    nd_min n' = nd_min n \<and> nd_max n' = nd_max n \<and> nd_seq n' = nd_seq n"
proof -
  let ?ps = "map pent_of es"
  note lp = live_pents[OF wf es]
  have b: "nd_size n \<le> length (nd_data n)" "nd_size n \<le> 262144" using wf by (auto elim!: node_wfE)
  let ?d = "put_bytes 0 (concat (map pent_bytes ?ps)) (nd_data n)"
  have fit: "0 + pents_size ?ps \<le> length (nd_data n)" using lp(2) b(1) by simp
  have w: "write_entries (nd_data n) 0 es = Some (?d, entry_offsets 0 ?ps, pents_size ?ps)"
    using write_entries_eq[OF lp(1) fit] by simp
  have d: "laid ?d 0 ?ps" "length ?d = length (nd_data n)"
    using laid_put[OF lp(1) fit] fit length_pents_bytes[OF lp(1)] by simp_all
  have sz: "nd_size n \<le> length ?d" using b(1) d(2) by simp
  from build_aux_arrays_laid[OF d(1) lp(1) refl sz refl]
  obtain d' t where arr: "build_aux_arrays (nd_size n) ?d (sorted_aux es) (pents_size ?ps) = Some (d', t)"
    and t: "t = \<lparr>bs_data = 0, bs_end = pents_size ?ps, bs_aux = (if pents_size ?ps + 25 * length es \<le> nd_size n then pents_size ?ps else 0),
        bs_size = of_nat (length es),
        bs_extra = (if 16 \<le> length es \<and> pents_size ?ps + 25 * length es + 25 * length es \<le> nd_size n
                    then of_nat (pents_size ?ps + 25 * length es) else 0)\<rparr>"
    and d': "length d' = length ?d" "laid d' 0 ?ps"
      "pents_size ?ps + 25 * length es \<le> nd_size n \<longrightarrow> aux_laid d' (pents_size ?ps) (sorted_aux es)"
      "16 \<le> length es \<and> pents_size ?ps + 25 * length es + 25 * length es \<le> nd_size n
        \<longrightarrow> aux_laid d' (pents_size ?ps + 25 * length es) (eytz_aux es)"
    by blast
  let ?n = "n\<lparr>nd_data := d', nd_sets := [t, bset_empty, bset_empty], nd_key_count := of_nat (length es), nd_whiteouts := 0\<rparr>"
  have "node_compact n = Some ?n"
    unfolding node_compact_def collect_wf[OF wf] es[symmetric] option.case w prod.case sorted_aux_def[symmetric] arr ..
  moreover have "set_holds d' t ?ps"
    using d'(2) lp(1,3) by (simp add: set_holds_def t unat_of_nat)
  then have "node_wf ?n ?ps []"
    using lp(2) b d'(1) d(2) by (simp add: node_wf_def t default_node_size_def) (simp add: bset_empty_def)
  then have "compacted ?n es" using t d' unfolding compacted_def Let_def by simp
  ultimately show ?thesis by (intro exI[of _ ?n]) simp
qed

end
