(* ===== verification/NodeSearch.thy ===== *)
theory NodeSearch
  imports NodeCompact
begin

text \<open>
  Lookup: the binary search and the Eytzinger walk of a compacted node find exactly the entry with
  the target's key, and the linear scan of an uncompacted node finds the first match.
\<close>

section \<open>Key order and values\<close>

definition key_rank :: "btree_key \<Rightarrow> nat" where
  "key_rank k = bpos_key (target_bpos k) * 3 + unat (key_type_u8 (bk_type k))"

lemma unat_key_type: "unat (key_type_u8 t) < 3"
  by (cases t) simp_all

lemma times3_less_iff: "a * 3 + c < b * 3 + d \<longleftrightarrow> a < b \<or> a = b \<and> c < d" if "c < 3" "d < 3" for a b c d :: nat
  using that by (cases a b rule: linorder_cases) auto

lemma btree_key_cmp_rank: "btree_key_cmp a b = ord_cmp (key_rank a) (key_rank b)"
proof -
  have less: "btree_key_cmp a b = Less \<longleftrightarrow> key_rank a < key_rank b" for a b
    unfolding key_rank_def times3_less_iff[OF unat_key_type unat_key_type] bpos_key_less_iff bpos_key_eq_iff
    by (auto simp: btree_key_cmp_def target_bpos_def word_less_nat_alt)
  moreover have "btree_key_cmp a b = Greater \<longleftrightarrow> btree_key_cmp b a = Less" by (auto simp: btree_key_cmp_def)
  ultimately show ?thesis using less[of a b] less[of b a] by (cases "btree_key_cmp a b") (auto simp: ord_cmp_def)
qed

lemma key_rank_entry: "node_key a < node_key b \<Longrightarrow> key_rank (entry_key a) < key_rank (entry_key b)"
proof -
  assume "node_key a < node_key b"
  then have "bpos_key (target_bpos (entry_key a)) < bpos_key (target_bpos (entry_key b))"
    by (simp add: entry_key_def target_bpos_def btree_key_from_bpos_def btree_key_new_def bpos_key_def)
  then show ?thesis by (simp add: key_rank_def times3_less_iff[OF unat_key_type unat_key_type])
qed

text \<open>The key and the address pair a lookup returns for an entry: its first eight value bytes.\<close>

definition entry_legacy :: "btree_entry \<Rightarrow> btree_key \<times> bch_val" where
  "entry_legacy e = (entry_key e, case bch_val_of_bytes (snd (snd (pent_of e))) of (pa, v) \<Rightarrow> \<lparr>paddr = pa, ver = v\<rparr>)"

definition valued :: "btree_entry \<Rightarrow> bool" where
  "valued e \<longleftrightarrow> key_value_to_bytes (evalue e) \<noteq> []"

lemma le_word_6: "(le_word (take 6 bs) :: u64) \<le> addr48_max"
proof -
  have "take_bit 48 (le_word (take 6 bs) :: u64) = le_word (take 6 bs)"
    by (rule bit_word_eqI) (auto simp: bit_take_bit_iff bit_le_word)
  then have "unat (le_word (take 6 bs) :: u64) < 2 ^ 48"
    by (metis take_bit_nat_less_exp unsigned_take_bit_eq)
  then show ?thesis by (simp add: addr48_max_def word_le_nat_alt)
qed

lemma read_entry_at:
  assumes "drop off data = pent_bytes (pent_of e) @ rest" "pent_ok (pent_of e)" "valued e"
  shows "read_packed_entry data off = Some (entry_legacy e)"
proof -
  let ?vb = "snd (snd (pent_of e))"
  have len: "8 \<le> length ?vb"
    using assms(3) by (cases "key_value_to_bytes (evalue e)") (auto simp: pent_of_def length_pad8 valued_def div_ceil8_def)
  have v: "drop (off + 24) data = ?vb @ rest" by (rule entry_at(7)[OF assms(1,2)])
  have "bch_val_of_bytes (drop (off + 24) data) = bch_val_of_bytes ?vb" using len unfolding v by (simp add: bch_val_of_bytes_def)
  moreover have "8 \<le> length (drop (off + 24) data)" using len unfolding v by simp
  ultimately show ?thesis
    using entry_at(6)[OF assms(1,2)] le_word_6[of ?vb]
    by (simp add: entry_legacy_def bch_val_of_bytes_def bch_val_new_def addr48_new_def entry_key_def pent_of_def)
qed

lemma laid_nth:
  assumes "laid data off ps" "list_all pent_ok ps" "i < length ps"
  shows "\<exists>rest. drop (off + pents_size (take i ps)) data = pent_bytes (ps ! i) @ rest"
proof -
  have "ps = take i ps @ ps ! i # drop (Suc i) ps" using assms(3) by (simp add: id_take_nth_drop)
  moreover have "list_all pent_ok (take i ps)" using assms(2) by (simp add: list_all_length)
  moreover have "pent_ok (ps ! i)" using assms(2,3) by (simp add: list_all_length)
  ultimately show ?thesis using assms(1) by (metis laid_append laid_Cons)
qed

section \<open>The two searches\<close>

text \<open>
  The interface between the searches and the arrays: position \<open>i\<close> from 1 has a key and an answer.
\<close>

locale ranked_index =
  fixes key_at :: "nat \<Rightarrow> btree_key" and answer :: "nat \<Rightarrow> btree_key \<times> bch_val" and n :: nat
  assumes ranked: "1 \<le> i \<Longrightarrow> i < j \<Longrightarrow> j \<le> n \<Longrightarrow> key_rank (key_at i) < key_rank (key_at j)"
    and live: "1 \<le> i \<Longrightarrow> i \<le> n \<Longrightarrow> bk_type (fst (answer i)) \<noteq> Deleted"
begin

text \<open>The answer for a target: that of the one position whose key compares equal.\<close>

definition lookup_between :: "btree_key \<Rightarrow> int \<Rightarrow> int \<Rightarrow> (btree_key \<times> bch_val) option" where
  "lookup_between target lo hi =
     map_option (\<lambda>i. answer i) (find (\<lambda>i. key_rank (key_at i) = key_rank target) [nat lo..<nat (hi + 1)])"

lemma lookup_between_eqI:
  assumes "1 \<le> lo" "hi \<le> int n" "lo \<le> int i" "int i \<le> hi" "key_rank (key_at i) = key_rank target"
  shows "lookup_between target lo hi = Some (answer i)"
proof -
  have uniq: "j = i" if "j \<in> set [nat lo..<nat (hi + 1)]" "key_rank (key_at j) = key_rank target" for j
  proof -
    have "1 \<le> j" "j \<le> n" "1 \<le> i" "i \<le> n" using that(1) assms by auto
    then show ?thesis using that(2) assms(5) ranked[of i j] ranked[of j i] by (cases i j rule: linorder_cases) auto
  qed
  obtain j where "find (\<lambda>i. key_rank (key_at i) = key_rank target) [nat lo..<nat (hi + 1)] = Some j"
    using assms by (cases "find (\<lambda>i. key_rank (key_at i) = key_rank target) [nat lo..<nat (hi + 1)]") (auto simp: find_None_iff)
  moreover from this have "j = i" by (intro uniq) (auto simp: find_Some_iff)
  ultimately show ?thesis by (simp add: lookup_between_def)
qed

lemma lookup_between_cong:
  assumes "\<And>i. lo \<le> int i \<Longrightarrow> int i \<le> hi \<Longrightarrow> key_rank (key_at i) = key_rank target \<Longrightarrow> lo' \<le> int i \<and> int i \<le> hi'"
    and "lo \<le> lo'" "hi' \<le> hi" "1 \<le> lo" "hi \<le> int n"
  shows "lookup_between target lo hi = lookup_between target lo' hi'"
proof (cases "\<exists>i. lo \<le> int i \<and> int i \<le> hi \<and> key_rank (key_at i) = key_rank target")
  case True
  then obtain i where i: "lo \<le> int i" "int i \<le> hi" "key_rank (key_at i) = key_rank target" by blast
  with assms lookup_between_eqI[of lo hi i target] lookup_between_eqI[of lo' hi' i target] show ?thesis by simp
next
  case False
  then have "find (\<lambda>i. key_rank (key_at i) = key_rank target) [nat lo..<nat (hi + 1)] = None"
    "find (\<lambda>i. key_rank (key_at i) = key_rank target) [nat lo'..<nat (hi' + 1)] = None"
    using assms(2-4) by (auto simp: find_None_iff)
  then show ?thesis by (simp add: lookup_between_def)
qed

lemma aux_search_finds:
  assumes "\<And>i. 1 \<le> i \<Longrightarrow> i \<le> n \<Longrightarrow> read_aux_key data t i = Some (key_at i)"
    and "\<And>i. 1 \<le> i \<Longrightarrow> i \<le> n \<Longrightarrow> read_entry data t i = Some (answer i)"
    and "1 \<le> lo" "hi \<le> int n"
  shows "aux_search data t target lo hi = Some (lookup_between target lo hi)"
  using assms(3,4)
proof (induction "nat (hi + 1 - lo)" arbitrary: lo hi rule: less_induct)
  case less
  show ?case
  proof (cases "hi < lo")
    case True
    then show ?thesis by (subst aux_search.simps) (simp add: lookup_between_def)
  next
    case False
    let ?mid = "(lo + hi) div 2"
    have mid: "lo \<le> ?mid" "?mid \<le> hi" "1 \<le> nat ?mid" "nat ?mid \<le> n" "int (nat ?mid) = ?mid" using False less.prems by auto
    have k: "read_aux_key data t (nat ?mid) = Some (key_at (nat ?mid))" "read_entry data t (nat ?mid) = Some (answer (nat ?mid))"
      using assms(1,2) mid(3,4) by blast+
    have order: "key_rank (key_at i) < key_rank (key_at (nat ?mid))" if "lo \<le> int i" "int i < ?mid" for i
      using that less.prems mid by (intro ranked) auto
    have order2: "key_rank (key_at (nat ?mid)) < key_rank (key_at i)" if "?mid < int i" "int i \<le> hi" for i
      using that less.prems mid by (intro ranked) auto
    consider "btree_key_cmp target (key_at (nat ?mid)) = Equal" | "btree_key_cmp target (key_at (nat ?mid)) = Less"
      | "btree_key_cmp target (key_at (nat ?mid)) = Greater" by (cases "btree_key_cmp target (key_at (nat ?mid))") auto
    then show ?thesis
    proof cases
      case 1
      then have "lookup_between target lo hi = Some (answer (nat ?mid))"
        using less.prems mid by (intro lookup_between_eqI) (auto simp: btree_key_cmp_rank)
      moreover obtain k' v where kv: "answer (nat ?mid) = (k', v)" by (cases "answer (nat ?mid)")
      moreover have "bk_type k' \<noteq> Deleted" using live[of "nat ?mid"] mid kv by simp
      ultimately show ?thesis using False 1 k by (subst aux_search.simps) (simp add: Let_def)
    next
      case 2
      have "aux_search data t target lo (?mid - 1) = Some (lookup_between target lo (?mid - 1))"
        using False less.prems mid by (intro less.hyps) auto
      moreover have "lookup_between target lo hi = lookup_between target lo (?mid - 1)"
      proof (rule lookup_between_cong)
        fix i assume i: "lo \<le> int i" "int i \<le> hi" "key_rank (key_at i) = key_rank target"
        have "i \<noteq> nat ?mid" using 2 i(3) by (auto simp: btree_key_cmp_rank)
        then have "\<not> ?mid < int i" "int i \<noteq> ?mid" using 2 i order2[of i] by (auto simp: btree_key_cmp_rank)
        then show "lo \<le> int i \<and> int i \<le> ?mid - 1" using i by simp
      qed (use less.prems mid in auto)
      ultimately show ?thesis using False 2 k by (subst aux_search.simps) (simp add: Let_def)
    next
      case 3
      have "aux_search data t target (?mid + 1) hi = Some (lookup_between target (?mid + 1) hi)"
        using False less.prems mid by (intro less.hyps) auto
      moreover have "lookup_between target lo hi = lookup_between target (?mid + 1) hi"
      proof (rule lookup_between_cong)
        fix i assume i: "lo \<le> int i" "int i \<le> hi" "key_rank (key_at i) = key_rank target"
        have "i \<noteq> nat ?mid" using 3 i(3) by (auto simp: btree_key_cmp_rank)
        then have "\<not> int i < ?mid" "int i \<noteq> ?mid" using 3 i order[of i] by (auto simp: btree_key_cmp_rank)
        then show "?mid + 1 \<le> int i \<and> int i \<le> hi" using i by simp
      qed (use less.prems mid in auto)
      ultimately show ?thesis using False 3 k by (subst aux_search.simps) (simp add: Let_def)
    qed
  qed
qed

text \<open>The walk visits array slots that hold some position each; a hit is right, a miss says nothing.\<close>

lemma eytz_walk_sound:
  assumes "\<And>i. 1 \<le> i \<Longrightarrow> i \<le> n \<Longrightarrow> \<exists>j o1. 1 \<le> j \<and> j \<le> n \<and> read_aux data (base + (i - 1) * aux_entry_size) = Some (key_at j, o1) \<and>
      read_packed_entry data (unat o1) = Some (answer j)"
    and "1 \<le> i"
  shows "\<exists>r. eytz_walk data base n target i = Some r \<and> (r = None \<or> r = lookup_between target 1 (int n))"
  using assms(2)
proof (induction "n + 1 - i" arbitrary: i rule: less_induct)
  case less
  show ?case
  proof (cases "n < i")
    case True
    then show ?thesis by (subst eytz_walk.simps) simp
  next
    case False
    obtain j o1 where j: "1 \<le> j" "j \<le> n" "read_aux data (base + (i - 1) * aux_entry_size) = Some (key_at j, o1)"
      "read_packed_entry data (unat o1) = Some (answer j)" using assms(1)[of i] less.prems False by auto
    obtain k' v where kv: "answer j = (k', v)" by (cases "answer j")
    have i: "i \<noteq> 0" using less.prems by simp
    have nd: "bk_type k' \<noteq> Deleted" using live[of j] j kv by simp
    have rec: "\<exists>r. eytz_walk data base n target (i * 2) = Some r \<and> (r = None \<or> r = lookup_between target 1 (int n))"
      "\<exists>r. eytz_walk data base n target (i * 2 + 1) = Some r \<and> (r = None \<or> r = lookup_between target 1 (int n))"
      using False less.prems by (intro less.hyps; simp)+
    have hit: "lookup_between target 1 (int n) = Some (answer j)" if "btree_key_cmp target (key_at j) = Equal"
      using that j by (intro lookup_between_eqI) (auto simp: btree_key_cmp_rank)
    have "eytz_walk data base n target i =
        (case btree_key_cmp target (key_at j) of
           Equal \<Rightarrow> Some (Some (answer j)) | Less \<Rightarrow> eytz_walk data base n target (i * 2)
         | Greater \<Rightarrow> eytz_walk data base n target (i * 2 + 1))"
      using False i j(3,4) kv nd by (subst eytz_walk.simps) (simp split: ordering.split)
    then show ?thesis using rec hit by (cases "btree_key_cmp target (key_at j)") simp_all
  qed
qed

end

section \<open>Lookup in a compacted node\<close>

text \<open>The live entries of any run of writes, as the index the arrays of a compacted node describe.\<close>

interpretation node_index: ranked_index
  "\<lambda>i. entry_key (live_entries raw ! (i - 1))" "\<lambda>i. entry_legacy (live_entries raw ! (i - 1))" "length (live_entries raw)"
  for raw :: "btree_entry list"
proof
  fix i j :: nat
  assume h: "1 \<le> i" "i < j" "j \<le> length (live_entries raw)"
  then have "node_key (live_entries raw ! (i - 1)) < node_key (live_entries raw ! (j - 1))"
    using live_entries_sorted[of raw] by (auto simp: sorted_wrt_iff_nth_less)
  then show "key_rank (entry_key (live_entries raw ! (i - 1))) < key_rank (entry_key (live_entries raw ! (j - 1)))"
    by (rule key_rank_entry)
next
  fix i :: nat
  assume "1 \<le> i" "i \<le> length (live_entries raw)"
  then have "live_entries raw ! (i - 1) \<in> set (live_entries raw)" by simp
  from live_entries_not_deleted[OF this] show "bk_type (fst (entry_legacy (live_entries raw ! (i - 1)))) \<noteq> Deleted"
    by (simp add: entry_legacy_def entry_key_def btree_key_from_bpos_def btree_key_new_def)
qed

lemma sorted_aux_nth:
  assumes "i < length es"
  shows "sorted_aux es ! i = (entry_key (es ! i), of_nat (pents_size (take i (map pent_of es))))"
  using assms by (simp add: sorted_aux_def aux_list_def entry_offsets_def)

lemma pents_size_take: "pents_size (take i ps) \<le> pents_size ps"
  by (metis append_take_drop_id le_add1 pents_size_simps(3))

text \<open>Where the entries are, and what is read there.\<close>

lemma read_laid_entry:
  assumes l: "laid data 0 (map pent_of es)" "list_all pent_ok (map pent_of es)" "pents_size (map pent_of es) \<le> 262144"
    and v: "\<forall>e \<in> set es. valued e" and i: "i < length es"
  shows "read_packed_entry data (unat (of_nat (pents_size (take i (map pent_of es))) :: u32)) = Some (entry_legacy (es ! i))"
proof -
  let ?ps = "map pent_of es"
  have "pents_size (take i ?ps) \<le> 262144" using pents_size_take[of i ?ps] l(3) by simp
  then have u: "unat (of_nat (pents_size (take i ?ps)) :: u32) = pents_size (take i ?ps)" by (simp add: unat_of_nat)
  obtain rest where r: "drop (pents_size (take i ?ps)) data = pent_bytes (pent_of (es ! i)) @ rest"
    using laid_nth[OF l(1,2), of i] i by auto
  have "pent_ok (pent_of (es ! i))" "valued (es ! i)" using l(2) v i by (auto simp: list_all_length)
  from read_entry_at[OF r this] show ?thesis unfolding u .
qed

lemma find_map_nth: "map_option (\<lambda>i. f (xs ! (i - 1))) (find (\<lambda>i. P (xs ! (i - 1))) [1..<length xs + 1]) = map_option f (find P xs)"
proof (induction xs)
  case (Cons x xs)
  have "[1..<length (x # xs) + 1] = 1 # map Suc [1..<length xs + 1]"
    using upt_conv_Cons[of 1 "length xs + 2"] by (simp only: map_Suc_upt) simp
  moreover have "find Q (map Suc js) = map_option Suc (find (\<lambda>i. Q (Suc i)) js)" for Q js by (induction js) auto
  moreover have "map_option (\<lambda>i. f ((x # xs) ! (Suc i - 1))) (find (\<lambda>i. P ((x # xs) ! (Suc i - 1))) [1..<length xs + 1])
      = map_option (\<lambda>i. f (xs ! (i - 1))) (find (\<lambda>i. P (xs ! (i - 1))) [1..<length xs + 1])"
  proof -
    have "find (\<lambda>i. P ((x # xs) ! (Suc i - 1))) [1..<length xs + 1] = find (\<lambda>i. P (xs ! (i - 1))) [1..<length xs + 1]"
      by (rule find_cong) (auto simp: nth_Cons')
    moreover have "map_option (\<lambda>i. f ((x # xs) ! (Suc i - 1))) r = map_option (\<lambda>i. f (xs ! (i - 1))) r"
      if "r = find (\<lambda>i. P (xs ! (i - 1))) [1..<length xs + 1]" for r
    proof (cases r)
      case (Some a)
      then have "1 \<le> a" using that by (auto simp: find_Some_iff eq_commute[of "Some _"] simp del: upt_Suc)
      then show ?thesis using Some by (simp add: nth_Cons')
    qed simp
    ultimately show ?thesis by simp
  qed
  ultimately show ?case using Cons.IH by (simp add: option.map_comp comp_def del: upt_Suc)
qed simp

text \<open>
  Lookup in a set with its arrays in place: the answer is the live entry with the target's address,
  snapshot and type.
\<close>

lemma search_first_set:
  assumes l: "laid data 0 (map pent_of (live_entries raw))" "list_all pent_ok (map pent_of (live_entries raw))"
      "pents_size (map pent_of (live_entries raw)) \<le> 262144" "length (live_entries raw) \<le> 10922"
    and v: "\<forall>e \<in> set (live_entries raw). valued e"
    and a1: "aux_laid data ds (sorted_aux (live_entries raw))" and ds: "ds = pents_size (map pent_of (live_entries raw))"
    and t: "t = \<lparr>bs_data = 0, bs_end = ds, bs_aux = ds, bs_size = of_nat (length (live_entries raw)), bs_extra = ex\<rparr>"
    and a2: "ex = 0 \<or> aux_laid data (unat ex) (eytz_aux (live_entries raw))"
  shows "search_set data True t target =
    Some (map_option entry_legacy (find (\<lambda>e. btree_key_eq (entry_key e) target) (live_entries raw)))"
proof -
  define es where "es = live_entries raw"
  let ?ps = "map pent_of es" and ?n = "length es"
  note es = es_def[symmetric]
  define L where "L = node_index.lookup_between raw target 1 (int (length (live_entries raw)))"
  have n: "?n \<le> 10922" using l(4) by (simp add: es)
  have rd: "read_packed_entry data (unat (of_nat (pents_size (take i ?ps)) :: u32)) = Some (entry_legacy (es ! i))" if "i < ?n" for i
    using read_laid_entry[OF l(1-3) v] that by (simp add: es)
  have ax: "read_aux data (ds + i * 25) = Some (entry_key (es ! i), of_nat (pents_size (take i ?ps)))" if "i < ?n" for i
    using read_aux_laid[OF a1, of i] sorted_aux_nth[OF that] that by (simp add: es)
  have goal: "map_option entry_legacy (find (\<lambda>e. btree_key_eq (entry_key e) target) es) = L"
  proof -
    have "btree_key_eq a b \<longleftrightarrow> key_rank a = key_rank b" for a b
      using btree_key_cmp_rank[of a b] by (auto simp: btree_key_eq_def btree_key_cmp_def ord_cmp_def split: if_splits)
    moreover have "nat (int ?n + 1) = ?n + 1" by simp
    ultimately show ?thesis
      unfolding L_def node_index.lookup_between_def unfolding es
      using find_map_nth[of entry_legacy es "\<lambda>e. key_rank (entry_key e) = key_rank target"] by (simp only: nat_1 One_nat_def)
  qed
  show ?thesis
  proof (cases "?n = 0")
    case True
    then show ?thesis by (simp add: search_set_def t es)
  next
    case False
    have sz: "bs_size t \<noteq> 0" "unat (bs_size t) = ?n" using n False by (simp_all add: t es unat_of_nat word_unat_eq_iff)
    have aux: "0 < bs_aux t" using False by (cases es) (simp_all add: t ds es)
    have srch: "aux_search data t target 1 (int (length (live_entries raw))) = Some L"
    proof (unfold L_def, rule node_index.aux_search_finds)
      fix i :: nat assume "1 \<le> i" "i \<le> length (live_entries raw)"
      then have i: "1 \<le> i" "i \<le> ?n" by (simp_all add: es)
      then show "read_aux_key data t i = Some (entry_key (live_entries raw ! (i - 1)))"
        using ax[of "i - 1"] unfolding es by (simp add: read_aux_key_def t aux_entry_size_def)
      have a: "read_aux data (ds + (i - 1) * 25) = Some (entry_key (es ! (i - 1)), of_nat (pents_size (take (i - 1) ?ps)))"
        using ax[of "i - 1"] i by simp
      then have "ds + (i - 1) * 25 + 25 \<le> length data"
        "(le_word (take 4 (drop 21 (drop (ds + (i - 1) * 25) data))) :: u32) = of_nat (pents_size (take (i - 1) ?ps))"
        by (auto simp: read_aux_def aux_entry_size_def Let_def split: if_splits)
      then have "entry_offset data t i = Some (unat (of_nat (pents_size (take (i - 1) ?ps)) :: u32))"
        using i aux by (simp add: entry_offset_def Let_def t aux_entry_size_def add.commute)
      then show "read_entry data t i = Some (entry_legacy (live_entries raw ! (i - 1)))"
        using rd[of "i - 1"] i unfolding es by (simp add: read_entry_def)
    qed simp_all
    have "\<exists>r. (if 0 < ex then eytz_walk data (unat ex) (length (live_entries raw)) target 1 else Some None) = Some r \<and> (r = None \<or> r = L)"
    proof (cases "0 < ex")
      case True
      then have a2: "aux_laid data (unat ex) (eytz_aux es)" using a2 by (auto simp: es)
      have "\<exists>r. eytz_walk data (unat ex) (length (live_entries raw)) target 1 = Some r \<and> (r = None \<or> r = L)"
      proof (unfold L_def, rule node_index.eytz_walk_sound)
        fix i :: nat assume "1 \<le> i" "i \<le> length (live_entries raw)"
        then have i: "1 \<le> i" "i \<le> ?n" by (simp_all add: es)
        have "i - 1 < length (eytz_aux es)" using i by (simp add: eytz_aux_subset(2))
        then have "eytz_aux es ! (i - 1) \<in> set (sorted_aux es)" by (rule subsetD[OF eytz_aux_subset(1) nth_mem])
        then obtain j where j: "j < ?n" "eytz_aux es ! (i - 1) = sorted_aux es ! j" by (auto simp: in_set_conv_nth)
        have "read_aux data (unat ex + (i - 1) * 25) = Some (eytz_aux es ! (i - 1))"
          using read_aux_laid[OF a2, of "i - 1"] eytz_aux_subset(2)[of es] i by simp
        then show "\<exists>j o1. 1 \<le> j \<and> j \<le> length (live_entries raw) \<and>
            read_aux data (unat ex + (i - 1) * aux_entry_size) = Some (entry_key (live_entries raw ! (j - 1)), o1) \<and>
            read_packed_entry data (unat o1) = Some (entry_legacy (live_entries raw ! (j - 1)))"
          using j rd[of j] sorted_aux_nth[OF j(1)] unfolding es
          by (intro exI[of _ "Suc j"] exI[of _ "of_nat (pents_size (take j ?ps))"]) (simp add: aux_entry_size_def)
      qed simp
      then show ?thesis using True by simp
    qed simp
    then obtain r where r: "(if 0 < ex then eytz_walk data (unat ex) (length (live_entries raw)) target 1 else Some None) = Some r"
      "r = None \<or> r = L" by blast
    have x: "bs_extra t = ex" "unat (bs_size t) = length (live_entries raw)" using sz by (simp_all add: t es)
    have "search_set data True t target = Some L"
      using sz(1) aux r srch unfolding search_set_def Let_def x by (auto split: option.split)
    then show ?thesis by (simp add: es goal)
  qed
qed

lemma search_set_empty [simp]: "search_set data b bset_empty target = Some None"
  by (simp add: search_set_def bset_empty_def)

lemma search_compacted:
  assumes c: "compacted n (live_entries raw)" and v: "\<forall>e \<in> set (live_entries raw). valued e"
    and fit: "pents_size (map pent_of (live_entries raw)) + 25 * length (live_entries raw) \<le> nd_size n"
    and extra: "length (live_entries raw) < 16 \<or> pents_size (map pent_of (live_entries raw)) + 25 * length (live_entries raw) < 65536"
  shows "node_search n target =
    Some (map_option entry_legacy (find (\<lambda>e. btree_key_eq (entry_key e) target) (live_entries raw)))"
proof -
  let ?es = "live_entries raw"
  let ?ds = "pents_size (map pent_of ?es)"
  let ?base = "?ds + 25 * length ?es"
  let ?ex = "if 16 \<le> length ?es \<and> ?base + 25 * length ?es \<le> nd_size n then of_nat ?base else 0 :: u16"
  let ?t = "\<lparr>bs_data = 0, bs_end = ?ds, bs_aux = ?ds, bs_size = of_nat (length ?es), bs_extra = ?ex\<rparr>"
  have sets: "nd_sets n = [?t, bset_empty, bset_empty]" and wf: "node_wf n (map pent_of ?es) []"
    and a1: "aux_laid (nd_data n) ?ds (sorted_aux ?es)"
    and a2: "16 \<le> length ?es \<Longrightarrow> ?base + 25 * length ?es \<le> nd_size n \<Longrightarrow> aux_laid (nd_data n) ?base (eytz_aux ?es)"
    using c fit unfolding compacted_def Let_def by auto
  have l: "laid (nd_data n) 0 (map pent_of ?es)" "list_all pent_ok (map pent_of ?es)"
    using wf by (auto elim!: node_wfE simp: set_holds_def sets)
  have sz: "?ds \<le> 262144" "length ?es \<le> 10922" using node_wf_sizes[OF wf] wf by (auto elim!: node_wfE)
  have u16: "unat (of_nat k :: u16) = k" if "k < 65536" for k using that by (simp add: unat_of_nat)
  have "?ex = 0 \<or> aux_laid (nd_data n) (unat ?ex) (eytz_aux ?es)"
    using a2 extra u16[of ?base] by (auto simp del: of_nat_add of_nat_mult)
  from search_first_set[OF l sz v a1 refl refl this, of target]
  show ?thesis by (simp add: node_search_def sets split: option.split)
qed

end
