(* ===== verification/NodeDelete.thy ===== *)
theory NodeDelete
  imports NodeSearch
begin

text \<open>
  Deletion: when an entry counts as live, and what a deletion does to a well-formed node. Nodes that
  have only been appended to (\<open>fresh\<close>) are the concrete instances.
\<close>

section \<open>Live entries\<close>

abbreviation pent_slot :: "u64 \<Rightarrow> u32 \<Rightarrow> pent \<Rightarrow> bool" where
  "pent_slot va sid x \<equiv> at_slot va sid (fst x)"

abbreviation pent_type :: "pent \<Rightarrow> key_type" where
  "pent_type x \<equiv> fst (snd x)"

definition pent_valued :: "pent \<Rightarrow> bool" where
  "pent_valued x \<longleftrightarrow> 8 \<le> length (snd (snd x))"

lemma unpack_entry_at:
  assumes at: "drop off data = pent_bytes x @ rest" and ok: "pent_ok x" "pent_valued x"
  shows "\<exists>k pa v. packed_at data off = Some k \<and>
    bkey_unpack bkey_format_current k = Some (fst x, key_type_u8 (pent_type x), pa, v)"
proof -
  obtain k where k: "length (kwords k) = 3" "vbytes k = snd (snd x)" "unat (pk_u64s k) * 8 = pent_size x"
    "pk_type k = key_type_u8 (pent_type x)" "fields_at bkey_format_current (kwords k) 0 (pos_fields (fst x))"
    "pent_bytes x = concat (map (le_bytes 8) (kwords k)) @ snd (snd x)"
    by (rule pent_packed[OF ok(1)])
  let ?k = "\<lparr>kwords = kwords k, vbytes = snd (snd x) @ rest\<rparr>"
  have d: "drop off data = concat (map (le_bytes 8) (kwords k)) @ (snd (snd x) @ rest)" using at k(6) by simp
  have pk: "packed_at data off = Some ?k" by (rule packed_at_words[OF d k(1)])
  have "pk_type ?k = key_type_u8 (pent_type x)" using k(4) by (simp add: pk_type_def)
  then have "bkey_unpack bkey_format_current ?k = Some (fst x, key_type_u8 (pent_type x), bch_val_of_bytes (snd (snd x) @ rest))"
    using unpack_at(1)[of ?k "fst x"] k(1,5) ok(2) by (simp add: bkey_unpack_def pent_valued_def)
  with pk show ?thesis by (metis prod.exhaust)
qed

lemma run_live:
  "run_entries (\<lambda>x found. if pent_slot va sid x then
       (case pent_type x of Normal \<Rightarrow> Some (Inl True) | Deleted \<Rightarrow> Some (Inr False) | Whiteout \<Rightarrow> Some (Inl found))
     else Some (Inl found)) xs s =
   (if \<exists>x \<in> set xs. pent_slot va sid x \<and> pent_type x = Deleted then Some (Inr False)
    else Some (Inl (s \<or> (\<exists>x \<in> set xs. pent_slot va sid x \<and> pent_type x = Normal))))"
  by (induction xs arbitrary: s) (auto split: key_type.splits)

text \<open>
  Live means: some normal entry at the slot and no deleted one, whatever their order.
\<close>

lemma has_live_wf:
  assumes wf: "node_wf n xs ys" and v: "\<forall>x \<in> set (xs @ ys). pent_valued x"
  shows "has_live_entry n va sid = Some ((\<exists>x \<in> set (xs @ ys). pent_slot va sid x \<and> pent_type x = Normal) \<and>
    \<not> (\<exists>x \<in> set (xs @ ys). pent_slot va sid x \<and> pent_type x = Deleted))"
proof -
  let ?g = "\<lambda>x found. if pent_slot va sid x then
       (case pent_type x of Normal \<Rightarrow> Some (Inl True) | Deleted \<Rightarrow> Some (Inr False) | Whiteout \<Rightarrow> Some (Inl found))
     else Some (Inl found :: bool + bool)"
  have "scans (nd_data n) (\<lambda>cur found.
          case packed_at (nd_data n) cur of None \<Rightarrow> None | Some k \<Rightarrow>
          (case bkey_unpack bkey_format_current k of None \<Rightarrow> None | Some (p, ty, pa, v) \<Rightarrow>
           (if at_slot va sid p
            then (case key_type_from_u8 ty of
                    None \<Rightarrow> None
                  | Some Normal \<Rightarrow> Some (Inl True)
                  | Some Deleted \<Rightarrow> Some (Inr False)
                  | Some Whiteout \<Rightarrow> Some (Inl found))
            else Some (Inl found)))) ?g (set (xs @ ys))"
    unfolding scans_def
  proof (intro ballI allI impI)
    fix x off rest found
    assume "x \<in> set (xs @ ys)" and at: "drop off (nd_data n) = pent_bytes x @ rest" and ok: "pent_ok x"
    with v have "pent_valued x" by blast
    from unpack_entry_at[OF at ok this] obtain k pa v where
      "packed_at (nd_data n) off = Some k" "bkey_unpack bkey_format_current k = Some (fst x, key_type_u8 (pent_type x), pa, v)" by blast
    then show "(case packed_at (nd_data n) off of None \<Rightarrow> None | Some k \<Rightarrow>
          (case bkey_unpack bkey_format_current k of None \<Rightarrow> None | Some (p, ty, pa, v) \<Rightarrow>
           (if at_slot va sid p
            then (case key_type_from_u8 ty of
                    None \<Rightarrow> None
                  | Some Normal \<Rightarrow> Some (Inl True)
                  | Some Deleted \<Rightarrow> Some (Inr False)
                  | Some Whiteout \<Rightarrow> Some (Inl found))
            else Some (Inl found)))) = ?g x found"
      by (simp split: key_type.split)
  qed
  from scan_all_run[OF wf this, of False] show ?thesis by (simp only: has_live_entry_def run_live) (auto split: if_split)
qed

section \<open>Nodes with only incremental entries\<close>

definition fresh :: "node \<Rightarrow> pent list \<Rightarrow> bool" where
  "fresh n ys \<longleftrightarrow> (\<exists>t1. nd_sets n = [bset_empty, t1, bset_empty] \<and> bs_data t1 = 0) \<and> node_wf n [] ys"

lemma fresh_wf: "fresh n ys \<Longrightarrow> node_wf n [] ys"
  by (simp add: fresh_def)

lemma fresh_new: "fresh (node_new lvl) []"
proof -
  have "nd_sets (node_new lvl) = [bset_empty, bset_empty, bset_empty]" by (simp add: node_new_def numeral_3_eq_3)
  then show ?thesis using node_wf_new by (simp add: fresh_def bset_empty_def)
qed

lemma pents_size_mod8: "list_all pent_ok xs \<Longrightarrow> pents_size xs mod 8 = 0"
  by (induction xs) (auto simp: pent_ok_def pent_size_def mod_add_eq[symmetric])

text \<open>Such a node takes entries as long as they fit one behind the other.\<close>

lemma fresh_insert:
  assumes f: "fresh n ys" and e: "pent_ok (pent_of e)" and room: "pents_size ys + pent_size (pent_of e) \<le> nd_size n"
  shows "\<exists>n'. node_insert_entry n e = Some (True, n') \<and> fresh n' (ys @ [pent_of e]) \<and>
    nd_key_count n' = nd_key_count n + 1 \<and> nd_whiteouts n' = nd_whiteouts n \<and> nd_size n' = nd_size n \<and> nd_level n' = nd_level n"
proof -
  have wf: "node_wf n [] ys" using f by (simp add: fresh_def)
  obtain t1 where t: "nd_sets n = [bset_empty, t1, bset_empty]" "bs_data t1 = 0" using f by (auto simp: fresh_def)
  have h: "list_all pent_ok ys" "bs_end t1 = pents_size ys" "bs_aux t1 = 0"
    using wf t by (auto elim!: node_wfE simp: set_holds_def)
  have "(pents_size ys + 7) div 8 * 8 = pents_size ys" using pents_size_mod8[OF h(1)] by (auto elim!: dvdE simp flip: dvd_eq_mod_eq_0)
  then have free: "calc_free_start (nd_sets n) = pents_size ys"
    by (simp add: calc_free_start_def t h aux_end_def bset_empty_def)
  let ?es = "(bkey_u64s + div_ceil8 (length (key_value_to_bytes (evalue e)))) * 8"
  have es: "?es = pent_size (pent_of e)" by (simp add: pent_size_of bkey_u64s_def)
  have mr: "make_room n ?es = (n, Some (pents_size ys))" unfolding make_room_def Let_def free es using room by simp
  have data: "pents_size ys + length (pent_bytes (pent_of e)) \<le> length (nd_data n)"
    using wf room e by (auto elim!: node_wfE)
  let ?t = "t1\<lparr>bs_end := pents_size ys + pent_size (pent_of e), bs_size := bs_size t1 + 1\<rparr>"
  let ?n = "n\<lparr>nd_data := put_bytes (pents_size ys) (pent_bytes (pent_of e)) (nd_data n), nd_sets := [bset_empty, ?t, bset_empty],
      nd_key_count := nd_key_count n + 1\<rparr>"
  have t0: "t1\<lparr>bs_data := 0, bs_end := 0\<rparr> = t1" if "pents_size ys = 0" using that t(2) h(2) by simp
  have ap: "append_to_set 1 (pents_size ys) (\<lambda>d o1. write_entry_bytes d o1 e) n =
      Some (n\<lparr>nd_data := put_bytes (pents_size ys) (pent_bytes (pent_of e)) (nd_data n), nd_sets := [bset_empty, ?t, bset_empty]\<rparr>)"
    using t h data t0 e by (simp add: append_to_set_def Let_def write_entry_bytes_eq)
  have "node_insert_entry n e = Some (True, ?n)"
    by (simp add: node_insert_entry_def Let_def mr[simplified] active_inc_set_wf[OF wf] ap[simplified])
  moreover have "node_wf ?n [] (ys @ [pent_of e])"
    using insert_entry_wf[OF wf e] calculation by auto
  ultimately show ?thesis using t(2) by (intro exI[of _ ?n]) (simp add: fresh_def)
qed

section \<open>Deletion with room for the tombstone\<close>

text \<open>What the entries \<open>zs\<close> of a node stand for: the live entry of each slot.\<close>

definition node_map :: "u8 \<Rightarrow> pent list \<Rightarrow> nat \<Rightarrow> btree_entry option" where
  "node_map lvl zs = live_at (map (pent_entry lvl) zs)"

lemma live_at_snoc: "live_at (es @ [e]) k =
    (if node_key e = k then (if ekey_type e = Deleted then None else Some e) else live_at es k)"
  by (simp add: live_at_def last_written_def)

lemma live_at_live_entries: "live_at (live_entries es) k = live_at es k"
proof -
  have "live_at (live_entries es) k = find (\<lambda>e. node_key e = k) (live_entries (live_entries es))"
    by (rule find_live_entries[symmetric])
  also have "live_entries (live_entries es) = live_entries es"
    by (rule live_entries_id[OF live_entries_sorted live_entries_not_deleted])
  finally show ?thesis by (simp add: find_live_entries)
qed

lemma node_map_snoc: "node_map lvl (zs @ [x]) k =
    (if bpos_key (fst x) = k then (if pent_type x = Deleted then None else Some (pent_entry lvl x)) else node_map lvl zs k)"
  by (simp add: node_map_def live_at_snoc pent_entry_def)

text \<open>Compaction changes nothing of what the entries stand for.\<close>

lemma node_compact_map:
  assumes wf: "node_wf n xs ys"
  shows "\<exists>n' zs. node_compact n = Some n' \<and> node_wf n' zs [] \<and> nd_level n' = nd_level n \<and> nd_size n' = nd_size n \<and>
    node_map (nd_level n) zs = node_map (nd_level n) (xs @ ys) \<and> set zs \<subseteq> set (xs @ ys)"
proof -
  let ?raw = "map (pent_entry (nd_level n)) (xs @ ys)"
  obtain n' where n': "node_compact n = Some n'" "compacted n' (live_entries ?raw)" "nd_level n' = nd_level n" "nd_size n' = nd_size n"
    using node_compact_wf[OF wf refl] by blast
  let ?zs = "map pent_of (live_entries ?raw)"
  have "node_wf n' ?zs []" using n'(2) by (simp add: compacted_def Let_def)
  moreover have "node_map (nd_level n) ?zs = node_map (nd_level n) (xs @ ys)"
    unfolding node_map_def live_pents(4)[OF wf refl] by (rule ext) (rule live_at_live_entries)
  moreover have "set ?zs \<subseteq> set (xs @ ys)"
  proof
    fix z assume "z \<in> set ?zs"
    then obtain e where e: "e \<in> set (live_entries ?raw)" "z = pent_of e" by auto
    have "e \<in> set ?raw" by (rule subsetD[OF set_live_entries e(1)])
    then have "e \<in> pent_entry (nd_level n) ` set (xs @ ys)" by (simp only: list.set_map)
    then obtain x where "x \<in> set (xs @ ys)" "z = pent_of (pent_entry (nd_level n) x)" using e(2) by blast
    moreover from this have "pent_ok x" using wf by (auto elim!: node_wfE simp: set_holds_def list_all_iff)
    ultimately show "z \<in> set (xs @ ys)" by (simp add: pent_of_entry)
  qed
  ultimately show ?thesis using n' by blast
qed

definition tombstone :: "btree_key \<Rightarrow> pent" where
  "tombstone t = legacy_pent (btree_key_new (vaddr t) (snapshot_id t) Deleted) \<lparr>paddr = 0, ver = 0\<rparr>"

lemma tombstone_simps [simp]: "fst (tombstone t) = target_bpos t" "pent_type (tombstone t) = Deleted"
    "pent_ok (tombstone t)" "pent_size (tombstone t) = 32" "pent_valued (tombstone t)"
  by (simp_all add: tombstone_def legacy_pent_def target_bpos_def btree_key_new_def pent_valued_def pent_ok_def pent_size_def)

lemma delete_appends:
  assumes wf: "node_wf n xs ys" and live: "has_live_entry n (vaddr t) (snapshot_id t) = Some True"
    and mr: "make_room n entry_size = (n1, Some free)"
  shows "\<exists>n2. delete_key n t = map_option (Pair True) (maybe_compact n2) \<and> node_wf n2 xs (ys @ [tombstone t]) \<and>
    nd_key_count n2 = nd_key_count n \<and> nd_whiteouts n2 = nd_whiteouts n + 1 \<and> nd_level n2 = nd_level n"
proof -
  note m = make_room_wf[OF wf mr, of free]
  let ?k = "btree_key_new (vaddr t) (snapshot_id t) Deleted" and ?v = "\<lparr>paddr = 0, ver = 0\<rparr> :: bch_val"
  have wr: "write_entry d o1 ?k ?v = (if o1 + pent_size (tombstone t) \<le> length d
      then Some (put_bytes o1 (pent_bytes (tombstone t)) d, pent_size (tombstone t)) else None)" for d o1
    by (simp add: write_entry_eq tombstone_def)
  have wf1: "node_wf n1 xs ys" and free: "free = calc_free_start (nd_sets n1)" "free + pent_size (tombstone t) \<le> nd_size n1"
    using m by (simp_all add: entry_size_def bkey_u64s_def)
  obtain n2 where n2: "append_to_set 1 free (\<lambda>d o1. write_entry d o1 ?k ?v) n1 = Some n2"
      "node_wf n2 xs (ys @ [tombstone t])" "nd_level n2 = nd_level n1" "nd_key_count n2 = nd_key_count n1"
      "nd_whiteouts n2 = nd_whiteouts n1"
    using append_entry_wf[OF wf1 free tombstone_simps(3) wr] by blast
  let ?n = "n2\<lparr>nd_whiteouts := nd_whiteouts n2 + 1\<rparr>"
  have "node_wf ?n xs (ys @ [tombstone t])" using n2(2) by (simp add: node_wf_def)
  then show ?thesis
    using n2 m live mr by (intro exI[of _ ?n]) (simp add: delete_key_def Let_def active_inc_set_wf[OF wf])
qed

text \<open>
  A deletion that finds the entry live and has room takes the entry's slot out of the node and
  leaves every other slot as it was, whether or not it ends in a compaction.
\<close>

lemma delete_removes:
  assumes wf: "node_wf n xs ys" and live: "has_live_entry n (vaddr t) (snapshot_id t) = Some True"
    and mr: "make_room n entry_size = (n1, Some free)"
  shows "\<exists>n' zs ws. delete_key n t = Some (True, n') \<and> node_wf n' zs ws \<and> nd_level n' = nd_level n \<and>
    (\<forall>k. node_map (nd_level n) (zs @ ws) k =
       (if k = bpos_key (target_bpos t) then None else node_map (nd_level n) (xs @ ys) k))"
proof -
  obtain n2 where n2: "delete_key n t = map_option (Pair True) (maybe_compact n2)" "node_wf n2 xs (ys @ [tombstone t])"
    "nd_level n2 = nd_level n" using delete_appends[OF assms] by blast
  have map: "node_map (nd_level n) (xs @ ys @ [tombstone t]) k =
      (if k = bpos_key (target_bpos t) then None else node_map (nd_level n) (xs @ ys) k)" for k
    using node_map_snoc[of "nd_level n" "xs @ ys" "tombstone t" k] by auto
  show ?thesis
  proof (cases "0 < nd_key_count n2 \<and> nd_key_count n2 div whiteout_threshold_fraction \<le> nd_whiteouts n2")
    case True
    obtain n' zs where "node_compact n2 = Some n'" "node_wf n' zs []" "nd_level n' = nd_level n2"
      "node_map (nd_level n2) zs = node_map (nd_level n2) (xs @ ys @ [tombstone t])"
      using node_compact_map[OF n2(2)] by blast
    then show ?thesis using n2 True map by (intro exI[of _ n'] exI[of _ zs] exI[of _ "[]"]) (simp add: maybe_compact_def)
  next
    case False
    then have "maybe_compact n2 = Some n2" by (auto simp: maybe_compact_def)
    then show ?thesis using n2 map by (intro exI[of _ n2] exI[of _ xs] exI[of _ "ys @ [tombstone t]"]) simp
  qed
qed

text \<open>
  A slot that holds a deletion mark cannot be deleted again before the next compaction, even when an
  entry written after the mark is live.
\<close>

lemma delete_refused:
  assumes "node_wf n xs ys" "\<forall>x \<in> set (xs @ ys). pent_valued x"
    and "x \<in> set (xs @ ys)" "fst x = target_bpos t" "pent_type x = Deleted"
  shows "delete_key n t = Some (False, n)"
proof -
  have "pent_slot (vaddr t) (snapshot_id t) x" using assms(4) by (simp add: at_slot_def target_bpos_def)
  then have "has_live_entry n (vaddr t) (snapshot_id t) = Some False"
    using has_live_wf[OF assms(1,2), of "vaddr t" "snapshot_id t"] assms(3,5) by auto
  then show ?thesis by (simp add: delete_key_def Let_def)
qed

end
