(* ===== verification/NodeSplit.thy ===== *)
theory NodeSplit
  imports NodeDelete
begin

text \<open>
  Splitting: where the split point can fall, what the two halves hold, and their key ranges.
\<close>

section \<open>The split point\<close>

lemma find_SomeD: "find P xs = Some x \<Longrightarrow> P x \<and> x \<in> set xs"
  by (auto simp: find_Some_iff)

lemma sum_list_take_mono: "i \<le> j \<Longrightarrow> sum_list (take i xs) \<le> sum_list (take j (xs :: nat list))"
proof -
  assume "i \<le> j"
  then have "take j xs = take i xs @ take (j - i) (drop i xs)" by (metis le_add_diff_inverse take_add)
  then show ?thesis by simp
qed

lemma predict_left_mono: "i \<le> j \<Longrightarrow> fst (predict_split_bias es i) \<le> fst (predict_split_bias es j)"
  using sum_list_take_mono[of i j "map split_entry_bytes es"] by (simp add: predict_split_bias_def take_map add_mono)

text \<open>
  The left half only grows with the split point, so the correction for a left half that is too large
  never finds a better point.
\<close>

lemma shift_right_fails:
  assumes "max_side < fst (predict_split_bias es m)"
  shows "find (\<lambda>i. fst (predict_split_bias es i) \<le> max_side) [m + 1..<hi + 1] = None"
  unfolding find_None_iff
proof (intro notI, elim exE conjE)
  fix i assume "i \<in> set [m + 1..<hi + 1]" "fst (predict_split_bias es i) \<le> max_side"
  then show False using assms predict_left_mono[of m i es] by auto
qed

lemma balanced_split_bounds:
  assumes "2 \<le> length es"
  shows "\<exists>m. find_balanced_split es nsize = Some (m, entry_key (es ! m)) \<and> 0 < m \<and> m < length es \<and>
    length es div 5 \<le> m \<and> m \<le> length es - length es div 5"
proof -
  let ?n = "length es"
  let ?us = "map entry_eff_u64s es"
  define m0 where "m0 = (case accumulate_split ?us (balance_target_u64s (sum_list ?us)) of None \<Rightarrow> ?n div 2 | Some i \<Rightarrow> i)"
  define m1 where "m1 = (case find_shard_split es of None \<Rightarrow> m0 | Some i \<Rightarrow> i)"
  define m2 where "m2 = clamp m1 (?n div 5) (?n - ?n div 5)"
  have m0: "0 < m0" "m0 < ?n" using assms by (auto simp: m0_def accumulate_split_def split: option.split dest!: find_SomeD)
  have m1: "0 < m1" "m1 < ?n"
    using m0 by (auto simp: m1_def find_shard_split_def Let_def split: option.split if_splits dest!: find_SomeD)
  have m2: "0 < m2" "m2 < ?n" "?n div 5 \<le> m2" "m2 \<le> ?n - ?n div 5" using m1 assms by (auto simp: m2_def clamp_def)
  have "(if 0 < nsize \<and> nsize * 3 div 4 < fst (predict_split_bias es m2) \<and> m2 < ?n - ?n div 5
      then (case find (\<lambda>i. fst (predict_split_bias es i) \<le> nsize * 3 div 4) [m2 + 1..<?n - ?n div 5 + 1] of
              None \<Rightarrow> m2 | Some i \<Rightarrow> i) else m2) = m2"
    using shift_right_fails[of "nsize * 3 div 4" es m2 "?n - ?n div 5"] by auto
  then have "find_balanced_split es nsize = Some (m2, entry_key (es ! m2))"
    using assms m2(2) unfolding find_balanced_split_def Let_def m0_def[symmetric] m1_def[symmetric] m2_def[symmetric] by simp
  then show ?thesis using m2 by blast
qed

section \<open>The two halves\<close>

lemma pack_half_wf:
  assumes ok: "list_all pent_ok (map pent_of es)" and sz: "pents_size (map pent_of es) \<le> nd_size n" "length es \<le> 10922"
    and n: "nd_size n \<le> length (nd_data n)" "nd_size n \<le> default_node_size"
  shows "\<exists>n'. pack_half n es = Some n' \<and> node_wf n' (map pent_of es) [] \<and> nd_level n' = nd_level n \<and> nd_size n' = nd_size n \<and>
    unat (nd_key_count n') = length es \<and> (es \<noteq> [] \<longrightarrow> nd_min n' = pos (hd es) \<and> nd_max n' = pos (last es))"
proof -
  let ?ps = "map pent_of es"
  let ?d = "put_bytes 0 (concat (map pent_bytes ?ps)) (nd_data n)"
  have fit: "0 + pents_size ?ps \<le> length (nd_data n)" using sz n by simp
  have w: "write_entries (nd_data n) 0 es = Some (?d, entry_offsets 0 ?ps, pents_size ?ps)"
    using write_entries_eq[OF ok fit] by simp
  have d: "laid ?d 0 ?ps" "length ?d = length (nd_data n)" using laid_put[OF ok fit] fit length_pents_bytes[OF ok] by simp_all
  let ?t = "\<lparr>bs_data = 0, bs_end = pents_size ?ps, bs_aux = 0, bs_size = of_nat (length es), bs_extra = 0\<rparr>"
  have "set_holds ?d ?t ?ps" using d(1) ok sz(2) by (simp add: set_holds_def unat_of_nat)
  then have "node_wf (n\<lparr>nd_data := ?d, nd_sets := [?t, bset_empty, bset_empty], nd_key_count := c, nd_min := a, nd_max := b\<rparr>) ?ps []" for c a b
    using sz n d(2) by (simp add: node_wf_def) (simp add: bset_empty_def)
  then have wf: "node_wf (n\<lparr>nd_data := ?d, nd_sets := [?t, bset_empty, bset_empty], nd_key_count := c\<rparr>) ?ps []"
    "node_wf (n\<lparr>nd_data := ?d, nd_sets := [?t, bset_empty, bset_empty], nd_key_count := c, nd_min := a, nd_max := b\<rparr>) ?ps []" for c a b
    by (simp_all add: node_wf_def)
  have "unat (of_nat (length es) :: u32) = length es" using sz(2) by (simp add: unat_of_nat)
  then show ?thesis
    using wf by (cases "es = []") (simp_all add: pack_half_def w[simplified] Let_def)
qed

lemma split_wf:
  assumes wf: "node_wf n xs ys" and es: "es = live_entries (map (pent_entry (nd_level n)) (xs @ ys))" and two: "2 \<le> length es"
  shows "\<exists>mid l r. node_split n = Some (Some (entry_key (es ! mid), l, r)) \<and> 0 < mid \<and> mid < length es \<and>
    length es div 5 \<le> mid \<and> mid \<le> length es - length es div 5 \<and>
    node_wf l (map pent_of (take mid es)) [] \<and> node_wf r (map pent_of (drop mid es)) [] \<and>
    nd_level l = nd_level n \<and> nd_level r = nd_level n \<and>
    nd_min l = pos (hd es) \<and> nd_max l = pos (es ! (mid - 1)) \<and> nd_min r = pos (es ! mid) \<and> nd_max r = pos (last es)"
proof -
  note lp = live_pents[OF wf es]
  obtain mid where mid: "find_balanced_split es (nd_size n) = Some (mid, entry_key (es ! mid))" "0 < mid" "mid < length es"
    "length es div 5 \<le> mid" "mid \<le> length es - length es div 5"
    using balanced_split_bounds[OF two] by blast
  have b: "nd_size n \<le> length (nd_data n)" "nd_size n \<le> default_node_size" using wf by (auto simp: node_wf_def)
  have parts: "list_all pent_ok (map pent_of (take mid es))" "list_all pent_ok (map pent_of (drop mid es))"
    "pents_size (map pent_of (take mid es)) + pents_size (map pent_of (drop mid es)) = pents_size (map pent_of es)"
    using lp(1) by (auto simp: list_all_iff dest: in_set_takeD in_set_dropD)
      (metis append_take_drop_id map_append pents_size_simps(3))
  have l: "pents_size (map pent_of (take mid es)) \<le> nd_size n" "length (take mid es) \<le> 10922" using parts(3) lp(2,3) by simp_all
  have r: "pents_size (map pent_of (drop mid es)) \<le> nd_size (node_new (nd_level n))" "length (drop mid es) \<le> 10922"
    using parts(3) lp(2,3) b by (simp_all add: node_new_def)
  have rn: "nd_size (node_new (nd_level n)) \<le> length (nd_data (node_new (nd_level n)))"
    "nd_size (node_new (nd_level n)) \<le> default_node_size" "nd_level (node_new (nd_level n)) = nd_level n" by (simp_all add: node_new_def)
  obtain l' where l': "pack_half n (take mid es) = Some l'" "node_wf l' (map pent_of (take mid es)) []" "nd_level l' = nd_level n"
    "take mid es \<noteq> [] \<longrightarrow> nd_min l' = pos (hd (take mid es)) \<and> nd_max l' = pos (last (take mid es))"
    using pack_half_wf[OF parts(1) l b] by blast
  obtain r' where r': "pack_half (node_new (nd_level n)) (drop mid es) = Some r'" "node_wf r' (map pent_of (drop mid es)) []"
    "nd_level r' = nd_level (node_new (nd_level n))"
    "drop mid es \<noteq> [] \<longrightarrow> nd_min r' = pos (hd (drop mid es)) \<and> nd_max r' = pos (last (drop mid es))"
    using pack_half_wf[OF parts(2) r rn(1,2)] by blast
  have ends: "hd (take mid es) = hd es" "last (take mid es) = es ! (mid - 1)" "hd (drop mid es) = es ! mid" "last (drop mid es) = last es"
  proof -
    have "take mid es \<noteq> []" "drop mid es \<noteq> []" "es \<noteq> []" using mid by auto
    then show "hd (take mid es) = hd es" "last (take mid es) = es ! (mid - 1)" "hd (drop mid es) = es ! mid" "last (drop mid es) = last es"
      using mid by (simp_all add: hd_drop_conv_nth last_conv_nth min_def)
  qed
  have "node_split n = Some (Some (entry_key (es ! mid), l', r'))"
    using two by (simp add: node_split_def collect_wf[OF wf, folded es] mid(1) pack_entries_into_def l'(1) r'(1))
  then show ?thesis using mid l' r' rn ends by (intro exI[of _ mid] exI[of _ l'] exI[of _ r']) auto
qed

end
