(* ===== verification/NodeScan.thy ===== *)
theory NodeScan
  imports NodeSplit
begin

text \<open>
  Lookup without the search arrays: the linear scan, which returns the first match it meets, and the
  stale answers that follow when a newer entry for the same slot stands behind an older one.
\<close>

section \<open>The linear scan\<close>

definition pent_match :: "btree_key \<Rightarrow> pent \<Rightarrow> bool" where
  "pent_match target x \<longleftrightarrow> fst x = target_bpos target \<and> pent_type x \<noteq> Deleted"

definition pent_legacy :: "pent \<Rightarrow> btree_key \<times> bch_val" where
  "pent_legacy x = (btree_key_from_bpos (fst x) (pent_type x),
     case bch_val_of_bytes (snd (snd x)) of (pa, v) \<Rightarrow> \<lparr>paddr = pa, ver = v\<rparr>)"

lemma linear_step_at:
  assumes at: "drop off data = pent_bytes x @ rest" and ok: "pent_ok x" "pent_valued x"
  shows "linear_step data target off u = Some (if pent_match target x then Inr (pent_legacy x) else Inl u)"
proof -
  have v: "drop (off + 24) data = snd (snd x) @ rest" by (rule entry_at(7)[OF at ok(1)])
  then have len: "8 \<le> length (drop (off + 24) data)" using ok(2) by (simp add: pent_valued_def)
  have val: "bch_val_of_bytes (drop (off + 24) data) = bch_val_of_bytes (snd (snd x))"
    using ok(2) unfolding v by (simp add: pent_valued_def bch_val_of_bytes_def)
  have "key_type_u8 (pent_type x) = 1 \<longleftrightarrow> pent_type x = Deleted" by (cases "pent_type x") simp_all
  moreover have "off + 32 \<le> length data" using len by simp
  ultimately show ?thesis
    using entry_at(3)[OF at ok(1), of target] entry_at(4)[OF at ok(1)] val le_word_6[of "snd (snd x)"]
    by (auto simp: linear_step_def pent_match_def pent_legacy_def bch_val_of_bytes_def bch_val_new_def addr48_new_def)
qed

lemma run_find:
  "map_option (case_sum (\<lambda>u. None) Some) (run_entries (\<lambda>x u. Some (if P x then Inr (h x) else Inl u)) xs ()) = Some (map_option h (find P xs))"
  by (induction xs) auto

lemma search_linear:
  assumes h: "set_holds data t xs" and v: "\<forall>x \<in> set xs. pent_valued x" and b: "\<not> b \<or> bs_aux t = 0"
  shows "search_set data b t target = Some (map_option pent_legacy (find (pent_match target) xs))"
proof (cases "bs_size t = 0")
  case True
  then have "xs = []" using h by (simp add: set_holds_def)
  then show ?thesis using True by (simp add: search_set_def)
next
  case False
  have "scans data (linear_step data target) (\<lambda>x u. Some (if pent_match target x then Inr (pent_legacy x) else Inl u)) (set xs)"
    using v by (simp add: scans_def linear_step_at)
  then have "scan_set data (linear_step data target) (bs_data t) (bs_end t) () =
      run_entries (\<lambda>x u. Some (if pent_match target x then Inr (pent_legacy x) else Inl u)) xs ()"
    using h scan_set_run[of data "bs_data t" xs] by (simp add: set_holds_def)
  then show ?thesis using False b by (auto simp: search_set_def run_find)
qed

text \<open>A node without search arrays answers with the oldest match.\<close>

lemma search_oldest:
  assumes wf: "node_wf n xs ys" and v: "\<forall>x \<in> set (xs @ ys). pent_valued x" and aux: "bs_aux (nd_sets n ! 0) = 0"
  shows "node_search n target = Some (map_option pent_legacy (find (pent_match target) (xs @ ys)))"
proof -
  obtain t0 t1 where t: "nd_sets n = [t0, t1, bset_empty]" "set_holds (nd_data n) t0 xs" "set_holds (nd_data n) t1 ys"
    using wf by (rule node_wfE)
  have s: "search_set (nd_data n) True t0 target = Some (map_option pent_legacy (find (pent_match target) xs))"
    "search_set (nd_data n) False t1 target = Some (map_option pent_legacy (find (pent_match target) ys))"
    using t v aux by (auto intro!: search_linear)
  have app: "find P (xs @ ys) = (case find P xs of None \<Rightarrow> find P ys | r \<Rightarrow> r)" for P :: "pent \<Rightarrow> bool"
    by (induction xs) auto
  show ?thesis by (simp add: node_search_def t(1) s app split: option.split)
qed

end
