(* ===== verification/Jset.thy ===== *)
theory Jset
  imports Keys
begin

text \<open>
  Journal entries on disk (\<open>journal/jset.rs\<close>, \<open>journal/validate.rs\<close>): the 64-byte header, the
  8-byte entry headers and their payloads, the CRC32C over them, and the checks made on an
  entry read back. The headers are C structs copied as bytes on a little-endian machine, here
  the byte lists of their fields in order. The checksum is the table-driven software path; the
  hardware path uses processor intrinsics and is taken to agree with it. The bincode decoders
  of payloads and of the old format are arguments.
\<close>

subsection \<open>CRC32C\<close>

definition crc_step :: "u32 \<Rightarrow> u32" where
  "crc_step c = (if c AND 1 \<noteq> 0 then 0x82F63B78 XOR drop_bit 1 c else drop_bit 1 c)"

definition CRC32C_TABLE :: "u32 list" where
  "CRC32C_TABLE = map (\<lambda>i. (crc_step ^^ 8) (of_nat i)) [0..<256]"

definition crc_byte :: "u8 \<Rightarrow> u32 \<Rightarrow> u32" where
  "crc_byte b c = CRC32C_TABLE ! unat ((ucast c :: u8) XOR b) XOR drop_bit 8 c"

definition crc32c_sw :: "u8 list \<Rightarrow> u32 \<Rightarrow> u32" where
  "crc32c_sw data crc = NOT (fold crc_byte data (NOT crc))"

text \<open>Checksums chain: a buffer in two parts is the second part seeded with the first.\<close>

lemma crc32c_append: "crc32c_sw (xs @ ys) c = crc32c_sw ys (crc32c_sw xs c)"
  by (simp add: crc32c_sw_def)

lemma crc32c_Nil [simp]: "crc32c_sw [] c = c"
  by (simp add: crc32c_sw_def)

lemma low_bit: "c AND 1 \<noteq> 0 \<longleftrightarrow> bit c 0" for c :: "'a::len word"
  by (simp add: and_one_eq bit_0 odd_iff_mod_2_eq_one)

lemma word_xor_left: "x XOR a = x XOR b \<longleftrightarrow> a = b" for x :: "'a::len word"
proof
  assume "x XOR a = x XOR b"
  then have "x XOR (x XOR a) = x XOR (x XOR b)"
    by simp
  then show "a = b"
    by (simp only: xor.assoc[symmetric] xor_self_eq xor.left_neutral)
qed simp

lemma word_xor_right: "a XOR x = b XOR x \<longleftrightarrow> a = b" for x :: "'a::len word"
  by (simp only: xor.commute[of _ x] word_xor_left)

lemma word_xor_zero: "a XOR b = 0 \<longleftrightarrow> a = b" for a :: "'a::len word"
  using word_xor_left[of b a b] by (simp add: xor.commute)

lemma crc_step_xor: "crc_step (a XOR b) = crc_step a XOR crc_step b"
proof -
  have "(a XOR b) AND 1 \<noteq> 0 \<longleftrightarrow> (a AND 1 \<noteq> 0) \<noteq> (b AND 1 \<noteq> 0)"
    by (simp only: low_bit bit_xor_iff)
  then show ?thesis
    by (auto simp: crc_step_def drop_bit_xor xor.assoc xor.left_commute)
qed

lemma crc_step_0: "crc_step c = 0 \<longleftrightarrow> c = 0"
proof
  assume z: "crc_step c = 0"
  have odd: "c AND 1 = 0"
  proof (rule ccontr)
    assume "c AND 1 \<noteq> 0"
    then have "bit (crc_step c) 31 \<longleftrightarrow> bit (0x82F63B78 :: u32) 31 \<noteq> bit (drop_bit 1 c) 31"
      by (simp add: crc_step_def bit_xor_iff)
    moreover have "\<not> bit (drop_bit 1 c) 31"
      using bit_imp_le_length[of c 32] by (auto simp: bit_drop_bit_eq)
    moreover have "bit (0x82F63B78 :: u32) 31"
      by simp
    ultimately show False
      using z by simp
  qed
  have "bit c k = False" if "k < 32" for k
  proof (cases k)
    case 0
    then show ?thesis
      using odd low_bit[of c] 0 by blast
  next
    case (Suc m)
    have "drop_bit 1 c = 0"
      using z odd by (simp add: crc_step_def)
    then have "\<not> bit (drop_bit 1 c) m"
      by simp
    then show ?thesis
      using Suc by (simp add: bit_drop_bit_eq)
  qed
  then show "c = 0"
    by (intro bit_word_eqI) simp
qed (simp add: crc_step_def)

lemma crc_steps_xor: "(crc_step ^^ n) (a XOR b) = (crc_step ^^ n) a XOR (crc_step ^^ n) b"
  by (induction n) (simp_all add: crc_step_xor)

lemma crc_steps_eq: "(crc_step ^^ n) a = (crc_step ^^ n) b \<longleftrightarrow> a = b"
proof -
  have "(crc_step ^^ n) c = 0 \<longleftrightarrow> c = 0" for c
    by (induction n) (simp_all add: crc_step_0)
  then have "(crc_step ^^ n) (a XOR b) = 0 \<longleftrightarrow> a XOR b = 0"
    by blast
  then show ?thesis
    by (simp add: crc_steps_xor word_xor_zero)
qed

lemma crc_steps_low_zero: "take_bit n c = 0 \<Longrightarrow> (crc_step ^^ n) c = drop_bit n c"
proof (induction n arbitrary: c)
  case (Suc n)
  have b: "\<not> bit c k" if "k \<le> n" for k
    using Suc.prems that by (metis bit_take_bit_iff less_Suc_eq_le bit_0_eq bot_apply bot_bool_def)
  then have "crc_step c = drop_bit 1 c"
    using b[of 0] low_bit[of c] by (simp add: crc_step_def)
  moreover have "take_bit n (drop_bit 1 c) = 0"
    by (rule bit_word_eqI) (use b in \<open>auto simp: bit_take_bit_iff bit_drop_bit_eq\<close>)
  ultimately have "(crc_step ^^ n) (crc_step c) = drop_bit n (drop_bit 1 c)"
    using Suc.IH by simp
  then show ?case
    by (simp add: funpow_swap1 add.commute)
qed simp

text \<open>The table look-up does the eight division steps of one byte at once.\<close>

lemma crc_byte_steps: "crc_byte b c = (crc_step ^^ 8) (c XOR ucast b)"
proof -
  let ?i = "(ucast c :: u8) XOR b" and ?h = "c AND NOT (mask 8)"
  have split: "c XOR ucast b = ucast ?i XOR ?h"
    by (rule bit_word_eqI) (auto simp: bit_simps dest: bit_imp_le_length)
  have u: "unat ?i < 256"
    using unsigned_less[of ?i] by simp
  have "CRC32C_TABLE ! unat ?i = (crc_step ^^ 8) (ucast ?i)"
    using u by (simp add: CRC32C_TABLE_def del: upt_Suc)
  moreover have "(crc_step ^^ 8) ?h = drop_bit 8 ?h"
    by (rule crc_steps_low_zero) (rule bit_word_eqI, auto simp: bit_simps)
  moreover have "drop_bit 8 ?h = drop_bit 8 c"
    by (rule bit_word_eqI) (auto simp: bit_drop_bit_eq bit_and_iff bit_not_iff bit_mask_iff dest: bit_imp_le_length)
  ultimately show ?thesis
    by (simp only: split crc_steps_xor crc_byte_def)
qed

lemma crc_bytes_eq_iff: "fold crc_byte bs c = fold crc_byte bs d \<longleftrightarrow> c = d"
proof -
  have "crc_byte b c = crc_byte b d \<longleftrightarrow> c = d" for b c d
    by (simp only: crc_byte_steps crc_steps_eq word_xor_right)
  then show ?thesis
    by (induction bs arbitrary: c d) simp_all
qed

text \<open>One changed byte always changes the checksum, wherever it is.\<close>

lemma crc32c_detects_byte: "a \<noteq> b \<Longrightarrow> crc32c_sw (xs @ a # ys) c \<noteq> crc32c_sw (xs @ b # ys) c"
proof
  assume ab: "a \<noteq> b" and "crc32c_sw (xs @ a # ys) c = crc32c_sw (xs @ b # ys) c"
  then have "fold crc_byte ys (crc_byte a (fold crc_byte xs (NOT c))) = fold crc_byte ys (crc_byte b (fold crc_byte xs (NOT c)))"
    by (simp add: crc32c_sw_def)
  then have "(ucast a :: u32) = ucast b"
    by (simp only: crc_bytes_eq_iff crc_byte_steps crc_steps_eq word_xor_left)
  then have "unat (ucast a :: u32) = unat (ucast b :: u32)"
    by simp
  then have "unat a = unat b"
    using unat8_less[of a] unat8_less[of b]
    by (simp add: unsigned_ucast_eq take_bit_nat_eq_self)
  then show False
    using ab by (simp add: word_unat_eq_iff)
qed

subsection \<open>Headers\<close>

definition JOURNAL_MAGIC :: "u8 list" where
  "JOURNAL_MAGIC = [0x56, 0x4F, 0x4C, 0x4D, 0x5F, 0x4A, 0x4E, 0x4C]"

definition VMNT_JSET_MAGIC :: "u8 list" where
  "VMNT_JSET_MAGIC = [0x56, 0x4D, 0x4E, 0x54, 0x4A, 0x4E, 0x4C, 0x30]"

definition JSET_BLOCK_SIZE :: u32 where "JSET_BLOCK_SIZE = 4096"

definition JSET_VERSION :: u32 where "JSET_VERSION = 2"

definition CSUM_TYPE_NONE :: u8 where "CSUM_TYPE_NONE = 0"

definition CSUM_TYPE_CRC32C :: u8 where "CSUM_TYPE_CRC32C = 1"

definition JSET_ENTRY_VERSION :: u8 where "JSET_ENTRY_VERSION = 1"

record jset_header =
  jh_magic :: "u8 list"
  jh_seq :: u64
  jh_last_seq :: u64
  jh_crc32 :: u32
  jh_entry_count :: u32
  jh_version :: u32
  jh_csum_type :: u8
  jh_pad :: "u8 list"

record entry_header =
  eh_btree_type :: u8
  eh_entry_type :: u8
  eh_version :: u8
  eh_flags :: u8
  eh_payload_len :: u16
  eh_has_last :: u8
  eh_has_prev :: u8

definition header_bytes :: "jset_header \<Rightarrow> u8 list" where
  "header_bytes h = jh_magic h @ le_bytes 8 (jh_seq h) @ le_bytes 8 (jh_last_seq h) @ le_bytes 4 (jh_crc32 h) @
     le_bytes 4 (jh_entry_count h) @ le_bytes 4 (jh_version h) @ [jh_csum_type h] @ jh_pad h"

definition header_of_bytes :: "u8 list \<Rightarrow> jset_header" where
  "header_of_bytes bs =
     \<lparr>jh_magic = take 8 bs, jh_seq = le_word (take 8 (drop 8 bs)), jh_last_seq = le_word (take 8 (drop 16 bs)),
      jh_crc32 = le_word (take 4 (drop 24 bs)), jh_entry_count = le_word (take 4 (drop 28 bs)),
      jh_version = le_word (take 4 (drop 32 bs)), jh_csum_type = bs ! 36, jh_pad = take 27 (drop 37 bs)\<rparr>"

definition entry_header_bytes :: "entry_header \<Rightarrow> u8 list" where
  "entry_header_bytes e = [eh_btree_type e, eh_entry_type e, eh_version e, eh_flags e] @
     le_bytes 2 (eh_payload_len e) @ [eh_has_last e, eh_has_prev e]"

definition entry_header_of_bytes :: "u8 list \<Rightarrow> entry_header" where
  "entry_header_of_bytes bs =
     \<lparr>eh_btree_type = bs ! 0, eh_entry_type = bs ! 1, eh_version = bs ! 2, eh_flags = bs ! 3,
      eh_payload_len = le_word (take 2 (drop 4 bs)), eh_has_last = bs ! 6, eh_has_prev = bs ! 7\<rparr>"

record raw_entry =
  re_hdr :: entry_header
  re_payload :: "u8 list"

text \<open>\<open>None\<close>: the error for a payload longer than 65535 bytes.\<close>

definition raw_entry_new :: "u8 \<Rightarrow> u8 \<Rightarrow> u8 list \<Rightarrow> raw_entry option" where
  "raw_entry_new bt et payload =
     (if length payload > 65535 then None
      else Some \<lparr>re_hdr = \<lparr>eh_btree_type = bt, eh_entry_type = et, eh_version = JSET_ENTRY_VERSION, eh_flags = 0,
                          eh_payload_len = of_nat (length payload), eh_has_last = 0, eh_has_prev = 0\<rparr>,
                 re_payload = payload\<rparr>)"

datatype jset_entry_type = BtreeKeys | BtreeRoot | Blacklist | Overwrite | BtreeNodeRewrite

fun entry_type_u8 :: "jset_entry_type \<Rightarrow> u8" where
  "entry_type_u8 BtreeKeys = 0"
| "entry_type_u8 BtreeRoot = 1"
| "entry_type_u8 Blacklist = 2"
| "entry_type_u8 Overwrite = 3"
| "entry_type_u8 BtreeNodeRewrite = 6"

definition entry_type_from_u8 :: "u8 \<Rightarrow> jset_entry_type option" where
  "entry_type_from_u8 v =
     (if v = 0 then Some BtreeKeys else if v = 1 then Some BtreeRoot else if v = 2 then Some Blacklist
      else if v = 3 then Some Overwrite else if v = 6 then Some BtreeNodeRewrite else None)"

record jset =
  js_header :: jset_header
  js_entries :: "raw_entry list"

definition jset_with_magic :: "u8 list \<Rightarrow> u64 \<Rightarrow> u64 \<Rightarrow> jset" where
  "jset_with_magic m q lq = \<lparr>js_header = \<lparr>jh_magic = m, jh_seq = q, jh_last_seq = lq, jh_crc32 = 0,
     jh_entry_count = 0, jh_version = JSET_VERSION, jh_csum_type = CSUM_TYPE_NONE, jh_pad = replicate 27 0\<rparr>,
     js_entries = []\<rparr>"

definition jset_new :: "u64 \<Rightarrow> u64 \<Rightarrow> jset" where
  "jset_new = jset_with_magic JOURNAL_MAGIC"

definition jset_new_volatile :: "u64 \<Rightarrow> u64 \<Rightarrow> jset" where
  "jset_new_volatile = jset_with_magic VMNT_JSET_MAGIC"

subsection \<open>Encoding\<close>

definition data_size :: "jset \<Rightarrow> nat" where
  "data_size j = fold (\<lambda>e sz. sz + 8 + length (re_payload e)) (js_entries j) 64"

definition serialized_padded_len :: "jset \<Rightarrow> nat" where
  "serialized_padded_len j =
     (let n = data_size j; b = unat JSET_BLOCK_SIZE in n + (b - n mod b) mod b)"

definition crc32_over_entries :: "jset \<Rightarrow> u32" where
  "crc32_over_entries j =
     fold (\<lambda>e crc. let crc = crc32c_sw (entry_header_bytes (re_hdr e)) crc in
                   if re_payload e = [] then crc else crc32c_sw (re_payload e) crc)
       (js_entries j) (crc32c_sw (header_bytes ((js_header j)\<lparr>jh_crc32 := 0\<rparr>)) 0)"

definition jset_verify :: "jset \<Rightarrow> bool" where
  "jset_verify j \<longleftrightarrow>
     (jh_magic (js_header j) = JOURNAL_MAGIC \<or> jh_magic (js_header j) = VMNT_JSET_MAGIC) \<and>
     crc32_over_entries j = jh_crc32 (js_header j)"

text \<open>The bytes copied into the buffer: the header with zero checksum, then the entries.\<close>

definition entry_bytes :: "raw_entry \<Rightarrow> u8 list" where
  "entry_bytes e = entry_header_bytes (re_hdr e) @ re_payload e"

definition jset_data :: "jset \<Rightarrow> u8 list" where
  "jset_data j = header_bytes ((js_header j)\<lparr>jh_crc32 := 0, jh_entry_count := of_nat (length (js_entries j))\<rparr>) @
     concat (map entry_bytes (js_entries j))"

definition serialize_padded :: "jset \<Rightarrow> u8 list" where
  "serialize_padded j =
     (let buf = jset_data j @ replicate (serialized_padded_len j - data_size j) 0;
          crc = crc32c_sw (take (data_size j) buf) 0
      in take 24 buf @ le_bytes 4 crc @ drop 28 buf)"

subsection \<open>Decoding\<close>

fun parse_entries :: "nat \<Rightarrow> u8 list \<Rightarrow> nat \<Rightarrow> raw_entry list option" where
  "parse_entries 0 data off = Some []"
| "parse_entries (Suc n) data off =
     (if off + 8 > length data then None
      else
        let eh = entry_header_of_bytes (take 8 (drop off data)); len = unat (eh_payload_len eh) in
        if eh_version eh > JSET_ENTRY_VERSION then None
        else if off + 8 + len > length data then None
        else map_option ((#) \<lparr>re_hdr = eh, re_payload = take len (drop (off + 8) data)\<rparr>)
               (parse_entries n data (off + 8 + len)))"

definition parse_v2 :: "u8 list \<Rightarrow> jset_header \<Rightarrow> jset option" where
  "parse_v2 data h = map_option (\<lambda>es. \<lparr>js_header = h, js_entries = es\<rparr>) (parse_entries (unat (jh_entry_count h)) data 64)"

text \<open>The old bincode format: its decoder is an argument, its conversion is the code's.\<close>

record legacy_entry =
  le_btree_type :: u8
  le_entry_type :: jset_entry_type
  le_btree_keys :: "u8 list"
  le_has_last :: u8
  le_has_prev :: u8

record legacy_jset =
  lj_magic :: "u8 list"
  lj_seq :: u64
  lj_last_seq :: u64
  lj_entry_count :: u32
  lj_csum_type :: u8
  lj_entries :: "legacy_entry list"

fun from_legacy_entries :: "legacy_entry list \<Rightarrow> raw_entry list option" where
  "from_legacy_entries [] = Some []"
| "from_legacy_entries (l # ls) =
     (case raw_entry_new (le_btree_type l) (entry_type_u8 (le_entry_type l)) (le_btree_keys l) of
        None \<Rightarrow> None
      | Some e \<Rightarrow>
          map_option ((#) (e\<lparr>re_hdr := (re_hdr e)\<lparr>eh_has_last := le_has_last l, eh_has_prev := le_has_prev l\<rparr>\<rparr>))
            (from_legacy_entries ls))"

definition from_legacy :: "legacy_jset \<Rightarrow> jset option" where
  "from_legacy l = map_option (\<lambda>es.
     let j = \<lparr>js_header = \<lparr>jh_magic = lj_magic l, jh_seq = lj_seq l, jh_last_seq = lj_last_seq l, jh_crc32 = 0,
                jh_entry_count = of_nat (length es), jh_version = JSET_VERSION, jh_csum_type = lj_csum_type l,
                jh_pad = replicate 27 0\<rparr>, js_entries = es\<rparr>
     in j\<lparr>js_header := (js_header j)\<lparr>jh_crc32 := crc32_over_entries j\<rparr>\<rparr>) (from_legacy_entries (lj_entries l))"

text \<open>\<open>Inl ()\<close> is the error of \<open>from_legacy\<close>; \<open>Inr None\<close> says that the bytes hold no entry.\<close>

definition deserialize :: "(u8 list \<Rightarrow> legacy_jset option) \<Rightarrow> u8 list \<Rightarrow> unit + jset option" where
  "deserialize legacy data =
     (if length data < 64 then Inr None
      else
        let h = header_of_bytes data in
        if jh_magic h \<noteq> JOURNAL_MAGIC \<and> jh_magic h \<noteq> VMNT_JSET_MAGIC then Inr None
        else if 2 \<le> jh_version h \<and> jh_version h \<le> JSET_VERSION then Inr (parse_v2 data h)
        else case legacy data of
               None \<Rightarrow> Inr None
             | Some l \<Rightarrow> (case from_legacy l of None \<Rightarrow> Inl () | Some j \<Rightarrow> Inr (Some j)))"

subsection \<open>Round trip\<close>

lemma length_entry_header [simp]: "length (entry_header_bytes e) = 8"
  by (simp add: entry_header_bytes_def)

lemma entry_header_roundtrip [simp]: "entry_header_of_bytes (entry_header_bytes e) = e"
  by (simp add: entry_header_of_bytes_def entry_header_bytes_def le_word_le_bytes_full nth_append)

lemma length_header [simp]: "length (jh_magic h) = 8 \<Longrightarrow> length (jh_pad h) = 27 \<Longrightarrow> length (header_bytes h) = 64"
  by (simp add: header_bytes_def)

lemma header_roundtrip:
  assumes "length (jh_magic h) = 8" "length (jh_pad h) = 27"
  shows "header_of_bytes (header_bytes h @ rest) = h"
  using assms by (simp add: header_of_bytes_def header_bytes_def le_word_le_bytes_full nth_append)

lemma data_size_eq: "data_size j = 64 + sum_list (map (\<lambda>e. 8 + length (re_payload e)) (js_entries j))"
proof -
  have "fold (\<lambda>e sz. sz + 8 + length (re_payload e)) es n = n + sum_list (map (\<lambda>e. 8 + length (re_payload e)) es)" for es n
    by (induction es arbitrary: n) simp_all
  then show ?thesis
    by (simp add: data_size_def)
qed

lemma length_entries: "length (concat (map entry_bytes es)) = sum_list (map (\<lambda>e. 8 + length (re_payload e)) es)"
  by (induction es) (simp_all add: entry_bytes_def)

definition entry_ok :: "raw_entry \<Rightarrow> bool" where
  "entry_ok e \<longleftrightarrow> eh_version (re_hdr e) \<le> JSET_ENTRY_VERSION \<and> unat (eh_payload_len (re_hdr e)) = length (re_payload e)"

definition jset_ok :: "jset \<Rightarrow> bool" where
  "jset_ok j \<longleftrightarrow> (jh_magic (js_header j) = JOURNAL_MAGIC \<or> jh_magic (js_header j) = VMNT_JSET_MAGIC) \<and>
     length (jh_pad (js_header j)) = 27 \<and> jh_version (js_header j) = JSET_VERSION \<and>
     length (js_entries j) < 2 ^ 32 \<and> (\<forall>e \<in> set (js_entries j). entry_ok e)"

lemma raw_entry_new_ok: "raw_entry_new bt et payload = Some e \<Longrightarrow> entry_ok e"
  by (auto simp: raw_entry_new_def entry_ok_def unsigned_of_nat take_bit_nat_eq_self split: if_splits)

lemma parse_step:
  assumes "entry_ok e"
  shows "parse_entries (Suc n) (pre @ entry_bytes e @ rest) (length pre) =
    map_option ((#) e) (parse_entries n (pre @ entry_bytes e @ rest) (length (pre @ entry_bytes e)))"
proof -
  have e: "\<lparr>re_hdr = re_hdr e, re_payload = re_payload e\<rparr> = e"
    by (cases e) simp
  show ?thesis
    using assms by (simp add: e entry_ok_def entry_bytes_def Let_def add.assoc linorder_not_less[symmetric])
qed

lemma parse_step_short:
  assumes "entry_ok e" "length pre \<le> n" "n < length (pre @ entry_bytes e)"
  shows "parse_entries (Suc m) (take n (pre @ entry_bytes e @ rest)) (length pre) = None"
proof (cases "n < length pre + 8")
  case False
  then have "take 8 (drop (length pre) (take n (pre @ entry_bytes e @ rest))) = entry_header_bytes (re_hdr e)"
    by (simp add: drop_take min_def entry_bytes_def)
  then show ?thesis
    using assms by (simp add: entry_ok_def entry_bytes_def Let_def del: take_append drop_append)
qed (simp add: min_def del: take_append)

lemma parse_entries_concat:
  assumes "\<forall>e \<in> set es. entry_ok e"
  shows "parse_entries (length es) (pre @ concat (map entry_bytes es) @ rest) (length pre) = Some es"
  using assms
proof (induction es arbitrary: pre)
  case (Cons e es)
  have "parse_entries (length es) ((pre @ entry_bytes e) @ concat (map entry_bytes es) @ rest) (length (pre @ entry_bytes e)) = Some es"
    using Cons.prems by (intro Cons.IH) simp
  then show ?case
    using parse_step[of e "length es" pre "concat (map entry_bytes es) @ rest"] Cons.prems
    by (simp del: parse_entries.simps)
qed simp

text \<open>A buffer that ends before the last entry does is refused.\<close>

lemma parse_step_long:
  assumes "entry_ok e" "length (pre @ entry_bytes e) \<le> n"
  shows "parse_entries (Suc m) (take n (pre @ entry_bytes e @ rest)) (length pre) =
    map_option ((#) e) (parse_entries m (take n (pre @ entry_bytes e @ rest)) (length (pre @ entry_bytes e)))"
proof -
  have eq: "take n (pre @ entry_bytes e @ rest) = pre @ entry_bytes e @ take (n - length (pre @ entry_bytes e)) rest"
    using assms(2) by simp
  show ?thesis
    unfolding eq by (rule parse_step[OF assms(1)])
qed

lemma parse_entries_short:
  assumes "\<forall>e \<in> set es. entry_ok e" "length pre \<le> n" "n < length pre + length (concat (map entry_bytes es))"
  shows "parse_entries (length es) (take n (pre @ concat (map entry_bytes es) @ rest)) (length pre) = None"
  using assms
proof (induction es arbitrary: pre)
  case (Cons e es)
  let ?r = "concat (map entry_bytes es) @ rest"
  have ok: "entry_ok e"
    using Cons.prems by simp
  show ?case
  proof (cases "n < length (pre @ entry_bytes e)")
    case True
    then show ?thesis
      using parse_step_short[OF ok Cons.prems(2), of "length es" ?r] by (simp del: parse_entries.simps take_append)
  next
    case False
    have "parse_entries (length es) (take n ((pre @ entry_bytes e) @ concat (map entry_bytes es) @ rest)) (length (pre @ entry_bytes e)) = None"
      using Cons.prems False by (intro Cons.IH) simp_all
    then show ?thesis
      using parse_step_long[OF ok, of pre n "length es" ?r] False by (simp del: parse_entries.simps take_append)
  qed
qed simp

lemma magic_length: "m = JOURNAL_MAGIC \<or> m = VMNT_JSET_MAGIC \<Longrightarrow> length m = 8"
  by (auto simp: JOURNAL_MAGIC_def VMNT_JSET_MAGIC_def)

lemma crc32_over_entries_eq:
  "crc32_over_entries j = crc32c_sw (header_bytes ((js_header j)\<lparr>jh_crc32 := 0\<rparr>) @ concat (map entry_bytes (js_entries j))) 0"
proof -
  have "fold (\<lambda>e crc. let crc = crc32c_sw (entry_header_bytes (re_hdr e)) crc in
      if re_payload e = [] then crc else crc32c_sw (re_payload e) crc) es c = crc32c_sw (concat (map entry_bytes es)) c" for es c
    by (induction es arbitrary: c) (simp_all add: crc32c_append entry_bytes_def Let_def)
  then show ?thesis
    by (simp add: crc32_over_entries_def crc32c_append)
qed

text \<open>The entry as it is read back: what the writer had, with the count and the checksum set.\<close>

definition sealed :: "jset \<Rightarrow> jset" where
  "sealed j = j\<lparr>js_header := (js_header j)\<lparr>jh_entry_count := of_nat (length (js_entries j)),
     jh_crc32 := crc32c_sw (jset_data j) 0\<rparr>\<rparr>"

lemma length_jset_data:
  assumes "jset_ok j"
  shows "length (jset_data j) = data_size j"
  using assms magic_length by (auto simp: jset_ok_def jset_data_def data_size_eq length_entries)

lemma serialize_eq:
  assumes "jset_ok j"
  shows "serialize_padded j = header_bytes (js_header (sealed j)) @ concat (map entry_bytes (js_entries j)) @
    replicate (serialized_padded_len j - data_size j) 0"
proof -
  let ?h = "(js_header j)\<lparr>jh_crc32 := 0, jh_entry_count := of_nat (length (js_entries j))\<rparr>"
  let ?c = "crc32c_sw (jset_data j) 0"
  have m: "length (jh_magic (js_header j)) = 8"
    using assms magic_length by (auto simp: jset_ok_def)
  have "take 24 (header_bytes ?h) @ le_bytes 4 ?c @ drop 28 (header_bytes ?h) = header_bytes (js_header (sealed j))"
    using m by (simp add: header_bytes_def sealed_def)
  moreover have "length (header_bytes ?h) = 64"
    using m assms by (simp add: jset_ok_def)
  ultimately show ?thesis
    using length_jset_data[OF assms] by (simp add: serialize_padded_def Let_def jset_data_def)
qed

lemma deserialize_parse:
  assumes "jset_ok j" "data = header_bytes (js_header (sealed j)) @ rest"
  shows "deserialize legacy data = Inr (map_option (\<lambda>es. \<lparr>js_header = js_header (sealed j), js_entries = es\<rparr>)
    (parse_entries (length (js_entries j)) data 64))"
proof -
  have m: "length (jh_magic (js_header (sealed j))) = 8" "length (jh_pad (js_header (sealed j))) = 27"
    using assms(1) magic_length by (auto simp: jset_ok_def sealed_def)
  have "header_of_bytes data = js_header (sealed j)"
    using header_roundtrip[OF m] assms(2) by simp
  moreover have "unat (jh_entry_count (js_header (sealed j))) = length (js_entries j)"
    using assms(1) by (simp add: sealed_def jset_ok_def unsigned_of_nat take_bit_nat_eq_self)
  moreover have "\<not> length data < 64"
    using assms(2) length_header[OF m] by simp
  ultimately show ?thesis
    using assms(1) by (auto simp: deserialize_def parse_v2_def jset_ok_def sealed_def JSET_VERSION_def)
qed

lemma deserialize_sealed:
  assumes "jset_ok j"
  shows "deserialize legacy (serialize_padded j @ rest) = Inr (Some (sealed j))"
proof -
  have m: "length (header_bytes (js_header (sealed j))) = 64"
    using assms magic_length by (auto simp: jset_ok_def sealed_def intro!: length_header)
  have "parse_entries (length (js_entries j)) (serialize_padded j @ rest) 64 = Some (js_entries j)"
    using parse_entries_concat[of "js_entries j" "header_bytes (js_header (sealed j))"] assms m
    by (simp add: serialize_eq jset_ok_def)
  moreover have "deserialize legacy (serialize_padded j @ rest) = Inr (map_option (\<lambda>es. \<lparr>js_header = js_header (sealed j), js_entries = es\<rparr>)
      (parse_entries (length (js_entries j)) (serialize_padded j @ rest) 64))"
    by (rule deserialize_parse[OF assms]) (simp add: serialize_eq[OF assms])
  ultimately show ?thesis
    by (simp add: sealed_def)
qed

lemma verify_sealed: "jset_ok j \<Longrightarrow> jset_verify (sealed j)"
proof -
  assume ok: "jset_ok j"
  have "(js_header (sealed j))\<lparr>jh_crc32 := 0\<rparr> =
    (js_header j)\<lparr>jh_crc32 := 0, jh_entry_count := of_nat (length (js_entries j))\<rparr>"
    by (rule jset_header.equality) (simp_all add: sealed_def)
  then have "crc32_over_entries (sealed j) = crc32c_sw (jset_data j) 0"
    unfolding crc32_over_entries_eq by (simp add: jset_data_def) (simp add: sealed_def)
  then show ?thesis
    using ok by (simp add: jset_verify_def jset_ok_def) (simp add: sealed_def)
qed

lemma padded_len:
  assumes "jset_ok j"
  shows "data_size j \<le> serialized_padded_len j" "serialized_padded_len j mod 4096 = 0"
    "length (serialize_padded j) = serialized_padded_len j"
proof -
  show le: "data_size j \<le> serialized_padded_len j"
    by (simp add: serialized_padded_len_def Let_def)
  have "(n + (b - n mod b) mod b) mod b = 0" if "0 < b" for n b :: nat
  proof -
    have "(n + (b - n mod b) mod b) mod b = (n mod b + (b - n mod b)) mod b"
      by (simp add: mod_simps)
    then show ?thesis
      using that by simp
  qed
  from this[of "unat JSET_BLOCK_SIZE" "data_size j"] show "serialized_padded_len j mod 4096 = 0"
    by (simp add: serialized_padded_len_def Let_def JSET_BLOCK_SIZE_def)
  show "length (serialize_padded j) = serialized_padded_len j"
    using length_jset_data[OF assms] le by (simp add: serialize_padded_def Let_def data_size_eq)
qed

text \<open> C12. Serializing an entry and reading the bytes back, with anything after them, returns the same
  entries under the same header with the entry count and the checksum filled in; what is read
  back passes the checksum test, and the bytes fill whole 4096-byte blocks.\<close>
theorem jset_roundtrip:
  assumes "jset_ok j"
  shows "length (serialize_padded j) = serialized_padded_len j \<and> serialized_padded_len j mod 4096 = 0 \<and>
    (\<exists>r. deserialize legacy (serialize_padded j @ rest) = Inr (Some r) \<and> js_entries r = js_entries j \<and>
      js_header r = (js_header j)\<lparr>jh_entry_count := of_nat (length (js_entries j)), jh_crc32 := jh_crc32 (js_header r)\<rparr> \<and>
      jset_verify r)"
proof -
  have "js_header (sealed j) = (js_header j)\<lparr>jh_entry_count := of_nat (length (js_entries j)), jh_crc32 := jh_crc32 (js_header (sealed j))\<rparr>"
    by (simp add: sealed_def)
  moreover have "js_entries (sealed j) = js_entries j"
    by (simp add: sealed_def)
  ultimately show ?thesis
    using padded_len[OF assms] deserialize_sealed[OF assms] verify_sealed[OF assms] by blast
qed

definition demo_jset :: jset where
  "demo_jset = (jset_new 7 3)\<lparr>js_entries := [\<lparr>re_hdr = \<lparr>eh_btree_type = 0, eh_entry_type = 0,
     eh_version = 1, eh_flags = 0, eh_payload_len = 3, eh_has_last = 0, eh_has_prev = 0\<rparr>, re_payload = [1, 2, 3]\<rparr>]\<rparr>"

lemma demo_jset_ok: "jset_ok demo_jset"
  by (simp add: jset_ok_def demo_jset_def jset_new_def jset_with_magic_def entry_ok_def JSET_VERSION_def JSET_ENTRY_VERSION_def)

theorem jset_roundtrip_witness:
  "\<exists>r. deserialize (\<lambda>_. None) (serialize_padded demo_jset) = Inr (Some r) \<and> map re_payload (js_entries r) = [[1, 2, 3]] \<and>
     jh_seq (js_header r) = 7 \<and> jset_verify r"
proof -
  obtain r where r: "deserialize (\<lambda>_. None) (serialize_padded demo_jset) = Inr (Some r)" "js_entries r = js_entries demo_jset"
    "js_header r = (js_header demo_jset)\<lparr>jh_entry_count := of_nat (length (js_entries demo_jset)), jh_crc32 := jh_crc32 (js_header r)\<rparr>"
    "jset_verify r"
    using jset_roundtrip[OF demo_jset_ok, of "\<lambda>_. None" "[]"] by auto
  have "jh_seq (js_header r) = jh_seq (js_header demo_jset)"
    by (subst r(3)) simp
  then show ?thesis
    using r by (intro exI[of _ r]) (simp add: demo_jset_def jset_new_def jset_with_magic_def)
qed

text \<open> C26. The checksum test catches every corruption of a single payload byte: an entry that
  passes it fails it after one byte of one payload was changed, whatever the byte and
  wherever it stands.\<close>
theorem verify_detects_payload_byte:
  assumes "jset_verify j" and "k < length (js_entries j)" and "i < length (re_payload (js_entries j ! k))"
    and "b \<noteq> re_payload (js_entries j ! k) ! i"
  shows "\<not> jset_verify (j\<lparr>js_entries := (js_entries j)[k := (js_entries j ! k)\<lparr>re_payload := (re_payload (js_entries j ! k))[i := b]\<rparr>]\<rparr>)"
proof -
  let ?e = "js_entries j ! k" and ?es = "js_entries j"
  let ?p = "re_payload ?e"
  define pre where "pre = header_bytes ((js_header j)\<lparr>jh_crc32 := 0\<rparr>) @ concat (map entry_bytes (take k ?es)) @
    entry_header_bytes (re_hdr ?e) @ take i ?p"
  define post where "post = drop (Suc i) ?p @ concat (map entry_bytes (drop (Suc k) ?es))"
  have es: "?es = take k ?es @ ?e # drop (Suc k) ?es"
    using assms(2) by (rule id_take_nth_drop)
  have p: "?p = take i ?p @ ?p ! i # drop (Suc i) ?p"
    using assms(3) by (rule id_take_nth_drop)
  have old: "header_bytes ((js_header j)\<lparr>jh_crc32 := 0\<rparr>) @ concat (map entry_bytes ?es) = pre @ ?p ! i # post"
  proof -
    have "concat (map entry_bytes ?es) = concat (map entry_bytes (take k ?es)) @ entry_bytes ?e @ concat (map entry_bytes (drop (Suc k) ?es))"
      using arg_cong[OF es, of "\<lambda>xs. concat (map entry_bytes xs)"] by simp
    moreover have "entry_bytes ?e = entry_header_bytes (re_hdr ?e) @ take i ?p @ ?p ! i # drop (Suc i) ?p"
      using p by (simp add: entry_bytes_def)
    ultimately show ?thesis
      by (simp add: pre_def post_def)
  qed
  have new: "header_bytes ((js_header j)\<lparr>jh_crc32 := 0\<rparr>) @ concat (map entry_bytes (?es[k := ?e\<lparr>re_payload := ?p[i := b]\<rparr>])) = pre @ b # post"
    using assms(2,3) by (simp add: pre_def post_def upd_conv_take_nth_drop entry_bytes_def)
  have "crc32c_sw (pre @ ?p ! i # post) 0 \<noteq> crc32c_sw (pre @ b # post) 0"
    by (rule crc32c_detects_byte) (use assms(4) in simp)
  then show ?thesis
    using assms(1) old new by (simp add: jset_verify_def crc32_over_entries_eq)
qed

theorem verify_detects_payload_byte_witness:
  "\<not> jset_verify ((sealed demo_jset)\<lparr>js_entries := (js_entries (sealed demo_jset))[0 := (js_entries (sealed demo_jset) ! 0)\<lparr>re_payload := [1, 9, 3]\<rparr>]\<rparr>)"
  using verify_detects_payload_byte[OF verify_sealed[OF demo_jset_ok], of 0 1 9]
  by (simp add: sealed_def demo_jset_def)

text \<open>
  A block read alone must hold the whole entry: the start of a longer one is refused.
\<close>

lemma deserialize_prefix:
  assumes "jset_ok j" "64 \<le> n" "n < data_size j"
  shows "deserialize legacy (take n (serialize_padded j)) = Inr None"
proof -
  let ?h = "header_bytes (js_header (sealed j))"
  let ?c = "concat (map entry_bytes (js_entries j))" and ?z = "replicate (serialized_padded_len j - data_size j) 0"
  have m: "length ?h = 64"
    using assms(1) magic_length by (auto simp: jset_ok_def sealed_def intro!: length_header)
  have "take n (serialize_padded j) = ?h @ take (n - 64) (?c @ ?z)"
    using assms(2) m by (simp add: serialize_eq[OF assms(1)])
  then have "deserialize legacy (take n (serialize_padded j)) =
      Inr (map_option (\<lambda>es. \<lparr>js_header = js_header (sealed j), js_entries = es\<rparr>)
        (parse_entries (length (js_entries j)) (take n (serialize_padded j)) 64))"
    by (rule deserialize_parse[OF assms(1)])
  moreover have "parse_entries (length (js_entries j)) (take n (?h @ ?c @ ?z)) (length ?h) = None"
    using assms m by (intro parse_entries_short) (simp_all add: jset_ok_def data_size_eq length_entries)
  ultimately show ?thesis
    using m by (simp add: serialize_eq[OF assms(1)])
qed

subsection \<open>Validation\<close>

record blacklist_entry =
  bl_start_seq :: u64
  bl_end_seq :: u64

text \<open>Bincode's encoders and decoders for the two payload types.\<close>

record payload_codec =
  enc_keys :: "btree_entry list \<Rightarrow> u8 list option"
  dec_keys :: "u8 list \<Rightarrow> btree_entry list option"
  enc_blacklist :: "blacklist_entry list \<Rightarrow> u8 list option"
  dec_blacklist :: "u8 list \<Rightarrow> blacklist_entry list option"

definition btree_keys_validate :: "payload_codec \<Rightarrow> raw_entry \<Rightarrow> bool" where
  "btree_keys_validate cd e \<longleftrightarrow> dec_keys cd (re_payload e) \<noteq> None"

definition btree_root_validate :: "payload_codec \<Rightarrow> raw_entry \<Rightarrow> bool" where
  "btree_root_validate cd e = (case dec_keys cd (re_payload e) of None \<Rightarrow> False | Some ks \<Rightarrow> length ks = 1)"

definition blacklist_validate :: "payload_codec \<Rightarrow> raw_entry \<Rightarrow> bool" where
  "blacklist_validate cd e = (case dec_blacklist cd (re_payload e) of None \<Rightarrow> False
     | Some bs \<Rightarrow> list_all (\<lambda>b. bl_start_seq b < bl_end_seq b) bs)"

definition overwrite_validate :: "raw_entry \<Rightarrow> bool" where
  "overwrite_validate e \<longleftrightarrow> re_payload e \<noteq> []"

definition btree_node_rewrite_validate :: "raw_entry \<Rightarrow> bool" where
  "btree_node_rewrite_validate e \<longleftrightarrow> re_payload e \<noteq> []"

definition journal_entry_validate :: "payload_codec \<Rightarrow> raw_entry \<Rightarrow> bool" where
  "journal_entry_validate cd e = (case entry_type_from_u8 (eh_entry_type (re_hdr e)) of
       None \<Rightarrow> True
     | Some BtreeKeys \<Rightarrow> btree_keys_validate cd e
     | Some BtreeRoot \<Rightarrow> btree_root_validate cd e
     | Some Blacklist \<Rightarrow> blacklist_validate cd e
     | Some Overwrite \<Rightarrow> overwrite_validate e
     | Some BtreeNodeRewrite \<Rightarrow> btree_node_rewrite_validate e)"

definition jset_validate :: "payload_codec \<Rightarrow> jset \<Rightarrow> bool" where
  "jset_validate cd j \<longleftrightarrow>
     \<not> jh_version (js_header j) > JSET_VERSION \<and>
     \<not> (jh_csum_type (js_header j) \<noteq> CSUM_TYPE_NONE \<and> jh_csum_type (js_header j) \<noteq> CSUM_TYPE_CRC32C) \<and>
     \<not> jh_last_seq (js_header j) > jh_seq (js_header j) \<and>
     unat (jh_entry_count (js_header j)) = length (js_entries j) \<and>
     list_all (\<lambda>e. \<not> eh_version (re_hdr e) > JSET_ENTRY_VERSION \<and> journal_entry_validate cd e) (js_entries j)"

end
