(* ===== verification/NodeRecord.thy ===== *)
theory NodeRecord
  imports NodeScan Jset "HOL-Library.AList"
begin

text \<open>
  The node record log (\<open>btree/node.rs\<close>): the initial and append records of a node, their headers and
  checksums, and the reader of a whole extent. An \<open>Err\<close> is \<open>Inl\<close>, a panic is \<open>None\<close>. The
  checksum is \<open>crc32c_sw\<close> of \<open>Jset\<close>.
\<close>

section \<open>Headers\<close>

definition btree_node_magic :: u32 where "btree_node_magic = 0x56544E42"
definition btree_node_entry_magic :: u32 where "btree_node_entry_magic = 0x45544E42"
definition btree_node_version :: u16 where "btree_node_version = 3"
definition node_block_size :: nat where "node_block_size = 4096"
definition sector_size :: nat where "sector_size = 512"
definition sectors_per_block :: nat where "sectors_per_block = 8"

record bset_header =
  bh_seq :: u64
  bh_journal_seq :: u64
  bh_flags :: u32
  bh_version :: u16
  bh_u64s :: u16

definition bset_header_bytes :: "bset_header \<Rightarrow> u8 list" where
  "bset_header_bytes h = le_bytes 8 (bh_seq h) @ le_bytes 8 (bh_journal_seq h) @ le_bytes 4 (bh_flags h) @
     le_bytes 2 (bh_version h) @ le_bytes 2 (bh_u64s h)"

record node_header =
  nh_magic :: u32
  nh_version :: u16
  nh_level :: u8
  nh_type :: u8
  nh_key_count :: u32
  nh_bset_count :: u16
  nh_crc :: u32
  nh_seq :: u64
  nh_bucket :: u64
  nh_generation :: u32
  nh_record_bytes :: u32
  nh_min :: bpos
  nh_max :: bpos

definition bpos_bytes :: "bpos \<Rightarrow> u8 list" where
  "bpos_bytes p = le_bytes 8 (inode p) @ le_bytes 8 (offset p) @ le_bytes 4 (snapshot p)"

definition node_header_bytes :: "node_header \<Rightarrow> u8 list" where
  "node_header_bytes h = le_bytes 4 (nh_magic h) @ le_bytes 2 (nh_version h) @ [nh_level h, nh_type h] @
     le_bytes 4 (nh_key_count h) @ le_bytes 2 (nh_bset_count h) @ le_bytes 4 (nh_crc h) @ le_bytes 8 (nh_seq h) @
     le_bytes 8 (nh_bucket h) @ le_bytes 4 (nh_generation h) @ le_bytes 4 (nh_record_bytes h) @
     bpos_bytes (nh_min h) @ bpos_bytes (nh_max h) @ replicate 6 0"

record disk_entry =
  de_magic :: u32
  de_version :: u16
  de_flags :: u16
  de_seq :: u64
  de_generation :: u32
  de_record_bytes :: u32
  de_crc :: u32

definition disk_entry_bytes :: "disk_entry \<Rightarrow> u8 list" where
  "disk_entry_bytes h = le_bytes 4 (de_magic h) @ le_bytes 2 (de_version h) @ le_bytes 2 (de_flags h) @
     le_bytes 8 (de_seq h) @ le_bytes 4 (de_generation h) @ le_bytes 4 (de_record_bytes h) @ le_bytes 4 (de_crc h) @
     replicate 4 0"

text \<open>Reading a little-endian field, and the three headers.\<close>

definition fld :: "nat \<Rightarrow> nat \<Rightarrow> u8 list \<Rightarrow> 'a::len word" where
  "fld off k bs = le_word (take k (drop off bs))"

definition read_bpos :: "nat \<Rightarrow> u8 list \<Rightarrow> bpos" where
  "read_bpos off bs = Bpos (fld off 8 bs) (fld (off + 8) 8 bs) (fld (off + 16) 4 bs)"

definition read_bset_header :: "u8 list \<Rightarrow> bset_header" where
  "read_bset_header bs = \<lparr>bh_seq = fld 0 8 bs, bh_journal_seq = fld 8 8 bs, bh_flags = fld 16 4 bs,
     bh_version = fld 20 2 bs, bh_u64s = fld 22 2 bs\<rparr>"

definition read_node_header :: "u8 list \<Rightarrow> node_header" where
  "read_node_header bs = \<lparr>nh_magic = fld 0 4 bs, nh_version = fld 4 2 bs, nh_level = fld 6 1 bs, nh_type = fld 7 1 bs,
     nh_key_count = fld 8 4 bs, nh_bset_count = fld 12 2 bs, nh_crc = fld 14 4 bs, nh_seq = fld 18 8 bs,
     nh_bucket = fld 26 8 bs, nh_generation = fld 34 4 bs, nh_record_bytes = fld 38 4 bs,
     nh_min = read_bpos 42 bs, nh_max = read_bpos 62 bs\<rparr>"

definition read_disk_entry :: "u8 list \<Rightarrow> disk_entry" where
  "read_disk_entry bs = \<lparr>de_magic = fld 0 4 bs, de_version = fld 4 2 bs, de_flags = fld 6 2 bs, de_seq = fld 8 8 bs,
     de_generation = fld 16 4 bs, de_record_bytes = fld 20 4 bs, de_crc = fld 24 4 bs\<rparr>"

section \<open>Writing records\<close>

definition record_bytes_of :: "nat \<Rightarrow> storage_error + nat" where
  "record_bytes_of content =
     (let rb = (content + node_block_size - 1) div node_block_size * node_block_size in
      if 2 ^ 32 - 1 < rb then Inl (InvalidBlockSize (of_nat rb)) else Inr rb)"

definition make_bset_header :: "u64 \<Rightarrow> u16 \<Rightarrow> nat \<Rightarrow> storage_error + bset_header" where
  "make_bset_header seq sector payload =
     (if payload mod 8 \<noteq> 0 \<or> 65535 < payload div 8 then Inl (InvalidBlockSize (of_nat payload))
      else Inr \<lparr>bh_seq = seq, bh_journal_seq = seq, bh_flags = push_bit 16 (ucast sector),
                bh_version = btree_node_version, bh_u64s = of_nat (payload div 8)\<rparr>)"

text \<open>\<open>pack_entries\<close> and the body of \<open>pack_bset\<close>: the entries in a buffer of their summed sizes.\<close>

definition pack_entries :: "btree_entry list \<Rightarrow> u8 list option" where
  "pack_entries es = map_option fst (write_entries (replicate (sum_list (map (unat \<circ> entry_packed_size) es)) 0) 0 es)"

definition pack_bset :: "node \<Rightarrow> u8 list option" where
  "pack_bset n = (case collect_all_entries n of None \<Rightarrow> None
     | Some es \<Rightarrow> if es = [] then Some [] else pack_entries es)"

definition write_record_crc :: "u8 list \<Rightarrow> nat \<Rightarrow> u8 list" where
  "write_record_crc record off =
     (let r0 = put_bytes off (replicate 4 0) record in put_bytes off (le_bytes 4 (crc32c_sw r0 0)) r0)"

definition serialize_initial_record :: "node \<Rightarrow> u64 \<Rightarrow> u32 \<Rightarrow> (storage_error + u8 list) option" where
  "serialize_initial_record n addr gen =
     (case collect_all_entries n of None \<Rightarrow> None | Some es \<Rightarrow>
      (case pack_entries es of None \<Rightarrow> None | Some payload \<Rightarrow>
       (case record_bytes_of (112 + length payload) of
          Inl err \<Rightarrow> Some (Inl err)
        | Inr rb \<Rightarrow>
            if nd_size n < rb then Some (Inl (InvalidBlockSize (of_nat rb)))
            else let hdr = \<lparr>nh_magic = btree_node_magic, nh_version = btree_node_version, nh_level = nd_level n, nh_type = 0,
                   nh_key_count = of_nat (length es), nh_bset_count = (if es = [] then 0 else 1), nh_crc = 0,
                   nh_seq = nd_seq n, nh_bucket = addr, nh_generation = gen, nh_record_bytes = of_nat rb,
                   nh_min = nd_min n, nh_max = nd_max n\<rparr>
            in case make_bset_header (nd_seq n) 0 (length payload) of
                 Inl err \<Rightarrow> Some (Inl err)
               | Inr bh \<Rightarrow> Some (Inr (write_record_crc
                   (put_bytes 112 payload (put_bytes 88 (bset_header_bytes bh) (put_bytes 0 (node_header_bytes hdr) (replicate rb 0)))) 14)))))"

definition serialize_to_bucket :: "node \<Rightarrow> u64 \<Rightarrow> (storage_error + u8 list) option" where
  "serialize_to_bucket n addr = serialize_initial_record n addr 1"

definition serialize_append_record :: "node \<Rightarrow> u32 \<Rightarrow> u16 \<Rightarrow> (storage_error + u8 list) option" where
  "serialize_append_record n gen sector =
     (if sector = 0 \<or> unat sector mod sectors_per_block \<noteq> 0 then Some (Inl InvalidData)
      else case collect_all_entries n of None \<Rightarrow> None | Some es \<Rightarrow>
        if es = [] then Some (Inl InvalidData)
        else case pack_entries es of None \<Rightarrow> None | Some payload \<Rightarrow>
         (case record_bytes_of (56 + length payload) of
            Inl err \<Rightarrow> Some (Inl err)
          | Inr rb \<Rightarrow>
              if nd_size n div sector_size < unat sector + rb div sector_size then Some (Inl (InvalidBlockSize (of_nat rb)))
              else let hdr = \<lparr>de_magic = btree_node_entry_magic, de_version = btree_node_version, de_flags = 0,
                     de_seq = nd_seq n, de_generation = gen, de_record_bytes = of_nat rb, de_crc = 0\<rparr>
              in case make_bset_header (nd_seq n) sector (length payload) of
                   Inl err \<Rightarrow> Some (Inl err)
                 | Inr bh \<Rightarrow> Some (Inr (write_record_crc
                     (put_bytes 56 payload (put_bytes 32 (bset_header_bytes bh) (put_bytes 0 (disk_entry_bytes hdr) (replicate rb 0)))) 24))))"

section \<open>Reading records\<close>

definition verify_record_crc :: "u8 list \<Rightarrow> nat \<Rightarrow> u32 \<Rightarrow> storage_error + unit" where
  "verify_record_crc record off stored =
     (let actual = crc32c_sw (put_bytes off (replicate 4 0) record) 0 in
      if actual \<noteq> stored then Inl (ChecksumMismatch stored actual) else Inr ())"

definition validate_record_len :: "nat \<Rightarrow> nat \<Rightarrow> storage_error + unit" where
  "validate_record_len rb available =
     (if rb = 0 \<or> rb mod node_block_size \<noteq> 0 \<or> available < rb then Inl InvalidData else Inr ())"

text \<open>The entries of one bset. A wrong type byte panics; \<open>u64s\<close> of 1 or 2 reads outside the entry.\<close>

function parse_record_entries :: "u8 \<Rightarrow> u8 list \<Rightarrow> nat \<Rightarrow> nat \<Rightarrow> (storage_error + btree_entry list) option" where
  "parse_record_entries lvl record off e =
     (if e \<le> off then Some (Inr [])
      else if e - off < 3 then Some (Inl InvalidData)
      else case read_entry_u64s record off of None \<Rightarrow> None | Some u \<Rightarrow>
        if u = 0 then Some (Inl InvalidData)
        else if e < off + u * 8 then Some (Inl InvalidData)
        else case packed_at record off of None \<Rightarrow> None | Some k \<Rightarrow>
          (case bkey_unpack_bytes bkey_format_current k of None \<Rightarrow> None | Some (p, ty, vb) \<Rightarrow>
            (case (if 0 < lvl \<and> length vb = btree_ptr_disk_bytes then map_sum id BtreePtr (btree_ptr_from_bytes vb) else Inr (Raw vb)) of
               Inl err \<Rightarrow> Some (Inl err)
             | Inr val \<Rightarrow>
                 (case key_type_from_u8 ty of None \<Rightarrow> None | Some kt \<Rightarrow>
                   map_option (map_sum id ((#) \<lparr>pos = p, ekey_type = kt, evalue = val\<rparr>)) (parse_record_entries lvl record (off + u * 8) e)))))"
  by pat_completeness auto
termination by (relation "measure (\<lambda>(lvl, record, off, e). e - off)") auto

declare parse_record_entries.simps [simp del]

definition parse_record_bset :: "u8 list \<Rightarrow> nat \<Rightarrow> u16 \<Rightarrow> u8 \<Rightarrow> (storage_error + btree_entry list) option" where
  "parse_record_bset record boff sector lvl =
     (if length record < boff + 24 then Some (Inl InvalidData)
      else let h = read_bset_header (drop boff record) in
        if bh_version h \<noteq> btree_node_version \<or> ucast (drop_bit 16 (bh_flags h)) \<noteq> sector then Some (Inl InvalidData)
        else let e = boff + 24 + unat (bh_u64s h) * 8 in
          if length record < e then Some (Inl InvalidData)
          else parse_record_entries lvl record (boff + 24) e)"

text \<open>
  The \<open>HashMap\<close> of the newest entry per position, as an association list; \<open>perm\<close> below is the order in
  which it gives its values back.
\<close>

type_synonym latest_map = "(bpos \<times> btree_entry) list"

definition latest_insert :: "btree_entry list \<Rightarrow> latest_map \<Rightarrow> latest_map" where
  "latest_insert es m = fold (\<lambda>e m. AList.update (pos e) e m) es m"

text \<open>The append records up to \<open>committed\<close>: the map and the highest sequence number.\<close>

function read_appends :: "u8 list \<Rightarrow> btree_ptr_v2 \<Rightarrow> nat \<Rightarrow> nat \<Rightarrow> latest_map \<Rightarrow> u64 \<Rightarrow> (storage_error + latest_map \<times> u64 \<times> nat) option" where
  "read_appends data ptr committed off m seq =
     (if committed \<le> off then Some (Inr (m, seq, off))
      else if committed - off < 32 then Some (Inl InvalidData)
      else let h = read_disk_entry (drop off data); rb = unat (de_record_bytes h) in
        if de_magic h \<noteq> btree_node_entry_magic \<or> de_version h \<noteq> btree_node_version \<or> de_generation h \<noteq> generation ptr
        then Some (Inl InvalidData)
        else case validate_record_len rb (committed - off) of Inl err \<Rightarrow> Some (Inl err) | Inr _ \<Rightarrow>
          if rb = 0 then None
          else let record = take rb (drop off data) in
          (case verify_record_crc record 24 (de_crc h) of Inl err \<Rightarrow> Some (Inl err) | Inr _ \<Rightarrow>
            (case parse_record_bset record 32 (of_nat (off div sector_size)) (level ptr) of
               None \<Rightarrow> None
             | Some (Inl err) \<Rightarrow> Some (Inl err)
             | Some (Inr es) \<Rightarrow> read_appends data ptr committed (off + rb) (latest_insert es m) (max seq (de_seq h)))))"
  by pat_completeness auto
termination by (relation "measure (\<lambda>(data, ptr, committed, off, m, seq). committed - off)") auto

declare read_appends.simps [simp del]

text \<open>Writing the decoded entries into the new node, with the capacity check before each.\<close>

fun write_decoded :: "nat \<Rightarrow> u8 list \<Rightarrow> nat \<Rightarrow> btree_entry list \<Rightarrow> (storage_error + u8 list \<times> nat) option" where
  "write_decoded cap data cur [] = Some (Inr (data, cur))"
| "write_decoded cap data cur (e # es) =
     (if cap < cur + unat (entry_packed_size e) then Some (Inl InvalidData)
      else case write_entry_bytes data cur e of None \<Rightarrow> None
           | Some (d, sz) \<Rightarrow> write_decoded cap d (cur + sz) es)"

definition node_of_entries :: "u8 \<Rightarrow> bpos \<Rightarrow> bpos \<Rightarrow> u64 \<Rightarrow> btree_entry list \<Rightarrow> (storage_error + node) option" where
  "node_of_entries lvl mn mx seq es =
     (let n = (node_new lvl)\<lparr>nd_min := mn, nd_max := mx, nd_seq := seq\<rparr> in
      case write_decoded (nd_size n) (nd_data n) 0 es of
        None \<Rightarrow> None
      | Some (Inl err) \<Rightarrow> Some (Inl err)
      | Some (Inr (d, c)) \<Rightarrow> Some (Inr (if es = [] then n else
          n\<lparr>nd_data := d, nd_key_count := of_nat (length es),
            nd_sets := [\<lparr>bs_data = 0, bs_end = c, bs_aux = 0, bs_size = of_nat (length es), bs_extra = 0\<rparr>, bset_empty, bset_empty]\<rparr>)))"

definition deserialize_from_extent ::
  "(btree_entry list \<Rightarrow> btree_entry list) \<Rightarrow> u8 list \<Rightarrow> btree_ptr_v2 \<Rightarrow> (storage_error + node) option" where
  "deserialize_from_extent perm data ptr =
     (let committed = unat (sectors_written ptr) * sector_size; h = read_node_header data; rb = unat (nh_record_bytes h) in
      if \<not> btree_ptr_is_valid ptr then Some (Inl InvalidData)
      else if unat (sectors_written ptr) mod sectors_per_block \<noteq> 0 then Some (Inl InvalidData)
      else if length data < committed then Some (Inl InvalidData)
      else if committed < 88 then Some (Inl InvalidData)
      else if nh_magic h \<noteq> btree_node_magic \<or> nh_version h \<noteq> btree_node_version \<or> nh_level h \<noteq> level ptr \<or>
              nh_bucket h \<noteq> block_addr ptr \<or> nh_generation h \<noteq> generation ptr then Some (Inl InvalidData)
      else case validate_record_len rb committed of Inl err \<Rightarrow> Some (Inl err) | Inr _ \<Rightarrow>
        (case verify_record_crc (take rb data) 14 (nh_crc h) of Inl err \<Rightarrow> Some (Inl err) | Inr _ \<Rightarrow>
          (case parse_record_bset (take rb data) 88 0 (level ptr) of
             None \<Rightarrow> None
           | Some (Inl err) \<Rightarrow> Some (Inl err)
           | Some (Inr es) \<Rightarrow>
               if length es \<noteq> unat (nh_key_count h) then Some (Inl InvalidData)
               else (case read_appends data ptr committed rb (latest_insert es []) (nh_seq h) of
                       None \<Rightarrow> None
                     | Some (Inl err) \<Rightarrow> Some (Inl err)
                     | Some (Inr (m, seq, off)) \<Rightarrow>
                         if off \<noteq> committed then Some (Inl InvalidData)
                         else node_of_entries (level ptr) (nh_min h) (nh_max h) seq
                                (sort_key node_key (filter (\<lambda>e. ekey_type e \<noteq> Deleted) (perm (map snd m))))))))"

definition deserialize_from_bucket :: "(btree_entry list \<Rightarrow> btree_entry list) \<Rightarrow> u8 list \<Rightarrow> (storage_error + node) option" where
  "deserialize_from_bucket perm data =
     (let h = read_node_header data; rb = unat (nh_record_bytes h) in
      if length data < 88 then Some (Inl InvalidData)
      else if nh_magic h \<noteq> btree_node_magic \<or> nh_version h \<noteq> btree_node_version then Some (Inl InvalidData)
      else case validate_record_len rb (length data) of Inl err \<Rightarrow> Some (Inl err) | Inr _ \<Rightarrow>
        deserialize_from_extent perm (take rb data)
          \<lparr>block_addr = nh_bucket h, sectors_written = of_nat (rb div sector_size), level = nh_level h, generation = nh_generation h\<rparr>)"

end
