(* ===== verification/NodeRecordProps.thy ===== *)
theory NodeRecordProps
  imports NodeRecord
begin

text \<open>
  The record of a node reads back: the headers, the checksum, the entries of a bset, and the node as
  a whole.
\<close>

section \<open>Headers\<close>

lemma le_word_fulls [simp]: "(le_word (le_bytes 2 w) :: u16) = w"
  by (rule le_word_le_bytes_full) simp

lemma le_word_1 [simp]: "(le_word [b] :: u8) = b"
  by simp

lemma read_bset_header_bytes [simp]: "read_bset_header (bset_header_bytes h @ rest) = h"
  by (simp add: read_bset_header_def bset_header_bytes_def fld_def)

lemma read_node_header_bytes [simp]: "read_node_header (node_header_bytes h @ rest) = h"
  by (simp add: read_node_header_def node_header_bytes_def fld_def read_bpos_def bpos_bytes_def)

lemma read_disk_entry_bytes [simp]: "read_disk_entry (disk_entry_bytes h @ rest) = h"
  by (simp add: read_disk_entry_def disk_entry_bytes_def fld_def)

lemma length_headers [simp]: "length (bset_header_bytes h) = 24" "length (node_header_bytes g) = 88" "length (disk_entry_bytes d) = 32"
  by (simp_all add: bset_header_bytes_def node_header_bytes_def disk_entry_bytes_def bpos_bytes_def)

lemma put_bytes_mid: "length a = off \<Longrightarrow> length c = length d \<Longrightarrow> put_bytes off d (a @ c @ b) = a @ d @ b"
  by (simp add: put_bytes_def)

lemma le_bytes_0 [simp]: "le_bytes k 0 = replicate k 0"
  by (simp add: le_bytes_def map_replicate_const)

lemma node_header_crc: "put_bytes 14 (le_bytes 4 c) (node_header_bytes h @ rest) = node_header_bytes (h\<lparr>nh_crc := c\<rparr>) @ rest"
proof -
  let ?a = "le_bytes 4 (nh_magic h) @ le_bytes 2 (nh_version h) @ [nh_level h, nh_type h] @
     le_bytes 4 (nh_key_count h) @ le_bytes 2 (nh_bset_count h)"
  let ?b = "le_bytes 8 (nh_seq h) @ le_bytes 8 (nh_bucket h) @ le_bytes 4 (nh_generation h) @ le_bytes 4 (nh_record_bytes h) @
     bpos_bytes (nh_min h) @ bpos_bytes (nh_max h) @ replicate 6 0"
  have "put_bytes 14 (le_bytes 4 c) (?a @ le_bytes 4 (nh_crc h) @ (?b @ rest)) = ?a @ le_bytes 4 c @ (?b @ rest)"
    by (rule put_bytes_mid) simp_all
  then show ?thesis by (simp add: node_header_bytes_def)
qed

lemma disk_entry_crc: "put_bytes 24 (le_bytes 4 c) (disk_entry_bytes h @ rest) = disk_entry_bytes (h\<lparr>de_crc := c\<rparr>) @ rest"
proof -
  let ?a = "le_bytes 4 (de_magic h) @ le_bytes 2 (de_version h) @ le_bytes 2 (de_flags h) @
     le_bytes 8 (de_seq h) @ le_bytes 4 (de_generation h) @ le_bytes 4 (de_record_bytes h)"
  have "put_bytes 24 (le_bytes 4 c) (?a @ le_bytes 4 (de_crc h) @ (replicate 4 0 @ rest)) = ?a @ le_bytes 4 c @ (replicate 4 0 @ rest)"
    by (rule put_bytes_mid) simp_all
  then show ?thesis by (simp add: disk_entry_bytes_def)
qed

text \<open>A record with a zero checksum field, sealed, has the checksum of itself before sealing.\<close>

lemma seal_node_record:
  assumes "nh_crc h = 0"
  shows "write_record_crc (node_header_bytes h @ rest) 14 =
    node_header_bytes (h\<lparr>nh_crc := crc32c_sw (node_header_bytes h @ rest) 0\<rparr>) @ rest"
proof -
  have "h\<lparr>nh_crc := 0\<rparr> = h" using assms by simp
  then have "put_bytes 14 (replicate 4 0) (node_header_bytes h @ rest) = node_header_bytes h @ rest"
    using node_header_crc[of 0 h rest] by simp
  then show ?thesis by (simp add: write_record_crc_def Let_def node_header_crc)
qed

lemma verify_node_record:
  assumes "nh_crc h = 0"
  shows "verify_record_crc (node_header_bytes (h\<lparr>nh_crc := crc32c_sw (node_header_bytes h @ rest) 0\<rparr>) @ rest) 14
    (crc32c_sw (node_header_bytes h @ rest) 0) = Inr ()"
proof -
  have "h\<lparr>nh_crc := 0\<rparr> = h" using assms by simp
  then have "put_bytes 14 (replicate 4 0) (node_header_bytes (h\<lparr>nh_crc := c\<rparr>) @ rest) = node_header_bytes h @ rest" for c
    using node_header_crc[of 0 "h\<lparr>nh_crc := c\<rparr>" rest] by simp
  then show ?thesis by (simp add: verify_record_crc_def Let_def)
qed

section \<open>Entries\<close>

definition decodable :: "u8 \<Rightarrow> pent \<Rightarrow> bool" where
  "decodable lvl x \<longleftrightarrow> (0 < lvl \<and> length (snd (snd x)) = btree_ptr_disk_bytes \<longrightarrow> \<not> isl (btree_ptr_from_bytes (snd (snd x))))"

lemma decodable_value:
  assumes "decodable lvl x"
  shows "(if 0 < lvl \<and> length (snd (snd x)) = btree_ptr_disk_bytes
      then map_sum id BtreePtr (btree_ptr_from_bytes (snd (snd x))) else Inr (Raw (snd (snd x)))) = Inr (value_of_bytes lvl (snd (snd x)))"
  using assms by (auto simp: decodable_def value_of_bytes_def split: sum.split)

lemma unpack_bytes_at:
  assumes at: "drop off data = pent_bytes x @ rest" and ok: "pent_ok x"
  shows "\<exists>k. packed_at data off = Some k \<and>
    bkey_unpack_bytes bkey_format_current k = Some (fst x, key_type_u8 (fst (snd x)), snd (snd x))"
proof -
  obtain k where k: "length (kwords k) = 3" "vbytes k = snd (snd x)" "unat (pk_u64s k) * 8 = pent_size x"
    "pk_type k = key_type_u8 (fst (snd x))" "fields_at bkey_format_current (kwords k) 0 (pos_fields (fst x))"
    "pent_bytes x = concat (map (le_bytes 8) (kwords k)) @ snd (snd x)"
    by (rule pent_packed[OF ok])
  let ?k = "\<lparr>kwords = kwords k, vbytes = snd (snd x) @ rest\<rparr>"
  have d: "drop off data = concat (map (le_bytes 8) (kwords k)) @ (snd (snd x) @ rest)" using at k(6) by simp
  have "pk_type ?k = key_type_u8 (fst (snd x))" "pk_u64s ?k = pk_u64s k" using k(4) by (simp_all add: pk_type_def pk_u64s_def)
  moreover have "pent_size x - 24 = length (snd (snd x))" "24 \<le> pent_size x" by (simp_all add: pent_size_def)
  ultimately show ?thesis
    using packed_at_words[OF d k(1)] unpack_at(1)[of ?k "fst x"] k(1,3,5)
    by (simp add: bkey_unpack_bytes_def Let_def)
qed

lemma pent_words: "pent_ok x \<Longrightarrow> pent_size x div 8 * 8 = pent_size x \<and> pent_size x div 8 \<noteq> 0"
  by (auto simp: pent_ok_def pent_size_def elim!: dvdE simp flip: dvd_eq_mod_eq_0)

lemma parse_entries_laid:
  assumes "laid record off xs" "list_all pent_ok xs" "\<forall>x \<in> set xs. decodable lvl x"
  shows "parse_record_entries lvl record off (off + pents_size xs) = Some (Inr (map (pent_entry lvl) xs))"
  using assms
proof (induction xs arbitrary: off)
  case Nil
  then show ?case by (subst parse_record_entries.simps) simp
next
  case (Cons x xs)
  then have ok: "pent_ok x" and dec: "decodable lvl x" by simp_all
  obtain rest where at: "drop off record = pent_bytes x @ rest" and l: "laid record (off + pent_size x) xs"
    using Cons.prems(1) laid_Cons[OF ok] by blast
  obtain k where k: "packed_at record off = Some k"
    "bkey_unpack_bytes bkey_format_current k = Some (fst x, key_type_u8 (fst (snd x)), snd (snd x))"
    using unpack_bytes_at[OF at ok] by blast
  have sz: "24 \<le> pent_size x" by (simp add: pent_size_def)
  have rec: "parse_record_entries lvl record (off + pent_size x) (off + pents_size (x # xs)) = Some (Inr (map (pent_entry lvl) xs))"
    using Cons.IH[OF l] Cons.prems(2,3) by (simp add: add.assoc)
  have w: "pent_size x div 8 * 8 = pent_size x" "pent_size x div 8 \<noteq> 0" using pent_words[OF ok] by simp_all
  show ?case
    apply (subst parse_record_entries.simps)
    using sz entry_at(1)[OF at ok] w k rec decodable_value[OF dec]
    by (simp only: option.case prod.case sum.case) (simp add: pent_entry_def)
qed

lemma entry_packed_size_eq: "pent_ok (pent_of e) \<Longrightarrow> unat (entry_packed_size e) = pent_size (pent_of e)"
proof -
  assume "pent_ok (pent_of e)"
  then have c: "div_ceil8 (length (key_value_to_bytes (evalue e))) < 253" by (simp add: pent_ok_of)
  have "entry_packed_size e = of_nat ((3 + div_ceil8 (length (key_value_to_bytes (evalue e)))) * 8)"
    by (simp add: entry_packed_size_def bkey_u64s_def)
  also have "unat \<dots> = (3 + div_ceil8 (length (key_value_to_bytes (evalue e)))) * 8"
    using c by (simp add: unat_of_nat del: of_nat_mult of_nat_add)
  finally show ?thesis by (simp add: pent_size_of)
qed

lemma pack_entries_eq:
  assumes "list_all pent_ok (map pent_of es)"
  shows "pack_entries es = Some (concat (map pent_bytes (map pent_of es)))"
proof -
  have "map (unat \<circ> entry_packed_size) es = map pent_size (map pent_of es)"
    using assms by (auto simp: list_all_iff entry_packed_size_eq)
  then have s: "sum_list (map (unat \<circ> entry_packed_size) es) = pents_size (map pent_of es)" unfolding pents_size_def by (rule arg_cong)
  have "put_bytes 0 (concat (map pent_bytes (map pent_of es))) (replicate (pents_size (map pent_of es)) 0) = concat (map pent_bytes (map pent_of es))"
    using length_pents_bytes[OF assms] by (simp add: put_bytes_def)
  then show ?thesis
    using write_entries_eq[OF assms, of 0 "replicate (pents_size (map pent_of es)) 0"] unfolding pack_entries_def s by simp
qed

lemma write_decoded_eq:
  assumes "list_all pent_ok (map pent_of es)" "cur + pents_size (map pent_of es) \<le> cap" "cap \<le> length data"
  shows "write_decoded cap data cur es =
    Some (Inr (put_bytes cur (concat (map pent_bytes (map pent_of es))) data, cur + pents_size (map pent_of es)))"
  using assms
proof (induction es arbitrary: cur data)
  case (Cons e es)
  let ?p = "pent_of e" and ?ps = "map pent_of es"
  let ?d = "put_bytes cur (pent_bytes ?p) data"
  have ok: "pent_ok ?p" "list_all pent_ok ?ps" and len: "length (pent_bytes ?p) = pent_size ?p" using Cons.prems(1) by simp_all
  have fit: "cur + pent_size ?p + pents_size ?ps \<le> cap" "cur + pent_size ?p \<le> length data" using Cons.prems(2,3) by simp_all
  then have w: "write_entry_bytes data cur e = Some (?d, pent_size ?p)" "length ?d = length data"
    using write_entry_bytes_eq[OF ok(1), of data cur] len by simp_all
  moreover have "write_decoded cap ?d (cur + pent_size ?p) es =
      Some (Inr (put_bytes (cur + pent_size ?p) (concat (map pent_bytes ?ps)) ?d, cur + pent_size ?p + pents_size ?ps))"
    using Cons.IH[OF ok(2), of "cur + pent_size ?p" ?d] fit w(2) Cons.prems(3) by simp
  moreover have "put_bytes (cur + pent_size ?p) (concat (map pent_bytes ?ps)) ?d = put_bytes cur (pent_bytes ?p @ concat (map pent_bytes ?ps)) data"
    using put_bytes_put_bytes[of cur "pent_bytes ?p" "concat (map pent_bytes ?ps)" data] fit Cons.prems(3) len length_pents_bytes[OF ok(2)]
    by simp
  ultimately show ?case using fit(1) by (simp add: entry_packed_size_eq[OF ok(1)])
qed simp

section \<open>The newest entry per position\<close>

lemma update_new: "k \<notin> fst ` set m \<Longrightarrow> AList.update k v m = m @ [(k, v)]"
  by (induction m) auto

lemma latest_insert_distinct:
  "distinct (map pos es) \<Longrightarrow> \<forall>e \<in> set es. pos e \<notin> fst ` set m \<Longrightarrow> latest_insert es m = m @ map (\<lambda>e. (pos e, e)) es"
proof (induction es arbitrary: m)
  case (Cons e es)
  then have "AList.update (pos e) e m = m @ [(pos e, e)]" by (simp add: update_new)
  moreover have "latest_insert es (m @ [(pos e, e)]) = (m @ [(pos e, e)]) @ map (\<lambda>e. (pos e, e)) es"
    proof (rule Cons.IH)
    have "pos x \<noteq> pos e" if "x \<in> set es" for x using that Cons.prems(1) by simp (metis image_eqI)
    then show "\<forall>x \<in> set es. pos x \<notin> fst ` set (m @ [(pos e, e)])" using Cons.prems(2) by auto
  qed (use Cons.prems(1) in simp)
  ultimately show ?case by (simp add: latest_insert_def)
qed (simp add: latest_insert_def)

lemma sort_key_perm:
  assumes "sorted_wrt (\<lambda>a b. node_key a < node_key b) es" "mset xs = mset es"
  shows "sort_key node_key xs = es"
proof (rule properties_for_sort_key)
  show "mset es = mset xs" using assms(2) by simp
  show "sorted (map node_key es)" using assms(1) by (auto simp: sorted_map intro: sorted_wrt_mono_rel[rotated])
  fix k assume k: "k \<in> set es"
  have d: "distinct (map node_key es)" using assms(1) by (auto simp: distinct_conv_nth sorted_wrt_iff_nth_less neq_iff)
  have one: "filter (\<lambda>x. node_key k = node_key x) es = [k]"
    using d k by (induction es) (auto simp: filter_empty_conv intro: rev_image_eqI)
  have "mset (filter (\<lambda>x. node_key k = node_key x) xs) = mset [k]" using one assms(2) by (metis mset_filter)
  then have "filter (\<lambda>x. node_key k = node_key x) xs = [k]"
    by (cases "filter (\<lambda>x. node_key k = node_key x) xs") (simp_all del: mset_filter)
  then show "filter (\<lambda>x. node_key k = node_key x) es = filter (\<lambda>x. node_key k = node_key x) xs"
    using one by simp
qed

section \<open>The initial record\<close>

lemma put_zeros:
  assumes "length a + length b + length c \<le> k" "length a = i" "i + length b = j"
  shows "put_bytes j c (put_bytes i b (put_bytes 0 a (replicate k 0))) = a @ b @ c @ replicate (k - (length a + length b + length c)) 0"
proof -
  have "put_bytes 0 a (replicate k 0) = a @ replicate (k - length a) 0" using assms by (simp add: put_bytes_def)
  moreover have "put_bytes i b (a @ replicate (k - length a) 0) = a @ b @ replicate (k - length a - length b) 0"
    using assms by (simp add: put_bytes_def)
  moreover have "put_bytes j c (a @ b @ replicate (k - length a - length b) 0) = a @ b @ c @ replicate (k - length a - length b - length c) 0"
    using assms by (simp add: put_bytes_def)
  ultimately show ?thesis by (simp add: diff_diff_left add.assoc)
qed

definition record_size :: "nat \<Rightarrow> nat" where
  "record_size content = (content + 4095) div 4096 * 4096"

lemma record_size_bounds: "content \<le> record_size content" "record_size content mod 4096 = 0"
  by (simp_all add: record_size_def)

lemma record_bytes_of_eq: "record_size content \<le> 4294967295 \<Longrightarrow> record_bytes_of content = Inr (record_size content)"
  by (simp add: record_bytes_of_def Let_def record_size_def node_block_size_def add.commute)

text \<open>Parsing the bset of a sealed record.\<close>

lemma parse_record_bset_eq:
  assumes ok: "list_all pent_ok ps" "\<forall>x \<in> set ps. decodable lvl x" "pents_size ps \<le> 262144"
    and bh: "make_bset_header seq sector (pents_size ps) = Inr bh" and pre: "length pre = boff"
  shows "parse_record_bset (pre @ bset_header_bytes bh @ concat (map pent_bytes ps) @ rest) boff sector lvl = Some (Inr (map (pent_entry lvl) ps))"
proof -
  let ?r = "pre @ bset_header_bytes bh @ concat (map pent_bytes ps) @ rest"
  have m8: "pents_size ps mod 8 = 0" by (rule pents_size_mod8[OF ok(1)])
  have bhv: "bh = \<lparr>bh_seq = seq, bh_journal_seq = seq, bh_flags = push_bit 16 (ucast sector),
      bh_version = btree_node_version, bh_u64s = of_nat (pents_size ps div 8)\<rparr>"
    using bh by (auto simp: make_bset_header_def split: if_splits)
  have "pents_size ps div 8 \<le> 32768" using ok(3) by simp
  then have "unat (of_nat (pents_size ps div 8) :: u16) = pents_size ps div 8" by (simp add: unat_of_nat)
  then have u: "unat (bh_u64s bh) * 8 = pents_size ps" using m8 by (simp add: bhv) (metis add.right_neutral div_mult_mod_eq)
  have s: "ucast (drop_bit 16 (bh_flags bh)) = sector" by (simp add: bhv) (rule bit_word_eqI, auto simp: bit_simps)
  have h: "read_bset_header (drop boff ?r) = bh" using pre by simp
  have d: "drop (boff + 24) ?r = concat (map pent_bytes ps) @ rest" using pre by simp
  then have "laid ?r (boff + 24) ps" by (simp add: laid_def)
  from parse_entries_laid[OF this ok(1,2)]
  have p: "parse_record_entries lvl ?r (boff + 24) (boff + 24 + pents_size ps) = Some (Inr (map (pent_entry lvl) ps))" .
  have len: "length ?r = boff + 24 + pents_size ps + length rest" using pre length_pents_bytes[OF ok(1)] by simp
  have v: "bh_version bh = btree_node_version" by (simp add: bhv)
  show ?thesis unfolding parse_record_bset_def Let_def h u s v p using len by simp
qed

text \<open>
  The initial record of a well-formed node, followed by anything, is read back as a node with the
  same live entries, range, level and sequence number, in whatever order the map of the reader gives
  its values.
\<close>

lemma initial_record_wf:
  assumes wf: "node_wf n xs ys" and es: "es = live_entries (map (pent_entry (nd_level n)) (xs @ ys))"
    and fit: "record_size (112 + pents_size (map pent_of es)) \<le> nd_size n"
    and dec: "\<forall>e \<in> set es. decodable (nd_level n) (pent_of e)" and addr: "addr \<noteq> 0" and perm: "\<And>l. mset (perm l) = mset l"
  shows "\<exists>bytes n'. serialize_initial_record n addr gen = Some (Inr bytes) \<and>
    length bytes = record_size (112 + pents_size (map pent_of es)) \<and>
    deserialize_from_extent perm (bytes @ tail)
      \<lparr>block_addr = addr, sectors_written = of_nat (length bytes div 512), level = nd_level n, generation = gen\<rparr> = Some (Inr n') \<and>
    node_wf n' (map pent_of es) [] \<and> nd_level n' = nd_level n \<and> nd_seq n' = nd_seq n \<and> nd_min n' = nd_min n \<and> nd_max n' = nd_max n"
proof -
  let ?ps = "map pent_of es" and ?lvl = "nd_level n"
  let ?payload = "concat (map pent_bytes ?ps)"
  note lp = live_pents[OF wf es]
  have n: "nd_size n \<le> 262144" using wf by (auto elim: node_wfE)
  have plen: "length ?payload = pents_size ?ps" by (rule length_pents_bytes[OF lp(1)])
  define rb where "rb = record_size (112 + pents_size ?ps)"
  have rb: "112 + pents_size ?ps \<le> rb" "rb mod 4096 = 0" "rb \<le> 262144" "rb \<le> nd_size n"
    using record_size_bounds[of "112 + pents_size ?ps"] fit n by (simp_all add: rb_def)
  define hdr where "hdr = \<lparr>nh_magic = btree_node_magic, nh_version = btree_node_version, nh_level = ?lvl, nh_type = 0,
      nh_key_count = of_nat (length es), nh_bset_count = (if es = [] then 0 else 1), nh_crc = 0, nh_seq = nd_seq n,
      nh_bucket = addr, nh_generation = gen, nh_record_bytes = of_nat rb, nh_min = nd_min n, nh_max = nd_max n\<rparr>"
  have "pents_size ?ps mod 8 = 0" "pents_size ?ps div 8 \<le> 65535" using pents_size_mod8[OF lp(1)] lp(2) n by simp_all
  then obtain bh where bh: "make_bset_header (nd_seq n) 0 (pents_size ?ps) = Inr bh" by (auto simp: make_bset_header_def)
  define zs where "zs = replicate (rb - (88 + 24 + pents_size ?ps)) (0 :: u8)"
  define rest where "rest = bset_header_bytes bh @ ?payload @ zs"
  define c where "c = crc32c_sw (node_header_bytes hdr @ rest) 0"
  define bytes where "bytes = node_header_bytes (hdr\<lparr>nh_crc := c\<rparr>) @ rest"
  have crc0: "nh_crc hdr = 0" by (simp add: hdr_def)
  have len: "length bytes = rb" using rb(1) plen by (simp add: bytes_def rest_def zs_def)
  have body: "put_bytes 112 ?payload (put_bytes 88 (bset_header_bytes bh) (put_bytes 0 (node_header_bytes hdr) (replicate rb 0)))
      = node_header_bytes hdr @ rest"
    using put_zeros[of "node_header_bytes hdr" "bset_header_bytes bh" ?payload rb 88 112] rb(1) plen by (simp add: rest_def zs_def)
  have ser: "serialize_initial_record n addr gen = Some (Inr bytes)"
    using collect_wf[OF wf] rb(4) record_bytes_of_eq[of "112 + pents_size ?ps"] rb(3) bh body seal_node_record[OF crc0, of rest]
    unfolding serialize_initial_record_def es[symmetric]
    by (simp add: pack_entries_eq[OF lp(1), simplified] plen[simplified] rb_def[symmetric] Let_def hdr_def[symmetric] bytes_def c_def)
  let ?ptr = "\<lparr>block_addr = addr, sectors_written = of_nat (length bytes div 512), level = ?lvl, generation = gen\<rparr> :: btree_ptr_v2"
  obtain q where q: "rb = 4096 * q" using rb(2) by auto
  then have q64: "q \<le> 64" "q \<noteq> 0" using rb(1,3) by auto
  have "unat (of_nat (8 * q) :: u16) = 8 * q" using q64 by (simp add: unat_of_nat del: of_nat_mult)
  moreover have "length bytes div 512 = 8 * q" using len q by simp
  ultimately have sw: "unat (sectors_written ?ptr) = 8 * q" by simp
  then have sw0: "sectors_written ?ptr \<noteq> 0" using q64(2) by auto
  have committed: "unat (sectors_written ?ptr) * sector_size = rb" using sw q by (simp add: sector_size_def)
  have rh: "read_node_header (bytes @ tail) = hdr\<lparr>nh_crc := c\<rparr>" by (simp add: bytes_def)
  have rbu: "unat (nh_record_bytes (hdr\<lparr>nh_crc := c\<rparr>)) = rb" using rb(3) by (simp add: hdr_def unat_of_nat)
  have tk: "take rb (bytes @ tail) = bytes" using len by simp
  have val: "validate_record_len rb rb = Inr ()" using rb(2) q q64(2) by (simp add: validate_record_len_def node_block_size_def)
  have crc: "verify_record_crc bytes 14 c = Inr ()" using verify_node_record[OF crc0, of rest] by (simp add: bytes_def c_def)
  have "\<forall>x \<in> set ?ps. decodable ?lvl x" using dec by simp
  moreover have "pents_size ?ps \<le> 262144" using lp(2) n by simp
  ultimately have parse: "parse_record_bset bytes 88 0 ?lvl = Some (Inr es)"
    using parse_record_bset_eq[OF lp(1) _ _ bh, of ?lvl "node_header_bytes (hdr\<lparr>nh_crc := c\<rparr>)" 88 zs] lp(4)
    by (simp add: bytes_def rest_def)
  have cnt: "length es = unat (nh_key_count (hdr\<lparr>nh_crc := c\<rparr>))" using lp(3) by (simp add: hdr_def unat_of_nat)
  have sorted: "sorted_wrt (\<lambda>a b. node_key a < node_key b) es" unfolding es by (rule live_entries_sorted)
  have "distinct (map node_key es)" using sorted by (auto simp: distinct_conv_nth sorted_wrt_iff_nth_less neq_iff)
  then have dp: "distinct (map pos es)" by (auto simp: distinct_map intro: inj_on_imageI2[of bpos_key] simp: comp_def)
  have lt: "latest_insert es [] = map (\<lambda>e. (pos e, e)) es" using latest_insert_distinct[OF dp, of "[]"] by simp
  have ap: "read_appends (bytes @ tail) ?ptr rb rb m s = Some (Inr (m, s, rb))" for m s by (subst read_appends.simps) simp
  have nd: "\<forall>e \<in> set es. ekey_type e \<noteq> Deleted" unfolding es using live_entries_not_deleted by blast
  define vs where "vs = perm (map snd (map (\<lambda>e. (pos e, e)) es))"
  have vs: "mset vs = mset es" using perm by (simp add: vs_def comp_def)
  have "filter (\<lambda>e. ekey_type e \<noteq> Deleted) vs = vs" using nd mset_eq_setD[OF vs] by simp
  then have st: "sort_key node_key (filter (\<lambda>e. ekey_type e \<noteq> Deleted) (perm (map snd (map (\<lambda>e. (pos e, e)) es)))) = es"
    using sort_key_perm[OF sorted vs] by (simp only: vs_def)
  let ?new = "(node_new ?lvl)\<lparr>nd_min := nd_min n, nd_max := nd_max n, nd_seq := nd_seq n\<rparr>"
  have cap: "0 + pents_size ?ps \<le> nd_size ?new" "nd_size ?new \<le> length (nd_data ?new)"
    using lp(2) n by (simp_all add: node_new_def default_node_size_def)
  let ?d = "put_bytes 0 ?payload (nd_data ?new)"
  let ?t = "\<lparr>bs_data = 0, bs_end = pents_size ?ps, bs_aux = 0, bs_size = of_nat (length es), bs_extra = 0\<rparr>"
  let ?n' = "if es = [] then ?new else ?new\<lparr>nd_data := ?d, nd_key_count := of_nat (length es), nd_sets := [?t, bset_empty, bset_empty]\<rparr>"
  have built: "node_of_entries ?lvl (nd_min n) (nd_max n) (nd_seq n) es = Some (Inr ?n')"
    using write_decoded_eq[OF lp(1) cap] by (simp only: node_of_entries_def Let_def option.case sum.case prod.case) simp
  have "node_wf ?n' ?ps []"
  proof (cases "es = []")
    case True
    then show ?thesis using node_wf_new[of ?lvl] by (simp add: node_wf_def)
  next
    case False
    have fit: "0 + pents_size ?ps \<le> length (nd_data ?new)" using cap by simp
    have d: "laid ?d 0 ?ps" "length ?d = length (nd_data ?new)" using laid_put[OF lp(1) fit] fit plen by simp_all
    have "set_holds ?d ?t ?ps" using d(1) lp(1,3) by (simp add: set_holds_def unat_of_nat)
    then show ?thesis using False cap d(2) by (simp add: node_wf_def node_new_def) (simp add: bset_empty_def)
  qed
  moreover have "deserialize_from_extent perm (bytes @ tail) ?ptr = Some (Inr ?n')"
  proof -
    have hv: "nh_magic (hdr\<lparr>nh_crc := c\<rparr>) = btree_node_magic" "nh_version (hdr\<lparr>nh_crc := c\<rparr>) = btree_node_version"
      "nh_level (hdr\<lparr>nh_crc := c\<rparr>) = level ?ptr" "nh_bucket (hdr\<lparr>nh_crc := c\<rparr>) = block_addr ?ptr"
      "nh_generation (hdr\<lparr>nh_crc := c\<rparr>) = generation ?ptr" "nh_crc (hdr\<lparr>nh_crc := c\<rparr>) = c"
      "nh_min (hdr\<lparr>nh_crc := c\<rparr>) = nd_min n" "nh_max (hdr\<lparr>nh_crc := c\<rparr>) = nd_max n" "nh_seq (hdr\<lparr>nh_crc := c\<rparr>) = nd_seq n"
      by (simp_all add: hdr_def)
    have pv: "btree_ptr_is_valid ?ptr" "level ?ptr = ?lvl" using addr sw0 by (simp_all add: btree_ptr_is_valid_def)
    have g: "unat (sectors_written ?ptr) mod sectors_per_block = 0" "\<not> length (bytes @ tail) < rb" "\<not> rb < 88"
      using sw len rb(1) by (simp_all add: sectors_per_block_def)
    show ?thesis
      unfolding deserialize_from_extent_def Let_def committed rh rbu tk
      by (simp only: hv pv g val crc parse cnt[symmetric] lt ap st built simp_thms if_True if_False sum.case option.case prod.case)
  qed
  moreover have "nd_level ?n' = ?lvl" "nd_seq ?n' = nd_seq n" "nd_min ?n' = nd_min n" "nd_max ?n' = nd_max n" by (simp_all add: node_new_def)
  ultimately show ?thesis using ser len by (intro exI[of _ bytes] exI[of _ ?n']) (simp only: rb_def simp_thms)
qed

end
