(* ===== verification/NodeAbsorb.thy ===== *)
theory NodeAbsorb
  imports NodeScan
begin

text \<open>
  Absorption of a sibling, which a merge of two nodes ends in. The entries of both nodes go through the
  legacy key and value pair, so what survives of an entry is its offset, snapshot, type and first
  eight value bytes.
\<close>

section \<open>Reading the entries of a compacted node by index\<close>

lemma skip_entries_laid:
  assumes "laid data off ps" "list_all pent_ok ps" "i \<le> length ps"
  shows "skip_entries data off i = Some (off + pents_size (take i ps))"
  using assms
proof (induction i arbitrary: off ps)
  case (Suc i)
  then obtain x xs where ps: "ps = x # xs" by (cases ps) auto
  have ok: "pent_ok x" using Suc.prems(2) ps by simp
  obtain rest where at: "drop off data = pent_bytes x @ rest" and l: "laid data (off + pent_size x) xs"
    using Suc.prems(1) laid_Cons[OF ok] ps by blast
  have m: "pent_size x div 8 * 8 = pent_size x"
    using ok by (auto simp: pent_ok_def pent_size_def elim!: dvdE simp flip: dvd_eq_mod_eq_0)
  have "skip_entries data (off + pent_size x) i = Some (off + pent_size x + pents_size (take i xs))"
    using Suc.IH[OF l] Suc.prems(2,3) ps by simp
  then show ?case using entry_at(1)[OF at ok] m by (simp add: ps)
qed simp

lemma read_entry_compacted:
  assumes c: "compacted n es" and v: "\<forall>e \<in> set es. valued e" and i: "1 \<le> i" "i \<le> length es"
  shows "read_entry (nd_data n) (nd_sets n ! 0) i = Some (entry_legacy (es ! (i - 1)))"
proof -
  let ?ps = "map pent_of es" and ?data = "nd_data n" and ?t = "nd_sets n ! 0"
  let ?ds = "pents_size ?ps"
  have wf: "node_wf n ?ps []" using c by (simp add: compacted_def Let_def)
  have t: "bs_data ?t = 0" "bs_aux ?t = (if ?ds + 25 * length es \<le> nd_size n then ?ds else 0)"
    and a1: "?ds + 25 * length es \<le> nd_size n \<Longrightarrow> aux_laid ?data ?ds (sorted_aux es)"
    using c by (simp_all add: compacted_def Let_def)
  have l: "laid ?data 0 ?ps" "list_all pent_ok ?ps" using wf t(1) by (auto elim!: node_wfE simp: set_holds_def)
  have sz: "?ds \<le> 262144" using node_wf_sizes(1)[OF wf] wf by (auto elim!: node_wfE)
  have lt: "i - 1 < length es" using i by simp
  have rd: "read_packed_entry ?data (unat (of_nat (pents_size (take (i - 1) ?ps)) :: u32)) = Some (entry_legacy (es ! (i - 1)))"
    by (rule read_laid_entry[OF l sz v lt])
  have "pents_size (take (i - 1) ?ps) \<le> 262144" using pents_size_take[of "i - 1" ?ps] sz by simp
  then have u: "unat (of_nat (pents_size (take (i - 1) ?ps)) :: u32) = pents_size (take (i - 1) ?ps)" by (simp add: unat_of_nat)
  show ?thesis
  proof (cases "0 < bs_aux ?t")
    case False
    then have "entry_offset ?data ?t i = Some (pents_size (take (i - 1) ?ps))"
      using skip_entries_laid[OF l, of "i - 1"] i t(1) by (simp add: entry_offset_def)
    then show ?thesis using rd unfolding u by (simp add: read_entry_def)
  next
    case True
    then have aux: "bs_aux ?t = ?ds" "aux_laid ?data ?ds (sorted_aux es)" using t(2) a1 by (auto split: if_splits)
    have "read_aux ?data (?ds + (i - 1) * 25) = Some (entry_key (es ! (i - 1)), of_nat (pents_size (take (i - 1) ?ps)))"
      using read_aux_laid[OF aux(2), of "i - 1"] sorted_aux_nth[OF lt] lt by simp
    then have "?ds + (i - 1) * 25 + 25 \<le> length ?data"
      "(le_word (take 4 (drop 21 (drop (?ds + (i - 1) * 25) ?data))) :: u32) = of_nat (pents_size (take (i - 1) ?ps))"
      by (auto simp: read_aux_def aux_entry_size_def Let_def split: if_splits)
    then have "entry_offset ?data ?t i = Some (unat (of_nat (pents_size (take (i - 1) ?ps)) :: u32))"
      using i True by (simp add: entry_offset_def Let_def aux(1) aux_entry_size_def add.commute)
    then show ?thesis using rd by (simp add: read_entry_def)
  qed
qed

lemma read_entries_map: "(\<And>i. i \<in> set js \<Longrightarrow> read_entry data t i = Some (f i)) \<Longrightarrow> read_entries data t js = Some (map f js)"
  by (induction js) simp_all

lemma read_entries_compacted:
  assumes "compacted n es" "\<forall>e \<in> set es. valued e"
  shows "read_entries (nd_data n) (nd_sets n ! 0) [1..<length es + 1] = Some (map entry_legacy es)"
proof -
  have "read_entries (nd_data n) (nd_sets n ! 0) [1..<length es + 1] = Some (map (\<lambda>i. entry_legacy (es ! (i - 1))) [1..<length es + 1])"
    using read_entry_compacted[OF assms] by (intro read_entries_map) auto
  moreover have "map (\<lambda>i. entry_legacy (es ! (i - 1))) [1..<length es + 1] = map entry_legacy es"
    by (rule nth_equalityI) (simp_all del: upt_Suc)
  ultimately show ?thesis by simp
qed

section \<open>Absorption\<close>

text \<open>What the legacy pair keeps of an entry.\<close>

definition cut_entry :: "btree_entry \<Rightarrow> btree_entry" where
  "cut_entry e = (case entry_legacy e of (k, v) \<Rightarrow> entry_from_legacy k v)"

lemma cut_entry_simps: "node_key (cut_entry e) = node_key e" "ekey_type (cut_entry e) = ekey_type e" "inode (pos (cut_entry e)) = 0"
    "pent_ok (pent_of (cut_entry e))" "pent_size (pent_of (cut_entry e)) = 32" "length (snd (snd (pent_of (cut_entry e)))) = 8"
proof -
  obtain v where v: "cut_entry e = entry_from_legacy (entry_key e) v" by (simp add: cut_entry_def entry_legacy_def)
  show "node_key (cut_entry e) = node_key e" "ekey_type (cut_entry e) = ekey_type e" "inode (pos (cut_entry e)) = 0"
    by (simp_all add: v entry_from_legacy_def entry_key_def btree_key_from_bpos_def btree_key_new_def bpos_key_def)
  show "pent_ok (pent_of (cut_entry e))" "pent_size (pent_of (cut_entry e)) = 32" unfolding v legacy_pent_of[symmetric] by simp_all
  show "length (snd (snd (pent_of (cut_entry e)))) = 8" unfolding v legacy_pent_of[symmetric] by (simp add: legacy_pent_def)
qed

lemma write_legacy_eq: "write_legacy data cur (map entry_legacy es) =
    map_option (\<lambda>(d, offs, c). (d, c)) (write_entries data cur (map cut_entry es))"
proof (induction es arbitrary: data cur)
  case (Cons e es)
  obtain k v where kv: "entry_legacy e = (k, v)" by (cases "entry_legacy e")
  then have "write_entry_bytes data cur (cut_entry e) = write_entry data cur k v" by (simp add: cut_entry_def write_entry_legacy)
  then show ?case using Cons.IH kv by (auto simp: option.map_comp comp_def split: option.split)
qed simp

lemma pents_size_cut: "pents_size (map pent_of (map cut_entry es)) = 32 * length es"
  by (induction es) (simp_all add: cut_entry_simps)

lemma valued_size: "valued e \<Longrightarrow> 32 \<le> pent_size (pent_of e)"
  by (cases "key_value_to_bytes (evalue e)") (auto simp: pent_size_of valued_def div_ceil8_def)

lemma pents_size_valued: "\<forall>e \<in> set es. valued e \<Longrightarrow> 32 * length es \<le> pents_size (map pent_of es)"
proof (induction es)
  case (Cons e es)
  then show ?case using valued_size[of e] by simp
qed simp

lemma live_at_map:
  assumes "\<And>e. node_key (h e) = node_key e" "\<And>e. ekey_type (h e) = ekey_type e"
  shows "live_at (map h es) k = map_option h (live_at es k)"
proof -
  have "find (\<lambda>e. node_key e = k) (map h js) = map_option h (find (\<lambda>e. node_key e = k) js)" for js
    using assms(1) by (induction js) auto
  then show ?thesis using assms(2) by (simp add: live_at_def last_written_def rev_map split: option.split)
qed

lemma update_range_compacted:
  assumes c: "compacted n es" and v: "\<forall>e \<in> set es. valued e"
  shows "\<exists>a b. update_range n = Some (n\<lparr>nd_min := a, nd_max := b\<rparr>)"
proof (cases "es = []")
  case True
  then have "nd_key_count n = 0" using c by (simp add: compacted_def Let_def)
  then show ?thesis by (intro exI[of _ "nd_min n"] exI[of _ "nd_max n"]) (simp add: update_range_def)
next
  case False
  have wf: "node_wf n (map pent_of es) []" and k: "nd_key_count n = of_nat (length es)" using c by (simp_all add: compacted_def Let_def)
  have "length es \<le> 10922" using node_wf_sizes(2)[OF wf] by simp
  then have "unat (nd_key_count n) = length es" unfolding k by (simp add: unat_of_nat)
  moreover from this False have "0 < nd_key_count n" by (cases "nd_key_count n = 0") (auto simp: word_gt_0)
  moreover have "1 \<le> length es" using False by (cases es) auto
  ultimately show ?thesis
    using read_entry_compacted[OF c v, of 1] read_entry_compacted[OF c v, of "length es"]
    by (auto simp: update_range_def entry_legacy_def)
qed

text \<open>
  Absorbing a node that fits: the result holds the cut live entries of both nodes, and every value in
  it is eight bytes long.
\<close>

lemma absorb_wf:
  assumes n: "node_wf n xs ys" and m: "node_wf m us ws"
    and es: "es = live_entries (map (pent_entry (nd_level n)) (xs @ ys))" and fs: "fs = live_entries (map (pent_entry (nd_level m)) (us @ ws))"
    and v: "\<forall>e \<in> set (es @ fs). valued e" and fit: "can_absorb n m = Some True"
  shows "\<exists>n' m' zs. node_absorb n m = Some (n', m') \<and> node_wf n' zs [] \<and> nd_level n' = nd_level n \<and>
    (\<forall>k. node_map (nd_level n) zs k = map_option (\<lambda>e. pent_entry (nd_level n) (pent_of (cut_entry e))) (live_at (es @ fs) k)) \<and>
    (\<forall>z \<in> set zs. length (snd (snd z)) = 8 \<and> inode (fst z) = 0) \<and>
    nd_sets m' ! 0 = bset_empty \<and> nd_key_count m' = 0"
proof -
  let ?lvl = "nd_level n"
  let ?all = "map cut_entry (es @ fs)"
  let ?ps = "map pent_of ?all"
  note ln = live_pents[OF n es] and lm = live_pents[OF m fs]
  obtain n1 where n1: "node_compact n = Some n1" "compacted n1 es" "nd_level n1 = ?lvl" "nd_size n1 = nd_size n"
    using node_compact_wf[OF n es] by blast
  obtain m1 where m1: "node_compact m = Some m1" "compacted m1 fs" using node_compact_wf[OF m fs] by blast
  have wf1: "node_wf n1 (map pent_of es) []" and s1: "unat (bs_size (nd_sets n1 ! 0)) = length es"
    "nd_sets n1 = [nd_sets n1 ! 0, bset_empty, bset_empty]"
    using n1(2) ln(3) by (simp_all add: compacted_def Let_def unat_of_nat)
  have s2: "unat (bs_size (nd_sets m1 ! 0)) = length fs" "nd_sets m1 \<noteq> []"
    using m1(2) lm(3) by (auto simp: compacted_def Let_def unat_of_nat)
  have rd: "read_entries (nd_data n1) (nd_sets n1 ! 0) [1..<length es + 1] = Some (map entry_legacy es)"
    "read_entries (nd_data m1) (nd_sets m1 ! 0) [1..<length fs + 1] = Some (map entry_legacy fs)"
    using v by (intro read_entries_compacted[OF n1(2)] read_entries_compacted[OF m1(2)]; simp)+
  have ok: "list_all pent_ok ?ps" by (auto simp: list_all_iff cut_entry_simps)
  have "pents_size (xs @ ys) + pents_size (us @ ws) + 96 \<le> nd_size n"
    using fit by (simp add: can_absorb_def total_data_bytes_wf[OF n] total_data_bytes_wf[OF m] entry_size_def bkey_u64s_def)
  moreover have "32 * length es \<le> pents_size (map pent_of es)" "32 * length fs \<le> pents_size (map pent_of fs)"
    using v by (auto intro!: pents_size_valued)
  ultimately have room: "pents_size ?ps \<le> nd_size n" using ln(5) lm(5) unfolding pents_size_cut by simp
  have b: "nd_size n1 \<le> length (nd_data n1)" "nd_size n1 \<le> 262144" using wf1 by (auto elim!: node_wfE)
  have fits: "0 + pents_size ?ps \<le> length (nd_data n1)" using room b n1(4) by simp
  let ?d = "put_bytes 0 (concat (map pent_bytes ?ps)) (nd_data n1)"
  have w: "write_legacy (nd_data n1) 0 (map entry_legacy es @ map entry_legacy fs) = Some (?d, pents_size ?ps)"
    using write_entries_eq[OF ok fits] write_legacy_eq[of "nd_data n1" 0 "es @ fs"] by simp
  let ?t = "\<lparr>bs_data = 0, bs_end = pents_size ?ps, bs_aux = 0, bs_size = of_nat (length es + length fs), bs_extra = 0\<rparr>"
  let ?n2 = "n1\<lparr>nd_data := ?d, nd_sets := (nd_sets n1)[0 := ?t], nd_key_count := of_nat (length es + length fs)\<rparr>"
  have d: "laid ?d 0 ?ps" "length ?d = length (nd_data n1)" using laid_put[OF ok fits] fits length_pents_bytes[OF ok] by simp_all
  have "unat (of_nat (length es + length fs) :: u16) = length es + length fs" using ln(3) lm(3) by (simp add: unat_of_nat del: of_nat_add)
  then have "set_holds ?d ?t ?ps" using d(1) ok by (simp add: set_holds_def)
  moreover have "(nd_sets n1)[0 := ?t] = [?t, bset_empty, bset_empty]" by (subst s1(2)) simp
  ultimately have wf2: "node_wf ?n2 ?ps []" using room b n1(4) d(2) by (simp add: node_wf_def default_node_size_def) (simp add: bset_empty_def)
  define gs where "gs = live_entries (map (pent_entry (nd_level ?n2)) (?ps @ []))"
  obtain n3 where n3: "node_compact ?n2 = Some n3" "compacted n3 gs" "nd_level n3 = nd_level ?n2"
    using node_compact_wf[OF wf2 gs_def] by blast
  have lvl: "nd_level ?n2 = ?lvl" using n1(3) by simp
  have gsub: "set (map pent_of gs) \<subseteq> set ?ps"
  proof
    fix z assume "z \<in> set (map pent_of gs)"
    then obtain g where g: "g \<in> set gs" "z = pent_of g" by auto
    have "g \<in> set (map (pent_entry (nd_level ?n2)) (?ps @ []))" using g(1) unfolding gs_def by (rule subsetD[OF set_live_entries])
    then obtain x where "x \<in> set ?ps" "g = pent_entry (nd_level ?n2) x" by (simp only: set_map append_Nil2) blast
    moreover have "pent_ok x" using ok calculation(1) by (auto simp: list_all_iff)
    ultimately show "z \<in> set ?ps" using g(2) by (simp add: pent_of_entry)
  qed
  have eight: "length (snd (snd z)) = 8 \<and> inode (fst z) = 0" if "z \<in> set (map pent_of gs)" for z
  proof -
    have "z \<in> set ?ps" using that gsub by blast
    then obtain e where "z = pent_of (cut_entry e)" by auto
    then show ?thesis using cut_entry_simps(3,6)[of e] by (simp add: pent_of_def)
  qed
  have "valued g" if "g \<in> set gs" for g
    using eight[of "pent_of g"] that by (auto simp: valued_def pent_of_def pad8_def div_ceil8_def)
  then obtain a c where up: "update_range n3 = Some (n3\<lparr>nd_min := a, nd_max := c\<rparr>)"
    using update_range_compacted[OF n3(2)] by blast
  let ?n4 = "n3\<lparr>nd_min := a, nd_max := c\<rparr>" and ?m2 = "m1\<lparr>nd_sets := (nd_sets m1)[0 := bset_empty], nd_key_count := 0\<rparr>"
  have ab: "node_absorb n m = Some (?n4, ?m2)"
    unfolding node_absorb_def n1(1) m1(1) option.case Let_def s1(1) s2(1) rd w prod.case n3(1) up by simp
  have "node_wf n3 (map pent_of gs) []" using n3(2) by (simp add: compacted_def Let_def)
  then have wf4: "node_wf ?n4 (map pent_of gs) []" by (simp add: node_wf_def)
  let ?h = "\<lambda>e. pent_entry ?lvl (pent_of (cut_entry e))"
  have "node_map ?lvl (map pent_of gs) k = map_option ?h (live_at (es @ fs) k)" for k
  proof -
    have "map (pent_entry ?lvl) (map pent_of gs) = gs" using live_pents(4)[OF wf2 gs_def] lvl by simp
    then have "node_map ?lvl (map pent_of gs) k = live_at gs k" by (simp only: node_map_def)
    also have "\<dots> = live_at (map ?h (es @ fs)) k" unfolding gs_def live_at_live_entries lvl by (simp add: comp_def)
    also have "\<dots> = map_option ?h (live_at (es @ fs) k)"
    proof (rule live_at_map)
      fix e
      show "node_key (?h e) = node_key e" "ekey_type (?h e) = ekey_type e"
        using cut_entry_simps(1,2)[of e] by (simp_all add: pent_entry_def pent_of_def)
    qed
    finally show ?thesis .
  qed
  then show ?thesis
    using ab wf4 eight n3(3) lvl s2(2)
    by (intro exI[of _ ?n4] exI[of _ ?m2] exI[of _ "map pent_of gs"]) (auto simp: nth_list_update)
qed

end
