(* ===== verification/NodeClaims.thy ===== *)
theory NodeClaims
  imports NodeRecordProps NodeAbsorb
begin

text \<open>
  What the operations on a node promise, over the entries a well-formed node holds, and where the
  code falls short of it.
\<close>

section \<open>Concrete nodes\<close>

definition demo_key :: "nat \<Rightarrow> btree_key" where
  "demo_key i = btree_key_new (of_nat i) 0 Normal"

definition demo_val :: "u64 \<Rightarrow> bch_val" where
  "demo_val a = \<lparr>paddr = a, ver = 0\<rparr>"

abbreviation demo_pents :: "nat \<Rightarrow> pent list" where
  "demo_pents k \<equiv> map (\<lambda>i. legacy_pent (demo_key i) (demo_val 1)) [0..<k]"

lemma pents_size_legacy: "pents_size (map (\<lambda>i. legacy_pent (f i) (g i)) js) = 32 * length js"
  by (induction js) simp_all

lemma legacy_valued [simp]: "pent_valued (legacy_pent k v)"
  by (simp add: pent_valued_def legacy_pent_def)

lemma fresh_legacy:
  assumes "fresh n ys" "pents_size ys + 32 \<le> nd_size n"
  shows "\<exists>n'. node_insert n k v = Some (True, n') \<and> fresh n' (ys @ [legacy_pent k v]) \<and> nd_size n' = nd_size n \<and>
    nd_level n' = nd_level n \<and> nd_key_count n' = nd_key_count n + 1 \<and> nd_whiteouts n' = nd_whiteouts n"
proof -
  have p: "pent_ok (pent_of (entry_from_legacy k v))" "pents_size ys + pent_size (pent_of (entry_from_legacy k v)) \<le> nd_size n"
    using assms(2) legacy_pent_ok[of k v] by (simp_all add: legacy_pent_of)
  show ?thesis using fresh_insert[OF assms(1) p] unfolding node_insert_legacy legacy_pent_of by blast
qed

lemma demo_filled: "32 * k \<le> 262144 \<Longrightarrow> \<exists>n. fresh n (demo_pents k) \<and> nd_size n = 262144 \<and> nd_level n = 0"
proof (induction k)
  case 0
  then show ?case using fresh_new[of 0] by (intro exI[of _ "node_new 0"]) (simp add: node_new_def default_node_size_def)
next
  case (Suc k)
  then obtain n where n: "fresh n (demo_pents k)" "nd_size n = 262144" "nd_level n = 0" by auto
  have "pents_size (demo_pents k) + 32 \<le> nd_size n" using Suc.prems n(2) by (simp add: pents_size_legacy)
  from fresh_legacy[OF n(1) this, of "demo_key k" "demo_val 1"] show ?case using n by auto
qed

lemma demo_live:
  assumes "k \<le> 10000"
  shows "live_entries (map (pent_entry 0) (demo_pents k)) = map (\<lambda>i. pent_entry 0 (legacy_pent (demo_key i) (demo_val 1))) [0..<k]"
proof -
  have "sorted_wrt (\<lambda>a b. node_key a < node_key b) (map (\<lambda>i. pent_entry 0 (legacy_pent (demo_key i) (demo_val 1))) [0..<k])"
    using assms
    by (auto simp: sorted_wrt_iff_nth_less pent_entry_def legacy_pent_def target_bpos_def demo_key_def btree_key_new_def
        bpos_key_less_iff word_less_nat_alt unat_of_nat)
  moreover have "ekey_type e \<noteq> Deleted"
    if "e \<in> set (map (\<lambda>i. pent_entry 0 (legacy_pent (demo_key i) (demo_val 1))) [0..<k])" for e
    using that by (auto simp: pent_entry_def legacy_pent_def demo_key_def btree_key_new_def)
  ultimately have "live_entries (map (\<lambda>i. pent_entry 0 (legacy_pent (demo_key i) (demo_val 1))) [0..<k])
      = map (\<lambda>i. pent_entry 0 (legacy_pent (demo_key i) (demo_val 1))) [0..<k]" by (rule live_entries_id)
  then show ?thesis by (simp add: comp_def)
qed

section \<open>Insertion\<close>

text \<open>
  Inserting an entry into a well-formed node never panics and keeps it well-formed. An accepted
  entry is the last of the incremental set, nothing else in the node changes, and the slot it was
  written for then stands for it; a refused one changes no entry, and it is refused only when, even
  without the sorted search array, the sets leave no room for it.
\<close>

theorem node_insert_spec:
  assumes "node_wf n xs ys" and "pent_ok (pent_of e)"
  shows "\<exists>b n'. node_insert_entry n e = Some (b, n') \<and>
    (if b then node_wf n' xs (ys @ [pent_of e]) \<and>
          node_map (nd_level n) (xs @ ys @ [pent_of e]) =
            (node_map (nd_level n) (xs @ ys))(node_key e := if ekey_type e = Deleted then None else Some (pent_entry (nd_level n) (pent_of e)))
     else node_wf n' xs ys \<and> nd_size n < calc_free_start (nd_sets n') + pent_size (pent_of e))"
proof -
  have "node_map (nd_level n) (xs @ ys @ [pent_of e]) k =
      ((node_map (nd_level n) (xs @ ys))(node_key e := if ekey_type e = Deleted then None else Some (pent_entry (nd_level n) (pent_of e)))) k" for k
    using node_map_snoc[of "nd_level n" "xs @ ys" "pent_of e" k] by (simp add: pent_of_def)
  then show ?thesis using insert_entry_wf[OF assms] by fastforce
qed

theorem node_insert_spec_witness:
  "\<exists>b n'. node_insert_entry (node_new 0) \<lparr>pos = Bpos 3 7 1, ekey_type = Normal, evalue = Raw [1, 2, 3]\<rparr> = Some (b, n')"
proof -
  have "pent_ok (pent_of \<lparr>pos = Bpos 3 7 1, ekey_type = Normal, evalue = Raw [1, 2, 3]\<rparr>)" by (simp add: pent_ok_of div_ceil8_def)
  from node_insert_spec[OF node_wf_new this, of 0] show ?thesis by blast
qed

section \<open>Compaction and lookup\<close>

lemma find_unique_conj:
  "sorted_wrt (\<lambda>a b. node_key a < node_key b) es \<Longrightarrow>
   find (\<lambda>e. node_key e = k \<and> Q e) es = (case find (\<lambda>e. node_key e = k) es of None \<Rightarrow> None | Some e \<Rightarrow> if Q e then Some e else None)"
proof (induction es)
  case (Cons x es)
  then show ?case by (auto split: option.splits simp: find_None_iff find_Some_iff)
qed simp

lemma entry_key_eq: "btree_key_eq (entry_key e) t \<longleftrightarrow> node_key e = bpos_key (target_bpos t) \<and> ekey_type e = bk_type t"
  by (auto simp: btree_key_eq_def entry_key_def btree_key_from_bpos_def btree_key_new_def bpos_key_eq_iff target_bpos_def)

lemma pent_valued_entry: "pent_ok x \<Longrightarrow> pent_valued x \<Longrightarrow> valued (pent_entry lvl x)"
proof -
  assume "pent_ok x" "pent_valued x"
  then have "8 \<le> length (snd (snd (pent_of (pent_entry lvl x))))" by (simp add: pent_of_entry pent_valued_def)
  then show ?thesis by (auto simp: valued_def pent_of_def pad8_def div_ceil8_def)
qed

text \<open> C24. Compaction followed by lookup is a lookup in the writes: take a well-formed node all of whose
  values have at least eight bytes, and whose live entries fit the node together with the sorted
  array. If it has fewer than 16 live entries, or the Eytzinger array would start below byte 65536,
  then after compaction looking up a key returns the value of the last entry written for its
  address and snapshot, provided that entry is not a deletion and has the key's type, and nothing
  otherwise. Both search paths are covered: the walk down the Eytzinger array and the binary search
  it falls back on. (The code's lookup key has no inode, and neither has the slot.)
\<close>

theorem node_compact_search:
  assumes "node_wf n xs ys" and "\<forall>x \<in> set (xs @ ys). pent_valued x"
    and "es = live_entries (map (pent_entry (nd_level n)) (xs @ ys))"
    and "pents_size (map pent_of es) + 25 * length es \<le> nd_size n"
    and "length es < 16 \<or> pents_size (map pent_of es) + 25 * length es < 65536"
  shows "\<exists>n'. node_compact n = Some n' \<and> (\<forall>target. node_search n' target =
    Some (case node_map (nd_level n) (xs @ ys) (bpos_key (target_bpos target)) of
            None \<Rightarrow> None
          | Some e \<Rightarrow> if ekey_type e = bk_type target then Some (entry_legacy e) else None))"
proof -
  let ?raw = "map (pent_entry (nd_level n)) (xs @ ys)"
  obtain n' where n': "node_compact n = Some n'" "compacted n' es" "nd_size n' = nd_size n"
    using node_compact_wf[OF assms(1,3)] by blast
  have ok: "\<forall>x \<in> set (xs @ ys). pent_ok x" using assms(1) by (auto elim!: node_wfE simp: set_holds_def list_all_iff)
  have v: "\<forall>e \<in> set (live_entries ?raw). valued e"
  proof
    fix e assume "e \<in> set (live_entries ?raw)"
    then have "e \<in> set ?raw" by (rule subsetD[OF set_live_entries])
    then show "valued e" using ok assms(2) by (auto intro: pent_valued_entry)
  qed
  have "node_search n' target =
      Some (map_option entry_legacy (find (\<lambda>e. btree_key_eq (entry_key e) target) (live_entries ?raw)))" for target
    using search_compacted[OF _ v, of n' target] n' assms(3-5) by simp
  then show ?thesis
    using n'(1) unfolding entry_key_eq find_unique_conj[OF live_entries_sorted] find_live_entries node_map_def
    by (intro exI[of _ n']) (simp split: option.split)
qed

theorem node_compact_search_witness:
  "\<exists>n n'. fresh n (demo_pents 20) \<and> node_compact n = Some n' \<and>
     (\<exists>v. node_search n' (demo_key 7) = Some (Some (demo_key 7, v))) \<and> node_search n' (demo_key 20) = Some None"
proof -
  obtain n where n: "fresh n (demo_pents 20)" "nd_size n = 262144" "nd_level n = 0" using demo_filled[of 20] by auto
  let ?es = "map (\<lambda>i. pent_entry 0 (legacy_pent (demo_key i) (demo_val 1))) [0..<20]"
  have es: "?es = live_entries (map (pent_entry (nd_level n)) ([] @ demo_pents 20))" using demo_live[of 20] n(3) by simp
  have sz: "pents_size (map pent_of ?es) = 640" "length ?es = 20"
  proof -
    have "map pent_of ?es = demo_pents 20" by (simp add: comp_def pent_of_entry)
    from this show "pents_size (map pent_of ?es) = 640"
      using pents_size_legacy[of demo_key "\<lambda>i. demo_val 1" "[0..<20]"] by (simp only:) simp
  qed simp
  have wf: "node_wf n [] (demo_pents 20)" using n(1) by (simp add: fresh_def)
  have fit: "pents_size (map pent_of ?es) + 25 * length ?es \<le> nd_size n"
    "length ?es < 16 \<or> pents_size (map pent_of ?es) + 25 * length ?es < 65536" using sz n(2) by simp_all
  have v: "\<forall>x \<in> set ([] @ demo_pents 20). pent_valued x" by simp
  obtain n' where n': "node_compact n = Some n'" and s: "\<And>t. node_search n' t =
    Some (case node_map (nd_level n) ([] @ demo_pents 20) (bpos_key (target_bpos t)) of
            None \<Rightarrow> None | Some e \<Rightarrow> if ekey_type e = bk_type t then Some (entry_legacy e) else None)"
    using node_compact_search[OF wf v es fit] by blast
  have m: "node_map (nd_level n) ([] @ demo_pents 20) k = find (\<lambda>e. node_key e = k) ?es" for k
    unfolding node_map_def find_live_entries[symmetric] es[symmetric] ..
  have key: "node_key (pent_entry 0 (legacy_pent (demo_key i) (demo_val 1))) = bpos_key (target_bpos (demo_key j)) \<longleftrightarrow> i = j"
    if "i \<le> 20" "j \<le> 20" for i j
    using that by (auto simp: pent_entry_def legacy_pent_def target_bpos_def demo_key_def btree_key_new_def bpos_key_eq_iff
        word_unat_eq_iff unat_of_nat)
  have f20: "find (\<lambda>e. node_key e = bpos_key (target_bpos (demo_key 20))) ?es = None" using key[of _ 20] by (auto simp: find_None_iff)
  have "pent_entry 0 (legacy_pent (demo_key 7) (demo_val 1)) \<in> set ?es" by simp
  then obtain e where e: "find (\<lambda>e. node_key e = bpos_key (target_bpos (demo_key 7))) ?es = Some e" "e \<in> set ?es"
    "node_key e = bpos_key (target_bpos (demo_key 7))"
    using key[of 7 7] by (cases "find (\<lambda>e. node_key e = bpos_key (target_bpos (demo_key 7))) ?es")
      (auto simp: find_None_iff dest: find_SomeD)
  then obtain i where i: "i < 20" "e = pent_entry 0 (legacy_pent (demo_key i) (demo_val 1))" by auto
  then have "e = pent_entry 0 (legacy_pent (demo_key 7) (demo_val 1))" using e(3) key[of i 7] by simp
  then have ee: "ekey_type e = Normal" "fst (entry_legacy e) = demo_key 7"
    by (simp_all add: pent_entry_def legacy_pent_def entry_legacy_def entry_key_def btree_key_from_bpos_def target_bpos_def demo_key_def btree_key_new_def)
  have "node_search n' (demo_key 20) = Some None" using s[of "demo_key 20"] unfolding m f20 by simp
  moreover have "node_search n' (demo_key 7) = Some (Some (entry_legacy e))"
    using s[of "demo_key 7"] ee(1) unfolding m e(1) by (simp add: demo_key_def btree_key_new_def)
  moreover have "entry_legacy e = (demo_key 7, snd (entry_legacy e))" using ee(2) by (metis prod.collapse)
  ultimately show ?thesis using n(1) n' by metis
qed

section \<open>Deletion\<close>

text \<open> C27. Take a well-formed node all of whose values have at least eight bytes. Deleting a key whose slot
  (address and snapshot) holds a normal entry and no tombstone, when there is room for the
  tombstone, succeeds and takes exactly that slot out of what the node stands for, whether or not
  the deletion ends in a compaction; the node stays well-formed.
\<close>

theorem node_delete_spec:
  assumes "node_wf n xs ys" and "\<forall>x \<in> set (xs @ ys). pent_valued x"
    and "\<exists>x \<in> set (xs @ ys). pent_slot (vaddr t) (snapshot_id t) x \<and> pent_type x = Normal"
    and "\<not> (\<exists>x \<in> set (xs @ ys). pent_slot (vaddr t) (snapshot_id t) x \<and> pent_type x = Deleted)"
    and "make_room n entry_size = (n1, Some free)"
  shows "\<exists>n' zs ws. delete_key n t = Some (True, n') \<and> node_wf n' zs ws \<and> nd_level n' = nd_level n \<and>
    node_map (nd_level n) (zs @ ws) = (node_map (nd_level n) (xs @ ys))(bpos_key (target_bpos t) := None)"
proof -
  have "has_live_entry n (vaddr t) (snapshot_id t) = Some True" using has_live_wf[OF assms(1,2)] assms(3,4) by simp
  from delete_removes[OF assms(1) this assms(5)] obtain n' zs ws where
    "delete_key n t = Some (True, n')" "node_wf n' zs ws" "nd_level n' = nd_level n"
    "\<forall>k. node_map (nd_level n) (zs @ ws) k = (if k = bpos_key (target_bpos t) then None else node_map (nd_level n) (xs @ ys) k)" by blast
  then show ?thesis by (intro exI[of _ n'] exI[of _ zs] exI[of _ ws]) (auto simp: fun_eq_iff)
qed

lemma fresh_room:
  assumes "fresh n ys" "pents_size ys + 32 \<le> nd_size n"
  shows "\<exists>free. make_room n entry_size = (n, Some free)"
proof -
  have wf: "node_wf n [] ys" using assms(1) by (simp add: fresh_def)
  obtain t1 where t: "nd_sets n = [bset_empty, t1, bset_empty]" "bs_data t1 = 0" using assms(1) by (auto simp: fresh_def)
  have h: "list_all pent_ok ys" "bs_end t1 = pents_size ys" "bs_aux t1 = 0"
    using wf t by (auto elim!: node_wfE simp: set_holds_def)
  have "(pents_size ys + 7) div 8 * 8 = pents_size ys" using pents_size_mod8[OF h(1)] by (auto elim!: dvdE simp flip: dvd_eq_mod_eq_0)
  then have "calc_free_start (nd_sets n) = pents_size ys" by (simp add: calc_free_start_def t h aux_end_def bset_empty_def)
  then show ?thesis using assms(2) by (simp add: make_room_def Let_def entry_size_def bkey_u64s_def)
qed

theorem node_delete_spec_witness:
  "\<exists>n n'. fresh n (demo_pents 20) \<and> delete_key n (demo_key 3) = Some (True, n')"
proof -
  obtain n where n: "fresh n (demo_pents 20)" "nd_size n = 262144" using demo_filled[of 20] by auto
  have wf: "node_wf n [] (demo_pents 20)" using n(1) by (simp add: fresh_def)
  have "pents_size (demo_pents 20) + 32 \<le> nd_size n" using n(2) pents_size_legacy[of demo_key "\<lambda>i. demo_val 1" "[0..<20]"] by simp
  from fresh_room[OF n(1) this] obtain free where r: "make_room n entry_size = (n, Some free)" by blast
  have v: "\<forall>x \<in> set ([] @ demo_pents 20). pent_valued x" by simp
  have "legacy_pent (demo_key 3) (demo_val 1) \<in> set ([] @ demo_pents 20)" by simp
  moreover have "pent_slot (vaddr (demo_key 3)) (snapshot_id (demo_key 3)) (legacy_pent (demo_key 3) (demo_val 1)) \<and>
      pent_type (legacy_pent (demo_key 3) (demo_val 1)) = Normal"
    by (simp add: at_slot_def legacy_pent_def target_bpos_def demo_key_def btree_key_new_def)
  ultimately have a: "\<exists>x \<in> set ([] @ demo_pents 20). pent_slot (vaddr (demo_key 3)) (snapshot_id (demo_key 3)) x \<and> pent_type x = Normal"
    by blast
  have b: "\<not> (\<exists>x \<in> set ([] @ demo_pents 20). pent_slot (vaddr (demo_key 3)) (snapshot_id (demo_key 3)) x \<and> pent_type x = Deleted)"
    by (auto simp: legacy_pent_def demo_key_def btree_key_new_def)
  show ?thesis using node_delete_spec[OF wf v a b r] n(1) by blast
qed

text \<open>
  Writing a key again after deleting it does not make it deletable: until the next compaction
  the node stands for the new value, yet a deletion of it is refused, because any tombstone in the
  slot, also one written before the value, makes the key count as dead.
\<close>

theorem reinserted_key_undeletable:
  assumes "node_wf n xs ys" and "\<forall>x \<in> set (xs @ ys). pent_valued x"
    and "x \<in> set (xs @ ys)" and "fst x = target_bpos t" and "pent_type x = Deleted" and "bk_type t = Normal"
    and "node_insert n t v = Some (True, n')"
  shows "\<exists>zs. node_wf n' xs zs \<and> node_map (nd_level n) (xs @ zs) (bpos_key (target_bpos t)) = Some (pent_entry (nd_level n) (legacy_pent t v)) \<and>
    delete_key n' t = Some (False, n')"
proof -
  have ok: "pent_ok (pent_of (entry_from_legacy t v))" by (simp flip: legacy_pent_of)
  have wf': "node_wf n' xs (ys @ [legacy_pent t v])"
    using insert_entry_wf[OF assms(1) ok] assms(7) by (auto simp: node_insert_legacy legacy_pent_of)
  have "node_map (nd_level n) (xs @ ys @ [legacy_pent t v]) (bpos_key (target_bpos t)) = Some (pent_entry (nd_level n) (legacy_pent t v))"
    using node_map_snoc[of "nd_level n" "xs @ ys" "legacy_pent t v"] assms(6) by (simp add: legacy_pent_def)
  moreover have "delete_key n' t = Some (False, n')"
    by (rule delete_refused[OF wf' _ _ assms(4,5)]) (use assms(2,3) in auto)
  ultimately show ?thesis using wf' by blast
qed

theorem reinserted_key_undeletable_witness:
  "\<exists>n n1 n2. fresh n [tombstone (demo_key 4)] \<and> node_insert n (demo_key 4) (demo_val 9) = Some (True, n1) \<and>
     delete_key n1 (demo_key 4) = Some (False, n2)"
proof -
  have sz: "nd_size (node_new 0) = 262144" by (simp add: node_new_def default_node_size_def)
  obtain n where n: "fresh n [tombstone (demo_key 4)]" "nd_size n = 262144"
    using fresh_legacy[OF fresh_new[of 0], of "btree_key_new (vaddr (demo_key 4)) (snapshot_id (demo_key 4)) Deleted" "\<lparr>paddr = 0, ver = 0\<rparr>"] sz
    by (auto simp: tombstone_def)
  obtain n1 where n1: "node_insert n (demo_key 4) (demo_val 9) = Some (True, n1)"
    using fresh_legacy[OF n(1), of "demo_key 4" "demo_val 9"] n(2) by auto
  have wf: "node_wf n [] [tombstone (demo_key 4)]" using n(1) by (simp add: fresh_def)
  have v: "\<forall>x \<in> set ([] @ [tombstone (demo_key 4)]). pent_valued x" by simp
  have i: "tombstone (demo_key 4) \<in> set ([] @ [tombstone (demo_key 4)])" by simp
  have k: "bk_type (demo_key 4) = Normal" by (simp add: demo_key_def btree_key_new_def)
  show ?thesis
    using reinserted_key_undeletable[OF wf v i tombstone_simps(1,2) k n1] n(1) n1 by blast
qed

section \<open>Lookup without compaction\<close>

text \<open>
  Without search arrays a lookup answers with the oldest entry of the slot that is not a
  tombstone: it neither sees a newer value nor a deletion, although compaction keeps the last write.
\<close>

theorem search_first_write:
  assumes "node_wf n xs ys" and "\<forall>x \<in> set (xs @ ys). pent_valued x" and "bs_aux (nd_sets n ! 0) = 0"
  shows "node_search n target = Some (map_option pent_legacy (find (pent_match target) (xs @ ys)))"
  by (rule search_oldest[OF assms])

theorem search_first_write_witness:
  "\<exists>n. fresh n [legacy_pent (demo_key 1) (demo_val 5), legacy_pent (demo_key 1) (demo_val 6), tombstone (demo_key 1)] \<and>
     node_search n (demo_key 1) = Some (Some (demo_key 1, demo_val 5)) \<and>
     node_map 0 [legacy_pent (demo_key 1) (demo_val 5), legacy_pent (demo_key 1) (demo_val 6), tombstone (demo_key 1)]
       (bpos_key (target_bpos (demo_key 1))) = None"
proof -
  let ?a = "legacy_pent (demo_key 1) (demo_val 5)" and ?b = "legacy_pent (demo_key 1) (demo_val 6)" and ?c = "tombstone (demo_key 1)"
  have sz: "nd_size (node_new 0) = 262144" by (simp add: node_new_def default_node_size_def)
  obtain n1 where n1: "fresh n1 [?a]" "nd_size n1 = 262144" using fresh_legacy[OF fresh_new[of 0], of "demo_key 1" "demo_val 5"] sz by auto
  obtain n2 where n2: "fresh n2 [?a, ?b]" "nd_size n2 = 262144" using fresh_legacy[OF n1(1), of "demo_key 1" "demo_val 6"] n1(2) by auto
  obtain n where n: "fresh n [?a, ?b, ?c]"
    using fresh_legacy[OF n2(1), of "btree_key_new (vaddr (demo_key 1)) (snapshot_id (demo_key 1)) Deleted" "\<lparr>paddr = 0, ver = 0\<rparr>"] n2(2)
    by (auto simp: tombstone_def)
  have "bs_aux (nd_sets n ! 0) = 0" using n by (auto simp: fresh_def bset_empty_def)
  moreover have "node_wf n [] [?a, ?b, ?c]" using n by (simp add: fresh_def)
  ultimately have "node_search n (demo_key 1) = Some (map_option pent_legacy (find (pent_match (demo_key 1)) [?a, ?b, ?c]))"
    using search_first_write[of n "[]" "[?a, ?b, ?c]" "demo_key 1"] by simp
  moreover have "pent_match (demo_key 1) ?a" by (simp add: pent_match_def legacy_pent_def demo_key_def btree_key_new_def)
  moreover have "pent_legacy ?a = (demo_key 1, demo_val 5)"
  proof -
    have "bch_val_of_bytes (key_value_to_bytes (Extent (demo_val 5))) = (paddr (demo_val 5), ver (demo_val 5))"
      by (rule extent_bytes_roundtrip) (simp add: bch_val_wf_def demo_val_def addr48_max_def)
    then show ?thesis
      by (simp add: pent_legacy_def legacy_pent_def target_bpos_def btree_key_from_bpos_def btree_key_new_def demo_key_def demo_val_def)
  qed
  moreover have "node_map 0 [?a, ?b, ?c] (bpos_key (target_bpos (demo_key 1))) = None"
    using node_map_snoc[of 0 "[?a, ?b]" ?c] by simp
  ultimately show ?thesis using n by (intro exI[of _ n]) simp
qed

end
