(* ===== verification/NodeClaims2.thy ===== *)
theory NodeClaims2
  imports NodeClaims
begin

text \<open>
  Splitting, absorption, the record log and the Eytzinger array: the claims and their concrete
  instances.
\<close>

lemma demo_live_pents:
  assumes "k \<le> 10000"
  shows "map pent_of (live_entries (map (pent_entry 0) (demo_pents k))) = demo_pents k"
  unfolding demo_live[OF assms] by (simp add: comp_def pent_of_entry)

section \<open>Splitting\<close>

text \<open> C38. Splitting a well-formed node with at least two live entries always succeeds, and its halves are the live
  entries cut at the reported median: both are well-formed and non-empty, together they hold the live
  entries in order, every key on the left is below every key on the right, the cut leaves at least a
  fifth of the entries (rounded down) on each side, and each half's key range is that of its entries.
\<close>

theorem node_split_spec:
  assumes "node_wf n xs ys" and "es = live_entries (map (pent_entry (nd_level n)) (xs @ ys))" and "2 \<le> length es"
  shows "\<exists>mid l r. node_split n = Some (Some (entry_key (es ! mid), l, r)) \<and> 0 < mid \<and> mid < length es \<and>
    length es div 5 \<le> mid \<and> mid \<le> length es - length es div 5 \<and>
    node_wf l (map pent_of (take mid es)) [] \<and> node_wf r (map pent_of (drop mid es)) [] \<and>
    (\<forall>a \<in> set (take mid es). \<forall>b \<in> set (drop mid es). node_key a < node_key b) \<and>
    nd_min l = pos (hd es) \<and> nd_max l = pos (es ! (mid - 1)) \<and> nd_min r = pos (es ! mid) \<and> nd_max r = pos (last es)"
proof -
  obtain mid l r where m: "node_split n = Some (Some (entry_key (es ! mid), l, r))" "0 < mid" "mid < length es"
    "length es div 5 \<le> mid" "mid \<le> length es - length es div 5"
    "node_wf l (map pent_of (take mid es)) []" "node_wf r (map pent_of (drop mid es)) []"
    "nd_min l = pos (hd es)" "nd_max l = pos (es ! (mid - 1))" "nd_min r = pos (es ! mid)" "nd_max r = pos (last es)"
    using split_wf[OF assms] by blast
  have "sorted_wrt (\<lambda>a b. node_key a < node_key b) (take mid es @ drop mid es)" unfolding assms(2) append_take_drop_id by (rule live_entries_sorted)
  then have "\<forall>a \<in> set (take mid es). \<forall>b \<in> set (drop mid es). node_key a < node_key b" unfolding sorted_wrt_append by blast
  with m show ?thesis by blast
qed

theorem node_split_spec_witness:
  "\<exists>n m l r. fresh n (demo_pents 20) \<and> node_split n = Some (Some (m, l, r))"
proof -
  obtain n where n: "fresh n (demo_pents 20)" "nd_level n = 0" using demo_filled[of 20] by auto
  have wf: "node_wf n [] (demo_pents 20)" using n(1) by (simp add: fresh_def)
  have two: "2 \<le> length (live_entries (map (pent_entry (nd_level n)) ([] @ demo_pents 20)))"
    using demo_live[of 20] n(2) by simp
  show ?thesis using node_split_spec[OF wf refl two] n(1) by blast
qed

section \<open>Absorption\<close>

text \<open>
  Absorbing a sibling that passes \<open>can_absorb\<close> never panics and keeps the slots and types of the live
  entries of both nodes, the sibling's winning, but it keeps only the first eight bytes of each value
  and sets every inode to 0. A merge of nodes with longer values, such as the 16-byte child pointers
  of interior nodes, silently corrupts them.
\<close>

theorem node_absorb_spec:
  assumes "node_wf n xs ys" and "node_wf m us ws"
    and "es = live_entries (map (pent_entry (nd_level n)) (xs @ ys))" and "fs = live_entries (map (pent_entry (nd_level m)) (us @ ws))"
    and "\<forall>e \<in> set (es @ fs). valued e" and "can_absorb n m = Some True"
  shows "\<exists>n' m' zs. node_absorb n m = Some (n', m') \<and> node_wf n' zs [] \<and> nd_level n' = nd_level n \<and>
    (\<forall>k. node_map (nd_level n) zs k = map_option (\<lambda>e. pent_entry (nd_level n) (pent_of (cut_entry e))) (live_at (es @ fs) k)) \<and>
    (\<forall>z \<in> set zs. length (snd (snd z)) = 8 \<and> inode (fst z) = 0) \<and>
    nd_sets m' ! 0 = bset_empty \<and> nd_key_count m' = 0"
  by (rule absorb_wf[OF assms])

lemma demo_pointer_node:
  "\<exists>n. fresh n [pent_of \<lparr>pos = Bpos 0 5 0, ekey_type = Normal, evalue = BtreePtr \<lparr>block_addr = 77, sectors_written = 8, level = 0, generation = 3\<rparr>\<rparr>] \<and>
     nd_size n = 262144 \<and> nd_level n = 0"
proof -
  let ?e = "\<lparr>pos = Bpos 0 5 0, ekey_type = Normal, evalue = BtreePtr \<lparr>block_addr = 77, sectors_written = 8, level = 0, generation = 3\<rparr>\<rparr>"
  have e: "pent_ok (pent_of ?e)" "pent_size (pent_of ?e) = 40" by (simp_all add: pent_ok_of pent_size_of div_ceil8_def)
  have r: "pents_size [] + pent_size (pent_of ?e) \<le> nd_size (node_new 0)" using e(2) by (simp add: node_new_def default_node_size_def)
  obtain n where n: "fresh n ([] @ [pent_of ?e])" "nd_size n = nd_size (node_new 0)" "nd_level n = nd_level (node_new 0)"
    using fresh_insert[OF fresh_new e(1) r] by blast
  have "nd_size (node_new 0) = 262144" "nd_level (node_new 0) = 0" by (simp_all add: node_new_def default_node_size_def)
  then show ?thesis using n by (intro exI[of _ n]) simp
qed

theorem node_absorb_spec_witness:
  "\<exists>n n' m' zs. fresh n [pent_of \<lparr>pos = Bpos 0 5 0, ekey_type = Normal, evalue = BtreePtr \<lparr>block_addr = 77, sectors_written = 8, level = 0, generation = 3\<rparr>\<rparr>] \<and>
     node_absorb n (node_new 0) = Some (n', m') \<and> node_wf n' zs [] \<and> (\<forall>z \<in> set zs. length (snd (snd z)) = 8)"
proof -
  let ?p = "pent_of \<lparr>pos = Bpos 0 5 0, ekey_type = Normal, evalue = BtreePtr \<lparr>block_addr = 77, sectors_written = 8, level = 0, generation = 3\<rparr>\<rparr>"
  obtain n where n: "fresh n [?p]" "nd_size n = 262144" "nd_level n = 0" using demo_pointer_node by blast
  have wf: "node_wf n [] [?p]" using n(1) by (simp add: fresh_def)
  have ok: "pent_ok ?p" "pent_size ?p = 40" by (simp_all add: pent_ok_of pent_size_of div_ceil8_def)
  have vd: "pent_valued ?p" by (simp add: pent_valued_def pent_of_def length_pad8 div_ceil8_def)
  have v: "\<forall>e \<in> set (live_entries (map (pent_entry (nd_level n)) ([] @ [?p])) @ live_entries (map (pent_entry (nd_level (node_new 0))) ([] @ []))). valued e"
    using set_live_entries[of "map (pent_entry (nd_level n)) [?p]"] set_live_entries[of "[]"] pent_valued_entry[OF ok(1) vd] by (auto simp del: pent_of_entry)
  have fit: "can_absorb n (node_new 0) = Some True"
    using ok(2) n(2) by (simp add: can_absorb_def total_data_bytes_wf[OF wf] total_data_bytes_wf[OF node_wf_new] entry_size_def bkey_u64s_def)
  show ?thesis using node_absorb_spec[OF wf node_wf_new refl refl v fit] n(1) by blast
qed

section \<open>The record log\<close>

text \<open> C25. A well-formed node whose record fits the node size, and whose interior pointer values decode,
  serializes at any non-zero address, and reading the extent back under the pointer
  that commits exactly the record, whatever follows it and in whatever order the reader's hash map
  yields its values, gives a well-formed node with the same live entries, key range, level and
  sequence number.
\<close>

theorem node_record_roundtrip:
  assumes "node_wf n xs ys" and "es = live_entries (map (pent_entry (nd_level n)) (xs @ ys))"
    and "record_size (112 + pents_size (map pent_of es)) \<le> nd_size n"
    and "\<forall>e \<in> set es. decodable (nd_level n) (pent_of e)" and "addr \<noteq> 0" and "\<And>l. mset (perm l) = mset l"
  shows "\<exists>bytes n'. serialize_initial_record n addr gen = Some (Inr bytes) \<and>
    length bytes = record_size (112 + pents_size (map pent_of es)) \<and>
    deserialize_from_extent perm (bytes @ tail)
      \<lparr>block_addr = addr, sectors_written = of_nat (length bytes div 512), level = nd_level n, generation = gen\<rparr> = Some (Inr n') \<and>
    node_wf n' (map pent_of es) [] \<and> nd_level n' = nd_level n \<and> nd_seq n' = nd_seq n \<and> nd_min n' = nd_min n \<and> nd_max n' = nd_max n"
  by (rule initial_record_wf[OF assms])

theorem node_record_roundtrip_witness:
  "\<exists>n bytes n'. fresh n (demo_pents 20) \<and> serialize_initial_record n 77 3 = Some (Inr bytes) \<and> length bytes = 4096 \<and>
     deserialize_from_extent rev (bytes @ [1, 2, 3]) \<lparr>block_addr = 77, sectors_written = 8, level = 0, generation = 3\<rparr> = Some (Inr n') \<and>
     node_wf n' (demo_pents 20) []"
proof -
  obtain n where n: "fresh n (demo_pents 20)" "nd_size n = 262144" "nd_level n = 0" using demo_filled[of 20] by auto
  have wf: "node_wf n [] (demo_pents 20)" using n(1) by (simp add: fresh_def)
  define es where "es = live_entries (map (pent_entry (nd_level n)) ([] @ demo_pents 20))"
  have ps: "map pent_of es = demo_pents 20" using demo_live[of 20] n(3) by (simp add: es_def comp_def pent_of_entry)
  have sz: "pents_size (demo_pents 20) = 640" using pents_size_legacy[of demo_key "\<lambda>i. demo_val 1" "[0..<20]"] by simp
  have rs: "record_size (112 + pents_size (map pent_of es)) = 4096" unfolding ps sz by (simp add: record_size_def)
  have fit: "record_size (112 + pents_size (map pent_of es)) \<le> nd_size n" using rs n(2) by simp
  have dec: "\<forall>e \<in> set es. decodable (nd_level n) (pent_of e)" using n(3) by (simp add: decodable_def)
  have a: "(77 :: u64) \<noteq> 0" by simp
  obtain bytes n' where b: "serialize_initial_record n 77 3 = Some (Inr bytes)"
    "length bytes = record_size (112 + pents_size (map pent_of es))"
    "deserialize_from_extent rev (bytes @ [1, 2, 3])
      \<lparr>block_addr = 77, sectors_written = of_nat (length bytes div 512), level = nd_level n, generation = 3\<rparr> = Some (Inr n')"
    "node_wf n' (map pent_of es) []"
    using node_record_roundtrip[OF wf es_def fit dec a mset_rev] by blast
  have "(of_nat (length bytes div 512) :: u16) = 8" using b(2) rs by simp
  then show ?thesis using n(1) b rs n(3) ps by (intro exI[of _ n] exI[of _ bytes] exI[of _ n']) simp
qed

section \<open>The Eytzinger array\<close>

text \<open>
  In a large node the \<open>u16\<close> field that should hold the offset of the Eytzinger array cannot: whenever
  the array starts at or behind byte 65536, the set's \<open>extra\<close> holds a different offset, so a lookup
  starts by walking over unrelated bytes.
\<close>

theorem eytzinger_offset_truncated:
  assumes "node_wf n xs ys" and "es = live_entries (map (pent_entry (nd_level n)) (xs @ ys))"
    and "pents_size (map pent_of es) + 25 * length es + 25 * length es \<le> nd_size n"
    and "65536 \<le> pents_size (map pent_of es) + 25 * length es" and "16 \<le> length es"
  shows "\<exists>n'. node_compact n = Some n' \<and> aux_laid (nd_data n') (pents_size (map pent_of es) + 25 * length es) (eytz_aux es) \<and>
    unat (bs_extra (nd_sets n' ! 0)) = (pents_size (map pent_of es) + 25 * length es) mod 65536 \<and>
    unat (bs_extra (nd_sets n' ! 0)) < pents_size (map pent_of es) + 25 * length es"
proof -
  let ?base = "pents_size (map pent_of es) + 25 * length es"
  obtain n' where n': "node_compact n = Some n'" "compacted n' es" "nd_size n' = nd_size n"
    using node_compact_wf[OF assms(1,2)] by blast
  have x: "bs_extra (nd_sets n' ! 0) = of_nat ?base" "aux_laid (nd_data n') ?base (eytz_aux es)"
    using n'(2,3) assms(3,5) by (simp_all add: compacted_def Let_def)
  have "unat (of_nat k :: u16) = k mod 65536" for k by (simp add: unsigned_of_nat take_bit_eq_mod)
  from this[of ?base] have u: "unat (bs_extra (nd_sets n' ! 0)) = ?base mod 65536" unfolding x(1) .
  have "?base mod 65536 < 65536" by simp
  then have "unat (bs_extra (nd_sets n' ! 0)) < ?base" using u assms(4) by linarith
  then show ?thesis using n'(1) x(2) u by blast
qed

theorem eytzinger_offset_truncated_witness:
  "\<exists>n n'. fresh n (demo_pents 1200) \<and> node_compact n = Some n' \<and> bs_extra (nd_sets n' ! 0) = 2864"
proof -
  obtain n where n: "fresh n (demo_pents 1200)" "nd_size n = 262144" "nd_level n = 0" using demo_filled[of 1200] by auto
  have wf: "node_wf n [] (demo_pents 1200)" by (rule fresh_wf[OF n(1)])
  define es where "es = live_entries (map (pent_entry (nd_level n)) ([] @ demo_pents 1200))"
  have k: "1200 \<le> (10000 :: nat)" by simp
  have ps: "map pent_of es = demo_pents 1200"
    unfolding es_def n(3) append_Nil by (rule demo_live_pents[OF k])
  have sz: "pents_size (map pent_of es) = 38400" unfolding ps pents_size_legacy length_upt by simp
  have len: "length es = 1200" using arg_cong[OF ps, of length] unfolding length_map length_upt by simp
  have fit: "pents_size (map pent_of es) + 25 * length es + 25 * length es \<le> nd_size n"
    "65536 \<le> pents_size (map pent_of es) + 25 * length es" "16 \<le> length es" unfolding sz len n(2) by simp_all
  obtain n' where n': "node_compact n = Some n'"
    "unat (bs_extra (nd_sets n' ! 0)) = (pents_size (map pent_of es) + 25 * length es) mod 65536"
    using eytzinger_offset_truncated[OF wf es_def fit] by blast
  have "(38400 + 25 * 1200) mod 65536 = unat (2864 :: u16)" by simp
  with n'(2) have "unat (bs_extra (nd_sets n' ! 0)) = unat (2864 :: u16)" unfolding sz len by (rule trans)
  then have x: "bs_extra (nd_sets n' ! 0) = 2864" unfolding word_unat_eq_iff .
  show ?thesis by (intro exI conjI) (rule n(1), rule n'(1), rule x)
qed

text \<open>
  The Eytzinger permutation is not one: on five keys the fourth is placed in a slot past the array
  and dropped, and the last slot keeps its initial index, so the walk cannot reach that key and the
  search has to fall back on the sorted array.
\<close>

theorem eytzinger_drops_key:
  "build_eytz_rec (replicate 6 0) 0 5 1 = [0, 2, 1, 4, 0, 0] \<and>
   build_eytzinger [(demo_key 1, demo_val 1), (demo_key 2, demo_val 2), (demo_key 3, demo_val 3), (demo_key 4, demo_val 4), (demo_key 5, demo_val 5)] =
     [(btree_key_min, demo_val 0), (demo_key 3, demo_val 3), (demo_key 2, demo_val 2), (demo_key 5, demo_val 5), (demo_key 1, demo_val 1),
      (btree_key_min, demo_val 0)]"
  by code_simp

end
