(* ===== verification/WaitFifo.thy ===== *)
theory WaitFifo
  imports Prelude "HOL-Library.Multiset"
begin

text \<open>
  The fixed-slot wait queue of \<open>lock/wait_fifo.rs\<close>. A slot is an RCU box in the code; its
  \<open>compare_and_update\<close> on a slot just read as empty succeeds when no other thread writes
  in between, which is how every caller runs it (under \<open>wait_lock\<close>), so an operation is
  one state change here. The waiting thread's handle is its thread id, and the out-of-band
  handoff flag (an \<open>Arc<AtomicBool>\<close>) is the number of a flag kept by the lock.
\<close>

type_synonym tid = nat

datatype six_lock_type = LRead | LIntent | LWrite

fun lock_type_code :: "six_lock_type \<Rightarrow> nat" where
  "lock_type_code LRead = 0"
| "lock_type_code LIntent = 1"
| "lock_type_code LWrite = 2"

definition lock_conflicts :: "six_lock_type \<Rightarrow> six_lock_type \<Rightarrow> bool" where
  "lock_conflicts held want \<longleftrightarrow> lock_type_code held + lock_type_code want > 1"

record waiter =
  trans_id :: u64
  lock_type :: six_lock_type
  wseq :: u64
  wthread :: tid
  wflag :: "nat option"
  percpu_slot :: u32

record wait_fifo =
  slots :: "waiter option list"
  next_free :: u16
  fsize :: u16

definition fifo_new :: "u16 \<Rightarrow> wait_fifo option" where
  "fifo_new n = (if n = 0 then None
     else Some \<lparr>slots = replicate (unat n) None, next_free = 0, fsize = n\<rparr>)"

text \<open>The slots \<open>push\<close> tries, in order: \<open>(start + offset) % size\<close>.\<close>

definition probe_order :: "wait_fifo \<Rightarrow> u16 list" where
  "probe_order f = map (\<lambda>d. (next_free f + of_nat d) mod fsize f) [0..<unat (fsize f)]"

definition fifo_push :: "waiter \<Rightarrow> wait_fifo \<Rightarrow> u16 option \<times> wait_fifo" where
  "fifo_push w f =
     (case List.find (\<lambda>i. slots f ! unat i = None) (probe_order f) of
        None \<Rightarrow> (None, f)
      | Some i \<Rightarrow> (Some i, f\<lparr>slots := (slots f)[unat i := Some w],
                             next_free := (i + 1) mod fsize f\<rparr>))"

text \<open>Index of the first slot whose waiter satisfies a test.\<close>

fun find_slot :: "(waiter \<Rightarrow> bool) \<Rightarrow> waiter option list \<Rightarrow> nat option" where
  "find_slot P [] = None"
| "find_slot P (None # xs) = map_option Suc (find_slot P xs)"
| "find_slot P (Some w # xs) = (if P w then Some 0 else map_option Suc (find_slot P xs))"

definition fifo_remove_first :: "(waiter \<Rightarrow> bool) \<Rightarrow> wait_fifo \<Rightarrow> waiter option \<times> wait_fifo" where
  "fifo_remove_first P f =
     (case find_slot P (slots f) of
        None \<Rightarrow> (None, f)
      | Some i \<Rightarrow> (slots f ! i, f\<lparr>slots := (slots f)[i := None]\<rparr>))"

definition remove_by_thread :: "tid \<Rightarrow> wait_fifo \<Rightarrow> waiter option \<times> wait_fifo" where
  "remove_by_thread t = fifo_remove_first (\<lambda>w. wthread w = t)"

definition fifo_remove :: "u64 \<Rightarrow> wait_fifo \<Rightarrow> waiter option \<times> wait_fifo" where
  "fifo_remove tr = fifo_remove_first (\<lambda>w. trans_id w = tr)"

definition remove_by_index :: "nat \<Rightarrow> wait_fifo \<Rightarrow> wait_fifo" where
  "remove_by_index i f = (if length (slots f) \<le> i then f else f\<lparr>slots := (slots f)[i := None]\<rparr>)"

definition fifo_waiters :: "wait_fifo \<Rightarrow> waiter list" where
  "fifo_waiters f = List.map_filter id (slots f)"

definition fifo_len :: "wait_fifo \<Rightarrow> nat" where
  "fifo_len f = length (filter (\<lambda>s. s \<noteq> None) (slots f))"

definition fifo_is_empty :: "wait_fifo \<Rightarrow> bool" where
  "fifo_is_empty f \<longleftrightarrow> list_all (\<lambda>s. s = None) (slots f)"

text \<open>
  \<open>resize\<close> moves the slots out with \<open>mem::take\<close> before it computes how many empty slots to
  add from \<open>self.slots.len()\<close>, which is then 0: it appends \<open>new_size\<close> slots, not the difference.
\<close>

definition fifo_resize :: "u16 \<Rightarrow> wait_fifo \<Rightarrow> wait_fifo option" where
  "fifo_resize n f = (if n \<le> fsize f then None
     else Some (f\<lparr>slots := slots f @ replicate (unat n) None, fsize := n\<rparr>))"

section \<open>Well-formedness and the multiset of waiters\<close>

text \<open>
  The probe index \<open>start + offset\<close> is computed in \<open>u16\<close>; below \<open>2^15\<close> slots it cannot
  overflow (the lock uses 16).
\<close>

definition fifo_wf :: "wait_fifo \<Rightarrow> bool" where
  "fifo_wf f \<longleftrightarrow> 0 < fsize f \<and> unat (fsize f) \<le> 2 ^ 15 \<and>
     unat (fsize f) \<le> length (slots f) \<and> next_free f < fsize f"

definition waiter_mset :: "wait_fifo \<Rightarrow> waiter multiset" where
  "waiter_mset f = mset (fifo_waiters f)"

lemma fifo_new_wf: "fifo_new n = Some f \<Longrightarrow> unat n \<le> 2 ^ 15 \<Longrightarrow> fifo_wf f"
  by (auto simp: fifo_new_def fifo_wf_def word_neq_0_conv split: if_splits)

lemma mset_map_filter_update:
  assumes "i < length xs"
  shows "mset (List.map_filter id (xs[i := y])) + (case xs ! i of None \<Rightarrow> {#} | Some a \<Rightarrow> {#a#})
    = mset (List.map_filter id xs) + (case y of None \<Rightarrow> {#} | Some a \<Rightarrow> {#a#})"
  using assms
proof (induction xs arbitrary: i)
  case (Cons x xs)
  show ?case
  proof (cases i)
    case 0
    then show ?thesis by (cases x; cases y) (simp_all add: List.map_filter_simps)
  next
    case (Suc j)
    then show ?thesis using Cons.IH[of j] Cons.prems
      by (cases x) (simp_all add: List.map_filter_simps)
  qed
qed simp

lemma find_slot_Some:
  "find_slot P xs = Some i \<Longrightarrow> i < length xs \<and> (\<exists>w. xs ! i = Some w \<and> P w)"
  by (induction P xs arbitrary: i rule: find_slot.induct) (auto split: if_splits)

lemma find_slot_first:
  "find_slot P xs = Some i \<Longrightarrow> j < i \<Longrightarrow> case xs ! j of None \<Rightarrow> True | Some v \<Rightarrow> \<not> P v"
proof (induction P xs arbitrary: i j rule: find_slot.induct)
  case (2 P xs)
  then show ?case by (cases j) auto
next
  case (3 P w xs)
  then show ?case by (cases j) (auto split: if_splits)
qed simp

lemma find_slot_None:
  "find_slot P xs = None \<longleftrightarrow> (\<forall>w. Some w \<in> set xs \<longrightarrow> \<not> P w)"
  by (induction P xs rule: find_slot.induct) auto

lemma probe_order_nth:
  assumes "fifo_wf f" and "i < unat (fsize f)"
  shows "unat (probe_order f ! i) = (unat (next_free f) + i) mod unat (fsize f)"
proof -
  have "unat (next_free f) < unat (fsize f)" "unat (fsize f) \<le> 2 ^ 15"
    using assms by (simp_all add: fifo_wf_def word_less_nat_alt)
  then have "unat (next_free f) + i < 2 ^ 16" "i < 2 ^ 16" using assms(2) by simp_all
  then have "unat (next_free f + of_nat i) = unat (next_free f) + i"
    by (simp add: unat_word_ariths unat_of_nat)
  then show ?thesis using assms by (simp add: probe_order_def unat_mod_distrib)
qed

lemma probe_order_covers:
  assumes wf: "fifo_wf f" and j: "j < unat (fsize f)"
  shows "\<exists>i \<in> set (probe_order f). unat i = j"
proof -
  let ?n = "unat (fsize f)" and ?s = "unat (next_free f)"
  have s: "?s < ?n" using wf by (simp add: fifo_wf_def word_less_nat_alt)
  let ?d = "(j + (?n - ?s)) mod ?n"
  have d: "?d < ?n" using j by simp
  have "(?s + ?d) mod ?n = (?s + (j + (?n - ?s))) mod ?n" by (simp add: mod_add_right_eq)
  also have "\<dots> = j" using s j by simp
  finally have "unat (probe_order f ! ?d) = j" using probe_order_nth[OF wf d] by simp
  then show ?thesis using d by (metis length_map length_upt minus_nat.diff_0 nth_mem probe_order_def)
qed

lemma probe_order_less:
  assumes wf: "fifo_wf f" and "i \<in> set (probe_order f)"
  shows "i < fsize f"
proof -
  have "0 < fsize f" using wf by (simp add: fifo_wf_def)
  then show ?thesis using assms(2)
    by (auto simp: probe_order_def word_mod_less_divisor)
qed

lemma fifo_push_Some:
  assumes wf: "fifo_wf f" and push: "fifo_push w f = (Some i, f')"
  shows "slots f ! unat i = None" and "slots f' = (slots f)[unat i := Some w]"
    and "i < fsize f" and "fifo_wf f'" and "waiter_mset f' = add_mset w (waiter_mset f)"
proof -
  from push obtain fnd: "List.find (\<lambda>i. slots f ! unat i = None) (probe_order f) = Some i"
    and f': "f' = f\<lparr>slots := (slots f)[unat i := Some w], next_free := (i + 1) mod fsize f\<rparr>"
    by (auto simp: fifo_push_def split: option.splits)
  from fnd show free: "slots f ! unat i = None"
    by (auto simp: find_Some_iff)
  show "slots f' = (slots f)[unat i := Some w]" by (simp add: f')
  show less: "i < fsize f" using fnd probe_order_less[OF wf]
    by (auto simp: find_Some_iff nth_mem)
  have "0 < fsize f" using wf by (simp add: fifo_wf_def)
  then show "fifo_wf f'" using wf by (simp add: fifo_wf_def f' word_mod_less_divisor)
  have "unat i < length (slots f)" using less wf by (simp add: fifo_wf_def word_less_nat_alt)
  from mset_map_filter_update[OF this, of "Some w"] free
  show "waiter_mset f' = add_mset w (waiter_mset f)"
    by (simp add: waiter_mset_def fifo_waiters_def f')
qed

lemma fifo_push_None:
  assumes wf: "fifo_wf f"
  shows "fst (fifo_push w f) = None \<longleftrightarrow> (\<forall>j < unat (fsize f). slots f ! j \<noteq> None)"
proof -
  have "fst (fifo_push w f) = None \<longleftrightarrow> (\<forall>i \<in> set (probe_order f). slots f ! unat i \<noteq> None)"
    by (auto simp: fifo_push_def find_None_iff find_Some_iff split: option.splits)
  also have "\<dots> \<longleftrightarrow> (\<forall>j < unat (fsize f). slots f ! j \<noteq> None)"
    using probe_order_covers[OF wf] probe_order_less[OF wf]
    by (metis word_less_nat_alt)
  finally show ?thesis .
qed

lemma fifo_push_None_unchanged: "fifo_push w f = (None, f') \<Longrightarrow> f' = f"
  by (auto simp: fifo_push_def split: option.splits)

text \<open>
  Pushing a waiter onto the wait queue succeeds whenever one of its slots is free,
  takes a free slot (no waiter is overwritten), adds exactly that waiter to the queue's
  multiset and keeps the queue well-formed; on a full queue it reports failure and
  changes nothing.
\<close>

theorem fifo_push_spec:
  assumes "fifo_wf f" and "fifo_push w f = (r, f')"
  shows "case r of
      Some i \<Rightarrow> slots f ! unat i = None \<and> waiter_mset f' = add_mset w (waiter_mset f) \<and> fifo_wf f'
    | None \<Rightarrow> f' = f \<and> (\<forall>j < unat (fsize f). slots f ! j \<noteq> None)"
proof (cases r)
  case None
  then show ?thesis using assms fifo_push_None[OF assms(1), of w] fifo_push_None_unchanged by simp
next
  case (Some i)
  then show ?thesis using fifo_push_Some[OF assms(1)] assms(2) by simp
qed

definition sample_waiter :: waiter where
  "sample_waiter = \<lparr>trans_id = 7, lock_type = LRead, wseq = 0, wthread = 3, wflag = None, percpu_slot = 0\<rparr>"

theorem fifo_push_spec_witness:
  "\<exists>f f'. fifo_new 1 = Some f \<and> fifo_push sample_waiter f = (Some 0, f') \<and>
     waiter_mset f' = add_mset sample_waiter (waiter_mset f)"
proof -
  let ?f = "\<lparr>slots = [None], next_free = 0, fsize = 1\<rparr> :: wait_fifo"
  have new: "fifo_new 1 = Some ?f"
    by (simp add: fifo_new_def)
  have wf: "fifo_wf ?f" using fifo_new_wf[OF new] by simp
  obtain r f' where push: "fifo_push sample_waiter ?f = (r, f')" by fastforce
  have "r = Some 0" using push by (auto simp: fifo_push_def probe_order_def upt_rec)
  with new push fifo_push_spec[OF wf push] show ?thesis by auto
qed

lemma fifo_take:
  "case fifo_remove_first P f of
     (Some w, f') \<Rightarrow> P w \<and> waiter_mset f = add_mset w (waiter_mset f')
   | (None, f') \<Rightarrow> f' = f \<and> (\<forall>w \<in># waiter_mset f. \<not> P w)"
proof (cases "find_slot P (slots f)")
  case None
  then have "\<forall>w. Some w \<in> set (slots f) \<longrightarrow> \<not> P w" by (simp add: find_slot_None)
  then show ?thesis using None
    by (auto simp: fifo_remove_first_def waiter_mset_def fifo_waiters_def List.map_filter_def)
next
  case (Some i)
  then obtain w where i: "i < length (slots f)" and w: "slots f ! i = Some w" "P w"
    using find_slot_Some by metis
  have "waiter_mset f = add_mset w (waiter_mset (f\<lparr>slots := (slots f)[i := None]\<rparr>))"
    using mset_map_filter_update[OF i, of None] w
    by (simp add: waiter_mset_def fifo_waiters_def)
  then show ?thesis using Some w by (simp add: fifo_remove_first_def)
qed

text \<open>
  Removing by thread (or by transaction) takes out exactly one matching waiter, the
  first in slot order, and leaves the others; when nothing matches, the queue is unchanged.
\<close>

theorem fifo_remove_first_spec:
  "case fifo_remove_first P f of
     (Some w, f') \<Rightarrow> P w \<and> waiter_mset f = add_mset w (waiter_mset f') \<and>
        (\<exists>i. slots f ! i = Some w \<and> slots f' = (slots f)[i := None] \<and>
             (\<forall>j<i. case slots f ! j of None \<Rightarrow> True | Some v \<Rightarrow> \<not> P v))
   | (None, f') \<Rightarrow> f' = f \<and> (\<forall>w \<in># waiter_mset f. \<not> P w)"
proof (cases "find_slot P (slots f)")
  case None
  then show ?thesis using fifo_take[where P = P and f = f] by (simp add: fifo_remove_first_def)
next
  case (Some i)
  obtain w where "slots f ! i = Some w" using find_slot_Some[OF Some] by blast
  then show ?thesis
    using fifo_take[where P = P and f = f] find_slot_first[OF Some] Some
    by (auto simp: fifo_remove_first_def intro!: exI[of _ i])
qed

theorem fifo_remove_first_spec_witness:
  "\<exists>w. fst (remove_by_thread 3 \<lparr>slots = [None, Some sample_waiter], next_free = 0, fsize = 2\<rparr>) = Some w
     \<and> wthread w = 3"
proof -
  let ?f = "\<lparr>slots = [None, Some sample_waiter], next_free = 0, fsize = 2\<rparr> :: wait_fifo"
  have "fst (fifo_remove_first (\<lambda>w. wthread w = 3) ?f) = Some sample_waiter"
    by (simp add: fifo_remove_first_def sample_waiter_def)
  then show ?thesis
    using fifo_remove_first_spec[where P = "\<lambda>w. wthread w = 3" and f = ?f]
    by (auto simp: remove_by_thread_def split: prod.splits)
qed

section \<open>The interface the lock uses\<close>

text \<open>
  The lock needs a bag of waiters: what is pushed can be taken back, nothing is lost or
  duplicated, and emptiness is decidable. The facts the lock's lemmas use are proved from
  this contract.
\<close>

locale waiter_bag =
  fixes invar :: "'q \<Rightarrow> bool"
    and bag :: "'q \<Rightarrow> 'w multiset"
    and push :: "'w \<Rightarrow> 'q \<Rightarrow> 'i option \<times> 'q"
    and take_first :: "('w \<Rightarrow> bool) \<Rightarrow> 'q \<Rightarrow> 'w option \<times> 'q"
    and is_empty :: "'q \<Rightarrow> bool"
  assumes push_ok: "invar q \<Longrightarrow> push w q = (Some i, q') \<Longrightarrow> bag q' = add_mset w (bag q) \<and> invar q'"
    and push_full: "push w q = (None, q') \<Longrightarrow> q' = q"
    and take_ok: "take_first P q = (Some w, q') \<Longrightarrow> P w \<and> bag q = add_mset w (bag q')"
    and take_none: "take_first P q = (None, q') \<Longrightarrow> q' = q \<and> (\<forall>w \<in># bag q. \<not> P w)"
    and take_invar: "invar q \<Longrightarrow> invar (snd (take_first P q))"
    and empty_iff: "is_empty q \<longleftrightarrow> bag q = {#}"
begin

lemma take_pushed:
  assumes "invar q" and "push w q = (Some i, q1)" and "P w" and "\<forall>v \<in># bag q. \<not> P v"
  shows "\<exists>q2. take_first P q1 = (Some w, q2) \<and> bag q2 = bag q \<and> invar q2"
proof -
  have b1: "bag q1 = add_mset w (bag q)" and i1: "invar q1"
    using push_ok[OF assms(1,2)] by simp_all
  obtain r q2 where t: "take_first P q1 = (r, q2)" by fastforce
  show ?thesis
  proof (cases r)
    case None
    then have "\<not> P w" using take_none[of P q1 q2] t b1 by simp
    with assms(3) show ?thesis by simp
  next
    case (Some v)
    with t have v: "P v" "bag q1 = add_mset v (bag q2)" using take_ok by auto
    then have "v \<in># add_mset w (bag q)" using b1 by (metis union_single_eq_member)
    then have "v = w" using v(1) assms(4) by auto
    then have "bag q2 = bag q" using v b1 by simp
    moreover have "invar q2" using take_invar[OF i1, of P] t by simp
    ultimately show ?thesis using t Some \<open>v = w\<close> by blast
  qed
qed

lemma take_shrinks: "take_first P q = (Some w, q') \<Longrightarrow> size (bag q') < size (bag q)"
  using take_ok by (metis lessI size_add_mset)

lemma empty_take: "is_empty q \<Longrightarrow> take_first P q = (None, q)"
proof -
  assume e: "is_empty q"
  obtain r q' where t: "take_first P q = (r, q')" by fastforce
  then show ?thesis using e take_ok take_none empty_iff by (cases r) auto
qed

end

lemma fifo_remove_first_wf: "fifo_wf f \<Longrightarrow> fifo_wf (snd (fifo_remove_first P f))"
  by (auto simp: fifo_remove_first_def fifo_wf_def split: option.splits)

lemma fifo_is_empty_iff: "fifo_is_empty f \<longleftrightarrow> waiter_mset f = {#}"
  by (auto simp: fifo_is_empty_def waiter_mset_def fifo_waiters_def List.map_filter_def list_all_iff
      filter_empty_conv)

interpretation wq: waiter_bag fifo_wf waiter_mset fifo_push fifo_remove_first fifo_is_empty
proof
  show "fifo_wf q \<Longrightarrow> fifo_push w q = (Some i, q') \<Longrightarrow>
      waiter_mset q' = add_mset w (waiter_mset q) \<and> fifo_wf q'" for q w i q'
    using fifo_push_Some by blast
  show "fifo_push w q = (None, q') \<Longrightarrow> q' = q" for w q q'
    by (rule fifo_push_None_unchanged)
  show "fifo_remove_first P q = (Some w, q') \<Longrightarrow> P w \<and> waiter_mset q = add_mset w (waiter_mset q')" for P q w q'
    using fifo_take[where P = P and f = q] by simp
  show "fifo_remove_first P q = (None, q') \<Longrightarrow> q' = q \<and> (\<forall>w \<in># waiter_mset q. \<not> P w)" for P q q'
    using fifo_take[where P = P and f = q] by simp
qed (simp_all add: fifo_remove_first_wf fifo_is_empty_iff)

end
