(* ===== verification/SixLock.thy ===== *)
theory SixLock
  imports WaitFifo
begin

text \<open>
  The six lock of \<open>lock/six.rs\<close>: read / intent / write state in one 32-bit word, optional
  per-slot reader counters, owner and recursion fields, the wait queue, and the wake-up and
  handoff protocol.

  Every method is one state change of \<open>six\<close>. A \<open>compare_exchange\<close> loop succeeds when no
  other thread writes the word between its load and its exchange, so a method is modelled
  at that uninterrupted run; interleaving is at the granularity of methods, and the slow
  path is split where the thread parks. \<open>read_cnt\<close> is the thread-local \<open>THREAD_READ_CNT\<close>:
  one counter per thread, shared by every lock the thread uses. \<open>hflags\<close> are the handoff
  flags and \<open>unparked\<close> records the \<open>unpark\<close> calls, most recent first. The waiter's thread
  handle is always present in this code and is its thread id.
\<close>

section \<open>State word\<close>

definition READ_COUNT_MASK :: u32 where "READ_COUNT_MASK = 0x03FFFFFF"
definition INTENT_BIT :: u32 where "INTENT_BIT = 0x04000000"
definition WRITE_BIT :: u32 where "WRITE_BIT = 0x08000000"
definition WAITING_READ_BIT :: u32 where "WAITING_READ_BIT = 0x10000000"
definition WAITING_INTENT_BIT :: u32 where "WAITING_INTENT_BIT = 0x20000000"
definition WAITING_WRITE_BIT :: u32 where "WAITING_WRITE_BIT = 0x40000000"
definition NOSPIN_BIT :: u32 where "NOSPIN_BIT = 0x80000000"

definition SPIN_COUNT :: nat where "SPIN_COUNT = 1024"

record six =
  state :: u32
  seq :: u64
  readers :: "u32 list option"
  intent_owner :: "tid option"
  intent_recurse :: u32
  write_owner :: "tid option"
  write_recurse :: u32
  wq :: wait_fifo
  read_cnt :: "tid \<Rightarrow> u32"
  slot_of :: "tid \<Rightarrow> u32"
  hflags :: "nat \<Rightarrow> bool"
  unparked :: "tid list"

definition has_bit :: "u32 \<Rightarrow> u32 \<Rightarrow> bool" where
  "has_bit w b \<longleftrightarrow> w AND b \<noteq> 0"

definition has_write_lock :: "u32 \<Rightarrow> bool" where
  "has_write_lock st \<longleftrightarrow> has_bit st WRITE_BIT"

definition has_intent_lock :: "u32 \<Rightarrow> bool" where
  "has_intent_lock st \<longleftrightarrow> has_bit st INTENT_BIT"

definition read_count :: "u32 \<Rightarrow> u32" where
  "read_count st = st AND READ_COUNT_MASK"

definition set_bits :: "u32 \<Rightarrow> six \<Rightarrow> six" where
  "set_bits b s = s\<lparr>state := state s OR b\<rparr>"

definition clear_bits :: "u32 \<Rightarrow> six \<Rightarrow> six" where
  "clear_bits b s = s\<lparr>state := state s AND NOT b\<rparr>"

definition waiting_bit :: "six_lock_type \<Rightarrow> u32" where
  "waiting_bit lt = (case lt of LRead \<Rightarrow> WAITING_READ_BIT | LIntent \<Rightarrow> WAITING_INTENT_BIT
     | LWrite \<Rightarrow> WAITING_WRITE_BIT)"

text \<open>\<open>SixLock::new\<close> and \<open>with_percpu\<close>; the thread-local part belongs to the environment.\<close>

definition six_new :: "u32 list option \<Rightarrow> (tid \<Rightarrow> u32) \<Rightarrow> six" where
  "six_new rs slot = \<lparr>state = 0, seq = 0, readers = rs, intent_owner = None, intent_recurse = 0,
     write_owner = None, write_recurse = 0,
     wq = \<lparr>slots = replicate 16 None, next_free = 0, fsize = 16\<rparr>,
     read_cnt = (\<lambda>_. 0), slot_of = slot, hflags = (\<lambda>_. False), unparked = []\<rparr>"

definition six_with_percpu :: "u32 \<Rightarrow> (tid \<Rightarrow> u32) \<Rightarrow> six option" where
  "six_with_percpu n slot = (if n = 0 then None else Some (six_new (Some (replicate (unat n) 0)) slot))"

definition slot_index :: "u32 \<Rightarrow> u32 list \<Rightarrow> nat" where
  "slot_index sl rs = unat sl mod length rs"

definition add_slot :: "u32 \<Rightarrow> u32 \<Rightarrow> u32 list \<Rightarrow> u32 list" where
  "add_slot sl d rs = rs[slot_index sl rs := rs ! slot_index sl rs + d]"

definition other_slot_readers :: "u32 \<Rightarrow> u32 list \<Rightarrow> bool" where
  "other_slot_readers sl rs \<longleftrightarrow> (\<exists>i<length rs. i \<noteq> slot_index sl rs \<and> 0 < rs ! i)"

definition add_read_cnt :: "tid \<Rightarrow> u32 \<Rightarrow> six \<Rightarrow> six" where
  "add_read_cnt t d s = s\<lparr>read_cnt := (read_cnt s)(t := read_cnt s t + d)\<rparr>"

section \<open>Acquiring on behalf of a waiter\<close>

definition try_lock_write_preset_for :: "tid \<Rightarrow> six \<Rightarrow> bool \<times> six" where
  "try_lock_write_preset_for t s =
     (if 0 < read_count (state s) then (False, s)
      else if (case readers s of None \<Rightarrow> False | Some rs \<Rightarrow> list_ex (\<lambda>r. 0 < r) rs) then (False, s)
      else (True, s\<lparr>write_owner := Some t\<rparr>))"

definition try_lock_intent_for :: "tid \<Rightarrow> six \<Rightarrow> bool \<times> six" where
  "try_lock_intent_for t s =
     (if has_bit (state s) INTENT_BIT then (False, s)
      else (True, (set_bits INTENT_BIT s)\<lparr>intent_owner := Some t\<rparr>))"

definition try_lock_read_for :: "u32 \<Rightarrow> six \<Rightarrow> bool \<times> six" where
  "try_lock_read_for sl s =
     (case readers s of
        Some rs \<Rightarrow> (True, s\<lparr>readers := Some (add_slot sl 1 rs)\<rparr>)
      | None \<Rightarrow> (True, s\<lparr>state := state s + 1\<rparr>))"

section \<open>Wake-up\<close>

text \<open>Take a waiter out of its slot, raise its flag and unpark it.\<close>

definition hand_off :: "nat \<Rightarrow> waiter \<Rightarrow> six \<Rightarrow> six" where
  "hand_off i w s =
     s\<lparr>wq := remove_by_index i (wq s),
       hflags := (case wflag w of None \<Rightarrow> hflags s | Some f \<Rightarrow> (hflags s)(f := True)),
       unparked := wthread w # unparked s\<rparr>"

text \<open>
  The oldest waiter of a type: strictly smaller transaction ids win, starting from
  \<open>u64::MAX\<close>. The result is the slot found, if any, and the number of waiters of the type.
\<close>

fun scan_oldest :: "six_lock_type \<Rightarrow> waiter option list \<Rightarrow> nat \<Rightarrow> nat option \<Rightarrow> u64 \<Rightarrow> nat \<Rightarrow> nat option \<times> nat" where
  "scan_oldest lt [] i best bt n = (best, n)"
| "scan_oldest lt (None # xs) i best bt n = scan_oldest lt xs (Suc i) best bt n"
| "scan_oldest lt (Some w # xs) i best bt n =
     (if lock_type w \<noteq> lt then scan_oldest lt xs (Suc i) best bt n
      else if trans_id w < bt then scan_oldest lt xs (Suc i) (Some i) (trans_id w) (Suc n)
      else scan_oldest lt xs (Suc i) best bt (Suc n))"

definition wakeup_excl :: "six_lock_type \<Rightarrow> six \<Rightarrow> six" where
  "wakeup_excl lt s =
     (let (best, n) = scan_oldest lt (slots (wq s)) 0 None (- 1) 0;
          (n', s') =
            (case best of
               None \<Rightarrow> (n, s)
             | Some i \<Rightarrow>
                 (case slots (wq s) ! i of
                    None \<Rightarrow> (n, s)
                  | Some w \<Rightarrow>
                      (let (acq, s1) = (if lt = LWrite then try_lock_write_preset_for (wthread w) s
                                        else try_lock_intent_for (wthread w) s)
                       in if acq then (n - 1, hand_off i w s1) else (n, s1))))
      in if n' = 0 then clear_bits (waiting_bit lt) s' else s')"

text \<open>
  Waking readers walks the slots in order; the accumulators are \<open>all_woke\<close> and
  \<open>cascade_to_write\<close>. Slot \<open>i\<close> is only changed when the walk is at \<open>i\<close>.
\<close>

fun wakeup_read_scan :: "waiter option list \<Rightarrow> nat \<Rightarrow> bool \<Rightarrow> bool \<Rightarrow> six \<Rightarrow> bool \<times> bool \<times> six" where
  "wakeup_read_scan [] i allw casc s = (allw, casc, s)"
| "wakeup_read_scan (None # xs) i allw casc s = wakeup_read_scan xs (Suc i) allw casc s"
| "wakeup_read_scan (Some w # xs) i allw casc s =
     (if lock_type w \<noteq> LRead then wakeup_read_scan xs (Suc i) allw casc s
      else let (ok, s1) = try_lock_read_for (percpu_slot w) s in
        if ok then wakeup_read_scan xs (Suc i) allw casc (hand_off i w s1)
        else wakeup_read_scan xs (Suc i) False (casc \<or> has_bit (state s1) WAITING_WRITE_BIT) s1)"

definition wakeup_waiters :: "six_lock_type \<Rightarrow> six \<Rightarrow> six" where
  "wakeup_waiters lt s =
     (case lt of
        LRead \<Rightarrow>
          (let (allw, casc, s1) = wakeup_read_scan (slots (wq s)) 0 True False s;
               s2 = (if allw then clear_bits WAITING_READ_BIT s1 else s1)
           in if casc then wakeup_excl LWrite s2 else s2)
      | _ \<Rightarrow> wakeup_excl lt s)"

text \<open>\<open>wakeup_lock_type\<close>: the caller's snapshot \<open>st\<close> decides first, then the word is re-read
  under \<open>wait_lock\<close>.\<close>

definition wakeup_lock_type :: "u32 \<Rightarrow> six_lock_type \<Rightarrow> six \<Rightarrow> six" where
  "wakeup_lock_type st lt s =
     (if \<not> has_bit st (waiting_bit lt) then s
      else if lt = LWrite \<and> read_count st \<noteq> 0 then s
      else if \<not> has_bit (state s) (waiting_bit lt) then s
      else wakeup_waiters lt s)"

section \<open>Read, intent and write locks\<close>

definition try_lock_read :: "tid \<Rightarrow> six \<Rightarrow> bool \<times> six" where
  "try_lock_read t s =
     (let blocked = has_write_lock (state s) \<or> has_bit (state s) WAITING_WRITE_BIT in
      case readers s of
        Some rs \<Rightarrow>
          (if \<not> blocked then (True, s\<lparr>readers := Some (add_slot (slot_of s t) 1 rs)\<rparr>)
           else if has_bit (state s) WAITING_WRITE_BIT
             then (False, wakeup_lock_type (state s) LWrite s) else (False, s))
      | None \<Rightarrow>
          (if blocked then (False, s)
           else (True, add_read_cnt t 1 (s\<lparr>state := state s + 1\<rparr>))))"

definition unlock_read :: "tid \<Rightarrow> six \<Rightarrow> six" where
  "unlock_read t s =
     (let s1 = (case readers s of
                  Some rs \<Rightarrow> s\<lparr>readers := Some (add_slot (slot_of s t) (- 1) rs)\<rparr>
                | None \<Rightarrow> add_read_cnt t (- 1) (s\<lparr>state := state s - 1\<rparr>))
      in wakeup_lock_type (state s1) LWrite s1)"

definition try_lock_intent :: "tid \<Rightarrow> six \<Rightarrow> bool \<times> six" where
  "try_lock_intent t s =
     (if intent_owner s = Some t then (True, s\<lparr>intent_recurse := intent_recurse s + 1\<rparr>)
      else if has_bit (state s) (INTENT_BIT OR WRITE_BIT) then (False, s)
      else (True, (set_bits INTENT_BIT s)\<lparr>intent_owner := Some t\<rparr>))"

definition unlock_intent :: "six \<Rightarrow> six" where
  "unlock_intent s =
     (if 0 < intent_recurse s then s\<lparr>intent_recurse := intent_recurse s - 1\<rparr>
      else let s1 = clear_bits INTENT_BIT (s\<lparr>intent_owner := None\<rparr>)
           in wakeup_lock_type (state s1) LIntent s1)"

definition try_lock_write :: "tid \<Rightarrow> six \<Rightarrow> bool \<times> six" where
  "try_lock_write t s =
     (if has_write_lock (state s) then
        (if write_owner s = Some t then (True, s\<lparr>write_recurse := write_recurse s + 1\<rparr>) else (False, s))
      else if has_bit (state s) (INTENT_BIT OR WRITE_BIT) then (False, s)
      else case readers s of
        Some rs \<Rightarrow>
          (if other_slot_readers (slot_of s t) rs then (False, s)
           else (True, (set_bits WRITE_BIT s)\<lparr>write_owner := Some t\<rparr>))
      | None \<Rightarrow>
          (if saturating_sub (read_count (state s)) (read_cnt s t) \<noteq> 0 then (False, s)
           else (True, (set_bits WRITE_BIT s)\<lparr>write_owner := Some t\<rparr>)))"

definition try_lock_write_preset :: "tid \<Rightarrow> six \<Rightarrow> bool \<times> six" where
  "try_lock_write_preset t s =
     (case readers s of
        Some rs \<Rightarrow>
          (if other_slot_readers (slot_of s t) rs then (False, s) else (True, s\<lparr>write_owner := Some t\<rparr>))
      | None \<Rightarrow>
          (if saturating_sub (read_count (state s)) (read_cnt s t) \<noteq> 0 then (False, s)
           else (True, s\<lparr>write_owner := Some t\<rparr>)))"

definition unlock_write :: "six \<Rightarrow> six" where
  "unlock_write s =
     (if 0 < write_recurse s then s\<lparr>write_recurse := write_recurse s - 1\<rparr>
      else let s1 = clear_bits WRITE_BIT (s\<lparr>write_owner := None, seq := seq s + 1\<rparr>)
           in wakeup_lock_type (state s1) LRead s1)"

section \<open>Upgrades and downgrades\<close>

definition try_upgrade_intent_to_write :: "tid \<Rightarrow> six \<Rightarrow> bool \<times> six" where
  "try_upgrade_intent_to_write t s =
     (if 0 < read_count (state s) then (False, s)
      else if has_write_lock (state s) then (False, s)
      else if (case readers s of None \<Rightarrow> False | Some rs \<Rightarrow> list_ex (\<lambda>r. 0 < r) rs) then (False, s)
      else (True, (set_bits WRITE_BIT s)\<lparr>write_owner := Some t\<rparr>))"

definition downgrade_write_to_intent :: "six \<Rightarrow> six" where
  "downgrade_write_to_intent s =
     (let s1 = clear_bits WRITE_BIT (s\<lparr>write_owner := None, seq := seq s + 1\<rparr>)
      in wakeup_lock_type (state s1) LRead s1)"

definition downgrade_intent_to_read :: "tid \<Rightarrow> six \<Rightarrow> six" where
  "downgrade_intent_to_read t s =
     (let s1 = (clear_bits INTENT_BIT (s\<lparr>state := state s + 1\<rparr>))\<lparr>intent_owner := None\<rparr>
      in if readers s = None then add_read_cnt t 1 s1 else s1)"

definition try_upgrade_read_to_intent :: "tid \<Rightarrow> six \<Rightarrow> bool \<times> six" where
  "try_upgrade_read_to_intent t s =
     (case readers s of
        Some rs \<Rightarrow>
          (if has_bit (state s) (INTENT_BIT OR WRITE_BIT) then (False, s)
           else (True, (set_bits INTENT_BIT (s\<lparr>readers := Some (add_slot (slot_of s t) (- 1) rs)\<rparr>))
                         \<lparr>intent_owner := Some t\<rparr>))
      | None \<Rightarrow>
          (if has_bit (state s) (INTENT_BIT OR WRITE_BIT) then (False, s)
           else if read_count (state s) = 0 then (False, s)
           else (True, add_read_cnt t (- 1)
                   (s\<lparr>state := (state s - 1) OR INTENT_BIT, intent_owner := Some t\<rparr>))))"

definition lock_readers_add :: "tid \<Rightarrow> int \<Rightarrow> six \<Rightarrow> six" where
  "lock_readers_add t nr s =
     (case readers s of
        Some rs \<Rightarrow> s\<lparr>readers := Some (add_slot (slot_of s t) (of_int nr) rs)\<rparr>
      | None \<Rightarrow> add_read_cnt t (of_int nr) (s\<lparr>state := state s + of_int nr\<rparr>))"

definition try_lock_read_to_write :: "tid \<Rightarrow> six \<Rightarrow> bool \<times> six" where
  "try_lock_read_to_write t s =
     (let s1 = lock_readers_add t (- 1) s;
          others = (case readers s1 of Some rs \<Rightarrow> other_slot_readers (slot_of s1 t) rs | None \<Rightarrow> False)
      in if \<not> others \<and> read_count (state s1) = 0 \<and> \<not> has_bit (state s1) (INTENT_BIT OR WRITE_BIT)
         then (True, s1\<lparr>state := (state s1 AND NOT READ_COUNT_MASK) OR WRITE_BIT OR INTENT_BIT,
                        write_owner := Some t\<rparr>)
         else (False, lock_readers_add t 1 s1))"

definition lock_increment :: "tid \<Rightarrow> six_lock_type \<Rightarrow> six \<Rightarrow> six" where
  "lock_increment t lt s =
     (case lt of
        LRead \<Rightarrow>
          (case readers s of
             Some rs \<Rightarrow> s\<lparr>readers := Some (add_slot (slot_of s t) 1 rs)\<rparr>
           | None \<Rightarrow> add_read_cnt t 1 (s\<lparr>state := state s + 1\<rparr>))
      | LIntent \<Rightarrow> s\<lparr>intent_recurse := intent_recurse s + 1\<rparr>
      | LWrite \<Rightarrow> s\<lparr>write_recurse := write_recurse s + 1\<rparr>)"

definition lock_downgrade :: "tid \<Rightarrow> six \<Rightarrow> six" where
  "lock_downgrade t s = unlock_intent (lock_increment t LRead s)"

definition trylock_convert :: "tid \<Rightarrow> six_lock_type \<Rightarrow> six_lock_type \<Rightarrow> six \<Rightarrow> bool \<times> six" where
  "trylock_convert t from to s =
     (if to = from then (True, s)
      else if to = LRead then (True, lock_downgrade t s)
      else try_upgrade_read_to_intent t s)"

section \<open>Generic entry points\<close>

definition trylock_ip :: "tid \<Rightarrow> six_lock_type \<Rightarrow> six \<Rightarrow> bool \<times> six" where
  "trylock_ip t lt s =
     (case lt of LRead \<Rightarrow> try_lock_read t s | LIntent \<Rightarrow> try_lock_intent t s | LWrite \<Rightarrow> try_lock_write t s)"

definition unlock_ip :: "tid \<Rightarrow> six_lock_type \<Rightarrow> six \<Rightarrow> six" where
  "unlock_ip t lt s =
     (case lt of LRead \<Rightarrow> unlock_read t s | LIntent \<Rightarrow> unlock_intent s | LWrite \<Rightarrow> unlock_write s)"

definition relock_ip :: "tid \<Rightarrow> six_lock_type \<Rightarrow> u64 \<Rightarrow> six \<Rightarrow> bool \<times> six" where
  "relock_ip t lt sq s =
     (if seq s \<noteq> sq then (False, s)
      else let (ok, s1) = trylock_ip t lt s in
        if \<not> ok then (False, s1)
        else if seq s1 \<noteq> sq then (False, unlock_ip t lt s1)
        else (True, s1))"

text \<open>Spinning: up to \<open>SPIN_COUNT\<close> attempts, then one more after yielding.\<close>

fun retry :: "nat \<Rightarrow> (six \<Rightarrow> bool \<times> six) \<Rightarrow> six \<Rightarrow> bool \<times> six" where
  "retry 0 try s = try s"
| "retry (Suc n) try s = (let (ok, s1) = try s in if ok then (True, s1) else retry n try s1)"

definition spin_lock_internal :: "tid \<Rightarrow> six_lock_type \<Rightarrow> six \<Rightarrow> bool \<times> six" where
  "spin_lock_internal t lt s =
     (if has_bit (state s) NOSPIN_BIT then (False, s) else retry SPIN_COUNT (trylock_ip t lt) s)"

text \<open>\<open>upgrade_read_to_intent\<close> and \<open>upgrade_intent_to_write\<close>: one attempt, then the same retries.\<close>

definition upgrade_read_to_intent :: "tid \<Rightarrow> six \<Rightarrow> bool \<times> six" where
  "upgrade_read_to_intent t s = retry (Suc SPIN_COUNT) (try_upgrade_read_to_intent t) s"

definition upgrade_intent_to_write :: "tid \<Rightarrow> six \<Rightarrow> bool \<times> six" where
  "upgrade_intent_to_write t s = retry (Suc SPIN_COUNT) (try_upgrade_intent_to_write t) s"

section \<open>The slow path\<close>

text \<open>The lock-type specific attempt used on the slow path, with \<open>WRITE_BIT\<close> already set.\<close>

definition slow_try :: "tid \<Rightarrow> six_lock_type \<Rightarrow> six \<Rightarrow> bool \<times> six" where
  "slow_try t lt s =
     (case lt of LRead \<Rightarrow> try_lock_read t s | LIntent \<Rightarrow> try_lock_intent t s
      | LWrite \<Rightarrow> try_lock_write_preset t s)"

definition push_waiter_with_recheck :: "waiter \<Rightarrow> six \<Rightarrow> bool \<times> six" where
  "push_waiter_with_recheck w s =
     (let s1 = set_bits (waiting_bit (lock_type w)) s;
          (ok, s2) = slow_try (wthread w) (lock_type w) s1
      in if ok then (True, clear_bits (waiting_bit (lock_type w)) s2)
         else let (r, f) = fifo_push w (wq s2); s3 = s2\<lparr>wq := f\<rparr> in
           (if r = None then (False, clear_bits (waiting_bit (lock_type w)) s3) else (False, s3)))"

text \<open>
  In per-cpu mode \<open>try_lock_read\<close> ends, when a writer waits, with a wake-up that takes \<open>wait_lock\<close>. The caller
  \<open>push_waiter_with_recheck\<close> holds that lock already and it is not re-entrant, so the call never returns:
  where \<open>push_deadlocks\<close> holds, the result of \<open>push_waiter_with_recheck\<close> and of \<open>lock_slowpath_begin\<close> below
  stands for no execution of the code.
\<close>

definition push_deadlocks :: "waiter \<Rightarrow> six \<Rightarrow> bool" where
  "push_deadlocks w s \<longleftrightarrow> lock_type w = LRead \<and> readers s \<noteq> None \<and> has_bit (state s) WAITING_WRITE_BIT"

definition count_read :: "tid \<Rightarrow> six_lock_type \<Rightarrow> six \<Rightarrow> six" where
  "count_read t lt s = (if lt = LRead \<and> readers s = None then add_read_cnt t 1 s else s)"

text \<open>
  \<open>lock_slowpath\<close> up to the first \<open>park\<close>: \<open>True\<close> means the lock was taken, \<open>False\<close> that
  the thread is about to park. The caller supplies its start time and a fresh flag. A reader of a
  per-cpu lock on which a writer waits does neither but hangs (\<open>push_deadlocks\<close>).
\<close>

definition lock_slowpath_begin :: "tid \<Rightarrow> six_lock_type \<Rightarrow> u64 \<Rightarrow> nat \<Rightarrow> six \<Rightarrow> bool \<times> six" where
  "lock_slowpath_begin t lt start fl s =
     (let (ok, s1) = (if lt = LWrite
            then try_lock_write_preset t (set_bits WAITING_WRITE_BIT (set_bits WRITE_BIT s))
            else (False, s))
      in if ok then (True, clear_bits (waiting_bit lt) s1)
         else let s2 = s1\<lparr>hflags := (hflags s1)(fl := False)\<rparr>;
                  w = \<lparr>trans_id = start, lock_type = lt, wseq = seq s2, wthread = t,
                       wflag = Some fl, percpu_slot = slot_of s2 t\<rparr>;
                  (ok2, s3) = push_waiter_with_recheck w s2
              in if ok2 then (True, count_read t lt s3) else (False, s3))"

definition remove_self_from_fifo :: "tid \<Rightarrow> six \<Rightarrow> six" where
  "remove_self_from_fifo t s =
     (let s1 = s\<lparr>wq := snd (remove_by_thread t (wq s))\<rparr>
      in if fifo_is_empty (wq s1)
         then clear_bits (WAITING_READ_BIT OR WAITING_INTENT_BIT OR WAITING_WRITE_BIT) s1 else s1)"

text \<open>One turn of the park loop after an unpark: \<open>False\<close> means the thread parks again.\<close>

definition lock_slowpath_resume :: "tid \<Rightarrow> six_lock_type \<Rightarrow> nat \<Rightarrow> six \<Rightarrow> bool \<times> six" where
  "lock_slowpath_resume t lt fl s =
     (if hflags s fl then (True, remove_self_from_fifo t (count_read t lt s))
      else let (ok, s1) = slow_try t lt s in
        if ok then (True, remove_self_from_fifo t (count_read t lt s1)) else (False, s1))"

text \<open>The \<open>should_sleep\<close> callback refused to sleep: withdraw, or undo a handoff that came first.\<close>

definition lock_slowpath_abort :: "tid \<Rightarrow> six_lock_type \<Rightarrow> nat \<Rightarrow> six \<Rightarrow> six" where
  "lock_slowpath_abort t lt fl s =
     (let acquired = hflags s fl;
          s1 = (if acquired then s else remove_self_from_fifo t s)
      in if acquired then unlock_ip t lt s1
         else if lt = LWrite then
           (let s2 = clear_bits WRITE_BIT s1 in wakeup_lock_type (state s2) LRead s2)
         else s1)"

text \<open>\<open>lock_read\<close>, \<open>lock_intent\<close>, \<open>lock_write\<close>: attempt, spin, slow path.\<close>

definition lock_begin :: "tid \<Rightarrow> six_lock_type \<Rightarrow> u64 \<Rightarrow> nat \<Rightarrow> six \<Rightarrow> bool \<times> six" where
  "lock_begin t lt start fl s =
     (let (ok, s1) = trylock_ip t lt s in
      if ok then (True, s1)
      else let (ok2, s2) = spin_lock_internal t lt s1 in
        if ok2 then (True, s2) else lock_slowpath_begin t lt start fl s2)"

definition is_write_locked_by :: "tid \<Rightarrow> six \<Rightarrow> bool" where
  "is_write_locked_by t s \<longleftrightarrow> write_owner s = Some t"

definition is_intent_locked_by :: "tid \<Rightarrow> six \<Rightarrow> bool" where
  "is_intent_locked_by t s \<longleftrightarrow> intent_owner s = Some t"

definition lock_restart :: "tid \<Rightarrow> six_lock_type \<Rightarrow> nat \<Rightarrow> six \<Rightarrow> bool \<times> six" where
  "lock_restart t lt fl s =
     (let has_read = (case readers s of
             Some rs \<Rightarrow> 0 < rs ! slot_index (slot_of s t) rs
           | None \<Rightarrow> 0 < read_cnt s t);
          s1 = (if is_write_locked_by t s then unlock_write s
                else if is_intent_locked_by t s then unlock_intent s
                else if has_read then unlock_read t s else s)
      in lock_begin t lt 0 fl s1)"

definition lock_read_to_write :: "tid \<Rightarrow> nat \<Rightarrow> six \<Rightarrow> bool \<times> six" where
  "lock_read_to_write t fl s =
     (let (ok, s1) = try_lock_read_to_write t s in
      if ok then (True, s1) else lock_begin t LWrite 0 fl (unlock_read t s1))"

definition lock_wakeup_all :: "six \<Rightarrow> six" where
  "lock_wakeup_all s =
     (let s1 = wakeup_lock_type (state s) LRead s;
          s2 = wakeup_lock_type (state s1) LIntent s1;
          s3 = wakeup_lock_type (state s2) LWrite s2
      in s3\<lparr>unparked := rev (map wthread (fifo_waiters (wq s3))) @ unparked s3\<rparr>)"

definition reader_count :: "six \<Rightarrow> u32" where
  "reader_count s = (case readers s of
       Some rs \<Rightarrow> read_count (state s) + sum_list rs
     | None \<Rightarrow> read_count (state s))"

definition lock_counts :: "six \<Rightarrow> u32 list" where
  "lock_counts s =
     [if readers s \<noteq> None then reader_count s else read_count (state s),
      (if has_intent_lock (state s) then 1 else 0) + intent_recurse s,
      if has_write_lock (state s) then 1 else 0]"

definition set_nospin :: "six \<Rightarrow> six" where "set_nospin s = set_bits NOSPIN_BIT s"
definition clear_nospin :: "six \<Rightarrow> six" where "clear_nospin s = clear_bits NOSPIN_BIT s"

end
