(* ===== verification/SixLockInv.thy ===== *)
theory SixLockInv
  imports SixLock
begin

text \<open>
  Correctness of the six lock of theory SixLock: how the state word's reader count and
  flag bits behave, the invariant of the non-blocking operations and the mutual exclusion
  it gives, the wake-up and handoff protocol, sequence-number relocking, and the executions
  in which the slow path departs from exclusion.
\<close>

section \<open>The state word\<close>

definition rcount :: "u32 \<Rightarrow> nat" where
  "rcount w = unat (read_count w)"

lemma flag_bits [simp]:
  "has_bit w INTENT_BIT \<longleftrightarrow> bit w 26"
  "has_bit w WRITE_BIT \<longleftrightarrow> bit w 27"
  "has_bit w WAITING_READ_BIT \<longleftrightarrow> bit w 28"
  "has_bit w WAITING_INTENT_BIT \<longleftrightarrow> bit w 29"
  "has_bit w WAITING_WRITE_BIT \<longleftrightarrow> bit w 30"
  "has_bit w NOSPIN_BIT \<longleftrightarrow> bit w 31"
proof -
  have pow: "INTENT_BIT = 2 ^ 26" "WRITE_BIT = 2 ^ 27" "WAITING_READ_BIT = 2 ^ 28"
    "WAITING_INTENT_BIT = 2 ^ 29" "WAITING_WRITE_BIT = 2 ^ 30" "NOSPIN_BIT = 2 ^ 31"
    by (simp_all add: INTENT_BIT_def WRITE_BIT_def WAITING_READ_BIT_def WAITING_INTENT_BIT_def
        WAITING_WRITE_BIT_def NOSPIN_BIT_def)
  show "has_bit w INTENT_BIT \<longleftrightarrow> bit w 26" "has_bit w WRITE_BIT \<longleftrightarrow> bit w 27"
    "has_bit w WAITING_READ_BIT \<longleftrightarrow> bit w 28" "has_bit w WAITING_INTENT_BIT \<longleftrightarrow> bit w 29"
    "has_bit w WAITING_WRITE_BIT \<longleftrightarrow> bit w 30" "has_bit w NOSPIN_BIT \<longleftrightarrow> bit w 31"
    unfolding has_bit_def pow by (simp_all only: and_exp_eq_0_iff_not_bit not_not)
qed

lemma bit_flag [simp]:
  "bit INTENT_BIT k \<longleftrightarrow> k = 26" "bit WRITE_BIT k \<longleftrightarrow> k = 27"
  "bit WAITING_READ_BIT k \<longleftrightarrow> k = 28" "bit WAITING_INTENT_BIT k \<longleftrightarrow> k = 29"
  "bit WAITING_WRITE_BIT k \<longleftrightarrow> k = 30" "bit NOSPIN_BIT k \<longleftrightarrow> k = 31"
proof -
  have pow: "INTENT_BIT = 2 ^ 26" "WRITE_BIT = 2 ^ 27" "WAITING_READ_BIT = 2 ^ 28"
    "WAITING_INTENT_BIT = 2 ^ 29" "WAITING_WRITE_BIT = 2 ^ 30" "NOSPIN_BIT = 2 ^ 31"
    by (simp_all add: INTENT_BIT_def WRITE_BIT_def WAITING_READ_BIT_def WAITING_INTENT_BIT_def
        WAITING_WRITE_BIT_def NOSPIN_BIT_def)
  show "bit INTENT_BIT k \<longleftrightarrow> k = 26" "bit WRITE_BIT k \<longleftrightarrow> k = 27"
    "bit WAITING_READ_BIT k \<longleftrightarrow> k = 28" "bit WAITING_INTENT_BIT k \<longleftrightarrow> k = 29"
    "bit WAITING_WRITE_BIT k \<longleftrightarrow> k = 30" "bit NOSPIN_BIT k \<longleftrightarrow> k = 31"
    unfolding pow by (auto simp only: bit_exp_iff possible_bit_word len_num1 len_bit0 len_num0)
qed

lemma has_bit_or [simp]: "has_bit w (a OR b) \<longleftrightarrow> has_bit w a \<or> has_bit w b"
  by (auto simp: has_bit_def bit.conj_disj_distrib word_ao_dist2) (metis or_eq_0_iff)+

lemma mask26: "READ_COUNT_MASK = mask 26"
  by (simp add: READ_COUNT_MASK_def mask_eq_exp_minus_1)

lemma bit_mask26 [simp]: "bit READ_COUNT_MASK k \<longleftrightarrow> k < 26"
  by (auto simp: mask26 bit_mask_iff)

lemma read_count_take_bit: "read_count w = take_bit 26 w"
  by (simp add: read_count_def mask26 take_bit_eq_mask and.commute)

lemma rcount_less: "rcount w < 2 ^ 26"
  by (simp only: rcount_def read_count_take_bit unsigned_take_bit_eq take_bit_nat_less_exp)

lemma rcount_mod: "rcount w = unat w mod 2 ^ 26"
  by (simp only: rcount_def read_count_take_bit unsigned_take_bit_eq take_bit_nat_def)

lemma rcount_cong:
  assumes "\<And>k. k < 26 \<Longrightarrow> bit w k = bit w' k"
  shows "rcount w = rcount w'"
proof -
  have "take_bit 26 w = take_bit 26 w'"
    by (rule bit_word_eqI) (use assms in \<open>auto simp: bit_take_bit_iff\<close>)
  then show ?thesis by (simp add: rcount_def read_count_take_bit)
qed

text \<open>Counting up or down inside the 26-bit field leaves the flags alone.\<close>

lemma high_bits_unat: "26 \<le> k \<Longrightarrow> bit (w :: u32) k = bit (unat w div 2 ^ 26) (k - 26)"
proof -
  assume k: "26 \<le> k"
  have "bit (unat w div 2 ^ 26) (k - 26) = bit (unat w) k"
    using k by (simp only: bit_drop_bit_eq comp_def le_add_diff_inverse flip: drop_bit_eq_div)
  also have "\<dots> = bit w k"
    by (auto simp: bit_unsigned_iff dest: bit_imp_le_length)
  finally show ?thesis by simp
qed

lemma state_plus_1:
  assumes "rcount w + 1 < 2 ^ 26"
  shows "rcount (w + 1) = rcount w + 1" and "26 \<le> k \<Longrightarrow> bit (w + 1) k = bit w k"
proof -
  define q where "q = unat w div 2 ^ 26"
  have w: "unat w = 2 ^ 26 * q + rcount w" by (simp add: q_def rcount_mod)
  have "unat w < 2 ^ 32" using unsigned_less[where 'b = 32 and w = w] by simp
  then have "q < 2 ^ 6" using w by simp
  then have u: "unat (w + 1) = 2 ^ 26 * q + (rcount w + 1)"
    using assms w by (simp add: unat_word_ariths)
  then show "rcount (w + 1) = rcount w + 1" using assms by (simp add: rcount_mod[of "w + 1"])
  have "unat (w + 1) div 2 ^ 26 = q" using u assms by simp
  then show "bit (w + 1) k = bit w k" if "26 \<le> k"
    using that by (simp add: high_bits_unat q_def)
qed

lemma state_plus_n:
  "rcount w + n < 2 ^ 26 \<Longrightarrow> rcount (w + of_nat n) = rcount w + n \<and> (26 \<le> k \<longrightarrow> bit (w + of_nat n) k = bit w k)"
proof (induction n)
  case (Suc n)
  then have "rcount (w + of_nat n) + 1 < 2 ^ 26" by simp
  note step = state_plus_1[OF this]
  have e: "w + of_nat (Suc n) = (w + of_nat n) + 1" by simp
  show ?case unfolding e using step Suc by simp
qed simp

lemma state_minus_1:
  assumes "0 < rcount w"
  shows "rcount (w - 1) = rcount w - 1" and "26 \<le> k \<Longrightarrow> bit (w - 1) k = bit w k"
proof -
  define q where "q = unat w div 2 ^ 26"
  have w: "unat w = 2 ^ 26 * q + rcount w" by (simp add: q_def rcount_mod)
  then have "unat w \<noteq> 0" using assms by simp
  then have "w \<noteq> 0" by auto
  then have "unat (w - 1) = 2 ^ 26 * q + (rcount w - 1)"
    using w assms by (simp add: unat_minus_one)
  moreover have "rcount w - 1 < 2 ^ 26" using rcount_less[of w] by simp
  ultimately have m: "rcount (w - 1) = rcount w - 1" by (simp add: rcount_mod[of "w - 1"])
  have lt: "rcount (w - 1) + 1 < 2 ^ 26" using m assms rcount_less[of w] by simp
  from state_plus_1[OF lt] show "rcount (w - 1) = rcount w - 1"
    and "26 \<le> k \<Longrightarrow> bit (w - 1) k = bit w k"
    using assms by simp_all
qed

lemma rcount_set_clear [simp]:
  "rcount (w OR INTENT_BIT) = rcount w" "rcount (w OR WRITE_BIT) = rcount w"
  "rcount (w OR NOSPIN_BIT) = rcount w"
  "rcount (w AND NOT INTENT_BIT) = rcount w" "rcount (w AND NOT WRITE_BIT) = rcount w"
  "rcount (w AND NOT WAITING_READ_BIT) = rcount w" "rcount (w AND NOT WAITING_INTENT_BIT) = rcount w"
  "rcount (w AND NOT WAITING_WRITE_BIT) = rcount w" "rcount (w AND NOT NOSPIN_BIT) = rcount w"
  "rcount (w OR WAITING_WRITE_BIT) = rcount w" "rcount (w OR WAITING_READ_BIT) = rcount w"
  by (rule rcount_cong; auto simp: bit_simps)+

lemma read_count_eq_0: "read_count w = 0 \<longleftrightarrow> rcount w = 0"
  by (simp add: rcount_def unat_eq_zero)

lemma read_count_gt_0: "0 < read_count w \<longleftrightarrow> 0 < rcount w"
  by (simp add: rcount_def word_less_nat_alt)

text \<open>With no waiting bit set in the word, waking is a no-op.\<close>

lemma no_waiting_no_wakeup [simp]:
  "\<not> has_bit (state s) (waiting_bit lt) \<Longrightarrow> wakeup_lock_type st lt s = s"
  by (simp add: wakeup_lock_type_def)

section \<open>The invariant of the non-blocking operations\<close>

text \<open>
  For a lock with the reader count in the state word, used by the finite set \<open>T\<close> of
  threads, which take read locks on no other lock, with nobody waiting: the word's count is
  the sum of the threads' counters, the flag bits say which owner fields are set, and a
  writer excludes every other reader and every other intent holder.
\<close>

definition quiet :: "six \<Rightarrow> bool" where
  "quiet s \<longleftrightarrow> readers s = None \<and> \<not> bit (state s) 28 \<and> \<not> bit (state s) 29 \<and> \<not> bit (state s) 30"

definition six_inv :: "tid set \<Rightarrow> six \<Rightarrow> bool" where
  "six_inv T s \<longleftrightarrow>
     finite T \<and> quiet s \<and>
     rcount (state s) = (\<Sum>t\<in>T. unat (read_cnt s t)) \<and> (\<forall>t. t \<notin> T \<longrightarrow> read_cnt s t = 0) \<and>
     (bit (state s) 26 \<longleftrightarrow> intent_owner s \<noteq> None) \<and> (bit (state s) 27 \<longleftrightarrow> write_owner s \<noteq> None) \<and>
     (intent_owner s = None \<longrightarrow> intent_recurse s = 0) \<and> (write_owner s = None \<longrightarrow> write_recurse s = 0) \<and>
     (\<forall>w. write_owner s = Some w \<longrightarrow>
        (\<forall>t. t \<noteq> w \<longrightarrow> read_cnt s t = 0) \<and> (intent_owner s = None \<or> intent_owner s = Some w))"

lemma six_invD:
  assumes "six_inv T s"
  shows "finite T" "readers s = None" "\<not> bit (state s) 28" "\<not> bit (state s) 29" "\<not> bit (state s) 30"
    "rcount (state s) = (\<Sum>t\<in>T. unat (read_cnt s t))" "t \<notin> T \<Longrightarrow> read_cnt s t = 0"
    "bit (state s) 26 \<longleftrightarrow> intent_owner s \<noteq> None" "bit (state s) 27 \<longleftrightarrow> write_owner s \<noteq> None"
    "intent_owner s = None \<Longrightarrow> intent_recurse s = 0" "write_owner s = None \<Longrightarrow> write_recurse s = 0"
    "write_owner s = Some w \<Longrightarrow> t \<noteq> w \<Longrightarrow> read_cnt s t = 0"
    "write_owner s = Some w \<Longrightarrow> intent_owner s = None \<or> intent_owner s = Some w"
  using assms by (auto simp: six_inv_def quiet_def)

lemma six_inv_new: "finite T \<Longrightarrow> six_inv T (six_new None slot)"
  by (simp add: six_inv_def quiet_def six_new_def rcount_def read_count_def)

text \<open>A thread's counter is part of the word's count, so it cannot wrap.\<close>

lemma cnt_le_rcount:
  assumes "six_inv T s" and "t \<in> T"
  shows "unat (read_cnt s t) \<le> rcount (state s)"
  using member_le_sum[of t T "\<lambda>x. unat (read_cnt s x)"] six_invD(1,6)[OF assms(1)] assms(2)
  by simp

lemma cnt_pos_member: "six_inv T s \<Longrightarrow> read_cnt s t \<noteq> 0 \<Longrightarrow> t \<in> T"
  using six_invD(7) by blast

lemma sum_cnt_upd:
  assumes "finite T" and "t \<in> T"
  shows "(\<Sum>x\<in>T. unat ((f(t := c)) x)) + unat (f t) = (\<Sum>x\<in>T. unat (f x)) + unat c"
proof -
  have "(\<Sum>x\<in>T - {t}. unat ((f(t := c)) x)) = (\<Sum>x\<in>T - {t}. unat (f x))"
    by (rule sum.cong) auto
  then show ?thesis
    using sum.remove[OF assms, of "\<lambda>x. unat ((f(t := c)) x)"] sum.remove[OF assms, of "\<lambda>x. unat (f x)"]
    by simp
qed

lemma rcount_saturating:
  assumes "six_inv T s" and "t \<in> T"
    and "saturating_sub (read_count (state s)) (read_cnt s t) = 0" and "u \<noteq> t"
  shows "read_cnt s u = 0"
proof (cases "u \<in> T")
  case True
  have "rcount (state s) - unat (read_cnt s t) = 0"
    using assms(3) by (metis rcount_def unat_0 unat_saturating_sub)
  moreover have "rcount (state s) = unat (read_cnt s t) + (\<Sum>x\<in>T - {t}. unat (read_cnt s x))"
    using six_invD(1,6)[OF assms(1)] assms(2) by (simp add: sum.remove)
  ultimately have "(\<Sum>x\<in>T - {t}. unat (read_cnt s x)) = 0" by simp
  then show ?thesis using True assms(4) six_invD(1)[OF assms(1)] by (simp add: unat_eq_zero)
next
  case False
  then show ?thesis using six_invD(7)[OF assms(1)] by blast
qed

subsection \<open>The elementary changes preserve it\<close>

lemma six_inv_no_wakeup [simp]: "six_inv T s \<Longrightarrow> wakeup_lock_type st lt s = s"
  by (cases lt) (auto simp: wakeup_lock_type_def waiting_bit_def six_inv_def quiet_def)

lemma six_inv_wakeup [simp]: "six_inv T s \<Longrightarrow> six_inv T (wakeup_lock_type st lt s)"
  using six_inv_no_wakeup by metis

lemma six_inv_read_inc:
  assumes I: "six_inv T s" and t: "t \<in> T" and room: "rcount (state s) + 1 < 2 ^ 26"
    and w: "write_owner s = None \<or> write_owner s = Some t"
  shows "six_inv T (add_read_cnt t 1 (s\<lparr>state := state s + 1\<rparr>))"
proof -
  have "unat (read_cnt s t) < 2 ^ 26" using cnt_le_rcount[OF I t] room by simp
  then have c: "unat (read_cnt s t + 1) = unat (read_cnt s t) + 1"
    by (simp add: unat_word_ariths)
  have "rcount (state s + 1) = (\<Sum>x\<in>T. unat ((((read_cnt s)(t := read_cnt s t + 1)) x)))"
    using sum_cnt_upd[OF six_invD(1)[OF I] t, of "read_cnt s" "read_cnt s t + 1"]
      state_plus_1(1)[OF room] six_invD(6)[OF I] c by simp
  then show ?thesis
    using I t w state_plus_1(2)[OF room] by (auto simp: six_inv_def quiet_def add_read_cnt_def)
qed

lemma six_inv_read_dec:
  assumes I: "six_inv T s" and pos: "read_cnt s t \<noteq> 0"
  shows "six_inv T (add_read_cnt t (- 1) (s\<lparr>state := state s - 1\<rparr>))"
proof -
  have t: "t \<in> T" using cnt_pos_member[OF I pos] .
  have c: "unat (read_cnt s t - 1) = unat (read_cnt s t) - 1" and p: "0 < unat (read_cnt s t)"
    using pos by (simp_all add: unat_minus_one unat_gt_0)
  then have r: "0 < rcount (state s)" using cnt_le_rcount[OF I t] by simp
  have "rcount (state s - 1) = (\<Sum>x\<in>T. unat ((((read_cnt s)(t := read_cnt s t - 1)) x)))"
    using sum_cnt_upd[OF six_invD(1)[OF I] t, of "read_cnt s" "read_cnt s t - 1"]
      state_minus_1(1)[OF r] six_invD(6)[OF I] c p by simp
  moreover have "u = t" if "write_owner s = Some u" for u
    using six_invD(12)[OF I that, of t] pos by auto
  ultimately show ?thesis
    using I t state_minus_1(2)[OF r] by (fastforce simp: six_inv_def quiet_def add_read_cnt_def)
qed

lemma six_inv_set_intent:
  assumes "six_inv T s" and "write_owner s = None \<or> write_owner s = Some t"
  shows "six_inv T ((set_bits INTENT_BIT s)\<lparr>intent_owner := Some t\<rparr>)"
  using assms by (auto simp: six_inv_def quiet_def set_bits_def bit_simps)

lemma six_inv_clear_intent:
  assumes "six_inv T s" and "intent_recurse s = 0"
  shows "six_inv T (clear_bits INTENT_BIT (s\<lparr>intent_owner := None\<rparr>))"
  using assms by (auto simp: six_inv_def quiet_def clear_bits_def bit_simps)

lemma six_inv_set_write:
  assumes "six_inv T s" and "\<forall>u. u \<noteq> t \<longrightarrow> read_cnt s u = 0"
    and "intent_owner s = None \<or> intent_owner s = Some t"
  shows "six_inv T ((set_bits WRITE_BIT s)\<lparr>write_owner := Some t\<rparr>)"
  using assms by (auto simp: six_inv_def quiet_def set_bits_def bit_simps)

lemma six_inv_clear_write:
  assumes "six_inv T s" and "write_recurse s = 0"
  shows "six_inv T (clear_bits WRITE_BIT (s\<lparr>write_owner := None, seq := q\<rparr>))"
  using assms by (auto simp: six_inv_def quiet_def clear_bits_def bit_simps)

lemma six_inv_recurse:
  "six_inv T s \<Longrightarrow> intent_owner s \<noteq> None \<Longrightarrow> six_inv T (s\<lparr>intent_recurse := n\<rparr>)"
  "six_inv T s \<Longrightarrow> write_owner s \<noteq> None \<Longrightarrow> six_inv T (s\<lparr>write_recurse := n\<rparr>)"
  by (auto simp: six_inv_def quiet_def)

lemma six_inv_nospin:
  "six_inv T s \<Longrightarrow> six_inv T (set_nospin s)" "six_inv T s \<Longrightarrow> six_inv T (clear_nospin s)"
  by (auto simp: six_inv_def quiet_def set_nospin_def clear_nospin_def set_bits_def clear_bits_def bit_simps)

subsection \<open>The operations preserve it\<close>

lemma try_lock_read_inv:
  assumes "six_inv T s" and "t \<in> T" and "rcount (state s) + 1 < 2 ^ 26" and "try_lock_read t s = (b, s')"
  shows "six_inv T s'"
  using assms six_inv_read_inc[of T s t] six_invD(2,9)[OF assms(1)]
  by (auto simp: try_lock_read_def Let_def has_write_lock_def split: if_splits)

lemma unlock_read_inv:
  assumes "six_inv T s" and "read_cnt s t \<noteq> 0"
  shows "six_inv T (unlock_read t s)"
  using six_inv_read_dec[OF assms] six_invD(2)[OF assms(1)] by (simp add: unlock_read_def)

lemma try_lock_intent_inv:
  assumes "six_inv T s" and "try_lock_intent t s = (b, s')"
  shows "six_inv T s'"
  using assms six_inv_set_intent[of T s t] six_inv_recurse(1)[OF assms(1)] six_invD(9)[OF assms(1)]
  by (auto simp: try_lock_intent_def split: if_splits)

lemma unlock_intent_inv:
  assumes "six_inv T s" and "intent_owner s \<noteq> None"
  shows "six_inv T (unlock_intent s)"
  using six_inv_recurse(1)[OF assms] six_inv_clear_intent[OF assms(1)]
  by (cases "intent_recurse s = 0") (simp_all add: unlock_intent_def Let_def word_gt_0)

lemma try_lock_write_inv:
  assumes I: "six_inv T s" and t: "t \<in> T" and op: "try_lock_write t s = (b, s')"
  shows "six_inv T s'"
proof -
  consider "s' = s" | "s' = s\<lparr>write_recurse := write_recurse s + 1\<rparr>" "write_owner s = Some t"
    | "s' = (set_bits WRITE_BIT s)\<lparr>write_owner := Some t\<rparr>" "\<not> bit (state s) 26"
      "saturating_sub (read_count (state s)) (read_cnt s t) = 0"
    using op six_invD(2)[OF I]
    by (auto simp: try_lock_write_def has_write_lock_def split: if_splits)
  then show ?thesis
  proof cases
    case 3
    then show ?thesis
      using six_inv_set_write[OF I, of t] rcount_saturating[OF I t] six_invD(8)[OF I] by auto
  qed (use I six_inv_recurse(2)[OF I] in auto)
qed

lemma unlock_write_inv:
  assumes "six_inv T s" and "write_owner s \<noteq> None"
  shows "six_inv T (unlock_write s)"
  using six_inv_recurse(2)[OF assms] six_inv_clear_write[OF assms(1)]
  by (cases "write_recurse s = 0") (simp_all add: unlock_write_def Let_def word_gt_0)

lemma try_upgrade_intent_to_write_inv:
  assumes I: "six_inv T s" and own: "intent_owner s = Some t" and op: "try_upgrade_intent_to_write t s = (b, s')"
  shows "six_inv T s'"
proof -
  have z: "read_cnt s u = 0" if "rcount (state s) = 0" for u
    using that six_invD(1,6,7)[OF I] by (cases "u \<in> T") (auto simp: unat_eq_zero)
  from op have "s' = s \<or> (s' = (set_bits WRITE_BIT s)\<lparr>write_owner := Some t\<rparr> \<and> rcount (state s) = 0)"
    by (auto simp: try_upgrade_intent_to_write_def read_count_gt_0 split: if_splits)
  then show ?thesis using I own z six_inv_set_write[OF I, of t] by auto
qed

lemma downgrade_write_to_intent_inv:
  assumes "six_inv T s" and "write_recurse s = 0"
  shows "six_inv T (downgrade_write_to_intent s)"
  using six_inv_clear_write[OF assms] by (simp add: downgrade_write_to_intent_def Let_def)

lemma downgrade_intent_to_read_inv:
  assumes I: "six_inv T s" and t: "t \<in> T" and own: "intent_owner s = Some t"
    and rec: "intent_recurse s = 0" and room: "rcount (state s) + 1 < 2 ^ 26"
  shows "six_inv T (downgrade_intent_to_read t s)"
proof -
  have "write_owner s = None \<or> write_owner s = Some t"
    using six_invD(13)[OF I] own by (cases "write_owner s") auto
  then have "six_inv T (add_read_cnt t 1 (s\<lparr>state := state s + 1\<rparr>))"
    using six_inv_read_inc[OF I t room] by simp
  then have "six_inv T (clear_bits INTENT_BIT ((add_read_cnt t 1 (s\<lparr>state := state s + 1\<rparr>))\<lparr>intent_owner := None\<rparr>))"
    by (rule six_inv_clear_intent) (simp add: rec add_read_cnt_def)
  also have "clear_bits INTENT_BIT ((add_read_cnt t 1 (s\<lparr>state := state s + 1\<rparr>))\<lparr>intent_owner := None\<rparr>)
      = downgrade_intent_to_read t s"
    using six_invD(2)[OF I]
    by (cases s) (simp add: downgrade_intent_to_read_def Let_def add_read_cnt_def clear_bits_def)
  finally show ?thesis .
qed

lemma try_upgrade_read_to_intent_inv:
  assumes I: "six_inv T s" and pos: "read_cnt s t \<noteq> 0" and op: "try_upgrade_read_to_intent t s = (b, s')"
  shows "six_inv T s'"
proof -
  let ?s1 = "add_read_cnt t (- 1) (s\<lparr>state := state s - 1\<rparr>)"
  have J: "six_inv T ?s1" by (rule six_inv_read_dec[OF I pos])
  have eq: "add_read_cnt t (- 1) (s\<lparr>state := (state s - 1) OR INTENT_BIT, intent_owner := Some t\<rparr>)
      = (set_bits INTENT_BIT ?s1)\<lparr>intent_owner := Some t\<rparr>"
    by (simp add: add_read_cnt_def set_bits_def)
  consider "s' = s" | "\<not> bit (state s) 27" "s' = (set_bits INTENT_BIT ?s1)\<lparr>intent_owner := Some t\<rparr>"
  proof (cases "has_bit (state s) (INTENT_BIT OR WRITE_BIT) \<or> read_count (state s) = 0")
    case True
    then have "s' = s"
      using op six_invD(2)[OF I] by (simp add: try_upgrade_read_to_intent_def split: if_splits)
    then show ?thesis using that(1) by blast
  next
    case False
    then have "s' = (set_bits INTENT_BIT ?s1)\<lparr>intent_owner := Some t\<rparr>"
      using op six_invD(2)[OF I] unfolding try_upgrade_read_to_intent_def eq by simp
    then show ?thesis using that(2) False by simp
  qed
  then show ?thesis
  proof cases
    case 2
    have "write_owner ?s1 = None" using 2(1) six_invD(9)[OF I] by (simp add: add_read_cnt_def)
    then show ?thesis using six_inv_set_intent[OF J, of t] 2 by simp
  qed (use I in simp)
qed


lemma trylock_inv:
  assumes "six_inv T s" and "t \<in> T" and "lt = LRead \<Longrightarrow> rcount (state s) + 1 < 2 ^ 26"
    and "trylock_ip t lt s = (b, s')"
  shows "six_inv T s'"
proof (cases lt)
  case LRead
  then show ?thesis using try_lock_read_inv[OF assms(1,2,3)] assms(4) by (simp add: trylock_ip_def)
next
  case LIntent
  then show ?thesis using try_lock_intent_inv[OF assms(1)] assms(4) by (simp add: trylock_ip_def)
next
  case LWrite
  then show ?thesis using try_lock_write_inv[OF assms(1,2)] assms(4) by (simp add: trylock_ip_def)
qed

text \<open>A sequence-checked relock either takes the lock or leaves it as it was taken and released.\<close>

lemma trylock_keeps_seq: "six_inv T s \<Longrightarrow> trylock_ip t lt s = (b, s') \<Longrightarrow> seq s' = seq s"
  using six_invD(2)[of T s]
  by (cases lt) (auto simp: trylock_ip_def try_lock_read_def try_lock_intent_def try_lock_write_def
      Let_def add_read_cnt_def set_bits_def split: if_splits)

lemma relock_inv:
  assumes "six_inv T s" and "t \<in> T" and "lt = LRead \<Longrightarrow> rcount (state s) + 1 < 2 ^ 26"
    and "relock_ip t lt sq s = (b, s')"
  shows "six_inv T s'"
proof -
  obtain ok s1 where tr: "trylock_ip t lt s = (ok, s1)" by fastforce
  have "s' = s \<or> s' = s1"
    using assms(4) tr trylock_keeps_seq[OF assms(1) tr]
    by (auto simp: relock_ip_def split: if_splits)
  then show ?thesis using assms(1) trylock_inv[OF assms(1-3) tr] by auto
qed

section \<open>Executions of the non-blocking operations\<close>

text \<open>
  One step is one method call by a thread of \<open>T\<close> that keeps to the interface: it unlocks and
  downgrades only what it holds, and neither the 26-bit reader field nor a recursion counter
  overflows. Failed attempts are steps too, and a spin (\<open>spin_lock_internal\<close>,
  \<open>upgrade_read_to_intent\<close>, \<open>upgrade_intent_to_write\<close>) is a sequence of attempts. The two
  \<open>downgrade_*\<close> methods are called only on a lock that is not held recursively, which is what
  they need; \<open>lock_downgrade\<close> needs no such thing. The executions are those of a lock made by
  \<open>SixLock::new\<close>, in its standard mode. Not steps: the blocking path (\<open>lock_slowpath\<close> and
  what calls it), which does break exclusion, and \<open>try_lock_read_to_write\<close> with its callers
  \<open>lock_read_to_write\<close> and \<open>lock_restart\<close>, which leave the INTENT bit set without an owner;
  both are treated in \<open>SixLockProps\<close>.
\<close>

inductive six_step :: "tid set \<Rightarrow> six \<Rightarrow> six \<Rightarrow> bool" for T where
  lock: "\<lbrakk>t \<in> T; lt = LRead \<longrightarrow> rcount (state s) + 1 < 2 ^ 26; trylock_ip t lt s = (b, s')\<rbrakk>
    \<Longrightarrow> six_step T s s'"
| relock: "\<lbrakk>t \<in> T; lt = LRead \<longrightarrow> rcount (state s) + 1 < 2 ^ 26; relock_ip t lt sq s = (b, s')\<rbrakk>
    \<Longrightarrow> six_step T s s'"
| unlock_r: "read_cnt s t \<noteq> 0 \<Longrightarrow> six_step T s (unlock_read t s)"
| unlock_i: "intent_owner s = Some t \<Longrightarrow> six_step T s (unlock_intent s)"
| unlock_w: "write_owner s = Some t \<Longrightarrow> six_step T s (unlock_write s)"
| upgrade_ri: "\<lbrakk>read_cnt s t \<noteq> 0; try_upgrade_read_to_intent t s = (b, s')\<rbrakk> \<Longrightarrow> six_step T s s'"
| upgrade_iw: "\<lbrakk>intent_owner s = Some t; try_upgrade_intent_to_write t s = (b, s')\<rbrakk> \<Longrightarrow> six_step T s s'"
| downgrade_wi: "\<lbrakk>write_owner s = Some t; intent_owner s = Some t; write_recurse s = 0\<rbrakk>
    \<Longrightarrow> six_step T s (downgrade_write_to_intent s)"
| downgrade_ir: "\<lbrakk>t \<in> T; intent_owner s = Some t; intent_recurse s = 0; rcount (state s) + 1 < 2 ^ 26\<rbrakk>
    \<Longrightarrow> six_step T s (downgrade_intent_to_read t s)"
| downgrade: "\<lbrakk>t \<in> T; intent_owner s = Some t; rcount (state s) + 1 < 2 ^ 26\<rbrakk>
    \<Longrightarrow> six_step T s (lock_downgrade t s)"
| convert: "\<lbrakk>t \<in> T; from \<noteq> LWrite; to \<noteq> LWrite; from = LRead \<longrightarrow> read_cnt s t \<noteq> 0;
     from = LIntent \<longrightarrow> intent_owner s = Some t \<and> rcount (state s) + 1 < 2 ^ 26;
     trylock_convert t from to s = (b, s')\<rbrakk> \<Longrightarrow> six_step T s s'"
| increment: "\<lbrakk>t \<in> T; lt = LRead \<longrightarrow> read_cnt s t \<noteq> 0 \<and> rcount (state s) + 1 < 2 ^ 26;
     lt = LIntent \<longrightarrow> intent_owner s = Some t; lt = LWrite \<longrightarrow> write_owner s = Some t\<rbrakk>
    \<Longrightarrow> six_step T s (lock_increment t lt s)"
| nospin_on: "six_step T s (set_nospin s)"
| nospin_off: "six_step T s (clear_nospin s)"

inductive_cases six_stepE: "six_step T s s'"

inductive six_reachable :: "tid set \<Rightarrow> six \<Rightarrow> bool" for T where
  init: "six_reachable T (six_new None slot)"
| step: "six_reachable T s \<Longrightarrow> six_step T s s' \<Longrightarrow> six_reachable T s'"

text \<open>\<open>lock_downgrade\<close> takes the read lock first, so the intent lock it drops is still its own.\<close>

lemma lock_downgrade_inv:
  assumes I: "six_inv T s" and t: "t \<in> T" and own: "intent_owner s = Some t" and room: "rcount (state s) + 1 < 2 ^ 26"
  shows "six_inv T (lock_downgrade t s)"
proof -
  have "write_owner s = None \<or> write_owner s = Some t"
    using six_invD(13)[OF I] own by (cases "write_owner s") auto
  then have J: "six_inv T (lock_increment t LRead s)"
    using six_inv_read_inc[OF I t room] six_invD(2)[OF I] by (simp add: lock_increment_def)
  have "intent_owner (lock_increment t LRead s) = Some t"
    using own six_invD(2)[OF I] by (simp add: lock_increment_def add_read_cnt_def)
  then show ?thesis using unlock_intent_inv[OF J] by (simp add: lock_downgrade_def)
qed

lemma trylock_convert_cases:
  assumes "from \<noteq> LWrite" "to \<noteq> LWrite" "trylock_convert t from to s = (b, s')"
  obtains "s' = s" | "from = LIntent" "s' = lock_downgrade t s" | "from = LRead" "try_upgrade_read_to_intent t s = (b, s')"
  using assms by (cases "from"; cases "to") (auto simp: trylock_convert_def)

lemma trylock_convert_inv:
  assumes I: "six_inv T s" and t: "t \<in> T" and w: "from \<noteq> LWrite" "to \<noteq> LWrite" and r: "from = LRead \<Longrightarrow> read_cnt s t \<noteq> 0"
    and i: "from = LIntent \<Longrightarrow> intent_owner s = Some t \<and> rcount (state s) + 1 < 2 ^ 26"
    and op: "trylock_convert t from to s = (b, s')"
  shows "six_inv T s'"
  using w op
proof (cases rule: trylock_convert_cases)
  case 2
  then show ?thesis using lock_downgrade_inv[OF I t] i by simp
next
  case 3
  then show ?thesis using try_upgrade_read_to_intent_inv[OF I] r by simp
qed (use I in simp)

lemma lock_increment_inv:
  assumes I: "six_inv T s" and t: "t \<in> T"
    and r: "lt = LRead \<Longrightarrow> read_cnt s t \<noteq> 0 \<and> rcount (state s) + 1 < 2 ^ 26"
    and i: "lt = LIntent \<Longrightarrow> intent_owner s \<noteq> None" and w: "lt = LWrite \<Longrightarrow> write_owner s \<noteq> None"
  shows "six_inv T (lock_increment t lt s)"
proof (cases lt)
  case LRead
  have "write_owner s = None \<or> write_owner s = Some t"
  proof (cases "write_owner s")
    case (Some u)
    then show ?thesis using six_invD(12)[OF I Some, of t] r[OF LRead] by blast
  qed simp
  then show ?thesis
    using six_inv_read_inc[OF I t] r[OF LRead] six_invD(2)[OF I] LRead by (simp add: lock_increment_def)
qed (use six_inv_recurse[OF I] i w in \<open>simp_all add: lock_increment_def\<close>)

lemma six_step_inv: "six_step T s s' \<Longrightarrow> six_inv T s \<Longrightarrow> six_inv T s'"
proof (induction rule: six_step.induct)
  case (lock t lt s b s')
  show ?case by (rule trylock_inv[OF lock.prems lock.hyps(1) _ lock.hyps(3)]) (use lock.hyps(2) in blast)
next
  case (relock t lt s sq b s')
  show ?case
    by (rule relock_inv[OF relock.prems relock.hyps(1) _ relock.hyps(3)]) (use relock.hyps(2) in blast)
next
  case (unlock_r s t)
  then show ?case by (simp add: unlock_read_inv)
next
  case (unlock_i s t)
  then show ?case by (simp add: unlock_intent_inv)
next
  case (unlock_w s t)
  then show ?case by (simp add: unlock_write_inv)
next
  case (upgrade_ri s t b s')
  then show ?case by (intro try_upgrade_read_to_intent_inv[of T s t b s'])
next
  case (upgrade_iw s t b s')
  then show ?case by (intro try_upgrade_intent_to_write_inv[of T s t b s'])
next
  case (downgrade_wi s t)
  then show ?case by (simp add: downgrade_write_to_intent_inv)
next
  case (downgrade_ir t s)
  then show ?case by (simp add: downgrade_intent_to_read_inv)
next
  case (downgrade t s)
  then show ?case by (simp add: lock_downgrade_inv)
next
  case (convert t "from" to s b s')
  show ?case
    by (rule trylock_convert_inv[OF convert.prems convert.hyps(1-3) _ _ convert.hyps(6)])
      (use convert.hyps(4,5) in blast)+
next
  case (increment t lt s)
  then show ?case by (intro lock_increment_inv) simp_all
qed (simp_all add: six_inv_nospin)

lemma six_reachable_inv: "six_reachable T s \<Longrightarrow> finite T \<Longrightarrow> six_inv T s"
  by (induction rule: six_reachable.induct) (auto simp: six_inv_new intro: six_step_inv)

end
