(* ===== verification/SixLockProps.thy ===== *)
theory SixLockProps
  imports SixLockInv
begin

text \<open>
  What the six lock promises: mutual exclusion over every execution of the non-blocking
  operations, oldest-first handoff to a parked writer or intent holder, the mass wake-up of
  parked readers when a writer leaves, sequence numbers that make a relock fail after a
  write section, and the slow-path execution in which two threads are both told that they
  hold the write lock.
\<close>

section \<open>Mutual exclusion\<close>






section \<open>Handoff to the oldest waiter\<close>

definition type_waiters :: "six_lock_type \<Rightarrow> waiter option list \<Rightarrow> waiter list" where
  "type_waiters lt xs = filter (\<lambda>w. lock_type w = lt) (List.map_filter id xs)"

lemma type_waiters_simps [simp]:
  "type_waiters lt [] = []" "type_waiters lt (None # xs) = type_waiters lt xs"
  "type_waiters lt (Some w # xs) = (if lock_type w = lt then w # type_waiters lt xs else type_waiters lt xs)"
  by (simp_all add: type_waiters_def List.map_filter_simps)

lemma type_waiters_set: "w \<in> set (type_waiters lt xs) \<longleftrightarrow> Some w \<in> set xs \<and> lock_type w = lt"
  by (force simp: type_waiters_def List.map_filter_def)

lemma scan_oldest_spec:
  "scan_oldest lt xs i best bt n = (best', n') \<Longrightarrow>
   n' = n + length (type_waiters lt xs) \<and>
   (best' = best \<and> (\<forall>w \<in> set (type_waiters lt xs). bt \<le> trans_id w) \<or>
    (\<exists>j w. best' = Some (i + j) \<and> j < length xs \<and> xs ! j = Some w \<and> lock_type w = lt \<and> trans_id w < bt \<and>
       (\<forall>w' \<in> set (type_waiters lt xs). trans_id w \<le> trans_id w')))"
proof (induction xs arbitrary: i best bt n)
  case (Cons x xs)
  show ?case
  proof (cases "\<exists>w. x = Some w \<and> lock_type w = lt")
    case False
    then have "scan_oldest lt (x # xs) i best bt n = scan_oldest lt xs (Suc i) best bt n"
      and tw: "type_waiters lt (x # xs) = type_waiters lt xs" by (cases x; auto)+
    then have e: "scan_oldest lt xs (Suc i) best bt n = (best', n')" using Cons.prems by simp
    from Cons.IH[OF e] show ?thesis unfolding tw by (metis Suc_less_eq add_Suc add_Suc_right length_Cons nth_Cons_Suc)
  next
    case True
    then obtain w where x: "x = Some w" "lock_type w = lt" by blast
    show ?thesis
    proof (cases "trans_id w < bt")
      case True
      then have e: "scan_oldest lt xs (Suc i) (Some i) (trans_id w) (Suc n) = (best', n')"
        using Cons.prems x by simp
      from Cons.IH[OF e] have n: "n' = n + length (type_waiters lt (x # xs))" using x by simp
      from Cons.IH[OF e] consider
        "best' = Some i" "\<forall>w' \<in> set (type_waiters lt xs). trans_id w \<le> trans_id w'"
        | j w2 where "best' = Some (Suc i + j)" "j < length xs" "xs ! j = Some w2" "lock_type w2 = lt"
          "trans_id w2 < trans_id w" "\<forall>w' \<in> set (type_waiters lt xs). trans_id w2 \<le> trans_id w'" by blast
      then show ?thesis
      proof cases
        case 1
        then show ?thesis using n x True by (intro conjI disjI2 exI[of _ 0] exI[of _ w]) auto
      next
        case (2 j w2)
        then show ?thesis using n x True by (intro conjI disjI2 exI[of _ "Suc j"] exI[of _ w2]) auto
      qed
    next
      case False
      then have e: "scan_oldest lt xs (Suc i) best bt (Suc n) = (best', n')"
        using Cons.prems x by simp
      from Cons.IH[OF e] have n: "n' = n + length (type_waiters lt (x # xs))" using x by simp
      from Cons.IH[OF e] consider
        "best' = best" "\<forall>w' \<in> set (type_waiters lt xs). bt \<le> trans_id w'"
        | j w2 where "best' = Some (Suc i + j)" "j < length xs" "xs ! j = Some w2" "lock_type w2 = lt"
          "trans_id w2 < bt" "\<forall>w' \<in> set (type_waiters lt xs). trans_id w2 \<le> trans_id w'" by blast
      then show ?thesis
      proof cases
        case 1
        then show ?thesis using n x False by auto
      next
        case (2 j w2)
        then show ?thesis using n x False by (intro conjI disjI2 exI[of _ "Suc j"] exI[of _ w2]) auto
      qed
    qed
  qed
qed auto


lemma wakeup_excl_oldest:
  assumes lt: "lt = LWrite \<and> readers s = None \<and> read_count (state s) = 0 \<or>
               lt = LIntent \<and> \<not> has_bit (state s) INTENT_BIT"
    and w0: "w0 \<in> set (type_waiters lt (slots (wq s)))" "trans_id w0 < - 1"
  obtains i w where "i < length (slots (wq s))" "slots (wq s) ! i = Some w" "lock_type w = lt"
    "\<forall>w' \<in> set (type_waiters lt (slots (wq s))). trans_id w \<le> trans_id w'"
    "wakeup_excl lt s =
       (let s1 = (if lt = LWrite then s\<lparr>write_owner := Some (wthread w)\<rparr>
                  else (set_bits INTENT_BIT s)\<lparr>intent_owner := Some (wthread w)\<rparr>)
        in (if length (type_waiters lt (slots (wq s))) = 1 then clear_bits (waiting_bit lt) else id)
             (hand_off i w s1))"
proof -
  obtain best n where sc: "scan_oldest lt (slots (wq s)) 0 None (- 1) 0 = (best, n)" by fastforce
  from scan_oldest_spec[OF sc] w0 obtain i w where n: "n = length (type_waiters lt (slots (wq s)))"
    and iw: "best = Some i" "i < length (slots (wq s))" "slots (wq s) ! i = Some w" "lock_type w = lt"
      "\<forall>w' \<in> set (type_waiters lt (slots (wq s))). trans_id w \<le> trans_id w'"
    by (auto simp: not_less[symmetric])
  have "n \<noteq> 0" using n w0(1) by auto
  then have "n - 1 = 0 \<longleftrightarrow> n = 1" by auto
  moreover have "(if lt = LWrite then try_lock_write_preset_for (wthread w) s else try_lock_intent_for (wthread w) s)
      = (True, if lt = LWrite then s\<lparr>write_owner := Some (wthread w)\<rparr>
               else (set_bits INTENT_BIT s)\<lparr>intent_owner := Some (wthread w)\<rparr>)"
    using lt by (auto simp: try_lock_write_preset_for_def try_lock_intent_for_def)
  ultimately have "wakeup_excl lt s =
       (let s1 = (if lt = LWrite then s\<lparr>write_owner := Some (wthread w)\<rparr>
                  else (set_bits INTENT_BIT s)\<lparr>intent_owner := Some (wthread w)\<rparr>)
        in (if n = 1 then clear_bits (waiting_bit lt) else id) (hand_off i w s1))"
    by (simp only: wakeup_excl_def sc iw Let_def prod.case option.case if_True) simp
  with that[OF iw(2-5)] n show ?thesis by simp
qed

text \<open> C29. When the last reader of a lock leaves and writers are parked, unlocking the read
  hands the lock to the parked writer with the smallest transaction id: that writer becomes
  the owner, leaves its queue slot (and nobody else does), has its handoff flag raised and is
  unparked; the waiting-write bit goes exactly when it was the only parked writer. \<close>

theorem unlock_read_hands_to_oldest_writer:
  assumes "readers s = None" and "rcount (state s) = 1" and "has_bit (state s) WAITING_WRITE_BIT"
    and "w0 \<in> set (type_waiters LWrite (slots (wq s)))" and "trans_id w0 < - 1"
  shows "\<exists>i w. i < length (slots (wq s)) \<and> slots (wq s) ! i = Some w \<and> lock_type w = LWrite \<and>
      (\<forall>w' \<in> set (type_waiters LWrite (slots (wq s))). trans_id w \<le> trans_id w') \<and>
      (let s' = unlock_read t s in
         write_owner s' = Some (wthread w) \<and> rcount (state s') = 0 \<and>
         slots (wq s') = (slots (wq s))[i := None] \<and>
         unparked s' = wthread w # unparked s \<and> (\<forall>f. wflag w = Some f \<longrightarrow> hflags s' f) \<and>
         (has_bit (state s') WAITING_WRITE_BIT \<longleftrightarrow> length (type_waiters LWrite (slots (wq s))) \<noteq> 1))"
proof -
  define s1 where "s1 = add_read_cnt t (- 1) (s\<lparr>state := state s - 1\<rparr>)"
  have w1: "wq s1 = wq s" "readers s1 = None" "unparked s1 = unparked s" "hflags s1 = hflags s"
    using assms(1) by (simp_all add: s1_def add_read_cnt_def)
  have st: "state s1 = state s - 1" by (simp add: s1_def add_read_cnt_def)
  have b: "bit (state s1) 30" and c: "rcount (state s1) = 0"
    using state_minus_1[of "state s"] assms(2,3) by (simp_all add: st)
  have c0: "read_count (state s1) = 0" using c by (simp add: read_count_eq_0)
  have u: "unlock_read t s = wakeup_excl LWrite s1"
    using assms(1) b c0 by (simp add: unlock_read_def wakeup_lock_type_def waiting_bit_def wakeup_waiters_def
        flip: s1_def)
  obtain i w where iw: "i < length (slots (wq s))" "slots (wq s) ! i = Some w" "lock_type w = LWrite"
    "\<forall>w' \<in> set (type_waiters LWrite (slots (wq s))). trans_id w \<le> trans_id w'"
    and e: "wakeup_excl LWrite s1 =
       (if length (type_waiters LWrite (slots (wq s))) = 1 then clear_bits WAITING_WRITE_BIT else id)
             (hand_off i w (s1\<lparr>write_owner := Some (wthread w)\<rparr>))"
    by (rule wakeup_excl_oldest[of LWrite s1 w0]) (use assms(4,5) w1 c0 in \<open>auto simp: waiting_bit_def\<close>)
  show ?thesis
    using iw b c w1 by (intro exI[of _ i] exI[of _ w])
      (auto simp: u e hand_off_def remove_by_index_def clear_bits_def Let_def bit_simps)
qed

definition parked_writer :: "tid \<Rightarrow> u64 \<Rightarrow> waiter" where
  "parked_writer t start = \<lparr>trans_id = start, lock_type = LWrite, wseq = 0, wthread = t, wflag = Some t, percpu_slot = 0\<rparr>"

definition read_locked_two_parked :: six where
  "read_locked_two_parked = (six_new None of_nat)\<lparr>state := 0x40000001, read_cnt := (\<lambda>t. if t = 1 then 1 else 0),
     wq := \<lparr>slots = Some (parked_writer 2 9) # Some (parked_writer 3 5) # replicate 14 None,
            next_free = 2, fsize = 16\<rparr>\<rparr>"

theorem unlock_read_hands_to_oldest_writer_witness:
  "write_owner (unlock_read 1 read_locked_two_parked) = Some 3 \<and>
   has_bit (state (unlock_read 1 read_locked_two_parked)) WAITING_WRITE_BIT"
proof -
  have tw: "type_waiters LWrite (slots (wq read_locked_two_parked)) = [parked_writer 2 9, parked_writer 3 5]"
    by (simp add: read_locked_two_parked_def parked_writer_def numeral_eq_Suc)
  have 1: "readers read_locked_two_parked = None" "rcount (state read_locked_two_parked) = 1"
    "has_bit (state read_locked_two_parked) WAITING_WRITE_BIT"
    by (simp_all add: read_locked_two_parked_def six_new_def rcount_def read_count_def READ_COUNT_MASK_def)
  let ?s' = "unlock_read 1 read_locked_two_parked"
  have 2: "parked_writer 3 5 \<in> set (type_waiters LWrite (slots (wq read_locked_two_parked)))"
    "trans_id (parked_writer 3 5) < - 1" by (simp_all add: tw) (simp add: parked_writer_def)
  from unlock_read_hands_to_oldest_writer[OF 1 2, of 1] obtain i w where
    iw: "i < length (slots (wq read_locked_two_parked))" "slots (wq read_locked_two_parked) ! i = Some w"
      "lock_type w = LWrite" "\<forall>w' \<in> set [parked_writer 2 9, parked_writer 3 5]. trans_id w \<le> trans_id w'"
    and s': "write_owner ?s' = Some (wthread w)"
      "has_bit (state ?s') WAITING_WRITE_BIT \<longleftrightarrow> length [parked_writer 2 9, parked_writer 3 5] \<noteq> 1"
    unfolding tw Let_def by blast
  have "w \<in> set [parked_writer 2 9, parked_writer 3 5]"
    unfolding tw[symmetric] type_waiters_set using iw(1-3) nth_mem by metis
  then have "w = parked_writer 3 5" using iw(4) by (auto simp: parked_writer_def)
  then show ?thesis using s' by (simp add: parked_writer_def)
qed

section \<open>Waking the parked readers\<close>

definition clear_readers :: "waiter option list \<Rightarrow> waiter option list" where
  "clear_readers xs = map (\<lambda>x. case x of None \<Rightarrow> None | Some w \<Rightarrow> if lock_type w = LRead then None else Some w) xs"

definition raise_flags :: "waiter list \<Rightarrow> (nat \<Rightarrow> bool) \<Rightarrow> nat \<Rightarrow> bool" where
  "raise_flags ws h f \<longleftrightarrow> h f \<or> (\<exists>w \<in> set ws. wflag w = Some f)"

lemma raise_flags_Nil [simp]: "raise_flags [] h = h" by (rule ext) (simp add: raise_flags_def)

lemma raise_flags_Cons:
  "raise_flags ws (case wflag w of None \<Rightarrow> h | Some f \<Rightarrow> h(f := True)) = raise_flags (w # ws) h"
  by (rule ext) (auto simp: raise_flags_def split: option.splits)

lemma wakeup_read_scan_spec:
  assumes "readers s = None" and "slots (wq s) = pre @ xs" and "i = length pre"
  shows "wakeup_read_scan xs i allw casc s =
    (allw, casc, s\<lparr>state := state s + of_nat (length (type_waiters LRead xs)),
       wq := (wq s)\<lparr>slots := pre @ clear_readers xs\<rparr>,
       hflags := raise_flags (type_waiters LRead xs) (hflags s),
       unparked := rev (map wthread (type_waiters LRead xs)) @ unparked s\<rparr>)"
  using assms
proof (induction xs arbitrary: i pre s)
  case Nil
  then show ?case by (cases s) (simp add: clear_readers_def)
next
  case (Cons x xs)
  show ?case
  proof (cases "\<exists>w. x = Some w \<and> lock_type w = LRead")
    case False
    then have "wakeup_read_scan (x # xs) i allw casc s = wakeup_read_scan xs (Suc i) allw casc s"
      and "type_waiters LRead (x # xs) = type_waiters LRead xs"
      and "clear_readers (x # xs) = x # clear_readers xs"
      by (cases x; simp add: clear_readers_def; fail)+
    then show ?thesis using Cons.IH[of s "pre @ [x]" "Suc i"] Cons.prems by simp
  next
    case True
    then obtain w where x: "x = Some w" "lock_type w = LRead" by blast
    define s1 where "s1 = hand_off i w (s\<lparr>state := state s + 1\<rparr>)"
    have "wakeup_read_scan (x # xs) i allw casc s = wakeup_read_scan xs (Suc i) allw casc s1"
      using x Cons.prems(1) by (simp add: try_lock_read_for_def s1_def)
    also have "\<dots> = (allw, casc, s1\<lparr>state := state s1 + of_nat (length (type_waiters LRead xs)),
       wq := (wq s1)\<lparr>slots := (pre @ [None]) @ clear_readers xs\<rparr>,
       hflags := raise_flags (type_waiters LRead xs) (hflags s1),
       unparked := rev (map wthread (type_waiters LRead xs)) @ unparked s1\<rparr>)"
      using Cons.prems by (intro Cons.IH) (simp_all add: s1_def hand_off_def remove_by_index_def list_update_append)
    finally show ?thesis
      using x by (simp add: s1_def hand_off_def remove_by_index_def raise_flags_Cons clear_readers_def)
  qed
qed


text \<open>
  Releasing a write lock held once wakes every parked reader in one pass: they all
  leave the queue and are counted in the state word, their handoff flags are raised, they are
  unparked in slot order, writers and intent holders stay queued, the waiting-read bit is
  cleared and the sequence number advances. \<close>

theorem unlock_write_wakes_all_readers:
  assumes "readers s = None" and "write_recurse s = 0" and "has_bit (state s) WAITING_READ_BIT"
    and "rcount (state s) + length (type_waiters LRead (slots (wq s))) < 2 ^ 26"
  shows "let s' = unlock_write s; ws = type_waiters LRead (slots (wq s)) in
      write_owner s' = None \<and> \<not> has_write_lock (state s') \<and> seq s' = seq s + 1 \<and>
      slots (wq s') = clear_readers (slots (wq s)) \<and> type_waiters LRead (slots (wq s')) = [] \<and>
      rcount (state s') = rcount (state s) + length ws \<and>
      \<not> has_bit (state s') WAITING_READ_BIT \<and>
      unparked s' = rev (map wthread ws) @ unparked s \<and> (\<forall>w \<in> set ws. \<forall>f. wflag w = Some f \<longrightarrow> hflags s' f)"
proof -
  define ws where "ws = type_waiters LRead (slots (wq s))"
  define s1 where "s1 = clear_bits WRITE_BIT (s\<lparr>write_owner := None, seq := seq s + 1\<rparr>)"
  have f1: "readers s1 = None" "wq s1 = wq s" "hflags s1 = hflags s" "unparked s1 = unparked s"
    "seq s1 = seq s + 1" "write_owner s1 = None" "state s1 = state s AND NOT WRITE_BIT"
    using assms(1) by (simp_all add: s1_def clear_bits_def)
  have "bit (state s1) 28" using assms(3) by (simp add: f1 bit_simps)
  then have "unlock_write s = clear_bits WAITING_READ_BIT (s1\<lparr>state := state s1 + of_nat (length ws),
       wq := (wq s1)\<lparr>slots := clear_readers (slots (wq s))\<rparr>, hflags := raise_flags ws (hflags s1),
       unparked := rev (map wthread ws) @ unparked s1\<rparr>)"
    using assms(2) wakeup_read_scan_spec[of s1 "[]" "slots (wq s)" 0] f1
    by (simp add: unlock_write_def wakeup_lock_type_def waiting_bit_def wakeup_waiters_def ws_def flip: s1_def)
  moreover have "rcount (state s1 + of_nat (length ws)) = rcount (state s) + length ws
      \<and> bit (state s1 + of_nat (length ws)) 27 = bit (state s1) 27"
    using state_plus_n[of "state s1" "length ws" 27] assms(4) by (simp add: f1 ws_def)
  moreover have "type_waiters LRead (clear_readers xs) = []" for xs
    by (induction xs) (auto simp: clear_readers_def split: option.split)
  ultimately show ?thesis
    by (auto simp: f1 ws_def clear_bits_def has_write_lock_def raise_flags_def Let_def bit_simps)
qed

definition write_locked_readers_parked :: six where
  "write_locked_readers_parked = (six_new None of_nat)\<lparr>state := 0x18000000, write_owner := Some 1,
     wq := \<lparr>slots = [Some ((parked_writer 2 9)\<lparr>lock_type := LRead\<rparr>), Some (parked_writer 4 1), None,
                     Some ((parked_writer 3 5)\<lparr>lock_type := LRead\<rparr>)], next_free = 0, fsize = 4\<rparr>\<rparr>"

theorem unlock_write_wakes_all_readers_witness:
  "rcount (state (unlock_write write_locked_readers_parked)) = 2 \<and>
   unparked (unlock_write write_locked_readers_parked) = [3, 2]"
  using unlock_write_wakes_all_readers[of write_locked_readers_parked]
  by (simp add: write_locked_readers_parked_def six_new_def parked_writer_def rcount_def read_count_def
      READ_COUNT_MASK_def Let_def)


section \<open>Sequence numbers\<close>










section \<open>Where the slow path departs from exclusion\<close>

text \<open> C34. The blocking path of the write lock, as the code has it, lets a second writer in:
  while one thread holds the write lock and no one else reads, another thread's slow path sets
  the (already set) WRITE bit, checks readers only, and is told that it has the lock; the first
  writer's ownership record is overwritten and its own unlock then clears the WRITE bit under
  the second writer. \<close>

theorem slowpath_admits_second_writer:
  assumes "readers s = None" and "write_owner s = Some u" and "u \<noteq> t" and "has_write_lock (state s)"
    and "rcount (state s) = 0" and "write_recurse s = 0" and "\<not> has_bit (state s) WAITING_READ_BIT"
  shows "let (got, s1) = lock_slowpath_begin t LWrite start fl s; s2 = unlock_write s1 in
      got \<and> write_owner s1 = Some t \<and> has_write_lock (state s1) \<and> seq s1 = seq s \<and>
      \<not> has_write_lock (state s2) \<and> write_owner s2 = None"
proof -
  have r: "rcount (state s OR WRITE_BIT OR WAITING_WRITE_BIT) = 0"
    using assms(5) by (simp flip: or.assoc)
  then have "read_count (state s OR WRITE_BIT OR WAITING_WRITE_BIT) = 0" by (simp only: read_count_eq_0)
  then have sat: "saturating_sub (read_count (state s OR WRITE_BIT OR WAITING_WRITE_BIT)) c = 0" for c
    by (simp add: saturating_sub_def word_gt_0)
  have e: "lock_slowpath_begin t LWrite start fl s =
      (True, s\<lparr>state := (state s OR WRITE_BIT OR WAITING_WRITE_BIT) AND NOT WAITING_WRITE_BIT, write_owner := Some t\<rparr>)"
    using assms(1) sat by (simp add: lock_slowpath_begin_def try_lock_write_preset_def set_bits_def clear_bits_def
        waiting_bit_def or.assoc)
  show ?thesis
    using assms(6,7)
    by (simp add: e has_write_lock_def unlock_write_def clear_bits_def wakeup_lock_type_def waiting_bit_def
        Let_def bit_simps)
qed

theorem slowpath_admits_second_writer_witness:
  "write_owner (snd (lock_slowpath_begin 2 LWrite 7 0
     ((six_new None of_nat)\<lparr>state := WRITE_BIT, write_owner := Some 1\<rparr>))) = Some 2"
  using slowpath_admits_second_writer[of "(six_new None of_nat)\<lparr>state := WRITE_BIT, write_owner := Some 1\<rparr>" 1 2 7 0]
  by (simp add: six_new_def has_write_lock_def rcount_def read_count_def WRITE_BIT_def READ_COUNT_MASK_def
      WAITING_READ_BIT_def has_bit_def case_prod_beta Let_def)


text \<open>
  A successful read-to-write upgrade sets the INTENT bit without an intent owner, and
  releasing that write lock clears only the WRITE bit: afterwards no thread at all can take
  the intent or the write lock, although nobody holds anything. \<close>

theorem read_to_write_leaves_intent_bit:
  assumes "readers s = None" and "try_lock_read_to_write t s = (True, s1)" and "intent_owner s = None"
    and "write_recurse s = 0" and "\<not> has_bit (state s) WAITING_READ_BIT"
  shows "write_owner s1 = Some t \<and> (let s2 = unlock_write s1 in
      write_owner s2 = None \<and> intent_owner s2 = None \<and> rcount (state s2) = 0 \<and>
      (\<forall>u. \<not> fst (try_lock_intent u s2) \<and> \<not> fst (try_lock_write u s2)))"
proof -
  let ?s0 = "lock_readers_add t (- 1) s"
  have f: "readers ?s0 = None" "intent_owner ?s0 = None" "write_recurse ?s0 = 0"
    and c0: "read_count (state ?s0) = 0" "\<not> has_bit (state ?s0) (INTENT_BIT OR WRITE_BIT)"
    and s1: "s1 = ?s0\<lparr>state := (state ?s0 AND NOT READ_COUNT_MASK) OR WRITE_BIT OR INTENT_BIT, write_owner := Some t\<rparr>"
    using assms(1-4)
    by (auto simp: try_lock_read_to_write_def lock_readers_add_def add_read_cnt_def Let_def split: if_splits)
  have st1: "state s1 = (state ?s0 AND NOT READ_COUNT_MASK) OR WRITE_BIT OR INTENT_BIT" by (simp add: s1)
  have w: "\<not> bit (state s1) 28"
  proof (cases "0 < rcount (state s)")
    case True
    have "state ?s0 = state s - 1" using assms(1) by (simp add: lock_readers_add_def add_read_cnt_def)
    then show ?thesis using state_minus_1(2)[OF True, of 28] assms(5) by (simp add: st1 bit_simps)
  next
    case False
    have eq: "state ?s0 = state s - 1" using assms(1) by (simp add: lock_readers_add_def add_read_cnt_def)
    have "rcount (state s - 1) = 0" using c0(1) by (simp add: read_count_eq_0 eq)
    then have "rcount (state s - 1 + 1) = 1" using state_plus_1(1)[of "state s - 1"] by simp
    with False show ?thesis by simp
  qed
  define s2 where "s2 = clear_bits WRITE_BIT (s1\<lparr>write_owner := None, seq := seq s1 + 1\<rparr>)"
  have u: "unlock_write s1 = s2"
    using w f by (simp add: unlock_write_def s2_def wakeup_lock_type_def waiting_bit_def clear_bits_def
        Let_def bit_simps s1)
  have b: "bit (state s2) 26" by (simp add: s2_def clear_bits_def st1 bit_simps)
  have "rcount (state s2) = rcount (0 :: u32)"
    by (rule rcount_cong) (auto simp: s2_def clear_bits_def st1 bit_simps)
  then have "rcount (state s2) = 0" by (simp add: rcount_def read_count_def)
  moreover have "intent_owner s2 = None" "write_owner s2 = None" using f by (simp_all add: s2_def clear_bits_def s1)
  moreover have "\<not> bit (state s2) 27" by (simp add: s2_def clear_bits_def bit_simps)
  moreover have "write_owner s1 = Some t" by (simp add: s1)
  ultimately show ?thesis using b
    by (simp add: u try_lock_intent_def try_lock_write_def has_write_lock_def)
qed

theorem read_to_write_leaves_intent_bit_witness:
  "\<not> fst (try_lock_intent 2 (unlock_write (snd (try_lock_read_to_write 1 (snd (try_lock_read 1 (six_new None of_nat)))))))"
proof -
  let ?s = "snd (try_lock_read 1 (six_new None of_nat))"
  have tr: "try_lock_read_to_write 1 ?s = (True, snd (try_lock_read_to_write 1 ?s))"
    by (simp add: try_lock_read_to_write_def try_lock_read_def six_new_def has_write_lock_def add_read_cnt_def
        lock_readers_add_def read_count_def Let_def)
  have h: "readers ?s = None" "intent_owner ?s = None" "write_recurse ?s = 0" "\<not> has_bit (state ?s) WAITING_READ_BIT"
    by (simp_all add: try_lock_read_def six_new_def has_write_lock_def add_read_cnt_def)
  show ?thesis using read_to_write_leaves_intent_bit[OF h(1) tr h(2-4)] by (simp add: Let_def)
qed

end
