(* ===== verification/Deadlock.thy ===== *)
theory Deadlock
  imports Prelude
begin

text \<open>
  The deadlock detector of \<open>lock/deadlock.rs\<close>: a depth-first search with an explicit stack of
  coloured transactions over the collected wait-for triples, cut off at 64 stack entries. The
  theorems: it always ends, a positive answer names a real wait-for cycle reachable from the
  starting transaction, a negative one excludes such a cycle as long as fewer than 64
  transactions are involved, and a ring of 64 transactions goes undetected.
\<close>

section \<open>The search\<close>

datatype dfs_color = Gray | Black

record waiter_info =
  wi_trans :: u64
  wi_lock :: u64
  wi_holder :: u64

definition MAX_DEPTH :: nat where "MAX_DEPTH = 64"

type_synonym dfs_stack = "(u64 \<times> dfs_color) list"

datatype scan_result = FoundCycle | PushNode u64 | AllDone

text \<open>The scan of the waiters for the transaction on top of the stack (head first here).\<close>

fun scan_waiters :: "waiter_info list \<Rightarrow> u64 \<Rightarrow> dfs_stack \<Rightarrow> u64 list \<Rightarrow> scan_result" where
  "scan_waiters [] cur stk vis = AllDone"
| "scan_waiters (w # ws) cur stk vis =
     (if wi_trans w = cur then
        (case map_of stk (wi_holder w) of
           Some Gray \<Rightarrow> FoundCycle
         | Some Black \<Rightarrow> scan_waiters ws cur stk vis
         | None \<Rightarrow> if wi_holder w \<in> set vis then scan_waiters ws cur stk vis else PushNode (wi_holder w))
      else scan_waiters ws cur stk vis)"

partial_function (option) detect_loop :: "waiter_info list \<Rightarrow> dfs_stack \<Rightarrow> u64 list \<Rightarrow> bool option" where
  "detect_loop ws stk vis =
     (case stk of
        [] \<Rightarrow> Some False
      | (cur, col) # rest \<Rightarrow>
          if col = Black then detect_loop ws rest (vis @ [cur])
          else if MAX_DEPTH \<le> length stk then Some False
          else (case scan_waiters ws cur stk vis of
                  FoundCycle \<Rightarrow> Some True
                | PushNode h \<Rightarrow> detect_loop ws ((h, Gray) # stk) vis
                | AllDone \<Rightarrow> detect_loop ws ((cur, Black) # rest) vis))"

definition detect :: "u64 \<Rightarrow> waiter_info list \<Rightarrow> bool option" where
  "detect start ws = detect_loop ws [(start, Gray)] []"

section \<open>The wait-for graph\<close>

definition waits_for :: "waiter_info list \<Rightarrow> (u64 \<times> u64) set" where
  "waits_for ws = (\<lambda>w. (wi_trans w, wi_holder w)) ` set ws"

definition deadlocked :: "waiter_info list \<Rightarrow> u64 \<Rightarrow> bool" where
  "deadlocked ws s \<longleftrightarrow> (\<exists>x. (s, x) \<in> (waits_for ws)\<^sup>* \<and> (x, x) \<in> (waits_for ws)\<^sup>+)"

definition transactions :: "u64 \<Rightarrow> waiter_info list \<Rightarrow> u64 set" where
  "transactions s ws = insert s (wi_holder ` set ws)"

lemma waits_forI: "w \<in> set ws \<Longrightarrow> (wi_trans w, wi_holder w) \<in> waits_for ws"
  by (auto simp: waits_for_def)

lemma scan_cycle:
  "scan_waiters ws cur stk vis = FoundCycle \<Longrightarrow> \<exists>h. (cur, h) \<in> waits_for ws \<and> map_of stk h = Some Gray"
  by (induction ws) (auto simp: waits_for_def split: if_splits option.splits dfs_color.splits)

lemma scan_push:
  "scan_waiters ws cur stk vis = PushNode h \<Longrightarrow>
   (cur, h) \<in> waits_for ws \<and> h \<notin> fst ` set stk \<and> h \<notin> set vis \<and> h \<in> wi_holder ` set ws"
  by (induction ws) (auto simp: waits_for_def map_of_eq_None_iff split: if_splits option.splits dfs_color.splits)

lemma scan_done:
  "scan_waiters ws cur stk vis = AllDone \<Longrightarrow> (cur, h) \<in> waits_for ws \<Longrightarrow>
   map_of stk h = Some Black \<or> h \<in> set vis"
  by (induction ws) (auto simp: waits_for_def split: if_splits option.splits dfs_color.splits)

section \<open>The invariant of the search\<close>

text \<open>
  The stack is a wait-for path from the start, with a black entry at most on top; visited
  transactions, oldest first, wait only for transactions visited before them, and so does a
  black top.
\<close>

fun path_down :: "waiter_info list \<Rightarrow> dfs_stack \<Rightarrow> bool" where
  "path_down ws ((b, _) # (a, c) # stk) \<longleftrightarrow> (a, b) \<in> waits_for ws \<and> c = Gray \<and> path_down ws ((a, c) # stk)"
| "path_down ws _ \<longleftrightarrow> True"

definition settled :: "waiter_info list \<Rightarrow> u64 list \<Rightarrow> bool" where
  "settled ws vis \<longleftrightarrow> (\<forall>k<length vis. \<forall>h. (vis ! k, h) \<in> waits_for ws \<longrightarrow> h \<in> set (take k vis))"

definition dfs_inv :: "u64 \<Rightarrow> waiter_info list \<Rightarrow> dfs_stack \<Rightarrow> u64 list \<Rightarrow> bool" where
  "dfs_inv s ws stk vis \<longleftrightarrow>
     path_down ws stk \<and> (stk \<noteq> [] \<longrightarrow> fst (last stk) = s) \<and> (stk = [] \<longrightarrow> s \<in> set vis) \<and>
     distinct (map fst stk @ vis) \<and> set (map fst stk @ vis) \<subseteq> transactions s ws \<and> settled ws vis \<and>
     (\<forall>cur rest h. stk = (cur, Black) # rest \<longrightarrow> (cur, h) \<in> waits_for ws \<longrightarrow> h \<in> set vis)"

lemma path_down_reach:
  "path_down ws ((x, c) # stk) \<Longrightarrow> (y, c') \<in> set ((x, c) # stk) \<Longrightarrow> (y, x) \<in> (waits_for ws)\<^sup>*"
proof (induction stk arbitrary: x c)
  case (Cons e stk)
  obtain a d where e: "e = (a, d)" by fastforce
  show ?case
  proof (cases "(y, c') = (x, c)")
    case False
    then have "(y, a) \<in> (waits_for ws)\<^sup>*" using Cons e by auto
    then show ?thesis using Cons.prems(1) e by (auto intro: rtrancl_into_rtrancl)
  qed simp
qed simp

lemma path_down_tail_gray: "path_down ws ((x, c) # stk) \<Longrightarrow> e \<in> set stk \<Longrightarrow> snd e = Gray"
proof (induction stk arbitrary: x c)
  case (Cons e' stk)
  then show ?case by (cases e') auto
qed simp

lemma settled_no_cycle:
  assumes "settled ws vis" and "x \<in> set vis"
  shows "(x, y) \<in> (waits_for ws)\<^sup>+ \<Longrightarrow> distinct vis \<Longrightarrow> \<exists>i j. i < j \<and> j < length vis \<and> vis ! i = y \<and> vis ! j = x"
proof (induction rule: trancl_induct)
  case (base y)
  obtain j where j: "j < length vis" "vis ! j = x" using assms(2) by (auto simp: in_set_conv_nth)
  then have "y \<in> set (take j vis)" using assms(1) base by (auto simp: settled_def)
  then obtain i where "i < j" "vis ! i = y" using j(1) by (auto simp: in_set_conv_nth)
  then show ?case using j by blast
next
  case (step y z)
  then obtain i j where ij: "i < j" "j < length vis" "vis ! i = y" "vis ! j = x" by blast
  then have "z \<in> set (take i vis)" using assms(1) step.hyps(2) by (auto simp: settled_def)
  then obtain k where "k < i" "vis ! k = z" using ij by (auto simp: in_set_conv_nth)
  then show ?case using ij by (intro exI[of _ k] exI[of _ j]) auto
qed

lemma dfs_inv_start: "dfs_inv s ws [(s, Gray)] []"
  by (simp add: dfs_inv_def settled_def transactions_def)

lemma dfs_inv_pop:
  assumes "dfs_inv s ws ((cur, Black) # rest) vis"
  shows "dfs_inv s ws rest (vis @ [cur])"
proof -
  have "settled ws (vis @ [cur])"
    using assms by (auto simp: dfs_inv_def settled_def nth_append less_Suc_eq)
  moreover have "path_down ws rest" using assms by (cases rest) (auto simp: dfs_inv_def)
  moreover have "\<not> (\<exists>c r. rest = (c, Black) # r)" using assms by (auto simp: dfs_inv_def)
  ultimately show ?thesis using assms by (auto simp: dfs_inv_def)
qed

lemma dfs_inv_push:
  assumes I: "dfs_inv s ws ((cur, Gray) # rest) vis"
    and p: "scan_waiters ws cur ((cur, Gray) # rest) vis = PushNode h"
  shows "dfs_inv s ws ((h, Gray) # (cur, Gray) # rest) vis"
  using I scan_push[OF p] by (auto simp: dfs_inv_def transactions_def)

lemma dfs_inv_blacken:
  assumes I: "dfs_inv s ws ((cur, Gray) # rest) vis"
    and d: "scan_waiters ws cur ((cur, Gray) # rest) vis = AllDone"
  shows "dfs_inv s ws ((cur, Black) # rest) vis"
proof -
  have "h \<in> set vis" if h: "(cur, h) \<in> waits_for ws" for h
  proof -
    have "map_of ((cur, Gray) # rest) h \<noteq> Some Black"
    proof
      assume "map_of ((cur, Gray) # rest) h = Some Black"
      then have "(h, Black) \<in> set rest" by (auto split: if_splits dest: map_of_SomeD)
      then show False using path_down_tail_gray[of ws cur Gray rest "(h, Black)"] I by (simp add: dfs_inv_def)
    qed
    then show ?thesis using scan_done[OF d h] by blast
  qed
  moreover have "path_down ws ((cur, Black) # rest)" using I by (cases rest) (auto simp: dfs_inv_def)
  ultimately show ?thesis using I by (auto simp: dfs_inv_def split: if_splits)
qed


lemma dfs_inv_length:
  assumes "dfs_inv s ws stk vis"
  shows "length stk + length vis \<le> card (transactions s ws)"
proof -
  have "finite (transactions s ws)" by (simp add: transactions_def)
  moreover have "distinct (map fst stk @ vis)" "set (map fst stk @ vis) \<subseteq> transactions s ws"
    using assms unfolding dfs_inv_def by blast+
  ultimately have "length (map fst stk @ vis) \<le> card (transactions s ws)"
    by (metis card_mono distinct_card)
  then show ?thesis by simp
qed

lemma settled_not_deadlocked:
  assumes "settled ws vis" and "s \<in> set vis" and "distinct vis"
  shows "\<not> deadlocked ws s"
proof
  assume "deadlocked ws s"
  then obtain x where x: "(s, x) \<in> (waits_for ws)\<^sup>*" "(x, x) \<in> (waits_for ws)\<^sup>+" by (auto simp: deadlocked_def)
  from x(1) have "x \<in> set vis"
  proof (induction rule: rtrancl_induct)
    case (step y z)
    then obtain j where "j < length vis" "vis ! j = y" by (auto simp: in_set_conv_nth)
    then have "z \<in> set (take j vis)" using assms(1) step.hyps(2) by (auto simp: settled_def)
    then show ?case using set_take_subset by fastforce
  qed (rule assms(2))
  from settled_no_cycle[OF assms(1) this x(2) assms(3)] show False
    using assms(3) by (auto simp: distinct_conv_nth)
qed

lemma cycle_is_deadlock:
  assumes I: "dfs_inv s ws ((cur, Gray) # rest) vis"
    and c: "scan_waiters ws cur ((cur, Gray) # rest) vis = FoundCycle"
  shows "deadlocked ws s"
proof -
  obtain h where h: "(cur, h) \<in> waits_for ws" "map_of ((cur, Gray) # rest) h = Some Gray" using scan_cycle[OF c] by blast
  have path: "path_down ws ((cur, Gray) # rest)" using I by (simp add: dfs_inv_def)
  have "(h, Gray) \<in> set ((cur, Gray) # rest)" using h(2) by (rule map_of_SomeD)
  then have ret: "(h, cur) \<in> (waits_for ws)\<^sup>*" by (rule path_down_reach[OF path])
  have "last ((cur, Gray) # rest) \<in> set ((cur, Gray) # rest)" by (rule last_in_set) simp
  moreover have "fst (last ((cur, Gray) # rest)) = s" using I unfolding dfs_inv_def by blast
  ultimately have "(s, snd (last ((cur, Gray) # rest))) \<in> set ((cur, Gray) # rest)" by (metis prod.collapse)
  then have "(s, cur) \<in> (waits_for ws)\<^sup>*" by (rule path_down_reach[OF path])
  moreover have "(cur, cur) \<in> (waits_for ws)\<^sup>+" using h(1) ret by (rule rtrancl_into_trancl2)
  ultimately show ?thesis unfolding deadlocked_def by blast
qed

definition loop_size :: "nat \<Rightarrow> dfs_stack \<Rightarrow> u64 list \<Rightarrow> nat" where
  "loop_size n stk vis = 4 * (n - length stk - length vis) + 2 * length (filter (\<lambda>e. snd e = Gray) stk) + length stk"

lemma detect_loop_correct:
  "dfs_inv s ws stk vis \<Longrightarrow> \<exists>b. detect_loop ws stk vis = Some b \<and> (b \<longrightarrow> deadlocked ws s) \<and>
     (card (transactions s ws) < MAX_DEPTH \<longrightarrow> \<not> b \<longrightarrow> \<not> deadlocked ws s)"
proof (induction "loop_size (card (transactions s ws)) stk vis" arbitrary: stk vis rule: less_induct)
  case less
  note I = less.prems and len = dfs_inv_length[OF less.prems]
  let ?n = "card (transactions s ws)"
  show ?case
  proof (cases stk)
    case Nil
    then have "\<not> deadlocked ws s" using I settled_not_deadlocked by (auto simp: dfs_inv_def)
    then show ?thesis using Nil by (intro exI[of _ False], subst detect_loop.simps) simp
  next
    case (Cons e rest)
    obtain cur col where e: "e = (cur, col)" by fastforce
    show ?thesis
    proof (cases col)
      case Black
      have inv: "dfs_inv s ws rest (vis @ [cur])" using dfs_inv_pop I Cons e Black by blast
      have "loop_size ?n rest (vis @ [cur]) < loop_size ?n stk vis"
        using Cons e Black by (simp add: loop_size_def)
      from less.hyps[OF this inv] show ?thesis
        using Cons e Black by (subst detect_loop.simps) simp
    next
      case Gray
      have stk: "stk = (cur, Gray) # rest" using Cons e Gray by simp
      show ?thesis
      proof (cases "MAX_DEPTH \<le> length stk")
        case True
        then show ?thesis using stk len by (intro exI[of _ False], subst detect_loop.simps) simp
      next
        case False
        note I' = I[unfolded stk]
        show ?thesis
        proof (cases "scan_waiters ws cur stk vis")
          case FoundCycle
          then show ?thesis
            using cycle_is_deadlock[OF I'] False stk by (intro exI[of _ True], subst detect_loop.simps) simp
        next
          case (PushNode h)
          then have inv: "dfs_inv s ws ((h, Gray) # stk) vis" using dfs_inv_push[OF I'] stk by simp
          have "loop_size ?n ((h, Gray) # stk) vis < loop_size ?n stk vis"
            using dfs_inv_length[OF inv] by (simp add: loop_size_def)
          from less.hyps[OF this inv] show ?thesis
            using PushNode False stk by (subst detect_loop.simps) simp
        next
          case AllDone
          then have inv: "dfs_inv s ws ((cur, Black) # rest) vis" using dfs_inv_blacken[OF I'] stk by simp
          have "loop_size ?n ((cur, Black) # rest) vis < loop_size ?n stk vis"
            using stk by (simp add: loop_size_def)
          from less.hyps[OF this inv] show ?thesis
            using AllDone False stk by (subst detect_loop.simps) simp
        qed
      qed
    qed
  qed
qed

text \<open> C20. The deadlock detector always returns; when it reports a deadlock there is a wait-for
  cycle reachable from the transaction that asked, and as long as fewer than 64 transactions
  are involved it reports one exactly when there is. \<close>

theorem detect_correct:
  "\<exists>b. detect s ws = Some b \<and> (b \<longrightarrow> deadlocked ws s) \<and>
     (card (transactions s ws) < MAX_DEPTH \<longrightarrow> b = deadlocked ws s)"
  using detect_loop_correct[OF dfs_inv_start, of ws s] unfolding detect_def by blast

theorem detect_correct_witness:
  "detect 1 [\<lparr>wi_trans = 1, wi_lock = 7, wi_holder = 2\<rparr>, \<lparr>wi_trans = 2, wi_lock = 8, wi_holder = 1\<rparr>] = Some True"
proof -
  let ?ws = "[\<lparr>wi_trans = 1, wi_lock = 7, wi_holder = 2\<rparr>, \<lparr>wi_trans = 2, wi_lock = 8, wi_holder = 1 :: u64\<rparr>]"
  have e: "(1, 2) \<in> waits_for ?ws" "(2, 1) \<in> waits_for ?ws" by (auto simp: waits_for_def)
  then have "(1, 1) \<in> (waits_for ?ws)\<^sup>+" by (meson trancl.simps)
  then have "deadlocked ?ws 1" unfolding deadlocked_def by blast
  moreover have "card (transactions 1 ?ws) < MAX_DEPTH"
    by (simp add: transactions_def MAX_DEPTH_def insert_commute)
  ultimately show ?thesis using detect_correct[of 1 ?ws] by auto
qed

section \<open>The depth limit\<close>

definition ring :: "nat \<Rightarrow> waiter_info list" where
  "ring n = map (\<lambda>k. \<lparr>wi_trans = of_nat k, wi_lock = 0, wi_holder = of_nat (Suc k mod n)\<rparr>) [0..<n]"

definition ring_stack :: "nat \<Rightarrow> dfs_stack" where
  "ring_stack k = map (\<lambda>i. (of_nat i, Gray)) (rev [0..<Suc k])"

lemma of_nat_small_eq: "a < 2 ^ 64 \<Longrightarrow> b < 2 ^ 64 \<Longrightarrow> (of_nat a :: u64) = of_nat b \<longleftrightarrow> a = b"
  by (simp add: word_of_nat_eq_iff take_bit_nat_eq_self)

lemma scan_skip:
  "\<forall>w \<in> set as. wi_trans w \<noteq> cur \<Longrightarrow> scan_waiters (as @ bs) cur stk vis = scan_waiters bs cur stk vis"
  by (induction as) auto

lemma ring_push:
  assumes "Suc k < n" and "n < 2 ^ 64"
  shows "scan_waiters (ring n) (of_nat k) (ring_stack k) [] = PushNode (of_nat (Suc k))"
proof -
  let ?w = "\<lambda>k. \<lparr>wi_trans = of_nat k, wi_lock = 0, wi_holder = of_nat (Suc k mod n)\<rparr>"
  have "[0..<n] = [0..<k] @ k # [Suc k..<n]"
    using assms(1) upt_add_eq_append[of 0 k "n - k"] upt_conv_Cons[of k n] by simp
  then have r: "ring n = map ?w [0..<k] @ ?w k # map ?w [Suc k..<n]" by (simp add: ring_def)
  have sk: "\<forall>w \<in> set (map ?w [0..<k]). wi_trans w \<noteq> of_nat k"
    using assms by (auto simp: of_nat_small_eq)
  have "map_of (ring_stack k) (of_nat (Suc k)) = None"
    using assms by (auto simp: ring_stack_def map_of_eq_None_iff of_nat_small_eq simp del: of_nat_Suc)
  then show ?thesis using assms(1) unfolding r scan_skip[OF sk] by (simp del: of_nat_Suc)
qed

lemma ring_stack_Suc: "ring_stack (Suc k) = (of_nat (Suc k), Gray) # ring_stack k"
  by (simp add: ring_stack_def)

lemma ring_overflow:
  assumes "MAX_DEPTH \<le> n" and "n < 2 ^ 64"
  shows "k < MAX_DEPTH \<Longrightarrow> detect_loop (ring n) (ring_stack k) [] = Some False"
proof (induction "MAX_DEPTH - k" arbitrary: k)
  case (Suc m)
  have st: "ring_stack k = (of_nat k, Gray) # map (\<lambda>i. (of_nat i, Gray)) (rev [0..<k])" by (simp add: ring_stack_def)
  have len: "length (ring_stack k) = Suc k" by (simp add: ring_stack_def)
  show ?case
  proof (cases "Suc k < MAX_DEPTH")
    case True
    then have "detect_loop (ring n) (ring_stack (Suc k)) [] = Some False" using Suc by (intro Suc.hyps(1)) auto
    moreover have "scan_waiters (ring n) (of_nat k) (ring_stack k) [] = PushNode (of_nat (Suc k))"
      using ring_push[of k n] True assms by simp
    ultimately show ?thesis
      using True len unfolding ring_stack_Suc st
      by (subst detect_loop.simps) (simp del: of_nat_Suc)
  next
    case False
    then show ?thesis using len unfolding st by (subst detect_loop.simps) simp
  qed
qed simp

text \<open> C35. The depth limit loses deadlocks: a ring of 64 or more transactions, each waiting for the
  next, is a deadlock, and the detector answers that there is none. \<close>

theorem detect_misses_long_cycles:
  assumes "MAX_DEPTH \<le> n" and "n < 2 ^ 64"
  shows "deadlocked (ring n) 0 \<and> detect 0 (ring n) = Some False"
proof
  have edge: "(of_nat k, of_nat (Suc k mod n)) \<in> waits_for (ring n)" if "k < n" for k
  proof -
    have "\<lparr>wi_trans = of_nat k, wi_lock = 0, wi_holder = of_nat (Suc k mod n)\<rparr> \<in> set (ring n)"
      using that unfolding ring_def set_map by (intro image_eqI[of _ _ k]) simp_all
    from waits_forI[OF this] show ?thesis by simp
  qed
  have reach: "(0, of_nat k) \<in> (waits_for (ring n))\<^sup>*" if "k < n" for k using that
  proof (induction k)
    case (Suc k)
    then show ?case using edge[of k] by (auto intro: rtrancl_into_rtrancl simp del: of_nat_Suc)
  qed simp
  have n0: "n - 1 < n" "Suc (n - 1) mod n = 0" using assms(1) by (simp_all add: MAX_DEPTH_def)
  have "(of_nat (n - 1), 0) \<in> waits_for (ring n)" using edge[OF n0(1)] n0(2) by (simp del: of_nat_diff)
  with reach[OF n0(1)] have "(0, 0) \<in> (waits_for (ring n))\<^sup>+" by (rule rtrancl_into_trancl1)
  then show "deadlocked (ring n) 0" unfolding deadlocked_def by blast
  show "detect 0 (ring n) = Some False"
    using ring_overflow[OF assms, of 0] by (simp add: detect_def ring_stack_def MAX_DEPTH_def)
qed

theorem detect_misses_long_cycles_witness: "detect 0 (ring 64) = Some False"
  using detect_misses_long_cycles[of 64] by (simp add: MAX_DEPTH_def)

end
