(* ===== verification/Snapshot.thy ===== *)
theory Snapshot
  imports Keys "HOL-Library.AList"
begin

text \<open>
  The snapshot tree of \<open>snap/meta.rs\<close> and \<open>snap/snapshot.rs\<close>: snapshot nodes, the Snapshots
  and SnapshotTrees btrees as the operations of that file use them, ancestor queries over the
  persistent skip list and bitmap, creation, deletion and repair of nodes, the traversals and
  the snapshot id bitmap.

  A btree is seen through its point operations: \<open>insert_entry_raw\<close> at \<open>Bpos (0, 0, id)\<close> makes
  its entry the one every later lookup of that position finds (within a node the entry written
  last wins, \<open>compact\<close> keeps exactly that one), and \<open>for_each_entry\<close> visits the positions in
  descending id. So the Snapshots btree is an association list in descending id whose values
  are the entry's key type (a whiteout hides the value from \<open>get_entry_raw\<close> but not from
  \<open>get_entry_allow_whiteout\<close>) and the node. Serialisation by \<open>bincode\<close> is taken to return
  what was stored. The random draws and the clock are arguments.
\<close>

section \<open>Nodes\<close>

type_synonym u128 = "128 word"

datatype snapshot_id_state = StEmpty | StLive | StDeleted

definition SUBVOL :: u8 where "SUBVOL = 0x10"
definition NO_KEYS :: u8 where "NO_KEYS = 0x20"
definition WILL_DELETE :: u8 where "WILL_DELETE = 0x40"
definition DELETED :: u8 where "DELETED = 0x80"

definition flags_contains :: "u8 \<Rightarrow> u8 \<Rightarrow> bool" where "flags_contains f g \<longleftrightarrow> f AND g \<noteq> 0"
definition flags_insert :: "u8 \<Rightarrow> u8 \<Rightarrow> u8" where "flags_insert f g = f OR g"
definition flags_remove :: "u8 \<Rightarrow> u8 \<Rightarrow> u8" where "flags_remove f g = f AND NOT g"

record snapshot_t =
  sn_state :: snapshot_id_state
  sn_parent :: u32
  sn_children :: "u32 \<times> u32"
  sn_subvol :: u32
  sn_tree :: u32
  sn_skip :: "u32 list"
  sn_is_ancestor :: u128
  sn_depth :: u32
  sn_btime :: u64
  sn_deleted :: bool
  sn_flags :: u8

definition new_leaf :: "u32 \<Rightarrow> u32 \<Rightarrow> u32 \<Rightarrow> u32 \<Rightarrow> u64 \<Rightarrow> snapshot_t" where
  "new_leaf parent subvol tree depth btime =
     \<lparr>sn_state = StLive, sn_parent = parent, sn_children = (0, 0), sn_subvol = subvol, sn_tree = tree,
      sn_skip = [0, 0, 0], sn_is_ancestor = 0, sn_depth = depth, sn_btime = btime, sn_deleted = False,
      sn_flags = SUBVOL\<rparr>"

definition new_interior :: "u32 \<Rightarrow> u32 \<times> u32 \<Rightarrow> u32 \<Rightarrow> u32 \<Rightarrow> u64 \<Rightarrow> snapshot_t" where
  "new_interior parent children tree depth btime =
     \<lparr>sn_state = StLive, sn_parent = parent, sn_children = children, sn_subvol = 0, sn_tree = tree,
      sn_skip = [0, 0, 0], sn_is_ancestor = 0, sn_depth = depth, sn_btime = btime, sn_deleted = False,
      sn_flags = 0\<rparr>"

definition mark_deleted :: "snapshot_t \<Rightarrow> snapshot_t" where
  "mark_deleted s = s\<lparr>sn_state := StDeleted, sn_deleted := True, sn_skip := [0, 0, 0]\<rparr>"

definition sn_is_leaf :: "snapshot_t \<Rightarrow> bool" where "sn_is_leaf s \<longleftrightarrow> sn_children s = (0, 0)"
definition sn_is_interior :: "snapshot_t \<Rightarrow> bool" where "sn_is_interior s \<longleftrightarrow> \<not> sn_is_leaf s"

definition has_subvol :: "snapshot_t \<Rightarrow> bool" where
  "has_subvol s \<longleftrightarrow> flags_contains (sn_flags s) SUBVOL"

definition deleted_placeholder :: snapshot_t where
  "deleted_placeholder =
     \<lparr>sn_state = StEmpty, sn_parent = 0, sn_children = (0, 0), sn_subvol = 0, sn_tree = 0,
      sn_skip = [0, 0, 0], sn_is_ancestor = 0, sn_depth = 0, sn_btime = 0, sn_deleted = True,
      sn_flags = 0\<rparr>"

record snapshot_tree_t =
  root_snapshot :: u32
  latest_snapshot :: u32
  tree_count :: u32
  master_subvol :: u32

definition snapshot_tree_new :: "u32 \<Rightarrow> u32 \<Rightarrow> snapshot_tree_t" where
  "snapshot_tree_new r sv = \<lparr>root_snapshot = r, latest_snapshot = r, tree_count = 1, master_subvol = sv\<rparr>"

definition snapshot_tree_default :: snapshot_tree_t where
  "snapshot_tree_default = \<lparr>root_snapshot = 0, latest_snapshot = 0, tree_count = 0, master_subvol = 0\<rparr>"

definition add_snapshot :: "u32 \<Rightarrow> snapshot_tree_t \<Rightarrow> snapshot_tree_t" where
  "add_snapshot sid t =
     (let t1 = t\<lparr>tree_count := tree_count t + 1\<rparr>
      in if sid < latest_snapshot t1 \<or> latest_snapshot t1 = 0 then t1\<lparr>latest_snapshot := sid\<rparr> else t1)"

section \<open>The two btrees\<close>

type_synonym snap_store = "(u32 \<times> key_type \<times> snapshot_t) list"

fun store_put :: "u32 \<Rightarrow> 'v \<Rightarrow> (u32 \<times> 'v) list \<Rightarrow> (u32 \<times> 'v) list" where
  "store_put k v [] = [(k, v)]"
| "store_put k v ((k', v') # xs) =
     (if k = k' then (k, v) # xs
      else if k' < k then (k, v) # (k', v') # xs
      else (k', v') # store_put k v xs)"

lemma map_of_store_put [simp]: "map_of (store_put k v xs) = (map_of xs)(k \<mapsto> v)"
  by (induction k v xs rule: store_put.induct) (auto simp: fun_eq_iff)

record snap_db =
  snaps :: snap_store
  trees :: "(u32 \<times> snapshot_tree_t) list"

definition read_snapshot_value :: "snap_db \<Rightarrow> u32 \<Rightarrow> snapshot_t option" where
  "read_snapshot_value db i =
     (case map_of (snaps db) i of
        None \<Rightarrow> None
      | Some (k, s) \<Rightarrow> if k = Normal then Some s else None)"

definition read_allow_deleted :: "snap_db \<Rightarrow> u32 \<Rightarrow> snapshot_t option" where
  "read_allow_deleted db i = map_option snd (map_of (snaps db) i)"

definition write_snap :: "u32 \<Rightarrow> key_type \<Rightarrow> snapshot_t \<Rightarrow> snap_db \<Rightarrow> snap_db" where
  "write_snap i k s db = db\<lparr>snaps := store_put i (k, s) (snaps db)\<rparr>"

text \<open>\<open>list_snapshots_from_btree\<close>: live nodes, largest id first.\<close>

definition list_snapshots :: "snap_db \<Rightarrow> (u32 \<times> snapshot_t) list" where
  "list_snapshots db = filter (\<lambda>(i, s). \<not> sn_deleted s) (map (\<lambda>(i, k, s). (i, s)) (snaps db))"

definition read_snapshot_tree_value :: "snap_db \<Rightarrow> u32 \<Rightarrow> snapshot_tree_t option" where
  "read_snapshot_tree_value db t = map_of (trees db) t"

definition write_snapshot_tree_value :: "u32 \<Rightarrow> snapshot_tree_t \<Rightarrow> snap_db \<Rightarrow> snap_db" where
  "write_snapshot_tree_value t v db = db\<lparr>trees := store_put t v (trees db)\<rparr>"

datatype snap_error = NotFound u32 | TwoChildren u32 | TransactionFailed

definition set_master_subvol :: "u32 \<Rightarrow> u32 \<Rightarrow> snap_db \<Rightarrow> snap_error + snap_db" where
  "set_master_subvol t sv db =
     (case read_snapshot_tree_value db t of
        None \<Rightarrow> Inl (NotFound t)
      | Some v \<Rightarrow> Inr (write_snapshot_tree_value t (v\<lparr>master_subvol := sv\<rparr>) db))"

section \<open>Ancestor queries\<close>

definition skiplist_good :: "u32 \<Rightarrow> u32 \<Rightarrow> u32 \<Rightarrow> bool" where
  "skiplist_good skip cur anc \<longleftrightarrow> skip \<noteq> 0 \<and> skip \<le> anc \<and> cur < skip"

text \<open>
  The upward walk of \<open>is_ancestor_from_btree\<close>: the value is \<open>None\<close> when the loop does not end.
  The distance is computed by wrapping subtraction, as in a release build.
\<close>

partial_function (option) ancestor_walk :: "snap_db \<Rightarrow> u32 \<Rightarrow> u32 \<Rightarrow> bool option" where
  "ancestor_walk db anc cur =
     (case (case read_snapshot_value db cur of Some s \<Rightarrow> Some s | None \<Rightarrow> read_allow_deleted db cur) of
        None \<Rightarrow> Some False
      | Some s \<Rightarrow>
          if sn_parent s = 0 then Some False
          else if skiplist_good (sn_skip s ! 2) cur anc then
            (if sn_skip s ! 2 = anc then Some True else ancestor_walk db anc (sn_skip s ! 2))
          else if skiplist_good (sn_skip s ! 1) cur anc then
            (if sn_skip s ! 1 = anc then Some True else ancestor_walk db anc (sn_skip s ! 1))
          else if skiplist_good (sn_skip s ! 0) cur anc then
            (if sn_skip s ! 0 = anc then Some True else ancestor_walk db anc (sn_skip s ! 0))
          else if anc - cur < 128 then Some (bit (sn_is_ancestor s) (unat (anc - cur - 1)))
          else if sn_parent s = anc then Some True
          else ancestor_walk db anc (sn_parent s))"

definition is_ancestor_from_btree :: "snap_db \<Rightarrow> u32 \<Rightarrow> u32 \<Rightarrow> bool option" where
  "is_ancestor_from_btree db anc desc =
     (if anc = desc then Some True
      else if anc \<le> desc \<or> desc = 0 then Some False
      else ancestor_walk db anc desc)"

definition is_ancestor_btree :: "snap_db \<Rightarrow> u32 \<Rightarrow> u32 \<Rightarrow> bool option" where
  "is_ancestor_btree db desc anc =
     (if desc = anc then Some True
      else if anc \<le> desc \<or> desc = 0 then Some False
      else is_ancestor_from_btree db anc desc)"

text \<open>The subtree search of \<open>bch2_snapshot_is_ancestor_subvol\<close>, with its explicit stack.\<close>

partial_function (option) subvol_search :: "snap_db \<Rightarrow> u32 \<Rightarrow> u32 list \<Rightarrow> bool option" where
  "subvol_search db anc stk =
     (case stk of
        [] \<Rightarrow> Some False
      | i # rest \<Rightarrow>
          (case read_snapshot_value db i of
             None \<Rightarrow> subvol_search db anc rest
           | Some s \<Rightarrow>
               Option.bind (if sn_subvol s \<noteq> 0 then is_ancestor_from_btree db anc i else Some False)
                 (\<lambda>hit. if hit then Some True
                    else subvol_search db anc
                      ((if snd (sn_children s) \<noteq> 0 then [snd (sn_children s)] else []) @
                       (if fst (sn_children s) \<noteq> 0 then [fst (sn_children s)] else []) @ rest))))"

definition is_ancestor_subvol :: "snap_db \<Rightarrow> u32 \<Rightarrow> u32 \<Rightarrow> u32 \<Rightarrow> bool option" where
  "is_ancestor_subvol db desc anc subvol =
     Option.bind (is_ancestor_btree db desc anc) (\<lambda>direct.
       if direct then Some True
       else case (if subvol \<noteq> 0 then read_snapshot_value db desc else None) of
         Some s \<Rightarrow> if sn_subvol s = subvol then is_ancestor_btree db (sn_parent s) anc
                   else subvol_search db anc [desc]
       | None \<Rightarrow> subvol_search db anc [desc])"

fun nth_parent :: "snap_db \<Rightarrow> u32 \<Rightarrow> nat \<Rightarrow> u32 option" where
  "nth_parent db i 0 = Some i"
| "nth_parent db i (Suc n) =
     (case read_allow_deleted db i of
        None \<Rightarrow> None
      | Some s \<Rightarrow> if sn_parent s = 0 then None else nth_parent db (sn_parent s) n)"

section \<open>Creating nodes\<close>

definition get_next_snapshot_id :: "snap_db \<Rightarrow> u32" where
  "get_next_snapshot_id db =
     (if snaps db = [] then - 1 else fold (\<lambda>e m. if fst e < m then fst e else m) (snaps db) (- 1) - 1)"

text \<open>The three draws of \<open>gen_range(0..depth)\<close> are the list \<open>ds\<close>.\<close>

definition skiplist_get :: "nat list \<Rightarrow> snap_db \<Rightarrow> u32 \<Rightarrow> u32 list option" where
  "skiplist_get ds db i =
     (case read_snapshot_value db i of
        None \<Rightarrow> None
      | Some s \<Rightarrow>
          if sn_parent s = 0 then Some [0, 0, 0]
          else (case (nth_parent db i (ds ! 0), nth_parent db i (ds ! 1), nth_parent db i (ds ! 2)) of
                  (Some a, Some b, Some c) \<Rightarrow> Some (sort [a, b, c])
                | _ \<Rightarrow> None))"

definition build_skip_list_from_btree :: "(u32 \<Rightarrow> nat list) \<Rightarrow> snap_db \<Rightarrow> snap_db" where
  "build_skip_list_from_btree ds db =
     fold (\<lambda>i d. case skiplist_get (ds i) d i of
                  None \<Rightarrow> d
                | Some sl \<Rightarrow> (case read_snapshot_value d i of
                     None \<Rightarrow> d | Some s \<Rightarrow> write_snap i Normal (s\<lparr>sn_skip := sl\<rparr>) d))
       (map fst (snaps db)) db"

definition create_root_snapshot :: "u32 \<Rightarrow> u64 \<Rightarrow> snap_db \<Rightarrow> u32 \<times> snap_db" where
  "create_root_snapshot subvol now db =
     (let i = get_next_snapshot_id db in (i, write_snap i Normal (new_leaf 0 subvol 0 1 now) db))"

text \<open>
  \<open>wrapping_shl\<close> and \<open><<\<close> on \<open>u128\<close> take the shift modulo 128 in a release build; only at gap 0, which an id below its
  parent's excludes, does that matter.
\<close>

definition child_bitmap :: "u32 \<Rightarrow> u32 \<Rightarrow> u128 \<Rightarrow> u128" where
  "child_bitmap parent_id i pb =
     (if parent_id = 0 then 0
      else let gap = parent_id - i in
        if 128 \<le> gap then 0 else push_bit (unat gap) pb OR push_bit (unat (gap - 1) mod 128) 1)"

definition child_node :: "u32 \<Rightarrow> snapshot_t \<Rightarrow> u32 \<Rightarrow> u32 \<Rightarrow> u32 list \<Rightarrow> u64 \<Rightarrow> snapshot_t" where
  "child_node parent_id parent i subvol skip now =
     \<lparr>sn_state = StLive, sn_parent = parent_id, sn_children = (0, 0), sn_subvol = subvol,
      sn_tree = sn_tree parent, sn_skip = skip, sn_is_ancestor = child_bitmap parent_id i (sn_is_ancestor parent),
      sn_depth = sn_depth parent + 1, sn_btime = now, sn_deleted = False, sn_flags = SUBVOL\<rparr>"

text \<open>
  \<open>batch_write\<close> inserts in order and stops at the first insert the btree refuses; \<open>accepts\<close> is
  how many it takes.
\<close>

definition batch_write :: "nat \<Rightarrow> (u32 \<times> snapshot_t) list \<Rightarrow> snap_db \<Rightarrow> bool \<times> snap_db" where
  "batch_write accepts es db =
     (length es \<le> accepts, fold (\<lambda>(i, s). write_snap i Normal s) (take accepts es) db)"

definition snapshot_node_create ::
  "nat list \<Rightarrow> u64 \<Rightarrow> nat \<Rightarrow> u32 \<Rightarrow> u32 \<Rightarrow> u32 option \<Rightarrow> snap_db \<Rightarrow> (snap_error + u32) \<times> snap_db" where
  "snapshot_node_create ds now accepts parent_id subvol extra db =
     (case read_snapshot_value db parent_id of
        None \<Rightarrow> (Inl (NotFound parent_id), db)
      | Some parent \<Rightarrow>
          (let i = get_next_snapshot_id db;
               skip = (case skiplist_get ds db parent_id of Some s \<Rightarrow> sort s | None \<Rightarrow> [0, 0, 0]);
               np = parent\<lparr>sn_subvol := 0, sn_flags := flags_remove (sn_flags parent) SUBVOL\<rparr>;
               es = (case extra of
                  Some sv2 \<Rightarrow>
                    (let j = i - 1 in
                     [(i, child_node parent_id parent i subvol skip now),
                      (j, child_node parent_id parent j sv2 skip now),
                      (parent_id, np\<lparr>sn_children := (i, j)\<rparr>)])
                | None \<Rightarrow>
                    [(i, child_node parent_id parent i subvol skip now),
                     (parent_id, np\<lparr>sn_children := (i, snd (sn_children np))\<rparr>)]);
               (ok, db1) = batch_write accepts es db
           in if ok then (Inr i, db1) else (Inl TransactionFailed, db1)))"

section \<open>Deleting nodes\<close>

definition node_set_deleted :: "u32 \<Rightarrow> snap_db \<Rightarrow> snap_error + snap_db" where
  "node_set_deleted i db =
     (case read_snapshot_value db i of
        None \<Rightarrow> Inl (NotFound i)
      | Some s \<Rightarrow>
          (let s1 = mark_deleted s
           in Inr (write_snap i Whiteout (s1\<lparr>sn_flags := flags_insert (sn_flags s1) WILL_DELETE\<rparr>) db)))"

definition replace_child :: "u32 \<Rightarrow> u32 \<Rightarrow> u32 \<times> u32 \<Rightarrow> u32 \<times> u32" where
  "replace_child i c cs = (if fst cs = i then (c, snd cs) else if snd cs = i then (fst cs, c) else cs)"

definition node_delete :: "u32 \<Rightarrow> bool \<Rightarrow> snap_db \<Rightarrow> (snap_error + unit) \<times> snap_db" where
  "node_delete i delete_interior db =
     (case read_allow_deleted db i of
        None \<Rightarrow> (Inl (NotFound i), db)
      | Some s \<Rightarrow>
          if fst (sn_children s) \<noteq> 0 \<and> snd (sn_children s) \<noteq> 0 then (Inl (TwoChildren i), db)
          else
            let child = (if fst (sn_children s) \<noteq> 0 then fst (sn_children s) else snd (sn_children s));
                db1 = (if sn_parent s = 0 then db
                       else case read_allow_deleted db (sn_parent s) of
                         None \<Rightarrow> db
                       | Some p \<Rightarrow> write_snap (sn_parent s) Normal
                           (p\<lparr>sn_children := replace_child i child (sn_children p)\<rparr>) db);
                db2 = (if \<not> (delete_interior \<and> child \<noteq> 0) then db1
                       else case read_allow_deleted db1 child of
                         None \<Rightarrow> db1
                       | Some c \<Rightarrow>
                           (let c1 = c\<lparr>sn_parent := sn_parent s\<rparr>;
                                c2 = (if sn_parent s \<noteq> 0 then
                                        (case read_allow_deleted db1 (sn_parent s) of
                                           None \<Rightarrow> c1
                                         | Some g \<Rightarrow> c1\<lparr>sn_depth := sn_depth g + 1\<rparr>)
                                      else c1\<lparr>sn_depth := 1\<rparr>)
                            in write_snap child Normal c2 db1));
                db3 = (if sn_parent s = 0 \<and> child \<noteq> 0 \<and> sn_tree s \<noteq> 0 then
                         (case read_snapshot_tree_value db2 (sn_tree s) of
                            None \<Rightarrow> db2
                          | Some t \<Rightarrow> write_snapshot_tree_value (sn_tree s) (t\<lparr>root_snapshot := child\<rparr>) db2)
                       else db2)
            in (case node_set_deleted i db3 of
                  Inl e \<Rightarrow> (Inl e, db3)
                | Inr db4 \<Rightarrow> (Inr (), db4)))"

definition check_snapshot_needs_deletion :: "snapshot_t \<Rightarrow> bool" where
  "check_snapshot_needs_deletion s =
     (if flags_contains (sn_flags s) NO_KEYS then False
      else if flags_contains (sn_flags s) WILL_DELETE then True
      else if fst (sn_children s) \<noteq> 0 \<and> snd (sn_children s) = 0 \<or>
              fst (sn_children s) = 0 \<and> snd (sn_children s) \<noteq> 0 then True
      else False)"

datatype dead_snapshot_type = DeadLeaf | DeadInterior

definition check_should_delete_snapshot :: "snapshot_t \<Rightarrow> dead_snapshot_type option" where
  "check_should_delete_snapshot s =
     (if sn_deleted s \<or> flags_contains (sn_flags s) WILL_DELETE then Some DeadLeaf
      else if sn_subvol s = 0 \<and> sn_children s = (0, 0) then Some DeadLeaf
      else if flags_contains (sn_flags s) NO_KEYS \<and> sn_subvol s = 0 then Some DeadInterior
      else None)"


section \<open>Traversals\<close>

text \<open>The recursive traversals; \<open>n\<close> is the call depth the stack allows, \<open>None\<close> its overflow.\<close>

fun dfs_inner :: "nat \<Rightarrow> snap_db \<Rightarrow> u32 \<Rightarrow> u32 list \<Rightarrow> u32 list option" where
  "dfs_inner 0 db i acc = None"
| "dfs_inner (Suc n) db i acc =
     (case read_snapshot_value db i of
        None \<Rightarrow> Some acc
      | Some s \<Rightarrow>
          Option.bind (if fst (sn_children s) \<noteq> 0 then dfs_inner n db (fst (sn_children s)) acc else Some acc)
            (\<lambda>a. Option.bind (if snd (sn_children s) \<noteq> 0 then dfs_inner n db (snd (sn_children s)) a else Some a)
              (\<lambda>b. Some (b @ [i]))))"

definition dfs_descendants :: "nat \<Rightarrow> snap_db \<Rightarrow> u32 \<Rightarrow> u32 list option" where
  "dfs_descendants n db i = dfs_inner n db i []"

fun dfs_alive_inner :: "nat \<Rightarrow> snap_db \<Rightarrow> u32 \<Rightarrow> u32 list \<Rightarrow> u32 list option" where
  "dfs_alive_inner 0 db i acc = None"
| "dfs_alive_inner (Suc n) db i acc =
     (case read_snapshot_value db i of
        None \<Rightarrow> Some acc
      | Some s \<Rightarrow>
          Option.bind (if fst (sn_children s) \<noteq> 0 then dfs_alive_inner n db (fst (sn_children s)) acc else Some acc)
            (\<lambda>a. Option.bind (if snd (sn_children s) \<noteq> 0 then dfs_alive_inner n db (snd (sn_children s)) a else Some a)
              (\<lambda>b. Some (if \<not> sn_deleted s then b @ [i] else b))))"

definition dfs_descendants_alive :: "nat \<Rightarrow> snap_db \<Rightarrow> u32 \<Rightarrow> u32 list option" where
  "dfs_descendants_alive n db i = dfs_alive_inner n db i []"

text \<open>\<open>DfsIter::next\<close>: the item, if any, and the remaining stack; the outer \<open>None\<close> is a loop that
  does not end.\<close>

partial_function (option) dfs_next :: "snap_db \<Rightarrow> (u32 \<times> bool) list \<Rightarrow> (u32 option \<times> (u32 \<times> bool) list) option" where
  "dfs_next db stk =
     (case stk of
        [] \<Rightarrow> Some (None, [])
      | (i, visited) # rest \<Rightarrow>
          (case read_snapshot_value db i of
             None \<Rightarrow> Some (None, stk)
           | Some s \<Rightarrow>
               if visited then Some (Some i, rest)
               else dfs_next db
                 ((if fst (sn_children s) \<noteq> 0 then [(fst (sn_children s), False)] else []) @
                  (if snd (sn_children s) \<noteq> 0 then [(snd (sn_children s), False)] else []) @
                  (i, True) # rest)))"

partial_function (option) dfs_collect :: "snap_db \<Rightarrow> (u32 \<times> bool) list \<Rightarrow> u32 list option" where
  "dfs_collect db stk =
     Option.bind (dfs_next db stk) (\<lambda>(item, stk').
       case item of
         None \<Rightarrow> Some []
       | Some i \<Rightarrow> Option.bind (dfs_collect db stk') (\<lambda>is. Some (i # is)))"

section \<open>Sweeping dead nodes\<close>

partial_function (option) effective_parent :: "snap_db \<Rightarrow> u32 list \<Rightarrow> u32 \<Rightarrow> u32 option" where
  "effective_parent db dels p =
     (if p \<notin> set dels then Some p
      else case read_allow_deleted db p of
        None \<Rightarrow> Some 0
      | Some ps \<Rightarrow> if sn_parent ps = 0 then Some 0 else effective_parent db dels (sn_parent ps))"

definition rebuilt_skip :: "snap_db \<Rightarrow> u32 \<Rightarrow> u32 list" where
  "rebuilt_skip db ep =
     (if ep = 0 then [0, 0, 0]
      else case read_allow_deleted db ep of
        None \<Rightarrow> sort [ep, 0, 0]
      | Some es \<Rightarrow>
          if sn_skip es ! 0 = 0 then sort [ep, 0, 0]
          else (case read_allow_deleted db (sn_skip es ! 0) of
                  None \<Rightarrow> sort [ep, sn_skip es ! 0, 0]
                | Some s1 \<Rightarrow> sort [ep, sn_skip es ! 0, sn_skip s1 ! 1]))"

text \<open>One turn of \<open>bch2_fix_child_of_deleted_snapshot\<close>: \<open>s\<close> is the node as it was captured
  before the loop, \<open>db\<close> the tree as the loop has left it so far.\<close>

definition fix_child :: "u32 list \<Rightarrow> u32 \<times> snapshot_t \<Rightarrow> snap_db \<Rightarrow> snap_db option" where
  "fix_child dels = (\<lambda>(i, s) db.
     if i \<in> set dels then Some db
     else case those (map (is_ancestor_btree db i) dels) of
       None \<Rightarrow> None
     | Some hits \<Rightarrow>
         let nr = length (filter id hits); depth = saturating_sub (sn_depth s) (of_nat nr) in
         if nr = 0 then Some db
         else case (if depth = 0 then Some [0, 0, 0]
                    else map_option (rebuilt_skip db)
                      (if sn_parent s \<noteq> 0 \<and> sn_parent s \<in> set dels
                       then effective_parent db dels (sn_parent s) else Some (sn_parent s))) of
           None \<Rightarrow> None
         | Some skip \<Rightarrow> Some (write_snap i Normal (s\<lparr>sn_depth := depth, sn_skip := skip\<rparr>) db))"

definition fix_child_of_deleted_snapshot :: "u32 list \<Rightarrow> snap_db \<Rightarrow> snap_db option" where
  "fix_child_of_deleted_snapshot dels db = fold_opt (fix_child dels) (map (\<lambda>(i, k, s). (i, s)) (snaps db)) db"

fun has_volume_ref :: "nat \<Rightarrow> (u32 \<rightharpoonup> snapshot_t) \<Rightarrow> u32 \<Rightarrow> bool option" where
  "has_volume_ref 0 m i = None"
| "has_volume_ref (Suc n) m i =
     (case m i of
        None \<Rightarrow> Some False
      | Some s \<Rightarrow>
          if has_subvol s then Some True
          else any_opt (has_volume_ref n m)
            ((if fst (sn_children s) \<noteq> 0 then [fst (sn_children s)] else []) @
             (if snd (sn_children s) \<noteq> 0 then [snd (sn_children s)] else [])))"

definition unlink_from_parent :: "(u32 \<rightharpoonup> snapshot_t) \<Rightarrow> u32 \<Rightarrow> snapshot_t \<Rightarrow> snap_db \<Rightarrow> snap_db" where
  "unlink_from_parent m i s db =
     (if sn_parent s = 0 then db
      else case m (sn_parent s) of
        None \<Rightarrow> db
      | Some p \<Rightarrow>
          write_snap (sn_parent s) Normal
            (p\<lparr>sn_children := (if fst (sn_children p) = i then 0 else fst (sn_children p),
                             if snd (sn_children p) = i then 0 else snd (sn_children p))\<rparr>) db)"

definition sweep_dead :: "nat \<Rightarrow> (u32 \<rightharpoonup> snapshot_t) \<Rightarrow> u32 \<Rightarrow> u32 list \<times> snap_db \<Rightarrow> (u32 list \<times> snap_db) option" where
  "sweep_dead n m i = (\<lambda>(skipped, db).
     case has_volume_ref n m i of
       None \<Rightarrow> None
     | Some True \<Rightarrow> Some (skipped @ [i], db)
     | Some False \<Rightarrow>
         (case m i of
            None \<Rightarrow> Some (skipped, db)
          | Some s \<Rightarrow>
              (let db1 = unlink_from_parent m i s db
               in case node_set_deleted i db1 of Inl _ \<Rightarrow> Some (skipped, db1) | Inr db2 \<Rightarrow> Some (skipped, db2))))"

text \<open>
  \<open>bch2_delete_dead_snapshots\<close>: \<open>m\<close> is the hash map filled at the start, \<open>ord\<close> the order in
  which it yields the dead ids, and the result the ids kept because of a volume reference.
\<close>

definition delete_dead_snapshots :: "nat \<Rightarrow> (u32 list \<Rightarrow> u32 list) \<Rightarrow> snap_db \<Rightarrow> (u32 list \<times> snap_db) option" where
  "delete_dead_snapshots n ord db =
     (let all = map (\<lambda>(i, k, s). (i, s)) (snaps db);
          dead = ord (map fst (filter (\<lambda>(i, s). sn_deleted s) all))
      in case (if dead = [] then Some db else fix_child_of_deleted_snapshot dead db) of
           None \<Rightarrow> None
         | Some db1 \<Rightarrow> fold_opt (sweep_dead n (map_of all)) dead ([], db1))"

definition interior_to_delete :: "snap_db \<Rightarrow> u32 list" where
  "interior_to_delete db =
     map fst (filter (\<lambda>(i, k, s). i \<noteq> 0 \<and> \<not> sn_deleted s \<and> flags_contains (sn_flags s) NO_KEYS \<and>
       ((fst (sn_children s) \<noteq> 0) \<noteq> (snd (sn_children s) \<noteq> 0))) (snaps db))"

fun delete_each :: "u32 list \<Rightarrow> snap_db \<Rightarrow> (snap_error + unit) \<times> snap_db" where
  "delete_each [] db = (Inr (), db)"
| "delete_each (i # is) db =
     (if read_snapshot_value db i = None \<and> read_allow_deleted db i = None then delete_each is db
      else case node_delete i True db of (Inl e, db1) \<Rightarrow> (Inl e, db1) | (Inr _, db1) \<Rightarrow> delete_each is db1)"

definition delete_dead_interior_snapshots :: "snap_db \<Rightarrow> ((snap_error + unit) \<times> snap_db) option" where
  "delete_dead_interior_snapshots db =
     (let dels = interior_to_delete db in
      if dels = [] then Some (Inr (), db)
      else map_option (delete_each dels) (fix_child_of_deleted_snapshot dels db))"

section \<open>Reconstruction\<close>

text \<open>
  \<open>bch2_reconstruct_snapshots\<close>: \<open>refs\<close> are the (inode, snapshot) pairs of the Extents and
  Subvolumes entries and \<open>svs\<close> those of the Subvolumes entries alone, in btree order.
\<close>

definition assign_tree :: "u32 \<Rightarrow> (u32 \<times> u32) list \<times> (u32 \<times> u32) list \<times> snap_db \<Rightarrow>
    (u32 \<times> u32) list \<times> (u32 \<times> u32) list \<times> snap_db" where
  "assign_tree i = (\<lambda>(roots, pending, db).
     case List.find (\<lambda>(t, r). r = i) roots of
       Some (t, _) \<Rightarrow> (roots, pending @ [(i, t)], db)
     | None \<Rightarrow>
         (let t = fold (\<lambda>(k, _) m. max k m) roots 0 + 1
          in (AList.update t i roots, pending @ [(i, t)],
              write_snapshot_tree_value t (snapshot_tree_new i 0) db)))"

definition reconstructed_node :: "u64 \<Rightarrow> u32 \<Rightarrow> u32 \<Rightarrow> snapshot_t" where
  "reconstructed_node now sv t =
     (if sv \<noteq> 0 then new_leaf 0 sv t 1 now else (new_leaf 0 0 t 1 now)\<lparr>sn_flags := 0\<rparr>)"

definition reconstruct_snapshots ::
  "u64 \<Rightarrow> (u64 \<times> u32) list \<Rightarrow> (u64 \<times> u32) list \<Rightarrow> snap_db \<Rightarrow> snap_db" where
  "reconstruct_snapshots now refs svs db =
     (let existing = filter (\<lambda>i. i \<noteq> 0) (map fst (snaps db));
          referenced = filter (\<lambda>i. i \<noteq> 0) (map snd refs);
          missing = sort (remdups (filter (\<lambda>i. i \<notin> set existing) referenced));
          roots = map (\<lambda>(t, v). (t, root_snapshot v)) (filter (\<lambda>(t, v). t \<noteq> 0) (trees db));
          (_, pending, db1) = fold assign_tree missing (roots, [], db);
          to_subvol = fold (\<lambda>(ino, i) m. if i \<noteq> 0 \<and> (ucast ino :: u32) \<noteq> 0 then m(i \<mapsto> ucast ino) else m)
                        svs (Map.empty :: u32 \<rightharpoonup> u32)
      in if missing = [] then db
         else fold (\<lambda>(i, t). write_snap i Normal
                (reconstructed_node now (case to_subvol i of None \<Rightarrow> 0 | Some sv \<Rightarrow> sv) t)) pending db1)"

section \<open>The id bitmap and the subtree registry\<close>

record id_bitmap =
  bm_bits :: "u64 list"
  bm_start :: u32
  bm_capacity :: u32
  bm_used :: u32

definition bitmap_new :: "u32 \<Rightarrow> u32 \<Rightarrow> id_bitmap" where
  "bitmap_new start cap = \<lparr>bm_bits = replicate (unat ((cap + 63) div 64)) 0, bm_start = start,
     bm_capacity = cap, bm_used = 0\<rparr>"

definition trailing_zeros :: "u64 \<Rightarrow> nat" where
  "trailing_zeros w = (case List.find (bit w) [0..<64] of None \<Rightarrow> 64 | Some k \<Rightarrow> k)"

fun alloc_scan :: "u64 list \<Rightarrow> nat \<Rightarrow> (nat \<times> u64 list) option" where
  "alloc_scan [] k = None"
| "alloc_scan (w # ws) k =
     (if w \<noteq> - 1
      then Some (k * 64 + trailing_zeros (NOT w), (w OR push_bit (trailing_zeros (NOT w)) 1) # ws)
      else map_option (\<lambda>(p, ws'). (p, w # ws')) (alloc_scan ws (Suc k)))"

definition bitmap_alloc :: "id_bitmap \<Rightarrow> u32 option \<times> id_bitmap" where
  "bitmap_alloc b =
     (if bm_capacity b \<le> bm_used b then (None, b)
      else case alloc_scan (bm_bits b) 0 of
        None \<Rightarrow> (None, b)
      | Some (p, ws) \<Rightarrow> (Some (bm_start b - of_nat p), b\<lparr>bm_bits := ws, bm_used := bm_used b + 1\<rparr>))"

definition bitmap_free :: "u32 \<Rightarrow> id_bitmap \<Rightarrow> id_bitmap" where
  "bitmap_free i b =
     (if bm_start b < i \<or> bm_capacity b \<le> bm_start b - i then b
      else let off = unat (bm_start b - i); wi = off div 64; bi = off mod 64 in
        if wi < length (bm_bits b) \<and> bit (bm_bits b ! wi) bi
        then b\<lparr>bm_bits := (bm_bits b)[wi := bm_bits b ! wi AND NOT (push_bit bi 1)], bm_used := bm_used b - 1\<rparr>
        else b)"

type_synonym subtree_registry = "(u32 \<times> u32) list"

definition registry_register :: "u32 \<Rightarrow> u32 \<Rightarrow> subtree_registry \<Rightarrow> subtree_registry" where
  "registry_register p c r = List.insert (p, c) r"

definition registry_unregister :: "u32 \<Rightarrow> u32 \<Rightarrow> subtree_registry \<Rightarrow> subtree_registry" where
  "registry_unregister p c r = removeAll (p, c) r"

definition children_of :: "u32 \<Rightarrow> subtree_registry \<Rightarrow> u32 list" where
  "children_of t r = map snd (filter (\<lambda>(p, _). p = t) r)"

text \<open>The recursion of \<open>is_whitelisted\<close> over the registered pairs, with the call depth \<open>n\<close>.\<close>

fun is_whitelisted :: "nat \<Rightarrow> subtree_registry \<Rightarrow> u32 \<Rightarrow> u32 \<Rightarrow> bool option" where
  "is_whitelisted 0 r t c = None"
| "is_whitelisted (Suc n) r t c =
     (if t = c then Some True
      else if (t, c) \<in> set r then Some True
      else any_opt (\<lambda>child. is_whitelisted n r child c) (children_of t r))"

end
