(* ===== verification/SnapshotInv.thy ===== *)
theory SnapshotInv
  imports Snapshot
begin

text \<open>
  Correctness of the snapshot tree: the well-formedness of the stored nodes (ids decrease from
  parent to child, depths count the ancestors, skip entries and bitmap bits name ancestors),
  the exactness and termination of the skip-list walk against the parent-chain relation, and
  the preservation of well-formedness by creation and logical deletion.
\<close>

section \<open>The ancestor relation and well-formed trees\<close>

definition parent_of :: "snap_db \<Rightarrow> u32 \<Rightarrow> u32 option" where
  "parent_of db i = (case read_allow_deleted db i of
     None \<Rightarrow> None | Some s \<Rightarrow> if sn_parent s = 0 then None else Some (sn_parent s))"

inductive ancestor :: "snap_db \<Rightarrow> u32 \<Rightarrow> u32 \<Rightarrow> bool" for db where
  parent: "parent_of db i = Some a \<Longrightarrow> ancestor db a i"
| step: "parent_of db i = Some p \<Longrightarrow> ancestor db a p \<Longrightarrow> ancestor db a i"

inductive_simps ancestor_unfold: "ancestor db a i"

definition node_ok :: "snap_db \<Rightarrow> u32 \<Rightarrow> snapshot_t \<Rightarrow> bool" where
  "node_ok db i s \<longleftrightarrow> i \<noteq> 0 \<and> length (sn_skip s) = 3 \<and>
     (sn_parent s = 0 \<longrightarrow> sn_depth s = 1) \<and>
     (sn_parent s \<noteq> 0 \<longrightarrow> i < sn_parent s \<and>
        (\<exists>p. read_allow_deleted db (sn_parent s) = Some p \<and> unat (sn_depth s) = unat (sn_depth p) + 1)) \<and>
     (\<forall>x \<in> set (sn_skip s). x \<noteq> 0 \<longrightarrow> ancestor db x i) \<and>
     (\<forall>n < 127. bit (sn_is_ancestor s) n \<longleftrightarrow> (\<exists>a. ancestor db a i \<and> unat a = unat i + n + 1))"

definition snap_wf :: "snap_db \<Rightarrow> bool" where
  "snap_wf db \<longleftrightarrow> (\<forall>i s. read_allow_deleted db i = Some s \<longrightarrow> node_ok db i s)"

lemma node_okD:
  assumes "snap_wf db" and "read_allow_deleted db i = Some s"
  shows "i \<noteq> 0" "length (sn_skip s) = 3"
    "sn_parent s \<noteq> 0 \<Longrightarrow> i < sn_parent s"
    "sn_parent s \<noteq> 0 \<Longrightarrow> \<exists>p. read_allow_deleted db (sn_parent s) = Some p \<and> unat (sn_depth s) = unat (sn_depth p) + 1"
    "sn_parent s = 0 \<Longrightarrow> sn_depth s = 1"
    "x \<in> set (sn_skip s) \<Longrightarrow> x \<noteq> 0 \<Longrightarrow> ancestor db x i"
    "n < 127 \<Longrightarrow> bit (sn_is_ancestor s) n \<longleftrightarrow> (\<exists>a. ancestor db a i \<and> unat a = unat i + n + 1)"
  using assms unfolding snap_wf_def node_ok_def by blast+

lemma parent_of_Some:
  "parent_of db i = Some p \<longleftrightarrow> (\<exists>s. read_allow_deleted db i = Some s \<and> sn_parent s = p \<and> p \<noteq> 0)"
  by (auto simp: parent_of_def split: option.splits if_splits)

lemma parent_less: "snap_wf db \<Longrightarrow> parent_of db i = Some p \<Longrightarrow> i < p"
  using node_okD(3) by (auto simp: parent_of_Some)

lemma ancestor_less: "ancestor db a i \<Longrightarrow> snap_wf db \<Longrightarrow> i < a"
  by (induction rule: ancestor.induct) (auto dest: parent_less)

lemma ancestor_trans: "ancestor db b i \<Longrightarrow> ancestor db a b \<Longrightarrow> ancestor db a i"
  by (induction rule: ancestor.induct) (auto intro: ancestor.step)

lemma ancestor_linear:
  "ancestor db b i \<Longrightarrow> ancestor db a i \<Longrightarrow> snap_wf db \<Longrightarrow> b < a \<Longrightarrow> ancestor db a b"
proof (induction rule: ancestor.induct)
  case (parent i b)
  then show ?case by (auto simp: ancestor_unfold[of db a i])
next
  case (step i p b)
  have "a \<noteq> p" using ancestor_less[OF step.hyps(2) step.prems(2)] step.prems(3) by auto
  then have "ancestor db a p" using step.prems(1) step.hyps(1) by (auto simp: ancestor_unfold[of db a i])
  then show ?case using step by blast
qed

lemma ancestor_jump:
  assumes "snap_wf db" and "ancestor db x i" and "x \<noteq> a"
  shows "x < a \<Longrightarrow> ancestor db a i \<longleftrightarrow> ancestor db a x"
  using ancestor_linear[OF assms(2)] ancestor_trans[OF assms(2)] assms(1) by blast

lemma ancestor_parent_jump:
  assumes "parent_of db i = Some p" and "p \<noteq> a"
  shows "ancestor db a i \<longleftrightarrow> ancestor db a p"
  using assms by (subst ancestor_unfold) auto

lemma no_parent_no_ancestor: "parent_of db i = None \<Longrightarrow> \<not> ancestor db a i"
  by (subst ancestor_unfold) simp

lemma depth_bound: "snap_wf db \<Longrightarrow> read_allow_deleted db i = Some s \<Longrightarrow> unat (sn_depth s) + unat i \<le> 2 ^ 32"
proof (induction "2 ^ 32 - unat i" arbitrary: i s rule: less_induct)
  case less
  have i: "unat i < 2 ^ 32" using unsigned_less[where 'b = 32 and w = i] by simp
  show ?case
  proof (cases "sn_parent s = 0")
    case True
    then have "sn_depth s = 1" using node_okD(5)[OF less.prems] by simp
    then show ?thesis using i by simp
  next
    case False
    from node_okD(4)[OF less.prems False] obtain p where
      p: "read_allow_deleted db (sn_parent s) = Some p" "unat (sn_depth s) = unat (sn_depth p) + 1" by blast
    have lt: "unat i < unat (sn_parent s)"
      using node_okD(3)[OF less.prems False] by (simp add: word_less_nat_alt)
    moreover have "unat (sn_parent s) < 2 ^ 32"
      using unsigned_less[where 'b = 32 and w = "sn_parent s"] by simp
    ultimately have "unat (sn_depth p) + unat (sn_parent s) \<le> 2 ^ 32"
      by (intro less.hyps[OF _ less.prems(1) p(1)]) linarith
    then show ?thesis using p(2) lt by linarith
  qed
qed

section \<open>The walk over skip entries, bitmap and parents\<close>

lemma read_any_case:
  "(case read_snapshot_value db i of Some s \<Rightarrow> Some s | None \<Rightarrow> read_allow_deleted db i) = read_allow_deleted db i"
  by (auto simp: read_snapshot_value_def read_allow_deleted_def split: option.splits)

lemma bitmap_test:
  assumes wf: "snap_wf db" and s: "read_allow_deleted db i = Some s"
    and ne: "i \<noteq> a" and d: "a - i < 128"
  shows "bit (sn_is_ancestor s) (unat (a - i - 1)) \<longleftrightarrow> ancestor db a i"
proof -
  define n where "n = unat (a - i - 1)"
  have nz: "a - i \<noteq> 0" using ne by simp
  then have "0 < unat (a - i)" by (simp add: unat_gt_0)
  moreover have n': "n = unat (a - i) - 1" unfolding n_def using unat_minus_one[OF nz] by simp
  ultimately have n: "unat (a - i) = n + 1" by simp
  have "unat (a - i) < 128" using d by (simp add: word_less_nat_alt)
  then have n127: "n < 127" using n by simp
  have bit: "bit (sn_is_ancestor s) n \<longleftrightarrow> (\<exists>a. ancestor db a i \<and> unat a = unat i + n + 1)"
    by (rule node_okD(7)[OF wf s n127])
  show ?thesis
  proof (cases "i < a")
    case True
    then have "unat a = unat i + n + 1"
      using n by (simp add: unat_sub word_le_nat_alt word_less_nat_alt)
    then have "(\<exists>a. ancestor db a i \<and> unat a = unat i + n + 1) \<longleftrightarrow> ancestor db a i"
      by (metis word_unat_eq_iff)
    then show ?thesis using bit n_def by simp
  next
    case False
    have "unat a = (unat i + (n + 1)) mod 2 ^ 32"
      using unat_word_ariths(1)[of i "a - i"] n by simp
    moreover have "unat a < unat i" using False ne by (simp add: word_less_nat_alt word_unat_eq_iff)
    ultimately have "2 ^ 32 \<le> unat i + (n + 1)" by (metis le_add1 mod_less not_le)
    moreover have "unat b < 2 ^ 32" for b :: u32 using unsigned_less[where 'b = 32 and w = b] by simp
    ultimately have "\<not> (\<exists>a. ancestor db a i \<and> unat a = unat i + n + 1)"
      by (metis add.assoc not_le)
    moreover have "\<not> ancestor db a i" using ancestor_less[OF _ wf] False by blast
    ultimately show ?thesis using bit n_def by simp
  qed
qed

lemma ancestor_walk_correct:
  "snap_wf db \<Longrightarrow> cur \<noteq> anc \<Longrightarrow> ancestor_walk db anc cur = Some (ancestor db anc cur)"
proof (induction "2 ^ 32 - unat cur" arbitrary: cur rule: less_induct)
  case less
  note wf = less.prems(1)
  have IH: "ancestor_walk db anc x = Some (ancestor db anc x)" if "cur < x" "x \<noteq> anc" for x
  proof (rule less.hyps[OF _ wf that(2)])
    have "unat x < 2 ^ 32" using unsigned_less[where 'b = 32 and w = x] by simp
    then show "2 ^ 32 - unat x < 2 ^ 32 - unat cur" using that(1) by (simp add: word_less_nat_alt)
  qed
  show ?case
  proof (cases "read_allow_deleted db cur")
    case None
    then have "parent_of db cur = None" by (simp add: parent_of_def)
    then show ?thesis using None no_parent_no_ancestor
      by (subst ancestor_walk.simps) (simp add: read_any_case)
  next
    case (Some s)
    show ?thesis
    proof (cases "sn_parent s = 0")
      case True
      then have "parent_of db cur = None" using Some by (simp add: parent_of_def)
      then show ?thesis using Some True no_parent_no_ancestor
        by (subst ancestor_walk.simps) (simp add: read_any_case)
    next
      case False
      have jump: "(if x = anc then Some True else ancestor_walk db anc x) = Some (ancestor db anc cur)"
        if x: "skiplist_good x cur anc" "x \<in> set (sn_skip s)" for x
      proof -
        have "x \<noteq> 0" "cur < x" and le: "x \<le> anc" using x(1) by (simp_all add: skiplist_good_def)
        have anc: "ancestor db x cur" by (rule node_okD(6)[OF wf Some x(2) \<open>x \<noteq> 0\<close>])
        show ?thesis
        proof (cases "x = anc")
          case False
          then show ?thesis
            using IH[OF \<open>cur < x\<close> False] ancestor_jump[OF wf anc False] le by simp
        qed (use anc in simp)
      qed
      have sk: "sn_skip s ! k \<in> set (sn_skip s)" if "k < 3" for k
        using node_okD(2)[OF wf Some] that by simp
      have p: "parent_of db cur = Some (sn_parent s)" using Some False by (simp add: parent_of_def)
      have last: "(if sn_parent s = anc then Some True else ancestor_walk db anc (sn_parent s))
          = Some (ancestor db anc cur)"
        using IH[OF parent_less[OF wf p]] ancestor_parent_jump[OF p] ancestor.parent[OF p] by auto
      show ?thesis
        using Some False jump[OF _ sk[of 2]] jump[OF _ sk[of 1]] jump[OF _ sk[of 0]] last
          bitmap_test[OF wf Some less.prems(2)]
        by (subst ancestor_walk.simps, subst read_any_case) (simp split del: if_split, simp)
    qed
  qed
qed


lemma is_ancestor_walk_total:
  assumes "snap_wf db"
  shows "is_ancestor_from_btree db a d = Some (a = d \<or> ancestor db a d)"
proof (cases "a = d \<or> a \<le> d \<or> d = 0")
  case False
  then show ?thesis using ancestor_walk_correct[OF assms, of d a] by (auto simp: is_ancestor_from_btree_def)
next
  case True
  have "\<not> ancestor db a 0"
  proof
    assume "ancestor db a 0"
    then obtain s where "read_allow_deleted db 0 = Some s"
      by (cases rule: ancestor.cases) (auto simp: parent_of_Some)
    then show False using node_okD(1)[OF assms] by blast
  qed
  moreover have "\<not> ancestor db a d" if "a \<le> d" using that ancestor_less[OF _ assms] by fastforce
  ultimately show ?thesis using True by (auto simp: is_ancestor_from_btree_def)
qed

text \<open> C2. On a well-formed snapshot tree the persistent skip-list walk always ends, and it
  answers exactly whether one id is the other or lies on its parent chain: skip jumps never
  leap over the target, the 128-bit bitmap is only consulted in range, and the wrapped
  distance of an overshooting parent step cannot give a false hit. \<close>

theorem is_ancestor_btree_correct:
  assumes "snap_wf db"
  shows "is_ancestor_btree db d a = Some (a = d \<or> ancestor db a d) \<and>
    is_ancestor_from_btree db a d = Some (a = d \<or> ancestor db a d)"
  using is_ancestor_walk_total[OF assms, of a d]
  by (auto simp: is_ancestor_btree_def is_ancestor_from_btree_def)

section \<open>Changes to the tree\<close>

lemma read_write_snap [simp]:
  "read_allow_deleted (write_snap i k s db) j = (if j = i then Some s else read_allow_deleted db j)"
  by (simp add: read_allow_deleted_def write_snap_def)

lemma read_snapshot_value_write [simp]:
  "read_snapshot_value (write_snap i k s db) j =
     (if j = i then (if k = Normal then Some s else None) else read_snapshot_value db j)"
  by (simp add: read_snapshot_value_def write_snap_def)

lemma read_value_allow: "read_snapshot_value db i = Some s \<Longrightarrow> read_allow_deleted db i = Some s"
  by (auto simp: read_snapshot_value_def read_allow_deleted_def split: option.splits if_splits)

lemma parent_of_write [simp]:
  "parent_of (write_snap i k s db) j =
     (if j = i then (if sn_parent s = 0 then None else Some (sn_parent s)) else parent_of db j)"
  by (simp add: parent_of_def)

lemma ancestor_same_parents:
  assumes "\<And>j. parent_of db' j = parent_of db j"
  shows "ancestor db' a i = ancestor db a i"
proof -
  have "ancestor db1 a i \<Longrightarrow> (\<And>j. parent_of db2 j = parent_of db1 j) \<Longrightarrow> ancestor db2 a i" for db1 db2 a i
    by (induction rule: ancestor.induct) (auto intro: ancestor.intros)
  then show ?thesis using assms by metis
qed

text \<open>Rewriting a node without touching its parent, depth or bitmap, and without wrong skip entries.\<close>

lemma snap_wf_rewrite:
  assumes wf: "snap_wf db" and s: "read_allow_deleted db i = Some s"
    and "sn_parent s' = sn_parent s" "sn_depth s' = sn_depth s" "sn_is_ancestor s' = sn_is_ancestor s"
    and "length (sn_skip s') = 3" and "set (sn_skip s') \<subseteq> set (sn_skip s) \<union> {0}"
  shows "snap_wf (write_snap i k s' db)" "ancestor (write_snap i k s' db) = ancestor db"
proof -
  let ?db = "write_snap i k s' db"
  have p: "parent_of ?db j = parent_of db j" for j using assms by (simp add: parent_of_def)
  show a: "ancestor ?db = ancestor db" using ancestor_same_parents[of ?db db] p by (intro ext) blast
  have "node_ok ?db j r" if "read_allow_deleted ?db j = Some r" for j r
  proof (cases "j = i")
    case True
    then have "r = s'" using that by simp
    then show ?thesis
      using node_okD[OF wf s] assms True unfolding node_ok_def a by auto
  next
    case False
    then have old: "node_ok db j r" "read_allow_deleted db j = Some r" using that wf by (auto simp: snap_wf_def)
    have "\<exists>q. read_allow_deleted ?db (sn_parent r) = Some q \<and> unat (sn_depth r) = unat (sn_depth q) + 1"
      if "sn_parent r \<noteq> 0"
      using node_okD(4)[OF wf old(2) that] s assms(4) by (cases "sn_parent r = i") auto
    then show ?thesis using old(1) unfolding node_ok_def a by blast
  qed
  then show "snap_wf ?db" by (simp add: snap_wf_def)
qed

text \<open>Hanging a new node under an existing one.\<close>

lemma ancestor_fresh_child:
  assumes wf: "snap_wf db" and new: "read_allow_deleted db i = None" and p: "sn_parent s = p" "p \<noteq> 0" "p \<noteq> i"
  shows "j \<noteq> i \<Longrightarrow> ancestor (write_snap i k s db) a j \<longleftrightarrow> ancestor db a j"
    and "ancestor (write_snap i k s db) a i \<longleftrightarrow> a = p \<or> ancestor db a p"
proof -
  let ?db = "write_snap i k s db"
  have noti: "parent_of db j \<noteq> Some i" for j
  proof
    assume h: "parent_of db j = Some i"
    then obtain r where "read_allow_deleted db j = Some r" "sn_parent r = i" "i \<noteq> 0" by (auto simp: parent_of_Some)
    then show False using node_okD(4)[OF wf] new by fastforce
  qed
  have fwd: "ancestor ?db a j \<Longrightarrow> j \<noteq> i \<Longrightarrow> ancestor db a j" for a j
  proof (induction rule: ancestor.induct)
    case (step j q a)
    then have q: "parent_of db j = Some q" by simp
    then have "q \<noteq> i" using noti by blast
    then show ?case using ancestor.step[OF q] step.IH by blast
  qed (auto intro: ancestor.parent)
  have bwd: "ancestor db a j \<Longrightarrow> ancestor ?db a j" for a j
  proof (induction rule: ancestor.induct)
    case (parent j a)
    have "j \<noteq> i" using parent new by (auto simp: parent_of_Some)
    then show ?case using parent by (intro ancestor.parent) simp
  next
    case (step j q a)
    have "j \<noteq> i" using step.hyps(1) new by (auto simp: parent_of_Some)
    then show ?case using step by (intro ancestor.step[of ?db j q]) simp_all
  qed
  show "ancestor ?db a j \<longleftrightarrow> ancestor db a j" if "j \<noteq> i" for j using that fwd bwd by blast
  then show "ancestor ?db a i \<longleftrightarrow> a = p \<or> ancestor db a p"
    using p by (subst ancestor_unfold) auto
qed

lemma bit_child_bitmap:
  assumes "i < p" and "i \<noteq> 0" and "n < 127"
  shows "bit (child_bitmap p i pb) n \<longleftrightarrow>
    (let gap = unat p - unat i in n = gap - 1 \<or> gap \<le> n \<and> bit pb (n - gap))"
proof -
  have lt: "unat i < unat p" using assms(1) by (simp add: word_less_nat_alt)
  have gap: "unat (p - i) = unat p - unat i" using assms(1) by (simp add: unat_sub word_le_nat_alt word_less_nat_alt)
  have nz: "p - i \<noteq> 0" using assms(1) by auto
  have g1: "unat (p - i - 1) = unat p - unat i - 1" using unat_minus_one[OF nz] gap by simp
  have "p \<noteq> 0" using assms(1) by auto
  show ?thesis
  proof (cases "128 \<le> p - i")
    case True
    then have "128 \<le> unat p - unat i" using gap by (simp add: word_le_nat_alt)
    then show ?thesis using True assms(3) \<open>p \<noteq> 0\<close> by (simp add: child_bitmap_def Let_def)
  next
    case False
    then have "unat p - unat i < 128" using gap by (simp add: word_le_nat_alt)
    with False show ?thesis
      using assms(3) \<open>p \<noteq> 0\<close> gap g1
      by (auto simp: child_bitmap_def Let_def bit_or_iff bit_push_bit_iff bit_1_iff bit_exp_iff possible_bit_word)
  qed
qed

lemma child_node_ok:
  assumes wf: "snap_wf db" and p: "read_allow_deleted db p = Some ps"
    and new: "read_allow_deleted db i = None" and lt: "i < p" "i \<noteq> 0"
    and skip: "length skip = 3" "\<forall>x \<in> set skip. x = 0 \<or> x = p \<or> ancestor db x p"
  shows "snap_wf (write_snap i k (child_node p ps i sv skip now) db)"
proof -
  let ?s = "child_node p ps i sv skip now" and ?db = "write_snap i k (child_node p ps i sv skip now) db"
  have p0: "p \<noteq> 0" "p \<noteq> i" using lt(1) by auto
  have par: "sn_parent ?s = p" by (simp add: child_node_def)
  note anc = ancestor_fresh_child[OF wf new par p0]
  have "unat (sn_depth ps) + unat p \<le> 2 ^ 32" by (rule depth_bound[OF wf p])
  moreover have "2 \<le> unat p" using lt unat_gt_0[of i] by (simp add: word_less_nat_alt)
  ultimately have "unat (sn_depth ps) + 1 < 2 ^ 32" by linarith
  then have depth: "unat (sn_depth ps + 1) = unat (sn_depth ps) + 1" by (simp add: unat_word_ariths)
  have bits: "bit (sn_is_ancestor ?s) n \<longleftrightarrow> (\<exists>a. ancestor ?db a i \<and> unat a = unat i + n + 1)" if n: "n < 127" for n
  proof -
    have l: "unat i < unat p" using lt(1) by (simp add: word_less_nat_alt)
    have pb: "bit (sn_is_ancestor ps) m \<longleftrightarrow> (\<exists>a. ancestor db a p \<and> unat a = unat p + m + 1)" if "m < 127" for m
      by (rule node_okD(7)[OF wf p that])
    have up: "ancestor db a p \<Longrightarrow> unat p < unat a" for a using ancestor_less[OF _ wf] by (simp add: word_less_nat_alt)
    have "(\<exists>a. ancestor ?db a i \<and> unat a = unat i + n + 1) \<longleftrightarrow>
        unat p = unat i + n + 1 \<or> (\<exists>a. ancestor db a p \<and> unat a = unat i + n + 1)" by (auto simp: anc(2))
    also have "\<dots> \<longleftrightarrow> n = unat p - unat i - 1 \<or>
        unat p - unat i \<le> n \<and> (\<exists>a. ancestor db a p \<and> unat a = unat p + (n - (unat p - unat i)) + 1)"
      using l up by (auto, fastforce+)
    also have "\<dots> \<longleftrightarrow> bit (sn_is_ancestor ?s) n"
      using bit_child_bitmap[OF lt n] pb[of "n - (unat p - unat i)"] n by (simp add: child_node_def Let_def)
    finally show ?thesis by blast
  qed
  have "node_ok ?db j r" if r: "read_allow_deleted ?db j = Some r" for j r
  proof (cases "j = i")
    case True
    then have "r = ?s" using r by simp
    then show ?thesis
      using True bits lt skip p0 depth p anc(2) unfolding node_ok_def by (auto simp: child_node_def)
  next
    case False
    then have old: "node_ok db j r" "read_allow_deleted db j = Some r" using r wf by (auto simp: snap_wf_def)
    have "sn_parent r \<noteq> i" if "sn_parent r \<noteq> 0" using node_okD(4)[OF wf old(2) that] new by auto
    then show ?thesis using old(1) anc(1)[OF False] unfolding node_ok_def by auto
  qed
  then show ?thesis by (simp add: snap_wf_def)
qed


lemma nth_parent_ancestor: "nth_parent db i n = Some x \<Longrightarrow> x = i \<or> ancestor db x i"
proof (induction n arbitrary: i)
  case (Suc n)
  from Suc.prems obtain s where s: "read_allow_deleted db i = Some s" "sn_parent s \<noteq> 0"
    "nth_parent db (sn_parent s) n = Some x" by (auto split: option.splits if_splits)
  then have "parent_of db i = Some (sn_parent s)" by (simp add: parent_of_def)
  then show ?case using Suc.IH[OF s(3)] by (auto intro: ancestor.intros)
qed simp

lemma skiplist_get_ok:
  assumes "skiplist_get ds db p = Some sl"
  shows "length sl = 3 \<and> (\<forall>x \<in> set sl. x = 0 \<or> x = p \<or> ancestor db x p)"
proof -
  from assms consider "sl = [0, 0, 0]"
    | a b c where "nth_parent db p (ds ! 0) = Some a" "nth_parent db p (ds ! 1) = Some b"
        "nth_parent db p (ds ! 2) = Some c" "sl = sort [a, b, c]"
    by (auto simp: skiplist_get_def split: option.splits if_splits)
  then show ?thesis
    by cases (auto dest!: nth_parent_ancestor simp: set_sort)
qed

lemma fold_min_le:
  fixes b :: u32
  shows "fold (\<lambda>e m. if fst e < m then fst e else m) xs b \<le> b"
    and "(i, v) \<in> set xs \<Longrightarrow> fold (\<lambda>e m. if fst e < m then fst e else m) xs b \<le> i"
    and "P b \<Longrightarrow> (\<And>i v. (i, v) \<in> set xs \<Longrightarrow> P i) \<Longrightarrow> P (fold (\<lambda>e m. if fst e < m then fst e else m) xs b)"
proof -
  have le: "fold (\<lambda>e m. if fst e < m then fst e else m) xs b \<le> b" for b
    by (induction xs arbitrary: b) (auto intro: order_trans less_imp_le)
  then show "fold (\<lambda>e m. if fst e < m then fst e else m) xs b \<le> b" .
  show "(i, v) \<in> set xs \<Longrightarrow> fold (\<lambda>e m. if fst e < m then fst e else m) xs b \<le> i"
  proof (induction xs arbitrary: b)
    case (Cons x xs)
    have le': "fold (\<lambda>e m. if fst e < m then fst e else m) ys b \<le> b" for ys and b :: u32
      by (induction ys arbitrary: b) (auto intro: order_trans less_imp_le)
    show ?case using Cons le'[of xs i] le'[of xs b] by (auto intro: order_trans)
  qed simp
  show "P b \<Longrightarrow> (\<And>i v. (i, v) \<in> set xs \<Longrightarrow> P i) \<Longrightarrow> P (fold (\<lambda>e m. if fst e < m then fst e else m) xs b)"
  proof (induction xs arbitrary: b)
    case (Cons x xs)
    have "P (fst x)" using Cons.prems(2)[of "fst x" "snd x"] by simp
    then have "P (if fst x < b then fst x else b)" using Cons.prems(1) by simp
    moreover have "\<And>i v. (i, v) \<in> set xs \<Longrightarrow> P i" using Cons.prems(2) list.set_intros(2) by metis
    ultimately show ?case using Cons.IH[of "if fst x < b then fst x else b"] by simp
  qed simp
qed

lemma read_allow_Some_mem: "read_allow_deleted db i = Some s \<Longrightarrow> \<exists>k. (i, k, s) \<in> set (snaps db)"
  by (auto simp: read_allow_deleted_def dest: map_of_SomeD)

text \<open>The next id lies below every id in use, as long as the ids have not run down to \<open>n\<close>.\<close>

lemma next_id_fresh:
  assumes "\<And>j v. (j, v) \<in> set (snaps db) \<Longrightarrow> n < j" and "snaps db \<noteq> []" and "n < - 1"
  shows "n \<le> get_next_snapshot_id db" "read_allow_deleted db j \<noteq> None \<Longrightarrow> get_next_snapshot_id db < j"
proof -
  define m where "m = fold (\<lambda>e m. if fst e < m then fst e else m) (snaps db) (- 1 :: u32)"
  have nm: "n < m" unfolding m_def by (rule fold_min_le(3)) (use assms in auto)
  then have m0: "m \<noteq> 0" by auto
  have e: "get_next_snapshot_id db = m - 1" using assms(2) by (simp add: get_next_snapshot_id_def m_def)
  have u: "unat (m - 1) = unat m - 1" "0 < unat m" using m0 by (simp_all add: unat_minus_one unat_gt_0)
  show "n \<le> get_next_snapshot_id db" using nm u e by (simp add: word_le_nat_alt word_less_nat_alt)
  assume "read_allow_deleted db j \<noteq> None"
  then obtain v where "(j, v) \<in> set (snaps db)" using read_allow_Some_mem by fastforce
  then have "m \<le> j" unfolding m_def by (rule fold_min_le(2))
  then show "get_next_snapshot_id db < j" using e u by (simp add: word_le_nat_alt word_less_nat_alt)
qed

text \<open>The entries a creation writes, for one or two children.\<close>

lemma create_entries_wf:
  fixes sv :: u32 and now :: u64
  assumes wf: "snap_wf db" and p: "read_allow_deleted db p = Some ps"
    and i: "read_allow_deleted db i = None" "i < p" "i \<noteq> 0"
    and skip: "length skip = 3" "\<forall>x \<in> set skip. x = 0 \<or> x = p \<or> ancestor db x p"
    and np: "sn_parent np = sn_parent ps" "sn_depth np = sn_depth ps" "sn_is_ancestor np = sn_is_ancestor ps"
      "sn_skip np = sn_skip ps"
  defines "db1 \<equiv> write_snap i Normal (child_node p ps i sv skip now) db"
  shows "snap_wf db1" "read_allow_deleted db1 p = Some ps"
    "\<forall>x \<in> set skip. x = 0 \<or> x = p \<or> ancestor db1 x p"
    "snap_wf (write_snap p Normal np db1)" "ancestor (write_snap p Normal np db1) = ancestor db1"
    "j \<noteq> i \<Longrightarrow> ancestor db1 a j \<longleftrightarrow> ancestor db a j"
    "ancestor db1 a i \<longleftrightarrow> a = p \<or> ancestor db a p"
proof -
  have pi: "p \<noteq> i" "p \<noteq> 0" using i(2) by auto
  have par: "sn_parent (child_node p ps i sv skip now) = p" by (simp add: child_node_def)
  show wf1: "snap_wf db1" unfolding db1_def by (rule child_node_ok[OF wf p i skip])
  show p1: "read_allow_deleted db1 p = Some ps" using p pi by (simp add: db1_def)
  show anc: "j \<noteq> i \<Longrightarrow> ancestor db1 a j \<longleftrightarrow> ancestor db a j" "ancestor db1 a i \<longleftrightarrow> a = p \<or> ancestor db a p" for a j
    unfolding db1_def using ancestor_fresh_child[OF wf i(1) par pi(2,1)] by auto
  show "\<forall>x \<in> set skip. x = 0 \<or> x = p \<or> ancestor db1 x p" using skip(2) anc(1)[OF pi(1)] by auto
  have l: "length (sn_skip np) = 3" "set (sn_skip np) \<subseteq> set (sn_skip ps) \<union> {0}"
    using np(4) node_okD(2)[OF wf p] by auto
  show "snap_wf (write_snap p Normal np db1)" "ancestor (write_snap p Normal np db1) = ancestor db1"
    using snap_wf_rewrite[OF wf1 p1 np(1-3) l] by auto
qed

text \<open> C3. Creating a snapshot (one child, or the two children of the split into a new and a
  source subvolume) keeps the tree well formed: whatever random skip entries are drawn, the
  new node gets a fresh id below all others, its ancestors are its parent and the parent's
  ancestors with the bitmap and skip list that say so, and no other node's ancestors change. \<close>

theorem snapshot_node_create_wf:
  assumes wf: "snap_wf db" and space: "\<And>j v. (j, v) \<in> set (snaps db) \<Longrightarrow> 2 < j"
    and op: "snapshot_node_create ds now accepts p sv extra db = (Inr i, db')"
  shows "snap_wf db' \<and> read_allow_deleted db i = None \<and> parent_of db' i = Some p \<and>
    (\<forall>a. ancestor db' a i \<longleftrightarrow> a = p \<or> ancestor db a p) \<and>
    (\<forall>j a. read_allow_deleted db j \<noteq> None \<longrightarrow> (ancestor db' a j \<longleftrightarrow> ancestor db a j)) \<and>
    (extra \<noteq> None \<longrightarrow> parent_of db' (i - 1) = Some p)"
proof -
  obtain ps where rp: "read_snapshot_value db p = Some ps"
    using op by (auto simp: snapshot_node_create_def split: option.splits)
  note p = read_value_allow[OF rp]
  define skip where "skip = (case skiplist_get ds db p of Some s \<Rightarrow> sort s | None \<Rightarrow> [0, 0, 0])"
  define np where "np = ps\<lparr>sn_subvol := 0, sn_flags := flags_remove (sn_flags ps) SUBVOL\<rparr>"
  have ne: "snaps db \<noteq> []" using p by (auto simp: read_allow_deleted_def)
  have i: "i = get_next_snapshot_id db"
    using op rp by (auto simp: snapshot_node_create_def Let_def batch_write_def split: option.splits if_splits)
  have fresh: "2 \<le> i" "\<And>j. read_allow_deleted db j \<noteq> None \<Longrightarrow> i < j"
    using next_id_fresh[of db 2] space ne i by auto
  have ip: "i < p" using fresh(2) p by blast
  have i0: "i \<noteq> 0" "i - 1 \<noteq> 0" "i - 1 < i" "i - 1 \<noteq> i"
  proof -
    have u: "2 \<le> unat i" using fresh(1) by (simp add: word_le_nat_alt)
    then show "i \<noteq> 0" by auto
    then have m: "unat (i - 1) = unat i - 1" by (simp add: unat_minus_one)
    then show "i - 1 < i" using u by (simp add: word_less_nat_alt)
    then show "i - 1 \<noteq> i" by simp
    show "i - 1 \<noteq> 0" using m u by auto
  qed
  have in_: "read_allow_deleted db i = None" using fresh(2)[of i] by (cases "read_allow_deleted db i") auto
  have jn: "read_allow_deleted db (i - 1) = None" using fresh(2)[of "i - 1"] i0(3) by fastforce
  have skip: "length skip = 3" "\<forall>x \<in> set skip. x = 0 \<or> x = p \<or> ancestor db x p"
    unfolding skip_def by (auto dest: skiplist_get_ok split: option.splits)
  have npc: "sn_parent (np\<lparr>sn_children := c\<rparr>) = sn_parent ps" "sn_depth (np\<lparr>sn_children := c\<rparr>) = sn_depth ps"
    "sn_is_ancestor (np\<lparr>sn_children := c\<rparr>) = sn_is_ancestor ps" "sn_skip (np\<lparr>sn_children := c\<rparr>) = sn_skip ps" for c
    by (simp_all add: np_def)
  let ?c = "child_node p ps i sv skip now"
  note one = create_entries_wf[OF wf p in_ ip i0(1) skip npc, where sv = sv and now = now]
  have p_ne: "p \<noteq> i" "p \<noteq> i - 1" "p \<noteq> 0" using ip i0(3) by auto
  show ?thesis
  proof (cases extra)
    case None
    have db': "db' = write_snap p Normal (np\<lparr>sn_children := (i, snd (sn_children np))\<rparr>) (write_snap i Normal ?c db)"
      using op rp None by (auto simp: snapshot_node_create_def Let_def batch_write_def i[symmetric]
          skip_def[symmetric] np_def[symmetric] split: if_splits)
    have old: "ancestor db' a j \<longleftrightarrow> ancestor db a j" if "read_allow_deleted db j \<noteq> None" for a j
    proof -
      have "j \<noteq> i" using that in_ by auto
      then show ?thesis unfolding db' one(5) using one(6) by simp
    qed
    have new: "ancestor db' a i \<longleftrightarrow> a = p \<or> ancestor db a p" for a unfolding db' one(5) by (rule one(7))
    have "snap_wf db'" unfolding db' by (rule one(4))
    then show ?thesis using old new in_ p_ne None by (auto simp: db' child_node_def)
  next
    case (Some sv2)
    let ?db1 = "write_snap i Normal ?c db"
    have db': "db' = write_snap p Normal (np\<lparr>sn_children := (i, i - 1)\<rparr>)
        (write_snap (i - 1) Normal (child_node p ps (i - 1) sv2 skip now) ?db1)"
      using op rp Some by (auto simp: snapshot_node_create_def Let_def batch_write_def i[symmetric]
          skip_def[symmetric] np_def[symmetric] split: if_splits)
    have jn1: "read_allow_deleted ?db1 (i - 1) = None" using jn i0(4) by simp
    have jp: "i - 1 < p" using ip i0(3) by simp
    note two = create_entries_wf[OF one(1,2) jn1 jp i0(2) skip(1) one(3) npc, where sv = sv2 and now = now]
    have old: "ancestor db' a j \<longleftrightarrow> ancestor db a j" if "read_allow_deleted db j \<noteq> None" for a j
    proof -
      have "j \<noteq> i" "j \<noteq> i - 1" using that in_ jn by auto
      then show ?thesis unfolding db' two(5) using two(6) one(6) by simp
    qed
    have new: "ancestor db' a i \<longleftrightarrow> a = p \<or> ancestor db a p" for a
      unfolding db' two(5) using two(6)[of i] i0(4) one(7) by simp
    have "snap_wf db'" unfolding db' by (rule two(4))
    then show ?thesis
      using old new in_ p_ne i0(4) by (auto simp: db' child_node_def)
  qed
qed

end
