(* ===== verification/SnapshotProps.thy ===== *)
theory SnapshotProps
  imports SnapshotInv
begin

text \<open>
  Further properties of the snapshot tree: logical deletion keeps every ancestor query, the
  stack-based iterator visits what the recursive traversal visits, the id bitmap hands out
  each id once, and two executions in which deletion goes wrong.
\<close>

section \<open>A concrete tree\<close>

lemma create_root_wf:
  assumes wf: "snap_wf db" and "read_allow_deleted db (get_next_snapshot_id db) = None"
    and "get_next_snapshot_id db \<noteq> 0"
  shows "snap_wf (snd (create_root_snapshot sv now db))"
proof -
  let ?i = "get_next_snapshot_id db" and ?s = "new_leaf 0 sv 0 1 now"
  let ?db = "write_snap ?i Normal ?s db"
  have par: "parent_of ?db j = parent_of db j" for j
    using assms(2) by (auto simp: new_leaf_def parent_of_def)
  have anc: "ancestor ?db = ancestor db" using ancestor_same_parents[of ?db db] par by (intro ext) blast
  have "parent_of db ?i = None" using assms(2) by (simp add: parent_of_def)
  then have none: "\<not> ancestor db a ?i" for a by (rule no_parent_no_ancestor)
  have "node_ok ?db j r" if "read_allow_deleted ?db j = Some r" for j r
  proof (cases "j = ?i")
    case True
    then have "r = ?s" using that by simp
    then show ?thesis using True assms(3) none unfolding node_ok_def anc by (simp add: new_leaf_def)
  next
    case False
    then have old: "read_allow_deleted db j = Some r" using that by simp
    then have "node_ok db j r" using wf by (simp add: snap_wf_def)
    moreover have "sn_parent r \<noteq> ?i" if "sn_parent r \<noteq> 0" using node_okD(4)[OF wf old that] assms(2) by auto
    ultimately show ?thesis unfolding node_ok_def anc by auto
  qed
  then have "snap_wf ?db" unfolding snap_wf_def by blast
  then show ?thesis by (simp add: create_root_snapshot_def Let_def)
qed

definition empty_db :: snap_db where "empty_db = \<lparr>snaps = [], trees = []\<rparr>"

definition db_root :: snap_db where "db_root = snd (create_root_snapshot 1 0 empty_db)"

definition db_two :: snap_db where
  "db_two = snd (snapshot_node_create [0, 0, 0] 7 3 (- 1) 2 (Some 1) db_root)"

lemma db_root_eq: "db_root = \<lparr>snaps = [(- 1, Normal, new_leaf 0 1 0 1 0)], trees = []\<rparr>"
  by (simp add: db_root_def create_root_snapshot_def empty_db_def get_next_snapshot_id_def write_snap_def Let_def)

lemma db_root_wf: "snap_wf db_root"
  unfolding db_root_def
  by (rule create_root_wf) (simp_all add: empty_db_def snap_wf_def read_allow_deleted_def get_next_snapshot_id_def)

lemma db_two_create:
  "snapshot_node_create [0, 0, 0] 7 3 (- 1) 2 (Some 1) db_root = (Inr (- 2), db_two)"
proof -
  have "fst (snapshot_node_create [0, 0, 0] 7 3 (- 1) 2 (Some 1) db_root) = Inr (- 2)"
    by (simp add: db_root_eq snapshot_node_create_def read_snapshot_value_def get_next_snapshot_id_def
        Let_def batch_write_def)
  then show ?thesis unfolding db_two_def by (metis prod.collapse)
qed

theorem snapshot_node_create_wf_witness:
  "snap_wf db_two \<and> parent_of db_two (- 3) = Some (- 1) \<and> ancestor db_two (- 1) (- 2)"
  using snapshot_node_create_wf[OF db_root_wf _ db_two_create] by (simp add: db_root_eq)

text \<open>The same facts again for the other properties' instances.\<close>

abbreviation split_root :: snapshot_t where
  "split_root \<equiv> (new_leaf 0 1 0 1 0)\<lparr>sn_subvol := 0, sn_flags := flags_remove (sn_flags (new_leaf 0 1 0 1 0)) SUBVOL,
      sn_children := (- 2, - 3)\<rparr>"

lemma db_two_writes:
  "db_two = write_snap (- 1) Normal split_root (write_snap (- 3) Normal (child_node (- 1) (new_leaf 0 1 0 1 0) (- 3) 1 [0, 0, 0] 7)
      (write_snap (- 2) Normal (child_node (- 1) (new_leaf 0 1 0 1 0) (- 2) 2 [0, 0, 0] 7) db_root))"
proof -
  have g: "get_next_snapshot_id db_root = - 2" by (simp add: db_root_eq get_next_snapshot_id_def)
  have s: "skiplist_get [0, 0, 0] db_root (- 1) = Some [0, 0, 0]"
    by (simp add: db_root_eq skiplist_get_def read_snapshot_value_def new_leaf_def)
  have r: "read_snapshot_value db_root (- 1) = Some (new_leaf 0 1 0 1 0)"
    by (simp add: db_root_eq read_snapshot_value_def)
  show ?thesis by (simp add: db_two_def snapshot_node_create_def r g s batch_write_def Let_def)
qed

lemma db_two_read:
  "read_snapshot_value db_two i = (if i = - 1 then Some ((new_leaf 0 0 0 1 0)\<lparr>sn_children := (- 2, - 3), sn_flags := 0\<rparr>)
     else if i = - 2 then Some (child_node (- 1) (new_leaf 0 1 0 1 0) (- 2) 2 [0, 0, 0] 7)
     else if i = - 3 then Some (child_node (- 1) (new_leaf 0 1 0 1 0) (- 3) 1 [0, 0, 0] 7) else None)"
  by (simp add: db_two_writes db_root_eq read_snapshot_value_def write_snap_def new_leaf_def flags_remove_def SUBVOL_def)

lemma db_two_wf: "snap_wf db_two"
proof -
  have i: "read_allow_deleted db_root (- 2) = None" "read_allow_deleted (write_snap (- 2) Normal s db_root) (- 3) = None" for s
    by (simp_all add: db_root_eq read_allow_deleted_def write_snap_def)
  have p: "read_allow_deleted db_root (- 1) = Some (new_leaf 0 1 0 1 0)"
    by (simp add: db_root_eq read_allow_deleted_def)
  note one = create_entries_wf[OF db_root_wf p i(1), of "[0, 0, 0]" split_root 2 7]
  note two = create_entries_wf[OF one(1,2) i(2), of "[0, 0, 0]" split_root 1 7]
  show ?thesis unfolding db_two_writes by (rule two(4)) (simp_all add: new_leaf_def)
qed

theorem is_ancestor_btree_correct_witness:
  "is_ancestor_btree db_two (- 3) (- 1) = Some (ancestor db_two (- 1) (- 3))"
  using is_ancestor_btree_correct[OF db_two_wf, of "- 3" "- 1"] by simp

section \<open>Logical deletion\<close>

text \<open>
  Marking a snapshot deleted hides it from lookups but leaves the tree well formed, and
  every ancestor query, also those that pass through the deleted node, answers as before. \<close>

theorem set_deleted_keeps_ancestry:
  assumes "snap_wf db" and "node_set_deleted i db = Inr db'"
  shows "snap_wf db' \<and> read_snapshot_value db' i = None \<and> read_allow_deleted db' i \<noteq> None \<and>
    (\<forall>d a. is_ancestor_btree db' d a = is_ancestor_btree db d a)"
proof -
  obtain s where s: "read_snapshot_value db i = Some s"
    and db': "db' = write_snap i Whiteout ((mark_deleted s)\<lparr>sn_flags := flags_insert (sn_flags (mark_deleted s)) WILL_DELETE\<rparr>) db"
    using assms(2) by (auto simp: node_set_deleted_def Let_def split: option.splits)
  let ?s = "(mark_deleted s)\<lparr>sn_flags := flags_insert (sn_flags (mark_deleted s)) WILL_DELETE\<rparr>"
  have same: "sn_parent ?s = sn_parent s" "sn_depth ?s = sn_depth s" "sn_is_ancestor ?s = sn_is_ancestor s"
    "length (sn_skip ?s) = 3" "set (sn_skip ?s) \<subseteq> set (sn_skip s) \<union> {0}"
    by (simp_all add: mark_deleted_def)
  note rw = snap_wf_rewrite[OF assms(1) read_value_allow[OF s] same, of Whiteout]
  have wf': "snap_wf db'" and anc: "ancestor db' = ancestor db" unfolding db' by (rule rw)+
  have "is_ancestor_btree db' d a = is_ancestor_btree db d a" for d a
    using is_ancestor_walk_total[OF wf'] is_ancestor_walk_total[OF assms(1)]
    by (simp add: is_ancestor_btree_def anc)
  then show ?thesis using wf' by (simp add: db')
qed

theorem set_deleted_keeps_ancestry_witness:
  "\<exists>db'. node_set_deleted (- 2) db_two = Inr db' \<and> is_ancestor_btree db' (- 2) (- 1) = is_ancestor_btree db_two (- 2) (- 1)"
proof -
  obtain db' where d: "node_set_deleted (- 2) db_two = Inr db'"
    by (simp add: node_set_deleted_def db_two_read Let_def)
  show ?thesis using set_deleted_keeps_ancestry[OF db_two_wf d] d by blast
qed


section \<open>The traversals agree\<close>

text \<open>Every child named by a readable node is readable and has a smaller id.\<close>

definition children_ok :: "snap_db \<Rightarrow> bool" where
  "children_ok db \<longleftrightarrow> (\<forall>i s c. read_snapshot_value db i = Some s \<longrightarrow> c \<in> {fst (sn_children s), snd (sn_children s)} \<longrightarrow>
     c \<noteq> 0 \<longrightarrow> c < i \<and> read_snapshot_value db c \<noteq> None)"

lemma dfs_collect_visited:
  "read_snapshot_value db i = Some s \<Longrightarrow>
   dfs_collect db ((i, True) # rest) = map_option (Cons i) (dfs_collect db rest)"
  by (subst dfs_collect.simps, subst dfs_next.simps) (simp add: map_option_case split: option.splits)

lemma dfs_collect_enter:
  "read_snapshot_value db i = Some s \<Longrightarrow>
   dfs_collect db ((i, False) # rest) =
     dfs_collect db ((if fst (sn_children s) \<noteq> 0 then [(fst (sn_children s), False)] else []) @
       (if snd (sn_children s) \<noteq> 0 then [(snd (sn_children s), False)] else []) @ (i, True) # rest)"
  by (subst (1 2) dfs_collect.simps, subst dfs_next.simps) simp

lemma dfs_recursion_total:
  assumes ok: "children_ok db"
  shows "read_snapshot_value db i \<noteq> None \<Longrightarrow> unat i < n \<Longrightarrow>
    \<exists>l. (\<forall>acc. dfs_inner n db i acc = Some (acc @ l)) \<and>
      (\<forall>rest. dfs_collect db ((i, False) # rest) = map_option ((@) l) (dfs_collect db rest))"
proof (induction n arbitrary: i)
  case (Suc n)
  obtain s where s: "read_snapshot_value db i = Some s" using Suc.prems(1) by blast
  have sub: "\<exists>l. (\<forall>acc. (if c \<noteq> 0 then dfs_inner n db c acc else Some acc) = Some (acc @ l)) \<and>
      (\<forall>rest. dfs_collect db ((if c \<noteq> 0 then [(c, False)] else []) @ rest) = map_option ((@) l) (dfs_collect db rest))"
    if "c \<in> {fst (sn_children s), snd (sn_children s)}" for c
  proof (cases "c = 0")
    case True
    have e: "(@) [] = (\<lambda>x. x :: u32 list)" by auto
    from True show ?thesis by (intro exI[of _ "[]"]) (simp add: e option.map_ident)
  next
    case False
    then have "c < i" "read_snapshot_value db c \<noteq> None" using ok s that unfolding children_ok_def by blast+
    then have "unat c < n" using Suc.prems(2) by (simp add: word_less_nat_alt)
    then show ?thesis using Suc.IH[of c] \<open>read_snapshot_value db c \<noteq> None\<close> False by simp
  qed
  obtain l1 where l1: "\<And>acc. (if fst (sn_children s) \<noteq> 0 then dfs_inner n db (fst (sn_children s)) acc else Some acc) = Some (acc @ l1)"
    "\<And>rest. dfs_collect db ((if fst (sn_children s) \<noteq> 0 then [(fst (sn_children s), False)] else []) @ rest)
       = map_option ((@) l1) (dfs_collect db rest)" using sub[of "fst (sn_children s)"] by blast
  obtain l2 where l2: "\<And>acc. (if snd (sn_children s) \<noteq> 0 then dfs_inner n db (snd (sn_children s)) acc else Some acc) = Some (acc @ l2)"
    "\<And>rest. dfs_collect db ((if snd (sn_children s) \<noteq> 0 then [(snd (sn_children s), False)] else []) @ rest)
       = map_option ((@) l2) (dfs_collect db rest)" using sub[of "snd (sn_children s)"] by blast
  have "dfs_inner (Suc n) db i acc = Some (acc @ (l1 @ l2 @ [i]))" for acc
    by (simp only: dfs_inner.simps s option.case l1(1) l2(1) bind.simps append_assoc)
  moreover have "dfs_collect db ((i, False) # rest) = map_option ((@) (l1 @ l2 @ [i])) (dfs_collect db rest)" for rest
    unfolding dfs_collect_enter[OF s] l1(2) l2(2) dfs_collect_visited[OF s]
    by (cases "dfs_collect db rest") auto
  ultimately show ?case by blast
qed simp

text \<open> C32. In a tree in which every child link of an undeleted node leads to an undeleted node with a
  smaller id, the recursive post-order traversal needs no more stack than the root's id and the
  stack-based iterator yields exactly the same sequence of ids. (At a link to a deleted child they
  differ: the recursion passes over it, the iterator ends.) \<close>

theorem dfs_iterator_equals_recursion:
  assumes "children_ok db" and "read_snapshot_value db i \<noteq> None" and "unat i < n"
  shows "\<exists>r. dfs_descendants n db i = Some r \<and> dfs_collect db [(i, False)] = Some r"
proof -
  obtain l where l: "\<forall>acc. dfs_inner n db i acc = Some (acc @ l)"
    "\<forall>rest. dfs_collect db ((i, False) # rest) = map_option ((@) l) (dfs_collect db rest)"
    using dfs_recursion_total[OF assms] by blast
  have "dfs_next db [] = Some (None, [])" by (subst dfs_next.simps) simp
  then have "dfs_collect db [] = Some []" by (subst dfs_collect.simps) simp
  then have "dfs_collect db [(i, False)] = Some l" using l(2) by simp
  moreover have "dfs_descendants n db i = Some l" using l(1) by (simp add: dfs_descendants_def)
  ultimately show ?thesis by blast
qed

theorem dfs_iterator_equals_recursion_witness:
  "\<exists>r. dfs_descendants (2 ^ 32) db_two (- 1) = Some r \<and> dfs_collect db_two [(- 1, False)] = Some r"
proof (rule dfs_iterator_equals_recursion)
  show "children_ok db_two"
    unfolding children_ok_def db_two_read
    by (auto simp: new_leaf_def child_node_def word_less_nat_alt unsigned_minus_1_eq_mask mask_eq_exp_minus_1 split: if_splits)
  show "read_snapshot_value db_two (- 1) \<noteq> None" by (simp add: db_two_read)
qed (simp add: unsigned_minus_1_eq_mask mask_eq_exp_minus_1)

section \<open>The id bitmap\<close>

definition bm_bit :: "u64 list \<Rightarrow> nat \<Rightarrow> bool" where
  "bm_bit ws k \<longleftrightarrow> k div 64 < length ws \<and> bit (ws ! (k div 64)) (k mod 64)"

definition bm_ones :: "u64 list \<Rightarrow> nat set" where
  "bm_ones ws = {k. bm_bit ws k}"

lemma bm_ones_finite: "finite (bm_ones ws)"
proof (rule finite_subset)
  show "bm_ones ws \<subseteq> {..<64 * length ws}"
    by (auto simp: bm_ones_def bm_bit_def less_mult_imp_div_less intro: ccontr)
qed simp

lemma trailing_zeros_not:
  assumes "w \<noteq> - 1"
  shows "trailing_zeros (NOT w) < 64" "\<not> bit w (trailing_zeros (NOT w))" "\<And>k. k < trailing_zeros (NOT w) \<Longrightarrow> bit w k"
proof -
  have "\<exists>k<64. \<not> bit w k"
  proof (rule ccontr)
    assume "\<not> (\<exists>k<64. \<not> bit w k)"
    then have "w = - 1" by (intro bit_word_eqI) auto
    with assms show False by simp
  qed
  then obtain k where k: "k < 64" "\<not> bit w k" by blast
  have "List.find (bit (NOT w)) [0..<64] \<noteq> None"
    using k by (auto simp: find_None_iff bit_not_iff_eq)
  then obtain j where j: "List.find (bit (NOT w)) [0..<64] = Some j" by blast
  then obtain m where m: "m < 64" "[0..<64] ! m = j" "bit (NOT w) j" "\<And>l. l < m \<Longrightarrow> \<not> bit (NOT w) ([0..<64] ! l)"
    by (auto simp: find_Some_iff)
  have jm: "j = m" using m(1,2) by simp
  have t: "trailing_zeros (NOT w) = j" by (simp add: trailing_zeros_def j)
  show "trailing_zeros (NOT w) < 64" using t jm m(1) by simp
  show "\<not> bit w (trailing_zeros (NOT w))" using m(3) t by (simp add: bit_not_iff_eq)
  show "\<And>k. k < trailing_zeros (NOT w) \<Longrightarrow> bit w k"
  proof -
    fix k assume "k < trailing_zeros (NOT w)"
    then have "k < m" "k < 64" using t jm m(1) by simp_all
    then show "bit w k" using m(4)[of k] by (simp add: bit_not_iff_eq)
  qed
qed


lemma bm_bit_Cons:
  "bm_bit (w # ws) k \<longleftrightarrow> (if k < 64 then bit w k else bm_bit ws (k - 64))"
proof (cases "k < 64")
  case False
  then obtain m where m: "k = m + 64" by (metis add.commute le_Suc_ex not_less)
  have "k div 64 = Suc (m div 64)" "k mod 64 = m mod 64" by (simp_all add: m div_add_self2)
  then show ?thesis using m by (simp add: bm_bit_def)
qed (simp add: bm_bit_def)

lemma alloc_scan_None: "alloc_scan ws k = None \<Longrightarrow> j < 64 * length ws \<Longrightarrow> bm_bit ws j"
proof (induction ws arbitrary: k j)
  case (Cons w ws)
  then have w: "w = - 1" and n: "alloc_scan ws (Suc k) = None" by (auto split: if_splits)
  show ?case using Cons.IH[OF n, of "j - 64"] Cons.prems(2) w by (auto simp: bm_bit_Cons)
qed simp

lemma alloc_scan_Some:
  "alloc_scan ws k = Some (p, ws') \<Longrightarrow>
   \<exists>j. p = 64 * k + j \<and> j < 64 * length ws \<and> \<not> bm_bit ws j \<and> (\<forall>l<j. bm_bit ws l) \<and>
     ws' = ws[j div 64 := ws ! (j div 64) OR push_bit (j mod 64) 1]"
proof (induction ws arbitrary: k ws')
  case (Cons w ws)
  show ?case
  proof (cases "w = - 1")
    case True
    then obtain ws2 where r: "alloc_scan ws (Suc k) = Some (p, ws2)" "ws' = w # ws2"
      using Cons.prems by auto
    from Cons.IH[OF r(1)] obtain j where j: "p = 64 * Suc k + j" "j < 64 * length ws" "\<not> bm_bit ws j"
      "\<forall>l<j. bm_bit ws l" "ws2 = ws[j div 64 := ws ! (j div 64) OR push_bit (j mod 64) 1]" by blast
    have d: "(j + 64) div 64 = Suc (j div 64)" "(j + 64) mod 64 = j mod 64" by simp_all
    have "\<forall>l<j + 64. bm_bit (w # ws) l"
    proof (intro allI impI)
      fix l assume "l < j + 64"
      then have "l < 64 \<or> l - 64 < j" by linarith
      then show "bm_bit (w # ws) l" using j(4) True by (auto simp: bm_bit_Cons)
    qed
    then show ?thesis
      using j r(2) by (intro exI[of _ "j + 64"]) (simp add: bm_bit_Cons d)
  next
    case False
    let ?t = "trailing_zeros (NOT w)"
    have t: "?t < 64" "\<not> bit w ?t" "\<forall>l<?t. bit w l" using trailing_zeros_not[OF False] by auto
    show ?thesis
      using Cons.prems False t by (intro exI[of _ ?t]) (auto simp: bm_bit_Cons)
  qed
qed simp

lemma bm_ones_set:
  assumes "j < 64 * length ws"
  shows "bm_ones (ws[j div 64 := ws ! (j div 64) OR push_bit (j mod 64) 1]) = insert j (bm_ones ws)"
proof -
  have l: "j div 64 < length ws" using assms by (simp add: less_mult_imp_div_less)
  have "bm_bit (ws[j div 64 := ws ! (j div 64) OR push_bit (j mod 64) 1]) k \<longleftrightarrow> k = j \<or> bm_bit ws k" for k
  proof (cases "k div 64 = j div 64")
    case True
    have "k mod 64 = j mod 64 \<longleftrightarrow> k = j" using True by (metis mod_div_mult_eq)
    moreover have "bit (push_bit (j mod 64) 1 :: u64) (k mod 64) \<longleftrightarrow> k mod 64 = j mod 64"
      by (auto simp: bit_exp_iff possible_bit_word)
    ultimately show ?thesis using True l by (auto simp: bm_bit_def bit_or_iff)
  qed (auto simp: bm_bit_def)
  then show ?thesis by (auto simp: bm_ones_def)
qed

definition bm_wf :: "id_bitmap \<Rightarrow> bool" where
  "bm_wf b \<longleftrightarrow> length (bm_bits b) * 64 \<ge> unat (bm_capacity b) \<and> bm_ones (bm_bits b) \<subseteq> {..<unat (bm_capacity b)} \<and>
     unat (bm_used b) = card (bm_ones (bm_bits b)) \<and> unat (bm_capacity b) \<le> unat (bm_start b) + 1"

lemma bitmap_new_wf:
  assumes "unat cap + 63 < 2 ^ 32" and "unat cap \<le> unat start + 1"
  shows "bm_wf (bitmap_new start cap)"
proof -
  have "unat ((cap + 63) div 64) = (unat cap + 63) div 64" using assms(1) by (simp add: unat_div unat_word_ariths)
  moreover have "\<not> bm_bit (replicate n 0) k" for n k by (simp add: bm_bit_def)
  ultimately show ?thesis using assms(2) by (simp add: bm_wf_def bitmap_new_def bm_ones_def)
qed

text \<open>
  The snapshot id bitmap allocates while fewer ids than its capacity are in use and
  only then: it hands out the highest free id, inside its range, marks exactly that id used
  and keeps the used counter equal to the number of set bits; freeing the id right away
  restores the bitmap bit for bit. \<close>

theorem bitmap_alloc_free:
  assumes "bm_wf b"
  shows "if bm_capacity b \<le> bm_used b then bitmap_alloc b = (None, b)
    else \<exists>k b'. bitmap_alloc b = (Some (bm_start b - of_nat k), b') \<and> k < unat (bm_capacity b) \<and>
       k \<notin> bm_ones (bm_bits b) \<and> (\<forall>l<k. l \<in> bm_ones (bm_bits b)) \<and>
       bm_ones (bm_bits b') = insert k (bm_ones (bm_bits b)) \<and> bm_wf b' \<and>
       bitmap_free (bm_start b - of_nat k) b' = b"
proof (cases "bm_capacity b \<le> bm_used b")
  case False
  let ?O = "bm_ones (bm_bits b)" and ?c = "unat (bm_capacity b)"
  have len: "?c \<le> length (bm_bits b) * 64" and sub: "?O \<subseteq> {..<?c}" and used: "unat (bm_used b) = card ?O"
    and start: "?c \<le> unat (bm_start b) + 1" using assms by (simp_all add: bm_wf_def)
  have lt: "card ?O < ?c" using False used by (simp add: word_le_nat_alt)
  have "\<not> {..<?c} \<subseteq> ?O"
  proof
    assume "{..<?c} \<subseteq> ?O"
    from card_mono[OF bm_ones_finite this] lt show False by simp
  qed
  then obtain f where f: "f < ?c" "f \<notin> ?O" by blast
  have "alloc_scan (bm_bits b) 0 \<noteq> None"
  proof
    assume "alloc_scan (bm_bits b) 0 = None"
    from alloc_scan_None[OF this, of f] f len show False by (simp add: bm_ones_def)
  qed
  then obtain k ws where a: "alloc_scan (bm_bits b) 0 = Some (k, ws)" by auto
  from alloc_scan_Some[OF a] have k: "k < 64 * length (bm_bits b)" "\<not> bm_bit (bm_bits b) k"
    "\<forall>l<k. bm_bit (bm_bits b) l"
    and ws: "ws = (bm_bits b)[k div 64 := bm_bits b ! (k div 64) OR push_bit (k mod 64) 1]" by auto
  have kc: "k < ?c" using k(3) f by (metis (mono_tags, lifting) bm_ones_def le_less_trans mem_Collect_eq not_le)
  let ?b = "b\<lparr>bm_bits := ws, bm_used := bm_used b + 1\<rparr>"
  have al: "bitmap_alloc b = (Some (bm_start b - of_nat k), ?b)" using False a by (simp add: bitmap_alloc_def)
  have ones: "bm_ones ws = insert k ?O" unfolding ws by (rule bm_ones_set[OF k(1)])
  have kn: "k \<notin> ?O" using k(2) by (simp add: bm_ones_def)
  have "unat (bm_used b + 1) = unat (bm_used b) + 1"
    using False unat32_less[of "bm_capacity b"]
    by (simp add: unat_word_ariths word_le_nat_alt)
  moreover have "card (insert k ?O) = card ?O + 1" using kn bm_ones_finite[of "bm_bits b"] by simp
  moreover have "length ws = length (bm_bits b)" by (simp add: ws)
  ultimately have wf': "bm_wf ?b"
    using len sub used start kc by (simp add: bm_wf_def ones)
  have k32: "k < 2 ^ 32" using kc unat32_less[of "bm_capacity b"] by simp
  have uk: "unat (of_nat k :: u32) = k" using k32 by (simp add: unat_of_nat)
  have "(of_nat k :: u32) \<le> bm_start b" using start kc uk by (simp add: word_le_nat_alt)
  then have ge: "\<not> bm_start b < bm_start b - of_nat k" by (simp add: word_sub_le not_less)
  have l: "k div 64 < length (bm_bits b)" using k(1) by (simp add: less_mult_imp_div_less)
  let ?w = "bm_bits b ! (k div 64)"
  have "\<not> bit ?w (k mod 64)" using k(2) l by (simp add: bm_bit_def)
  then have undo: "(?w OR push_bit (k mod 64) 1) AND NOT (push_bit (k mod 64) 1) = ?w"
    by (intro bit_word_eqI) (auto simp: bit_simps bit_exp_iff possible_bit_word)
  have "\<not> bm_capacity b \<le> of_nat k" using kc uk by (simp add: word_le_nat_alt)
  then have fr: "bitmap_free (bm_start b - of_nat k) ?b = b"
    using ge l uk undo by (simp add: bitmap_free_def Let_def ws bit_simps bit_exp_iff possible_bit_word)
  show ?thesis
    using False al kc kn k(3) ones wf' fr by (auto simp: bm_ones_def)
qed (simp add: bitmap_alloc_def)

theorem bitmap_alloc_free_witness:
  "\<exists>k b'. bitmap_alloc (bitmap_new 99 10) = (Some (99 - of_nat k), b') \<and> bitmap_free (99 - of_nat k) b' = bitmap_new 99 10"
proof -
  have "bm_wf (bitmap_new 99 10)" by (rule bitmap_new_wf) simp_all
  from bitmap_alloc_free[OF this] show ?thesis by (auto simp: bitmap_new_def)
qed


section \<open>Where deletion falls short\<close>

text \<open>
  Sweeping two dead sibling leaves leaves a dangling link: the parent's entry is rebuilt from the
  copy \<open>m\<close> taken before the sweep, so unlinking the second sibling writes the link to the first
  one back, although the first one has been deleted.
\<close>

theorem sweep_restores_sibling_link:
  assumes "m a = Some sa" and "m b = Some sb" and "m p = Some ps"
    and "sn_parent sa = p" and "sn_parent sb = p" and "sn_children ps = (a, b)"
    and "sn_children sa = (0, 0)" and "sn_children sb = (0, 0)" and "\<not> has_subvol sa" and "\<not> has_subvol sb"
    and "distinct [0, a, b, p]" and "0 < n"
  shows "\<exists>db'. fold_opt (sweep_dead n m) [a, b] (skipped, db) = Some (skipped, db') \<and>
    read_snapshot_value db' a = None \<and> read_snapshot_value db' b = None \<and>
    (\<exists>r. read_snapshot_value db' p = Some r \<and> sn_children r = (a, 0))"
proof -
  obtain k where n: "n = Suc k" using assms(12) gr0_conv_Suc by blast
  have v: "has_volume_ref n m a = Some False" "has_volume_ref n m b = Some False"
    using assms n by simp_all
  let ?del = "\<lambda>i d. case node_set_deleted i d of Inl _ \<Rightarrow> d | Inr d' \<Rightarrow> d'"
  have gone: "read_snapshot_value (?del i d) i = None" for i d
    by (auto simp: node_set_deleted_def Let_def split: option.split)
  have other: "j \<noteq> i \<Longrightarrow> read_snapshot_value (?del i d) j = read_snapshot_value d j" for i j d
    by (auto simp: node_set_deleted_def Let_def split: option.split)
  define d1 where "d1 = ?del a (unlink_from_parent m a sa db)"
  define d2 where "d2 = ?del b (unlink_from_parent m b sb d1)"
  have s1: "sweep_dead n m a (skipped, db) = Some (skipped, d1)"
    using v(1) assms(1) by (auto simp: sweep_dead_def d1_def Let_def split: sum.split)
  have s2: "sweep_dead n m b (skipped, d1) = Some (skipped, d2)"
    using v(2) assms(2) by (auto simp: sweep_dead_def d2_def Let_def split: sum.split)
  have "read_snapshot_value d2 b = None" unfolding d2_def by (rule gone)
  moreover have "read_snapshot_value d2 a = None"
  proof -
    have "read_snapshot_value d2 a = read_snapshot_value d1 a"
      using assms unfolding d2_def by (subst other) (auto simp: unlink_from_parent_def)
    then show ?thesis unfolding d1_def by (simp only: gone)
  qed
  moreover have "\<exists>r. read_snapshot_value d2 p = Some r \<and> sn_children r = (a, 0)"
    using assms unfolding d2_def by (subst other) (auto simp: unlink_from_parent_def)
  ultimately show ?thesis using s1 s2 by (intro exI[of _ d2]) simp
qed

text \<open>The whole of \<open>bch2_delete_dead_snapshots\<close> on a root whose two leaves have been marked deleted.\<close>

definition db_dead_leaves :: snap_db where
  "db_dead_leaves = \<lparr>snaps = [(5, Normal, new_interior 0 (3, 2) 1 1 0),
     (3, Whiteout, (new_interior 5 (0, 0) 1 2 0)\<lparr>sn_deleted := True\<rparr>),
     (2, Whiteout, (new_interior 5 (0, 0) 1 2 0)\<lparr>sn_deleted := True\<rparr>)], trees = []\<rparr>"

lemma delete_dead_leaves_link:
  "(case delete_dead_snapshots 9 (\<lambda>ds. ds) db_dead_leaves of None \<Rightarrow> False
     | Some (skipped, db) \<Rightarrow> skipped = [] \<and>
        (case read_snapshot_value db 5 of None \<Rightarrow> False | Some r \<Rightarrow> sn_children r = (3, 0)) \<and> read_snapshot_value db 3 = None)"
  by code_simp

text \<open>
  Deleting a snapshot that has already been marked deleted (the two-phase use the
  function's own comment allows) always fails: the node's entry is a whiteout by then, so the
  final marking step does not find it, and the error comes after the parent has already been
  rewritten. \<close>

theorem node_delete_after_marking_fails:
  assumes "map_of (snaps db) i = Some (Whiteout, s)" and "fst (sn_children s) = 0 \<or> snd (sn_children s) = 0"
    and "sn_parent s \<noteq> i" and "fst (sn_children s) \<noteq> i" and "snd (sn_children s) \<noteq> i"
    and "read_allow_deleted db (sn_parent s) = Some p" and "sn_parent s \<noteq> 0"
    and "sn_parent s \<notin> {fst (sn_children s), snd (sn_children s)}"
  shows "fst (node_delete i interior db) = Inl (NotFound i) \<and>
    (\<exists>q. read_snapshot_value (snd (node_delete i interior db)) (sn_parent s) = Some q \<and>
       sn_children q = replace_child i (if fst (sn_children s) \<noteq> 0 then fst (sn_children s) else snd (sn_children s))
                         (sn_children p))"
proof -
  have r: "read_allow_deleted db i = Some s" "read_snapshot_value db i = None"
    using assms(1) by (simp_all add: read_allow_deleted_def read_snapshot_value_def)
  have hidden: "read_snapshot_value d i = None \<Longrightarrow> node_set_deleted i d = Inl (NotFound i)" for d
    by (simp add: node_set_deleted_def)
  show ?thesis
    using assms(2-8) r
    by (auto simp: node_delete_def Let_def hidden split: option.splits)
qed

theorem node_delete_after_marking_fails_witness:
  "\<exists>db. node_set_deleted (- 2) db_two = Inr db \<and> fst (node_delete (- 2) False db) = Inl (NotFound (- 2))"
proof -
  let ?s = "(mark_deleted (child_node (- 1) (new_leaf 0 1 0 1 0) (- 2) 2 [0, 0, 0] 7))\<lparr>sn_flags := 0x50\<rparr>"
  let ?r = "(new_leaf 0 0 0 1 0)\<lparr>sn_children := (- 2, - 3), sn_flags := 0\<rparr>"
  obtain db where d: "node_set_deleted (- 2) db_two = Inr db" and db: "db = write_snap (- 2) Whiteout ?s db_two"
    by (simp add: node_set_deleted_def db_two_read Let_def mark_deleted_def child_node_def flags_insert_def
        SUBVOL_def WILL_DELETE_def)
  have 1: "map_of (snaps db) (- 2) = Some (Whiteout, ?s)" by (simp add: db write_snap_def)
  have 2: "read_allow_deleted db (- 1) = Some ?r"
    using read_value_allow[of db_two "- 1"] by (simp add: db db_two_read)
  show ?thesis
    using node_delete_after_marking_fails[OF 1, of ?r False] 2 d
    by (simp add: child_node_def mark_deleted_def)
qed

text \<open> C39. Garbage collection never reclaims a leaf that was created for a subvolume: marking a
  node deleted does not clear its SUBVOL flag, and the sweep treats that flag as a live volume
  reference, so the id only ever goes to the skipped list. \<close>

theorem marked_subvolume_leaf_is_never_swept:
  assumes "read_snapshot_value db i = Some s" and "has_subvol s" and "node_set_deleted i db = Inr db'"
    and "0 < n"
  shows "(\<exists>t. read_allow_deleted db' i = Some t \<and> sn_deleted t) \<and>
    sweep_dead n (read_allow_deleted db') i (skipped, d) = Some (skipped @ [i], d)"
proof -
  obtain k where n: "n = Suc k" using assms(4) gr0_conv_Suc by blast
  let ?t = "(mark_deleted s)\<lparr>sn_flags := flags_insert (sn_flags (mark_deleted s)) WILL_DELETE\<rparr>"
  have t: "read_allow_deleted db' i = Some ?t" using assms(1,3) by (auto simp: node_set_deleted_def Let_def)
  have "has_subvol ?t"
    using assms(2) by (auto simp: has_subvol_def flags_contains_def flags_insert_def mark_deleted_def
        word_ao_dist or_eq_0_iff)
  then show ?thesis using t n by (simp add: sweep_dead_def mark_deleted_def)
qed

theorem marked_subvolume_leaf_is_never_swept_witness:
  "\<exists>db'. node_set_deleted (- 2) db_two = Inr db' \<and>
     sweep_dead 9 (read_allow_deleted db') (- 2) ([], db') = Some ([- 2], db')"
proof -
  obtain db' where d: "node_set_deleted (- 2) db_two = Inr db'"
    by (simp add: node_set_deleted_def db_two_read Let_def)
  show ?thesis
    using marked_subvolume_leaf_is_never_swept[OF _ _ d, of _ 9 "[]" db'] d
    by (simp add: db_two_read child_node_def has_subvol_def flags_contains_def SUBVOL_def)
qed

end
