(* ===== verification/SnapTable.thy ===== *)
theory SnapTable
  imports SnapshotProps
begin

text \<open>
  The in-memory snapshot table of \<open>snap/table.rs\<close>: built from the Snapshots btree, indexed by
  \<open>u32::MAX - id\<close>, with ancestor queries in three stages (skip entries, bitmap, parent chain),
  the tree table, and the key check that uses it. The theorems relate its lookups and its
  ancestor query to the stored tree.
\<close>

section \<open>Construction\<close>

type_synonym snap_table = "snapshot_t list"

definition table_index :: "u32 \<Rightarrow> nat" where "table_index i = unat (- 1 - i)"

text \<open>\<open>build_bitmaps\<close> for one entry: at most \<open>k\<close> more steps up the parent chain.\<close>

fun bitmap_walk :: "snap_table \<Rightarrow> u32 \<Rightarrow> u32 \<Rightarrow> nat \<Rightarrow> u128 \<Rightarrow> u128" where
  "bitmap_walk es i cur 0 acc = acc"
| "bitmap_walk es i cur (Suc k) acc =
     (if cur = 0 then acc
      else let b = unat (cur - i - 1);
               acc' = (if b < 128 then acc OR push_bit b 1 else acc)
           in if length es \<le> table_index cur then acc'
              else bitmap_walk es i (sn_parent (es ! table_index cur)) k acc')"

definition build_bitmaps :: "snap_table \<Rightarrow> snap_table" where
  "build_bitmaps es = map (\<lambda>idx. let e = es ! idx in
     if sn_deleted e then e
     else e\<lparr>sn_is_ancestor := bitmap_walk es (- 1 - of_nat idx) (sn_parent e) 128 0\<rparr>) [0..<length es]"

text \<open>
  \<open>SnapshotTable::build\<close>. The size \<open>u32::MAX - min + 1\<close> wraps to 0 when id 0 is stored, and
  filling the entries then indexes out of range: the result \<open>None\<close>.
\<close>

definition table_build :: "snap_db \<Rightarrow> snap_table option" where
  "table_build db =
     (if snaps db = [] then Some []
      else let m = Min (fst ` set (snaps db)); size = unat (- 1 - m + 1) in
        if size \<le> table_index m then None
        else Some (build_bitmaps (map (\<lambda>idx. case read_allow_deleted db (- 1 - of_nat idx) of
                     Some s \<Rightarrow> s | None \<Rightarrow> deleted_placeholder) [0..<size])))"

definition table_get :: "snap_table \<Rightarrow> u32 \<Rightarrow> snapshot_t option" where
  "table_get t i =
     (if table_index i < length t \<and> \<not> sn_deleted (t ! table_index i) then Some (t ! table_index i) else None)"

definition table_parent :: "snap_table \<Rightarrow> u32 \<Rightarrow> u32 option" where
  "table_parent t i = (case table_get t i of
     None \<Rightarrow> None | Some s \<Rightarrow> if sn_parent s = 0 then None else Some (sn_parent s))"

partial_function (option) root_walk :: "snap_table \<Rightarrow> u32 \<Rightarrow> u32 option option" where
  "root_walk t cur = (case table_get t cur of
     None \<Rightarrow> Some None
   | Some s \<Rightarrow> if sn_parent s = 0 then Some (Some cur) else root_walk t (sn_parent s))"

definition table_root :: "snap_table \<Rightarrow> u32 \<Rightarrow> u32 option option" where
  "table_root t i = (if table_get t i = None then Some None else root_walk t i)"

definition table_children :: "snap_table \<Rightarrow> u32 \<Rightarrow> u32 \<times> u32" where
  "table_children t i = (case table_get t i of None \<Rightarrow> (0, 0) | Some s \<Rightarrow> sn_children s)"

definition table_depth :: "snap_table \<Rightarrow> u32 \<Rightarrow> u32 option" where
  "table_depth t i = map_option sn_depth (table_get t i)"

definition table_exists :: "snap_table \<Rightarrow> u32 \<Rightarrow> bool" where
  "table_exists t i \<longleftrightarrow> table_get t i \<noteq> None"

definition id_state :: "snap_table \<Rightarrow> u32 \<Rightarrow> snapshot_id_state" where
  "id_state t i = (if table_index i < length t then sn_state (t ! table_index i) else StEmpty)"

section \<open>Ancestor queries\<close>

definition get_ancestor_below :: "snap_table \<Rightarrow> u32 \<Rightarrow> u32 \<Rightarrow> u32" where
  "get_ancestor_below t i a =
     (case table_get t i of
        None \<Rightarrow> 0
      | Some s \<Rightarrow>
          if sn_skip s ! 2 \<noteq> 0 \<and> sn_skip s ! 2 \<le> a then sn_skip s ! 2
          else if sn_skip s ! 1 \<noteq> 0 \<and> sn_skip s ! 1 \<le> a then sn_skip s ! 1
          else if sn_skip s ! 0 \<noteq> 0 \<and> sn_skip s ! 0 \<le> a then sn_skip s ! 0
          else sn_parent s)"

definition test_ancestor_bitmap :: "snap_table \<Rightarrow> u32 \<Rightarrow> u32 \<Rightarrow> bool" where
  "test_ancestor_bitmap t i a =
     (let b = unat (a - i - 1) in
      if 128 \<le> b then False
      else case table_get t i of None \<Rightarrow> False | Some s \<Rightarrow> bit (sn_is_ancestor s) b)"

text \<open>Stage one; the inner \<open>None\<close> is its early \<open>return false\<close>, the outer one non-termination.\<close>

partial_function (option) skip_phase :: "snap_table \<Rightarrow> u32 \<Rightarrow> u32 \<Rightarrow> u32 option option" where
  "skip_phase t a cur =
     (if cur \<noteq> 0 \<and> cur < a - 128 then
        (let n = get_ancestor_below t cur a in if n = 0 then Some None else skip_phase t a n)
      else Some (Some cur))"

text \<open>Stage three; the inner \<open>None\<close> is its early \<open>return false\<close>.\<close>

partial_function (option) parent_phase :: "snap_table \<Rightarrow> u32 \<Rightarrow> u32 \<Rightarrow> u32 option option" where
  "parent_phase t a cur =
     (if cur \<noteq> 0 \<and> cur < a then
        (case table_get t cur of None \<Rightarrow> Some None | Some s \<Rightarrow> parent_phase t a (sn_parent s))
      else Some (Some cur))"

definition table_is_ancestor :: "snap_table \<Rightarrow> u32 \<Rightarrow> u32 \<Rightarrow> bool option" where
  "table_is_ancestor t i a =
     (if i = a then Some True
      else if a \<le> i \<or> i = 0 then Some False
      else Option.bind (if 128 \<le> a then skip_phase t a i else Some (Some i)) (\<lambda>r.
        case r of
          None \<Rightarrow> Some False
        | Some cur \<Rightarrow>
            if cur \<noteq> 0 \<and> cur < a \<and> test_ancestor_bitmap t cur a then Some True
            else Option.bind (parent_phase t a cur) (\<lambda>r2. Some (r2 = Some a))))"

section \<open>The tree table and the key check\<close>

definition tree_table_build :: "snap_db \<Rightarrow> snapshot_tree_t list" where
  "tree_table_build db =
     (let ts = filter (\<lambda>(t, _). t \<noteq> 0) (trees db) in
      if ts = [] then []
      else map (\<lambda>k. case map_of ts (of_nat k + 1) of Some v \<Rightarrow> v | None \<Rightarrow> snapshot_tree_default)
             [0..<unat (Max (fst ` set ts))])"

definition tree_table_get :: "snapshot_tree_t list \<Rightarrow> u32 \<Rightarrow> snapshot_tree_t option" where
  "tree_table_get t i =
     (if unat (i - 1) < length t \<and> i \<noteq> 0 then Some (t ! unat (i - 1)) else None)"

definition root_snapshots :: "snapshot_tree_t list \<Rightarrow> u32 list" where
  "root_snapshots t = map root_snapshot t"

definition master_subvols :: "snapshot_tree_t list \<Rightarrow> u32 list" where
  "master_subvols t = map master_subvol t"

definition fs_snapshots_init :: "snap_db \<Rightarrow> snap_db" where
  "fs_snapshots_init db = (if trees db \<noteq> [] then db else write_snapshot_tree_value 1 (snapshot_tree_new 0 0) db)"

datatype check_key_result = KeyValid | KeyShouldDelete | KeyMissing

definition check_key_has_snapshot :: "snap_table \<Rightarrow> u32 \<Rightarrow> check_key_result" where
  "check_key_has_snapshot t i =
     (if i = 0 then KeyValid
      else case id_state t i of StLive \<Rightarrow> KeyValid | StDeleted \<Rightarrow> KeyShouldDelete | StEmpty \<Rightarrow> KeyMissing)"

section \<open>Lookups\<close>

lemma table_index_of_nat [simp]: "n < 2 ^ 32 \<Longrightarrow> table_index (- 1 - of_nat n) = n"
  by (simp add: table_index_def unat_of_nat)

lemma of_table_index [simp]: "- 1 - of_nat (table_index i) = i"
  by (simp add: table_index_def)

lemma table_index_le: "table_index i \<le> table_index j \<longleftrightarrow> j \<le> i"
proof -
  have "table_index i = 2 ^ 32 - 1 - unat i" for i
    using unat32_less[of i] by (simp add: table_index_def unat_sub word_order.extremum
        unsigned_minus_1_eq_mask mask_eq_exp_minus_1)
  then show ?thesis using unat32_less[of i] unat32_less[of j] by (auto simp: word_le_nat_alt)
qed

lemma build_bitmaps_nth:
  assumes "k < length es"
  shows "sn_deleted (build_bitmaps es ! k) = sn_deleted (es ! k)" "sn_parent (build_bitmaps es ! k) = sn_parent (es ! k)"
    "sn_skip (build_bitmaps es ! k) = sn_skip (es ! k)" "sn_state (build_bitmaps es ! k) = sn_state (es ! k)"
    "sn_depth (build_bitmaps es ! k) = sn_depth (es ! k)" "sn_children (build_bitmaps es ! k) = sn_children (es ! k)"
    "\<not> sn_deleted (es ! k) \<Longrightarrow> sn_is_ancestor (build_bitmaps es ! k) =
       bitmap_walk es (- 1 - of_nat k) (sn_parent (es ! k)) 128 0"
  using assms by (simp_all add: build_bitmaps_def Let_def)

text \<open>What the built table holds at the index of an id.\<close>

lemma table_build_entry:
  assumes "table_build db = Some t"
  obtains es where "t = build_bitmaps es" "length es = length t"
    "\<And>i. table_index i < length t \<Longrightarrow>
       es ! table_index i = (case read_allow_deleted db i of Some s \<Rightarrow> s | None \<Rightarrow> deleted_placeholder)"
    "\<And>i. read_allow_deleted db i \<noteq> None \<Longrightarrow> table_index i < length t"
proof (cases "snaps db = []")
  case True
  then show thesis using assms that[of "[]"]
    by (simp add: table_build_def build_bitmaps_def read_allow_deleted_def)
next
  case False
  define m where "m = Min (fst ` set (snaps db))"
  define size where "size = unat (- 1 - m + 1)"
  let ?es = "map (\<lambda>idx. case read_allow_deleted db (- 1 - of_nat idx) of
                     Some s \<Rightarrow> s | None \<Rightarrow> deleted_placeholder) [0..<size]"
  have t: "t = build_bitmaps ?es" and sz: "table_index m < size"
    using assms False unfolding table_build_def Let_def m_def[symmetric] size_def[symmetric]
    by (simp_all split: if_splits)
  have "table_index i < size" if "read_allow_deleted db i \<noteq> None" for i
  proof -
    obtain v where "(i, v) \<in> set (snaps db)" using read_allow_Some_mem \<open>_ \<noteq> None\<close> by fastforce
    then have "m \<le> i" unfolding m_def by (intro Min_le) force+
    then show ?thesis using sz table_index_le[of i m] by simp
  qed
  then show thesis using that[of ?es] t by (simp add: build_bitmaps_def)
qed

text \<open> C33. The table answers lookups as the stored tree does: an id is found exactly when its
  stored node exists and is not deleted, with that node's parent, depth, children and skip
  entries, and the id state of every stored node is its own (an id with no node is empty). \<close>

theorem table_get_correct:
  assumes "table_build db = Some t"
  shows "table_parent t i = (case read_allow_deleted db i of
        None \<Rightarrow> None | Some s \<Rightarrow> if sn_deleted s \<or> sn_parent s = 0 then None else Some (sn_parent s)) \<and>
    (table_exists t i \<longleftrightarrow> (\<exists>s. read_allow_deleted db i = Some s \<and> \<not> sn_deleted s)) \<and>
    table_depth t i = (case read_allow_deleted db i of
        None \<Rightarrow> None | Some s \<Rightarrow> if sn_deleted s then None else Some (sn_depth s)) \<and>
    table_children t i = (case read_allow_deleted db i of
        None \<Rightarrow> (0, 0) | Some s \<Rightarrow> if sn_deleted s then (0, 0) else sn_children s) \<and>
    id_state t i = (case read_allow_deleted db i of None \<Rightarrow> StEmpty | Some s \<Rightarrow> sn_state s)"
proof -
  obtain es where es: "t = build_bitmaps es" "length es = length t"
    "\<And>i. table_index i < length t \<Longrightarrow>
       es ! table_index i = (case read_allow_deleted db i of Some s \<Rightarrow> s | None \<Rightarrow> deleted_placeholder)"
    "\<And>i. read_allow_deleted db i \<noteq> None \<Longrightarrow> table_index i < length t" using table_build_entry[OF assms] by blast
  show ?thesis
  proof (cases "table_index i < length t")
    case True
    then show ?thesis
      using es(2) es(3)[of i] build_bitmaps_nth[of "table_index i" es]
      by (auto simp: table_parent_def table_exists_def table_depth_def id_state_def table_get_def
          table_children_def es(1) deleted_placeholder_def split: option.splits)
  next
    case False
    then have "read_allow_deleted db i = None" using es(4) by blast
    then show ?thesis using False
      by (simp add: table_parent_def table_exists_def table_depth_def id_state_def table_get_def table_children_def)
  qed
qed


section \<open>The three stages\<close>

definition all_live :: "snap_db \<Rightarrow> bool" where
  "all_live db \<longleftrightarrow> (\<forall>i s. read_allow_deleted db i = Some s \<longrightarrow> \<not> sn_deleted s)"

abbreviation anc_eq :: "snap_db \<Rightarrow> u32 \<Rightarrow> u32 \<Rightarrow> bool" where
  "anc_eq db a i \<equiv> a = i \<or> ancestor db a i"

lemma stored_parent:
  assumes "snap_wf db" and "read_allow_deleted db i = Some s" and "sn_parent s \<noteq> 0"
  shows "parent_of db i = Some (sn_parent s)" "read_allow_deleted db (sn_parent s) \<noteq> None" "i < sn_parent s"
    "anc_eq db a (sn_parent s) \<longleftrightarrow> ancestor db a i"
proof -
  show p: "parent_of db i = Some (sn_parent s)" using assms(2,3) by (simp add: parent_of_def)
  show "read_allow_deleted db (sn_parent s) \<noteq> None" using node_okD(4)[OF assms] by auto
  show "i < sn_parent s" by (rule node_okD(3)[OF assms])
  show "anc_eq db a (sn_parent s) \<longleftrightarrow> ancestor db a i" using p by (subst (2) ancestor_unfold) auto
qed

lemma bitmap_walk_sound:
  assumes wf: "snap_wf db"
    and es: "\<And>j s. table_index j < length es \<Longrightarrow> read_allow_deleted db j = Some s \<Longrightarrow> sn_parent (es ! table_index j) = sn_parent s"
  shows "bit (bitmap_walk es i cur k acc) n \<Longrightarrow> read_allow_deleted db cur \<noteq> None \<or> cur = 0 \<Longrightarrow>
    bit acc n \<or> (\<exists>a. anc_eq db a cur \<and> cur \<noteq> 0 \<and> unat (a - i - 1) = n)"
proof (induction k arbitrary: cur acc)
  case (Suc k)
  show ?case
  proof (cases "cur = 0")
    case False
    then obtain s where s: "read_allow_deleted db cur = Some s" using Suc.prems(2) by auto
    define acc' where "acc' = (if unat (cur - i - 1) < 128 then acc OR push_bit (unat (cur - i - 1)) 1 else acc)"
    have acc': "bit acc' n \<Longrightarrow> bit acc n \<or> unat (cur - i - 1) = n"
      by (auto simp: acc'_def bit_or_iff bit_push_bit_iff bit_1_iff bit_exp_iff possible_bit_word split: if_splits)
    show ?thesis
    proof (cases "length es \<le> table_index cur")
      case True
      then have "bit acc' n" using Suc.prems(1) False by (simp add: Let_def acc'_def)
      then show ?thesis using acc' False by blast
    next
      case far: False
      then have par: "sn_parent (es ! table_index cur) = sn_parent s" using es s by simp
      then have step: "bit (bitmap_walk es i (sn_parent s) k acc') n"
        using Suc.prems(1) False far by (simp add: Let_def acc'_def)
      have "read_allow_deleted db (sn_parent s) \<noteq> None \<or> sn_parent s = 0"
        using stored_parent(2)[OF wf s] by blast
      from Suc.IH[OF step this] show ?thesis
        using acc' False stored_parent(4)[OF wf s] by auto
    qed
  qed (use Suc.prems(1) in simp)
qed simp

lemma get_stored:
  assumes wf: "snap_wf db" and live: "all_live db" and built: "table_build db = Some t"
  shows "table_get t i = None \<longleftrightarrow> read_allow_deleted db i = None"
  and "read_allow_deleted db i = Some s \<Longrightarrow> \<exists>e. table_get t i = Some e \<and> sn_parent e = sn_parent s \<and>
     sn_skip e = sn_skip s \<and> (\<forall>n. bit (sn_is_ancestor e) n \<longrightarrow> (\<exists>a. ancestor db a i \<and> unat (a - i - 1) = n))"
proof -
  obtain es where es: "t = build_bitmaps es" "length es = length t"
    "\<And>i. table_index i < length t \<Longrightarrow>
       es ! table_index i = (case read_allow_deleted db i of Some s \<Rightarrow> s | None \<Rightarrow> deleted_placeholder)"
    "\<And>i. read_allow_deleted db i \<noteq> None \<Longrightarrow> table_index i < length t" using table_build_entry[OF built] by blast
  show some: "\<exists>e. table_get t i = Some e \<and> sn_parent e = sn_parent s \<and>
     sn_skip e = sn_skip s \<and> (\<forall>n. bit (sn_is_ancestor e) n \<longrightarrow> (\<exists>a. ancestor db a i \<and> unat (a - i - 1) = n))"
    if s: "read_allow_deleted db i = Some s" for i s
  proof -
    have k: "table_index i < length es" "es ! table_index i = s" using es(2) es(3)[of i] es(4)[of i] s by auto
    have nd: "\<not> sn_deleted s" using live s by (auto simp: all_live_def)
    have "bit (bitmap_walk es i (sn_parent s) 128 0) n \<Longrightarrow> \<exists>a. ancestor db a i \<and> unat (a - i - 1) = n" for n
      using bitmap_walk_sound[OF wf, of es i "sn_parent s" 128 0 n] es(2,3) stored_parent(2,4)[OF wf s] by fastforce
    then show ?thesis
      using k nd es(2) build_bitmaps_nth[OF k(1)] by (auto simp: table_get_def es(1))
  qed
  show "table_get t i = None \<longleftrightarrow> read_allow_deleted db i = None"
  proof (cases "read_allow_deleted db i")
    case None
    then have "table_index i < length t \<Longrightarrow> sn_deleted (es ! table_index i)"
      using es(3)[of i] by (simp add: deleted_placeholder_def)
    then show ?thesis using None es(2) build_bitmaps_nth[of "table_index i" es] by (simp add: table_get_def es(1))
  next
    case (Some s)
    then show ?thesis using some[OF Some] by auto
  qed
qed

lemma ancestor_below_step:
  assumes wf: "snap_wf db" and live: "all_live db" and built: "table_build db = Some t"
    and "cur < a"
  shows "if get_ancestor_below t cur a = 0 then \<not> anc_eq db a cur
    else cur < get_ancestor_below t cur a \<and> (anc_eq db a (get_ancestor_below t cur a) \<longleftrightarrow> anc_eq db a cur)"
proof (cases "read_allow_deleted db cur")
  case None
  then have "parent_of db cur = None" by (simp add: parent_of_def)
  then have "\<not> ancestor db a cur" by (rule no_parent_no_ancestor)
  moreover have "table_get t cur = None" using None get_stored(1)[OF wf live built] by simp
  ultimately show ?thesis using assms(4) by (auto simp: get_ancestor_below_def)
next
  case (Some s)
  then obtain e where e: "table_get t cur = Some e" "sn_parent e = sn_parent s" "sn_skip e = sn_skip s"
    using get_stored(2)[OF wf live built Some] by blast
  have ne: "a \<noteq> cur" using assms(4) by auto
  have skip: "cur < x \<and> (anc_eq db a x \<longleftrightarrow> anc_eq db a cur)" if "x \<in> set (sn_skip s)" "x \<noteq> 0" "x \<le> a" for x
  proof -
    have x: "ancestor db x cur" by (rule node_okD(6)[OF wf Some that(1,2)])
    then show ?thesis using ancestor_less[OF x wf] ancestor_jump[OF wf x, of a] that(3) ne by (cases "x = a") auto
  qed
  have mem: "sn_skip s ! k \<in> set (sn_skip s)" if "k < 3" for k using node_okD(2)[OF wf Some] that by simp
  show ?thesis
  proof (cases "sn_parent s = 0")
    case True
    then have "parent_of db cur = None" using Some by (simp add: parent_of_def)
    then have "\<not> ancestor db x cur" for x by (rule no_parent_no_ancestor)
    then have "x = 0" if "x \<in> set (sn_skip s)" for x using node_okD(6)[OF wf Some that] by blast
    then have "sn_skip s ! 2 = 0" "sn_skip s ! 1 = 0" "sn_skip s ! 0 = 0" using mem by auto
    then show ?thesis using e True ne \<open>\<And>x. \<not> ancestor db x cur\<close> by (simp add: get_ancestor_below_def)
  next
    case False
    then show ?thesis
      using e skip[OF mem[of 2]] skip[OF mem[of 1]] skip[OF mem[of 0]] stored_parent(3,4)[OF wf Some False] ne
      by (auto simp: get_ancestor_below_def)
  qed
qed

lemma skip_phase_total:
  assumes wf: "snap_wf db" and live: "all_live db" and built: "table_build db = Some t"
    and big: "128 \<le> a"
  shows "cur \<noteq> 0 \<Longrightarrow> \<exists>r. skip_phase t a cur = Some r \<and>
    (case r of None \<Rightarrow> \<not> anc_eq db a cur | Some c \<Rightarrow> c \<noteq> 0 \<and> (anc_eq db a c \<longleftrightarrow> anc_eq db a cur))"
proof (induction "2 ^ 32 - unat cur" arbitrary: cur rule: less_induct)
  case less
  have small: "a - 128 \<le> a" using big by (simp add: word_sub_le)
  show ?case
  proof (cases "cur < a - 128")
    case True
    then have ca: "cur < a" using small by simp
    let ?n = "get_ancestor_below t cur a"
    note step = ancestor_below_step[OF wf live built ca]
    show ?thesis
    proof (cases "?n = 0")
      case True
      then show ?thesis using step less.prems \<open>cur < a - 128\<close> by (subst skip_phase.simps) simp
    next
      case False
      then have lt: "cur < ?n" and eq: "anc_eq db a ?n \<longleftrightarrow> anc_eq db a cur" using step by auto
      have "2 ^ 32 - unat ?n < 2 ^ 32 - unat cur"
        using lt unat32_less[of ?n] by (simp add: word_less_nat_alt)
      from less.hyps[OF this False] obtain r where "skip_phase t a ?n = Some r"
        "case r of None \<Rightarrow> \<not> anc_eq db a ?n | Some c \<Rightarrow> c \<noteq> 0 \<and> (anc_eq db a c \<longleftrightarrow> anc_eq db a ?n)" by blast
      moreover from this(1) have "skip_phase t a cur = Some r"
        using False less.prems \<open>cur < a - 128\<close> by (subst skip_phase.simps) simp
      ultimately show ?thesis unfolding eq by blast
    qed
  next
    case False
    then show ?thesis using less.prems by (subst skip_phase.simps) simp
  qed
qed

lemma parent_phase_total:
  assumes wf: "snap_wf db" and live: "all_live db" and built: "table_build db = Some t"
  shows "\<exists>r. parent_phase t a cur = Some r \<and> (cur \<noteq> 0 \<longrightarrow> a \<noteq> 0 \<longrightarrow> (r = Some a \<longleftrightarrow> anc_eq db a cur))"
proof (induction "2 ^ 32 - unat cur" arbitrary: cur rule: less_induct)
  case less
  show ?case
  proof (cases "cur \<noteq> 0 \<and> cur < a")
    case True
    show ?thesis
    proof (cases "read_allow_deleted db cur")
      case None
      then have "parent_of db cur = None" by (simp add: parent_of_def)
      moreover have "table_get t cur = None" using None get_stored(1)[OF wf live built] by simp
      ultimately show ?thesis
        using True no_parent_no_ancestor[of db cur a] by (subst parent_phase.simps) auto
    next
      case (Some s)
      then obtain e where e: "table_get t cur = Some e" "sn_parent e = sn_parent s"
        using get_stored(2)[OF wf live built Some] by blast
      show ?thesis
      proof (cases "sn_parent s = 0")
        case zero: True
        then have "parent_of db cur = None" using Some by (simp add: parent_of_def)
        moreover have "parent_phase t a 0 = Some (Some 0)" by (subst parent_phase.simps) simp
        ultimately show ?thesis
          using True e zero no_parent_no_ancestor[of db cur a] by (subst parent_phase.simps) auto
      next
        case False
        note st = stored_parent[OF wf Some False]
        have "2 ^ 32 - unat (sn_parent s) < 2 ^ 32 - unat cur"
          using st(3) unat32_less[of "sn_parent s"] by (simp add: word_less_nat_alt)
        from less.hyps[OF this] show ?thesis
          using True e False st(4)[of a] by (subst parent_phase.simps) auto
      qed
    qed
  next
    case False
    have "\<not> ancestor db a cur" if "a \<le> cur" using that ancestor_less[OF _ wf] by fastforce
    then show ?thesis using False by (subst parent_phase.simps) (auto simp: not_less)
  qed
qed

lemma bitmap_test_sound:
  assumes wf: "snap_wf db" and live: "all_live db" and built: "table_build db = Some t"
    and test: "test_ancestor_bitmap t cur a"
  shows "ancestor db a cur"
proof -
  from test obtain e where e: "table_get t cur = Some e" "bit (sn_is_ancestor e) (unat (a - cur - 1))"
    by (auto simp: test_ancestor_bitmap_def Let_def split: if_splits option.splits)
  then obtain s where "read_allow_deleted db cur = Some s" using get_stored(1)[OF wf live built, of cur] by auto
  from get_stored(2)[OF wf live built this] e obtain b where b: "ancestor db b cur" "unat (b - cur - 1) = unat (a - cur - 1)" by auto
  then have "b - cur - 1 = a - cur - 1" by (simp add: word_unat_eq_iff)
  then have "b = a" by simp
  then show ?thesis using b(1) by simp
qed

text \<open> C19. On a well-formed tree without deleted nodes, the table's three-stage ancestor query
  always ends and answers exactly whether one id is the other or lies on its parent chain, so
  it agrees with the query on the stored tree. \<close>

theorem table_is_ancestor_correct:
  assumes "snap_wf db" and "all_live db" and "table_build db = Some t"
  shows "table_is_ancestor t i a = Some (a = i \<or> ancestor db a i) \<and>
    table_is_ancestor t i a = is_ancestor_btree db i a"
proof -
  note sp = skip_phase_total[OF assms] and pp = parent_phase_total[OF assms]
    and bt = bitmap_test_sound[OF assms]
  have main: "table_is_ancestor t i a = Some (anc_eq db a i)"
  proof (cases "i = a \<or> a \<le> i \<or> i = 0")
    case True
    have "is_ancestor_from_btree db a i = Some (anc_eq db a i)" by (rule is_ancestor_walk_total[OF assms(1)])
    then show ?thesis using True by (auto simp: table_is_ancestor_def is_ancestor_from_btree_def)
  next
    case False
    have a0: "a \<noteq> 0" using False by auto
    have "\<exists>r. (if 128 \<le> a then skip_phase t a i else Some (Some i)) = Some r \<and>
      (case r of None \<Rightarrow> \<not> anc_eq db a i | Some c \<Rightarrow> c \<noteq> 0 \<and> (anc_eq db a c \<longleftrightarrow> anc_eq db a i))"
      using sp[of a i] False by (cases "128 \<le> a") auto
    then obtain r where r: "(if 128 \<le> a then skip_phase t a i else Some (Some i)) = Some r"
      "case r of None \<Rightarrow> \<not> anc_eq db a i | Some c \<Rightarrow> c \<noteq> 0 \<and> (anc_eq db a c \<longleftrightarrow> anc_eq db a i)" by blast
    show ?thesis
    proof (cases r)
      case None
      then show ?thesis using False r by (simp add: table_is_ancestor_def)
    next
      case (Some c)
      then have c: "c \<noteq> 0" "anc_eq db a c \<longleftrightarrow> anc_eq db a i" using r(2) by auto
      obtain q where q: "parent_phase t a c = Some q" "q = Some a \<longleftrightarrow> anc_eq db a c" using pp[of a c] c(1) a0 by blast
      show ?thesis
        using False r(1) Some c q bt[of c a] by (auto simp: table_is_ancestor_def)
    qed
  qed
  then show ?thesis
    using is_ancestor_walk_total[OF assms(1), of a i]
    by (auto simp: is_ancestor_btree_def is_ancestor_from_btree_def)
qed


section \<open>A concrete table\<close>

lemma db_two_snaps:
  "snaps db_two = [(- 1, Normal, (new_leaf 0 0 0 1 0)\<lparr>sn_children := (- 2, - 3), sn_flags := 0\<rparr>),
     (- 2, Normal, child_node (- 1) (new_leaf 0 1 0 1 0) (- 2) 2 [0, 0, 0] 7),
     (- 3, Normal, child_node (- 1) (new_leaf 0 1 0 1 0) (- 3) 1 [0, 0, 0] 7)]"
proof -
  have lt: "(- 2 :: u32) < - 1" "\<not> (- 1 :: u32) < - 2" "\<not> (- 1 :: u32) < - 3" "\<not> (- 2 :: u32) < - 3"
    by (simp_all add: word_less_nat_alt unsigned_minus_1_eq_mask mask_eq_exp_minus_1)
  show ?thesis
    by (simp add: db_two_writes write_snap_def db_root_eq lt) (simp add: new_leaf_def flags_remove_def SUBVOL_def)
qed

definition table_two :: snap_table where "table_two = the (table_build db_two)"

lemma table_two_build: "table_build db_two = Some table_two"
proof -
  have "Min {- 1, - 2, - 3 :: u32} = - 3"
    by (intro Min_eqI) (auto simp: word_le_nat_alt unsigned_minus_1_eq_mask mask_eq_exp_minus_1)
  then have "table_build db_two \<noteq> None"
    by (simp add: table_build_def db_two_snaps Let_def table_index_def)
  then show ?thesis by (auto simp: table_two_def)
qed

lemma db_two_live: "all_live db_two"
  by (auto simp: all_live_def read_allow_deleted_def db_two_snaps new_leaf_def child_node_def split: if_splits)

theorem table_get_correct_witness: "table_parent table_two (- 3) = Some (- 1)"
  using table_get_correct[OF table_two_build, of "- 3"]
  by (simp add: read_allow_deleted_def db_two_snaps child_node_def)

theorem table_is_ancestor_correct_witness:
  "table_is_ancestor table_two (- 2) (- 3) = is_ancestor_btree db_two (- 2) (- 3)"
  using table_is_ancestor_correct[OF db_two_wf db_two_live table_two_build] by blast

end
