(* ===== verification/JournalRes.thy ===== *)
theory JournalRes
  imports Prelude
begin

text \<open>
  The journal's reservation word (\<open>journal/types.rs\<close>, \<open>JournalResState\<close>): one \<open>u64\<close> that
  packs how many words of the open entry are taken (bits 0 to 21), which of the four buffers
  is open (bits 22 and 23) and how many reservations each buffer still has to see returned
  (four fields of 10 bits). Every method is one compare-exchange loop or one fetch-and-sub in
  the code, so it is one function on the word here. The second part follows the word through
  interleavings of reservations, returns, closes and opens.
\<close>

unbundle bit_operations_syntax

subsection \<open>Bit fields of a word\<close>

definition get_field :: "nat \<Rightarrow> nat \<Rightarrow> 'a::len word \<Rightarrow> 'a word" where
  "get_field sh n v = drop_bit sh v AND mask n"

definition put_field :: "nat \<Rightarrow> nat \<Rightarrow> 'a::len word \<Rightarrow> 'a word \<Rightarrow> 'a word" where
  "put_field sh n x v = (v AND NOT (push_bit sh (mask n))) OR push_bit sh (x AND mask n)"

lemma get_put_same [simp]:
  fixes v x :: "'a::len word"
  shows "sh + n \<le> LENGTH('a) \<Longrightarrow> get_field sh n (put_field sh n x v) = x AND mask n"
  unfolding get_field_def put_field_def
  by (rule bit_eqI) (auto simp: bit_simps)

lemma get_put_other:
  "sh' + n' \<le> sh \<or> sh + n \<le> sh' \<Longrightarrow> get_field sh' n' (put_field sh n x v) = get_field sh' n' v"
  unfolding get_field_def put_field_def
  by (rule bit_eqI) (auto simp: bit_simps dest: bit_imp_le_length)

lemma unat_get_field:
  "unat (get_field sh n v) = (unat v div 2 ^ sh) mod 2 ^ n"
  unfolding get_field_def
  by (simp only: flip: take_bit_eq_mask)
    (simp add: unsigned_take_bit_eq unat_drop_bit_eq take_bit_nat_def drop_bit_nat_def)

lemma unat_get_field_less: "unat (get_field sh n v) < 2 ^ n"
  by (simp add: unat_get_field)

lemma put_field_split:
  fixes v :: "'a::len word"
  shows "v = (v AND NOT (push_bit sh (mask n))) + push_bit sh (get_field sh n v)"
proof -
  have "v = (v AND NOT (push_bit sh (mask n))) OR push_bit sh (get_field sh n v)"
    unfolding get_field_def by (rule bit_eqI) (auto simp: bit_simps)
  moreover have "(v AND NOT (push_bit sh (mask n))) AND push_bit sh (get_field sh n v) = 0"
    unfolding get_field_def by (rule bit_eqI) (auto simp: bit_simps)
  ultimately show ?thesis
    by (simp add: disjunctive_add_eq_or)
qed

text \<open>Taking one off a field that is not zero leaves every other bit alone.\<close>

lemma sub_one_put_field:
  fixes v :: "'a::len word"
  assumes "get_field sh n v \<noteq> 0"
  shows "v - push_bit sh 1 = put_field sh n (get_field sh n v - 1) v"
proof -
  let ?c = "get_field sh n v" and ?r = "v AND NOT (push_bit sh (mask n))"
  have less: "unat (?c - 1) < 2 ^ n"
    using unat_get_field_less[of sh n v] assms by (simp add: unat_minus_one)
  then have msk: "(?c - 1) AND mask n = ?c - 1"
    by (metis take_bit_eq_mask take_bit_nat_eq_self unsigned_take_bit_eq word_unat_eq_iff)
  have "v - push_bit sh 1 = ?r + (push_bit sh ?c - push_bit sh 1)"
    using put_field_split[of v sh n] by (metis add_diff_eq)
  also have "push_bit sh ?c - push_bit sh 1 = push_bit sh (?c - 1)"
    by (simp add: push_bit_eq_mult algebra_simps)
  also have "?r + push_bit sh (?c - 1) = ?r OR push_bit sh ((?c - 1) AND mask n)"
  proof -
    have "?r AND push_bit sh ((?c - 1) AND mask n) = 0"
      by (rule bit_eqI) (auto simp: bit_simps)
    then show ?thesis
      using msk by (simp add: disjunctive_add_eq_or)
  qed
  finally show ?thesis
    by (simp add: put_field_def)
qed

subsection \<open>Layout\<close>

definition BUF_SIZE :: nat where "BUF_SIZE = 32768"

definition BUF_SIZE_U64S :: u32 where "BUF_SIZE_U64S = 4096"

definition JOURNAL_STATE_BUF_NR :: nat where "JOURNAL_STATE_BUF_NR = 4"

definition CUR_ENTRY_OFFSET_MASK :: u64 where "CUR_ENTRY_OFFSET_MASK = push_bit 22 1 - 1"

definition IDX_MASK :: u64 where "IDX_MASK = push_bit 2 1 - 1"

definition BUF_COUNT_MAX :: u64 where "BUF_COUNT_MAX = push_bit 10 1 - 1"

definition JOURNAL_ENTRY_CLOSED_VAL :: u64 where
  "JOURNAL_ENTRY_CLOSED_VAL = CUR_ENTRY_OFFSET_MASK - 1"

definition count_shift :: "u32 \<Rightarrow> nat" where
  "count_shift i = 22 + 2 + unat i * 10"

definition cur_entry_offset :: "u64 \<Rightarrow> u32" where
  "cur_entry_offset v = ucast (v AND CUR_ENTRY_OFFSET_MASK)"

definition res_idx :: "u64 \<Rightarrow> u32" where
  "res_idx v = ucast (drop_bit 22 v AND IDX_MASK)"

definition buf_count :: "u64 \<Rightarrow> u32 \<Rightarrow> u32" where
  "buf_count v i = ucast (drop_bit (count_shift i) v AND BUF_COUNT_MAX)"

subsection \<open>Operations on the word\<close>

definition res_state_new :: u64 where
  "res_state_new = JOURNAL_ENTRY_CLOSED_VAL"

definition try_reserve :: "u64 \<Rightarrow> u32 \<Rightarrow> (u64 \<times> u64) option" where
  "try_reserve old req =
     (let cur_off = cur_entry_offset old; i = res_idx old in
      if (ucast cur_off :: u64) + ucast req > ucast BUF_SIZE_U64S then None
      else
        let shift = count_shift i;
            count = drop_bit shift old AND BUF_COUNT_MAX in
        if count = BUF_COUNT_MAX then None
        else
          let n1 = (old AND NOT CUR_ENTRY_OFFSET_MASK)
                     OR ((ucast cur_off + ucast req) AND CUR_ENTRY_OFFSET_MASK);
              n2 = (n1 AND NOT (push_bit shift BUF_COUNT_MAX))
                     OR push_bit shift ((count + 1) AND BUF_COUNT_MAX)
          in Some (old, n2))"

definition release :: "u64 \<Rightarrow> u32 \<Rightarrow> u64 \<times> u64" where
  "release old i = (old, old - push_bit (count_shift i) 1)"

definition close_entry :: "u64 \<Rightarrow> u32 \<times> u64" where
  "close_entry old =
     (cur_entry_offset old, (old AND NOT CUR_ENTRY_OFFSET_MASK) OR JOURNAL_ENTRY_CLOSED_VAL)"

definition open_entry :: "u64 \<Rightarrow> u32 \<Rightarrow> u64" where
  "open_entry old new_idx =
     (let n1 = old AND NOT (push_bit 22 IDX_MASK);
          n2 = n1 OR push_bit 22 (ucast new_idx);
          n3 = n2 AND NOT CUR_ENTRY_OFFSET_MASK
      in n3 AND NOT (push_bit (count_shift new_idx) BUF_COUNT_MAX))"

definition align_idx_to_seq :: "u64 \<Rightarrow> u64 \<Rightarrow> u64" where
  "align_idx_to_seq old sq =
     (let desired = (sq - 1) AND (of_nat JOURNAL_STATE_BUF_NR - 1) in
      (old AND NOT (push_bit 22 IDX_MASK)) OR push_bit 22 desired)"

definition res_is_closed :: "u64 \<Rightarrow> bool" where
  "res_is_closed v \<longleftrightarrow> (ucast (cur_entry_offset v) :: u64) \<ge> JOURNAL_ENTRY_CLOSED_VAL"

subsection \<open>The operations field by field\<close>

lemma masks [simp]:
  "CUR_ENTRY_OFFSET_MASK = mask 22" "IDX_MASK = mask 2" "BUF_COUNT_MAX = mask 10"
  by (simp_all add: CUR_ENTRY_OFFSET_MASK_def IDX_MASK_def BUF_COUNT_MAX_def mask_eq_decr_exp)

lemma closed_val_numeral: "JOURNAL_ENTRY_CLOSED_VAL = 4194302"
  unfolding JOURNAL_ENTRY_CLOSED_VAL_def CUR_ENTRY_OFFSET_MASK_def by simp

lemma unat_closed_val [simp]: "unat JOURNAL_ENTRY_CLOSED_VAL = 4194302"
  by (simp add: closed_val_numeral)

lemma field_reads:
  "cur_entry_offset v = ucast (get_field 0 22 v)"
  "res_idx v = ucast (get_field 22 2 v)"
  "buf_count v i = ucast (get_field (count_shift i) 10 v)"
  by (simp_all add: cur_entry_offset_def res_idx_def buf_count_def get_field_def)

lemma count_shift_le: "i < 4 \<Longrightarrow> count_shift i + 10 \<le> 64"
  by (simp add: count_shift_def word_less_nat_alt)

lemma count_shift_apart:
  "i \<noteq> j \<Longrightarrow> count_shift i + 10 \<le> count_shift j \<or> count_shift j + 10 \<le> count_shift i"
  by (auto simp: count_shift_def word_unat_eq_iff)

lemma count_shift_ge: "24 \<le> count_shift i"
  by (simp add: count_shift_def)

lemma unat_field_reads:
  "unat (cur_entry_offset v) = unat (get_field 0 22 v)"
  "unat (res_idx v) = unat (get_field 22 2 v)"
  "unat (buf_count v i) = unat (get_field (count_shift i) 10 v)"
  using unat_get_field_less[of 0 22 v] unat_get_field_less[of 22 2 v]
    unat_get_field_less[of "count_shift i" 10 v]
  by (simp_all add: field_reads unsigned_ucast_eq take_bit_nat_eq_self)

lemma res_idx_less: "res_idx v < 4"
  using unat_get_field_less[of 22 2 v] by (simp add: word_less_nat_alt unat_field_reads)

lemma field_bounds:
  "unat (cur_entry_offset v) < 4194304" "unat (buf_count v i) < 1024"
  using unat_get_field_less[of 0 22 v] unat_get_field_less[of "count_shift i" 10 v]
  by (simp_all add: unat_field_reads)

lemma try_reserve_eq:
  "try_reserve old req =
     (if unat (cur_entry_offset old) + unat req > 4096 \<or> unat (buf_count old (res_idx old)) = 1023
      then None
      else Some (old, put_field (count_shift (res_idx old)) 10
                        (get_field (count_shift (res_idx old)) 10 old + 1)
                        (put_field 0 22 (ucast (cur_entry_offset old) + ucast req) old)))"
proof -
  have a: "(ucast (cur_entry_offset old) :: u64) + ucast req > ucast BUF_SIZE_U64S
      \<longleftrightarrow> unat (cur_entry_offset old) + unat req > 4096"
    using field_bounds(1)[of old] unat32_less[of req]
    by (simp add: word_less_nat_alt unat_word_ariths BUF_SIZE_U64S_def unsigned_ucast_eq take_bit_nat_eq_self)
  have b: "drop_bit (count_shift (res_idx old)) old AND BUF_COUNT_MAX = BUF_COUNT_MAX
      \<longleftrightarrow> unat (buf_count old (res_idx old)) = 1023"
    by (simp add: unat_field_reads get_field_def word_unat_eq_iff mask_eq_decr_exp)
  show ?thesis
    unfolding try_reserve_def Let_def a b
    by (simp add: put_field_def get_field_def)
qed

lemma unat_and_mask: "unat (x AND mask n) = unat x mod 2 ^ n"
  by (simp flip: take_bit_eq_mask add: unsigned_take_bit_eq take_bit_nat_def)

lemma close_entry_eq: "close_entry old = (cur_entry_offset old, put_field 0 22 JOURNAL_ENTRY_CLOSED_VAL old)"
proof -
  have "JOURNAL_ENTRY_CLOSED_VAL AND mask 22 = JOURNAL_ENTRY_CLOSED_VAL"
    by (simp add: word_unat_eq_iff unat_and_mask)
  then show ?thesis
    by (simp add: close_entry_def put_field_def)
qed

lemma open_entry_eq:
  assumes "i < 4"
  shows "open_entry old i = put_field (count_shift i) 10 0 (put_field 0 22 0 (put_field 22 2 (ucast i) old))"
proof -
  have "(ucast i :: u64) AND mask 2 = ucast i"
    using assms by (simp add: word_unat_eq_iff unat_and_mask word_less_nat_alt unsigned_ucast_eq take_bit_nat_eq_self)
  then show ?thesis
    by (simp add: open_entry_def put_field_def)
qed

lemma align_idx_to_seq_eq: "align_idx_to_seq old sq = put_field 22 2 (sq - 1) old"
proof -
  have "(of_nat JOURNAL_STATE_BUF_NR - 1 :: u64) = mask 2"
    by (simp add: JOURNAL_STATE_BUF_NR_def mask_eq_decr_exp)
  then show ?thesis
    by (simp add: align_idx_to_seq_def put_field_def Let_def)
qed

text \<open>A reservation takes the next words of the open entry and counts one more for its buffer.\<close>

lemma try_reserve_fields:
  assumes "try_reserve v n = Some (w, v')"
  shows "w = v" "unat (cur_entry_offset v) + unat n \<le> 4096" "unat (buf_count v (res_idx v)) < 1023"
    "unat (cur_entry_offset v') = unat (cur_entry_offset v) + unat n"
    "res_idx v' = res_idx v"
    "unat (buf_count v' (res_idx v)) = Suc (unat (buf_count v (res_idx v)))"
    "i < 4 \<Longrightarrow> i \<noteq> res_idx v \<Longrightarrow> buf_count v' i = buf_count v i"
proof -
  let ?s = "count_shift (res_idx v)"
  let ?p = "put_field 0 22 (ucast (cur_entry_offset v) + ucast n) v"
  note s = count_shift_le[OF res_idx_less, of v] count_shift_ge[of "res_idx v"]
  show "w = v" and le: "unat (cur_entry_offset v) + unat n \<le> 4096" and c: "unat (buf_count v (res_idx v)) < 1023"
    using assms field_bounds(2)[of v "res_idx v"] by (auto simp: try_reserve_eq split: if_splits)
  have v': "v' = put_field ?s 10 (get_field ?s 10 v + 1) ?p"
    using assms by (auto simp: try_reserve_eq split: if_splits)
  have u: "unat ((ucast (cur_entry_offset v) :: u64) + ucast n) = unat (cur_entry_offset v) + unat n"
    using le by (simp add: unat_word_ariths unsigned_ucast_eq take_bit_nat_eq_self)
  show "unat (cur_entry_offset v') = unat (cur_entry_offset v) + unat n"
    using s le by (simp add: unat_field_reads v' get_put_other unat_and_mask u)
  show "res_idx v' = res_idx v"
    using s by (simp add: field_reads v' get_put_other)
  have "unat (get_field ?s 10 v) < 1023"
    using c by (simp add: unat_field_reads)
  then show "unat (buf_count v' (res_idx v)) = Suc (unat (buf_count v (res_idx v)))"
    using s by (simp add: unat_field_reads v' get_put_other unat_and_mask unat_word_ariths)
  show "buf_count v' i = buf_count v i" if "i < 4" "i \<noteq> res_idx v"
    using count_shift_apart[OF that(2)] count_shift_ge[of i] by (simp add: field_reads v' get_put_other)
qed

text \<open>A return counts one less for its buffer and changes nothing else.\<close>

lemma release_fields:
  assumes "i < 4" and "buf_count v i \<noteq> 0"
  shows "fst (release v i) = v"
    "cur_entry_offset (snd (release v i)) = cur_entry_offset v"
    "res_idx (snd (release v i)) = res_idx v"
    "Suc (unat (buf_count (snd (release v i)) i)) = unat (buf_count v i)"
    "j < 4 \<Longrightarrow> j \<noteq> i \<Longrightarrow> buf_count (snd (release v i)) j = buf_count v j"
proof -
  let ?s = "count_shift i"
  note s = count_shift_le[OF assms(1)] count_shift_ge[of i]
  have nz: "get_field ?s 10 v \<noteq> 0"
    using assms(2) by (auto simp: field_reads)
  have eq: "snd (release v i) = put_field ?s 10 (get_field ?s 10 v - 1) v"
    unfolding release_def using sub_one_put_field[OF nz] by simp
  show "fst (release v i) = v"
    by (simp add: release_def)
  show "cur_entry_offset (snd (release v i)) = cur_entry_offset v" "res_idx (snd (release v i)) = res_idx v"
    using s by (simp_all add: field_reads eq get_put_other)
  have "unat (get_field ?s 10 v - 1) = unat (get_field ?s 10 v) - 1" "unat (get_field ?s 10 v) \<noteq> 0"
    using nz by (simp_all add: unat_minus_one unat_eq_0)
  moreover have "unat (get_field ?s 10 v) < 1024"
    using unat_get_field_less[of ?s 10 v] by simp
  ultimately show "Suc (unat (buf_count (snd (release v i)) i)) = unat (buf_count v i)"
    using s by (simp add: unat_field_reads eq unat_and_mask)
  show "buf_count (snd (release v i)) j = buf_count v j" if "j < 4" "j \<noteq> i"
    using count_shift_apart[OF that(2)] by (simp add: field_reads eq get_put_other)
qed

lemma close_entry_fields:
  "fst (close_entry v) = cur_entry_offset v"
  "unat (cur_entry_offset (snd (close_entry v))) = 4194302"
  "res_idx (snd (close_entry v)) = res_idx v"
  "j < 4 \<Longrightarrow> buf_count (snd (close_entry v)) j = buf_count v j"
  using count_shift_ge[of j]
  by (simp_all add: close_entry_eq unat_field_reads unat_and_mask)
    (simp_all add: field_reads get_put_other)

lemma open_entry_fields:
  assumes "i < 4"
  shows "cur_entry_offset (open_entry v i) = 0" "res_idx (open_entry v i) = i"
    "buf_count (open_entry v i) i = 0"
    "j < 4 \<Longrightarrow> j \<noteq> i \<Longrightarrow> buf_count (open_entry v i) j = buf_count v j"
proof -
  note s = count_shift_le[OF assms] count_shift_ge[of i]
  show "cur_entry_offset (open_entry v i) = 0"
    using s by (simp add: open_entry_eq[OF assms] field_reads get_put_other)
  show "res_idx (open_entry v i) = i"
    using s assms by (simp add: open_entry_eq[OF assms] word_unat_eq_iff unat_field_reads get_put_other
        unat_and_mask word_less_nat_alt unsigned_ucast_eq take_bit_nat_eq_self)
  show "buf_count (open_entry v i) i = 0"
    using s by (simp add: open_entry_eq[OF assms] field_reads)
  show "buf_count (open_entry v i) j = buf_count v j" if "j < 4" "j \<noteq> i"
    using count_shift_apart[OF that(2)] count_shift_ge[of j]
    by (simp add: open_entry_eq[OF assms] field_reads get_put_other)
qed

lemma align_fields:
  "cur_entry_offset (align_idx_to_seq v q) = cur_entry_offset v"
  "unat (res_idx (align_idx_to_seq v q)) = unat (q - 1) mod 4"
  "j < 4 \<Longrightarrow> buf_count (align_idx_to_seq v q) j = buf_count v j"
  using count_shift_ge[of j]
  by (simp_all add: align_idx_to_seq_eq unat_field_reads unat_and_mask)
    (simp_all add: field_reads get_put_other)

lemma closed_rejects: "unat (cur_entry_offset v) = 4194302 \<Longrightarrow> try_reserve v n = None"
  by (simp add: try_reserve_eq)

lemma res_is_closed_iff: "res_is_closed v \<longleftrightarrow> 4194302 \<le> unat (cur_entry_offset v)"
  using field_bounds(1)[of v]
  by (simp add: res_is_closed_def word_le_nat_alt unsigned_ucast_eq take_bit_nat_eq_self)

lemma res_state_new_fields:
  "unat (cur_entry_offset res_state_new) = 4194302" "res_idx res_state_new = 0"
  "buf_count res_state_new 0 = 0" "buf_count res_state_new 1 = 0"
  "buf_count res_state_new 2 = 0" "buf_count res_state_new 3 = 0"
  by (simp_all add: res_state_new_def closed_val_numeral cur_entry_offset_def res_idx_def buf_count_def
      count_shift_def mask_eq_decr_exp word_unat_eq_iff unat_drop_bit_eq)

subsection \<open>Interleaved reservations, returns, closes and opens\<close>

text \<open>
  A ticket records what a successful reservation was given: the entry it belongs to (entries
  are numbered in the order they are opened), the buffer, the first word and the number of
  words. \<open>rr_live\<close> holds the tickets not yet returned, newest first. A buffer is reopened only
  when its tickets are back, which is what the drain before a write waits for.
\<close>

record ticket =
  tk_gen :: nat
  tk_idx :: u32
  tk_off :: nat
  tk_len :: nat

record res_run =
  rr_word :: u64
  rr_gen :: nat
  rr_live :: "ticket list"

definition ticket_of :: "u64 \<Rightarrow> nat \<Rightarrow> u32 \<Rightarrow> ticket" where
  "ticket_of w g n = \<lparr>tk_gen = g, tk_idx = res_idx w, tk_off = unat (cur_entry_offset w), tk_len = unat n\<rparr>"

inductive res_step :: "res_run \<Rightarrow> res_run \<Rightarrow> bool" where
  reserve: "try_reserve (rr_word s) n = Some (w, w') \<Longrightarrow>
     res_step s (s\<lparr>rr_word := w', rr_live := ticket_of w (rr_gen s) n # rr_live s\<rparr>)"
| put: "t \<in> set (rr_live s) \<Longrightarrow>
     res_step s (s\<lparr>rr_word := snd (release (rr_word s) (tk_idx t)), rr_live := remove1 t (rr_live s)\<rparr>)"
| close: "res_step s (s\<lparr>rr_word := snd (close_entry (rr_word s))\<rparr>)"
| opens: "i < 4 \<Longrightarrow> buf_count (rr_word s) i = 0 \<Longrightarrow> res_is_closed (rr_word s) \<Longrightarrow>
     res_step s (s\<lparr>rr_word := open_entry (rr_word s) i, rr_gen := Suc (rr_gen s)\<rparr>)"

inductive res_reachable :: "res_run \<Rightarrow> bool" where
  start: "res_reachable \<lparr>rr_word = res_state_new, rr_gen = 0, rr_live = []\<rparr>"
| step: "res_reachable s \<Longrightarrow> res_step s s' \<Longrightarrow> res_reachable s'"

inductive_cases res_stepE: "res_step s s'"

definition on_buf :: "u32 \<Rightarrow> ticket list \<Rightarrow> nat" where
  "on_buf i ts = length (filter (\<lambda>t. tk_idx t = i) ts)"

definition tk_before :: "ticket \<Rightarrow> ticket \<Rightarrow> bool" where
  "tk_before new old \<longleftrightarrow> tk_idx new = tk_idx old \<longrightarrow>
     tk_gen new = tk_gen old \<and> tk_off old + tk_len old \<le> tk_off new"

definition res_inv :: "res_run \<Rightarrow> bool" where
  "res_inv s \<longleftrightarrow>
     (\<forall>i<4. unat (buf_count (rr_word s) i) = on_buf i (rr_live s)) \<and>
     sorted_wrt tk_before (rr_live s) \<and>
     (\<forall>t \<in> set (rr_live s). tk_idx t < 4 \<and> tk_off t + tk_len t \<le> 4096 \<and>
        (tk_idx t = res_idx (rr_word s) \<longrightarrow>
           tk_gen t = rr_gen s \<and> tk_off t + tk_len t \<le> unat (cur_entry_offset (rr_word s))))"

lemma res_invD:
  assumes "res_inv s"
  shows "i < 4 \<Longrightarrow> unat (buf_count (rr_word s) i) = on_buf i (rr_live s)"
    "sorted_wrt tk_before (rr_live s)"
    "t \<in> set (rr_live s) \<Longrightarrow> tk_idx t < 4"
    "t \<in> set (rr_live s) \<Longrightarrow> tk_off t + tk_len t \<le> 4096"
    "t \<in> set (rr_live s) \<Longrightarrow> tk_idx t = res_idx (rr_word s) \<Longrightarrow>
       tk_gen t = rr_gen s \<and> tk_off t + tk_len t \<le> unat (cur_entry_offset (rr_word s))"
  using assms unfolding res_inv_def by blast+

lemma on_buf_simps [simp]:
  "on_buf i [] = 0" "on_buf i (t # ts) = (if tk_idx t = i then Suc (on_buf i ts) else on_buf i ts)"
  by (simp_all add: on_buf_def)

lemma on_buf_remove1:
  "t \<in> set ts \<Longrightarrow> on_buf i ts = on_buf i (remove1 t ts) + (if tk_idx t = i then 1 else 0)"
  by (induction ts) auto

lemma on_buf_0_iff: "on_buf i ts = 0 \<longleftrightarrow> (\<forall>t \<in> set ts. tk_idx t \<noteq> i)"
  by (induction ts) auto

lemma sorted_wrt_remove1: "sorted_wrt P xs \<Longrightarrow> sorted_wrt P (remove1 x xs)"
  by (induction xs) (auto dest: notin_set_remove1 set_remove1_subset[THEN subsetD])

lemma res_inv_start: "res_inv \<lparr>rr_word = res_state_new, rr_gen = 0, rr_live = []\<rparr>"
proof -
  have "i = 0 \<or> i = 1 \<or> i = 2 \<or> i = 3" if "i < 4" for i :: u32
  proof -
    have "unat i = 0 \<or> unat i = 1 \<or> unat i = 2 \<or> unat i = 3"
      using that by (simp add: word_less_nat_alt) linarith
    then show ?thesis
      by (auto simp: word_unat_eq_iff)
  qed
  then have "unat (buf_count res_state_new i) = 0" if "i < 4" for i
    using that res_state_new_fields(3-6) by (metis unat_0)
  then show ?thesis
    by (simp add: res_inv_def)
qed

lemma res_inv_reserve:
  assumes inv: "res_inv s" and tr: "try_reserve (rr_word s) n = Some (w, w')"
  shows "res_inv (s\<lparr>rr_word := w', rr_live := ticket_of w (rr_gen s) n # rr_live s\<rparr>)"
proof -
  note f = try_reserve_fields[OF tr]
  let ?t = "ticket_of (rr_word s) (rr_gen s) n"
  have t: "tk_idx ?t = res_idx (rr_word s)" "tk_gen ?t = rr_gen s"
    "tk_off ?t = unat (cur_entry_offset (rr_word s))" "tk_len ?t = unat n"
    by (simp_all add: ticket_of_def)
  have cnt: "unat (buf_count w' i) = on_buf i (?t # rr_live s)" if "i < 4" for i
    using f(6,7) res_invD(1)[OF inv that] res_invD(1)[OF inv res_idx_less] that
    by (cases "i = res_idx (rr_word s)") (auto simp: t)
  have srt: "sorted_wrt tk_before (?t # rr_live s)"
    using res_invD(2,5)[OF inv] by (auto simp: tk_before_def t)
  have "tk_idx u < 4 \<and> tk_off u + tk_len u \<le> 4096 \<and>
      (tk_idx u = res_idx w' \<longrightarrow> tk_gen u = rr_gen s \<and> tk_off u + tk_len u \<le> unat (cur_entry_offset w'))"
    if "u \<in> set (?t # rr_live s)" for u
  proof (cases "u = ?t")
    case True
    then show ?thesis
      using f(2,4) by (simp add: t res_idx_less)
  next
    case False
    then have u: "u \<in> set (rr_live s)"
      using that by simp
    show ?thesis
      using res_invD(3,4)[OF inv u] res_invD(5)[OF inv u] f(4,5) by auto
  qed
  then show ?thesis
    using cnt srt f(1) by (simp add: res_inv_def)
qed

lemma res_inv_put:
  assumes inv: "res_inv s" and t: "t \<in> set (rr_live s)"
  shows "res_inv (s\<lparr>rr_word := snd (release (rr_word s) (tk_idx t)), rr_live := remove1 t (rr_live s)\<rparr>)"
proof -
  have i4: "tk_idx t < 4"
    using res_invD(3)[OF inv t] .
  have "on_buf (tk_idx t) (rr_live s) \<noteq> 0"
    using t by (auto simp: on_buf_0_iff)
  then have nz: "buf_count (rr_word s) (tk_idx t) \<noteq> 0"
    using res_invD(1)[OF inv i4] by (metis unat_0)
  note f = release_fields[OF i4 nz]
  have cnt: "unat (buf_count (snd (release (rr_word s) (tk_idx t))) i) = on_buf i (remove1 t (rr_live s))"
    if "i < 4" for i
    using f(4,5) res_invD(1)[OF inv that] on_buf_remove1[OF t, of i] that
    by (cases "i = tk_idx t") auto
  have sub: "u \<in> set (rr_live s)" if "u \<in> set (remove1 t (rr_live s))" for u
    using that set_remove1_subset[of t "rr_live s"] by blast
  show ?thesis
    using cnt sorted_wrt_remove1[OF res_invD(2)[OF inv]] res_invD(3-5)[OF inv sub] f(2,3)
    by (simp add: res_inv_def)
qed

lemma res_inv_close:
  assumes inv: "res_inv s"
  shows "res_inv (s\<lparr>rr_word := snd (close_entry (rr_word s))\<rparr>)"
proof -
  have "tk_off t + tk_len t \<le> 4194302" if "t \<in> set (rr_live s)" for t
    using res_invD(4)[OF inv that] by simp
  then show ?thesis
    using inv by (auto simp: res_inv_def close_entry_fields)
qed

lemma res_inv_open:
  assumes inv: "res_inv s" and i: "i < 4" and z: "buf_count (rr_word s) i = 0"
  shows "res_inv (s\<lparr>rr_word := open_entry (rr_word s) i, rr_gen := Suc (rr_gen s)\<rparr>)"
proof -
  note f = open_entry_fields[OF i]
  have "on_buf i (rr_live s) = 0"
    using res_invD(1)[OF inv i] z by simp
  then have no: "tk_idx t \<noteq> i" if "t \<in> set (rr_live s)" for t
    using that by (simp add: on_buf_0_iff)
  have cnt: "unat (buf_count (open_entry (rr_word s) i) j) = on_buf j (rr_live s)" if "j < 4" for j
    using f(3,4) res_invD(1)[OF inv that] that z by (cases "j = i") auto
  show ?thesis
    using cnt no res_invD(2-4)[OF inv] f(2) by (auto simp: res_inv_def)
qed

lemma res_inv_step: "res_step s s' \<Longrightarrow> res_inv s \<Longrightarrow> res_inv s'"
  by (erule res_stepE) (simp_all add: res_inv_reserve res_inv_put res_inv_close res_inv_open)

lemma res_reachable_inv: "res_reachable s \<Longrightarrow> res_inv s"
  by (induction rule: res_reachable.induct) (auto intro: res_inv_start res_inv_step)

subsection \<open>Properties\<close>

text \<open> C5. In every interleaving of reservations, returns, closes and drained opens, two
  reservations that are out at the same time on the same buffer belong to the same entry and
  occupy disjoint word ranges inside the buffer's 4096 words: writers never overlap.\<close>
theorem reservations_disjoint:
  assumes "res_reachable s" and "p < q" and "q < length (rr_live s)"
    and "tk_idx (rr_live s ! p) = tk_idx (rr_live s ! q)"
  shows "tk_gen (rr_live s ! p) = tk_gen (rr_live s ! q) \<and>
    tk_off (rr_live s ! q) + tk_len (rr_live s ! q) \<le> tk_off (rr_live s ! p) \<and>
    tk_off (rr_live s ! p) + tk_len (rr_live s ! p) \<le> 4096"
proof -
  have inv: "res_inv s"
    using res_reachable_inv[OF assms(1)] .
  have "tk_before (rr_live s ! p) (rr_live s ! q)"
    using res_invD(2)[OF inv] assms(2,3) by (simp add: sorted_wrt_iff_nth_less)
  then show ?thesis
    using assms res_invD(4)[OF inv, of "rr_live s ! p"] by (simp add: tk_before_def)
qed

text \<open>
  In the same interleavings each buffer's 10-bit count is the number of its
  reservations not yet returned, so the four fields never run into each other and a count of
  zero, which is what a flush waits for, means that no writer is left on that buffer.\<close>
theorem drain_count_exact:
  assumes "res_reachable s" and "i < 4"
  shows "unat (buf_count (rr_word s) i) = length (filter (\<lambda>t. tk_idx t = i) (rr_live s)) \<and>
    (buf_count (rr_word s) i = 0 \<longleftrightarrow> (\<forall>t \<in> set (rr_live s). tk_idx t \<noteq> i))"
proof -
  have c: "unat (buf_count (rr_word s) i) = on_buf i (rr_live s)"
    using res_invD(1)[OF res_reachable_inv[OF assms(1)] assms(2)] .
  have "buf_count (rr_word s) i = 0 \<longleftrightarrow> on_buf i (rr_live s) = 0"
    unfolding c[symmetric] by (simp add: unat_eq_0)
  then show ?thesis
    using c on_buf_0_iff[of i "rr_live s"] by (simp add: on_buf_def)
qed

definition two_out :: res_run where
  "two_out = \<lparr>rr_word = 34363932680, rr_gen = 1,
     rr_live = [\<lparr>tk_gen = 1, tk_idx = 1, tk_off = 3, tk_len = 5\<rparr>, \<lparr>tk_gen = 1, tk_idx = 1, tk_off = 0, tk_len = 3\<rparr>]\<rparr>"

lemma two_out_reachable: "res_reachable two_out"
proof -
  let ?s0 = "\<lparr>rr_word = res_state_new, rr_gen = 0, rr_live = []\<rparr>"
  let ?s1 = "\<lparr>rr_word = 4194304, rr_gen = 1, rr_live = []\<rparr>"
  let ?s2 = "\<lparr>rr_word = 17184063491, rr_gen = 1, rr_live = [\<lparr>tk_gen = 1, tk_idx = 1, tk_off = 0, tk_len = 3\<rparr>]\<rparr>"
  have n: "res_state_new = 4194302"
    by (simp add: res_state_new_def closed_val_numeral)
  have o: "open_entry res_state_new 1 = 4194304"
    unfolding n by code_simp
  have "res_step ?s0 ?s1"
    using res_step.opens[of 1 ?s0] o by (simp add: res_state_new_fields res_is_closed_iff)
  moreover have "res_step ?s1 ?s2"
  proof -
    have "try_reserve 4194304 3 = Some (4194304, 17184063491)" "ticket_of 4194304 1 3 = \<lparr>tk_gen = 1, tk_idx = 1, tk_off = 0, tk_len = 3\<rparr>"
      by code_simp+
    then show ?thesis
      using res_step.reserve[of ?s1 3 4194304 17184063491] by simp
  qed
  moreover have "res_step ?s2 two_out"
  proof -
    have "try_reserve 17184063491 5 = Some (17184063491, 34363932680)" "ticket_of 17184063491 1 5 = \<lparr>tk_gen = 1, tk_idx = 1, tk_off = 3, tk_len = 5\<rparr>"
      by code_simp+
    then show ?thesis
      using res_step.reserve[of ?s2 5 17184063491 34363932680] by (simp add: two_out_def)
  qed
  ultimately show ?thesis
    using res_reachable.start res_reachable.step by blast
qed

theorem reservations_disjoint_witness:
  "tk_off (rr_live two_out ! 1) + tk_len (rr_live two_out ! 1) \<le> tk_off (rr_live two_out ! 0)"
  using reservations_disjoint[OF two_out_reachable, of 0 1] by (simp add: two_out_def)

theorem drain_count_exact_witness:
  "unat (buf_count (rr_word two_out) 1) = 2"
  using drain_count_exact[OF two_out_reachable, of 1] by (simp add: two_out_def)

subsection \<open>Reopening a buffer that still has a writer\<close>

lemma add_into_zero_field:
  fixes v :: "'a::len word"
  assumes "get_field sh n v = 0"
  shows "v + push_bit sh (x AND mask n) = put_field sh n x v"
proof -
  have v: "v = v AND NOT (push_bit sh (mask n))"
    using put_field_split[of v sh n] assms by simp
  have "v AND push_bit sh (x AND mask n) = 0"
    by (subst v, rule bit_eqI) (auto simp: bit_simps)
  then have "v + push_bit sh (x AND mask n) = v OR push_bit sh (x AND mask n)"
    by (simp add: disjunctive_add_eq_or)
  then show ?thesis
    using v by (simp add: put_field_def)
qed

text \<open>
  Nothing in \<open>open_entry\<close> or its caller checks the drain: it clears the count of the buffer
  it opens. A reservation made on the buffer before and returned after then takes one from a
  zero count; the subtraction borrows, the buffer's count becomes 1023, which makes the fast
  path refuse every reservation on it, and the next buffer's count loses a writer.\<close>
theorem stale_return_borrows:
  assumes "i < 3" and "buf_count v i = 0" and "buf_count v (i + 1) \<noteq> 0"
  shows "let v' = snd (release v i) in
    unat (buf_count v' i) = 1023 \<and> Suc (unat (buf_count v' (i + 1))) = unat (buf_count v (i + 1)) \<and>
    (res_idx v' = i \<longrightarrow> try_reserve v' n = None)"
proof -
  let ?s = "count_shift i"
  have u: "unat (i + 1) = Suc (unat i)" "i < 4" "i + 1 < 4" "i \<noteq> i + 1"
    using assms(1) by (simp_all add: word_less_nat_alt unat_word_ariths)
  have sh: "count_shift (i + 1) = ?s + 10"
    using u(1) by (simp add: count_shift_def)
  let ?w = "snd (release v (i + 1))"
  note f = release_fields[OF u(3) assms(3)]
  have z: "get_field ?s 10 ?w = 0"
  proof -
    have "buf_count ?w i = 0"
      using f(5)[OF u(2,4)] assms(2) by simp
    then show ?thesis
      by (metis unat_field_reads(3) unat_0 unat_eq_0)
  qed
  have m: "(1023 :: u64) AND mask 10 = 1023"
    by (simp add: mask_eq_decr_exp)
  have "snd (release v i) = ?w + push_bit ?s 1023"
    unfolding release_def sh by (simp add: push_bit_eq_mult power_add)
  also have "\<dots> = put_field ?s 10 1023 ?w"
    using add_into_zero_field[OF z, of 1023] by (simp only: m)
  finally have eq: "snd (release v i) = put_field ?s 10 1023 ?w" .
  have c: "unat (buf_count (snd (release v i)) i) = 1023"
    using count_shift_le[OF u(2)] by (simp add: eq unat_field_reads m)
  have "buf_count (snd (release v i)) (i + 1) = buf_count ?w (i + 1)"
    by (simp add: eq field_reads sh get_put_other)
  then show ?thesis
    using c f(4) by (simp add: try_reserve_eq Let_def)
qed

theorem stale_return_borrows_witness:
  "try_reserve (snd (release 17592190238720 1)) 4 = None"
proof -
  have "buf_count 17592190238720 1 = 0" "buf_count 17592190238720 (1 + 1) \<noteq> 0"
    "res_idx (snd (release 17592190238720 1)) = 1"
    by code_simp+
  then show ?thesis
    using stale_return_borrows[of 1 17592190238720 4] by (simp add: Let_def)
qed

end
