(* ===== verification/PinList.thy ===== *)
theory PinList
  imports Prelude
begin

text \<open>
  The intrusive lists that hold journal pins (\<open>journal/reclaim.rs\<close>, \<open>Link\<close>,
  \<open>LinkedListHead\<close>, \<open>LinkedListIter\<close>). A pin is an address; the links of all pins are one
  heap with a \<open>prev\<close> and a \<open>next\<close> field per address, where \<open>None\<close> is the null pointer. A list is
  a sentinel whose links close the ring, plus a counter that some removals do not maintain.
  The locale \<open>deque_contract\<close> states what the pin code relies on, over the list of addresses
  in the ring, and is interpreted on the code's pointer operations.
\<close>

subsection \<open>Links\<close>

type_synonym pin = nat

record links =
  l_prev :: "pin \<Rightarrow> pin option"
  l_next :: "pin \<Rightarrow> pin option"

definition write_prev :: "pin \<Rightarrow> pin option \<Rightarrow> links \<Rightarrow> links" where
  "write_prev p v h = h\<lparr>l_prev := (l_prev h)(p := v)\<rparr>"

definition write_next :: "pin \<Rightarrow> pin option \<Rightarrow> links \<Rightarrow> links" where
  "write_next p v h = h\<lparr>l_next := (l_next h)(p := v)\<rparr>"

definition link_remove :: "pin \<Rightarrow> links \<Rightarrow> links" where
  "link_remove p h =
     (let prv = l_prev h p; nxt = l_next h p;
          h1 = (case prv of None \<Rightarrow> h | Some q \<Rightarrow> write_next q nxt h);
          h2 = (case nxt of None \<Rightarrow> h1 | Some q \<Rightarrow> write_prev q prv h1)
      in write_next p None (write_prev p None h2))"

definition insert_after :: "pin \<Rightarrow> pin \<Rightarrow> links \<Rightarrow> links" where
  "insert_after p pos h =
     (let nxt = l_next h pos;
          h1 = write_next pos (Some p) (write_next p nxt (write_prev p (Some pos) h))
      in case nxt of None \<Rightarrow> h1 | Some q \<Rightarrow> write_prev q (Some p) h1)"

definition append_to_tail :: "pin \<Rightarrow> pin \<Rightarrow> links \<Rightarrow> links" where
  "append_to_tail p tail h =
     (let prv = l_prev h tail;
          h1 = write_prev tail (Some p) (write_next p (Some tail) (write_prev p prv h))
      in case prv of None \<Rightarrow> h1 | Some q \<Rightarrow> write_next q (Some p) h1)"

definition is_linked :: "pin \<Rightarrow> links \<Rightarrow> bool" where
  "is_linked p h \<longleftrightarrow> l_prev h p \<noteq> None \<or> l_next h p \<noteq> None"

subsection \<open>List heads\<close>

record list_head =
  lh_sentinel :: pin
  lh_count :: nat

definition list_new :: "pin \<Rightarrow> links \<Rightarrow> list_head \<times> links" where
  "list_new s h = (\<lparr>lh_sentinel = s, lh_count = 0\<rparr>, write_next s (Some s) (write_prev s (Some s) h))"

definition list_is_empty :: "list_head \<Rightarrow> links \<Rightarrow> bool" where
  "list_is_empty l h \<longleftrightarrow> l_next h (lh_sentinel l) = Some (lh_sentinel l)"

definition list_push_back :: "pin \<Rightarrow> list_head \<times> links \<Rightarrow> list_head \<times> links" where
  "list_push_back p = (\<lambda>(l, h). (l\<lparr>lh_count := Suc (lh_count l)\<rparr>, append_to_tail p (lh_sentinel l) h))"

text \<open>\<open>None\<close>: the count would go below zero (a panic in a debug build, a wrap-around in a release
  build), or a null pointer would be followed.\<close>

definition list_pop_front :: "list_head \<times> links \<Rightarrow> (pin option \<times> list_head \<times> links) option" where
  "list_pop_front = (\<lambda>(l, h).
     if list_is_empty l h then Some (None, l, h)
     else case l_next h (lh_sentinel l) of
       None \<Rightarrow> None
     | Some p \<Rightarrow> if lh_count l = 0 then None
                else Some (Some p, l\<lparr>lh_count := lh_count l - 1\<rparr>, link_remove p h))"

definition list_remove_pin :: "pin \<Rightarrow> list_head \<times> links \<Rightarrow> (list_head \<times> links) option" where
  "list_remove_pin p = (\<lambda>(l, h).
     if lh_count l = 0 then None else Some (l\<lparr>lh_count := lh_count l - 1\<rparr>, link_remove p h))"

definition list_front :: "list_head \<Rightarrow> links \<Rightarrow> pin option" where
  "list_front l h = (if list_is_empty l h then None else l_next h (lh_sentinel l))"

fun iter_next :: "nat \<Rightarrow> pin \<Rightarrow> pin option \<Rightarrow> links \<Rightarrow> pin list" where
  "iter_next 0 hp cur h = []"
| "iter_next (Suc n) hp None h = []"
| "iter_next (Suc n) hp (Some c) h = (if c = hp then [] else c # iter_next n hp (l_next h c) h)"

definition list_iter :: "list_head \<Rightarrow> links \<Rightarrow> pin list" where
  "list_iter l h = iter_next (lh_count l) (lh_sentinel l) (l_next h (lh_sentinel l)) h"

subsection \<open>Rings\<close>

fun linked :: "links \<Rightarrow> pin \<Rightarrow> pin list \<Rightarrow> pin \<Rightarrow> bool" where
  "linked h a [] b \<longleftrightarrow> l_next h a = Some b \<and> l_prev h b = Some a"
| "linked h a (x # xs) b \<longleftrightarrow> l_next h a = Some x \<and> l_prev h x = Some a \<and> linked h x xs b"

definition ring :: "links \<Rightarrow> pin \<Rightarrow> pin list \<Rightarrow> bool" where
  "ring h s xs \<longleftrightarrow> linked h s xs s \<and> distinct (s # xs)"

lemma write_simps [simp]:
  "l_prev (write_prev p v h) = (l_prev h)(p := v)" "l_next (write_prev p v h) = l_next h"
  "l_next (write_next p v h) = (l_next h)(p := v)" "l_prev (write_next p v h) = l_prev h"
  by (simp_all add: write_prev_def write_next_def)

lemma linked_append: "linked h a (us @ y # vs) b \<longleftrightarrow> linked h a us y \<and> linked h y vs b"
  by (induction us arbitrary: a) auto

lemma linked_cong:
  assumes "\<And>x. x \<in> set (a # xs) \<Longrightarrow> l_next h' x = l_next h x"
    and "\<And>x. x \<in> set (xs @ [b]) \<Longrightarrow> l_prev h' x = l_prev h x"
  shows "linked h' a xs b = linked h a xs b"
  using assms by (induction xs arbitrary: a) auto

lemma linked_ends:
  "linked h a xs b \<Longrightarrow> l_next h a = Some (hd (xs @ [b]))"
  "linked h a xs b \<Longrightarrow> l_prev h b = Some (last (a # xs))"
  by (induction xs arbitrary: a) auto

lemma remove_fields:
  assumes "l_prev h y = Some p" and "l_next h y = Some n"
  shows "l_next (link_remove y h) = (l_next h)(p := Some n, y := None)"
    "l_prev (link_remove y h) = (l_prev h)(n := Some p, y := None)"
  using assms by (simp_all add: link_remove_def Let_def)

lemma linked_remove:
  assumes "linked h a (us @ y # vs) b" and "distinct (a # us @ y # vs)" and "b \<notin> set (us @ y # vs)"
  shows "linked (link_remove y h) a (us @ vs) b"
proof -
  have l: "linked h a us y" "linked h y vs b"
    using assms(1) by (simp_all add: linked_append)
  let ?p = "last (a # us)" and ?n = "hd (vs @ [b])"
  note f = remove_fields[OF linked_ends(2)[OF l(1)] linked_ends(1)[OF l(2)]]
  have "linked (link_remove y h) a (us' @ vs) b"
    if "linked h a us' y" "distinct (a # us' @ y # vs)" "b \<notin> set (us' @ y # vs)" "last (a # us') = ?p" for a us'
    using that
  proof (induction us' arbitrary: a)
    case Nil
    then have a: "a = ?p" "l_next h a = Some y" "l_prev h y = Some a" "a \<noteq> y"
      by simp_all
    show ?case
    proof (cases vs)
      case Nil
      then show ?thesis
        using a Nil.prems(3) by (simp add: f)
    next
      case (Cons x xs)
      have "linked (link_remove y h) x xs b = linked h x xs b"
        using Cons Nil.prems(2,3) a(1) by (intro linked_cong) (auto simp: f)
      then show ?thesis
        using Cons a l(2) Nil.prems(2,3) by (auto simp: f)
    qed
  next
    case (Cons u us')
    have ih: "linked (link_remove y h) u (us' @ vs) b"
      using Cons.prems by (intro Cons.IH) auto
    have "a \<noteq> ?p"
      using Cons.prems(2,4) by (metis distinct.simps(2) append_Cons in_set_conv_decomp last_in_set list.discI last_ConsR set_append Un_iff)
    moreover have "u \<noteq> ?n"
      using Cons.prems(2,3) by (cases vs) auto
    ultimately show ?case
      using ih Cons.prems by (auto simp: f)
  qed
  then show ?thesis
    using l(1) assms(2,3) by blast
qed

lemma ring_remove:
  assumes "ring h s (us @ y # vs)"
  shows "ring (link_remove y h) s (us @ vs)"
  using assms linked_remove[of h s us y vs s] by (auto simp: ring_def)

lemma linked_retarget:
  assumes "linked h a xs b" "distinct (a # xs)"
    and "\<And>x. x \<in> set (a # xs) \<Longrightarrow> x \<noteq> last (a # xs) \<Longrightarrow> l_next h' x = l_next h x"
    and "\<And>x. x \<in> set xs \<Longrightarrow> l_prev h' x = l_prev h x"
    and "l_next h' (last (a # xs)) = Some c" "l_prev h' c = Some (last (a # xs))"
  shows "linked h' a xs c"
  using assms
proof (induction xs arbitrary: a)
  case (Cons x xs)
  have "a \<noteq> last (a # x # xs)"
    using Cons.prems(2) by auto
  moreover have "linked h' x xs c"
    using Cons.prems by (intro Cons.IH) auto
  ultimately show ?case
    using Cons.prems by simp
qed simp

lemma append_fields:
  assumes "l_prev h t = Some q" and "p \<noteq> t"
  shows "l_next (append_to_tail p t h) = (l_next h)(p := Some t, q := Some p)"
    "l_prev (append_to_tail p t h) = (l_prev h)(p := Some q, t := Some p)"
  using assms by (simp_all add: append_to_tail_def Let_def)

lemma ring_append:
  assumes r: "ring h s xs" and p: "p \<notin> set (s # xs)"
  shows "ring (append_to_tail p s h) s (xs @ [p])"
proof -
  have l: "linked h s xs s" "distinct (s # xs)"
    using r by (simp_all add: ring_def)
  let ?q = "last (s # xs)"
  have q: "l_prev h s = Some ?q" "?q \<in> set (s # xs)" "?q \<noteq> p"
    using linked_ends(2)[OF l(1)] p by (auto simp: last_in_set split: if_splits)
  have ps: "p \<noteq> s"
    using p by auto
  note f = append_fields[OF q(1) ps]
  have "linked (append_to_tail p s h) s xs p"
    by (rule linked_retarget[OF l]) (use p q(3) l(2) in \<open>auto simp: f\<close>)
  moreover have "l_next (append_to_tail p s h) p = Some s" "l_prev (append_to_tail p s h) s = Some p"
    using q(3) by (simp_all add: f)
  ultimately show ?thesis
    using l(2) p by (auto simp: ring_def linked_append)
qed

text \<open>Operations on one ring leave a disjoint ring alone.\<close>

lemma ring_remove_frame:
  assumes "ring h s (us @ y # vs)" and "ring h t ys" and "set (s # us @ y # vs) \<inter> set (t # ys) = {}"
  shows "ring (link_remove y h) t ys"
proof -
  have l: "linked h s us y" "linked h y vs s"
    using assms(1) by (simp_all add: ring_def linked_append)
  note f = remove_fields[OF linked_ends(2)[OF l(1)] linked_ends(1)[OF l(2)]]
  have "last (s # us) \<in> set (s # us)" "hd (vs @ [s]) \<in> set (s # vs)"
    by (simp_all add: last_in_set) (cases vs; simp)+
  then have "linked (link_remove y h) t ys t = linked h t ys t"
    using assms(3) by (intro linked_cong) (auto simp: f)
  then show ?thesis
    using assms(2) by (simp add: ring_def)
qed

lemma ring_append_frame:
  assumes "ring h s xs" and "ring h t ys" and "set (p # s # xs) \<inter> set (t # ys) = {}" and "p \<noteq> s"
  shows "ring (append_to_tail p s h) t ys"
proof -
  have q: "l_prev h s = Some (last (s # xs))"
    using assms(1) linked_ends(2) by (simp add: ring_def)
  note f = append_fields[OF q assms(4)]
  have "last (s # xs) \<in> set (s # xs)"
    by (simp add: last_in_set)
  then have "linked (append_to_tail p s h) t ys t = linked h t ys t"
    using assms(3) by (intro linked_cong) (auto simp: f)
  then show ?thesis
    using assms(2) by (simp add: ring_def)
qed

lemma ring_next: "ring h s xs \<Longrightarrow> l_next h s = Some (hd (xs @ [s]))"
  by (simp add: ring_def linked_ends)

lemma ring_empty_iff: "ring h s xs \<Longrightarrow> l_next h s = Some s \<longleftrightarrow> xs = []"
  using ring_next[of h s xs] by (cases xs) (auto simp: ring_def)

lemma iter_next_linked:
  "linked h a xs b \<Longrightarrow> b \<notin> set xs \<Longrightarrow> length xs \<le> n \<Longrightarrow> iter_next n b (l_next h a) h = xs"
proof (induction xs arbitrary: a n)
  case Nil
  then show ?case
    by (cases n) simp_all
next
  case (Cons x xs)
  then obtain m where "n = Suc m"
    by (cases n) simp_all
  then show ?case
    using Cons by auto
qed

subsection \<open>The list as the pin code uses it\<close>

text \<open>
  \<open>list_holds l h xs\<close>: the head \<open>l\<close> rings exactly the pins \<open>xs\<close>, and its counter is at least
  their number. It may be more: \<open>journal_pin_drop_locked\<close> unlinks a pin without a list head.
\<close>

definition list_holds :: "list_head \<times> links \<Rightarrow> pin list \<Rightarrow> bool" where
  "list_holds = (\<lambda>(l, h) xs. ring h (lh_sentinel l) xs \<and> length xs \<le> lh_count l)"

definition list_fresh :: "list_head \<times> links \<Rightarrow> pin \<Rightarrow> bool" where
  "list_fresh = (\<lambda>(l, h) p. p \<noteq> lh_sentinel l)"

locale deque_contract =
  fixes holds :: "'s \<Rightarrow> 'p list \<Rightarrow> bool"
    and fresh :: "'s \<Rightarrow> 'p \<Rightarrow> bool"
    and push :: "'p \<Rightarrow> 's \<Rightarrow> 's"
    and pop :: "'s \<Rightarrow> ('p option \<times> 's) option"
    and unlink :: "'p \<Rightarrow> 's \<Rightarrow> 's"
    and elems :: "'s \<Rightarrow> 'p list"
  assumes holds_push: "holds s xs \<Longrightarrow> fresh s p \<Longrightarrow> p \<notin> set xs \<Longrightarrow> holds (push p s) (xs @ [p])"
    and fresh_push: "fresh (push p s) q = fresh s q"
    and pop_empty: "holds s [] \<Longrightarrow> pop s = Some (None, s)"
    and pop_Cons: "holds s (x # xs) \<Longrightarrow> \<exists>s'. pop s = Some (Some x, s') \<and> holds s' xs"
    and holds_unlink: "holds s xs \<Longrightarrow> x \<in> set xs \<Longrightarrow> holds (unlink x s) (remove1 x xs)"
    and holds_elems: "holds s xs \<Longrightarrow> elems s = xs"
begin

lemma fold_push:
  "holds s xs \<Longrightarrow> \<forall>p \<in> set ps. fresh s p \<Longrightarrow> distinct (xs @ ps) \<Longrightarrow> holds (fold push ps s) (xs @ ps)"
proof (induction ps arbitrary: s xs)
  case (Cons p ps)
  have "holds (push p s) (xs @ [p])"
    using Cons.prems by (intro holds_push) auto
  then have "holds (fold push ps (push p s)) ((xs @ [p]) @ ps)"
    using Cons.prems by (intro Cons.IH) (auto simp: fresh_push)
  then show ?case
    by simp
qed simp

lemma elems_after:
  assumes "holds s []" and "\<forall>p \<in> set ps. fresh s p" and "distinct ps" and "x \<in> set ps"
  shows "elems (unlink x (fold push ps s)) = remove1 x ps"
  using fold_push[OF assms(1,2)] assms(3,4) holds_unlink holds_elems by fastforce

end

interpretation pl: deque_contract list_holds list_fresh list_push_back list_pop_front
    "\<lambda>p (l, h). (l, link_remove p h)" "\<lambda>(l, h). list_iter l h"
proof unfold_locales
  fix s :: "list_head \<times> links" and xs p q
  obtain l h where s: "s = (l, h)"
    by (cases s)
  show "list_fresh (list_push_back p s) q = list_fresh s q"
    by (simp add: s list_fresh_def list_push_back_def)
  show "list_holds (list_push_back p s) (xs @ [p])" if "list_holds s xs" "list_fresh s p" "p \<notin> set xs"
    using that ring_append by (auto simp: s list_holds_def list_fresh_def list_push_back_def)
  show "list_pop_front s = Some (None, s)" if "list_holds s []"
    using that ring_empty_iff[of h "lh_sentinel l" "[]"]
    by (auto simp: s list_holds_def list_pop_front_def list_is_empty_def)
  show "\<exists>s'. list_pop_front s = Some (Some x, s') \<and> list_holds s' xs" if "list_holds s (x # xs)" for x
    using that ring_empty_iff[of h "lh_sentinel l" "x # xs"] ring_next[of h "lh_sentinel l" "x # xs"]
      ring_remove[of h "lh_sentinel l" "[]" x xs]
    by (auto simp: s list_holds_def list_pop_front_def list_is_empty_def)
  show "list_holds (case s of (l, h) \<Rightarrow> (l, link_remove x h)) (remove1 x xs)" if hs: "list_holds s xs" and x: "x \<in> set xs" for x
  proof -
    obtain us vs where "xs = us @ x # vs" "x \<notin> set us"
      using split_list_first[OF x] by blast
    then show ?thesis
      using hs ring_remove[of h "lh_sentinel l" us x vs] by (auto simp: s list_holds_def remove1_append)
  qed
  show "(case s of (l, h) \<Rightarrow> list_iter l h) = xs" if "list_holds s xs"
    using that iter_next_linked by (auto simp: s list_holds_def list_iter_def ring_def)
qed

text \<open>
  Whatever distinct pins are appended to a new list and whichever of them is then dropped
  through its own links alone, the list walks exactly the remaining pins in order of arrival,
  although the dropping did not correct the list's counter.\<close>
theorem pin_list_order:
  assumes "distinct (s # ps)" and "x \<in> set ps"
  shows "let (l, h) = fold list_push_back ps (list_new s h0) in
    list_iter l (link_remove x h) = remove1 x ps \<and> lh_count l = length ps"
proof -
  have new: "list_holds (list_new s h0) []" and fr: "\<forall>p \<in> set ps. list_fresh (list_new s h0) p"
    using assms(1) by (auto simp: list_new_def list_holds_def list_fresh_def ring_def)
  have "lh_count (fst (fold list_push_back ps z)) = lh_count (fst z) + length ps" for z
    by (induction ps arbitrary: z) (auto simp: list_push_back_def split: prod.splits)
  then have "lh_count (fst (fold list_push_back ps (list_new s h0))) = length ps"
    by (simp add: list_new_def)
  then show ?thesis
    using pl.elems_after[OF new fr _ assms(2)] assms(1) by (auto split: prod.splits)
qed

theorem pin_list_order_witness:
  "let (l, h) = fold list_push_back [4, 7, 9] (list_new 1 \<lparr>l_prev = \<lambda>_. None, l_next = \<lambda>_. None\<rparr>) in
    list_iter l (link_remove 7 h) = [4, 9] \<and> lh_count l = 3"
  using pin_list_order[of 1 "[4, 7, 9]" 7 "\<lparr>l_prev = \<lambda>_. None, l_next = \<lambda>_. None\<rparr>"]
  by (simp add: Let_def split: prod.splits)

end
