(* ===== verification/JournalPin.thy ===== *)
theory JournalPin
  imports PinList
begin

text \<open>
  Journal pins (\<open>journal/reclaim.rs\<close>): which journal sequence numbers are still needed by a
  dirty btree node or cached key. One pin list per open or unreclaimed sequence number sits in
  a ring of 128 slots (\<open>PinListFifo\<close>); a pin holds one count on the list it is bound to, and
  the oldest lists whose count is zero are dropped, which advances \<open>last_seq_ondisk\<close>.

  The six lists of a pin list by type, and its flushed list, are the pin addresses their rings
  hold, in order; PinList shows that the pointer code keeps that order. Linking a pin that is
  still linked would corrupt two rings in the code; here it is \<open>None\<close>, as are the panics.
  The code's retry loops re-read under the pin list's lock and fall through in one pass when
  no other thread interferes, which is how they appear here. The fields \<open>devs\<close> and \<open>bytes\<close> of a
  pin list are never read and are left out.
\<close>

subsection \<open>Pin types and pin lists\<close>

datatype pin_type = Btree3 | Btree2 | Btree1 | Btree0 | KeyCache | Other

definition JOURNAL_PIN_FLUSH_ORDER :: "pin_type list" where
  "JOURNAL_PIN_FLUSH_ORDER = [Other, KeyCache, Btree0, Btree1, Btree2, Btree3]"

definition btree_level_pin_type :: "u8 \<Rightarrow> pin_type" where
  "btree_level_pin_type level =
     (if level = 0 then Btree0 else if level = 1 then Btree1 else if level = 2 then Btree2 else Btree3)"

record pin_list =
  pl_count :: u32
  pl_unflushed :: "pin_type \<Rightarrow> pin list"
  pl_flushed :: "pin list"
  pl_unreplayed :: bool

definition pin_list_new :: "u32 \<Rightarrow> pin_list" where
  "pin_list_new c = \<lparr>pl_count = c, pl_unflushed = \<lambda>_. [], pl_flushed = [], pl_unreplayed = False\<rparr>"

subsection \<open>The ring of pin lists\<close>

definition PIN_FIFO_SIZE :: nat where "PIN_FIFO_SIZE = 128"

record pin_fifo =
  pf_entries :: "pin_list option list"
  pf_head :: nat
  pf_tail :: nat

definition pf_new :: pin_fifo where
  "pf_new = \<lparr>pf_entries = replicate PIN_FIFO_SIZE None, pf_head = 0, pf_tail = 0\<rparr>"

definition pf_len :: "pin_fifo \<Rightarrow> nat" where
  "pf_len f = (if pf_head f \<le> pf_tail f then pf_tail f - pf_head f
     else PIN_FIFO_SIZE - pf_head f + pf_tail f)"

definition pf_is_empty :: "pin_fifo \<Rightarrow> bool" where
  "pf_is_empty f \<longleftrightarrow> pf_head f = pf_tail f"

definition pf_is_full :: "pin_fifo \<Rightarrow> bool" where
  "pf_is_full f \<longleftrightarrow> (pf_tail f + 1) mod PIN_FIFO_SIZE = pf_head f"

definition pf_front :: "pin_fifo \<Rightarrow> pin_list option" where
  "pf_front f = (if pf_is_empty f then None else pf_entries f ! pf_head f)"

text \<open>\<open>None\<close> is the \<open>Err\<close> of a full ring.\<close>

definition pf_push_back :: "pin_list \<Rightarrow> pin_fifo \<Rightarrow> pin_fifo option" where
  "pf_push_back l f =
     (if pf_is_full f then None
      else Some (f\<lparr>pf_entries := (pf_entries f)[pf_tail f := Some l],
                   pf_tail := (pf_tail f + 1) mod PIN_FIFO_SIZE\<rparr>))"

definition pf_pop_front :: "pin_fifo \<Rightarrow> pin_list option \<times> pin_fifo" where
  "pf_pop_front f =
     (if pf_is_empty f then (None, f)
      else (pf_entries f ! pf_head f,
            f\<lparr>pf_entries := (pf_entries f)[pf_head f := None],
              pf_head := (pf_head f + 1) mod PIN_FIFO_SIZE\<rparr>))"

definition pf_in_range :: "nat \<Rightarrow> pin_fifo \<Rightarrow> bool" where
  "pf_in_range i f \<longleftrightarrow> \<not> pf_is_empty f \<and>
     ((pf_head f \<le> pf_tail f \<and> pf_head f \<le> i \<and> i < pf_tail f) \<or>
      (pf_tail f < pf_head f \<and> (pf_head f \<le> i \<or> i < pf_tail f)))"

definition slot_of_seq :: "u64 \<Rightarrow> nat" where
  "slot_of_seq q = unat q mod PIN_FIFO_SIZE"

definition pf_entry_for_seq :: "u64 \<Rightarrow> pin_fifo \<Rightarrow> pin_list option" where
  "pf_entry_for_seq q f =
     (if pf_in_range (slot_of_seq q) f then pf_entries f ! slot_of_seq q else None)"

text \<open>The loop of \<open>drainable_front_count_zero\<close>, from slot \<open>i\<close>.\<close>

function drain_scan :: "pin_fifo \<Rightarrow> nat \<Rightarrow> nat list" where
  "drain_scan f i =
     (if i = pf_tail f \<or> i \<ge> PIN_FIFO_SIZE \<or> pf_tail f \<ge> PIN_FIFO_SIZE then []
      else case pf_entries f ! i of
        None \<Rightarrow> []
      | Some l \<Rightarrow> if pl_count l = 0 then i # drain_scan f ((i + 1) mod PIN_FIFO_SIZE) else [])"
  by pat_completeness auto

lemma ring_distance_Suc:
  "i < n \<Longrightarrow> t < n \<Longrightarrow> i \<noteq> t \<Longrightarrow> Suc ((t + n - (i + 1) mod n) mod n) = (t + n - i) mod n" for i t n :: nat
  by (cases "Suc i = n"; cases "i < t") (auto simp: mod_if)

termination drain_scan
proof (relation "measure (\<lambda>(f, i). (pf_tail f + PIN_FIFO_SIZE - i) mod PIN_FIFO_SIZE)")
  fix f i and l :: pin_list
  assume "\<not> (i = pf_tail f \<or> PIN_FIFO_SIZE \<le> i \<or> PIN_FIFO_SIZE \<le> pf_tail f)"
  then show "((f, (i + 1) mod PIN_FIFO_SIZE), f, i)
      \<in> measure (\<lambda>(f, i). (pf_tail f + PIN_FIFO_SIZE - i) mod PIN_FIFO_SIZE)"
    using ring_distance_Suc[of i PIN_FIFO_SIZE "pf_tail f"] by simp
qed simp

declare drain_scan.simps [simp del]

definition pf_drainable :: "pin_fifo \<Rightarrow> nat list" where
  "pf_drainable f = (if pf_is_empty f then [] else drain_scan f (pf_head f))"

definition pf_drain_front :: "nat list \<Rightarrow> pin_fifo \<Rightarrow> pin_fifo" where
  "pf_drain_front idx f = fold (\<lambda>_ f. if pf_is_empty f then f else snd (pf_pop_front f)) idx f"

subsection \<open>The ring as a bounded queue\<close>

definition pf_at :: "pin_fifo \<Rightarrow> nat \<Rightarrow> nat" where
  "pf_at f k = (pf_head f + k) mod PIN_FIFO_SIZE"

definition pf_ok :: "pin_fifo \<Rightarrow> bool" where
  "pf_ok f \<longleftrightarrow> length (pf_entries f) = PIN_FIFO_SIZE \<and> pf_head f < PIN_FIFO_SIZE \<and> pf_tail f < PIN_FIFO_SIZE \<and>
     (\<forall>k < pf_len f. pf_entries f ! pf_at f k \<noteq> None)"

definition pf_list :: "pin_fifo \<Rightarrow> pin_list list" where
  "pf_list f = map (\<lambda>k. the (pf_entries f ! pf_at f k)) [0..<pf_len f]"

locale bounded_queue =
  fixes ok :: "'q \<Rightarrow> bool"
    and contents :: "'q \<Rightarrow> 'a list"
    and cap :: nat
    and push :: "'a \<Rightarrow> 'q \<Rightarrow> 'q option"
    and pop :: "'q \<Rightarrow> 'a option \<times> 'q"
  assumes push_full: "ok q \<Longrightarrow> length (contents q) = cap \<Longrightarrow> push a q = None"
    and push_room: "ok q \<Longrightarrow> length (contents q) < cap \<Longrightarrow>
          \<exists>q'. push a q = Some q' \<and> ok q' \<and> contents q' = contents q @ [a]"
    and bounded: "ok q \<Longrightarrow> length (contents q) \<le> cap"
    and pop_nil: "ok q \<Longrightarrow> contents q = [] \<Longrightarrow> pop q = (None, q)"
    and pop_cons: "ok q \<Longrightarrow> contents q = a # as \<Longrightarrow> fst (pop q) = Some a \<and> ok (snd (pop q)) \<and> contents (snd (pop q)) = as"
begin

lemma pop_step: "ok q \<Longrightarrow> ok (snd (pop q)) \<and> contents (snd (pop q)) = tl (contents q)"
  by (cases "contents q") (auto simp: pop_nil dest: pop_cons)

lemma pop_many: "ok q \<Longrightarrow> ok (((\<lambda>q. snd (pop q)) ^^ n) q) \<and> contents (((\<lambda>q. snd (pop q)) ^^ n) q) = drop n (contents q)"
  by (induction n) (auto simp: pop_step drop_Suc tl_drop)

lemma push_iff: "ok q \<Longrightarrow> push a q = None \<longleftrightarrow> length (contents q) = cap"
  using push_full push_room bounded by (metis nat_less_le option.distinct(1))

end

lemma pf_len_mod:
  "pf_head f < PIN_FIFO_SIZE \<Longrightarrow> pf_tail f < PIN_FIFO_SIZE \<Longrightarrow>
     pf_len f = (pf_tail f + PIN_FIFO_SIZE - pf_head f) mod PIN_FIFO_SIZE"
  by (auto simp: pf_len_def PIN_FIFO_SIZE_def mod_if)

lemma pf_tail_at: "pf_head f < PIN_FIFO_SIZE \<Longrightarrow> pf_tail f < PIN_FIFO_SIZE \<Longrightarrow> pf_at f (pf_len f) = pf_tail f"
  by (auto simp: pf_at_def pf_len_def PIN_FIFO_SIZE_def mod_if)

lemma pf_at_less: "pf_at f k < PIN_FIFO_SIZE"
  by (simp add: pf_at_def PIN_FIFO_SIZE_def)

lemma pf_at_inj:
  "pf_head f < PIN_FIFO_SIZE \<Longrightarrow> k < PIN_FIFO_SIZE \<Longrightarrow> l < PIN_FIFO_SIZE \<Longrightarrow> pf_at f k = pf_at f l \<Longrightarrow> k = l"
  by (auto simp: pf_at_def PIN_FIFO_SIZE_def mod_if split: if_splits)

lemma pf_len_less: "pf_ok f \<Longrightarrow> pf_len f < PIN_FIFO_SIZE"
  by (simp add: pf_ok_def pf_len_mod)

lemma pf_is_empty_len: "pf_ok f \<Longrightarrow> pf_is_empty f \<longleftrightarrow> pf_len f = 0"
  by (auto simp: pf_ok_def pf_is_empty_def pf_len_def split: if_splits)

lemma pf_is_full_len: "pf_ok f \<Longrightarrow> pf_is_full f \<longleftrightarrow> pf_len f = 127"
  by (auto simp: pf_ok_def pf_is_full_def pf_len_def PIN_FIFO_SIZE_def mod_if split: if_splits)

lemma pf_in_range_iff:
  "pf_ok f \<Longrightarrow> i < PIN_FIFO_SIZE \<Longrightarrow> pf_in_range i f \<longleftrightarrow> (\<exists>k < pf_len f. i = pf_at f k)"
proof -
  assume ok: "pf_ok f" and i: "i < PIN_FIFO_SIZE"
  have "(\<exists>k < pf_len f. i = pf_at f k) \<longleftrightarrow> (i + PIN_FIFO_SIZE - pf_head f) mod PIN_FIFO_SIZE < pf_len f"
  proof
    assume "\<exists>k < pf_len f. i = pf_at f k"
    then obtain k where k: "k < pf_len f" "i = pf_at f k"
      by blast
    then have "(i + PIN_FIFO_SIZE - pf_head f) mod PIN_FIFO_SIZE = k"
      using pf_len_less[OF ok] ok by (auto simp: pf_ok_def pf_at_def PIN_FIFO_SIZE_def mod_if)
    then show "(i + PIN_FIFO_SIZE - pf_head f) mod PIN_FIFO_SIZE < pf_len f"
      using k by simp
  next
    assume l: "(i + PIN_FIFO_SIZE - pf_head f) mod PIN_FIFO_SIZE < pf_len f"
    have "i = pf_at f ((i + PIN_FIFO_SIZE - pf_head f) mod PIN_FIFO_SIZE)"
      using ok i by (auto simp: pf_ok_def pf_at_def PIN_FIFO_SIZE_def mod_if)
    then show "\<exists>k < pf_len f. i = pf_at f k"
      using l by blast
  qed
  also have "\<dots> \<longleftrightarrow> pf_in_range i f"
    using ok i by (auto simp: pf_ok_def pf_in_range_def pf_is_empty_def pf_len_def PIN_FIFO_SIZE_def mod_if split: if_splits)
  finally show ?thesis
    by simp
qed

lemma pf_push_back_ok:
  assumes ok: "pf_ok f" and room: "pf_len f < 127"
  shows "\<exists>f'. pf_push_back l f = Some f' \<and> pf_ok f' \<and> pf_head f' = pf_head f \<and> pf_len f' = Suc (pf_len f) \<and>
    (\<forall>k < pf_len f. pf_entries f' ! pf_at f k = pf_entries f ! pf_at f k) \<and>
    pf_entries f' ! pf_at f (pf_len f) = Some l"
proof -
  let ?f = "f\<lparr>pf_entries := (pf_entries f)[pf_tail f := Some l], pf_tail := (pf_tail f + 1) mod PIN_FIFO_SIZE\<rparr>"
  have b: "length (pf_entries f) = PIN_FIFO_SIZE" "pf_head f < PIN_FIFO_SIZE" "pf_tail f < PIN_FIFO_SIZE"
    "\<And>k. k < pf_len f \<Longrightarrow> pf_entries f ! pf_at f k \<noteq> None"
    using ok by (simp_all add: pf_ok_def)
  have len: "pf_len ?f = Suc (pf_len f)"
    using b(2,3) room by (auto simp: pf_len_def PIN_FIFO_SIZE_def mod_if split: if_splits)
  have tl: "pf_tail f = pf_at f (pf_len f)"
    using pf_tail_at[OF b(2,3)] by simp
  have at: "pf_at ?f k = pf_at f k" for k
    by (simp add: pf_at_def)
  have old: "pf_entries ?f ! pf_at f k = pf_entries f ! pf_at f k" if "k < pf_len f" for k
  proof -
    have "pf_at f k \<noteq> pf_tail f"
      using pf_at_inj[OF b(2), of k "pf_len f"] that pf_len_less[OF ok] tl by fastforce
    then show ?thesis
      by simp
  qed
  have new: "pf_entries ?f ! pf_at f (pf_len f) = Some l"
    using b(1,3) by (simp add: tl[symmetric])
  have "pf_entries ?f ! pf_at f k \<noteq> None" if "k < Suc (pf_len f)" for k
    using that b(4) old new by (cases "k = pf_len f") (auto simp: less_Suc_eq)
  then have "pf_ok ?f"
    unfolding pf_ok_def len at using b by (simp add: PIN_FIFO_SIZE_def)
  moreover have "pf_push_back l f = Some ?f"
    using room pf_is_full_len[OF ok] by (simp add: pf_push_back_def)
  ultimately show ?thesis
    using len old new by auto
qed

lemma pf_pop_front_ok:
  assumes ok: "pf_ok f" and ne: "pf_len f \<noteq> 0"
  shows "fst (pf_pop_front f) = pf_entries f ! pf_head f"
    "pf_ok (snd (pf_pop_front f))" "Suc (pf_len (snd (pf_pop_front f))) = pf_len f"
    "pf_head (snd (pf_pop_front f)) = (pf_head f + 1) mod PIN_FIFO_SIZE"
    "k < pf_len (snd (pf_pop_front f)) \<Longrightarrow>
       pf_entries (snd (pf_pop_front f)) ! pf_at (snd (pf_pop_front f)) k = pf_entries f ! pf_at f (Suc k)"
proof -
  let ?f = "f\<lparr>pf_entries := (pf_entries f)[pf_head f := None], pf_head := (pf_head f + 1) mod PIN_FIFO_SIZE\<rparr>"
  have b: "length (pf_entries f) = PIN_FIFO_SIZE" "pf_head f < PIN_FIFO_SIZE" "pf_tail f < PIN_FIFO_SIZE"
    "\<And>k. k < pf_len f \<Longrightarrow> pf_entries f ! pf_at f k \<noteq> None"
    using ok by (simp_all add: pf_ok_def)
  have eq: "pf_pop_front f = (pf_entries f ! pf_head f, ?f)"
    using ne pf_is_empty_len[OF ok] by (simp add: pf_pop_front_def)
  have len: "Suc (pf_len ?f) = pf_len f"
    using b(2,3) ne by (auto simp: pf_len_def PIN_FIFO_SIZE_def mod_if split: if_splits)
  have at: "pf_at ?f k = pf_at f (Suc k)" for k
    by (simp add: pf_at_def mod_simps)
  have e: "pf_entries ?f ! pf_at f (Suc k) = pf_entries f ! pf_at f (Suc k)" if "k < pf_len ?f" for k
  proof -
    have "pf_at f (Suc k) \<noteq> pf_at f 0"
      using pf_at_inj[OF b(2), of "Suc k" 0] that len pf_len_less[OF ok] by fastforce
    moreover have "pf_at f 0 = pf_head f"
      using b(2) by (simp add: pf_at_def)
    ultimately show ?thesis
      by simp
  qed
  have okf: "pf_ok ?f"
    unfolding pf_ok_def at using b e len by (auto simp: PIN_FIFO_SIZE_def)
  define g where "g = ?f"
  have g: "pf_pop_front f = (pf_entries f ! pf_head f, g)" "pf_ok g" "Suc (pf_len g) = pf_len f"
    "pf_head g = (pf_head f + 1) mod PIN_FIFO_SIZE"
    "\<And>k. k < pf_len g \<Longrightarrow> pf_entries g ! pf_at g k = pf_entries f ! pf_at f (Suc k)"
    using eq okf len e unfolding g_def at by (blast, blast, blast, simp, blast)
  then show "fst (pf_pop_front f) = pf_entries f ! pf_head f"
    "pf_ok (snd (pf_pop_front f))" "Suc (pf_len (snd (pf_pop_front f))) = pf_len f"
    "pf_head (snd (pf_pop_front f)) = (pf_head f + 1) mod PIN_FIFO_SIZE"
    "k < pf_len (snd (pf_pop_front f)) \<Longrightarrow>
       pf_entries (snd (pf_pop_front f)) ! pf_at (snd (pf_pop_front f)) k = pf_entries f ! pf_at f (Suc k)"
    by simp_all
qed

lemma pf_list_nth: "k < pf_len f \<Longrightarrow> pf_list f ! k = the (pf_entries f ! pf_at f k)"
  by (simp add: pf_list_def)

lemma length_pf_list [simp]: "length (pf_list f) = pf_len f"
  by (simp add: pf_list_def)

lemma pf_push_list:
  assumes "pf_ok f" "pf_len f < 127"
  shows "\<exists>f'. pf_push_back l f = Some f' \<and> pf_ok f' \<and> pf_head f' = pf_head f \<and> pf_list f' = pf_list f @ [l]"
proof -
  obtain f' where f': "pf_push_back l f = Some f'" "pf_ok f'" "pf_head f' = pf_head f" "pf_len f' = Suc (pf_len f)"
    "\<And>k. k < pf_len f \<Longrightarrow> pf_entries f' ! pf_at f k = pf_entries f ! pf_at f k"
    "pf_entries f' ! pf_at f (pf_len f) = Some l"
    using pf_push_back_ok[OF assms] by blast
  have "pf_at f' k = pf_at f k" for k
    by (simp add: pf_at_def f'(3))
  then have "pf_list f' = pf_list f @ [l]"
    using f'(5,6) by (simp add: pf_list_def f'(4))
  then show ?thesis
    using f' by blast
qed

lemma pf_pop_list:
  assumes "pf_ok f" "pf_list f = x # xs"
  shows "fst (pf_pop_front f) = Some x" "pf_list (snd (pf_pop_front f)) = xs"
proof -
  have n: "pf_len f = Suc (length xs)"
    using assms(2) length_pf_list[of f] by simp
  note p = pf_pop_front_ok[OF assms(1)]
  have h: "pf_at f 0 = pf_head f"
    using assms(1) by (simp add: pf_at_def pf_ok_def)
  have "pf_list f ! 0 = the (pf_entries f ! pf_head f)" "pf_entries f ! pf_head f \<noteq> None"
    using pf_list_nth[of 0 f] n h assms(1) by (auto simp: pf_ok_def)
  then show "fst (pf_pop_front f) = Some x"
    using p(1) n assms(2) by auto
  have len: "pf_len (snd (pf_pop_front f)) = length xs"
    using p(3) n by simp
  show "pf_list (snd (pf_pop_front f)) = xs"
  proof (rule nth_equalityI)
    fix k
    assume "k < length (pf_list (snd (pf_pop_front f)))"
    then have k: "k < length xs"
      using len by simp
    then have "pf_list (snd (pf_pop_front f)) ! k = pf_list f ! Suc k"
      using p(5)[of k] n len by (simp add: pf_list_nth)
    then show "pf_list (snd (pf_pop_front f)) ! k = xs ! k"
      by (simp add: assms(2))
  qed (simp add: len)
qed

interpretation pq: bounded_queue pf_ok pf_list 127 pf_push_back pf_pop_front
proof unfold_locales
  fix f a as
  assume ok: "pf_ok f"
  show "pf_push_back a f = None" if "length (pf_list f) = 127"
    using that pf_is_full_len[OF ok] by (simp add: pf_push_back_def)
  show "\<exists>f'. pf_push_back a f = Some f' \<and> pf_ok f' \<and> pf_list f' = pf_list f @ [a]" if "length (pf_list f) < 127"
    using pf_push_list[OF ok, of a] that by auto
  show "length (pf_list f) \<le> 127"
    using pf_len_less[OF ok] by (simp add: PIN_FIFO_SIZE_def)
  show "pf_pop_front f = (None, f)" if "pf_list f = []"
    using that pf_is_empty_len[OF ok] length_pf_list[of f] by (simp add: pf_pop_front_def)
  show "fst (pf_pop_front f) = Some a \<and> pf_ok (snd (pf_pop_front f)) \<and> pf_list (snd (pf_pop_front f)) = as"
    if "pf_list f = a # as"
    using pf_pop_list[OF ok that] pf_pop_front_ok(2)[OF ok] that length_pf_list[of f] by simp
qed

lemma pf_drain_front_pops: "pf_drain_front idx f = ((\<lambda>f. snd (pf_pop_front f)) ^^ length idx) f"
proof -
  have "(if pf_is_empty f then f else snd (pf_pop_front f)) = snd (pf_pop_front f)" for f
    by (simp add: pf_pop_front_def)
  then show ?thesis
    by (induction idx arbitrary: f) (simp_all add: pf_drain_front_def funpow_swap1[of "\<lambda>f. snd (pf_pop_front f)"])
qed

lemma length_drain_scan:
  assumes ok: "pf_ok f" and "k \<le> pf_len f"
  shows "length (drain_scan f (pf_at f k)) = length (takeWhile (\<lambda>l. pl_count l = 0) (drop k (pf_list f)))"
  using assms(2)
proof (induction "pf_len f - k" arbitrary: k)
  case 0
  then have "pf_at f k = pf_tail f"
    using ok pf_tail_at[of f] by (simp add: pf_ok_def)
  then show ?case
    using 0 by (simp add: drain_scan.simps)
next
  case (Suc n)
  then have k: "k < pf_len f"
    by simp
  have b: "pf_head f < PIN_FIFO_SIZE" "pf_tail f < PIN_FIFO_SIZE"
    using ok by (simp_all add: pf_ok_def)
  have ne: "pf_at f k \<noteq> pf_tail f"
    using pf_at_inj[OF b(1), of k "pf_len f"] k pf_len_less[OF ok] pf_tail_at[OF b] by fastforce
  obtain l where l: "pf_entries f ! pf_at f k = Some l"
    using ok k by (auto simp: pf_ok_def)
  then have d: "drop k (pf_list f) = l # drop (Suc k) (pf_list f)"
    using k pf_list_nth[OF k] by (simp add: Cons_nth_drop_Suc[symmetric])
  have nx: "(pf_at f k + 1) mod PIN_FIFO_SIZE = pf_at f (Suc k)"
    by (simp add: pf_at_def mod_simps)
  have "length (drain_scan f (pf_at f (Suc k))) = length (takeWhile (\<lambda>l. pl_count l = 0) (drop (Suc k) (pf_list f)))"
    using Suc.hyps(2) k by (intro Suc.hyps(1)) auto
  then show ?case
    using ne b pf_at_less[of f k] nx by (subst drain_scan.simps) (simp add: l d)
qed

lemma drain_spec:
  assumes "pf_ok f"
  shows "length (pf_drainable f) = length (takeWhile (\<lambda>l. pl_count l = 0) (pf_list f))"
    and "pf_ok (pf_drain_front (pf_drainable f) f)"
    and "pf_list (pf_drain_front (pf_drainable f) f) = dropWhile (\<lambda>l. pl_count l = 0) (pf_list f)"
proof -
  show len: "length (pf_drainable f) = length (takeWhile (\<lambda>l. pl_count l = 0) (pf_list f))"
  proof (cases "pf_is_empty f")
    case True
    then show ?thesis
      using pf_is_empty_len[OF assms] by (simp add: pf_drainable_def pf_list_def)
  next
    case False
    have "pf_at f 0 = pf_head f"
      using assms by (simp add: pf_at_def pf_ok_def)
    then show ?thesis
      using False length_drain_scan[OF assms, of 0] by (simp add: pf_drainable_def)
  qed
  show "pf_ok (pf_drain_front (pf_drainable f) f)"
    "pf_list (pf_drain_front (pf_drainable f) f) = dropWhile (\<lambda>l. pl_count l = 0) (pf_list f)"
    using pq.pop_many[OF assms] by (simp_all add: pf_drain_front_pops len dropWhile_eq_drop)
qed

subsection \<open>Pins\<close>

record journal_pins =
  jp_fifo :: pin_fifo
  jp_last_seq_ondisk :: u64
  jp_seq :: "pin \<Rightarrow> u64"
  jp_type :: "pin \<Rightarrow> pin_type"
  jp_flush :: "pin \<Rightarrow> bool"
  jp_in_progress :: pin
  jp_dropped :: bool

definition maybe_update_last_seq :: "'z journal_pins_scheme \<Rightarrow> 'z journal_pins_scheme" where
  "maybe_update_last_seq j =
     (let idx = pf_drainable (jp_fifo j) in
      if idx = [] then j
      else j\<lparr>jp_fifo := pf_drain_front idx (jp_fifo j),
             jp_last_seq_ondisk := jp_last_seq_ondisk j + of_nat (length idx)\<rparr>)"

definition seq_slot :: "u64 \<Rightarrow> 'z journal_pins_scheme \<Rightarrow> nat option" where
  "seq_slot q j = (if pf_entry_for_seq q (jp_fifo j) = None then None else Some (slot_of_seq q))"

definition maybe_seq_pin :: "u64 \<Rightarrow> 'z journal_pins_scheme \<Rightarrow> nat option" where
  "maybe_seq_pin q j = (if q = 0 then None else seq_slot q j)"

definition upd_slot :: "nat \<Rightarrow> (pin_list \<Rightarrow> pin_list) \<Rightarrow> 'z journal_pins_scheme \<Rightarrow> 'z journal_pins_scheme" where
  "upd_slot i g j = j\<lparr>jp_fifo := (jp_fifo j)\<lparr>pf_entries :=
     (pf_entries (jp_fifo j))[i := map_option g (pf_entries (jp_fifo j) ! i)]\<rparr>\<rparr>"

definition pl_pins :: "pin_list \<Rightarrow> pin list" where
  "pl_pins l = concat (map (pl_unflushed l) JOURNAL_PIN_FLUSH_ORDER) @ pl_flushed l"

definition pl_unlink :: "pin \<Rightarrow> pin_list \<Rightarrow> pin_list" where
  "pl_unlink p l = l\<lparr>pl_unflushed := \<lambda>t. removeAll p (pl_unflushed l t), pl_flushed := removeAll p (pl_flushed l)\<rparr>"

text \<open>\<open>pin.link.remove()\<close>: the pin leaves whichever list it is in.\<close>

definition unlink_pin :: "pin \<Rightarrow> 'z journal_pins_scheme \<Rightarrow> 'z journal_pins_scheme" where
  "unlink_pin p j = j\<lparr>jp_fifo := (jp_fifo j)\<lparr>pf_entries := map (map_option (pl_unlink p)) (pf_entries (jp_fifo j))\<rparr>\<rparr>"

definition pin_linked :: "pin \<Rightarrow> 'z journal_pins_scheme \<Rightarrow> bool" where
  "pin_linked p j \<longleftrightarrow> (\<exists>e \<in> set (pf_entries (jp_fifo j)). case e of None \<Rightarrow> False | Some l \<Rightarrow> p \<in> set (pl_pins l))"

definition pl_count_at :: "nat \<Rightarrow> 'z journal_pins_scheme \<Rightarrow> u32" where
  "pl_count_at i j = (case pf_entries (jp_fifo j) ! i of None \<Rightarrow> 0 | Some l \<Rightarrow> pl_count l)"

definition pin_drop_locked :: "nat option \<Rightarrow> pin \<Rightarrow> 'z journal_pins_scheme \<Rightarrow> bool \<times> 'z journal_pins_scheme" where
  "pin_drop_locked pin_l p j =
     (case pin_l of
        None \<Rightarrow> (False, j)
      | Some i \<Rightarrow>
          if jp_seq j p = 0 then (False, j)
          else
            let j1 = (if jp_in_progress j = p then j\<lparr>jp_dropped := True\<rparr> else j);
                j2 = unlink_pin p j1;
                old_count = pl_count_at i j2;
                j3 = upd_slot i (\<lambda>l. l\<lparr>pl_count := pl_count l - 1\<rparr>) j2
            in (old_count = 1 \<and> seq_slot (jp_last_seq_ondisk j3) j3 = Some i, j3))"

definition pin_drop :: "pin \<Rightarrow> 'z journal_pins_scheme \<Rightarrow> 'z journal_pins_scheme option" where
  "pin_drop p j =
     (let q = jp_seq j p in
      if q = 0 then Some j
      else case seq_slot q j of
        None \<Rightarrow> None
      | Some i \<Rightarrow>
          let (reclaim, j1) = pin_drop_locked (Some i) p j;
              j2 = j1\<lparr>jp_seq := (jp_seq j1)(p := 0)\<rparr>
          in Some (if reclaim then maybe_update_last_seq j2 else j2))"

definition pin_set_locked ::
  "nat option \<Rightarrow> nat \<Rightarrow> pin \<Rightarrow> u64 \<Rightarrow> bool \<Rightarrow> 'z journal_pins_scheme \<Rightarrow> (bool \<times> 'z journal_pins_scheme) option" where
  "pin_set_locked old_l new_l p q flush_fn j =
     (let (reclaim, j1) = (if jp_seq j p \<noteq> 0 then pin_drop_locked old_l p j else (False, j));
          j2 = upd_slot new_l (\<lambda>l. l\<lparr>pl_count := pl_count l + 1\<rparr>) j1;
          j3 = j2\<lparr>jp_seq := (jp_seq j2)(p := q)\<rparr>;
          j4 = (if flush_fn then j3\<lparr>jp_flush := (jp_flush j3)(p := True)\<rparr> else j3);
          t = jp_type j4 p
      in if pin_linked p j4 then None
         else Some (reclaim, upd_slot new_l
                (\<lambda>l. l\<lparr>pl_unflushed := (pl_unflushed l)(t := pl_unflushed l t @ [p])\<rparr>) j4))"

definition pin_set :: "u64 \<Rightarrow> pin \<Rightarrow> bool \<Rightarrow> 'z journal_pins_scheme \<Rightarrow> 'z journal_pins_scheme option" where
  "pin_set new_seq p flush_fn j =
     (case seq_slot new_seq j of
        None \<Rightarrow> None
      | Some new_l \<Rightarrow>
          let old_l = maybe_seq_pin (jp_seq j p) j in
          case pin_set_locked old_l new_l p new_seq flush_fn j of
            None \<Rightarrow> None
          | Some (reclaim, j1) \<Rightarrow> Some (if reclaim then maybe_update_last_seq j1 else j1))"

definition pin_copy :: "pin \<Rightarrow> pin \<Rightarrow> bool \<Rightarrow> 'z journal_pins_scheme \<Rightarrow> 'z journal_pins_scheme option" where
  "pin_copy dst src flush_fn j =
     (let src_seq = jp_seq j src; dst_seq = jp_seq j dst in
      if src_seq = 0 then Some j
      else case seq_slot src_seq j of
        None \<Rightarrow> None
      | Some src_l \<Rightarrow>
          let dst_l = maybe_seq_pin dst_seq j in
          case pin_set_locked dst_l src_l dst src_seq flush_fn j of
            None \<Rightarrow> None
          | Some (reclaim, j1) \<Rightarrow> Some (if reclaim then maybe_update_last_seq j1 else j1))"

definition pin_add :: "u64 \<Rightarrow> pin \<Rightarrow> bool \<Rightarrow> 'z journal_pins_scheme \<Rightarrow> 'z journal_pins_scheme option" where
  "pin_add q p flush_fn j = (if jp_seq j p = 0 \<or> jp_seq j p > q then pin_set q p flush_fn j else Some j)"

definition pin_update :: "u64 \<Rightarrow> pin \<Rightarrow> bool \<Rightarrow> 'z journal_pins_scheme \<Rightarrow> 'z journal_pins_scheme option" where
  "pin_update q p flush_fn j = (if jp_seq j p = 0 \<or> jp_seq j p < q then pin_set q p flush_fn j else Some j)"

definition pin_put :: "u64 \<Rightarrow> 'z journal_pins_scheme \<Rightarrow> bool \<times> 'z journal_pins_scheme" where
  "pin_put q j =
     (case pf_entry_for_seq q (jp_fifo j) of
        None \<Rightarrow> (False, j)
      | Some l \<Rightarrow> (pl_count l = 1, upd_slot (slot_of_seq q) (\<lambda>l. l\<lparr>pl_count := pl_count l - 1\<rparr>) j))"

subsection \<open>Flushing pins\<close>

text \<open>The first pin in type order that heads a list and has a callback.\<close>

fun first_flushable :: "(pin \<Rightarrow> bool) \<Rightarrow> pin_list \<Rightarrow> pin_type list \<Rightarrow> pin option" where
  "first_flushable has_cb l [] = None"
| "first_flushable has_cb l (t # ts) =
     (case pl_unflushed l t of
        [] \<Rightarrow> first_flushable has_cb l ts
      | p # _ \<Rightarrow> if has_cb p then Some p else first_flushable has_cb l ts)"

fun scan_seqs :: "'z journal_pins_scheme \<Rightarrow> u64 list \<Rightarrow> (pin \<times> u64) option" where
  "scan_seqs j [] = None"
| "scan_seqs j (q # qs) =
     (case pf_entry_for_seq q (jp_fifo j) of
        None \<Rightarrow> scan_seqs j qs
      | Some l \<Rightarrow>
          if pl_unreplayed l then None
          else case first_flushable (jp_flush j) l JOURNAL_PIN_FLUSH_ORDER of
            Some p \<Rightarrow> Some (p, q)
          | None \<Rightarrow> scan_seqs j qs)"

definition get_next_pin :: "u64 \<Rightarrow> 'z journal_pins_scheme \<Rightarrow> (pin \<times> u64 \<times> 'z journal_pins_scheme) option" where
  "get_next_pin seq_to_flush j =
     (case scan_seqs j (map of_nat [unat (jp_last_seq_ondisk j)..<Suc (unat seq_to_flush)]) of
        None \<Rightarrow> None
      | Some (p, q) \<Rightarrow> Some (p, q, j\<lparr>jp_in_progress := p, jp_dropped := False\<rparr>))"

text \<open>What follows a callback: the pin moves to the flushed list unless it was dropped.\<close>

definition flush_cleanup :: "pin \<Rightarrow> u64 \<Rightarrow> 'z journal_pins_scheme \<Rightarrow> 'z journal_pins_scheme" where
  "flush_cleanup p q j =
     (case seq_slot q j of
        None \<Rightarrow> j
      | Some i \<Rightarrow>
          let j1 = (if jp_dropped j then j
                    else upd_slot i (\<lambda>l. l\<lparr>pl_flushed := pl_flushed l @ [p]\<rparr>) (unlink_pin p j))
          in j1\<lparr>jp_in_progress := 0, jp_dropped := False\<rparr>)"

text \<open>
  A callback is the pin owner's code: it gets the pin and its sequence number, may change the
  journal, and returns \<open>Some (None, j)\<close> for \<open>Ok\<close>, \<open>Some (Some e, j)\<close> for an error, or \<open>None\<close> if
  it panics or never returns.
\<close>

partial_function (option) flush_pins_loop ::
  "(pin \<Rightarrow> u64 \<Rightarrow> 'z journal_pins_scheme \<Rightarrow> ('e option \<times> 'z journal_pins_scheme) option) \<Rightarrow> u64 \<Rightarrow> u32 \<Rightarrow>
   'z journal_pins_scheme \<Rightarrow> (('e + u32) \<times> 'z journal_pins_scheme) option" where
  "flush_pins_loop cb seq_to_flush n j =
     (case get_next_pin seq_to_flush j of
        None \<Rightarrow> Some (Inr n, j)
      | Some (p, q, j1) \<Rightarrow>
          Option.bind (cb p q j1) (\<lambda>(e, j2).
            let j3 = flush_cleanup p q j2 in
            case e of
              Some err \<Rightarrow> Some (Inl err, j3)
            | None \<Rightarrow> flush_pins_loop cb seq_to_flush (n + 1) j3))"

definition journal_flush_pins ::
  "(pin \<Rightarrow> u64 \<Rightarrow> 'z journal_pins_scheme \<Rightarrow> ('e option \<times> 'z journal_pins_scheme) option) \<Rightarrow> u64 \<Rightarrow>
   'z journal_pins_scheme \<Rightarrow> (('e + u32) \<times> 'z journal_pins_scheme) option" where
  "journal_flush_pins cb seq_to_flush j = flush_pins_loop cb seq_to_flush 0 j"

subsection \<open>Sequence numbers and slots\<close>

text \<open>
  The lookup by sequence number takes slot \<open>seq mod 128\<close>. That is the slot of the list opened
  for the number only if the list at the head of the ring belongs to a number that is congruent
  to the head slot. \<open>jp_base j b\<close> says that the head's list belongs to the number \<open>b\<close> and is in
  slot \<open>b mod 128\<close>.
\<close>

definition jp_base :: "'z journal_pins_scheme \<Rightarrow> nat \<Rightarrow> bool" where
  "jp_base j b \<longleftrightarrow> pf_ok (jp_fifo j) \<and> pf_head (jp_fifo j) = b mod PIN_FIFO_SIZE \<and> b + PIN_FIFO_SIZE < 2 ^ 64"

lemma pf_at_base:
  assumes "pf_head f = b mod PIN_FIFO_SIZE" and "b \<le> q"
  shows "pf_at f (q - b) = q mod PIN_FIFO_SIZE"
proof -
  obtain d where "q = b + d"
    using assms(2) le_Suc_ex by blast
  then show ?thesis
    using assms(1) by (simp add: pf_at_def mod_simps)
qed

lemma entry_for_seq_base:
  assumes "pf_ok f" "pf_head f = b mod PIN_FIFO_SIZE" "b \<le> unat q" "unat q < b + PIN_FIFO_SIZE"
  shows "pf_entry_for_seq q f =
    (if unat q < b + pf_len f then Some (pf_list f ! (unat q - b)) else None)"
proof -
  have at: "slot_of_seq q = pf_at f (unat q - b)"
    using pf_at_base[OF assms(2,3)] by (simp add: slot_of_seq_def)
  have inr: "pf_in_range (slot_of_seq q) f \<longleftrightarrow> unat q - b < pf_len f"
  proof -
    have "pf_in_range (slot_of_seq q) f \<longleftrightarrow> (\<exists>k < pf_len f. pf_at f (unat q - b) = pf_at f k)"
      using pf_in_range_iff[OF assms(1) pf_at_less, of f "unat q - b"] at by simp
    also have "\<dots> \<longleftrightarrow> unat q - b < pf_len f"
    proof
      assume "\<exists>k < pf_len f. pf_at f (unat q - b) = pf_at f k"
      then obtain k where k: "k < pf_len f" "pf_at f (unat q - b) = pf_at f k"
        by blast
      then have "unat q - b = k"
        using pf_at_inj[OF _ _ _ k(2)] assms pf_len_less[OF assms(1)] by (simp add: pf_ok_def)
      then show "unat q - b < pf_len f"
        using k(1) by simp
    qed blast
    finally show ?thesis .
  qed
  show ?thesis
  proof (cases "unat q - b < pf_len f")
    case True
    then have "pf_entries f ! pf_at f (unat q - b) \<noteq> None"
      using assms(1) by (simp add: pf_ok_def)
    then show ?thesis
      using True inr at assms(3) by (auto simp: pf_entry_for_seq_def pf_list_nth)
  next
    case False
    then show ?thesis
      using inr assms(3) by (auto simp: pf_entry_for_seq_def)
  qed
qed

end
