(* ===== verification/JournalPinInv.thy ===== *)
theory JournalPinInv
  imports JournalPin "HOL-Library.Multiset"
begin

text \<open>
  Why pins hold back reclaim (\<open>journal/reclaim.rs\<close>). The state is viewed as the number the
  oldest pin list belongs to, the lists in order and the number every pin is bound to; each
  operation of JournalPin acts on this view, and \<open>pins_ok\<close> is kept by all of them.
\<close>

subsection \<open>The operations on the view\<close>

definition pf_clean :: "pin_fifo \<Rightarrow> bool" where
  "pf_clean f \<longleftrightarrow> (\<forall>i < PIN_FIFO_SIZE. (\<forall>k < pf_len f. i \<noteq> pf_at f k) \<longrightarrow> pf_entries f ! i = None)"

definition jp_list :: "'z journal_pins_scheme \<Rightarrow> pin_list list" where
  "jp_list j = pf_list (jp_fifo j)"

definition jp_first :: "'z journal_pins_scheme \<Rightarrow> nat" where
  "jp_first j = unat (jp_last_seq_ondisk j)"

definition jp_ring_ok :: "'z journal_pins_scheme \<Rightarrow> bool" where
  "jp_ring_ok j \<longleftrightarrow> pf_ok (jp_fifo j) \<and> pf_clean (jp_fifo j) \<and>
     pf_head (jp_fifo j) = jp_first j mod PIN_FIFO_SIZE \<and> jp_first j + length (jp_list j) < 2 ^ 64"

lemma jp_ring_okD:
  assumes "jp_ring_ok j"
  shows "pf_ok (jp_fifo j)" "pf_clean (jp_fifo j)" "pf_head (jp_fifo j) = jp_first j mod PIN_FIFO_SIZE"
    "jp_first j + length (jp_list j) < 2 ^ 64" "length (jp_list j) = pf_len (jp_fifo j)"
    "length (jp_list j) < PIN_FIFO_SIZE"
  using assms pf_len_less[of "jp_fifo j"] by (simp_all add: jp_ring_ok_def jp_list_def)

lemma seq_slot_in:
  assumes "jp_ring_ok j" "jp_first j \<le> unat q" "unat q < jp_first j + length (jp_list j)"
  shows "seq_slot q j = Some (pf_at (jp_fifo j) (unat q - jp_first j))"
    "pf_entry_for_seq q (jp_fifo j) = Some (jp_list j ! (unat q - jp_first j))"
    "unat q - jp_first j < length (jp_list j)"
proof -
  note r = jp_ring_okD[OF assms(1)]
  show e: "pf_entry_for_seq q (jp_fifo j) = Some (jp_list j ! (unat q - jp_first j))"
    using entry_for_seq_base[OF r(1,3) assms(2)] assms(3) r(5,6) by (simp add: jp_list_def)
  show "seq_slot q j = Some (pf_at (jp_fifo j) (unat q - jp_first j))"
    using e pf_at_base[OF r(3) assms(2)] by (simp add: seq_slot_def slot_of_seq_def)
  show "unat q - jp_first j < length (jp_list j)"
    using assms(2,3) by simp
qed

lemma upd_slot_view:
  fixes j :: "'z journal_pins_scheme"
  assumes "jp_ring_ok j" "k < length (jp_list j)"
  shows "jp_ring_ok (upd_slot (pf_at (jp_fifo j) k) g j)"
    "jp_list (upd_slot (pf_at (jp_fifo j) k) g j) = (jp_list j)[k := g (jp_list j ! k)]"
proof -
  note r = jp_ring_okD[OF assms(1)]
  let ?f = "jp_fifo j" and ?g = "jp_fifo (upd_slot (pf_at (jp_fifo j) k) g j)"
  have b: "length (pf_entries ?f) = PIN_FIFO_SIZE" "pf_head ?f < PIN_FIFO_SIZE"
    using r(1) by (simp_all add: pf_ok_def)
  have f: "pf_head ?g = pf_head ?f" "pf_tail ?g = pf_tail ?f" "pf_len ?g = pf_len ?f" "\<And>i. pf_at ?g i = pf_at ?f i"
    by (simp_all add: upd_slot_def pf_len_def pf_at_def)
  have e: "pf_entries ?g ! i = (if i = pf_at ?f k then map_option g (pf_entries ?f ! i) else pf_entries ?f ! i)" for i
    using b(1) pf_at_less[of ?f k] by (auto simp: upd_slot_def nth_list_update)
  have ok: "pf_ok ?g" "pf_clean ?g"
    using r(1,2) by (auto simp: pf_ok_def pf_clean_def f e) (simp add: upd_slot_def)
  have "jp_list (upd_slot (pf_at ?f k) g j) ! i = (jp_list j)[k := g (jp_list j ! k)] ! i" if "i < length (jp_list j)" for i
  proof -
    have inj: "pf_at ?f i = pf_at ?f k \<longleftrightarrow> i = k"
      using pf_at_inj[OF b(2), of i k] that assms(2) r(6) by auto
    have ne: "pf_entries ?f ! pf_at ?f i \<noteq> None"
      using r(1,5) that by (simp add: pf_ok_def)
    show ?thesis
      using that r(5) ne inj assms(2) by (auto simp: jp_list_def pf_list_nth f e)
  qed
  then show l: "jp_list (upd_slot (pf_at ?f k) g j) = (jp_list j)[k := g (jp_list j ! k)]"
    by (intro nth_equalityI) (simp_all add: jp_list_def f)
  have "jp_first (upd_slot (pf_at ?f k) g j) = jp_first j"
    by (simp add: jp_first_def upd_slot_def)
  then show "jp_ring_ok (upd_slot (pf_at ?f k) g j)"
    using ok r(3,4) by (simp add: jp_ring_ok_def l f)
qed

lemma unlink_view:
  assumes "jp_ring_ok j"
  shows "jp_ring_ok (unlink_pin p j)" "jp_list (unlink_pin p j) = map (pl_unlink p) (jp_list j)"
    "pf_at (jp_fifo (unlink_pin p j)) k = pf_at (jp_fifo j) k"
proof -
  note r = jp_ring_okD[OF assms]
  let ?f = "jp_fifo j" and ?g = "jp_fifo (unlink_pin p j)"
  have f: "pf_head ?g = pf_head ?f" "pf_tail ?g = pf_tail ?f" "pf_len ?g = pf_len ?f" "\<And>i. pf_at ?g i = pf_at ?f i"
    "pf_entries ?g = map (map_option (pl_unlink p)) (pf_entries ?f)"
    by (simp_all add: unlink_pin_def pf_len_def pf_at_def)
  show "pf_at ?g k = pf_at ?f k"
    by (simp add: f)
  have b: "length (pf_entries ?f) = PIN_FIFO_SIZE"
    using r(1) by (simp add: pf_ok_def)
  have ok: "pf_ok ?g" "pf_clean ?g"
    using r(1,2) pf_at_less[of ?f] by (auto simp: pf_ok_def pf_clean_def f)
  show l: "jp_list (unlink_pin p j) = map (pl_unlink p) (jp_list j)"
    using r(1) pf_at_less[of ?f] by (auto simp: jp_list_def pf_list_def f pf_ok_def)
  show "jp_ring_ok (unlink_pin p j)"
    using ok r(3,4) by (simp add: jp_ring_ok_def l f) (simp add: jp_first_def unlink_pin_def)
qed

lemma pin_linked_view:
  assumes "jp_ring_ok j"
  shows "pin_linked p j \<longleftrightarrow> (\<exists>l \<in> set (jp_list j). p \<in> set (pl_pins l))"
proof -
  note r = jp_ring_okD[OF assms]
  let ?f = "jp_fifo j"
  have b: "length (pf_entries ?f) = PIN_FIFO_SIZE"
    using r(1) by (simp add: pf_ok_def)
  have "Some l \<in> set (pf_entries ?f) \<longleftrightarrow> l \<in> set (jp_list j)" for l
  proof
    assume "Some l \<in> set (pf_entries ?f)"
    then obtain i where i: "i < PIN_FIFO_SIZE" "pf_entries ?f ! i = Some l"
      using b by (auto simp: in_set_conv_nth)
    then obtain k where "k < pf_len ?f" "i = pf_at ?f k"
      using r(2) by (force simp: pf_clean_def)
    then show "l \<in> set (jp_list j)"
      using i by (auto simp: jp_list_def pf_list_def intro!: image_eqI[of _ _ k])
  next
    assume "l \<in> set (jp_list j)"
    then obtain k where "k < pf_len ?f" "l = the (pf_entries ?f ! pf_at ?f k)"
      by (auto simp: jp_list_def pf_list_def)
    then have "Some l = pf_entries ?f ! pf_at ?f k"
      using r(1) by (auto simp: pf_ok_def)
    then show "Some l \<in> set (pf_entries ?f)"
      using b pf_at_less[of ?f k] by simp
  qed
  then show ?thesis
    unfolding pin_linked_def by (auto split: option.splits)
qed

lemma pf_clean_pop:
  assumes "pf_ok f" "pf_clean f"
  shows "pf_clean (snd (pf_pop_front f))"
proof (cases "pf_len f = 0")
  case True
  then show ?thesis
    using assms pf_is_empty_len[OF assms(1)] by (simp add: pf_pop_front_def)
next
  case False
  let ?g = "snd (pf_pop_front f)"
  have h: "pf_at f 0 = pf_head f"
    using assms(1) by (simp add: pf_at_def pf_ok_def)
  have at: "pf_at ?g k = pf_at f (Suc k)" for k
    unfolding pf_at_def pf_pop_front_ok(4)[OF assms(1) False] by (simp add: mod_simps)
  have e: "pf_entries ?g = (pf_entries f)[pf_head f := None]"
    using False pf_is_empty_len[OF assms(1)] by (simp add: pf_pop_front_def)
  have "pf_entries ?g ! i = None" if i: "i < PIN_FIFO_SIZE" "\<forall>k < pf_len ?g. i \<noteq> pf_at ?g k" for i
  proof (cases "i = pf_head f")
    case True
    then show ?thesis
      using assms(1) by (simp add: e pf_ok_def)
  next
    case ne: False
    have "i \<noteq> pf_at f k" if "k < pf_len f" for k
      using that i(2) pf_pop_front_ok(3)[OF assms(1) False] ne h by (cases k) (auto simp: at)
    then show ?thesis
      using assms(2) i(1) ne by (simp add: e pf_clean_def)
  qed
  then show ?thesis
    by (simp add: pf_clean_def)
qed

lemma pf_clean_pops:
  "pf_ok f \<Longrightarrow> pf_clean f \<Longrightarrow> pf_clean (((\<lambda>f. snd (pf_pop_front f)) ^^ n) f)"
  by (induction n) (simp_all add: pf_clean_pop pq.pop_many)

lemma pf_head_pops:
  "pf_ok f \<Longrightarrow> n \<le> pf_len f \<Longrightarrow> pf_head (((\<lambda>f. snd (pf_pop_front f)) ^^ n) f) = (pf_head f + n) mod PIN_FIFO_SIZE"
proof (induction n)
  case 0
  then show ?case
    by (simp add: pf_ok_def)
next
  case (Suc n)
  let ?f = "((\<lambda>f. snd (pf_pop_front f)) ^^ n) f"
  have "pf_ok ?f" "pf_list ?f = drop n (pf_list f)"
    using pq.pop_many[OF Suc.prems(1)] by simp_all
  moreover have "pf_len ?f \<noteq> 0"
    using calculation(2) Suc.prems(2) length_pf_list[of ?f] by simp
  ultimately have "pf_head (snd (pf_pop_front ?f)) = (pf_head ?f + 1) mod PIN_FIFO_SIZE"
    using pf_pop_front_ok(4) by blast
  then show ?case
    using Suc by (simp add: mod_simps)
qed

definition zeros :: "pin_list list \<Rightarrow> nat" where
  "zeros ls = length (takeWhile (\<lambda>l. pl_count l = 0) ls)"

lemma update_last_seq_view:
  assumes "jp_ring_ok j"
  shows "jp_ring_ok (maybe_update_last_seq j)"
    "jp_list (maybe_update_last_seq j) = drop (zeros (jp_list j)) (jp_list j)"
    "jp_first (maybe_update_last_seq j) = jp_first j + zeros (jp_list j)"
    "jp_seq (maybe_update_last_seq j) = jp_seq j"
proof -
  note r = jp_ring_okD[OF assms]
  let ?f = "jp_fifo j" and ?n = "zeros (jp_list j)"
  have n: "length (pf_drainable ?f) = ?n" "?n \<le> length (jp_list j)"
    using drain_spec(1)[OF r(1)] length_takeWhile_le[of _ "jp_list j"] by (simp_all add: zeros_def jp_list_def)
  have fifo: "jp_fifo (maybe_update_last_seq j) = ((\<lambda>f. snd (pf_pop_front f)) ^^ ?n) ?f"
    using n(1) by (auto simp: maybe_update_last_seq_def Let_def pf_drain_front_pops)
  have last: "jp_last_seq_ondisk (maybe_update_last_seq j) = jp_last_seq_ondisk j + of_nat ?n"
    using n(1) by (auto simp: maybe_update_last_seq_def Let_def)
  show l: "jp_list (maybe_update_last_seq j) = drop ?n (jp_list j)"
    unfolding jp_list_def fifo using pq.pop_many[OF r(1)] by blast
  have lt: "?n < 2 ^ 64"
    using n(2) r(6) by (simp add: PIN_FIFO_SIZE_def)
  have "jp_first j + ?n < 2 ^ 64"
    using r(4) n(2) by simp
  then show f: "jp_first (maybe_update_last_seq j) = jp_first j + ?n"
    using lt by (simp add: jp_first_def last unat_word_ariths unat_of_nat)
  show "jp_seq (maybe_update_last_seq j) = jp_seq j"
    by (simp add: maybe_update_last_seq_def Let_def)
  have "pf_head (jp_fifo (maybe_update_last_seq j)) = (jp_first j + ?n) mod PIN_FIFO_SIZE"
    unfolding fifo using pf_head_pops[OF r(1), of ?n] n(2) r(3,5) by (simp add: mod_simps)
  then show "jp_ring_ok (maybe_update_last_seq j)"
    using pq.pop_many[OF r(1), of ?n] pf_clean_pops[OF r(1,2), of ?n] r(4) n(2)
    by (simp add: jp_ring_ok_def l f fifo)
qed

lemma push_view:
  assumes "jp_ring_ok j" "length (jp_list j) < 127" "jp_first j + Suc (length (jp_list j)) < 2 ^ 64"
  shows "\<exists>f'. pf_push_back l (jp_fifo j) = Some f' \<and> jp_ring_ok (j\<lparr>jp_fifo := f'\<rparr>) \<and>
    jp_list (j\<lparr>jp_fifo := f'\<rparr>) = jp_list j @ [l]"
proof -
  note r = jp_ring_okD[OF assms(1)]
  let ?f = "jp_fifo j"
  obtain f' where f': "pf_push_back l ?f = Some f'" "pf_ok f'" "pf_head f' = pf_head ?f" "pf_list f' = pf_list ?f @ [l]"
    using pf_push_list[OF r(1), of l] assms(2) r(5) by auto
  have len: "pf_len f' = Suc (pf_len ?f)"
    using f'(4) length_pf_list[of f'] by simp
  have at: "pf_at f' k = pf_at ?f k" for k
    by (simp add: pf_at_def f'(3))
  have tl: "pf_tail ?f = pf_at ?f (pf_len ?f)"
    using r(1) pf_tail_at[of ?f] by (simp add: pf_ok_def)
  have e: "pf_entries f' = (pf_entries ?f)[pf_tail ?f := Some l]"
    using f'(1) by (auto simp: pf_push_back_def split: if_splits)
  have "pf_clean f'"
    unfolding pf_clean_def
  proof (intro allI impI)
    fix i
    assume i: "i < PIN_FIFO_SIZE" "\<forall>k < pf_len f'. i \<noteq> pf_at f' k"
    then have "i \<noteq> pf_tail ?f" "pf_entries ?f ! i = None"
      using r(2) by (simp_all add: len at tl pf_clean_def)
    then show "pf_entries f' ! i = None"
      by (simp add: e)
  qed
  then have "jp_ring_ok (j\<lparr>jp_fifo := f'\<rparr>)"
    using f' r(3) assms(3) by (simp add: jp_ring_ok_def jp_first_def jp_list_def)
  then show ?thesis
    using f'(1,4) by (auto simp: jp_list_def)
qed

subsection \<open>The invariant\<close>

text \<open>
  \<open>pins_ok b ls sq\<close>: a bound pin's number has its list in the ring and the pin is linked there,
  once; and every list counts at least its pins.
\<close>

definition pins_ok :: "nat \<Rightarrow> pin_list list \<Rightarrow> (pin \<Rightarrow> u64) \<Rightarrow> bool" where
  "pins_ok b ls sq \<longleftrightarrow>
     (\<forall>p. sq p \<noteq> 0 \<longrightarrow> b \<le> unat (sq p) \<and> unat (sq p) < b + length ls \<and> p \<in> set (pl_pins (ls ! (unat (sq p) - b)))) \<and>
     (\<forall>k < length ls. \<forall>p \<in> set (pl_pins (ls ! k)). sq p \<noteq> 0 \<and> unat (sq p) = b + k) \<and>
     (\<forall>k < length ls. distinct (pl_pins (ls ! k)) \<and> length (pl_pins (ls ! k)) \<le> unat (pl_count (ls ! k)))"

lemma pins_okD:
  assumes "pins_ok b ls sq"
  shows "sq p \<noteq> 0 \<Longrightarrow> b \<le> unat (sq p)" "sq p \<noteq> 0 \<Longrightarrow> unat (sq p) < b + length ls"
    "sq p \<noteq> 0 \<Longrightarrow> p \<in> set (pl_pins (ls ! (unat (sq p) - b)))"
    "k < length ls \<Longrightarrow> p \<in> set (pl_pins (ls ! k)) \<Longrightarrow> sq p \<noteq> 0 \<and> unat (sq p) = b + k"
    "k < length ls \<Longrightarrow> distinct (pl_pins (ls ! k))"
    "k < length ls \<Longrightarrow> length (pl_pins (ls ! k)) \<le> unat (pl_count (ls ! k))"
  using assms unfolding pins_ok_def by blast+

lemma pins_okI:
  assumes "\<And>p. sq p \<noteq> 0 \<Longrightarrow> b \<le> unat (sq p) \<and> unat (sq p) < b + length ls \<and> p \<in> set (pl_pins (ls ! (unat (sq p) - b)))"
    and "\<And>k p. k < length ls \<Longrightarrow> p \<in> set (pl_pins (ls ! k)) \<Longrightarrow> sq p \<noteq> 0 \<and> unat (sq p) = b + k"
    and "\<And>k. k < length ls \<Longrightarrow> distinct (pl_pins (ls ! k)) \<and> length (pl_pins (ls ! k)) \<le> unat (pl_count (ls ! k))"
  shows "pins_ok b ls sq"
  unfolding pins_ok_def using assms by blast

definition pin_inv :: "'z journal_pins_scheme \<Rightarrow> bool" where
  "pin_inv j \<longleftrightarrow> jp_ring_ok j \<and> pins_ok (jp_first j) (jp_list j) (jp_seq j)"

lemma pl_pins_unlink: "pl_pins (pl_unlink p l) = removeAll p (pl_pins l)"
  by (simp add: pl_pins_def pl_unlink_def JOURNAL_PIN_FLUSH_ORDER_def)

lemma pl_unlink_count [simp]: "pl_count (pl_unlink p l) = pl_count l"
  by (simp add: pl_unlink_def)

lemma pl_pins_count [simp]: "pl_pins (l\<lparr>pl_count := c\<rparr>) = pl_pins l"
  by (simp add: pl_pins_def JOURNAL_PIN_FLUSH_ORDER_def)

lemma mset_pl_pins_append:
  "mset (pl_pins (l\<lparr>pl_unflushed := (pl_unflushed l)(t := pl_unflushed l t @ [p])\<rparr>)) = add_mset p (mset (pl_pins l))"
  by (cases t) (simp_all add: pl_pins_def JOURNAL_PIN_FLUSH_ORDER_def)

lemma pins_ok_drain:
  assumes "pins_ok b ls sq"
  shows "pins_ok (b + zeros ls) (drop (zeros ls) ls) sq"
proof -
  have z: "pl_pins (ls ! k) = []" if "k < zeros ls" for k
  proof -
    have "takeWhile (\<lambda>l. pl_count l = 0) ls ! k \<in> set (takeWhile (\<lambda>l. pl_count l = 0) ls)"
      using that by (simp add: zeros_def)
    moreover have "takeWhile (\<lambda>l. pl_count l = 0) ls ! k = ls ! k"
      using that takeWhile_nth by (simp add: zeros_def)
    ultimately have "k < length ls" "pl_count (ls ! k) = 0"
      using that length_takeWhile_le[of "\<lambda>l. pl_count l = 0" ls] set_takeWhileD
      by (force simp: zeros_def)+
    then show ?thesis
      using pins_okD(6)[OF assms, of k] by simp
  qed
  have ge: "b + zeros ls \<le> unat (sq p)" if "sq p \<noteq> 0" for p
  proof (rule ccontr)
    assume "\<not> b + zeros ls \<le> unat (sq p)"
    then have "unat (sq p) - b < zeros ls"
      using pins_okD(1)[OF assms that] by simp
    then show False
      using z pins_okD(3)[OF assms that] by simp
  qed
  have le: "zeros ls \<le> length ls"
    by (simp add: zeros_def length_takeWhile_le)
  have nth: "drop (zeros ls) ls ! k = ls ! (zeros ls + k)" if "k < length ls - zeros ls" for k
    using that by simp
  show ?thesis
    unfolding pins_ok_def
  proof (intro conjI allI impI ballI)
    fix p
    assume "sq p \<noteq> 0"
    note p = pins_okD(1-3)[OF assms this] ge[OF this]
    show "b + zeros ls \<le> unat (sq p)" "unat (sq p) < b + zeros ls + length (drop (zeros ls) ls)"
      using p le by simp_all
    have "drop (zeros ls) ls ! (unat (sq p) - (b + zeros ls)) = ls ! (unat (sq p) - b)"
      using p le by simp
    then show "p \<in> set (pl_pins (drop (zeros ls) ls ! (unat (sq p) - (b + zeros ls))))"
      using p(3) by simp
  next
    fix k
    assume "k < length (drop (zeros ls) ls)"
    then have k: "zeros ls + k < length ls" "drop (zeros ls) ls ! k = ls ! (zeros ls + k)"
      by simp_all
    show "distinct (pl_pins (drop (zeros ls) ls ! k))" "length (pl_pins (drop (zeros ls) ls ! k)) \<le> unat (pl_count (drop (zeros ls) ls ! k))"
      using pins_okD(5,6)[OF assms k(1)] by (simp_all add: k(2))
    show "sq p \<noteq> 0" "unat (sq p) = b + zeros ls + k" if "p \<in> set (pl_pins (drop (zeros ls) ls ! k))" for p
      using pins_okD(4)[OF assms k(1)] that by (auto simp: k(2))
  qed
qed

lemma pins_ok_unlink:
  assumes ok: "pins_ok b ls sq" and p: "sq p \<noteq> 0" and k: "k = unat (sq p) - b"
  shows "pins_ok b ((map (pl_unlink p) ls)[k := (pl_unlink p (ls ! k))\<lparr>pl_count := pl_count (ls ! k) - 1\<rparr>]) (sq(p := 0))"
    (is "pins_ok b ?ls _")
proof -
  note pk = pins_okD(1-3)[OF ok p]
  have kl: "k < length ls"
    using pk k by simp
  have pins: "pl_pins (?ls ! i) = removeAll p (pl_pins (ls ! i))" if "i < length ls" for i
    using that kl by (cases "i = k") (simp_all add: pl_pins_unlink)
  have len: "length (removeAll p (pl_pins (ls ! k))) = length (pl_pins (ls ! k)) - 1"
    using pk(3) pins_okD(5)[OF ok kl] by (simp add: k distinct_remove1_removeAll[symmetric] length_remove1)
  have cnt: "length (removeAll p (pl_pins (ls ! i))) \<le> unat (pl_count (?ls ! i))" if i: "i < length ls" for i
  proof (cases "i = k")
    case True
    have "length (pl_pins (ls ! k)) > 0"
      using pk(3) by (auto simp: k)
    then have "pl_count (ls ! k) \<noteq> 0"
      using pins_okD(6)[OF ok kl] by auto
    then show ?thesis
      using True kl len pins_okD(6)[OF ok kl] by (simp add: unat_minus_one)
  next
    case False
    then show ?thesis
      using i pins_okD(6)[OF ok i] by (simp add: le_trans[OF length_removeAll_less_eq])
  qed
  show ?thesis
    unfolding pins_ok_def length_list_update length_map
  proof (intro conjI allI impI ballI)
    fix r
    assume r: "(sq(p := 0)) r \<noteq> 0"
    then have "r \<noteq> p" "sq r \<noteq> 0"
      by (auto split: if_splits)
    then show "b \<le> unat ((sq(p := 0)) r)" "unat ((sq(p := 0)) r) < b + length ls"
      "r \<in> set (pl_pins (?ls ! (unat ((sq(p := 0)) r) - b)))"
      using pins_okD(1-3)[OF ok, of r] pins[of "unat (sq r) - b"] by auto
  next
    fix i
    assume i: "i < length ls"
    show "distinct (pl_pins (?ls ! i))" "length (pl_pins (?ls ! i)) \<le> unat (pl_count (?ls ! i))"
      using pins_okD(5)[OF ok i] cnt[OF i] by (simp_all only: pins[OF i] distinct_removeAll)
    fix r
    assume "r \<in> set (pl_pins (?ls ! i))"
    then have "r \<noteq> p" "r \<in> set (pl_pins (ls ! i))"
      by (simp_all only: pins[OF i]) auto
    then show "(sq(p := 0)) r \<noteq> 0" "unat ((sq(p := 0)) r) = b + i"
      using pins_okD(4)[OF ok i] by auto
  qed
qed

definition pl_add :: "pin_type \<Rightarrow> pin \<Rightarrow> pin_list \<Rightarrow> pin_list" where
  "pl_add t p l = l\<lparr>pl_count := pl_count l + 1, pl_unflushed := (pl_unflushed l)(t := pl_unflushed l t @ [p])\<rparr>"

lemma mset_pl_add: "mset (pl_pins (pl_add t p l)) = add_mset p (mset (pl_pins l))"
  using mset_pl_pins_append[of "l\<lparr>pl_count := pl_count l + 1\<rparr>" t p] by (simp add: pl_add_def)

lemma pl_add_facts:
  "set (pl_pins (pl_add t p l)) = insert p (set (pl_pins l))"
  "length (pl_pins (pl_add t p l)) = Suc (length (pl_pins l))"
  "distinct (pl_pins (pl_add t p l)) \<longleftrightarrow> p \<notin> set (pl_pins l) \<and> distinct (pl_pins l)"
  "pl_count (pl_add t p l) = pl_count l + 1"
proof -
  have m: "mset (pl_pins (pl_add t p l)) = mset (p # pl_pins l)"
    by (simp add: mset_pl_add)
  show "set (pl_pins (pl_add t p l)) = insert p (set (pl_pins l))" "length (pl_pins (pl_add t p l)) = Suc (length (pl_pins l))"
    using mset_eq_setD[OF m] mset_eq_length[OF m] by simp_all
  show "distinct (pl_pins (pl_add t p l)) \<longleftrightarrow> p \<notin> set (pl_pins l) \<and> distinct (pl_pins l)"
    using mset_eq_imp_distinct_iff[OF m] by simp
  show "pl_count (pl_add t p l) = pl_count l + 1"
    by (simp add: pl_add_def)
qed

lemma pins_ok_link:
  assumes ok: "pins_ok b ls sq" and p: "sq p = 0" and q: "q \<noteq> 0" "unat q = b + k" and k: "k < length ls"
    and c: "pl_count (ls ! k) \<noteq> - 1"
  shows "pins_ok b (ls[k := pl_add t p (ls ! k)]) (sq(p := q))"
proof -
  have np: "p \<notin> set (pl_pins (ls ! i))" if "i < length ls" for i
    using pins_okD(4)[OF ok that, of p] p by auto
  have cc: "unat (pl_count (ls ! k) + 1) = Suc (unat (pl_count (ls ! k)))"
    using c by (metis add.commute unatSuc add_eq_0_iff)
  have l: "pl_pins (ls[k := pl_add t p (ls ! k)] ! i) = (if i = k then pl_pins (pl_add t p (ls ! k)) else pl_pins (ls ! i))"
    "pl_count (ls[k := pl_add t p (ls ! k)] ! i) = (if i = k then pl_count (ls ! k) + 1 else pl_count (ls ! i))" for i
    using k by (simp_all add: nth_list_update pl_add_facts(4))
  show ?thesis
  proof (rule pins_okI, unfold length_list_update)
    fix r
    assume r: "(sq(p := q)) r \<noteq> 0"
    show "b \<le> unat ((sq(p := q)) r) \<and> unat ((sq(p := q)) r) < b + length ls \<and>
      r \<in> set (pl_pins (ls[k := pl_add t p (ls ! k)] ! (unat ((sq(p := q)) r) - b)))"
    proof (cases "r = p")
      case True
      then show ?thesis
        using q k by (simp add: l pl_add_facts)
    next
      case False
      then show ?thesis
        using r pins_okD(1-3)[OF ok, of r] by (auto simp: l pl_add_facts)
    qed
  next
    fix i r
    assume i: "i < length ls" and r: "r \<in> set (pl_pins (ls[k := pl_add t p (ls ! k)] ! i))"
    show "(sq(p := q)) r \<noteq> 0 \<and> unat ((sq(p := q)) r) = b + i"
    proof (cases "r = p")
      case True
      then have "i = k"
        using r np[OF i] by (simp add: l split: if_splits)
      then show ?thesis
        using True q by simp
    next
      case False
      then have "r \<in> set (pl_pins (ls ! i))"
        using r by (simp add: l pl_add_facts split: if_splits)
      then show ?thesis
        using False pins_okD(4)[OF ok i] by simp
    qed
  next
    fix i
    assume i: "i < length ls"
    show "distinct (pl_pins (ls[k := pl_add t p (ls ! k)] ! i)) \<and>
      length (pl_pins (ls[k := pl_add t p (ls ! k)] ! i)) \<le> unat (pl_count (ls[k := pl_add t p (ls ! k)] ! i))"
      using np[OF i] pins_okD(5,6)[OF ok i] cc by (auto simp: l pl_add_facts)
  qed
qed

lemma pins_ok_put:
  assumes ok: "pins_ok b ls sq" and k: "k < length ls" "length (pl_pins (ls ! k)) < unat (pl_count (ls ! k))"
  shows "pins_ok b (ls[k := (ls ! k)\<lparr>pl_count := pl_count (ls ! k) - 1\<rparr>]) sq"
proof -
  have "pl_count (ls ! k) \<noteq> 0"
    using k(2) by auto
  then have "length (pl_pins (ls ! k)) \<le> unat (pl_count (ls ! k) - 1)"
    using k(2) by (simp add: unat_minus_one)
  moreover have "pl_pins (ls[k := (ls ! k)\<lparr>pl_count := pl_count (ls ! k) - 1\<rparr>] ! i) = pl_pins (ls ! i)"
    "pl_count (ls[k := (ls ! k)\<lparr>pl_count := pl_count (ls ! k) - 1\<rparr>] ! i) =
      (if i = k then pl_count (ls ! k) - 1 else pl_count (ls ! i))" for i
    using k(1) by (simp_all add: nth_list_update)
  ultimately show ?thesis
    using pins_okD[OF ok] by (intro pins_okI) simp_all
qed

lemma pins_ok_open:
  assumes "pins_ok b ls sq"
  shows "pins_ok b (ls @ [pin_list_new c]) sq"
proof -
  have e: "pl_pins (pin_list_new c) = []"
    by (simp add: pl_pins_def pin_list_new_def JOURNAL_PIN_FLUSH_ORDER_def)
  show ?thesis
  proof (rule pins_okI)
    fix p
    assume "sq p \<noteq> 0"
    note p = pins_okD(1-3)[OF assms this]
    then have "unat (sq p) - b < length ls"
      by simp
    with p show "b \<le> unat (sq p) \<and> unat (sq p) < b + length (ls @ [pin_list_new c]) \<and>
      p \<in> set (pl_pins ((ls @ [pin_list_new c]) ! (unat (sq p) - b)))"
      by (simp add: nth_append)
  next
    fix k p
    assume "k < length (ls @ [pin_list_new c])" "p \<in> set (pl_pins ((ls @ [pin_list_new c]) ! k))"
    then show "sq p \<noteq> 0 \<and> unat (sq p) = b + k"
      using pins_okD(4)[OF assms] e by (cases "k < length ls") (auto simp: nth_append less_Suc_eq)
  next
    fix k
    assume "k < length (ls @ [pin_list_new c])"
    then show "distinct (pl_pins ((ls @ [pin_list_new c]) ! k)) \<and>
      length (pl_pins ((ls @ [pin_list_new c]) ! k)) \<le> unat (pl_count ((ls @ [pin_list_new c]) ! k))"
      using pins_okD(5,6)[OF assms] e by (cases "k < length ls") (auto simp: nth_append less_Suc_eq)
  qed
qed

subsection \<open>Operations keep the invariant\<close>

lemma pin_invD:
  "pin_inv j \<Longrightarrow> jp_ring_ok j" "pin_inv j \<Longrightarrow> pins_ok (jp_first j) (jp_list j) (jp_seq j)"
  by (simp_all add: pin_inv_def)

lemma pin_inv_update: "pin_inv j \<Longrightarrow> pin_inv (maybe_update_last_seq j)"
  using update_last_seq_view pins_ok_drain by (fastforce simp: pin_inv_def)

lemma jp_ring_cong:
  assumes "jp_fifo j' = jp_fifo j" "jp_last_seq_ondisk j' = jp_last_seq_ondisk j"
  shows "jp_ring_ok j' = jp_ring_ok j" "jp_list j' = jp_list j" "jp_first j' = jp_first j"
  using assms by (simp_all add: jp_ring_ok_def jp_list_def jp_first_def)

lemma jp_upd_simps [simp]:
  "jp_ring_ok (j\<lparr>jp_seq := s\<rparr>) = jp_ring_ok j" "jp_list (j\<lparr>jp_seq := s\<rparr>) = jp_list j"
  "jp_first (j\<lparr>jp_seq := s\<rparr>) = jp_first j"
  "jp_ring_ok (j\<lparr>jp_flush := g\<rparr>) = jp_ring_ok j" "jp_list (j\<lparr>jp_flush := g\<rparr>) = jp_list j"
  "jp_first (j\<lparr>jp_flush := g\<rparr>) = jp_first j"
  by (rule jp_ring_cong; simp)+

lemma upd_slot_fields [simp]:
  "jp_seq (upd_slot i g j) = jp_seq j" "jp_last_seq_ondisk (upd_slot i g j) = jp_last_seq_ondisk j"
  "jp_type (upd_slot i g j) = jp_type j" "jp_first (upd_slot i g j) = jp_first j"
  by (simp_all add: upd_slot_def jp_first_def)

lemma unlink_fields [simp]:
  "jp_seq (unlink_pin p j) = jp_seq j" "jp_last_seq_ondisk (unlink_pin p j) = jp_last_seq_ondisk j"
  "jp_type (unlink_pin p j) = jp_type j" "jp_first (unlink_pin p j) = jp_first j"
  by (simp_all add: unlink_pin_def jp_first_def)

lemma active_slot:
  assumes "pin_inv j" "jp_seq j p \<noteq> 0"
  shows "seq_slot (jp_seq j p) j = Some (pf_at (jp_fifo j) (unat (jp_seq j p) - jp_first j))"
    "pf_entry_for_seq (jp_seq j p) (jp_fifo j) = Some (jp_list j ! (unat (jp_seq j p) - jp_first j))"
    "unat (jp_seq j p) - jp_first j < length (jp_list j)"
  using seq_slot_in[OF pin_invD(1)[OF assms(1)] pins_okD(1,2)[OF pin_invD(2)[OF assms(1)] assms(2)]] by auto

lemma pin_drop_locked_view:
  assumes "pin_inv j" "jp_seq j p \<noteq> 0" and k: "k = unat (jp_seq j p) - jp_first j"
    and d: "pin_drop_locked (Some (pf_at (jp_fifo j) k)) p j = (r, j')"
  shows "jp_ring_ok j'" "jp_first j' = jp_first j" "jp_seq j' = jp_seq j" "jp_type j' = jp_type j"
    "jp_list j' = (map (pl_unlink p) (jp_list j))[k := (pl_unlink p (jp_list j ! k))\<lparr>pl_count := pl_count (jp_list j ! k) - 1\<rparr>]"
    "\<And>i. pf_at (jp_fifo j') i = pf_at (jp_fifo j) i"
proof -
  define j1 where "j1 = (if jp_in_progress j = p then j\<lparr>jp_dropped := True\<rparr> else j)"
  let ?j2 = "unlink_pin p j1"
  have kl: "k < length (jp_list j)"
    using active_slot(3)[OF assms(1,2)] k by simp
  have same: "jp_fifo j1 = jp_fifo j" "jp_last_seq_ondisk j1 = jp_last_seq_ondisk j" "jp_seq j1 = jp_seq j" "jp_type j1 = jp_type j"
    by (simp_all add: j1_def)
  have r1: "jp_ring_ok j1" "jp_list j1 = jp_list j"
    using jp_ring_cong[OF same(1,2)] pin_invD(1)[OF assms(1)] by simp_all
  note u = unlink_view[OF r1(1), of p]
  have j': "j' = upd_slot (pf_at (jp_fifo j) k) (\<lambda>l. l\<lparr>pl_count := pl_count l - 1\<rparr>) ?j2"
    using d assms(2) by (simp add: pin_drop_locked_def j1_def[symmetric] Let_def)
  have at: "pf_at (jp_fifo j) k = pf_at (jp_fifo ?j2) k"
    by (simp add: u(3) same(1))
  have kl2: "k < length (jp_list ?j2)"
    using kl by (simp add: u(2) r1(2))
  show "jp_ring_ok j'" "jp_list j' = (map (pl_unlink p) (jp_list j))[k := (pl_unlink p (jp_list j ! k))\<lparr>pl_count := pl_count (jp_list j ! k) - 1\<rparr>]"
    using upd_slot_view[OF u(1) kl2] kl by (simp_all add: j' at u(2) r1(2))
  show "jp_first j' = jp_first j" "jp_seq j' = jp_seq j" "jp_type j' = jp_type j"
    using jp_ring_cong(3)[OF same(1,2)] by (simp_all add: j' same)
  show "pf_at (jp_fifo j') i = pf_at (jp_fifo j) i" for i
    using u(3)[of i] by (simp add: j' upd_slot_def pf_at_def same(1))
qed

lemma pin_inv_drop:
  assumes "pin_inv j"
  shows "\<exists>j'. pin_drop p j = Some j' \<and> pin_inv j' \<and> jp_seq j' = (jp_seq j)(p := 0)"
proof (cases "jp_seq j p = 0")
  case True
  then have "(jp_seq j)(p := 0) = jp_seq j"
    by auto
  then show ?thesis
    using True assms by (simp add: pin_drop_def)
next
  case False
  let ?k = "unat (jp_seq j p) - jp_first j"
  obtain r j1 where d: "pin_drop_locked (Some (pf_at (jp_fifo j) ?k)) p j = (r, j1)"
    by (cases "pin_drop_locked (Some (pf_at (jp_fifo j) ?k)) p j")
  note v = pin_drop_locked_view[OF assms False refl d]
  let ?j2 = "j1\<lparr>jp_seq := (jp_seq j1)(p := 0)\<rparr>"
  have inv: "pin_inv ?j2"
    using pins_ok_unlink[OF pin_invD(2)[OF assms] False refl] v by (simp add: pin_inv_def)
  have "pin_drop p j = Some (if r then maybe_update_last_seq ?j2 else ?j2)"
    using False active_slot(1)[OF assms False] d by (simp add: pin_drop_def)
  then show ?thesis
    using inv pin_inv_update[OF inv] update_last_seq_view(4)[OF pin_invD(1)[OF inv]] v(3) by auto
qed

text \<open>Binding a pin that is not linked anywhere.\<close>

lemma pin_link_view:
  assumes r: "jp_ring_ok j" and ok: "pins_ok (jp_first j) (jp_list j) ((jp_seq j)(p := 0))"
    and q: "q \<noteq> 0" "unat q = jp_first j + k" and k: "k < length (jp_list j)" "pl_count (jp_list j ! k) \<noteq> - 1"
  defines "j3 \<equiv> (upd_slot (pf_at (jp_fifo j) k) (\<lambda>l. l\<lparr>pl_count := pl_count l + 1\<rparr>) j)\<lparr>jp_seq := (jp_seq j)(p := q)\<rparr>"
  assumes j4: "j4 = j3 \<or> j4 = j3\<lparr>jp_flush := g\<rparr>"
  shows "\<not> pin_linked p j4"
    "pin_inv (upd_slot (pf_at (jp_fifo j) k) (\<lambda>l. l\<lparr>pl_unflushed := (pl_unflushed l)(t := pl_unflushed l t @ [p])\<rparr>) j4)"
    "jp_seq (upd_slot (pf_at (jp_fifo j) k) h j4) = (jp_seq j)(p := q)"
proof -
  let ?i = "pf_at (jp_fifo j) k"
  let ?l = "jp_list j ! k"
  let ?j2 = "upd_slot ?i (\<lambda>l. l\<lparr>pl_count := pl_count l + 1\<rparr>) j"
  note u = upd_slot_view[OF r k(1), of "\<lambda>l. l\<lparr>pl_count := pl_count l + 1\<rparr>"]
  have r4: "jp_ring_ok j4" and l4: "jp_list j4 = (jp_list j)[k := ?l\<lparr>pl_count := pl_count ?l + 1\<rparr>]"
    and f4: "jp_first j4 = jp_first j" and s4: "jp_seq j4 = (jp_seq j)(p := q)"
    using j4 u by (auto simp: j3_def)
  have a4: "pf_at (jp_fifo j4) k = ?i"
    using j4 by (auto simp: j3_def upd_slot_def pf_at_def)
  have np: "p \<notin> set (pl_pins (jp_list j ! i))" if "i < length (jp_list j)" for i
    using pins_okD(4)[OF ok that, of p] by auto
  have "p \<notin> set (pl_pins (jp_list j4 ! i))" if "i < length (jp_list j)" for i
    using np[OF that] np[OF k(1)] that k(1) by (simp add: l4 nth_list_update)
  then show "\<not> pin_linked p j4"
    using pin_linked_view[OF r4] l4 by (metis in_set_conv_nth length_list_update)
  have k4: "k < length (jp_list j4)"
    using k(1) by (simp add: l4)
  let ?h = "\<lambda>l. l\<lparr>pl_unflushed := (pl_unflushed l)(t := pl_unflushed l t @ [p])\<rparr>"
  note v = upd_slot_view[OF r4 k4, of ?h, unfolded a4]
  have "jp_list (upd_slot ?i ?h j4) = (jp_list j)[k := pl_add t p ?l]"
    using k(1) by (simp add: v(2) l4 pl_add_def)
  moreover have "pins_ok (jp_first j) ((jp_list j)[k := pl_add t p ?l]) (((jp_seq j)(p := 0))(p := q))"
    by (rule pins_ok_link[OF ok _ q k]) simp
  ultimately show "pin_inv (upd_slot ?i ?h j4)"
    using v(1) by (simp add: pin_inv_def f4 s4)
  show "jp_seq (upd_slot ?i h j4) = (jp_seq j)(p := q)"
    by (simp add: s4)
qed

definition can_pin :: "u64 \<Rightarrow> 'z journal_pins_scheme \<Rightarrow> bool" where
  "can_pin q j \<longleftrightarrow> q \<noteq> 0 \<and> jp_first j \<le> unat q \<and> unat q < jp_first j + length (jp_list j) \<and>
     pl_count (jp_list j ! (unat q - jp_first j)) \<noteq> - 1"

lemma pin_inv_set:
  assumes inv: "pin_inv j" and q: "can_pin q j"
  shows "\<exists>j'. pin_set q p fl j = Some j' \<and> pin_inv j' \<and> jp_seq j' = (jp_seq j)(p := q)"
proof -
  let ?k = "unat q - jp_first j" and ?i = "pf_at (jp_fifo j) (unat q - jp_first j)"
  note r = pin_invD(1)[OF inv]
  have q': "q \<noteq> 0" "jp_first j \<le> unat q" "unat q < jp_first j + length (jp_list j)"
    and c: "pl_count (jp_list j ! ?k) \<noteq> - 1"
    using q by (simp_all add: can_pin_def)
  have k: "?k < length (jp_list j)" and uq: "unat q = jp_first j + ?k"
    using q' by simp_all
  have slot: "seq_slot q j = Some ?i"
    using seq_slot_in(1)[OF r q'(2,3)] .
  define d where "d = (if jp_seq j p \<noteq> 0 then pin_drop_locked (maybe_seq_pin (jp_seq j p) j) p j else (False, j))"
  obtain rc j1 where d1: "d = (rc, j1)"
    by (cases d)
  have "jp_ring_ok j1 \<and> jp_first j1 = jp_first j \<and> jp_seq j1 = jp_seq j \<and> pf_at (jp_fifo j1) ?k = ?i \<and>
      length (jp_list j1) = length (jp_list j) \<and> pl_count (jp_list j1 ! ?k) \<noteq> - 1 \<and>
      pins_ok (jp_first j1) (jp_list j1) ((jp_seq j1)(p := 0))"
  proof (cases "jp_seq j p = 0")
    case True
    then have "(jp_seq j)(p := 0) = jp_seq j" "j1 = j"
      using d1 by (auto simp: d_def)
    then show ?thesis
      using r c pin_invD(2)[OF inv] by simp
  next
    case False
    let ?m = "unat (jp_seq j p) - jp_first j"
    have "pin_drop_locked (Some (pf_at (jp_fifo j) ?m)) p j = (rc, j1)"
      using False d1 active_slot(1)[OF inv False] by (simp add: d_def maybe_seq_pin_def)
    note w = pin_drop_locked_view[OF inv False refl this]
    have "pl_count (jp_list j ! ?m) \<noteq> 0"
      using pins_okD(6)[OF pin_invD(2)[OF inv] active_slot(3)[OF inv False]] pins_okD(3)[OF pin_invD(2)[OF inv] False] by auto
    then have "pl_count (jp_list j1 ! ?k) \<noteq> - 1"
      using c k by (cases "?k = ?m") (simp_all add: w(5))
    then show ?thesis
      using w pins_ok_unlink[OF pin_invD(2)[OF inv] False refl] by simp
  qed
  then have v: "jp_ring_ok j1" "jp_first j1 = jp_first j" "jp_seq j1 = jp_seq j" "pf_at (jp_fifo j1) ?k = ?i"
    "length (jp_list j1) = length (jp_list j)" "pl_count (jp_list j1 ! ?k) \<noteq> - 1"
    "pins_ok (jp_first j1) (jp_list j1) ((jp_seq j1)(p := 0))"
    by blast+
  have uq1: "unat q = jp_first j1 + ?k" and k1: "?k < length (jp_list j1)"
    using uq k v by simp_all
  let ?j3 = "(upd_slot ?i (\<lambda>l. l\<lparr>pl_count := pl_count l + 1\<rparr>) j1)\<lparr>jp_seq := (jp_seq j1)(p := q)\<rparr>"
  define j4 where "j4 = (if fl then ?j3\<lparr>jp_flush := (jp_flush ?j3)(p := True)\<rparr> else ?j3)"
  have j4: "j4 = ?j3 \<or> j4 = ?j3\<lparr>jp_flush := (jp_flush ?j3)(p := True)\<rparr>"
    by (simp add: j4_def)
  note l = pin_link_view[OF v(1,7) q'(1) uq1 k1 v(6), unfolded v(4), OF j4]
  let ?j5 = "upd_slot ?i (\<lambda>l. l\<lparr>pl_unflushed := (pl_unflushed l)(jp_type j4 p := pl_unflushed l (jp_type j4 p) @ [p])\<rparr>) j4"
  have "pin_set_locked (maybe_seq_pin (jp_seq j p) j) ?i p q fl j = Some (rc, ?j5)"
    using l(1) d1[unfolded d_def] unfolding pin_set_locked_def Let_def by (cases fl) (simp_all add: j4_def)
  then have "pin_set q p fl j = Some (if rc then maybe_update_last_seq ?j5 else ?j5)"
    by (simp add: pin_set_def slot)
  then show ?thesis
    using l(2,3) pin_inv_update[OF l(2)] update_last_seq_view(4)[OF pin_invD(1)[OF l(2)]] v(3) by auto
qed

text \<open>The other three ways to bind a pin are \<open>pin_set\<close> or nothing.\<close>

lemma pin_copy_set: "pin_copy dst src fl j = (if jp_seq j src = 0 then Some j else pin_set (jp_seq j src) dst fl j)"
  by (simp add: pin_copy_def pin_set_def Let_def)

lemma pin_inv_bind:
  assumes inv: "pin_inv j"
  shows "can_pin q j \<Longrightarrow> \<exists>j'. pin_add q p fl j = Some j' \<and> pin_inv j'"
    and "can_pin q j \<Longrightarrow> \<exists>j'. pin_update q p fl j = Some j' \<and> pin_inv j'"
    and "(jp_seq j src \<noteq> 0 \<longrightarrow> can_pin (jp_seq j src) j) \<Longrightarrow> \<exists>j'. pin_copy p src fl j = Some j' \<and> pin_inv j'"
proof -
  have s: "can_pin q j \<Longrightarrow> \<exists>j'. pin_set q p fl j = Some j' \<and> pin_inv j'" for q
    using pin_inv_set[OF inv] by blast
  show "can_pin q j \<Longrightarrow> \<exists>j'. pin_add q p fl j = Some j' \<and> pin_inv j'"
    "can_pin q j \<Longrightarrow> \<exists>j'. pin_update q p fl j = Some j' \<and> pin_inv j'"
    "(jp_seq j src \<noteq> 0 \<longrightarrow> can_pin (jp_seq j src) j) \<Longrightarrow> \<exists>j'. pin_copy p src fl j = Some j' \<and> pin_inv j'"
    using s inv by (auto simp: pin_add_def pin_update_def pin_copy_set)
qed

lemma pin_inv_put:
  assumes inv: "pin_inv j" and q: "jp_first j \<le> unat q" "unat q < jp_first j + length (jp_list j)"
    and c: "length (pl_pins (jp_list j ! (unat q - jp_first j))) < unat (pl_count (jp_list j ! (unat q - jp_first j)))"
  shows "pin_inv (snd (pin_put q j))"
proof -
  let ?k = "unat q - jp_first j" and ?g = "\<lambda>l :: pin_list. l\<lparr>pl_count := pl_count l - 1\<rparr>"
  note r = pin_invD(1)[OF inv]
  note s = seq_slot_in[OF r q]
  have sl: "slot_of_seq q = pf_at (jp_fifo j) ?k"
    using s(1) by (simp add: seq_slot_def split: if_splits)
  have "snd (pin_put q j) = upd_slot (pf_at (jp_fifo j) ?k) ?g j"
    by (simp add: pin_put_def s(2) sl)
  then show ?thesis
    using upd_slot_view[OF r s(3), of ?g] pins_ok_put[OF pin_invD(2)[OF inv] s(3) c] by (simp add: pin_inv_def)
qed

lemma pins_ok_requeue:
  assumes ok: "pins_ok b ls sq" and p: "sq p \<noteq> 0" and k: "k = unat (sq p) - b"
    and l: "\<And>l. pl_count (mv l) = pl_count l" "\<And>l. pl_pins (mv l) = pl_pins l @ [p]"
  shows "pins_ok b ((map (pl_unlink p) ls)[k := mv (pl_unlink p (ls ! k))]) sq"
proof -
  note pk = pins_okD(1-3)[OF ok p]
  have kl: "k < length ls"
    using pk k by simp
  let ?ls = "(map (pl_unlink p) ls)[k := mv (pl_unlink p (ls ! k))]"
  have at_k: "set (pl_pins (?ls ! k)) = set (pl_pins (ls ! k))" "distinct (pl_pins (?ls ! k))"
    "length (pl_pins (?ls ! k)) = length (pl_pins (ls ! k))"
  proof -
    have e: "pl_pins (?ls ! k) = removeAll p (pl_pins (ls ! k)) @ [p]"
      using kl by (simp add: l pl_pins_unlink)
    have pos: "length (pl_pins (ls ! k)) > 0"
      using pk(3) k by auto
    show "set (pl_pins (?ls ! k)) = set (pl_pins (ls ! k))" "distinct (pl_pins (?ls ! k))"
      using pk(3) pins_okD(5)[OF ok kl] unfolding e by (auto simp: k distinct_removeAll)
    show "length (pl_pins (?ls ! k)) = length (pl_pins (ls ! k))"
      using pk(3) pins_okD(5)[OF ok kl] pos unfolding e
      by (simp add: k distinct_remove1_removeAll[symmetric] length_remove1)
  qed
  have off_k: "pl_pins (?ls ! i) = pl_pins (ls ! i)" if "i < length ls" "i \<noteq> k" for i
  proof -
    have "p \<notin> set (pl_pins (ls ! i))"
      using pins_okD(4)[OF ok that(1), of p] that(2) k by auto
    then show ?thesis
      using that by (simp add: pl_pins_unlink)
  qed
  have cnt: "pl_count (?ls ! i) = pl_count (ls ! i)" if "i < length ls" for i
    using that kl by (cases "i = k") (simp_all add: l)
  have set: "set (pl_pins (?ls ! i)) = set (pl_pins (ls ! i))" if "i < length ls" for i
    using at_k(1) off_k[OF that] by (cases "i = k") simp_all
  show ?thesis
  proof (rule pins_okI, unfold length_list_update length_map)
    fix r
    assume r: "sq r \<noteq> 0"
    note w = pins_okD(1-3)[OF ok r]
    then have "unat (sq r) - b < length ls"
      by simp
    then show "b \<le> unat (sq r) \<and> unat (sq r) < b + length ls \<and> r \<in> set (pl_pins (?ls ! (unat (sq r) - b)))"
      using w set by simp
  next
    fix i r
    assume "i < length ls" "r \<in> set (pl_pins (?ls ! i))"
    then show "sq r \<noteq> 0 \<and> unat (sq r) = b + i"
      using pins_okD(4)[OF ok] set by simp
  next
    fix i
    assume i: "i < length ls"
    show "distinct (pl_pins (?ls ! i)) \<and> length (pl_pins (?ls ! i)) \<le> unat (pl_count (?ls ! i))"
      using pins_okD(5,6)[OF ok i] at_k(2,3) off_k[OF i] cnt[OF i] by (cases "i = k") simp_all
  qed
qed

lemma pin_inv_cong:
  assumes "jp_fifo j' = jp_fifo j" "jp_last_seq_ondisk j' = jp_last_seq_ondisk j" "jp_seq j' = jp_seq j"
  shows "pin_inv j' = pin_inv j"
  using jp_ring_cong[OF assms(1,2)] assms(3) by (simp add: pin_inv_def)

lemma pin_inv_flush_cleanup:
  assumes inv: "pin_inv j" and q: "q \<noteq> 0" "jp_dropped j \<or> jp_seq j p = q"
  shows "pin_inv (flush_cleanup p q j)" "jp_seq (flush_cleanup p q j) = jp_seq j"
proof -
  have "pin_inv (flush_cleanup p q j) \<and> jp_seq (flush_cleanup p q j) = jp_seq j"
  proof (cases "jp_dropped j \<or> seq_slot q j = None")
    case True
    then show ?thesis
      using inv pin_inv_cong[of "j\<lparr>jp_in_progress := 0, jp_dropped := False\<rparr>" j]
      by (auto simp: flush_cleanup_def split: option.splits)
  next
    case False
    let ?k = "unat (jp_seq j p) - jp_first j"
    have a: "jp_seq j p \<noteq> 0" "jp_seq j p = q"
      using q False by auto
    note s = active_slot[OF inv a(1)]
    note u = unlink_view[OF pin_invD(1)[OF inv], of p]
    let ?g = "\<lambda>l :: pin_list. l\<lparr>pl_flushed := pl_flushed l @ [p]\<rparr>"
    let ?j1 = "upd_slot (pf_at (jp_fifo j) ?k) ?g (unlink_pin p j)"
    have k: "?k < length (jp_list (unlink_pin p j))"
      using s(3) by (simp add: u(2))
    note v = upd_slot_view[OF u(1) k, of ?g, unfolded u(3)]
    have g: "pl_count (?g l) = pl_count l" "pl_pins (?g l) = pl_pins l @ [p]" for l
      by (simp_all add: pl_pins_def JOURNAL_PIN_FLUSH_ORDER_def)
    have "jp_list ?j1 = (map (pl_unlink p) (jp_list j))[?k := ?g (pl_unlink p (jp_list j ! ?k))]"
      using s(3) by (simp add: v(2) u(2))
    then have "pin_inv ?j1"
      using v(1) pins_ok_requeue[OF pin_invD(2)[OF inv] a(1) refl g] by (simp add: pin_inv_def)
    moreover have "flush_cleanup p q j = ?j1\<lparr>jp_in_progress := 0, jp_dropped := False\<rparr>"
      using False a(2) s(1) by (auto simp: flush_cleanup_def)
    ultimately show ?thesis
      using pin_inv_cong[of "?j1\<lparr>jp_in_progress := 0, jp_dropped := False\<rparr>" ?j1] by simp
  qed
  then show "pin_inv (flush_cleanup p q j)" "jp_seq (flush_cleanup p q j) = jp_seq j"
    by blast+
qed

subsection \<open>Runs of the pin operations\<close>

text \<open>
  One step is an entry opened with its own pin, a pin set, added, updated, copied or dropped,
  an entry's own pin given back after its write, the flush of one pin (found, then cleaned up
  after its callback, with any steps between), or a look at the front of the ring. A pin is
  bound only to a sequence number that has a list in the ring: binding it to another one is
  the panic of \<open>journal_seq_pin\<close>.

  A run starts with an empty ring, whose head is slot 0, at a \<open>last_seq_ondisk\<close> that is a
  multiple of 128: that is the state in which \<open>Journal::new\<close> opens its first entry
  (\<open>last_seq_ondisk = 0\<close>), and that of \<open>Journal::from_superblock\<close> when the superblock's
  \<open>last_seq_ondisk\<close> happens to be such a multiple. JournalWedge connects both constructors and
  shows what the other superblocks lead to.
\<close>

inductive pin_step :: "journal_pins \<Rightarrow> journal_pins \<Rightarrow> bool" where
  opens: "pf_push_back (pin_list_new 1) (jp_fifo j) = Some f \<Longrightarrow> jp_first j + Suc (length (jp_list j)) < 2 ^ 64 \<Longrightarrow>
     pin_step j (j\<lparr>jp_fifo := f\<rparr>)"
| set: "can_pin q j \<Longrightarrow> pin_set q p fl j = Some j' \<Longrightarrow> pin_step j j'"
| add: "can_pin q j \<Longrightarrow> pin_add q p fl j = Some j' \<Longrightarrow> pin_step j j'"
| advance: "can_pin q j \<Longrightarrow> pin_update q p fl j = Some j' \<Longrightarrow> pin_step j j'"
| copy: "jp_seq j src \<noteq> 0 \<longrightarrow> can_pin (jp_seq j src) j \<Longrightarrow> pin_copy dst src fl j = Some j' \<Longrightarrow> pin_step j j'"
| drop: "pin_drop p j = Some j' \<Longrightarrow> pin_step j j'"
| put: "jp_first j \<le> unat q \<Longrightarrow> unat q < jp_first j + length (jp_list j) \<Longrightarrow>
     length (pl_pins (jp_list j ! (unat q - jp_first j))) < unat (pl_count (jp_list j ! (unat q - jp_first j))) \<Longrightarrow>
     pin_step j (snd (pin_put q j))"
| flush_begin: "get_next_pin q j = Some (p, q', j') \<Longrightarrow> pin_step j j'"
| flush_end: "q \<noteq> 0 \<Longrightarrow> jp_dropped j \<or> jp_seq j p = q \<Longrightarrow> pin_step j (flush_cleanup p q j)"
| update: "pin_step j (maybe_update_last_seq j)"

definition pin_start :: "journal_pins \<Rightarrow> bool" where
  "pin_start j \<longleftrightarrow> jp_fifo j = pf_new \<and> jp_seq j = (\<lambda>_. 0) \<and> jp_first j mod PIN_FIFO_SIZE = 0"

inductive pin_reachable :: "journal_pins \<Rightarrow> bool" where
  start: "pin_start j \<Longrightarrow> pin_reachable j"
| step: "pin_reachable j \<Longrightarrow> pin_step j j' \<Longrightarrow> pin_reachable j'"

inductive_cases pin_stepE: "pin_step j j'"

lemma pin_inv_start:
  assumes "pin_start j"
  shows "pin_inv j"
proof -
  have l: "jp_list j = []"
    using assms by (simp add: pin_start_def jp_list_def pf_list_def pf_new_def pf_len_def)
  have "jp_first j < 2 ^ 64"
    using unat64_less[of "jp_last_seq_ondisk j"] by (simp add: jp_first_def)
  then show ?thesis
    using assms by (simp add: pin_inv_def jp_ring_ok_def l pins_ok_def)
      (simp add: pin_start_def pf_ok_def pf_clean_def pf_new_def pf_len_def PIN_FIFO_SIZE_def)
qed

lemma pin_inv_open:
  assumes inv: "pin_inv j" and f: "pf_push_back l (jp_fifo j) = Some f" "l = pin_list_new c"
    and n: "jp_first j + Suc (length (jp_list j)) < 2 ^ 64"
  shows "pin_inv (j\<lparr>jp_fifo := f\<rparr>)" "jp_list (j\<lparr>jp_fifo := f\<rparr>) = jp_list j @ [l]"
proof -
  note r = pin_invD(1)[OF inv] and o = jp_ring_okD(1)[OF pin_invD(1)[OF inv]]
  have "length (jp_list j) < 127"
    using f(1) pq.push_iff[OF o, of l] pq.bounded[OF o] by (simp add: jp_list_def)
  then have "jp_ring_ok (j\<lparr>jp_fifo := f\<rparr>) \<and> jp_list (j\<lparr>jp_fifo := f\<rparr>) = jp_list j @ [l]"
    using push_view[OF r _ n, of l] f(1) by auto
  then show "pin_inv (j\<lparr>jp_fifo := f\<rparr>)" "jp_list (j\<lparr>jp_fifo := f\<rparr>) = jp_list j @ [l]"
    using pins_ok_open[OF pin_invD(2)[OF inv], of c] f(2) by (simp_all add: pin_inv_def jp_first_def)
qed

lemma get_next_pin_inv: "get_next_pin q j = Some (p, q', j') \<Longrightarrow> pin_inv j' = pin_inv j"
  by (rule pin_inv_cong) (auto simp: get_next_pin_def split: option.splits)

lemma pin_inv_step: "pin_step j j' \<Longrightarrow> pin_inv j \<Longrightarrow> pin_inv j'"
proof (induction rule: pin_step.induct)
  case (set q j p fl j')
  then show ?case using pin_inv_set[of j q p fl] by auto
next
  case (add q j p fl j')
  then show ?case using pin_inv_bind(1)[of j q p fl] by auto
next
  case (advance q j p fl j')
  then show ?case using pin_inv_bind(2)[of j q p fl] by auto
next
  case (copy j src dst fl j')
  then show ?case using pin_inv_bind(3)[of j src dst fl] by auto
next
  case (drop p j j')
  then show ?case using pin_inv_drop[of j p] by auto
qed (auto simp: pin_inv_open pin_inv_put pin_inv_flush_cleanup pin_inv_update get_next_pin_inv)

lemma pin_reachable_inv: "pin_reachable j \<Longrightarrow> pin_inv j"
  by (induction rule: pin_reachable.induct) (auto intro: pin_inv_start pin_inv_step)

text \<open> C6. In every run of the pin operations (set, add, update, copy, drop, put, flush) from a ring
  that is empty at a \<open>last_seq_ondisk\<close> that is a multiple of 128, as \<open>Journal::new\<close> leaves it, an
  active pin holds back reclaim: the reclaimed position \<open>last_seq_ondisk\<close> is not past the sequence number it is bound to, the lookup by that
  number finds a list that links the pin and counts it, and dropping the pin cannot panic.\<close>
theorem pin_holds_back_reclaim:
  assumes "pin_reachable j" and "jp_seq j p \<noteq> 0"
  shows "jp_last_seq_ondisk j \<le> jp_seq j p \<and>
    (\<exists>l. pf_entry_for_seq (jp_seq j p) (jp_fifo j) = Some l \<and> p \<in> set (pl_pins l) \<and> pl_count l \<noteq> 0) \<and>
    (\<exists>j'. pin_drop p j = Some j' \<and> jp_seq j' p = 0)"
proof -
  have inv: "pin_inv j"
    using pin_reachable_inv[OF assms(1)] .
  note ok = pin_invD(2)[OF inv]
  note a = active_slot[OF inv assms(2)]
  let ?l = "jp_list j ! (unat (jp_seq j p) - jp_first j)"
  have "p \<in> set (pl_pins ?l)"
    using pins_okD(3)[OF ok assms(2)] .
  moreover from this have "pl_count ?l \<noteq> 0"
    using pins_okD(6)[OF ok a(3)] by auto
  moreover have "jp_last_seq_ondisk j \<le> jp_seq j p"
    using pins_okD(1)[OF ok assms(2)] by (simp add: word_le_nat_alt jp_first_def)
  ultimately show ?thesis
    using a(2) pin_inv_drop[OF inv, of p] by auto
qed

definition pins0 :: journal_pins where
  "pins0 = \<lparr>jp_fifo = pf_new, jp_last_seq_ondisk = 0, jp_seq = \<lambda>_. 0, jp_type = \<lambda>_. KeyCache,
     jp_flush = \<lambda>_. True, jp_in_progress = 0, jp_dropped = False\<rparr>"

definition pins_open :: "journal_pins \<Rightarrow> journal_pins" where
  "pins_open j = j\<lparr>jp_fifo := the (pf_push_back (pin_list_new 1) (jp_fifo j))\<rparr>"

definition pins_demo :: journal_pins where
  "pins_demo = the (pin_set 1 7 True (pins_open (pins_open pins0)))"

lemma pins_open_reachable:
  assumes "pin_reachable j" "length (jp_list j) < 127" "jp_first j < 1000"
  shows "pin_reachable (pins_open j)" "jp_list (pins_open j) = jp_list j @ [pin_list_new 1]" "jp_first (pins_open j) = jp_first j"
proof -
  note r = pin_invD(1)[OF pin_reachable_inv[OF assms(1)]]
  obtain f where f: "pf_push_back (pin_list_new 1) (jp_fifo j) = Some f"
    "jp_list (j\<lparr>jp_fifo := f\<rparr>) = jp_list j @ [pin_list_new 1]"
    using push_view[OF r assms(2)] assms(2,3) by fastforce
  have o: "pins_open j = j\<lparr>jp_fifo := f\<rparr>"
    using f(1) by (simp add: pins_open_def)
  show "pin_reachable (pins_open j)"
    unfolding o by (rule pin_reachable.step[OF assms(1) pin_step.opens[OF f(1)]]) (use assms(2,3) in simp)
  show "jp_list (pins_open j) = jp_list j @ [pin_list_new 1]" "jp_first (pins_open j) = jp_first j"
    using f(2) by (simp_all add: o jp_first_def)
qed

lemma pins_demo_reachable: "pin_reachable pins_demo \<and> jp_seq pins_demo 7 = 1"
proof -
  have s: "pin_reachable pins0"
    by (rule pin_reachable.start) (simp add: pin_start_def pins0_def jp_first_def)
  have l0: "jp_list pins0 = []" "jp_first pins0 = 0"
    by (simp_all add: pins0_def jp_list_def pf_list_def pf_new_def pf_len_def jp_first_def)
  note o1 = pins_open_reachable[OF s, unfolded l0, simplified]
  note o2 = pins_open_reachable[OF o1(1), unfolded o1(2,3), simplified]
  have c: "can_pin 1 (pins_open (pins_open pins0))"
    by (simp add: can_pin_def o2 pin_list_new_def)
  obtain j' where j': "pin_set 1 7 True (pins_open (pins_open pins0)) = Some j'"
    "jp_seq j' = (jp_seq (pins_open (pins_open pins0)))(7 := 1)"
    using pin_inv_set[OF pin_reachable_inv[OF o2(1)] c] by blast
  then show ?thesis
    using pin_reachable.step[OF o2(1) pin_step.set[OF c j'(1)]] by (simp add: pins_demo_def)
qed

theorem pin_holds_back_reclaim_witness:
  "jp_last_seq_ondisk pins_demo \<le> 1 \<and> (\<exists>j'. pin_drop 7 pins_demo = Some j' \<and> jp_seq j' 7 = 0)"
  using pin_holds_back_reclaim[of pins_demo 7] pins_demo_reachable by simp

end
