(* ===== verification/JournalSpace.thy ===== *)
theory JournalSpace
  imports Jset Complex_Main
begin

text \<open>
  The journal's buckets (\<open>journal/types.rs\<close>, \<open>JournalSlowpath\<close>) and the allocation priorities
  (\<open>types.rs\<close>, \<open>Watermark\<close>). The buckets form a ring with four indices; the operations that
  move them are functions on the record \<open>slowpath\<close> here, together with the space and
  utilisation figures derived from it. Ratios of byte counts are below \<open>2 ^ 53\<close>, where the
  code's \<open>f64\<close> quotient compares with its constants as the rational does.
\<close>

subsection \<open>Watermarks\<close>

datatype watermark = Stripe | Normal | CopyGC | Btree | BtreeCopyGC | Reclaim | InteriorUpdate

definition wm_from_bits :: "u8 \<Rightarrow> watermark" where
  "wm_from_bits bits =
     (let b = bits AND 7 in
      if b = 0 then Stripe else if b = 1 then Normal else if b = 2 then CopyGC else if b = 3 then Btree
      else if b = 4 then BtreeCopyGC else if b = 5 then Reclaim else InteriorUpdate)"

fun wm_to_bits :: "watermark \<Rightarrow> u8" where
  "wm_to_bits Stripe = 0"
| "wm_to_bits Normal = 1"
| "wm_to_bits CopyGC = 2"
| "wm_to_bits Btree = 3"
| "wm_to_bits BtreeCopyGC = 4"
| "wm_to_bits Reclaim = 5"
| "wm_to_bits InteriorUpdate = 6"

definition reserved_buckets :: "watermark \<Rightarrow> u64 \<Rightarrow> u64" where
  "reserved_buckets w tot =
     (let nb = max tot 4;
          btree_reserve = max (nb div 1024) 32;
          wm = wm_to_bits w;
          r1 = (if wm \<le> wm_to_bits Stripe then max (nb div 64) 1 else 0);
          r2 = r1 + (if wm \<le> wm_to_bits Normal then max (nb div 64) 1 else 0);
          r3 = r2 + (if wm \<le> wm_to_bits CopyGC then btree_reserve else 0);
          r4 = r3 + (if wm \<le> wm_to_bits Btree then btree_reserve else 0)
      in min r4 (saturating_sub tot 1))"

definition from_journal_utilization :: "rat \<Rightarrow> watermark" where
  "from_journal_utilization u =
     (if u \<ge> 90 / 100 then InteriorUpdate else if u \<ge> 80 / 100 then Reclaim
      else if u \<ge> 70 / 100 then Btree else if u \<ge> 50 / 100 then Normal else Stripe)"

definition from_alloc_utilization :: "rat \<Rightarrow> watermark" where
  "from_alloc_utilization u =
     (if u \<ge> 95 / 100 then InteriorUpdate else if u \<ge> 85 / 100 then Reclaim
      else if u \<ge> 75 / 100 then Btree else if u \<ge> 60 / 100 then CopyGC else Stripe)"

definition wm_allows :: "watermark \<Rightarrow> watermark \<Rightarrow> bool" where
  "wm_allows cur request \<longleftrightarrow> wm_to_bits cur \<le> wm_to_bits request"

lemma wm_round_trip [simp]: "wm_from_bits (wm_to_bits w) = w"
  by (cases w) (simp_all add: wm_from_bits_def)

subsection \<open>Buckets\<close>

definition BUCKET_BLOCKS :: u32 where "BUCKET_BLOCKS = 256"

record journal_device =
  jd_addr :: u64
  jd_max_seq :: u64
  jd_dirty :: bool

record sb_state =
  sb_bucket_addrs :: "u64 list"
  sb_last_seq :: u64
  sb_last_seq_ondisk :: u64
  sb_last_bucket :: u32
  sb_discard_idx :: u32
  sb_dirty_idx :: u32
  sb_dirty_idx_ondisk :: u32
  sb_bucket_seq :: "u64 list"
  sb_replayed_seqs :: "u64 list"

record slowpath =
  sp_buckets :: "journal_device list"
  sp_bucket_seq :: "u64 list"
  sp_current_bucket :: nat
  sp_current_offset :: u32
  sp_remaining_bytes :: u32
  sp_discard_idx :: nat
  sp_dirty_idx :: nat
  sp_dirty_idx_ondisk :: nat

definition sp_new :: "u64 list \<Rightarrow> slowpath" where
  "sp_new addrs =
     \<lparr>sp_buckets = map (\<lambda>a. \<lparr>jd_addr = a, jd_max_seq = 0, jd_dirty = False\<rparr>) addrs,
      sp_bucket_seq = replicate (length addrs) 0, sp_current_bucket = 0, sp_current_offset = 0,
      sp_remaining_bytes = BUCKET_BLOCKS * JSET_BLOCK_SIZE,
      sp_discard_idx = 0, sp_dirty_idx = 0, sp_dirty_idx_ondisk = 0\<rparr>"

definition sp_from_superblock :: "sb_state \<Rightarrow> slowpath" where
  "sp_from_superblock st =
     (let nr = length (sb_bucket_addrs st) in
      \<lparr>sp_buckets = map (\<lambda>a. \<lparr>jd_addr = a, jd_max_seq = 0, jd_dirty = False\<rparr>) (sb_bucket_addrs st),
       sp_bucket_seq = (if length (sb_bucket_seq st) = nr then sb_bucket_seq st else replicate nr 0),
       sp_current_bucket = min (unat (sb_last_bucket st)) (nr - 1), sp_current_offset = 0,
       sp_remaining_bytes = BUCKET_BLOCKS * JSET_BLOCK_SIZE,
       sp_discard_idx = unat (sb_discard_idx st), sp_dirty_idx = unat (sb_dirty_idx st),
       sp_dirty_idx_ondisk = unat (sb_dirty_idx_ondisk st)\<rparr>)"

definition update_bucket_seq :: "u64 \<Rightarrow> slowpath \<Rightarrow> slowpath" where
  "update_bucket_seq q sp =
     (let i = sp_current_bucket sp in
      if i < length (sp_bucket_seq sp)
      then sp\<lparr>sp_bucket_seq := (sp_bucket_seq sp)[i := max (sp_bucket_seq sp ! i) q]\<rparr> else sp)"

text \<open>
  The loops of \<open>advance_dirty_idx\<close> and \<open>advance_dirty_idx_ondisk\<close>: walk the ring from \<open>i\<close> towards
  \<open>stop\<close> over buckets whose last sequence number is below \<open>lastq\<close>. A bucket index out of
  range of \<open>bucket_seq\<close> reads as 0.
\<close>

definition seq_of_bucket :: "u64 list \<Rightarrow> nat \<Rightarrow> u64" where
  "seq_of_bucket bs i = (if i < length bs then bs ! i else 0)"

partial_function (option) walk_buckets :: "u64 list \<Rightarrow> u64 \<Rightarrow> nat \<Rightarrow> nat \<Rightarrow> nat \<Rightarrow> nat option" where
  "walk_buckets bs lastq nr stop i =
     (if i = stop then Some i
      else if seq_of_bucket bs i < lastq then walk_buckets bs lastq nr stop ((i + 1) mod nr)
      else Some i)"

definition advance_dirty_idx :: "u64 \<Rightarrow> slowpath \<Rightarrow> slowpath option" where
  "advance_dirty_idx lastq sp =
     (let nr = length (sp_buckets sp) in
      if nr = 0 then Some sp
      else map_option (\<lambda>i. sp\<lparr>sp_dirty_idx := i\<rparr>)
             (walk_buckets (sp_bucket_seq sp) lastq nr (sp_current_bucket sp) (sp_dirty_idx sp)))"

definition advance_dirty_idx_ondisk :: "u64 \<Rightarrow> slowpath \<Rightarrow> slowpath option" where
  "advance_dirty_idx_ondisk lastq sp =
     (let nr = length (sp_buckets sp) in
      if nr = 0 then Some sp
      else map_option (\<lambda>i. sp\<lparr>sp_dirty_idx_ondisk := i\<rparr>)
             (walk_buckets (sp_bucket_seq sp) lastq nr (sp_dirty_idx sp) (sp_dirty_idx_ondisk sp)))"

text \<open>
  The differences below assume indices under the number of buckets, as all operations leave
  them; a superblock with a larger index would make the code's unsigned subtraction wrap.
\<close>

text \<open>Taking the next bucket, if the oldest dirty one is not there.\<close>

definition next_bucket :: "slowpath \<Rightarrow> nat" where
  "next_bucket sp = (sp_current_bucket sp + 1) mod length (sp_buckets sp)"

definition enter_bucket :: "nat \<Rightarrow> slowpath \<Rightarrow> slowpath" where
  "enter_bucket i sp = sp\<lparr>sp_current_bucket := i, sp_current_offset := 0,
     sp_remaining_bytes := BUCKET_BLOCKS * JSET_BLOCK_SIZE\<rparr>"

definition compute_journal_space :: "slowpath \<Rightarrow> u64 \<times> u64 \<times> u64" where
  "compute_journal_space sp =
     (let nr = length (sp_buckets sp); cur = sp_current_bucket sp in
      if nr = 0 then (0, 0, 0)
      else
        let clean = (cur + nr - sp_dirty_idx sp) mod nr;
            clean_ondisk = (cur + nr - sp_dirty_idx_ondisk sp) mod nr;
            bytes = ucast (BUCKET_BLOCKS * JSET_BLOCK_SIZE) :: u64
        in (of_nat nr * bytes, of_nat clean * bytes, of_nat clean_ondisk * bytes))"

definition space_available :: "watermark \<Rightarrow> slowpath \<Rightarrow> u64" where
  "space_available w sp =
     (let (tot, clean, clean_ondisk) = compute_journal_space sp in
      case w of
        Stripe \<Rightarrow> clean | Normal \<Rightarrow> clean
      | CopyGC \<Rightarrow> clean_ondisk | Btree \<Rightarrow> clean_ondisk
      | BtreeCopyGC \<Rightarrow> clean | Reclaim \<Rightarrow> clean
      | InteriorUpdate \<Rightarrow> tot)"

definition utilization :: "slowpath \<Rightarrow> rat" where
  "utilization sp =
     (let tot = (of_nat (length (sp_buckets sp)) * ucast BUCKET_BLOCKS * ucast JSET_BLOCK_SIZE :: u64);
          used = (if sp_current_bucket sp > 0
                  then of_nat (sp_current_bucket sp) * ucast BUCKET_BLOCKS * ucast JSET_BLOCK_SIZE
                       + ucast (sp_current_offset sp)
                  else ucast (sp_current_offset sp) :: u64)
      in if tot = 0 then 0 else of_nat (unat used) / of_nat (unat tot))"

subsection \<open>The ring of buckets\<close>

text \<open>\<open>ring_dist n i j\<close>: how many steps forward from \<open>i\<close> to \<open>j\<close>.\<close>

definition ring_dist :: "nat \<Rightarrow> nat \<Rightarrow> nat \<Rightarrow> nat" where
  "ring_dist n i j = (j + n - i) mod n"

lemma ring_dist_0: "i < n \<Longrightarrow> j < n \<Longrightarrow> ring_dist n i j = 0 \<longleftrightarrow> i = j"
  by (auto simp: ring_dist_def mod_if)

lemma ring_dist_step:
  "i < n \<Longrightarrow> j < n \<Longrightarrow> i \<noteq> j \<Longrightarrow> Suc (ring_dist n ((i + 1) mod n) j) = ring_dist n i j"
  by (cases "Suc i = n"; cases "i < j") (auto simp: ring_dist_def mod_if)

lemma ring_dist_less: "0 < n \<Longrightarrow> ring_dist n i j < n"
  by (simp add: ring_dist_def)

lemma walk_buckets_spec:
  assumes "i < nr" "stop < nr"
  shows "\<exists>r d. walk_buckets bs lastq nr stop i = Some r \<and> r < nr \<and> d \<le> ring_dist nr i stop \<and>
     r = (i + d) mod nr \<and> ring_dist nr r stop = ring_dist nr i stop - d \<and>
     (\<forall>e < d. seq_of_bucket bs ((i + e) mod nr) < lastq) \<and> (r \<noteq> stop \<longrightarrow> \<not> seq_of_bucket bs r < lastq)"
  using assms(1)
proof (induction "ring_dist nr i stop" arbitrary: i)
  case 0
  then have "i = stop"
    using ring_dist_0[OF 0(2) assms(2)] by simp
  then show ?case
    using 0(2) by (subst walk_buckets.simps) (auto intro!: exI[of _ 0])
next
  case (Suc n)
  then have ne: "i \<noteq> stop"
    using ring_dist_0[OF Suc(3) assms(2)] by auto
  show ?case
  proof (cases "seq_of_bucket bs i < lastq")
    case False
    then show ?thesis
      using ne Suc.prems by (subst walk_buckets.simps) (auto intro!: exI[of _ 0])
  next
    case True
    let ?i = "(i + 1) mod nr"
    have d: "Suc (ring_dist nr ?i stop) = ring_dist nr i stop"
      using ring_dist_step[OF Suc.prems assms(2) ne] .
    have "?i < nr"
      using Suc.prems by simp
    then obtain r d' where r: "walk_buckets bs lastq nr stop ?i = Some r" "r < nr" "d' \<le> ring_dist nr ?i stop"
      "r = (?i + d') mod nr" "ring_dist nr r stop = ring_dist nr ?i stop - d'"
      "\<forall>e < d'. seq_of_bucket bs ((?i + e) mod nr) < lastq" "r \<noteq> stop \<longrightarrow> \<not> seq_of_bucket bs r < lastq"
      using Suc.hyps(1)[of ?i] Suc.hyps(2) d by auto
    have "seq_of_bucket bs ((i + e) mod nr) < lastq" if "e < Suc d'" for e
      using that r(6) True Suc.prems by (cases e) (auto simp: mod_simps)
    moreover have "walk_buckets bs lastq nr stop i = Some r"
      using ne True r(1) by (subst walk_buckets.simps) simp
    moreover have "r = (i + Suc d') mod nr"
      using r(4) by (simp add: mod_simps)
    ultimately show ?thesis
      using r(2,3,5,7) d by (intro exI[of _ r] exI[of _ "Suc d'"]) auto
  qed
qed

text \<open>The discard loop of \<open>__bch2_journal_reclaim\<close>: the buckets it trims, from \<open>discard_idx\<close>.\<close>

partial_function (option) trim_walk :: "nat \<Rightarrow> nat \<Rightarrow> nat \<Rightarrow> nat list option" where
  "trim_walk nr stop i =
     (if i = stop then Some []
      else Option.bind (trim_walk nr stop ((i + 1) mod nr)) (\<lambda>is. Some (i # is)))"

lemma trim_walk_spec:
  assumes "i < nr" "stop < nr"
  shows "trim_walk nr stop i = Some (map (\<lambda>d. (i + d) mod nr) [0..<ring_dist nr i stop])"
  using assms(1)
proof (induction "ring_dist nr i stop" arbitrary: i)
  case 0
  then show ?case
    using ring_dist_0[OF 0(2) assms(2)] by (subst trim_walk.simps) simp
next
  case (Suc n)
  have ne: "i \<noteq> stop"
    using ring_dist_0[OF Suc(3) assms(2)] Suc(2) by auto
  let ?i = "(i + 1) mod nr"
  have d: "ring_dist nr i stop = Suc (ring_dist nr ?i stop)"
    using ring_dist_step[OF Suc.prems assms(2) ne] by simp
  have "trim_walk nr stop ?i = Some (map (\<lambda>d. (?i + d) mod nr) [0..<ring_dist nr ?i stop])"
    using Suc d by simp
  moreover have "[0..<Suc (ring_dist nr ?i stop)] = 0 # map Suc [0..<ring_dist nr ?i stop]"
    by (simp add: map_Suc_upt upt_conv_Cons)
  ultimately show ?case
    using ne Suc.prems by (subst trim_walk.simps) (simp add: d mod_simps del: upt_Suc)
qed

text \<open>
  \<open>sp_ok\<close>: the order the comment on \<open>discard_idx\<close> promises, around the ring: discard, dirty on
  disk, dirty, current.
\<close>

definition sp_ok :: "slowpath \<Rightarrow> bool" where
  "sp_ok sp \<longleftrightarrow> (let n = length (sp_buckets sp) in
     sp_current_bucket sp < n \<and> sp_discard_idx sp < n \<and> sp_dirty_idx sp < n \<and> sp_dirty_idx_ondisk sp < n \<and>
     ring_dist n (sp_discard_idx sp) (sp_current_bucket sp) =
       ring_dist n (sp_discard_idx sp) (sp_dirty_idx_ondisk sp) +
       ring_dist n (sp_dirty_idx_ondisk sp) (sp_dirty_idx sp) + ring_dist n (sp_dirty_idx sp) (sp_current_bucket sp))"

lemma ring_dist_plus:
  assumes "i < n" "k < n" "d \<le> ring_dist n i k"
  shows "ring_dist n i ((i + d) mod n) = d"
proof -
  have "d < n"
    using assms ring_dist_less[of n i k] by linarith
  then show ?thesis
    using assms(1) by (auto simp: ring_dist_def mod_if)
qed

lemma ring_dist_via:
  assumes "i < n" "j < n" "k < n" "ring_dist n i k = ring_dist n i j + ring_dist n j k" "d \<le> ring_dist n j k"
  shows "ring_dist n i ((j + d) mod n) = ring_dist n i j + d"
proof -
  have j: "j = (i + ring_dist n i j) mod n"
    using assms(1,2) by (auto simp: ring_dist_def mod_if)
  have "ring_dist n i j + d \<le> ring_dist n i k"
    using assms(4,5) by simp
  moreover have "(j + d) mod n = (i + (ring_dist n i j + d)) mod n"
    by (subst j) (simp add: mod_simps add.assoc)
  ultimately show ?thesis
    using ring_dist_plus[OF assms(1,3)] by simp
qed

lemma ring_dist_join:
  assumes "i < n" "j < n" "k < n" "ring_dist n i j + ring_dist n j k < n"
  shows "ring_dist n i k = ring_dist n i j + ring_dist n j k"
proof -
  have i: "ring_dist n a b = (if a \<le> b then b - a else b + n - a)" if "a < n" "b < n" for a b
    using that by (auto simp: ring_dist_def mod_if)
  show ?thesis
    using assms(4) unfolding i[OF assms(1,2)] i[OF assms(2,3)] i[OF assms(1,3)]
    using assms(1-3) by (simp add: add.commute split: if_splits)
qed

lemma advance_dirty_idx_spec:
  assumes "sp_ok sp"
  shows "\<exists>sp' d. advance_dirty_idx lastq sp = Some sp' \<and> sp' = sp\<lparr>sp_dirty_idx := (sp_dirty_idx sp + d) mod length (sp_buckets sp)\<rparr> \<and>
    d \<le> ring_dist (length (sp_buckets sp)) (sp_dirty_idx sp) (sp_current_bucket sp) \<and>
    (\<forall>e < d. seq_of_bucket (sp_bucket_seq sp) ((sp_dirty_idx sp + e) mod length (sp_buckets sp)) < lastq) \<and>
    (sp_dirty_idx sp' \<noteq> sp_current_bucket sp \<longrightarrow> \<not> seq_of_bucket (sp_bucket_seq sp) (sp_dirty_idx sp') < lastq) \<and>
    sp_ok sp'"
proof -
  let ?n = "length (sp_buckets sp)"
  have b: "sp_current_bucket sp < ?n" "sp_discard_idx sp < ?n" "sp_dirty_idx sp < ?n" "sp_dirty_idx_ondisk sp < ?n"
    and o: "ring_dist ?n (sp_discard_idx sp) (sp_current_bucket sp) =
       ring_dist ?n (sp_discard_idx sp) (sp_dirty_idx_ondisk sp) +
       ring_dist ?n (sp_dirty_idx_ondisk sp) (sp_dirty_idx sp) + ring_dist ?n (sp_dirty_idx sp) (sp_current_bucket sp)"
    using assms by (simp_all add: sp_ok_def Let_def)
  obtain r d where w: "walk_buckets (sp_bucket_seq sp) lastq ?n (sp_current_bucket sp) (sp_dirty_idx sp) = Some r"
    "r < ?n" "d \<le> ring_dist ?n (sp_dirty_idx sp) (sp_current_bucket sp)" "r = (sp_dirty_idx sp + d) mod ?n"
    "ring_dist ?n r (sp_current_bucket sp) = ring_dist ?n (sp_dirty_idx sp) (sp_current_bucket sp) - d"
    "\<forall>e < d. seq_of_bucket (sp_bucket_seq sp) ((sp_dirty_idx sp + e) mod ?n) < lastq"
    "r \<noteq> sp_current_bucket sp \<longrightarrow> \<not> seq_of_bucket (sp_bucket_seq sp) r < lastq"
    using walk_buckets_spec[OF b(3,1)] by blast
  have od: "ring_dist ?n (sp_dirty_idx_ondisk sp) r = ring_dist ?n (sp_dirty_idx_ondisk sp) (sp_dirty_idx sp) + d"
  proof -
    have t: "ring_dist ?n (sp_dirty_idx_ondisk sp) (sp_current_bucket sp) =
        ring_dist ?n (sp_dirty_idx_ondisk sp) (sp_dirty_idx sp) + ring_dist ?n (sp_dirty_idx sp) (sp_current_bucket sp)"
    proof (rule ring_dist_join[OF b(4,3,1)])
      have "ring_dist ?n (sp_discard_idx sp) (sp_current_bucket sp) < ?n"
        by (rule ring_dist_less) (use b(1) in linarith)
      then show "ring_dist ?n (sp_dirty_idx_ondisk sp) (sp_dirty_idx sp) + ring_dist ?n (sp_dirty_idx sp) (sp_current_bucket sp) < ?n"
        using o by linarith
    qed
    show ?thesis
      using ring_dist_via[OF b(4,3,1) t w(3)] w(4) by simp
  qed
  have "advance_dirty_idx lastq sp = Some (sp\<lparr>sp_dirty_idx := r\<rparr>)"
    using w(1) b(1) by (auto simp: advance_dirty_idx_def)
  moreover have "sp_ok (sp\<lparr>sp_dirty_idx := r\<rparr>)"
    using b o w(2,3,5) od by (simp add: sp_ok_def)
  ultimately show ?thesis
    using w(3,4,6,7) by auto
qed

lemma sp_okD:
  assumes "sp_ok sp"
  defines "n \<equiv> length (sp_buckets sp)"
  shows "sp_current_bucket sp < n" "sp_discard_idx sp < n" "sp_dirty_idx sp < n" "sp_dirty_idx_ondisk sp < n"
    "ring_dist n (sp_discard_idx sp) (sp_current_bucket sp) =
       ring_dist n (sp_discard_idx sp) (sp_dirty_idx_ondisk sp) +
       ring_dist n (sp_dirty_idx_ondisk sp) (sp_dirty_idx sp) + ring_dist n (sp_dirty_idx sp) (sp_current_bucket sp)"
    "ring_dist n (sp_discard_idx sp) (sp_dirty_idx sp) =
       ring_dist n (sp_discard_idx sp) (sp_dirty_idx_ondisk sp) + ring_dist n (sp_dirty_idx_ondisk sp) (sp_dirty_idx sp)"
proof -
  show b: "sp_current_bucket sp < n" "sp_discard_idx sp < n" "sp_dirty_idx sp < n" "sp_dirty_idx_ondisk sp < n"
    and o: "ring_dist n (sp_discard_idx sp) (sp_current_bucket sp) =
       ring_dist n (sp_discard_idx sp) (sp_dirty_idx_ondisk sp) +
       ring_dist n (sp_dirty_idx_ondisk sp) (sp_dirty_idx sp) + ring_dist n (sp_dirty_idx sp) (sp_current_bucket sp)"
    using assms(1) by (simp_all add: sp_ok_def Let_def n_def)
  have "ring_dist n (sp_discard_idx sp) (sp_current_bucket sp) < n"
    by (rule ring_dist_less) (use b(1) in linarith)
  then show "ring_dist n (sp_discard_idx sp) (sp_dirty_idx sp) =
       ring_dist n (sp_discard_idx sp) (sp_dirty_idx_ondisk sp) + ring_dist n (sp_dirty_idx_ondisk sp) (sp_dirty_idx sp)"
    by (intro ring_dist_join[OF b(2,4,3)]) (use o in linarith)
qed

lemma advance_dirty_idx_ondisk_spec:
  assumes "sp_ok sp"
  shows "\<exists>r. advance_dirty_idx_ondisk lastq sp = Some (sp\<lparr>sp_dirty_idx_ondisk := r\<rparr>) \<and> sp_ok (sp\<lparr>sp_dirty_idx_ondisk := r\<rparr>)"
proof -
  let ?n = "length (sp_buckets sp)"
  note b = sp_okD[OF assms]
  obtain r d where w: "walk_buckets (sp_bucket_seq sp) lastq ?n (sp_dirty_idx sp) (sp_dirty_idx_ondisk sp) = Some r"
    "r < ?n" "d \<le> ring_dist ?n (sp_dirty_idx_ondisk sp) (sp_dirty_idx sp)" "r = (sp_dirty_idx_ondisk sp + d) mod ?n"
    "ring_dist ?n r (sp_dirty_idx sp) = ring_dist ?n (sp_dirty_idx_ondisk sp) (sp_dirty_idx sp) - d"
    using walk_buckets_spec[OF b(4,3)] by blast
  have "ring_dist ?n (sp_discard_idx sp) r = ring_dist ?n (sp_discard_idx sp) (sp_dirty_idx_ondisk sp) + d"
    using ring_dist_via[OF b(2,4,3,6) w(3)] w(4) by simp
  then have "sp_ok (sp\<lparr>sp_dirty_idx_ondisk := r\<rparr>)"
    using b w(2,3,5) by (simp add: sp_ok_def)
  moreover have "advance_dirty_idx_ondisk lastq sp = Some (sp\<lparr>sp_dirty_idx_ondisk := r\<rparr>)"
    using w(1) b(1) by (auto simp: advance_dirty_idx_ondisk_def)
  ultimately show ?thesis
    by blast
qed

text \<open>
  The bucket side of a reclaim: both dirty indices advance, then the buckets up to
  \<open>dirty_idx_ondisk\<close> are trimmed. \<open>behind_clean\<close> says that every bucket from \<open>discard_idx\<close> up to
  \<open>dirty_idx\<close> holds only entries below the last sequence number still needed.
\<close>

definition sp_reclaim :: "u64 \<Rightarrow> slowpath \<Rightarrow> (nat list \<times> slowpath) option" where
  "sp_reclaim lastq sp =
     Option.bind (advance_dirty_idx lastq sp) (\<lambda>sp1.
     Option.bind (advance_dirty_idx_ondisk lastq sp1) (\<lambda>sp2.
       let nr = length (sp_buckets sp2) in
       if nr = 0 then Some ([], sp2)
       else Option.bind (trim_walk nr (sp_dirty_idx_ondisk sp2) (sp_discard_idx sp2)) (\<lambda>is.
         Some (is, sp2\<lparr>sp_discard_idx := sp_dirty_idx_ondisk sp2\<rparr>))))"

definition behind_clean :: "u64 \<Rightarrow> slowpath \<Rightarrow> bool" where
  "behind_clean lastq sp \<longleftrightarrow> (let n = length (sp_buckets sp) in
     \<forall>d < ring_dist n (sp_discard_idx sp) (sp_dirty_idx sp).
       seq_of_bucket (sp_bucket_seq sp) ((sp_discard_idx sp + d) mod n) < lastq)"

lemma ring_reach: "i < n \<Longrightarrow> j < n \<Longrightarrow> (i + ring_dist n i j) mod n = j"
  by (auto simp: ring_dist_def mod_if)

lemma behind_clean_advance:
  assumes ok: "sp_ok sp" and bc: "behind_clean lastq sp"
    and d: "d \<le> ring_dist (length (sp_buckets sp)) (sp_dirty_idx sp) (sp_current_bucket sp)"
    and w: "\<forall>e < d. seq_of_bucket (sp_bucket_seq sp) ((sp_dirty_idx sp + e) mod length (sp_buckets sp)) < lastq"
  shows "behind_clean lastq (sp\<lparr>sp_dirty_idx := (sp_dirty_idx sp + d) mod length (sp_buckets sp)\<rparr>)"
proof -
  let ?n = "length (sp_buckets sp)" and ?D = "sp_discard_idx sp"
  let ?m = "ring_dist ?n ?D (sp_dirty_idx sp)"
  note o = sp_okD[OF ok]
  have "ring_dist ?n ?D (sp_current_bucket sp) = ?m + ring_dist ?n (sp_dirty_idx sp) (sp_current_bucket sp)"
    using o(5,6) by simp
  then have dist: "ring_dist ?n ?D ((sp_dirty_idx sp + d) mod ?n) = ?m + d"
    using ring_dist_via[OF o(2,3,1) _ d] by simp
  have "seq_of_bucket (sp_bucket_seq sp) ((?D + e) mod ?n) < lastq" if e: "e < ?m + d" for e
  proof (cases "e < ?m")
    case True
    then show ?thesis
      using bc unfolding behind_clean_def Let_def by blast
  next
    case False
    then obtain x where x: "e = ?m + x"
      using le_Suc_ex by (auto simp: not_less)
    then have "seq_of_bucket (sp_bucket_seq sp) ((sp_dirty_idx sp + x) mod ?n) < lastq"
      using w e by simp
    moreover have "(?D + e) mod ?n = ((?D + ?m) mod ?n + x) mod ?n"
      by (simp add: x mod_simps add.assoc)
    ultimately show ?thesis
      using ring_reach[OF o(2,3)] by simp
  qed
  then show ?thesis
    by (simp add: behind_clean_def dist)
qed

lemma trim_spec:
  assumes ok: "sp_ok sp" and bc: "behind_clean lastq sp"
  shows "\<exists>is. trim_walk (length (sp_buckets sp)) (sp_dirty_idx_ondisk sp) (sp_discard_idx sp) = Some is \<and>
    sp_current_bucket sp \<notin> set is \<and> (\<forall>i \<in> set is. seq_of_bucket (sp_bucket_seq sp) i < lastq) \<and>
    sp_ok (sp\<lparr>sp_discard_idx := sp_dirty_idx_ondisk sp\<rparr>) \<and>
    behind_clean lastq (sp\<lparr>sp_discard_idx := sp_dirty_idx_ondisk sp\<rparr>)"
proof -
  let ?n = "length (sp_buckets sp)" and ?D = "sp_discard_idx sp" and ?E = "sp_dirty_idx_ondisk sp"
  note o = sp_okD[OF ok]
  let ?t = "ring_dist ?n ?D ?E"
  let ?is = "map (\<lambda>d. (?D + d) mod ?n) [0..<?t]"
  have clean: "seq_of_bucket (sp_bucket_seq sp) ((?D + e) mod ?n) < lastq" if "e < ring_dist ?n ?D (sp_dirty_idx sp)" for e
    using bc that unfolding behind_clean_def Let_def by blast
  have cur: "(?D + e) mod ?n \<noteq> sp_current_bucket sp" if "e < ?t" for e
    using ring_dist_plus[OF o(2,1), of e] that o(5) by auto
  have "ring_dist ?n ?E ?E = 0"
    using o(4) by (simp add: ring_dist_def)
  moreover have "ring_dist ?n ?E (sp_current_bucket sp) = ring_dist ?n ?E (sp_dirty_idx sp) + ring_dist ?n (sp_dirty_idx sp) (sp_current_bucket sp)"
  proof (rule ring_dist_join[OF o(4,3,1)])
    have "ring_dist ?n ?D (sp_current_bucket sp) < ?n"
      by (rule ring_dist_less) (use o(1) in linarith)
    then show "ring_dist ?n ?E (sp_dirty_idx sp) + ring_dist ?n (sp_dirty_idx sp) (sp_current_bucket sp) < ?n"
      using o(5) by linarith
  qed
  ultimately have ok3: "sp_ok (sp\<lparr>sp_discard_idx := ?E\<rparr>)"
    using o by (simp add: sp_ok_def)
  have "seq_of_bucket (sp_bucket_seq sp) ((?E + e) mod ?n) < lastq" if "e < ring_dist ?n ?E (sp_dirty_idx sp)" for e
  proof -
    have "seq_of_bucket (sp_bucket_seq sp) ((?D + (?t + e)) mod ?n) < lastq"
      by (rule clean) (use that o(6) in linarith)
    moreover have "(?D + (?t + e)) mod ?n = ((?D + ?t) mod ?n + e) mod ?n"
      by (simp add: mod_simps add.assoc)
    ultimately show ?thesis
      using ring_reach[OF o(2,4)] by simp
  qed
  then have "behind_clean lastq (sp\<lparr>sp_discard_idx := ?E\<rparr>)"
    by (simp add: behind_clean_def)
  moreover have "\<forall>i \<in> set ?is. seq_of_bucket (sp_bucket_seq sp) i < lastq"
    using clean o(6) by auto
  moreover have "sp_current_bucket sp \<notin> set ?is"
  proof
    assume "sp_current_bucket sp \<in> set ?is"
    then obtain x where "x < ?t" "sp_current_bucket sp = (?D + x) mod ?n"
      by auto
    then show False
      using cur[of x] by simp
  qed
  ultimately show ?thesis
    using ok3 trim_walk_spec[OF o(2,4)] by blast
qed

text \<open>
  As long as nothing dirty is behind the dirty index (\<open>behind_clean\<close>), reclaiming buckets returns,
  keeps the four indices in order, and trims only buckets whose entries all precede the last
  sequence number still needed, never the bucket being written. The journal does not ensure
  \<open>behind_clean\<close>: the next section shows the rotation entering a bucket that it forbids.\<close>
theorem reclaim_trims_only_clean:
  assumes "sp_ok sp" and "behind_clean lastq sp"
  shows "\<exists>is sp'. sp_reclaim lastq sp = Some (is, sp') \<and> sp_ok sp' \<and> behind_clean lastq sp' \<and>
    sp_current_bucket sp \<notin> set is \<and> (\<forall>i \<in> set is. seq_of_bucket (sp_bucket_seq sp) i < lastq)"
proof -
  obtain sp1 d where a: "advance_dirty_idx lastq sp = Some sp1"
    "sp1 = sp\<lparr>sp_dirty_idx := (sp_dirty_idx sp + d) mod length (sp_buckets sp)\<rparr>"
    "\<forall>e < d. seq_of_bucket (sp_bucket_seq sp) ((sp_dirty_idx sp + e) mod length (sp_buckets sp)) < lastq" "sp_ok sp1"
    "d \<le> ring_dist (length (sp_buckets sp)) (sp_dirty_idx sp) (sp_current_bucket sp)"
    using advance_dirty_idx_spec[OF assms(1)] by blast
  obtain r where b: "advance_dirty_idx_ondisk lastq sp1 = Some (sp1\<lparr>sp_dirty_idx_ondisk := r\<rparr>)" "sp_ok (sp1\<lparr>sp_dirty_idx_ondisk := r\<rparr>)"
    using advance_dirty_idx_ondisk_spec[OF a(4)] by blast
  have "behind_clean lastq sp1"
    using behind_clean_advance[OF assms a(5,3)] a(2) by simp
  then have c: "behind_clean lastq (sp1\<lparr>sp_dirty_idx_ondisk := r\<rparr>)"
    by (simp add: behind_clean_def)
  show ?thesis
    using trim_spec[OF b(2) c] a(1) b(1) sp_okD(1)[OF assms(1)] by (auto simp: sp_reclaim_def a(2))
qed

theorem reclaim_trims_only_clean_witness:
  "\<exists>is sp'. sp_reclaim 4 ((sp_new [100, 356, 612])\<lparr>sp_bucket_seq := [1, 3, 5], sp_current_bucket := 2\<rparr>) = Some (is, sp') \<and>
     (2 :: nat) \<notin> set is"
proof -
  let ?sp = "(sp_new [100, 356, 612])\<lparr>sp_bucket_seq := [1, 3, 5], sp_current_bucket := 2\<rparr>"
  have "sp_ok ?sp" "behind_clean 4 ?sp"
    by (simp_all add: sp_ok_def behind_clean_def sp_new_def ring_dist_def)
  then show ?thesis
    using reclaim_trims_only_clean[of ?sp 4] by (auto simp: sp_new_def)
qed

subsection \<open>What the bucket ring does not guard\<close>

text \<open>
  A rotation compares the next bucket with \<open>dirty_idx\<close> only. After the slow path has advanced
  the dirty indices without trimming, \<open>discard_idx\<close> lags behind and the rotation can enter the
  bucket it points to; the next reclaim then trims the bucket being written.
\<close>

theorem trim_hits_bucket_in_use:
  assumes ok: "sp_ok sp" and nx: "next_bucket sp = sp_discard_idx sp" and lag: "sp_discard_idx sp \<noteq> sp_dirty_idx_ondisk sp"
    and need: "\<not> seq_of_bucket (sp_bucket_seq sp) (sp_dirty_idx sp) < lastq"
  shows "next_bucket sp \<noteq> sp_dirty_idx sp \<and>
    (\<exists>is sp'. sp_reclaim lastq (enter_bucket (next_bucket sp) sp) = Some (is, sp') \<and> next_bucket sp \<in> set is)"
proof -
  let ?n = "length (sp_buckets sp)" and ?D = "sp_discard_idx sp"
  define s1 where "s1 = enter_bucket ?D sp"
  note o = sp_okD[OF ok]
  have s1: "sp_buckets s1 = sp_buckets sp" "sp_bucket_seq s1 = sp_bucket_seq sp" "sp_dirty_idx s1 = sp_dirty_idx sp"
    "sp_dirty_idx_ondisk s1 = sp_dirty_idx_ondisk sp" "sp_discard_idx s1 = ?D"
    by (simp_all add: s1_def enter_bucket_def)
  have pos: "ring_dist ?n ?D (sp_dirty_idx_ondisk sp) > 0"
    using ring_dist_0[OF o(2,4)] lag by simp
  then have ne: "?D \<noteq> sp_dirty_idx sp"
    using ring_dist_0[OF o(2,3)] o(6) by auto
  have a: "advance_dirty_idx lastq s1 = Some s1"
    using need by (simp add: advance_dirty_idx_def s1 Let_def walk_buckets.simps)
  obtain r d where w: "walk_buckets (sp_bucket_seq sp) lastq ?n (sp_dirty_idx sp) (sp_dirty_idx_ondisk sp) = Some r"
    "r < ?n" "d \<le> ring_dist ?n (sp_dirty_idx_ondisk sp) (sp_dirty_idx sp)" "r = (sp_dirty_idx_ondisk sp + d) mod ?n"
    using walk_buckets_spec[OF o(4,3)] by blast
  have "ring_dist ?n ?D r = ring_dist ?n ?D (sp_dirty_idx_ondisk sp) + d"
    using ring_dist_via[OF o(2,4,3,6) w(3)] w(4) by simp
  then have tw: "\<exists>is. trim_walk ?n r ?D = Some is \<and> ?D \<in> set is"
    using trim_walk_spec[OF o(2) w(2)] pos o(2) by (auto intro!: image_eqI[of _ _ 0])
  have "advance_dirty_idx_ondisk lastq s1 = Some (s1\<lparr>sp_dirty_idx_ondisk := r\<rparr>)"
    using w(1) o(1) by (auto simp: advance_dirty_idx_ondisk_def s1)
  then have "\<exists>is sp'. sp_reclaim lastq s1 = Some (is, sp') \<and> ?D \<in> set is"
    using a tw o(1) by (auto simp: sp_reclaim_def s1)
  then show ?thesis
    using nx ne by (simp add: s1_def)
qed

text \<open>
  The figure that \<open>compute_journal_space\<close> calls clean is the span from the oldest dirty bucket to
  the current one, so it grows as the journal fills and is 0 when nothing is dirty.
\<close>

theorem space_counts_dirty_span:
  assumes "sp_ok sp" and "length (sp_buckets sp) < 2 ^ 40"
  shows "unat (space_available Normal sp) = ring_dist (length (sp_buckets sp)) (sp_dirty_idx sp) (sp_current_bucket sp) * 1048576"
proof -
  let ?d = "ring_dist (length (sp_buckets sp)) (sp_dirty_idx sp) (sp_current_bucket sp)"
  note o = sp_okD[OF assms(1)]
  have ne: "sp_buckets sp \<noteq> []"
    using o(1) by auto
  have "?d < length (sp_buckets sp)"
    by (rule ring_dist_less) (use ne in simp)
  then have "?d < 1099511627776"
    using assms(2) by simp
  moreover have "space_available Normal sp = of_nat ?d * 1048576"
    using ne by (simp add: space_available_def compute_journal_space_def Let_def ring_dist_def
        BUCKET_BLOCKS_def JSET_BLOCK_SIZE_def)
  ultimately show ?thesis
    by (simp add: unat_word_ariths unat_of_nat)
qed

text \<open>
  The utilisation behind the watermark is the position of the current bucket in the list, not
  the amount in use: in the last tenth of the buckets only interior updates are admitted,
  whatever has been reclaimed.
\<close>

theorem watermark_follows_position:
  assumes "0 < sp_current_bucket sp" "sp_current_bucket sp < length (sp_buckets sp)" "length (sp_buckets sp) < 2 ^ 40"
    "9 * length (sp_buckets sp) \<le> 10 * sp_current_bucket sp" "unat (sp_current_offset sp) \<le> 1048576"
  shows "from_journal_utilization (utilization sp) = InteriorUpdate"
proof -
  let ?n = "length (sp_buckets sp)" and ?c = "sp_current_bucket sp" and ?o = "unat (sp_current_offset sp)"
  have n: "?n < 1099511627776" "?c < 1099511627776"
    using assms(2,3) by simp_all
  have tot: "unat (of_nat ?n * ucast BUCKET_BLOCKS * ucast JSET_BLOCK_SIZE :: u64) = ?n * 1048576"
    using n by (simp add: BUCKET_BLOCKS_def JSET_BLOCK_SIZE_def unat_word_ariths unat_of_nat mult.assoc)
  have used: "unat (of_nat ?c * ucast BUCKET_BLOCKS * ucast JSET_BLOCK_SIZE + ucast (sp_current_offset sp) :: u64) = ?c * 1048576 + ?o"
    using n assms(5) by (simp add: BUCKET_BLOCKS_def JSET_BLOCK_SIZE_def unat_word_ariths unat_of_nat mult.assoc
        unsigned_ucast_eq take_bit_nat_eq_self)
  have nz: "(of_nat ?n * ucast BUCKET_BLOCKS * ucast JSET_BLOCK_SIZE :: u64) \<noteq> 0"
    using tot assms(1,2) by (metis less_nat_zero_code mult_is_0 unat_0 zero_neq_numeral)
  have u: "utilization sp = of_nat (?c * 1048576 + ?o) / of_nat (?n * 1048576)"
    using assms(1) nz unfolding utilization_def Let_def tot used[symmetric] by simp
  have "9 * (?n * 1048576) \<le> 10 * (?c * 1048576 + ?o)"
    using assms(4) by simp
  then have "(of_nat (9 * (?n * 1048576)) :: rat) \<le> of_nat (10 * (?c * 1048576 + ?o))"
    by (simp only: of_nat_le_iff)
  moreover have "0 < (of_nat (?n * 1048576) :: rat)"
    using assms(2) by (cases "sp_buckets sp") simp_all
  ultimately have "90 / 100 \<le> utilization sp"
    unfolding u by (simp add: pos_le_divide_eq)
  then show ?thesis
    by (simp add: from_journal_utilization_def)
qed

end
