(* ===== verification/Journal.thy ===== *)
theory Journal
  imports JournalRes JournalPinInv JournalSpace
begin

text \<open>
  The journal (\<open>journal/types.rs\<close>, \<open>Journal\<close>): four staging buffers filled through the
  reservation word, written to the buckets by a flush, and pinned until their changes are on
  disk. The record \<open>journal\<close> extends the pins of JournalPin. A method returns its result (an
  error on the left) and the new journal, or \<open>None\<close> where the code panics or would wait for
  another thread; the release build is modelled, so debug assertions do not stop it.

  The block device is a log of what it was asked to do; \<open>io\<close> tells for each request, given the
  log so far, whether it succeeds. Wake-ups of waiting tasks change no state and are left out;
  the completion callbacks of a buffer are numbers that a log records when they run.
\<close>

subsection \<open>Errors\<close>

datatype journal_error = Overflow | ChecksumMismatch | Io | Stuck | Full | PinFull | Blocked

definition JE_NONE :: u8 where "JE_NONE = 0"

fun journal_error_code :: "journal_error \<Rightarrow> u8" where
  "journal_error_code Overflow = 1"
| "journal_error_code ChecksumMismatch = 2"
| "journal_error_code Io = 3"
| "journal_error_code Stuck = 4"
| "journal_error_code Full = 5"
| "journal_error_code PinFull = 6"
| "journal_error_code Blocked = 7"

definition journal_error_of_code :: "u8 \<Rightarrow> journal_error option" where
  "journal_error_of_code c =
     (if c = JE_NONE then None else if c = 1 then Some Overflow else if c = 2 then Some ChecksumMismatch
      else if c = 3 then Some Io else if c = 4 then Some Stuck else if c = 5 then Some Full
      else if c = 6 then Some PinFull else if c = 7 then Some Blocked else None)"

subsection \<open>Buffers and the journal's state\<close>

datatype buf_state = Free | Accepting | Closing | Noflush | WriteSubmitted | WriteDone

record journal_buf =
  jb_state :: buf_state
  jb_data :: "u8 list"
  jb_seq :: u64
  jb_data_end :: nat
  jb_must_flush :: bool
  jb_no_flush :: bool
  jb_callbacks :: "nat list"

definition jb_free :: journal_buf where
  "jb_free = \<lparr>jb_state = Free, jb_data = [], jb_seq = 0, jb_data_end = 0, jb_must_flush = False,
     jb_no_flush = False, jb_callbacks = []\<rparr>"

definition reset_for_accepting :: "u64 \<Rightarrow> journal_buf \<Rightarrow> journal_buf" where
  "reset_for_accepting new_seq b = b\<lparr>jb_data := replicate BUF_SIZE 0, jb_seq := new_seq, jb_data_end := 0,
     jb_state := Accepting, jb_must_flush := False, jb_no_flush := False, jb_callbacks := []\<rparr>"

definition try_noflush :: "journal_buf \<Rightarrow> bool" where
  "try_noflush b = jb_no_flush b"

record journal_res =
  jr_seq :: u64
  jr_entry_seq :: u64
  jr_offset :: u32
  jr_u64s :: u32
  jr_buf_idx :: u32
  jr_must_flush :: bool

datatype dev_event = Write u64 "u8 list" | Flush | Trim u64

record journal = journal_pins +
  j_res :: u64
  j_bufs :: "journal_buf list"
  j_seq :: u64
  j_in_flight :: "u32 list"
  j_sp :: slowpath
  j_flushed_seq_marker :: u64
  j_watermark :: u8
  j_error :: u8
  j_needs_flush_write :: bool
  j_nr_direct_reclaim :: u64
  j_dev :: "dev_event list"
  j_fired :: "nat list"

type_synonym 'a jresult = "((journal_error + 'a) \<times> journal) option"

type_synonym pin_cb = "pin \<Rightarrow> u64 \<Rightarrow> journal \<Rightarrow> (journal_error option \<times> journal) option"

definition upd_buf :: "nat \<Rightarrow> (journal_buf \<Rightarrow> journal_buf) \<Rightarrow> journal \<Rightarrow> journal" where
  "upd_buf i f j = j\<lparr>j_bufs := (j_bufs j)[i := f (j_bufs j ! i)]\<rparr>"

definition upd_sp :: "(slowpath \<Rightarrow> slowpath) \<Rightarrow> journal \<Rightarrow> journal" where
  "upd_sp f j = j\<lparr>j_sp := f (j_sp j)\<rparr>"

text \<open>One request to the device: it is logged, and \<open>io\<close> decides its outcome.\<close>

definition dev_do :: "(dev_event list \<Rightarrow> dev_event \<Rightarrow> bool) \<Rightarrow> dev_event \<Rightarrow> journal \<Rightarrow> bool \<times> journal" where
  "dev_do io e j = (io (j_dev j) e, j\<lparr>j_dev := j_dev j @ [e]\<rparr>)"

subsection \<open>Errors stick\<close>

definition journal_error_set :: "journal_error \<Rightarrow> journal \<Rightarrow> journal" where
  "journal_error_set e j = (if j_error j = JE_NONE then j\<lparr>j_error := journal_error_code e\<rparr> else j)"

definition journal_error_check :: "journal \<Rightarrow> journal_error option" where
  "journal_error_check j = journal_error_of_code (j_error j)"

subsection \<open>Reservations\<close>

definition journal_res_get_fast :: "watermark \<Rightarrow> u32 \<Rightarrow> journal \<Rightarrow> (journal_error + journal_res) \<times> journal" where
  "journal_res_get_fast wm req j =
     (case journal_error_check j of
        Some e \<Rightarrow> (Inl e, j)
      | None \<Rightarrow>
          if \<not> wm_allows (wm_from_bits (j_watermark j)) wm then (Inl Overflow, j)
          else case try_reserve (j_res j) req of
            None \<Rightarrow> (Inl Overflow, j)
          | Some (old, new) \<Rightarrow>
              let i = res_idx old; q = jb_seq (j_bufs j ! unat i) in
              (Inr \<lparr>jr_seq = q, jr_entry_seq = q, jr_offset = cur_entry_offset old * 8, jr_u64s = req,
                    jr_buf_idx = i, jr_must_flush = False\<rparr>,
               j\<lparr>j_res := new\<rparr>))"

text \<open>\<open>None\<close>: the slice is out of range of the buffer's data, a panic.\<close>

definition add_entry :: "journal_res \<Rightarrow> u8 list \<Rightarrow> journal \<Rightarrow> journal option" where
  "add_entry res bytes j =
     (let b = j_bufs j ! unat (jr_buf_idx res); off = unat (jr_offset res) in
      if off + length bytes > length (jb_data b) then None
      else Some (upd_buf (unat (jr_buf_idx res))
             (\<lambda>b. b\<lparr>jb_data := take off (jb_data b) @ bytes @ drop (off + length bytes) (jb_data b),
                    jb_must_flush := (jb_must_flush b \<or> jr_must_flush res)\<rparr>) j))"

definition journal_res_put :: "journal_res \<Rightarrow> journal \<Rightarrow> journal" where
  "journal_res_put res j =
     (let i = jr_buf_idx res; (old, new) = release (j_res j) i; j1 = j\<lparr>j_res := new\<rparr> in
      if buf_count old i = 1 \<and> jb_state (j_bufs j1 ! unat i) = Closing
      then upd_buf (unat i) (\<lambda>b. b\<lparr>jb_state := WriteSubmitted\<rparr>) j1 else j1)"

definition set_commit_callback :: "u32 \<Rightarrow> nat \<Rightarrow> journal \<Rightarrow> journal" where
  "set_commit_callback i cb j = upd_buf (unat i) (\<lambda>b. b\<lparr>jb_callbacks := jb_callbacks b @ [cb]\<rparr>) j"

definition set_needs_flush_write :: "bool \<Rightarrow> journal \<Rightarrow> journal" where
  "set_needs_flush_write v j = j\<lparr>j_needs_flush_write := v\<rparr>"

definition set_watermark :: "journal \<Rightarrow> journal" where
  "set_watermark j = j\<lparr>j_watermark := wm_to_bits (from_journal_utilization (utilization (j_sp j)))\<rparr>"

subsection \<open>Opening and closing entries\<close>

definition find_free_buf :: "journal \<Rightarrow> (u32 \<times> journal) option" where
  "find_free_buf j =
     (let i = (res_idx (j_res j) + 1) AND (of_nat JOURNAL_STATE_BUF_NR - 1);
          st = jb_state (j_bufs j ! unat i) in
      if st = Free \<or> st = WriteDone
      then Some (i, upd_buf (unat i) (\<lambda>b. b\<lparr>jb_state := Free\<rparr>) j) else None)"

definition journal_entry_open :: "journal \<Rightarrow> journal option" where
  "journal_entry_open j =
     (let new_seq = j_seq j; j1 = j\<lparr>j_seq := j_seq j + 1\<rparr> in
      case find_free_buf j1 of
        None \<Rightarrow> None
      | Some (i, j2) \<Rightarrow>
          let j3 = upd_buf (unat i) (reset_for_accepting new_seq) j2;
              j4 = j3\<lparr>j_res := open_entry (j_res j3) i, j_in_flight := j_in_flight j3 @ [i]\<rparr> in
          (case pf_push_back (pin_list_new 1) (jp_fifo j4) of
             None \<Rightarrow> None
           | Some f \<Rightarrow> Some (j4\<lparr>jp_fifo := f\<rparr>)))"

definition journal_entry_close :: "journal \<Rightarrow> u32 \<times> journal" where
  "journal_entry_close j = (let (off, w) = close_entry (j_res j) in (off, j\<lparr>j_res := w\<rparr>))"

definition journal_blank :: "u64 \<Rightarrow> u64 \<Rightarrow> slowpath \<Rightarrow> u64 \<Rightarrow> (pin \<Rightarrow> pin_type) \<Rightarrow> (pin \<Rightarrow> bool) \<Rightarrow> journal" where
  "journal_blank q ondisk sp w types cbs =
     \<lparr>jp_fifo = pf_new, jp_last_seq_ondisk = ondisk, jp_seq = \<lambda>_. 0, jp_type = types, jp_flush = cbs,
      jp_in_progress = 0, jp_dropped = False, j_res = w, j_bufs = replicate JOURNAL_STATE_BUF_NR jb_free,
      j_seq = q, j_in_flight = [], j_sp = sp, j_flushed_seq_marker = 0, j_watermark = 0, j_error = JE_NONE,
      j_needs_flush_write = False, j_nr_direct_reclaim = 0, j_dev = [], j_fired = []\<rparr>"

definition journal_new :: "u64 list \<Rightarrow> (pin \<Rightarrow> pin_type) \<Rightarrow> (pin \<Rightarrow> bool) \<Rightarrow> journal option" where
  "journal_new addrs types cbs = journal_entry_open (journal_blank 1 0 (sp_new addrs) res_state_new types cbs)"

definition journal_from_superblock :: "sb_state \<Rightarrow> (pin \<Rightarrow> pin_type) \<Rightarrow> (pin \<Rightarrow> bool) \<Rightarrow> journal option" where
  "journal_from_superblock st types cbs =
     journal_entry_open (journal_blank (sb_last_seq st) (sb_last_seq_ondisk st) (sp_from_superblock st)
       (align_idx_to_seq res_state_new (sb_last_seq st)) types cbs)"

definition to_superblock_state :: "journal \<Rightarrow> sb_state" where
  "to_superblock_state j =
     \<lparr>sb_bucket_addrs = map jd_addr (sp_buckets (j_sp j)), sb_last_seq = j_seq j,
      sb_last_seq_ondisk = jp_last_seq_ondisk j, sb_last_bucket = of_nat (sp_current_bucket (j_sp j)),
      sb_discard_idx = of_nat (sp_discard_idx (j_sp j)), sb_dirty_idx = of_nat (sp_dirty_idx (j_sp j)),
      sb_dirty_idx_ondisk = of_nat (sp_dirty_idx_ondisk (j_sp j)), sb_bucket_seq = sp_bucket_seq (j_sp j),
      sb_replayed_seqs = []\<rparr>"

subsection \<open>Reclaim and bucket rotation\<close>

definition journal_seq_to_flush :: "journal \<Rightarrow> u64" where
  "journal_seq_to_flush j = saturating_sub (j_seq j) (of_nat (PIN_FIFO_SIZE div 2))"

text \<open>\<open>elapsed\<close> is the time since the last flush, \<open>delay\<close> the configured interval, in milliseconds.\<close>

definition journal_reclaim_needed :: "u64 \<Rightarrow> u64 \<Rightarrow> journal \<Rightarrow> bool" where
  "journal_reclaim_needed delay elapsed j =
     (if delay > 0 \<and> elapsed \<ge> delay then True
      else let (tot, clean, _) = compute_journal_space (j_sp j) in tot > 0 \<and> clean < tot div 4)"

text \<open>The advance of both dirty indices by \<open>last_seq_ondisk\<close>; \<open>None\<close> would be a loop without end.\<close>

definition advance_dirty :: "journal \<Rightarrow> journal option" where
  "advance_dirty j =
     Option.bind (advance_dirty_idx (jp_last_seq_ondisk j) (j_sp j)) (\<lambda>sp1.
     Option.bind (advance_dirty_idx_ondisk (jp_last_seq_ondisk j) sp1) (\<lambda>sp2.
       Some (j\<lparr>j_sp := sp2\<rparr>)))"

text \<open>
  One bucket's blocks are trimmed one by one and failures are ignored. The trimmed buckets are
  those of \<open>trim_walk\<close>, from \<open>discard_idx\<close> to \<open>dirty_idx_ondisk\<close>.
\<close>

definition trim_bucket :: "nat \<Rightarrow> journal \<Rightarrow> journal" where
  "trim_bucket i j = j\<lparr>j_dev := j_dev j @
     map (\<lambda>k. Trim (jd_addr (sp_buckets (j_sp j) ! i) + of_nat k)) [0..<unat BUCKET_BLOCKS]\<rparr>"

definition trim_phase :: "journal \<Rightarrow> journal option" where
  "trim_phase j =
     (let nr = length (sp_buckets (j_sp j)) in
      if nr = 0 then Some j
      else Option.bind (trim_walk nr (sp_dirty_idx_ondisk (j_sp j)) (sp_discard_idx (j_sp j))) (\<lambda>is.
        Some (upd_sp (\<lambda>sp. sp\<lparr>sp_discard_idx := sp_dirty_idx_ondisk sp\<rparr>) (fold trim_bucket is j))))"

text \<open>The foreground reclaim, \<open>direct = true\<close>: one pass over the pins.\<close>

definition journal_reclaim :: "pin_cb \<Rightarrow> journal \<Rightarrow> unit jresult" where
  "journal_reclaim cb j =
     (case journal_error_check j of
        Some e \<Rightarrow> Some (Inl e, j)
      | None \<Rightarrow>
          Option.bind (journal_flush_pins cb (journal_seq_to_flush j) j) (\<lambda>(r, j1).
            case r of
              Inl e \<Rightarrow> Some (Inl Io, j1)
            | Inr n \<Rightarrow>
                let j2 = (if n = 0 then j1 else j1\<lparr>j_nr_direct_reclaim := j_nr_direct_reclaim j1 + ucast n\<rparr>);
                    j3 = maybe_update_last_seq j2
                in Option.bind (advance_dirty j3) (\<lambda>j4.
                   Option.bind (trim_phase j4) (\<lambda>j5. Some (Inr (), j5)))))"

definition rotate_or_reclaim :: "pin_cb \<Rightarrow> journal \<Rightarrow> unit jresult" where
  "rotate_or_reclaim cb j =
     (if sp_buckets (j_sp j) = [] then Some (Inl Overflow, j)
      else if next_bucket (j_sp j) \<noteq> sp_dirty_idx (j_sp j)
      then Some (Inr (), upd_sp (\<lambda>sp. enter_bucket (next_bucket sp) sp) j)
      else Option.bind (journal_reclaim cb j) (\<lambda>(r, j1).
        case r of
          Inl e \<Rightarrow> Some (Inl e, j1)
        | Inr _ \<Rightarrow>
            if next_bucket (j_sp j1) = sp_dirty_idx (j_sp j1) then Some (Inl Overflow, j1)
            else Some (Inr (), upd_sp (\<lambda>sp. enter_bucket (next_bucket sp) sp) j1)))"

subsection \<open>Writing buffers to buckets\<close>

definition rotate_if_full :: "pin_cb \<Rightarrow> journal \<Rightarrow> unit jresult" where
  "rotate_if_full cb j =
     (if sp_remaining_bytes (j_sp j) < JSET_BLOCK_SIZE then rotate_or_reclaim cb j else Some (Inr (), j))"

text \<open>One turn of the write loop: the next chunk, zero-padded to a block. \<open>None\<close>: no such bucket.\<close>

definition write_chunk :: "(dev_event list \<Rightarrow> dev_event \<Rightarrow> bool) \<Rightarrow> u8 list \<Rightarrow> journal \<Rightarrow> unit jresult" where
  "write_chunk io chunk j =
     (let sp = j_sp j in
      if sp_current_bucket sp \<ge> length (sp_buckets sp) then None
      else
        let addr = jd_addr (sp_buckets sp ! sp_current_bucket sp) + ucast (sp_current_offset sp div JSET_BLOCK_SIZE);
            block = chunk @ replicate (unat JSET_BLOCK_SIZE - length chunk) 0;
            (ok, j1) = dev_do io (Write addr block) j
        in if \<not> ok then Some (Inl Io, j1)
           else Some (Inr (), upd_sp (\<lambda>sp. sp\<lparr>sp_current_offset := sp_current_offset sp + JSET_BLOCK_SIZE,
                  sp_remaining_bytes := saturating_sub (sp_remaining_bytes sp) JSET_BLOCK_SIZE\<rparr>) j1))"

function write_chunks :: "(dev_event list \<Rightarrow> dev_event \<Rightarrow> bool) \<Rightarrow> pin_cb \<Rightarrow> u8 list \<Rightarrow> journal \<Rightarrow> unit jresult" where
  "write_chunks io cb bytes j =
     (if bytes = [] then Some (Inr (), j)
      else case rotate_if_full cb j of
        None \<Rightarrow> None
      | Some (Inl e, j1) \<Rightarrow> Some (Inl e, j1)
      | Some (Inr _, j1) \<Rightarrow>
          (case write_chunk io (take (unat JSET_BLOCK_SIZE) bytes) j1 of
             None \<Rightarrow> None
           | Some (Inl e, j2) \<Rightarrow> Some (Inl e, j2)
           | Some (Inr _, j2) \<Rightarrow> write_chunks io cb (drop (unat JSET_BLOCK_SIZE) bytes) j2))"
  by pat_completeness auto

termination write_chunks
  by (relation "measure (\<lambda>(_, _, bytes, _). length bytes)") (auto simp: JSET_BLOCK_SIZE_def)

declare write_chunks.simps [simp del]

definition journal_write :: "(dev_event list \<Rightarrow> dev_event \<Rightarrow> bool) \<Rightarrow> pin_cb \<Rightarrow> u8 list \<Rightarrow> bool \<Rightarrow> bool \<Rightarrow> journal \<Rightarrow> unit jresult" where
  "journal_write io cb bytes must_flush no_flush j =
     (case rotate_if_full cb j of
        None \<Rightarrow> None
      | Some (Inl e, j1) \<Rightarrow> Some (Inl e, j1)
      | Some (Inr _, j1) \<Rightarrow>
          (case write_chunks io cb bytes j1 of
             None \<Rightarrow> None
           | Some (Inl e, j2) \<Rightarrow> Some (Inl e, j2)
           | Some (Inr _, j2) \<Rightarrow>
               if must_flush \<and> \<not> no_flush then
                 let (ok, j3) = dev_do io Flush j2 in Some (if ok then Inr () else Inl Io, j3)
               else Some (Inr (), j2)))"

text \<open>What a write takes from a buffer: its data up to \<open>data_end\<close>.\<close>

definition buf_payload :: "journal_buf \<Rightarrow> u8 list" where
  "buf_payload b = take (min (jb_data_end b) (length (jb_data b))) (jb_data b)"

definition write_buf :: "(dev_event list \<Rightarrow> dev_event \<Rightarrow> bool) \<Rightarrow> pin_cb \<Rightarrow> nat \<Rightarrow> journal \<Rightarrow> unit jresult" where
  "write_buf io cb i j =
     (let b = j_bufs j ! i in
      if jb_state b \<noteq> WriteSubmitted then Some (Inr (), j)
      else
        let j1 = (upd_buf i (\<lambda>b. b\<lparr>jb_callbacks := [], jb_state := WriteDone\<rparr>) j)
                   \<lparr>j_fired := j_fired j @ jb_callbacks b\<rparr>
        in journal_write io cb (buf_payload b) (jb_must_flush b) (jb_no_flush b) j1)"

fun write_bufs :: "(dev_event list \<Rightarrow> dev_event \<Rightarrow> bool) \<Rightarrow> pin_cb \<Rightarrow> nat list \<Rightarrow> journal \<Rightarrow> unit jresult" where
  "write_bufs io cb [] j = Some (Inr (), j)"
| "write_bufs io cb (i # is) j =
     (case write_buf io cb i j of
        None \<Rightarrow> None
      | Some (Inl e, j1) \<Rightarrow> Some (Inl e, j1)
      | Some (Inr _, j1) \<Rightarrow> write_bufs io cb is j1)"

definition write_bufs_to_bucket :: "(dev_event list \<Rightarrow> dev_event \<Rightarrow> bool) \<Rightarrow> pin_cb \<Rightarrow> journal \<Rightarrow> unit jresult" where
  "write_bufs_to_bucket io cb j = write_bufs io cb [0..<JOURNAL_STATE_BUF_NR] j"

subsection \<open>Flush\<close>

text \<open>
  The steps of \<open>bch2_journal_flush\<close> up to the writes: close the entry, wait for the drain
  (\<open>None\<close> while reservations are out), set how much data there is, and mark every buffer that
  accepted data as submitted.
\<close>

definition mark_state :: "buf_state \<Rightarrow> buf_state \<Rightarrow> journal \<Rightarrow> journal" where
  "mark_state old new j = j\<lparr>j_bufs := map (\<lambda>b. if jb_state b = old then b\<lparr>jb_state := new\<rparr> else b) (j_bufs j)\<rparr>"

definition flush_begin :: "journal \<Rightarrow> journal option" where
  "flush_begin j =
     (let j0 = set_needs_flush_write True j;
          old_idx = res_idx (j_res j0);
          (final_off, j1) = journal_entry_close j0
      in if buf_count (j_res j1) old_idx \<noteq> 0 then None
         else
           let j2 = upd_buf (unat old_idx) (\<lambda>b. b\<lparr>jb_data_end := min (unat final_off * 8) BUF_SIZE\<rparr>) j1
           in Some (mark_state Closing WriteSubmitted (mark_state Accepting Closing j2)))"

text \<open>Each buffer that was written releases its entry's own pin.\<close>

definition flush_put :: "u64 \<Rightarrow> journal \<Rightarrow> journal" where
  "flush_put q j = snd (pin_put q (upd_sp (update_bucket_seq q) j))"

definition flush_end :: "pin_cb \<Rightarrow> journal \<Rightarrow> unit jresult" where
  "flush_end cb j =
     (let j1 = set_needs_flush_write False j;
          flushed = map jb_seq (filter (\<lambda>b. jb_state b = WriteDone \<and> jb_seq b > 0) (j_bufs j1));
          j2 = fold flush_put flushed j1
      in Option.bind (journal_flush_pins cb (j_seq j2) j2) (\<lambda>(_, j3).
         let j4 = maybe_update_last_seq (j3\<lparr>j_flushed_seq_marker := j_seq j3\<rparr>) in
         Option.bind (journal_entry_open j4) (\<lambda>j5. Some (Inr (), set_watermark j5))))"

definition journal_flush :: "(dev_event list \<Rightarrow> dev_event \<Rightarrow> bool) \<Rightarrow> pin_cb \<Rightarrow> journal \<Rightarrow> unit jresult" where
  "journal_flush io cb j =
     (case flush_begin j of
        None \<Rightarrow> None
      | Some j1 \<Rightarrow>
          (case write_bufs_to_bucket io cb j1 of
             None \<Rightarrow> None
           | Some (Inl e, j2) \<Rightarrow> Some (Inl e, j2)
           | Some (Inr _, j2) \<Rightarrow>
               let (ok, j3) = dev_do io Flush j2 in
               if \<not> ok then Some (Inl Io, j3) else flush_end cb j3))"

definition journal_stop :: "(dev_event list \<Rightarrow> dev_event \<Rightarrow> bool) \<Rightarrow> pin_cb \<Rightarrow> journal \<Rightarrow> unit jresult" where
  "journal_stop io cb j =
     (case journal_flush io cb j of
        None \<Rightarrow> None
      | Some (Inl e, j1) \<Rightarrow> Some (Inl e, j1)
      | Some (Inr _, j1) \<Rightarrow> Option.bind (journal_entry_open j1) (journal_flush io cb))"

subsection \<open>The slow path\<close>

definition journal_cycle_locked :: "journal \<Rightarrow> bool jresult" where
  "journal_cycle_locked j =
     (let (_, j1) = journal_entry_close j in
      if sp_buckets (j_sp j1) = [] then Some (Inl Overflow, j1)
      else if next_bucket (j_sp j1) \<noteq> sp_dirty_idx (j_sp j1) then
        Option.bind (journal_entry_open (upd_sp (\<lambda>sp. enter_bucket (next_bucket sp) sp) j1))
          (\<lambda>j2. Some (Inr True, j2))
      else Some (Inr False, j1))"

text \<open>The wait for the in-flight queue gives up after a number of spins, and changes nothing.\<close>

definition cycle_then_get :: "watermark \<Rightarrow> u32 \<Rightarrow> journal \<Rightarrow> (journal_res option) jresult" where
  "cycle_then_get wm req j =
     Option.bind (journal_cycle_locked j) (\<lambda>(r, j1).
       case r of
         Inl e \<Rightarrow> Some (Inl e, j1)
       | Inr cycled \<Rightarrow>
           if cycled then
             (case journal_res_get_fast wm req j1 of
                (Inr res, j2) \<Rightarrow> Some (Inr (Some res), j2)
              | (Inl _, j2) \<Rightarrow> Some (Inr None, j2))
           else Some (Inr None, j1))"

definition journal_res_get_slowpath :: "pin_cb \<Rightarrow> watermark \<Rightarrow> u32 \<Rightarrow> journal \<Rightarrow> journal_res jresult" where
  "journal_res_get_slowpath cb wm req j =
     Option.bind (cycle_then_get wm req j) (\<lambda>(r, j1).
       case r of
         Inl e \<Rightarrow> Some (Inl e, j1)
       | Inr (Some res) \<Rightarrow> Some (Inr res, j1)
       | Inr None \<Rightarrow>
           (case journal_res_get_fast wm req j1 of
              (Inr res, j2) \<Rightarrow> Some (Inr res, j2)
            | (Inl _, j2) \<Rightarrow>
                Option.bind (journal_flush_pins cb (journal_seq_to_flush j2) j2) (\<lambda>(fl, j3).
                  case fl of
                    Inl _ \<Rightarrow> Some (Inl Io, j3)
                  | Inr n \<Rightarrow>
                      let j4 = (if n > 0 then j3\<lparr>j_nr_direct_reclaim := j_nr_direct_reclaim j3 + ucast n\<rparr> else j3) in
                      Option.bind (advance_dirty (maybe_update_last_seq j4)) (\<lambda>j5.
                      Option.bind (cycle_then_get wm req j5) (\<lambda>(r2, j6).
                        case r2 of
                          Inl e \<Rightarrow> Some (Inl e, j6)
                        | Inr (Some res) \<Rightarrow> Some (Inr res, j6)
                        | Inr None \<Rightarrow> Some (Inl Overflow, j6))))))"

definition journal_res_get :: "pin_cb \<Rightarrow> watermark \<Rightarrow> u32 \<Rightarrow> journal \<Rightarrow> journal_res jresult" where
  "journal_res_get cb wm req j =
     (case journal_res_get_fast wm req j of
        (Inr res, j1) \<Rightarrow> Some (Inr res, j1)
      | (Inl _, j1) \<Rightarrow> journal_res_get_slowpath cb wm req j1)"

end
