(* ===== verification/JournalProps.thy ===== *)
theory JournalProps
  imports Journal
begin

text \<open>
  Properties of the journal of theory Journal: what a flush writes, how errors stick, and
  executions in which the journal loses data or stops advancing.
\<close>

subsection \<open>Errors\<close>

text \<open>
  The first error of a journal stays: it is the one reported from then on, a later one does
  not replace it, and every fast reservation fails with it and changes nothing.\<close>
theorem first_error_sticks:
  assumes z: "j_error j = JE_NONE"
  shows "journal_error_check (journal_error_set e j) = Some e \<and>
    journal_error_set e' (journal_error_set e j) = journal_error_set e j \<and>
    journal_res_get_fast wm n (journal_error_set e j) = (Inl e, journal_error_set e j)"
proof -
  have c: "journal_error_of_code (journal_error_code e) = Some e" "journal_error_code e \<noteq> JE_NONE"
    by (cases e; simp add: journal_error_of_code_def JE_NONE_def)+
  then have k: "journal_error_check (journal_error_set e j) = Some e"
    by (simp add: journal_error_check_def journal_error_set_def z)
  then show ?thesis
    using c(2) by (simp add: journal_res_get_fast_def journal_error_set_def z)
qed

theorem first_error_sticks_witness:
  "journal_error_check (journal_error_set Stuck (journal_error_set Io
     (journal_blank 1 0 (sp_new [100]) res_state_new (\<lambda>_. Other) (\<lambda>_. False)))) = Some Io"
proof -
  let ?j = "journal_blank 1 0 (sp_new [100]) res_state_new (\<lambda>_. Other) (\<lambda>_. False)"
  have "j_error ?j = JE_NONE"
    by (simp add: journal_blank_def)
  then show ?thesis
    using first_error_sticks[of ?j Io Stuck] by simp
qed

subsection \<open>What a flush writes\<close>

definition block_of :: "u8 list \<Rightarrow> u8 list" where
  "block_of bytes = bytes @ replicate (unat JSET_BLOCK_SIZE - length bytes) 0"

function blocks_of :: "u8 list \<Rightarrow> u8 list list" where
  "blocks_of bytes = (if bytes = [] then [] else block_of (take 4096 bytes) # blocks_of (drop 4096 bytes))"
  by pat_completeness auto
termination by (relation "measure length") auto

declare blocks_of.simps [simp del]

definition writes_at :: "u64 \<Rightarrow> nat \<Rightarrow> u8 list list \<Rightarrow> dev_event list" where
  "writes_at addr k bs = map (\<lambda>i. Write (addr + of_nat (k + i)) (bs ! i)) [0..<length bs]"

lemma writes_at_Cons: "writes_at addr k (b # bs) = Write (addr + of_nat k) b # writes_at addr (Suc k) bs"
  by (simp add: writes_at_def upt_conv_Cons map_Suc_upt[symmetric] del: upt_Suc map_Suc_upt)

text \<open>The current bucket has been written up to block \<open>k\<close>.\<close>

definition at_block :: "nat \<Rightarrow> slowpath \<Rightarrow> bool" where
  "at_block k sp \<longleftrightarrow> sp_current_bucket sp < length (sp_buckets sp) \<and> k \<le> 256 \<and>
     unat (sp_current_offset sp) = k * 4096 \<and> unat (sp_remaining_bytes sp) = (256 - k) * 4096"

definition cur_addr :: "slowpath \<Rightarrow> u64" where
  "cur_addr sp = jd_addr (sp_buckets sp ! sp_current_bucket sp)"

lemma write_chunk_ok:
  assumes "at_block k (j_sp j)" "k < 256" "length chunk \<le> 4096" "io (j_dev j) (Write (cur_addr (j_sp j) + of_nat k) (block_of chunk))"
  shows "\<exists>sp. write_chunk io chunk j = Some (Inr (), j\<lparr>j_sp := sp, j_dev := j_dev j @ [Write (cur_addr (j_sp j) + of_nat k) (block_of chunk)]\<rparr>) \<and>
    at_block (Suc k) sp \<and> cur_addr sp = cur_addr (j_sp j) \<and> sp_buckets sp = sp_buckets (j_sp j)"
proof -
  let ?sp = "j_sp j"
  have a: "sp_current_bucket ?sp < length (sp_buckets ?sp)" "unat (sp_current_offset ?sp) = k * 4096"
    "unat (sp_remaining_bytes ?sp) = (256 - k) * 4096"
    using assms(1) by (simp_all add: at_block_def)
  have div: "ucast (sp_current_offset ?sp div JSET_BLOCK_SIZE) = (of_nat k :: u64)"
  proof -
    have "unat (sp_current_offset ?sp div JSET_BLOCK_SIZE) = k"
      using a(2) by (simp add: JSET_BLOCK_SIZE_def unat_div)
    then show ?thesis
      by (simp add: word_unat_eq_iff unsigned_ucast_eq unsigned_of_nat)
  qed
  let ?sp' = "?sp\<lparr>sp_current_offset := sp_current_offset ?sp + JSET_BLOCK_SIZE,
    sp_remaining_bytes := saturating_sub (sp_remaining_bytes ?sp) JSET_BLOCK_SIZE\<rparr>"
  have "unat (sp_current_offset ?sp + JSET_BLOCK_SIZE) = Suc k * 4096"
    using a(2) assms(2) by (simp add: JSET_BLOCK_SIZE_def unat_word_ariths)
  moreover have "unat (saturating_sub (sp_remaining_bytes ?sp) JSET_BLOCK_SIZE) = (256 - Suc k) * 4096"
    using a(3) by (simp add: JSET_BLOCK_SIZE_def)
  ultimately have "at_block (Suc k) ?sp'" "cur_addr ?sp' = cur_addr ?sp" "sp_buckets ?sp' = sp_buckets ?sp"
    using a(1) assms(2) by (simp_all add: at_block_def cur_addr_def)
  moreover have "write_chunk io chunk j = Some (Inr (), j\<lparr>j_sp := ?sp', j_dev := j_dev j @ [Write (cur_addr ?sp + of_nat k) (block_of chunk)]\<rparr>)"
    using a(1) assms(4) by (simp add: write_chunk_def Let_def dev_do_def div block_of_def cur_addr_def upd_sp_def)
  ultimately show ?thesis
    by blast
qed

lemma rotate_if_full_room:
  assumes "at_block k (j_sp j)" "k < 256"
  shows "rotate_if_full cb j = Some (Inr (), j)"
  using assms by (auto simp: rotate_if_full_def at_block_def word_less_nat_alt JSET_BLOCK_SIZE_def)

lemma write_chunks_ok:
  assumes "at_block k (j_sp j)" "k + length (blocks_of bytes) \<le> 256" "\<And>l e. io l e"
  shows "\<exists>sp. write_chunks io cb bytes j =
      Some (Inr (), j\<lparr>j_sp := sp, j_dev := j_dev j @ writes_at (cur_addr (j_sp j)) k (blocks_of bytes)\<rparr>) \<and>
    at_block (k + length (blocks_of bytes)) sp \<and> cur_addr sp = cur_addr (j_sp j) \<and> sp_buckets sp = sp_buckets (j_sp j)"
  using assms(1,2)
proof (induction bytes arbitrary: j k rule: blocks_of.induct)
  case (1 bytes)
  show ?case
  proof (cases "bytes = []")
    case True
    then show ?thesis
      using "1.prems" by (intro exI[of _ "j_sp j"]) (simp add: write_chunks.simps blocks_of.simps writes_at_def)
  next
    case False
    let ?c = "take 4096 bytes" and ?r = "drop 4096 bytes"
    have b: "blocks_of bytes = block_of ?c # blocks_of ?r"
      using False by (subst blocks_of.simps) simp
    have k: "k < 256"
      using "1.prems"(2) by (simp add: b)
    obtain sp where w: "write_chunk io ?c j = Some (Inr (), j\<lparr>j_sp := sp, j_dev := j_dev j @ [Write (cur_addr (j_sp j) + of_nat k) (block_of ?c)]\<rparr>)"
      "at_block (Suc k) sp" "cur_addr sp = cur_addr (j_sp j)" "sp_buckets sp = sp_buckets (j_sp j)"
      using write_chunk_ok[OF "1.prems"(1) k, of ?c io] assms(3) by auto
    let ?j = "j\<lparr>j_sp := sp, j_dev := j_dev j @ [Write (cur_addr (j_sp j) + of_nat k) (block_of ?c)]\<rparr>"
    obtain sp' where "write_chunks io cb ?r ?j = Some (Inr (), ?j\<lparr>j_sp := sp', j_dev := j_dev ?j @ writes_at (cur_addr sp) (Suc k) (blocks_of ?r)\<rparr>)"
      "at_block (Suc k + length (blocks_of ?r)) sp'" "cur_addr sp' = cur_addr sp" "sp_buckets sp' = sp_buckets sp"
      using "1.IH"[OF False, of "Suc k" ?j] w(2) "1.prems"(2) by (auto simp: b)
    moreover have "unat JSET_BLOCK_SIZE = 4096"
      by (simp add: JSET_BLOCK_SIZE_def)
    ultimately show ?thesis
      using False w(1,3,4) rotate_if_full_room[OF "1.prems"(1) k]
      by (subst write_chunks.simps) (auto simp: b writes_at_Cons intro!: exI[of _ sp'])
  qed
qed

lemma concat_blocks: "\<exists>z. concat (blocks_of bytes) = bytes @ replicate z 0"
proof (induction bytes rule: blocks_of.induct)
  case (1 bytes)
  show ?case
  proof (cases "length bytes \<le> 4096")
    case True
    then show ?thesis
      by (subst blocks_of.simps) (auto simp: block_of_def blocks_of.simps[of "[]"])
  next
    case False
    then obtain z where "concat (blocks_of (drop 4096 bytes)) = drop 4096 bytes @ replicate z 0"
      using "1.IH" False by fastforce
    moreover have "block_of (take 4096 bytes) = take 4096 bytes"
      using False by (simp add: block_of_def JSET_BLOCK_SIZE_def)
    ultimately have "concat (blocks_of bytes) = (take 4096 bytes @ drop 4096 bytes) @ replicate z 0"
      using False by (subst blocks_of.simps) auto
    then show ?thesis
      by auto
  qed
qed

lemma write_bufs_append:
  "write_bufs io cb (xs @ ys) j =
     (case write_bufs io cb xs j of
        None \<Rightarrow> None
      | Some (Inl e, j1) \<Rightarrow> Some (Inl e, j1)
      | Some (Inr _, j1) \<Rightarrow> write_bufs io cb ys j1)"
  by (induction xs arbitrary: j) (auto split: option.splits sum.splits)

lemma write_bufs_skip:
  "\<forall>m \<in> set is. jb_state (j_bufs j ! m) \<noteq> WriteSubmitted \<Longrightarrow> write_bufs io cb is j = Some (Inr (), j)"
  by (induction "is") (simp_all add: write_buf_def Let_def)

text \<open>One buffer has data, the others have none pending, and no reservation is out.\<close>

definition one_pending :: "nat \<Rightarrow> nat \<Rightarrow> journal \<Rightarrow> bool" where
  "one_pending i off j \<longleftrightarrow> length (j_bufs j) = 4 \<and> i = unat (res_idx (j_res j)) \<and>
     buf_count (j_res j) (res_idx (j_res j)) = 0 \<and> off = unat (cur_entry_offset (j_res j)) \<and> off \<le> 4096 \<and>
     jb_state (j_bufs j ! i) = Accepting \<and> length (jb_data (j_bufs j ! i)) = BUF_SIZE \<and>
     (\<forall>m < 4. m \<noteq> i \<longrightarrow> jb_state (j_bufs j ! m) \<in> {Free, WriteDone})"

lemma flush_begin_one:
  assumes "one_pending i off j"
  shows "flush_begin j = Some ((snd (journal_entry_close (set_needs_flush_write True j)))
    \<lparr>j_bufs := (j_bufs j)[i := (j_bufs j ! i)\<lparr>jb_data_end := off * 8, jb_state := WriteSubmitted\<rparr>]\<rparr>)"
proof -
  have p: "length (j_bufs j) = 4" "i = unat (res_idx (j_res j))" "buf_count (j_res j) (res_idx (j_res j)) = 0"
    "off = unat (cur_entry_offset (j_res j))" "off \<le> 4096" "jb_state (j_bufs j ! i) = Accepting"
    "\<And>m. m < 4 \<Longrightarrow> m \<noteq> i \<Longrightarrow> jb_state (j_bufs j ! m) = Free \<or> jb_state (j_bufs j ! m) = WriteDone"
    using assms by (auto simp: one_pending_def)
  have i4: "i < 4"
    using res_idx_less[of "j_res j"] p(2) by (simp add: word_less_nat_alt)
  have cnt: "buf_count (snd (close_entry (j_res j))) (res_idx (j_res j)) = 0"
    using p(3) close_entry_fields(4)[OF res_idx_less] by simp
  have off: "min (unat (fst (close_entry (j_res j))) * 8) BUF_SIZE = off * 8"
    using p(4,5) by (simp add: close_entry_fields(1) BUF_SIZE_def)
  have "map ((\<lambda>b. if jb_state b = Closing then b\<lparr>jb_state := WriteSubmitted\<rparr> else b) \<circ>
         (\<lambda>b. if jb_state b = Accepting then b\<lparr>jb_state := Closing\<rparr> else b))
       ((j_bufs j)[i := (j_bufs j ! i)\<lparr>jb_data_end := off * 8\<rparr>]) =
     (j_bufs j)[i := (j_bufs j ! i)\<lparr>jb_data_end := off * 8, jb_state := WriteSubmitted\<rparr>]"
  proof (rule nth_equalityI)
    fix m
    assume "m < length (map ((\<lambda>b. if jb_state b = Closing then b\<lparr>jb_state := WriteSubmitted\<rparr> else b) \<circ>
         (\<lambda>b. if jb_state b = Accepting then b\<lparr>jb_state := Closing\<rparr> else b))
       ((j_bufs j)[i := (j_bufs j ! i)\<lparr>jb_data_end := off * 8\<rparr>]))"
    then have m: "m < 4"
      by (simp add: p(1))
    show "map ((\<lambda>b. if jb_state b = Closing then b\<lparr>jb_state := WriteSubmitted\<rparr> else b) \<circ>
         (\<lambda>b. if jb_state b = Accepting then b\<lparr>jb_state := Closing\<rparr> else b))
       ((j_bufs j)[i := (j_bufs j ! i)\<lparr>jb_data_end := off * 8\<rparr>]) ! m =
     (j_bufs j)[i := (j_bufs j ! i)\<lparr>jb_data_end := off * 8, jb_state := WriteSubmitted\<rparr>] ! m"
      using m i4 p(1,6) p(7)[OF m] by (cases "m = i") auto
  qed (simp add: p(1))
  moreover obtain fo w where c: "close_entry (j_res j) = (fo, w)"
    by (cases "close_entry (j_res j)")
  ultimately show ?thesis
    using cnt off p(2)
    by (simp add: flush_begin_def Let_def set_needs_flush_write_def journal_entry_close_def upd_buf_def
        mark_state_def c)
qed

lemma flush_writes_blocks:
  assumes "one_pending i off j" and "at_block k (j_sp j)" and "k < 256"
    and "k + length (blocks_of (take (off * 8) (jb_data (j_bufs j ! i)))) \<le> 256" and "\<And>l e. io l e"
  shows "\<exists>j1 j2. flush_begin j = Some j1 \<and> write_bufs_to_bucket io cb j1 = Some (Inr (), j2) \<and>
    j_dev j2 = j_dev j @ writes_at (cur_addr (j_sp j)) k (blocks_of (take (off * 8) (jb_data (j_bufs j ! i)))) @
      (if jb_must_flush (j_bufs j ! i) \<and> \<not> jb_no_flush (j_bufs j ! i) then [Flush] else []) \<and>
    sp_buckets (j_sp j2) = sp_buckets (j_sp j) \<and> jb_state (j_bufs j2 ! i) = WriteDone"
proof -
  have p: "length (j_bufs j) = 4" "i < 4" "off \<le> 4096" "length (jb_data (j_bufs j ! i)) = BUF_SIZE"
    "\<And>m. m < 4 \<Longrightarrow> m \<noteq> i \<Longrightarrow> jb_state (j_bufs j ! m) \<noteq> WriteSubmitted"
    using assms(1) res_idx_less[of "j_res j"] by (auto simp: one_pending_def word_less_nat_alt)
  define b where "b = (j_bufs j ! i)\<lparr>jb_data_end := off * 8, jb_state := WriteSubmitted\<rparr>"
  define j1 where "j1 = (snd (journal_entry_close (set_needs_flush_write True j)))\<lparr>j_bufs := (j_bufs j)[i := b]\<rparr>"
  have j1: "j_bufs j1 = (j_bufs j)[i := b]" "j_sp j1 = j_sp j" "j_dev j1 = j_dev j" "flush_begin j = Some j1"
    using flush_begin_one[OF assms(1)]
    by (simp_all add: j1_def b_def journal_entry_close_def set_needs_flush_write_def split: prod.splits)
  let ?data = "take (off * 8) (jb_data (j_bufs j ! i))"
  have pay: "buf_payload b = ?data"
    using p(3,4) by (simp add: buf_payload_def b_def BUF_SIZE_def)
  define j1' where "j1' = (upd_buf i (\<lambda>b. b\<lparr>jb_callbacks := [], jb_state := WriteDone\<rparr>) j1)\<lparr>j_fired := j_fired j1 @ jb_callbacks b\<rparr>"
  have j1': "j_sp j1' = j_sp j" "j_dev j1' = j_dev j" "jb_state (j_bufs j1' ! i) = WriteDone"
    "\<And>m. m < 4 \<Longrightarrow> m \<noteq> i \<Longrightarrow> j_bufs j1' ! m = j_bufs j ! m"
    using p(1,2) by (simp_all add: j1'_def upd_buf_def j1)
  obtain sp where w: "write_chunks io cb ?data j1' =
      Some (Inr (), j1'\<lparr>j_sp := sp, j_dev := j_dev j @ writes_at (cur_addr (j_sp j)) k (blocks_of ?data)\<rparr>)"
    "sp_buckets sp = sp_buckets (j_sp j)"
    using write_chunks_ok[of k j1' ?data io cb] assms(2,4,5) j1' by auto
  let ?fl = "if jb_must_flush (j_bufs j ! i) \<and> \<not> jb_no_flush (j_bufs j ! i) then [Flush] else []"
  let ?j2 = "j1'\<lparr>j_sp := sp, j_dev := j_dev j @ writes_at (cur_addr (j_sp j)) k (blocks_of ?data) @ ?fl\<rparr>"
  have "journal_write io cb ?data (jb_must_flush b) (jb_no_flush b) j1' = Some (Inr (), ?j2)"
    using w(1) rotate_if_full_room[of k j1' cb] assms(2,3,5) j1'(1)
    by (simp add: journal_write_def b_def dev_do_def)
  then have wb: "write_buf io cb i j1 = Some (Inr (), ?j2)"
    using p(1,2) by (simp add: write_buf_def Let_def j1(1) pay j1'_def[symmetric, unfolded j1(1)]) (simp add: b_def j1'_def)
  have sp: "[0..<JOURNAL_STATE_BUF_NR] = [0..<i] @ i # [Suc i..<4]"
    using p(2) upt_add_eq_append[of 0 i "4 - i"] by (simp add: JOURNAL_STATE_BUF_NR_def upt_conv_Cons)
  have pre: "write_bufs io cb [0..<i] j1 = Some (Inr (), j1)"
    using p(1,2,5) by (intro write_bufs_skip) (simp add: j1(1))
  have post: "write_bufs io cb [Suc i..<4] ?j2 = Some (Inr (), ?j2)"
    using p(5) j1'(4) by (intro write_bufs_skip) simp
  have "write_bufs_to_bucket io cb j1 = Some (Inr (), ?j2)"
    by (simp add: write_bufs_to_bucket_def sp write_bufs_append pre wb post del: upt_Suc)
  then show ?thesis
    using j1(4) j1'(3) w(2) by (intro exI[of _ j1] exI[of _ ?j2]) simp
qed

text \<open> C10. When no reservation is out, a flush writes exactly the words that were reserved in the
  open entry: on a device that does not fail and with room in the current bucket, the blocks
  appended to the device's log spell the buffer's data up to the reserved offset followed by
  padding zeros, in consecutive blocks of the current bucket.\<close>
theorem flush_writes_reserved_words:
  assumes "one_pending i off j" and "at_block k (j_sp j)" and "k < 256"
    and "k + length (blocks_of (take (off * 8) (jb_data (j_bufs j ! i)))) \<le> 256" and "\<And>l e. io l e"
  shows "\<exists>j1 j2 z blocks. flush_begin j = Some j1 \<and> write_bufs_to_bucket io cb j1 = Some (Inr (), j2) \<and>
    j_dev j2 = j_dev j @ writes_at (cur_addr (j_sp j)) k blocks @
      (if jb_must_flush (j_bufs j ! i) \<and> \<not> jb_no_flush (j_bufs j ! i) then [Flush] else []) \<and>
    concat blocks = take (off * 8) (jb_data (j_bufs j ! i)) @ replicate z 0 \<and>
    jb_state (j_bufs j2 ! i) = WriteDone"
  using flush_writes_blocks[where io = io and cb = cb, OF assms(1-4) assms(5)] concat_blocks[of "take (off * 8) (jb_data (j_bufs j ! i))"] by blast

definition demo_journal :: journal where
  "demo_journal = (journal_blank 2 0 (sp_new [100]) 4194306 (\<lambda>_. Other) (\<lambda>_. False))
     \<lparr>j_bufs := [jb_free, reset_for_accepting 1 jb_free, jb_free, jb_free]\<rparr>"

lemma demo_pending: "one_pending 1 2 demo_journal" "at_block 0 (j_sp demo_journal)"
proof -
  have "unat (res_idx 4194306) = 1" "buf_count 4194306 (res_idx 4194306) = 0" "unat (cur_entry_offset 4194306) = 2"
    by code_simp+
  then show "one_pending 1 2 demo_journal"
    by (auto simp: one_pending_def demo_journal_def journal_blank_def reset_for_accepting_def jb_free_def nth_Cons' numeral_eq_Suc less_Suc_eq)
  show "at_block 0 (j_sp demo_journal)"
    by (simp add: at_block_def demo_journal_def journal_blank_def sp_new_def BUCKET_BLOCKS_def JSET_BLOCK_SIZE_def)
qed

theorem flush_writes_reserved_words_witness:
  "\<exists>j1 j2 z blocks. flush_begin demo_journal = Some j1 \<and>
     write_bufs_to_bucket (\<lambda>_ _. True) (\<lambda>_ _ _. None) j1 = Some (Inr (), j2) \<and>
     j_dev j2 = writes_at 100 0 blocks \<and> concat blocks = replicate 16 0 @ replicate z 0 \<and>
     jb_state (j_bufs j2 ! 1) = WriteDone"
proof -
  have d: "take 16 (jb_data (j_bufs demo_journal ! Suc 0)) = replicate 16 0"
    by (simp add: demo_journal_def reset_for_accepting_def BUF_SIZE_def)
  have l: "length (blocks_of (replicate 16 (0 :: u8))) = 1"
    by (simp add: blocks_of.simps[of "replicate 16 0"] blocks_of.simps[of "[]"] block_of_def)
  have "jb_must_flush (j_bufs demo_journal ! 1) = False" "j_dev demo_journal = []" "cur_addr (j_sp demo_journal) = 100"
    by (simp_all add: demo_journal_def reset_for_accepting_def journal_blank_def cur_addr_def sp_new_def)
  then show ?thesis
    using flush_writes_reserved_words[OF demo_pending, of "\<lambda>_ _. True" "\<lambda>_ _ _. None"] by (simp add: d l)
qed

subsection \<open>Entries that a flush does not write\<close>

lemma entry_open_spec:
  assumes "journal_entry_open j = Some j'"
  defines "i \<equiv> (res_idx (j_res j) + 1) AND 3"
  shows "j_bufs j' = (j_bufs j)[unat i := reset_for_accepting (j_seq j) ((j_bufs j ! unat i)\<lparr>jb_state := Free\<rparr>)]"
    "j_res j' = open_entry (j_res j) i" "j_seq j' = j_seq j + 1" "j_sp j' = j_sp j" "j_dev j' = j_dev j"
    "pf_push_back (pin_list_new 1) (jp_fifo j) = Some (jp_fifo j')" "jp_last_seq_ondisk j' = jp_last_seq_ondisk j"
    "unat i < length (j_bufs j) \<Longrightarrow> jb_state (j_bufs j ! unat i) = Free \<or> jb_state (j_bufs j ! unat i) = WriteDone"
  using assms(1)
  by (cases "unat ((res_idx (j_res j) + 1) AND 3) < length (j_bufs j)";
      auto simp: journal_entry_open_def find_free_buf_def Let_def upd_buf_def JOURNAL_STATE_BUF_NR_def i_def
        not_less list_update_beyond split: if_splits option.splits)+

lemma next_idx:
  fixes w :: u64
  defines "i \<equiv> (res_idx w + 1) AND 3"
  shows "i < 4" "i \<noteq> res_idx w" "unat i = (unat (res_idx w) + 1) mod 4"
proof -
  have u: "unat (res_idx w) < 4"
    using res_idx_less[of w] by (simp add: word_less_nat_alt)
  have m: "(3 :: u32) = mask 2"
    by (simp add: mask_eq_decr_exp)
  show n: "unat i = (unat (res_idx w) + 1) mod 4"
    using u by (simp add: i_def m unat_and_mask unat_word_ariths)
  show "i < 4"
    by (simp add: word_less_nat_alt n)
  show "i \<noteq> res_idx w"
    using u n by (auto simp: mod_if split: if_splits)
qed

lemma flush_begin_buf:
  assumes "flush_begin j = Some j'" "m < length (j_bufs j)" "m \<noteq> unat (res_idx (j_res j))"
  shows "j_bufs j' ! m = (if jb_state (j_bufs j ! m) = Accepting \<or> jb_state (j_bufs j ! m) = Closing
    then (j_bufs j ! m)\<lparr>jb_state := WriteSubmitted\<rparr> else j_bufs j ! m)"
  using assms
  by (auto simp: flush_begin_def Let_def set_needs_flush_write_def journal_entry_close_def upd_buf_def
      mark_state_def split: prod.splits if_splits)

lemma flush_begin_state:
  assumes "flush_begin j = Some j'" "m < length (j_bufs j)" "jb_state (j_bufs j ! m) = WriteDone"
  shows "jb_state (j_bufs j' ! m) = WriteDone" "jb_seq (j_bufs j' ! m) = jb_seq (j_bufs j ! m)"
  using assms
  by (cases "m = unat (res_idx (j_res j))"; auto simp: flush_begin_def Let_def set_needs_flush_write_def
      journal_entry_close_def upd_buf_def mark_state_def split: prod.splits if_splits)+

text \<open> C36. When the slow path cycles to a new entry, the entry it leaves is never written: its
  buffer keeps the committed data but no length, so the next flush submits it with an empty
  payload, sends nothing of it to the device, and counts it as written.\<close>
theorem cycled_entry_is_lost:
  assumes "length (j_bufs j) = 4" and "i = unat (res_idx (j_res j))"
    and "jb_state (j_bufs j ! i) = Accepting" and "jb_data_end (j_bufs j ! i) = 0"
    and "journal_cycle_locked j = Some (Inr True, j1)" and "flush_begin j1 = Some j2"
  shows "jb_data (j_bufs j2 ! i) = jb_data (j_bufs j ! i) \<and> jb_state (j_bufs j2 ! i) = WriteSubmitted \<and>
    buf_payload (j_bufs j2 ! i) = [] \<and>
    (\<forall>io cb k. at_block k (j_sp j2) \<and> k < 256 \<and> \<not> jb_must_flush (j_bufs j2 ! i) \<longrightarrow>
      (\<exists>j3. write_buf io cb i j2 = Some (Inr (), j3) \<and> j_dev j3 = j_dev j2 \<and> jb_state (j_bufs j3 ! i) = WriteDone))"
proof -
  obtain w where w: "snd (journal_entry_close j) = j\<lparr>j_res := w\<rparr>" "res_idx w = res_idx (j_res j)"
    using close_entry_fields(3)[of "j_res j"] by (cases "close_entry (j_res j)") (simp add: journal_entry_close_def)
  obtain sp where o: "journal_entry_open (j\<lparr>j_res := w, j_sp := sp\<rparr>) = Some j1"
    using assms(5) w(1) by (cases "journal_entry_close j")
      (auto simp: journal_cycle_locked_def upd_sp_def bind_eq_Some_conv split: if_splits)
  note s = entry_open_spec[OF o]
  note n = next_idx[of w]
  have i4: "i < 4"
    using res_idx_less[of "j_res j"] assms(2) by (simp add: word_less_nat_alt)
  have ne: "unat ((res_idx w + 1) AND 3) \<noteq> i"
    using n(2) by (simp add: assms(2) w(2)[symmetric] word_unat_eq_iff)
  have b1: "j_bufs j1 ! i = j_bufs j ! i" "length (j_bufs j1) = 4"
    using s(1) ne assms(1) by simp_all
  have "res_idx (j_res j1) = (res_idx w + 1) AND 3"
    using s(2) open_entry_fields(2)[OF n(1)] by simp
  then have "i \<noteq> unat (res_idx (j_res j1))"
    using ne by simp
  then have b2: "j_bufs j2 ! i = (j_bufs j ! i)\<lparr>jb_state := WriteSubmitted\<rparr>"
    using flush_begin_buf[OF assms(6), of i] b1 i4 assms(3) by simp
  have l2: "length (j_bufs j2) = 4"
    using assms(6) b1(2) by (auto simp: flush_begin_def Let_def set_needs_flush_write_def journal_entry_close_def upd_buf_def
      mark_state_def split: prod.splits if_splits)
  have pay: "buf_payload (j_bufs j2 ! i) = []"
    using assms(4) by (simp add: b2 buf_payload_def)
  have "\<exists>j3. write_buf io cb i j2 = Some (Inr (), j3) \<and> j_dev j3 = j_dev j2 \<and> jb_state (j_bufs j3 ! i) = WriteDone"
    if h: "at_block k (j_sp j2)" "k < 256" "\<not> jb_must_flush (j_bufs j2 ! i)" for io cb k
  proof -
    let ?j = "(upd_buf i (\<lambda>b. b\<lparr>jb_callbacks := [], jb_state := WriteDone\<rparr>) j2)\<lparr>j_fired := j_fired j2 @ jb_callbacks (j_bufs j2 ! i)\<rparr>"
    have sp: "j_sp ?j = j_sp j2"
      by (simp add: upd_buf_def)
    have "journal_write io cb [] (jb_must_flush (j_bufs j2 ! i)) (jb_no_flush (j_bufs j2 ! i)) ?j = Some (Inr (), ?j)"
      using rotate_if_full_room[of k ?j cb] h sp by (simp add: journal_write_def write_chunks.simps)
    moreover have "jb_state (j_bufs ?j ! i) = WriteDone" "j_dev ?j = j_dev j2"
      using l2 i4 by (simp_all add: upd_buf_def)
    ultimately show ?thesis
      by (simp add: write_buf_def Let_def pay) (simp add: b2)
  qed
  moreover have "jb_data (j_bufs j2 ! i) = jb_data (j_bufs j ! i)" "jb_state (j_bufs j2 ! i) = WriteSubmitted"
    by (simp_all add: b2)
  ultimately show ?thesis
    using pay by blast
qed

definition demo_cycle :: journal where
  "demo_cycle = demo_journal\<lparr>j_sp := sp_new [100, 356]\<rparr>"

theorem cycled_entry_is_lost_witness:
  "\<exists>j1 j2. journal_cycle_locked demo_cycle = Some (Inr True, j1) \<and> flush_begin j1 = Some j2 \<and>
     jb_state (j_bufs j2 ! 1) = WriteSubmitted \<and> buf_payload (j_bufs j2 ! 1) = []"
proof -
  have w: "close_entry 4194306 = (2, 8388606)" "(res_idx 8388606 + 1) AND 3 = 2" "res_idx (open_entry 8388606 2) = 2"
    "unat (res_idx 4194306) = 1" "buf_count (snd (close_entry (open_entry 8388606 2))) 2 = 0"
    by code_simp+
  have b: "j_bufs demo_cycle ! 1 = reset_for_accepting 1 jb_free" "j_bufs demo_cycle ! 2 = jb_free"
    "length (j_bufs demo_cycle) = 4" "j_res demo_cycle = 4194306" "jp_fifo demo_cycle = pf_new"
    "j_sp demo_cycle = sp_new [100, 356]"
    by (simp_all add: demo_cycle_def demo_journal_def journal_blank_def)
  have "\<exists>j1. journal_cycle_locked demo_cycle = Some (Inr True, j1)"
    by (simp add: journal_cycle_locked_def journal_entry_close_def b w next_bucket_def sp_new_def upd_sp_def
        journal_entry_open_def find_free_buf_def Let_def upd_buf_def JOURNAL_STATE_BUF_NR_def jb_free_def
        pf_push_back_def pf_is_full_def pf_new_def PIN_FIFO_SIZE_def)
  then obtain j1 where c: "journal_cycle_locked demo_cycle = Some (Inr True, j1)"
    by blast
  have r1: "j_res j1 = open_entry 8388606 2"
    using c by (auto simp: journal_cycle_locked_def journal_entry_close_def b w upd_sp_def bind_eq_Some_conv
        dest!: entry_open_spec(2) split: if_splits)
  have "\<exists>j2. flush_begin j1 = Some j2"
    using w(5) by (cases "close_entry (open_entry 8388606 2)")
      (simp add: flush_begin_def Let_def set_needs_flush_write_def journal_entry_close_def r1 w(3))
  then obtain j2 where "flush_begin j1 = Some j2"
    by blast
  then show ?thesis
    using cycled_entry_is_lost[of demo_cycle 1 j1 j2] c b w(4) by (auto simp: reset_for_accepting_def)
qed

text \<open>
  A failed device write loses the buffer for good: the buffer was marked as written before
  the write was tried, so the flush that reports the error leaves it marked, and the flush that
  follows neither submits it again nor refuses to count its entry as written.\<close>
theorem failed_write_is_forgotten:
  assumes "length (j_bufs j) = 4" and "i < 4" and "jb_state (j_bufs j ! i) = WriteSubmitted"
    and "at_block k (j_sp j)" and "k < 256" and "buf_payload (j_bufs j ! i) \<noteq> []"
    and "\<not> io (j_dev j) (Write (cur_addr (j_sp j) + of_nat k) (block_of (take 4096 (buf_payload (j_bufs j ! i)))))"
  shows "\<exists>j1. write_buf io cb i j = Some (Inl Io, j1) \<and> jb_seq (j_bufs j1 ! i) = jb_seq (j_bufs j ! i) \<and>
    (\<forall>j2. flush_begin j1 = Some j2 \<longrightarrow>
       jb_state (j_bufs j2 ! i) = WriteDone \<and> jb_seq (j_bufs j2 ! i) = jb_seq (j_bufs j ! i) \<and>
       write_buf io' cb i j2 = Some (Inr (), j2))"
proof -
  let ?b = "j_bufs j ! i" and ?p = "take 4096 (buf_payload (j_bufs j ! i))"
  let ?j = "(upd_buf i (\<lambda>b. b\<lparr>jb_callbacks := [], jb_state := WriteDone\<rparr>) j)\<lparr>j_fired := j_fired j @ jb_callbacks ?b\<rparr>"
  let ?e = "Write (cur_addr (j_sp j) + of_nat k) (block_of ?p)"
  have sp: "j_sp ?j = j_sp j" "j_dev ?j = j_dev j" "length (j_bufs ?j) = 4"
    and st: "jb_state (j_bufs ?j ! i) = WriteDone" "jb_seq (j_bufs ?j ! i) = jb_seq ?b"
    using assms(1,2) by (simp_all add: upd_buf_def)
  note room = rotate_if_full_room[of k ?j cb, unfolded sp, OF assms(4,5)]
  have a: "sp_current_bucket (j_sp j) < length (sp_buckets (j_sp j))" "unat (sp_current_offset (j_sp j)) = k * 4096"
    using assms(4) by (simp_all add: at_block_def)
  have div: "ucast (sp_current_offset (j_sp j) div JSET_BLOCK_SIZE) = (of_nat k :: u64)"
  proof -
    have "unat (sp_current_offset (j_sp j) div JSET_BLOCK_SIZE) = k"
      using a(2) by (simp add: JSET_BLOCK_SIZE_def unat_div)
    then show ?thesis
      by (simp add: word_unat_eq_iff unsigned_ucast_eq unsigned_of_nat)
  qed
  have "write_chunk io ?p ?j = Some (Inl Io, ?j\<lparr>j_dev := j_dev j @ [?e]\<rparr>)"
    using a(1) assms(7) by (simp add: write_chunk_def Let_def dev_do_def sp div block_of_def cur_addr_def)
  then have "write_chunks io cb (buf_payload ?b) ?j = Some (Inl Io, ?j\<lparr>j_dev := j_dev j @ [?e]\<rparr>)"
    using assms(6) room by (subst write_chunks.simps) (simp add: JSET_BLOCK_SIZE_def)
  then have w: "write_buf io cb i j = Some (Inl Io, ?j\<lparr>j_dev := j_dev j @ [?e]\<rparr>)"
    using assms(3) room by (simp add: write_buf_def Let_def journal_write_def)
  have "jb_state (j_bufs j2 ! i) = WriteDone \<and> jb_seq (j_bufs j2 ! i) = jb_seq ?b \<and> write_buf io' cb i j2 = Some (Inr (), j2)"
    if "flush_begin (?j\<lparr>j_dev := j_dev j @ [?e]\<rparr>) = Some j2" for j2
    using flush_begin_state[OF that, of i] sp(3) st assms(2) by (simp add: write_buf_def Let_def)
  then show ?thesis
    using w st(2) by (intro exI[of _ "?j\<lparr>j_dev := j_dev j @ [?e]\<rparr>"]) simp
qed

definition demo_submitted :: journal where
  "demo_submitted = demo_journal\<lparr>j_bufs :=
     [jb_free, (reset_for_accepting 1 jb_free)\<lparr>jb_data_end := 16, jb_state := WriteSubmitted\<rparr>, jb_free, jb_free]\<rparr>"

theorem failed_write_is_forgotten_witness:
  "\<exists>j1. write_buf (\<lambda>_ _. False) (\<lambda>_ _ _. None) 1 demo_submitted = Some (Inl Io, j1) \<and> jb_seq (j_bufs j1 ! 1) = 1"
proof -
  have "length (j_bufs demo_submitted) = 4" "jb_state (j_bufs demo_submitted ! 1) = WriteSubmitted"
    "jb_seq (j_bufs demo_submitted ! 1) = 1" "buf_payload (j_bufs demo_submitted ! 1) \<noteq> []"
    by (simp_all add: demo_submitted_def reset_for_accepting_def buf_payload_def BUF_SIZE_def)
  moreover have "at_block 0 (j_sp demo_submitted)"
    using demo_pending(2) by (simp add: demo_submitted_def)
  ultimately show ?thesis
    using failed_write_is_forgotten[of demo_submitted 1 0 "\<lambda>_ _. False" "\<lambda>_ _ _. None"] by auto
qed

end
