(* ===== verification/JournalWedge.thy ===== *)
theory JournalWedge
  imports JournalProps
begin

text \<open>
  A journal made by \<open>Journal::new\<close> gives its first entry the sequence number 1 and its own pin the
  ring slot 0, while the pin of sequence number \<open>q\<close> is looked up in slot \<open>q mod 128\<close>. This
  theory follows the consequence: no flush ever releases slot 0.
\<close>

subsection \<open>The pin ring of a new journal\<close>

definition pins_free :: "pin_fifo \<Rightarrow> bool" where
  "pins_free f \<longleftrightarrow> (\<forall>e \<in> set (pf_entries f). case e of None \<Rightarrow> True | Some l \<Rightarrow> \<forall>t. pl_unflushed l t = [])"

text \<open>\<open>wedged j\<close>: slot 0 heads the ring with a count of one, nothing was ever reclaimed, and the
  ring holds one list per sequence number handed out.\<close>

definition wedged_core :: "pin_fifo \<Rightarrow> u64 \<Rightarrow> u64 \<Rightarrow> u64 list \<Rightarrow> bool" where
  "wedged_core f ondisk q bufseqs \<longleftrightarrow>
     length (pf_entries f) = PIN_FIFO_SIZE \<and> pf_head f = 0 \<and> pf_tail f < PIN_FIFO_SIZE \<and> 0 < pf_tail f \<and>
     (\<exists>l. pf_entries f ! 0 = Some l \<and> pl_count l = 1) \<and> pins_free f \<and> ondisk = 0 \<and>
     unat q = Suc (pf_tail f) \<and> (\<forall>s \<in> set bufseqs. s < q)"

definition wedged :: "journal \<Rightarrow> bool" where
  "wedged j \<longleftrightarrow> wedged_core (jp_fifo j) (jp_last_seq_ondisk j) (j_seq j) (map jb_seq (j_bufs j))"

definition same_core :: "journal \<Rightarrow> journal \<Rightarrow> bool" where
  "same_core j j' \<longleftrightarrow> jp_fifo j' = jp_fifo j \<and> jp_last_seq_ondisk j' = jp_last_seq_ondisk j \<and>
     j_seq j' = j_seq j \<and> map jb_seq (j_bufs j') = map jb_seq (j_bufs j)"

lemma same_core_refl [simp]: "same_core j j"
  by (simp add: same_core_def)

lemma same_core_trans: "same_core a b \<Longrightarrow> same_core b c \<Longrightarrow> same_core a c"
  by (simp add: same_core_def)

lemma wedged_same: "same_core j j' \<Longrightarrow> wedged j \<Longrightarrow> wedged j'"
  by (simp add: same_core_def wedged_def)

lemma same_core_upds [simp]:
  "same_core j (upd_sp f j)" "same_core j (j\<lparr>j_res := r\<rparr>)" "same_core j (j\<lparr>j_nr_direct_reclaim := n\<rparr>)"
  "same_core j (set_needs_flush_write v j)" "same_core j (set_watermark j)" "same_core j (j\<lparr>j_sp := sp\<rparr>)"
  "same_core j (trim_bucket i j)" "same_core j (snd (dev_do io e j))" "same_core j (j\<lparr>j_fired := fs\<rparr>)"
  "same_core j (j\<lparr>j_flushed_seq_marker := q\<rparr>)"
  by (simp_all add: same_core_def upd_sp_def set_needs_flush_write_def set_watermark_def trim_bucket_def dev_do_def)

lemma same_core_upd_buf: "(\<And>b. jb_seq (f b) = jb_seq b) \<Longrightarrow> same_core j (upd_buf i f j)"
  by (cases "i < length (j_bufs j)")
    (auto simp: same_core_def upd_buf_def map_update list_update_same_conv list_update_beyond not_less intro!: list_update_id)

lemma no_flush_pins:
  assumes "pins_free (jp_fifo j)" "length (pf_entries (jp_fifo j)) = PIN_FIFO_SIZE"
  shows "journal_flush_pins cb q j = Some (Inr 0, j)"
proof -
  have f: "first_flushable c l ts = None" if "\<forall>t. pl_unflushed l t = []" for c l ts
    using that by (induction ts) simp_all
  have e: "\<forall>t. pl_unflushed l t = []" if "pf_entry_for_seq s (jp_fifo j) = Some l" for s l
  proof -
    have "pf_entries (jp_fifo j) ! slot_of_seq s = Some l"
      using that by (simp add: pf_entry_for_seq_def split: if_splits)
    moreover have "slot_of_seq s < length (pf_entries (jp_fifo j))"
      using assms(2) by (simp add: slot_of_seq_def PIN_FIFO_SIZE_def)
    ultimately have "Some l \<in> set (pf_entries (jp_fifo j))"
      by (metis nth_mem)
    then show ?thesis
      using assms(1) by (force simp: pins_free_def)
  qed
  have "scan_seqs j qs = None" for qs
    by (induction qs) (auto simp: f e split: option.splits)
  then show ?thesis
    unfolding journal_flush_pins_def by (subst flush_pins_loop.simps) (simp add: get_next_pin_def del: upt_Suc)
qed

lemma wedgedD:
  assumes "wedged j"
  shows "length (pf_entries (jp_fifo j)) = PIN_FIFO_SIZE" "pf_head (jp_fifo j) = 0" "pf_tail (jp_fifo j) < PIN_FIFO_SIZE"
    "0 < pf_tail (jp_fifo j)" "\<exists>l. pf_entries (jp_fifo j) ! 0 = Some l \<and> pl_count l = 1" "pins_free (jp_fifo j)"
    "jp_last_seq_ondisk j = 0" "unat (j_seq j) = Suc (pf_tail (jp_fifo j))" "b \<in> set (j_bufs j) \<Longrightarrow> jb_seq b < j_seq j"
  using assms by (auto simp: wedged_def wedged_core_def)

lemma wedged_flush_pins: "wedged j \<Longrightarrow> journal_flush_pins cb q j = Some (Inr 0, j)"
  by (rule no_flush_pins[OF wedgedD(6,1)])

lemma wedged_update_last_seq:
  assumes "wedged j"
  shows "maybe_update_last_seq j = j"
proof -
  note w = wedgedD[OF assms]
  have "pf_drainable (jp_fifo j) = []"
    using w(2-5) by (auto simp: pf_drainable_def drain_scan.simps)
  then show ?thesis
    by (simp add: maybe_update_last_seq_def)
qed

lemma advance_dirty_core: "advance_dirty j = Some j' \<Longrightarrow> same_core j j'"
  by (auto simp: advance_dirty_def bind_eq_Some_conv)

lemma trim_phase_core: "trim_phase j = Some j' \<Longrightarrow> same_core j j'"
proof -
  have "same_core j (fold trim_bucket is j)" for "is"
    by (induction "is" arbitrary: j) (auto intro: same_core_trans same_core_upds)
  then show "trim_phase j = Some j' \<Longrightarrow> same_core j j'"
    by (auto simp: trim_phase_def Let_def bind_eq_Some_conv split: if_splits intro: same_core_trans same_core_upds)
qed

lemma reclaim_core:
  assumes "wedged j" "journal_reclaim cb j = Some (r, j')"
  shows "same_core j j'"
proof (cases "journal_error_check j")
  case None
  obtain j1 where a: "advance_dirty j = Some j1" "trim_phase j1 = Some j'"
    using assms(2) None
    by (auto simp: journal_reclaim_def Let_def bind_eq_Some_conv wedged_flush_pins[OF assms(1)]
        wedged_update_last_seq[OF assms(1)])
  then show ?thesis
    using advance_dirty_core trim_phase_core same_core_trans by blast
qed (use assms(2) in \<open>simp add: journal_reclaim_def\<close>)

lemma rotate_core:
  assumes "wedged j" "rotate_or_reclaim cb j = Some (r, j')"
  shows "same_core j j'"
proof -
  consider "j' = j" | "j' = upd_sp (\<lambda>sp. enter_bucket (next_bucket sp) sp) j"
    | j1 r1 where "journal_reclaim cb j = Some (r1, j1)" "j' = j1 \<or> j' = upd_sp (\<lambda>sp. enter_bucket (next_bucket sp) sp) j1"
    using assms(2) by (auto simp: rotate_or_reclaim_def bind_eq_Some_conv split: if_splits sum.splits)
  then show ?thesis
  proof cases
    case 3
    then show ?thesis
      using reclaim_core[OF assms(1) 3(1)] same_core_trans same_core_upds(1) by blast
  qed simp_all
qed

lemma rotate_if_full_core: "wedged j \<Longrightarrow> rotate_if_full cb j = Some (r, j') \<Longrightarrow> same_core j j'"
  by (auto simp: rotate_if_full_def rotate_core split: if_splits)

lemma write_chunk_core: "write_chunk io c j = Some (r, j') \<Longrightarrow> same_core j j'"
  by (auto simp: write_chunk_def Let_def dev_do_def same_core_def upd_sp_def split: if_splits)

lemma write_chunks_core:
  "wedged j \<Longrightarrow> write_chunks io cb bytes j = Some (r, j') \<Longrightarrow> same_core j j'"
proof (induction io cb bytes j arbitrary: r j' rule: write_chunks.induct)
  case (1 io cb bytes j)
  show ?case
  proof (cases "bytes = []")
    case True
    then show ?thesis
      using "1.prems"(2) by (simp add: write_chunks.simps)
  next
    case False
    obtain r1 j1 where a: "rotate_if_full cb j = Some (r1, j1)"
      using False "1.prems"(2) by (subst (asm) write_chunks.simps) (auto split: option.splits)
    have c1: "same_core j j1"
      using rotate_if_full_core[OF "1.prems"(1) a] .
    show ?thesis
    proof (cases r1)
      case (Inl e)
      then show ?thesis
        using False "1.prems"(2) a c1 by (subst (asm) write_chunks.simps) simp
    next
      case (Inr u)
      obtain r2 j2 where b: "write_chunk io (take (unat JSET_BLOCK_SIZE) bytes) j1 = Some (r2, j2)"
        using False "1.prems"(2) a Inr by (subst (asm) write_chunks.simps) (auto split: option.splits)
      have c2: "same_core j j2"
        using same_core_trans[OF c1 write_chunk_core[OF b]] .
      show ?thesis
      proof (cases r2)
        case (Inl e)
        then show ?thesis
          using False "1.prems"(2) a b c2 \<open>r1 = Inr u\<close> by (subst (asm) write_chunks.simps) simp
      next
        case (Inr v)
        then have n: "write_chunks io cb (drop (unat JSET_BLOCK_SIZE) bytes) j2 = Some (r, j')"
          using False "1.prems"(2) a b \<open>r1 = Inr u\<close> by (subst (asm) write_chunks.simps) simp
        have "same_core j2 j'"
          using "1.IH"[OF False a refl \<open>r1 = Inr u\<close> b refl Inr] n wedged_same[OF c2 "1.prems"(1)] by simp
        then show ?thesis
          using same_core_trans[OF c2] by blast
      qed
    qed
  qed
qed

lemma journal_write_core:
  assumes "wedged j" "journal_write io cb bytes mf nf j = Some (r, j')"
  shows "same_core j j'"
proof -
  obtain r1 j1 where a: "rotate_if_full cb j = Some (r1, j1)"
    using assms(2) by (auto simp: journal_write_def split: option.splits)
  note c1 = rotate_if_full_core[OF assms(1) a]
  show ?thesis
  proof (cases r1)
    case (Inl e)
    then show ?thesis
      using assms(2) a c1 by (simp add: journal_write_def)
  next
    case (Inr u)
    then obtain r2 j2 where b: "write_chunks io cb bytes j1 = Some (r2, j2)"
      using assms(2) a by (auto simp: journal_write_def split: option.splits)
    have c2: "same_core j j2"
      using same_core_trans[OF c1 write_chunks_core[OF wedged_same[OF c1 assms(1)] b]] .
    have "j' = j2 \<or> j' = snd (dev_do io Flush j2)"
      using assms(2) a b Inr by (auto simp: journal_write_def dev_do_def split: sum.splits if_splits)
    then show ?thesis
      using c2 same_core_trans same_core_upds(8) by blast
  qed
qed

lemma write_buf_core:
  assumes "wedged j" "write_buf io cb i j = Some (r, j')"
  shows "same_core j j'"
proof (cases "jb_state (j_bufs j ! i) = WriteSubmitted")
  case True
  let ?j = "(upd_buf i (\<lambda>b. b\<lparr>jb_callbacks := [], jb_state := WriteDone\<rparr>) j)\<lparr>j_fired := j_fired j @ jb_callbacks (j_bufs j ! i)\<rparr>"
  have c: "same_core j ?j"
    by (rule same_core_trans[OF same_core_upd_buf same_core_upds(9)]) simp
  have "\<exists>bytes mf nf. journal_write io cb bytes mf nf ?j = Some (r, j')"
    using assms(2) True by (auto simp: write_buf_def Let_def)
  then show ?thesis
    using journal_write_core[OF wedged_same[OF c assms(1)]] same_core_trans[OF c] by blast
qed (use assms(2) in \<open>simp add: write_buf_def Let_def\<close>)

lemma write_bufs_core: "wedged j \<Longrightarrow> write_bufs io cb is j = Some (r, j') \<Longrightarrow> same_core j j'"
proof (induction "is" arbitrary: j)
  case (Cons i "is")
  then obtain r1 j1 where a: "write_buf io cb i j = Some (r1, j1)"
    by (auto split: option.splits)
  note c = write_buf_core[OF Cons.prems(1) a]
  show ?case
    using Cons.IH[OF wedged_same[OF c Cons.prems(1)]] same_core_trans[OF c] Cons.prems(2) a c by (auto split: sum.splits)
qed simp

lemma flush_begin_core:
  assumes "flush_begin j = Some j'"
  shows "same_core j j'"
proof -
  let ?i = "unat (res_idx (j_res j))"
  have "map jb_seq ((j_bufs j)[?i := (j_bufs j ! ?i)\<lparr>jb_data_end := n\<rparr>]) = map jb_seq (j_bufs j)" for n
    by (cases "?i < length (j_bufs j)") (simp_all add: map_update list_update_same_conv list_update_beyond not_less)
  moreover have "map jb_seq (j_bufs (mark_state a b k)) = map jb_seq (j_bufs k)" for a b k
    by (simp add: mark_state_def o_def if_distrib)
  ultimately show ?thesis
    using assms
    by (auto simp: flush_begin_def Let_def same_core_def set_needs_flush_write_def journal_entry_close_def upd_buf_def
        split: prod.splits if_splits) (simp_all add: mark_state_def)
qed

subsection \<open>Opening an entry and releasing the pins\<close>

lemma entry_open_wedged:
  assumes "wedged j" "journal_entry_open j = Some j'"
  shows "wedged j'" "pf_tail (jp_fifo j') = Suc (pf_tail (jp_fifo j))"
proof -
  note w = wedgedD[OF assms(1)] and o = entry_open_spec[OF assms(2)]
  let ?f = "jp_fifo j" and ?f' = "jp_fifo j'"
  have t: "pf_tail ?f + 1 < PIN_FIFO_SIZE"
    using o(6) w(2,3) by (auto simp: pf_push_back_def pf_is_full_def PIN_FIFO_SIZE_def mod_if split: if_splits)
  then have f': "?f' = ?f\<lparr>pf_entries := (pf_entries ?f)[pf_tail ?f := Some (pin_list_new 1)], pf_tail := pf_tail ?f + 1\<rparr>"
    using o(6) by (auto simp: pf_push_back_def split: if_splits)
  then show "pf_tail ?f' = Suc (pf_tail ?f)"
    by simp
  have q: "unat (j_seq j') = Suc (pf_tail ?f')" "j_seq j < j_seq j'"
    using w(8) t f' o(3) by (simp_all add: PIN_FIFO_SIZE_def unat_word_ariths word_less_nat_alt)
  have "pins_free ?f'"
    using w(6) f' unfolding pins_free_def by (auto simp: pin_list_new_def dest!: set_update_subset_insert[THEN subsetD])
  moreover have "\<forall>b \<in> set (j_bufs j'). jb_seq b < j_seq j'"
  proof
    fix b
    assume "b \<in> set (j_bufs j')"
    then have "b \<in> set (j_bufs j) \<or> jb_seq b = j_seq j"
      unfolding o(1) by (auto simp: reset_for_accepting_def dest!: set_update_subset_insert[THEN subsetD])
    then show "jb_seq b < j_seq j'"
      using w(9) q(2) by fastforce
  qed
  ultimately show "wedged j'"
    using w(1-5,7) t f' q(1) o(7) unfolding wedged_def wedged_core_def by simp
qed

lemma flush_put_wedged:
  assumes "wedged j" "0 < q" "q < j_seq j"
  shows "wedged (flush_put q j)" "j_seq (flush_put q j) = j_seq j" "pf_tail (jp_fifo (flush_put q j)) = pf_tail (jp_fifo j)"
proof -
  note w = wedgedD[OF assms(1)]
  have "unat q < 128" "0 < unat q"
    using assms(2,3) w(3,8) by (simp_all add: word_less_nat_alt PIN_FIFO_SIZE_def)
  then have s: "slot_of_seq q \<noteq> 0"
    by (simp add: slot_of_seq_def PIN_FIFO_SIZE_def)
  let ?g = "\<lambda>l. l\<lparr>pl_count := pl_count l - 1\<rparr>"
  have "flush_put q j = upd_sp (update_bucket_seq q) j \<or>
    flush_put q j = upd_slot (slot_of_seq q) ?g (upd_sp (update_bucket_seq q) j)"
    by (auto simp: flush_put_def pin_put_def split: option.splits)
  moreover have "pins_free (jp_fifo (upd_slot (slot_of_seq q) ?g j))"
  proof (cases "slot_of_seq q < length (pf_entries (jp_fifo j))")
    case True
    then have e: "pf_entries (jp_fifo j) ! slot_of_seq q \<in> set (pf_entries (jp_fifo j))"
      by simp
    show ?thesis
      using w(6) e unfolding pins_free_def
      by (fastforce simp: upd_slot_def map_option_case dest!: set_update_subset_insert[THEN subsetD] split: option.splits)
  qed (use w(6) in \<open>simp add: upd_slot_def list_update_beyond\<close>)
  ultimately show "wedged (flush_put q j)" "j_seq (flush_put q j) = j_seq j"
    "pf_tail (jp_fifo (flush_put q j)) = pf_tail (jp_fifo j)"
    using s w assms(1) by (auto simp: wedged_def wedged_core_def upd_sp_def upd_slot_def)
qed

lemma flush_puts_wedged:
  "wedged j \<Longrightarrow> \<forall>q \<in> set qs. 0 < q \<and> q < j_seq j \<Longrightarrow>
   wedged (fold flush_put qs j) \<and> pf_tail (jp_fifo (fold flush_put qs j)) = pf_tail (jp_fifo j)"
  by (induction qs arbitrary: j) (simp_all add: flush_put_wedged)

lemma flush_end_wedged:
  assumes "wedged j" "flush_end cb j = Some (r, j')"
  shows "wedged j'" "pf_tail (jp_fifo j') = Suc (pf_tail (jp_fifo j))"
proof -
  define j1 where "j1 = set_needs_flush_write False j"
  define qs where "qs = map jb_seq (filter (\<lambda>b. jb_state b = WriteDone \<and> jb_seq b > 0) (j_bufs j1))"
  define j2 where "j2 = fold flush_put qs j1"
  have j1: "wedged j1" "pf_tail (jp_fifo j1) = pf_tail (jp_fifo j)"
    using wedged_same[OF same_core_upds(4) assms(1)] by (simp_all add: j1_def set_needs_flush_write_def)
  have j2: "wedged j2" "pf_tail (jp_fifo j2) = pf_tail (jp_fifo j)"
    using flush_puts_wedged[OF j1(1), of qs] wedgedD(9)[OF j1(1)] j1(2) by (auto simp: j2_def qs_def)
  let ?j4 = "j2\<lparr>j_flushed_seq_marker := j_seq j2\<rparr>"
  have w4: "wedged ?j4"
    using wedged_same[OF same_core_upds(10) j2(1)] .
  obtain j5 where o: "journal_entry_open ?j4 = Some j5" "j' = set_watermark j5"
    using assms(2)
    by (auto simp: wedged_flush_pins[OF j2(1)] wedged_update_last_seq[OF w4] flush_end_def Let_def bind_eq_Some_conv j1_def[symmetric] qs_def[symmetric] j2_def[symmetric])
  note e = entry_open_wedged[OF w4 o(1)]
  show "wedged j'" "pf_tail (jp_fifo j') = Suc (pf_tail (jp_fifo j))"
    using wedged_same[OF same_core_upds(5) e(1)] e(2) j2(2) by (simp_all add: o(2) set_watermark_def)
qed

lemma flush_wedged:
  assumes "wedged j" "journal_flush io cb j = Some (r, j')"
  shows "wedged j'" "pf_tail (jp_fifo j') = pf_tail (jp_fifo j) + (if r = Inr () then 1 else 0)"
proof -
  obtain j1 r2 j2 where a: "flush_begin j = Some j1" "write_bufs_to_bucket io cb j1 = Some (r2, j2)"
    using assms(2) by (auto simp: journal_flush_def split: option.splits)
  have c1: "same_core j j1"
    by (rule flush_begin_core[OF a(1)])
  have c2: "same_core j j2"
    using same_core_trans[OF c1] write_bufs_core[OF wedged_same[OF c1 assms(1)]] a(2)
    by (simp add: write_bufs_to_bucket_def)
  let ?j3 = "snd (dev_do io Flush j2)"
  have c3: "same_core j ?j3"
    by (rule same_core_trans[OF c2 same_core_upds(8)])
  have e: "r = Inr ()" if "flush_end cb k = Some (r, j')" for k
    using that by (auto simp: flush_end_def Let_def bind_eq_Some_conv)
  have "j' = j2 \<and> r \<noteq> Inr () \<or> j' = ?j3 \<and> r \<noteq> Inr () \<or> flush_end cb ?j3 = Some (r, j')"
  proof (cases r2)
    case (Inr u)
    then show ?thesis
      using assms(2) by (cases "io (j_dev j2) Flush") (auto simp: journal_flush_def dev_do_def a)
  qed (use assms(2) in \<open>auto simp: journal_flush_def a\<close>)
  then consider "j' = j2" "r \<noteq> Inr ()" | "j' = ?j3" "r \<noteq> Inr ()" | "flush_end cb ?j3 = Some (r, j')"
    by argo
  then have "wedged j' \<and> pf_tail (jp_fifo j') = pf_tail (jp_fifo j) + (if r = Inr () then 1 else 0)"
  proof cases
    case 3
    then show ?thesis
      using flush_end_wedged[OF wedged_same[OF c3 assms(1)] 3] e[OF 3] c3 by (simp add: same_core_def)
  qed (use c2 c3 wedged_same[OF _ assms(1)] in \<open>simp_all add: same_core_def\<close>)
  then show "wedged j'" "pf_tail (jp_fifo j') = pf_tail (jp_fifo j) + (if r = Inr () then 1 else 0)"
    by blast+
qed

subsection \<open>Reservations\<close>

definition wedged_from :: "journal \<Rightarrow> journal \<Rightarrow> bool" where
  "wedged_from j j' \<longleftrightarrow> wedged j' \<and> pf_tail (jp_fifo j) \<le> pf_tail (jp_fifo j')"

lemma wedged_from_same: "wedged j \<Longrightarrow> same_core j j' \<Longrightarrow> wedged_from j j'"
  using wedged_same by (auto simp: wedged_from_def same_core_def)

lemma wedged_from_trans: "wedged_from a b \<Longrightarrow> wedged_from b c \<Longrightarrow> wedged_from a c"
  by (simp add: wedged_from_def)

lemma res_get_fast_core: "same_core j (snd (journal_res_get_fast wm req j))"
  by (auto simp: journal_res_get_fast_def Let_def split: option.splits)

lemma cycle_locked_wedged:
  assumes "wedged j" "journal_cycle_locked j = Some (r, j')"
  shows "wedged_from j j'"
proof -
  have c: "same_core j (snd (journal_entry_close j))"
    by (simp add: journal_entry_close_def split: prod.splits)
  let ?k = "upd_sp (\<lambda>sp. enter_bucket (next_bucket sp) sp) (snd (journal_entry_close j))"
  have k: "same_core j ?k"
    by (rule same_core_trans[OF c same_core_upds(1)])
  have "j' = snd (journal_entry_close j) \<or> journal_entry_open ?k = Some j'"
    using assms(2) by (auto simp: journal_cycle_locked_def bind_eq_Some_conv split: prod.splits if_splits)
  then show ?thesis
  proof
    assume o: "journal_entry_open ?k = Some j'"
    show ?thesis
      using entry_open_wedged[OF wedged_same[OF k assms(1)] o] k by (simp add: wedged_from_def same_core_def)
  qed (use wedged_from_same[OF assms(1) c] in simp)
qed

lemma cycle_then_get_wedged:
  assumes "wedged j" "cycle_then_get wm req j = Some (r, j')"
  shows "wedged_from j j'"
proof -
  obtain c j1 where a: "journal_cycle_locked j = Some (c, j1)"
    using assms(2) by (auto simp: cycle_then_get_def bind_eq_Some_conv)
  have j': "j' = j1 \<or> j' = snd (journal_res_get_fast wm req j1)"
    using assms(2) by (cases "journal_res_get_fast wm req j1") (auto simp: cycle_then_get_def a split: sum.splits if_splits)
  have w1: "wedged_from j j1"
    by (rule cycle_locked_wedged[OF assms(1) a])
  then have "wedged_from j1 (snd (journal_res_get_fast wm req j1))"
    by (intro wedged_from_same res_get_fast_core) (simp add: wedged_from_def)
  then show ?thesis
    using j' w1 wedged_from_trans by blast
qed

lemma res_get_wedged:
  assumes "wedged j" "journal_res_get cb wm req j = Some (r, j')"
  shows "wedged_from j j'"
proof -
  have fast: "wedged_from j (snd (journal_res_get_fast wm req k))" if "wedged_from j k" for k
    using wedged_from_trans[OF that wedged_from_same[OF _ res_get_fast_core]] that by (simp add: wedged_from_def)
  have cyc: "wedged_from j k'" if "wedged_from j k" "cycle_then_get wm req k = Some (x, k')" for k k' x
    using wedged_from_trans[OF that(1) cycle_then_get_wedged[OF _ that(2)]] that(1) by (simp add: wedged_from_def)
  have adv: "wedged_from j k'" if "wedged_from j k" "advance_dirty k = Some k'" for k k'
    using wedged_from_trans[OF that(1) wedged_from_same[OF _ advance_dirty_core[OF that(2)]]] that(1)
    by (simp add: wedged_from_def)
  have slow: "wedged_from j j'" if j1: "wedged_from j j1" and s: "journal_res_get_slowpath cb wm req j1 = Some (r, j')" for j1
  proof -
    obtain r1 k1 where c: "cycle_then_get wm req j1 = Some (r1, k1)"
      using s by (auto simp: journal_res_get_slowpath_def bind_eq_Some_conv)
    note w1 = cyc[OF j1 c]
    obtain r2 k2 where f: "journal_res_get_fast wm req k1 = (r2, k2)"
      by (cases "journal_res_get_fast wm req k1")
    have w2: "wedged_from j k2"
      using fast[OF w1] f by simp
    have wk2: "wedged k2"
      using w2 by (simp add: wedged_from_def)
    show ?thesis
    proof (cases "r1 = Inr None \<and> (\<exists>e. r2 = Inl e)")
      case True
      then obtain k3 r3 k4 where g: "advance_dirty k2 = Some k3" "cycle_then_get wm req k3 = Some (r3, k4)"
        using s by (auto simp: journal_res_get_slowpath_def c f wedged_flush_pins[OF wk2] wedged_update_last_seq[OF wk2]
            bind_eq_Some_conv)
      have "j' = k4"
        using s True by (auto simp: journal_res_get_slowpath_def c f wedged_flush_pins[OF wk2]
            wedged_update_last_seq[OF wk2] g split: sum.splits option.splits)
      then show ?thesis
        using cyc[OF adv[OF w2 g(1)] g(2)] by simp
    next
      case False
      then have "j' = k1 \<or> j' = k2"
        using s by (cases r1; cases r2) (auto simp: journal_res_get_slowpath_def c f split: option.splits)
      then show ?thesis
        using w1 w2 by blast
    qed
  qed
  obtain r1 j1 where f: "journal_res_get_fast wm req j = (r1, j1)"
    by (cases "journal_res_get_fast wm req j")
  have "wedged_from j j1"
    using fast[of j] assms(1) f by (simp add: wedged_from_def)
  then show ?thesis
    using assms(2) slow by (cases r1) (auto simp: journal_res_get_def f)
qed

subsection \<open>No run gets past 126 flushes\<close>

text \<open>Runs from \<open>Journal::new\<close> in which no client sets a pin, counting the flushes that succeed.\<close>

inductive flush_run :: "nat \<Rightarrow> journal \<Rightarrow> bool" where
  run_new: "journal_new addrs types cbs = Some j \<Longrightarrow> flush_run 0 j"
| run_get: "flush_run n j \<Longrightarrow> journal_res_get cb wm req j = Some (r, j') \<Longrightarrow> flush_run n j'"
| run_add: "flush_run n j \<Longrightarrow> add_entry res bytes j = Some j' \<Longrightarrow> flush_run n j'"
| run_put: "flush_run n j \<Longrightarrow> flush_run n (journal_res_put res j)"
| run_callback: "flush_run n j \<Longrightarrow> flush_run n (set_commit_callback i c j)"
| run_reclaim: "flush_run n j \<Longrightarrow> journal_reclaim cb j = Some (r, j') \<Longrightarrow> flush_run n j'"
| run_flush: "flush_run n j \<Longrightarrow> journal_flush io cb j = Some (Inr (), j') \<Longrightarrow> flush_run (Suc n) j'"
| run_flush_fails: "flush_run n j \<Longrightarrow> journal_flush io cb j = Some (Inl e, j') \<Longrightarrow> flush_run n j'"

lemma new_wedged:
  assumes "journal_new addrs types cbs = Some j"
  shows "wedged j" "pf_tail (jp_fifo j) = 1"
proof -
  note o = entry_open_spec[OF assms[unfolded journal_new_def]]
  have f: "jp_fifo j = pf_new\<lparr>pf_entries := (pf_entries pf_new)[0 := Some (pin_list_new 1)], pf_tail := 1\<rparr>"
    using o(6) by (auto simp: journal_blank_def pf_push_back_def pf_new_def PIN_FIFO_SIZE_def split: if_splits)
  have q: "j_seq j = 2"
    using o(3) by (simp add: journal_blank_def)
  have "\<forall>b \<in> set (j_bufs j). jb_seq b < 2"
    unfolding o(1) by (auto simp: journal_blank_def jb_free_def reset_for_accepting_def JOURNAL_STATE_BUF_NR_def
        dest!: set_update_subset_insert[THEN subsetD])
  moreover have "pins_free (jp_fifo j)"
    by (auto simp: pins_free_def f pf_new_def pin_list_new_def dest!: set_update_subset_insert[THEN subsetD])
  ultimately show "wedged j" "pf_tail (jp_fifo j) = 1"
    using o(7) by (simp_all add: wedged_def wedged_core_def f q pf_new_def PIN_FIFO_SIZE_def pin_list_new_def journal_blank_def)
qed

lemma add_entry_core: "add_entry res bytes j = Some j' \<Longrightarrow> same_core j j'"
  by (auto simp: add_entry_def Let_def split: if_splits intro!: same_core_upd_buf)

lemma res_put_core: "same_core j (journal_res_put res j)"
  by (auto simp: journal_res_put_def Let_def split: prod.splits
      intro!: same_core_trans[OF same_core_upds(2) same_core_upd_buf])

lemma flush_run_wedged: "flush_run n j \<Longrightarrow> wedged j \<and> n < pf_tail (jp_fifo j)"
proof (induction rule: flush_run.induct)
  case (run_new addrs types cbs j)
  then show ?case
    using new_wedged by simp
next
  case (run_get n j cb wm req r j')
  then show ?case
    using res_get_wedged[of j] by (fastforce simp: wedged_from_def)
next
  case (run_add n j res bytes j')
  then show ?case
    using wedged_same[OF add_entry_core] add_entry_core by (fastforce simp: same_core_def)
next
  case (run_put n j res)
  then show ?case
    using wedged_same[OF res_put_core] res_put_core[of j res] by (simp add: same_core_def)
next
  case (run_callback n j i c)
  have "same_core j (set_commit_callback i c j)"
    unfolding set_commit_callback_def by (rule same_core_upd_buf) simp
  then show ?case
    using run_callback wedged_same by (simp add: same_core_def)
next
  case (run_reclaim n j cb r j')
  then show ?case
    using reclaim_core[of j cb r j'] wedged_same by (simp add: same_core_def)
qed (use flush_wedged in force)+

text \<open> C37. A journal made by \<open>Journal::new\<close> completes at most 126 flushes, even if nothing is ever
  pinned: the pin ring slot of its first entry is never released, so \<open>last_seq_ondisk\<close> stays 0,
  and the flush after those panics on a full ring.\<close>
theorem new_journal_wedges:
  assumes "flush_run n j"
  shows "jp_last_seq_ondisk j = 0 \<and> n \<le> 126"
  using flush_run_wedged[OF assms] wedgedD(3,7)[of j] by (auto simp: PIN_FIFO_SIZE_def)

theorem new_journal_wedges_witness:
  "\<exists>j. journal_new [100] (\<lambda>_. Other) (\<lambda>_. False) = Some j \<and> jp_last_seq_ondisk j = 0"
proof -
  have "res_idx res_state_new = 0"
    by code_simp
  then have "\<exists>j. journal_new [100] (\<lambda>_. Other) (\<lambda>_. False) = Some j"
    by (simp add: journal_new_def journal_entry_open_def journal_blank_def find_free_buf_def Let_def upd_buf_def
        JOURNAL_STATE_BUF_NR_def jb_free_def pf_push_back_def pf_is_full_def pf_new_def PIN_FIFO_SIZE_def)
  then show ?thesis
    using new_journal_wedges[OF run_new] by blast
qed

subsection \<open>The pins of a journal just made\<close>

text \<open>\<open>journal_pins.truncate\<close> forgets everything of a journal but its pin state.\<close>

lemma entry_open_pins:
  assumes "journal_entry_open j = Some j'"
  shows "\<exists>f. pf_push_back (pin_list_new 1) (jp_fifo j) = Some f \<and>
    journal_pins.truncate j' = (journal_pins.truncate j)\<lparr>jp_fifo := f\<rparr>"
  using assms
  by (auto simp: journal_entry_open_def find_free_buf_def upd_buf_def Let_def journal_pins.truncate_def
      split: if_splits option.splits)

lemma blank_opened_pins:
  assumes "journal_entry_open (journal_blank q d sp w types cbs) = Some j"
  shows "pf_head (jp_fifo j) = 0 \<and> pf_tail (jp_fifo j) = 1 \<and> jp_last_seq_ondisk j = d \<and>
    (d = 0 \<or> unat d mod PIN_FIFO_SIZE = 0 \<longrightarrow> pin_reachable (journal_pins.truncate j))"
proof -
  let ?b = "journal_pins.truncate (journal_blank q d sp w types cbs)"
  obtain f where f: "pf_push_back (pin_list_new 1) (jp_fifo ?b) = Some f" "journal_pins.truncate j = ?b\<lparr>jp_fifo := f\<rparr>"
    using entry_open_pins[OF assms] by (auto simp: journal_pins.truncate_def)
  have ht: "pf_head f = 0" "pf_tail f = 1"
    using f(1) by (auto simp: journal_pins.truncate_def journal_blank_def pf_push_back_def pf_new_def PIN_FIFO_SIZE_def split: if_splits)
  have "jp_fifo (journal_pins.truncate j) = f" "jp_last_seq_ondisk (journal_pins.truncate j) = d"
    unfolding f(2) by (simp_all add: journal_pins.truncate_def journal_blank_def)
  then have e: "jp_fifo j = f" "jp_last_seq_ondisk j = d" by (simp_all add: journal_pins.truncate_def)
  have "pin_reachable (journal_pins.truncate j)" if "unat d mod PIN_FIFO_SIZE = 0"
    unfolding f(2)
  proof (rule pin_reachable.step[OF pin_reachable.start pin_step.opens[OF f(1)]])
    show "pin_start ?b" using that by (simp add: pin_start_def journal_pins.truncate_def journal_blank_def jp_first_def)
    have "unat d < 2 ^ 64 - 1"
    proof (rule ccontr)
      assume "\<not> unat d < 2 ^ 64 - 1"
      then have "unat d = 2 ^ 64 - 1" using unat64_less[of d] by simp
      with that show False by (simp add: PIN_FIFO_SIZE_def)
    qed
    then show "jp_first ?b + Suc (length (jp_list ?b)) < 2 ^ 64"
      by (simp add: jp_first_def journal_pins.truncate_def journal_blank_def jp_list_def pf_list_def pf_new_def pf_len_def)
  qed
  then show ?thesis using ht e by auto
qed

text \<open>Both constructors start a run of the pin operations, the second only at a multiple of 128.\<close>

lemma new_journal_pins: "journal_new addrs types cbs = Some j \<Longrightarrow> pin_reachable (journal_pins.truncate j)"
  unfolding journal_new_def by (drule blank_opened_pins) simp

lemma recovered_journal_pins:
  "journal_from_superblock st types cbs = Some j \<Longrightarrow> unat (sb_last_seq_ondisk st) mod PIN_FIFO_SIZE = 0 \<Longrightarrow>
    pin_reachable (journal_pins.truncate j)"
  unfolding journal_from_superblock_def by (drule blank_opened_pins) simp

text \<open>
  The list of the first entry is in slot 0, but it is looked up by the entry's own sequence number:
  unless that is a multiple of 128, binding a pin to the open entry panics, and \<open>pin_put\<close> after the
  write finds nothing. For \<open>Journal::new\<close> the entry's number is 1, so it always does.
\<close>

lemma opened_entry_not_found:
  assumes "journal_entry_open (journal_blank q d sp w types cbs) = Some j" and "unat q mod PIN_FIFO_SIZE \<noteq> 0"
  shows "pin_set q p fl j = None \<and> pin_put q j = (False, j)"
proof -
  have "pf_head (jp_fifo j) = 0" "pf_tail (jp_fifo j) = 1" using blank_opened_pins[OF assms(1)] by simp_all
  then have "pf_entry_for_seq q (jp_fifo j) = None"
    using assms(2) by (simp add: pf_entry_for_seq_def pf_in_range_def slot_of_seq_def)
  then show ?thesis by (simp add: pin_set_def seq_slot_def pin_put_def)
qed

lemma new_journal_first_pin_panics: "journal_new addrs types cbs = Some j \<Longrightarrow> pin_set 1 p fl j = None"
  unfolding journal_new_def by (drule opened_entry_not_found[where p = p and fl = fl]) (simp_all add: PIN_FIFO_SIZE_def)

lemma recovered_journal_first_pin_panics:
  "journal_from_superblock st types cbs = Some j \<Longrightarrow> unat (sb_last_seq st) mod PIN_FIFO_SIZE \<noteq> 0 \<Longrightarrow>
    pin_set (sb_last_seq st) p fl j = None"
  unfolding journal_from_superblock_def by (drule opened_entry_not_found[where p = p and fl = fl]) simp_all

end
