(* ===== verification/JournalRead.thy ===== *)
theory JournalRead
  imports JournalProps
begin

text \<open>
  Entries through the journal (\<open>journal/types.rs\<close>, \<open>journal/replay.rs\<close>, the recovery passes
  \<open>journal_read.rs\<close> and \<open>journal_replay.rs\<close>): building an entry and putting it into the open
  buffer, reading the entries of a bucket back block by block, choosing which of them recovery
  replays, and replaying them.

  Reading a block is an argument \<open>rd\<close>; bincode's codec is the argument \<open>cd\<close>, the decoder of the
  old format \<open>legacy\<close>. The btree engine that replay inserts into is a state of any type with the
  argument \<open>ins\<close> for its raw insertion, whose result the code drops.
\<close>

subsection \<open>Appending\<close>

definition append_base :: "raw_entry \<Rightarrow> journal \<Rightarrow> jset" where
  "append_base e j = \<lparr>js_header = \<lparr>jh_magic = JOURNAL_MAGIC, jh_seq = 0, jh_last_seq = jp_last_seq_ondisk j,
     jh_crc32 = 0, jh_entry_count = 1, jh_version = JSET_VERSION, jh_csum_type = CSUM_TYPE_NONE,
     jh_pad = replicate 27 0\<rparr>, js_entries = [e]\<rparr>"

definition with_seq :: "u64 \<Rightarrow> jset \<Rightarrow> jset" where
  "with_seq q js = js\<lparr>js_header := (js_header js)\<lparr>jh_seq := q\<rparr>\<rparr>"

text \<open>The part that \<open>append\<close> and \<open>append_btree_root\<close> share, from the reservation on.\<close>

definition append_entry ::
  "(dev_event list \<Rightarrow> dev_event \<Rightarrow> bool) \<Rightarrow> pin_cb \<Rightarrow> watermark \<Rightarrow> raw_entry \<Rightarrow> bool \<Rightarrow> journal \<Rightarrow> u64 jresult" where
  "append_entry io cb wm e must_flush j =
     (let base = append_base e j in
      case journal_res_get_fast wm (of_nat ((serialized_padded_len base + 7) div 8)) j of
        (Inl err, j1) \<Rightarrow> Some (Inl err, j1)
      | (Inr res, j1) \<Rightarrow>
          let bytes = serialize_padded (with_seq (jr_seq res) base); res' = res\<lparr>jr_must_flush := must_flush\<rparr> in
          (case add_entry res' bytes j1 of
             None \<Rightarrow> None
           | Some j2 \<Rightarrow>
               let j3 = journal_res_put res' j2 in
               if must_flush then
                 (case journal_flush io cb j3 of
                    None \<Rightarrow> None
                  | Some (Inl err, j4) \<Rightarrow> Some (Inl err, j4)
                  | Some (Inr _, j4) \<Rightarrow> Some (Inr (jr_seq res), j4))
               else Some (Inr (jr_seq res), j3)))"

definition journal_append ::
  "payload_codec \<Rightarrow> (dev_event list \<Rightarrow> dev_event \<Rightarrow> bool) \<Rightarrow> pin_cb \<Rightarrow> btree_id \<Rightarrow> btree_entry list \<Rightarrow> bool \<Rightarrow> journal \<Rightarrow> u64 jresult" where
  "journal_append cd io cb bt es must_flush j =
     (case enc_keys cd es of
        None \<Rightarrow> Some (Inl Io, j)
      | Some payload \<Rightarrow>
          (case raw_entry_new (btree_id_index bt) (entry_type_u8 BtreeKeys) payload of
             None \<Rightarrow> Some (Inl Io, j)
           | Some e \<Rightarrow> append_entry io cb Btree e must_flush j))"

definition root_entry :: "u64 \<Rightarrow> btree_entry" where
  "root_entry root_addr = \<lparr>pos = Bpos 0 root_addr 0, ekey_type = key_type.Normal, evalue = Raw []\<rparr>"

definition append_btree_root ::
  "payload_codec \<Rightarrow> (dev_event list \<Rightarrow> dev_event \<Rightarrow> bool) \<Rightarrow> pin_cb \<Rightarrow> btree_id \<Rightarrow> u64 \<Rightarrow> bool \<Rightarrow> journal \<Rightarrow> u64 jresult" where
  "append_btree_root cd io cb bt root_addr must_flush j =
     (case enc_keys cd [root_entry root_addr] of
        None \<Rightarrow> Some (Inl Io, j)
      | Some payload \<Rightarrow>
          (case raw_entry_new (btree_id_index bt) (entry_type_u8 BtreeRoot) payload of
             None \<Rightarrow> Some (Inl Io, j)
           | Some e \<Rightarrow> append_entry io cb InteriorUpdate e must_flush j))"

text \<open>The blacklist entry is written to the buffer directly and always flushed.\<close>

definition blacklist_add ::
  "payload_codec \<Rightarrow> (dev_event list \<Rightarrow> dev_event \<Rightarrow> bool) \<Rightarrow> pin_cb \<Rightarrow> u64 \<Rightarrow> u64 \<Rightarrow> journal \<Rightarrow> u64 jresult" where
  "blacklist_add cd io cb start_seq end_seq j =
     (case enc_blacklist cd [\<lparr>bl_start_seq = start_seq, bl_end_seq = end_seq\<rparr>] of
        None \<Rightarrow> Some (Inl Io, j)
      | Some payload \<Rightarrow>
          (case raw_entry_new 0 (entry_type_u8 Blacklist) payload of
             None \<Rightarrow> Some (Inl Io, j)
           | Some e \<Rightarrow>
               let bytes = serialize_padded (append_base e j) in
               (case journal_res_get_fast InteriorUpdate (of_nat ((length bytes + 7) div 8)) j of
                  (Inl err, j1) \<Rightarrow> Some (Inl err, j1)
                | (Inr res, j1) \<Rightarrow>
                    (case add_entry res bytes j1 of
                       None \<Rightarrow> None
                     | Some j2 \<Rightarrow>
                         (case journal_flush io cb (journal_res_put res j2) of
                            None \<Rightarrow> None
                          | Some (Inl err, j4) \<Rightarrow> Some (Inl err, j4)
                          | Some (Inr _, j4) \<Rightarrow> Some (Inr (jr_seq res), j4))))))"

subsection \<open>Reading back\<close>

datatype read_result = ReadOk "u8 list" | BlockNotFound | ReadFailed

text \<open>The loop over a bucket's blocks: an entry that fails its checks is skipped, a block that
  holds none ends the scan.\<close>

fun read_blocks ::
  "payload_codec \<Rightarrow> (u8 list \<Rightarrow> legacy_jset option) \<Rightarrow> (u64 \<Rightarrow> read_result) \<Rightarrow> u64 list \<Rightarrow> journal_error + jset list" where
  "read_blocks cd legacy rd [] = Inr []"
| "read_blocks cd legacy rd (a # as) =
     (case rd a of
        ReadFailed \<Rightarrow> Inl Io
      | BlockNotFound \<Rightarrow> Inr []
      | ReadOk buf \<Rightarrow>
          (case deserialize legacy buf of
             Inl _ \<Rightarrow> Inr []
           | Inr None \<Rightarrow> Inr []
           | Inr (Some js) \<Rightarrow>
               if \<not> jset_verify js \<or> \<not> jset_validate cd js then read_blocks cd legacy rd as
               else map_sum id ((#) js) (read_blocks cd legacy rd as)))"

definition bucket_blocks :: "u64 \<Rightarrow> u64 list" where
  "bucket_blocks start = map (\<lambda>k. start + of_nat k) [0..<unat BUCKET_BLOCKS]"

definition journal_read ::
  "payload_codec \<Rightarrow> (u8 list \<Rightarrow> legacy_jset option) \<Rightarrow> (u64 \<Rightarrow> read_result) \<Rightarrow> u32 \<Rightarrow> journal \<Rightarrow> journal_error + jset list" where
  "journal_read cd legacy rd bucket_idx j =
     (let bs = sp_buckets (j_sp j) in
      if unat bucket_idx \<ge> length bs then Inr []
      else read_blocks cd legacy rd (bucket_blocks (jd_addr (bs ! unat bucket_idx))))"

definition journal_read_reverse ::
  "payload_codec \<Rightarrow> (u8 list \<Rightarrow> legacy_jset option) \<Rightarrow> (u64 \<Rightarrow> read_result) \<Rightarrow> u32 \<Rightarrow> journal \<Rightarrow> journal_error + jset list" where
  "journal_read_reverse cd legacy rd bucket_idx j =
     (let bs = sp_buckets (j_sp j) in
      if unat bucket_idx \<ge> length bs then Inr []
      else map_sum id rev (read_blocks cd legacy rd (rev (bucket_blocks (jd_addr (bs ! unat bucket_idx))))))"

fun entries_read_loop ::
  "payload_codec \<Rightarrow> (u8 list \<Rightarrow> legacy_jset option) \<Rightarrow> (u64 \<Rightarrow> read_result) \<Rightarrow> journal \<Rightarrow> nat list \<Rightarrow> journal_error + (u32 \<times> jset) list" where
  "entries_read_loop cd legacy rd j [] = Inr []"
| "entries_read_loop cd legacy rd j (i # is) =
     (case journal_read cd legacy rd (of_nat i) j of
        Inl e \<Rightarrow> Inl e
      | Inr js \<Rightarrow> map_sum id ((@) (map (Pair (of_nat i)) js)) (entries_read_loop cd legacy rd j is))"

definition journal_entries_read ::
  "payload_codec \<Rightarrow> (u8 list \<Rightarrow> legacy_jset option) \<Rightarrow> (u64 \<Rightarrow> read_result) \<Rightarrow> journal \<Rightarrow> journal_error + (u32 \<times> jset) list" where
  "journal_entries_read cd legacy rd j = entries_read_loop cd legacy rd j [0..<length (sp_buckets (j_sp j))]"

definition entry_blacklist :: "payload_codec \<Rightarrow> raw_entry \<Rightarrow> blacklist_entry list" where
  "entry_blacklist cd e =
     (if eh_entry_type (re_hdr e) = entry_type_u8 Blacklist
      then (case dec_blacklist cd (re_payload e) of None \<Rightarrow> [] | Some bs \<Rightarrow> bs) else [])"

definition extract_blacklist_entries :: "payload_codec \<Rightarrow> jset list \<Rightarrow> blacklist_entry list" where
  "extract_blacklist_entries cd jsets = concat (map (\<lambda>js. concat (map (entry_blacklist cd) (js_entries js))) jsets)"

subsection \<open>What recovery keeps\<close>

abbreviation js_seq :: "jset \<Rightarrow> u64" where
  "js_seq js \<equiv> jh_seq (js_header js)"

definition in_blacklist :: "blacklist_entry list \<Rightarrow> jset \<Rightarrow> bool" where
  "in_blacklist bls js = list_ex (\<lambda>b. js_seq js \<ge> bl_start_seq b \<and> js_seq js < bl_end_seq b) bls"

definition UNCLEAN_SEQ_SKIP :: u64 where "UNCLEAN_SEQ_SKIP = 64"

text \<open>The first phase of the pass \<open>journal_read\<close>: the entries it leaves to replay.\<close>

definition recovery_jsets :: "payload_codec \<Rightarrow> bool \<Rightarrow> (u32 \<times> jset) list \<Rightarrow> jset list" where
  "recovery_jsets cd clean_shutdown entries =
     (let jsets = sort_key js_seq (map snd entries);
          bls = extract_blacklist_entries cd jsets;
          kept = (if bls = [] then jsets else filter (\<lambda>js. \<not> in_blacklist bls js) jsets)
      in if \<not> clean_shutdown \<and> kept \<noteq> [] then
           let max_seq = js_seq (last kept) in
           if max_seq > UNCLEAN_SEQ_SKIP then filter (\<lambda>js. js_seq js < max_seq - UNCLEAN_SEQ_SKIP + 1) kept else kept
         else kept)"

subsection \<open>Replay\<close>

record replayer =
  rp_last_applied :: u64
  rp_replayed :: "u64 set"

definition replayer_new :: replayer where
  "replayer_new = \<lparr>rp_last_applied = 0, rp_replayed = {}\<rparr>"

definition already_applied :: "replayer \<Rightarrow> jset \<Rightarrow> bool" where
  "already_applied rp js \<longleftrightarrow> js_seq js \<le> rp_last_applied rp \<or> js_seq js \<in> rp_replayed rp"

definition mark_applied :: "jset \<Rightarrow> replayer \<Rightarrow> replayer" where
  "mark_applied js rp = rp\<lparr>rp_replayed := insert (js_seq js) (rp_replayed rp),
     rp_last_applied := max (rp_last_applied rp) (js_seq js)\<rparr>"

definition decode_payload :: "payload_codec \<Rightarrow> u8 list \<Rightarrow> btree_entry list option" where
  "decode_payload cd p = (if p = [] then Some [] else dec_keys cd p)"

text \<open>A decoding error (\<open>False\<close>) stops a replay where it is; what was inserted stays.\<close>

fun apply_accounting ::
  "payload_codec \<Rightarrow> (btree_id \<Rightarrow> btree_entry \<Rightarrow> 'e \<Rightarrow> 'e) \<Rightarrow> raw_entry list \<Rightarrow> u64 \<Rightarrow> 'e \<Rightarrow> bool \<times> u64 \<times> 'e" where
  "apply_accounting cd ins [] n eng = (True, n, eng)"
| "apply_accounting cd ins (r # rs) n eng =
     (if eh_entry_type (re_hdr r) = entry_type_u8 BtreeRoot then apply_accounting cd ins rs n eng
      else if eh_btree_type (re_hdr r) \<noteq> btree_id_index Alloc then apply_accounting cd ins rs n eng
      else case decode_payload cd (re_payload r) of
             None \<Rightarrow> (False, n, eng)
           | Some ks \<Rightarrow> apply_accounting cd ins rs (n + of_nat (length ks)) (fold (ins Alloc) ks eng))"

fun apply_data ::
  "payload_codec \<Rightarrow> (btree_id \<Rightarrow> btree_entry \<Rightarrow> 'e \<Rightarrow> 'e) \<Rightarrow> raw_entry list \<Rightarrow> 'e \<Rightarrow> bool \<times> 'e" where
  "apply_data cd ins [] eng = (True, eng)"
| "apply_data cd ins (r # rs) eng =
     (let et = eh_entry_type (re_hdr r) in
      if et = entry_type_u8 BtreeRoot then apply_data cd ins rs eng
      else if et = entry_type_u8 Overwrite \<or> et = entry_type_u8 BtreeNodeRewrite then apply_data cd ins rs eng
      else if eh_btree_type (re_hdr r) = btree_id_index Alloc then apply_data cd ins rs eng
      else
        let bt = (case btree_id_from_u8 (eh_btree_type (re_hdr r)) of None \<Rightarrow> Extents | Some b \<Rightarrow> b) in
        case decode_payload cd (re_payload r) of
          None \<Rightarrow> (False, eng)
        | Some ks \<Rightarrow> apply_data cd ins rs (fold (ins bt) ks eng))"

fun accounting_loop ::
  "payload_codec \<Rightarrow> (btree_id \<Rightarrow> btree_entry \<Rightarrow> 'e \<Rightarrow> 'e) \<Rightarrow> replayer \<Rightarrow> jset list \<Rightarrow> u64 \<Rightarrow> 'e \<Rightarrow> bool \<times> u64 \<times> 'e" where
  "accounting_loop cd ins rp [] n eng = (True, n, eng)"
| "accounting_loop cd ins rp (js # jss) n eng =
     (if already_applied rp js then accounting_loop cd ins rp jss n eng
      else case apply_accounting cd ins (js_entries js) 0 eng of
             (False, _, eng') \<Rightarrow> (False, n, eng')
           | (True, m, eng') \<Rightarrow> accounting_loop cd ins rp jss (n + m) eng')"

fun data_loop ::
  "payload_codec \<Rightarrow> (btree_id \<Rightarrow> btree_entry \<Rightarrow> 'e \<Rightarrow> 'e) \<Rightarrow> jset list \<Rightarrow> u64 \<Rightarrow> replayer \<Rightarrow> 'e \<Rightarrow> bool \<times> u64 \<times> replayer \<times> 'e" where
  "data_loop cd ins [] n rp eng = (True, n, rp, eng)"
| "data_loop cd ins (js # jss) n rp eng =
     (if already_applied rp js then data_loop cd ins jss n rp eng
      else case apply_data cd ins (js_entries js) eng of
             (False, eng') \<Rightarrow> (False, n, rp, eng')
           | (True, eng') \<Rightarrow> data_loop cd ins jss (n + 1) (mark_applied js rp) eng')"

definition replay_accounting ::
  "payload_codec \<Rightarrow> (btree_id \<Rightarrow> btree_entry \<Rightarrow> 'e \<Rightarrow> 'e) \<Rightarrow> jset list \<Rightarrow> replayer \<Rightarrow> 'e \<Rightarrow> bool \<times> u64 \<times> 'e" where
  "replay_accounting cd ins jsets rp eng = accounting_loop cd ins rp (sort_key js_seq jsets) 0 eng"

definition replay_data ::
  "payload_codec \<Rightarrow> (btree_id \<Rightarrow> btree_entry \<Rightarrow> 'e \<Rightarrow> 'e) \<Rightarrow> jset list \<Rightarrow> replayer \<Rightarrow> 'e \<Rightarrow> bool \<times> u64 \<times> replayer \<times> 'e" where
  "replay_data cd ins jsets rp eng = data_loop cd ins (sort_key js_seq jsets) 0 rp eng"

text \<open>Both phases, as \<open>replay_all_to_engine\<close> and the pass \<open>journal_replay\<close> run them.\<close>

definition replay_all ::
  "payload_codec \<Rightarrow> (btree_id \<Rightarrow> btree_entry \<Rightarrow> 'e \<Rightarrow> 'e) \<Rightarrow> jset list \<Rightarrow> replayer \<Rightarrow> 'e \<Rightarrow> bool \<times> u64 \<times> replayer \<times> 'e" where
  "replay_all cd ins jsets rp eng =
     (case replay_accounting cd ins jsets rp eng of
        (False, n, eng') \<Rightarrow> (False, n, rp, eng')
      | (True, n, eng') \<Rightarrow> replay_data cd ins jsets rp eng')"

text \<open>The roots recorded in the journal, in the order in which the entries are read.\<close>

fun entry_roots :: "payload_codec \<Rightarrow> raw_entry list \<Rightarrow> (btree_id \<times> u64 \<times> u8) list option" where
  "entry_roots cd [] = Some []"
| "entry_roots cd (r # rs) =
     (if eh_entry_type (re_hdr r) \<noteq> entry_type_u8 BtreeRoot then entry_roots cd rs
      else case decode_payload cd (re_payload r) of
             None \<Rightarrow> None
           | Some [] \<Rightarrow> entry_roots cd rs
           | Some (k # _) \<Rightarrow>
               map_option ((#) (case btree_id_from_u8 (eh_btree_type (re_hdr r)) of None \<Rightarrow> Extents | Some b \<Rightarrow> b,
                                offset (pos k), 0)) (entry_roots cd rs))"

definition read_btree_roots :: "payload_codec \<Rightarrow> jset list \<Rightarrow> (btree_id \<times> u64 \<times> u8) list option" where
  "read_btree_roots cd jsets = entry_roots cd (concat (map js_entries jsets))"

record replayed_entry =
  re_seq :: u64
  re_btree_type :: btree_id
  re_entry_type :: jset_entry_type
  re_btree_entries :: "btree_entry list"

fun parse_jset :: "payload_codec \<Rightarrow> u64 \<Rightarrow> raw_entry list \<Rightarrow> replayed_entry list option" where
  "parse_jset cd q [] = Some []"
| "parse_jset cd q (r # rs) =
     (case decode_payload cd (re_payload r) of
        None \<Rightarrow> None
      | Some ks \<Rightarrow>
          map_option ((#) \<lparr>re_seq = q,
              re_btree_type = (case btree_id_from_u8 (eh_btree_type (re_hdr r)) of None \<Rightarrow> Extents | Some b \<Rightarrow> b),
              re_entry_type = (case entry_type_from_u8 (eh_entry_type (re_hdr r)) of None \<Rightarrow> BtreeKeys | Some t \<Rightarrow> t),
              re_btree_entries = ks\<rparr>) (parse_jset cd q rs))"

fun replay_from :: "payload_codec \<Rightarrow> u64 \<Rightarrow> jset list \<Rightarrow> replayed_entry list option" where
  "replay_from cd from_seq [] = Some []"
| "replay_from cd from_seq (js # jss) =
     (if js_seq js < from_seq then replay_from cd from_seq jss
      else case parse_jset cd (js_seq js) (js_entries js) of
             None \<Rightarrow> None
           | Some es \<Rightarrow> map_option ((@) es) (replay_from cd from_seq jss))"

end
