(* ===== verification/JournalReadProps.thy ===== *)
theory JournalReadProps
  imports JournalRead
begin

text \<open>
  Properties of theory JournalRead: what is appended and flushed is read back, a replay is
  idempotent, and three ways in which recovery loses entries that had reached the device.
\<close>

subsection \<open>Sorting by sequence number\<close>

lemma insort_key_append:
  "insort_key f u (P @ Q) = (if \<exists>p \<in> set P. f u \<le> f p then insort_key f u P @ Q else P @ insort_key f u Q)"
  for f :: "'a \<Rightarrow> 'b::linorder"
  by (induction P) auto

lemma sorted_split:
  fixes f :: "'a \<Rightarrow> 'b::linorder"
  assumes "sorted (map f xs)"
  shows "\<exists>P Q. xs = P @ Q \<and> (\<forall>p \<in> set P. f p < k) \<and> (\<forall>q \<in> set Q. k \<le> f q)"
  using assms
proof (induction xs)
  case (Cons x xs)
  then obtain P Q where pq: "xs = P @ Q" "\<forall>p \<in> set P. f p < k" "\<forall>q \<in> set Q. k \<le> f q"
    by auto
  show ?case
  proof (cases "f x < k")
    case True
    then show ?thesis
      using pq by (intro exI[of _ "x # P"] exI[of _ Q]) simp
  next
    case False
    then have "\<forall>q \<in> set (x # xs). k \<le> f q"
      using Cons.prems by fastforce
    then show ?thesis
      by (intro exI[of _ "[]"] exI[of _ "x # xs"]) simp
  qed
qed simp

lemma insort_key_front: "\<forall>q \<in> set Q. f u \<le> f q \<Longrightarrow> insort_key f u Q = u # Q"
  by (cases Q) auto

text \<open>Leaving an element out of a sorted list; whatever came before it and is no larger stays before it.\<close>

lemma sort_key_remove:
  fixes f :: "'a \<Rightarrow> 'b::linorder"
  shows "\<exists>P Q. sort_key f (us @ b # zs) = P @ b # Q \<and> sort_key f (us @ zs) = P @ Q \<and> (\<forall>u \<in> set us. f u \<le> f b \<longrightarrow> u \<in> set P)"
proof (induction us)
  case Nil
  obtain P Q where pq: "sort_key f zs = P @ Q" "\<forall>p \<in> set P. f p < f b" "\<forall>q \<in> set Q. f b \<le> f q"
    using sorted_split[of f "sort_key f zs" "f b"] by auto
  have "\<not> (\<exists>p \<in> set P. f b \<le> f p)"
    using pq(2) by auto
  then show ?case
    using pq by (intro exI[of _ P] exI[of _ Q]) (simp add: insort_key_append insort_key_front)
next
  case (Cons u us)
  then obtain P Q where pq: "sort_key f (us @ b # zs) = P @ b # Q" "sort_key f (us @ zs) = P @ Q"
    "\<forall>u \<in> set us. f u \<le> f b \<longrightarrow> u \<in> set P"
    by blast
  have "sorted (map f (P @ b # Q))"
    unfolding pq(1)[symmetric] by simp
  then have q: "\<forall>q \<in> set Q. f b \<le> f q"
    by (auto simp: sorted_append)
  consider "\<exists>p \<in> set P. f u \<le> f p" | "\<not> (\<exists>p \<in> set P. f u \<le> f p)" "f u \<le> f b" | "\<not> (\<exists>p \<in> set P. f u \<le> f p)" "\<not> f u \<le> f b"
    by blast
  then show ?case
  proof cases
    case 1
    then show ?thesis
      using pq by (intro exI[of _ "insort_key f u P"] exI[of _ Q]) (auto simp: insort_key_append set_insort_key)
  next
    case 2
    then have "\<forall>q \<in> set Q. f u \<le> f q"
      using q by auto
    then show ?thesis
      using 2 pq by (intro exI[of _ "P @ [u]"] exI[of _ Q]) (auto simp: insort_key_append insort_key_front)
  next
    case 3
    then show ?thesis
      using pq by (intro exI[of _ P] exI[of _ "insort_key f u Q"]) (auto simp: insort_key_append)
  qed
qed

subsection \<open>Replay\<close>

lemma already_applied_mark:
  "already_applied (mark_applied js rp) k \<longleftrightarrow> already_applied rp k \<or> js_seq k \<le> js_seq js"
  by (auto simp: already_applied_def mark_applied_def le_max_iff_disj)

lemma data_loop_skips:
  "already_applied rp b \<Longrightarrow> data_loop cd ins (ys @ b # zs) n rp eng = data_loop cd ins (ys @ zs) n rp eng"
proof (induction ys arbitrary: n rp eng)
  case (Cons y ys)
  then show ?case
    by (auto simp: already_applied_mark split: prod.splits bool.splits)
qed simp

lemma data_loop_same_seq:
  assumes "js_seq a = js_seq b" "a \<in> set xs"
  shows "data_loop cd ins (xs @ b # zs) n rp eng = data_loop cd ins (xs @ zs) n rp eng"
  using assms(2)
proof (induction xs arbitrary: n rp eng)
  case (Cons x xs)
  show ?case
  proof (cases "a \<in> set xs")
    case True
    then show ?thesis
      using Cons.IH by (auto split: prod.splits bool.splits)
  next
    case False
    then have x: "js_seq x = js_seq b"
      using Cons.prems assms(1) by auto
    show ?thesis
    proof (cases "already_applied rp x")
      case True
      then have "already_applied rp b"
        using x by (simp add: already_applied_def)
      then show ?thesis
        using data_loop_skips[of rp b cd ins "x # xs" zs] by simp
    next
      case False
      then show ?thesis
        using data_loop_skips[of "mark_applied x rp" b]
        by (auto simp: already_applied_mark x split: prod.splits bool.splits)
    qed
  qed
qed simp

lemma replay_data_same_seq:
  assumes "js_seq a = js_seq b"
  shows "replay_data cd ins (xs @ a # ys @ b # zs) rp eng = replay_data cd ins (xs @ a # ys @ zs) rp eng"
proof -
  obtain P Q where pq: "sort_key js_seq ((xs @ a # ys) @ b # zs) = P @ b # Q" "sort_key js_seq ((xs @ a # ys) @ zs) = P @ Q"
    "a \<in> set P"
    using sort_key_remove[of js_seq "xs @ a # ys" b zs] assms by force
  then show ?thesis
    using data_loop_same_seq[OF assms pq(3)] by (simp add: replay_data_def)
qed

text \<open>A replay remembers what it applied.\<close>

lemma data_loop_applied:
  assumes "data_loop cd ins jss n rp eng = (True, m, rp', eng')"
  shows "(\<forall>js \<in> set jss. already_applied rp' js) \<and> (\<forall>js. already_applied rp js \<longrightarrow> already_applied rp' js)"
  using assms
proof (induction jss arbitrary: n rp eng)
  case (Cons js jss)
  show ?case
  proof (cases "already_applied rp js")
    case True
    then show ?thesis
      using Cons.IH[of n rp eng] Cons.prems by auto
  next
    case False
    obtain eng1 where "data_loop cd ins jss (n + 1) (mark_applied js rp) eng1 = (True, m, rp', eng')"
      using Cons.prems False by (auto split: prod.splits bool.splits)
    note ih = Cons.IH[OF this]
    show ?thesis
      using ih by (auto simp: already_applied_mark)
  qed
qed simp

lemma loops_skip_all:
  assumes "\<forall>js \<in> set jss. already_applied rp js"
  shows "data_loop cd ins jss n rp eng = (True, n, rp, eng)" "accounting_loop cd ins rp jss n eng = (True, n, eng)"
  using assms by (induction jss) simp_all

text \<open> C14. Replay is idempotent: once a replay has succeeded, replaying the same entries again, in
  any order and with any of them repeated, changes neither the engine nor the replayer.\<close>
theorem replay_idempotent:
  assumes "replay_all cd ins jsets rp eng = (True, n, rp', eng')" and "set jsets' \<subseteq> set jsets"
  shows "replay_all cd ins jsets' rp' eng' = (True, 0, rp', eng')"
proof -
  obtain eng1 where "replay_data cd ins jsets rp eng1 = (True, n, rp', eng')"
    using assms(1) by (auto simp: replay_all_def split: prod.splits bool.splits)
  then have "\<forall>js \<in> set jsets. already_applied rp' js"
    using data_loop_applied unfolding replay_data_def by fastforce
  then have "\<forall>js \<in> set (sort_key js_seq jsets'). already_applied rp' js"
    using assms(2) by auto
  then show ?thesis
    by (simp add: replay_all_def replay_accounting_def replay_data_def loops_skip_all)
qed

text \<open>A codec of two batches, the empty one and one key, for the concrete instances.\<close>

definition demo_key_entry :: btree_entry where
  "demo_key_entry = \<lparr>pos = Bpos 5 9 0, ekey_type = key_type.Normal, evalue = Extent \<lparr>paddr = 4096, ver = 1\<rparr>\<rparr>"

definition demo_codec :: payload_codec where
  "demo_codec = \<lparr>enc_keys = (\<lambda>es. if es = [] then Some [7] else if es = [demo_key_entry] then Some [8, 1] else None),
     dec_keys = (\<lambda>p. if p = [7] then Some [] else if p = [8, 1] then Some [demo_key_entry] else None),
     enc_blacklist = (\<lambda>_. None), dec_blacklist = (\<lambda>_. None)\<rparr>"

theorem replay_idempotent_witness:
  "\<exists>rp'. replay_all demo_codec (\<lambda>_ _ (e :: nat). e) [jset_new 5 1] replayer_new 0 = (True, 1, rp', 0) \<and>
     replay_all demo_codec (\<lambda>_ _ (e :: nat). e) [jset_new 5 1, jset_new 5 1] rp' 0 = (True, 0, rp', 0)"
proof -
  have "replay_all demo_codec (\<lambda>_ _ (e :: nat). e) [jset_new 5 1] replayer_new 0 =
      (True, 1, mark_applied (jset_new 5 1) replayer_new, 0)"
    by (simp add: replay_all_def replay_accounting_def replay_data_def already_applied_def replayer_new_def
        jset_new_def jset_with_magic_def)
  then show ?thesis
    using replay_idempotent[of demo_codec "\<lambda>_ _ (e :: nat). e" "[jset_new 5 1]" replayer_new 0 1 _ 0
        "[jset_new 5 1, jset_new 5 1]"] by auto
qed

subsection \<open>Appending to the open entry\<close>

lemma append_base_ok: "entry_ok e \<Longrightarrow> jset_ok (with_seq q (append_base e j))"
  by (simp add: jset_ok_def with_seq_def append_base_def)

lemma append_base_size:
  "data_size (append_base e j) = 72 + length (re_payload e)" "data_size (with_seq q (append_base e j)) = 72 + length (re_payload e)"
  by (simp_all add: data_size_eq append_base_def with_seq_def)

lemma pad_to_block: "0 < n \<Longrightarrow> n \<le> 4096 \<Longrightarrow> n + (4096 - n mod 4096) mod 4096 = 4096" for n :: nat
  by (cases "n = 4096") simp_all

lemma one_block_len:
  assumes "length (re_payload e) \<le> 4024"
  shows "serialized_padded_len (append_base e j) = 4096" "serialized_padded_len (with_seq q (append_base e j)) = 4096"
  using pad_to_block[of "72 + length (re_payload e)"] assms
  by (simp_all add: serialized_padded_len_def append_base_size JSET_BLOCK_SIZE_def Let_def)

text \<open>The word after a reservation and its return: only the offset has moved.\<close>

lemma reserve_release:
  assumes "unat (cur_entry_offset w) + n \<le> 4096" "buf_count w (res_idx w) = 0"
  shows "\<exists>w1. try_reserve w (of_nat n) = Some (w, w1) \<and> buf_count w1 (res_idx w) = 1 \<and>
    res_idx (snd (release w1 (res_idx w))) = res_idx w \<and> buf_count (snd (release w1 (res_idx w))) (res_idx w) = 0 \<and>
    unat (cur_entry_offset (snd (release w1 (res_idx w)))) = unat (cur_entry_offset w) + n"
proof -
  have n: "unat (of_nat n :: u32) = n"
    using assms(1) by (simp add: unsigned_of_nat take_bit_nat_eq_self)
  obtain w1 where t: "try_reserve w (of_nat n) = Some (w, w1)"
    using assms n by (auto simp: try_reserve_eq)
  note f = try_reserve_fields[OF t]
  have c: "unat (buf_count w1 (res_idx w)) = 1"
    using f(6) assms(2) by simp
  then have "buf_count w1 (res_idx w) \<noteq> 0"
    by auto
  note r = release_fields[OF res_idx_less[of w] this]
  have "buf_count w1 (res_idx w) = 1"
    using c by (simp add: word_unat_eq_iff)
  moreover have "buf_count (snd (release w1 (res_idx w))) (res_idx w) = 0"
    using r(4) c by (simp add: unat_eq_0)
  ultimately show ?thesis
    using t r(2,3) f(4,5) n by auto
qed

lemma append_entry_one:
  assumes "one_pending i off j" and "entry_ok e" and "length (re_payload e) \<le> 4024" and "off + 512 \<le> 4096"
    and "journal_error_check j = None" and "wm_allows (wm_from_bits (j_watermark j)) wm"
  shows "\<exists>w. let b = j_bufs j ! i; q = jb_seq b; bytes = serialize_padded (with_seq q (append_base e j));
      j' = j\<lparr>j_res := w, j_bufs := (j_bufs j)[i := b\<lparr>jb_data := take (off * 8) (jb_data b) @ bytes @ drop (off * 8 + 4096) (jb_data b)\<rparr>]\<rparr>
    in append_entry io cb wm e False j = Some (Inr q, j') \<and> one_pending i (off + 512) j'"
proof -
  let ?w = "j_res j" and ?b = "j_bufs j ! i"
  let ?q = "jb_seq ?b"
  let ?bytes = "serialize_padded (with_seq ?q (append_base e j))"
  have p: "length (j_bufs j) = 4" "i = unat (res_idx ?w)" "buf_count ?w (res_idx ?w) = 0" "off = unat (cur_entry_offset ?w)"
    "jb_state ?b = Accepting" "length (jb_data ?b) = 32768"
    using assms(1) unfolding one_pending_def BUF_SIZE_def by blast+
  have i4: "i < 4"
    using res_idx_less[of ?w] p(2) by (simp add: word_less_nat_alt)
  obtain w1 where t: "try_reserve ?w 512 = Some (?w, w1)" and r: "buf_count w1 (res_idx ?w) = 1"
    "res_idx (snd (release w1 (res_idx ?w))) = res_idx ?w" "buf_count (snd (release w1 (res_idx ?w))) (res_idx ?w) = 0"
    "unat (cur_entry_offset (snd (release w1 (res_idx ?w)))) = off + 512"
    using reserve_release[of ?w 512] assms(4) p(3,4) by auto
  let ?w2 = "snd (release w1 (res_idx ?w))"
  have len: "length ?bytes = 4096" "serialized_padded_len (append_base e j) = 4096"
    using padded_len(3)[OF append_base_ok[OF assms(2)]] one_block_len[OF assms(3)] by simp_all
  have o8: "unat (cur_entry_offset ?w * 8) = off * 8"
    using assms(4) p(4) by (simp add: unat_word_ariths)
  let ?b' = "?b\<lparr>jb_data := take (off * 8) (jb_data ?b) @ ?bytes @ drop (off * 8 + 4096) (jb_data ?b)\<rparr>"
  let ?j' = "j\<lparr>j_res := ?w2, j_bufs := (j_bufs j)[i := ?b']\<rparr>"
  have put: "journal_res_put r k = k\<lparr>j_res := ?w2\<rparr>"
    if "j_res k = w1" "jr_buf_idx r = res_idx ?w" "jb_state (j_bufs k ! i) = Accepting" for r k
    using that r(1) p(2) by (simp add: journal_res_put_def Let_def split: prod.splits)
  have "append_entry io cb wm e False j = Some (Inr ?q, ?j')"
    using assms(4,5,6) p i4 t len o8
    by (simp add: append_entry_def Let_def journal_res_get_fast_def add_entry_def upd_buf_def put)
  moreover have "one_pending i (off + 512) ?j'"
    using assms(1,4) p(1,2) i4 r len(1) by (simp add: one_pending_def BUF_SIZE_def)
  ultimately show ?thesis
    unfolding Let_def by blast
qed

subsection \<open>Append, flush, read back\<close>

definition codec_ok :: "payload_codec \<Rightarrow> bool" where
  "codec_ok cd \<longleftrightarrow> (\<forall>es p. enc_keys cd es = Some p \<longrightarrow> dec_keys cd p = Some es)"

text \<open>Batches small enough that each entry fills one block.\<close>

definition small_batch :: "payload_codec \<Rightarrow> btree_id \<times> btree_entry list \<Rightarrow> bool" where
  "small_batch cd x \<longleftrightarrow> (case enc_keys cd (snd x) of None \<Rightarrow> False | Some p \<Rightarrow> length p \<le> 4024)"

definition entry_for :: "payload_codec \<Rightarrow> btree_id \<times> btree_entry list \<Rightarrow> raw_entry" where
  "entry_for cd x = the (raw_entry_new (btree_id_index (fst x)) (entry_type_u8 BtreeKeys) (the (enc_keys cd (snd x))))"

definition jset_for :: "payload_codec \<Rightarrow> u64 \<Rightarrow> journal \<Rightarrow> btree_id \<times> btree_entry list \<Rightarrow> jset" where
  "jset_for cd q j x = with_seq q (append_base (entry_for cd x) j)"

definition append_all ::
  "payload_codec \<Rightarrow> (dev_event list \<Rightarrow> dev_event \<Rightarrow> bool) \<Rightarrow> pin_cb \<Rightarrow> (btree_id \<times> btree_entry list) list \<Rightarrow> journal \<Rightarrow> journal option" where
  "append_all cd io cb = fold_opt (\<lambda>x j.
     case journal_append cd io cb (fst x) (snd x) False j of Some (Inr _, j') \<Rightarrow> Some j' | _ \<Rightarrow> None)"

lemma entry_for_props:
  assumes "small_batch cd x"
  shows "raw_entry_new (btree_id_index (fst x)) (entry_type_u8 BtreeKeys) (the (enc_keys cd (snd x))) = Some (entry_for cd x)"
    "entry_ok (entry_for cd x)" "length (re_payload (entry_for cd x)) \<le> 4024"
    "enc_keys cd (snd x) = Some (re_payload (entry_for cd x))"
    "eh_btree_type (re_hdr (entry_for cd x)) = btree_id_index (fst x)" "eh_entry_type (re_hdr (entry_for cd x)) = 0"
    "eh_version (re_hdr (entry_for cd x)) = 1"
proof -
  obtain p where p: "enc_keys cd (snd x) = Some p" "length p \<le> 4024"
    using assms by (auto simp: small_batch_def split: option.splits)
  show r: "raw_entry_new (btree_id_index (fst x)) (entry_type_u8 BtreeKeys) (the (enc_keys cd (snd x))) = Some (entry_for cd x)"
    using p by (simp add: entry_for_def raw_entry_new_def)
  show "entry_ok (entry_for cd x)"
    by (rule raw_entry_new_ok[OF r])
  show "length (re_payload (entry_for cd x)) \<le> 4024" "enc_keys cd (snd x) = Some (re_payload (entry_for cd x))"
    "eh_btree_type (re_hdr (entry_for cd x)) = btree_id_index (fst x)" "eh_entry_type (re_hdr (entry_for cd x)) = 0"
    "eh_version (re_hdr (entry_for cd x)) = 1"
    using p by (simp_all add: entry_for_def raw_entry_new_def JSET_ENTRY_VERSION_def)
qed

text \<open>The open entry holds the blocks \<open>bytes\<close> and has room after them.\<close>

definition filled :: "nat \<Rightarrow> u8 list list \<Rightarrow> journal \<Rightarrow> bool" where
  "filled i blocks j \<longleftrightarrow> one_pending i (length blocks * 512) j \<and> (\<forall>b \<in> set blocks. length b = 4096) \<and>
     take (length blocks * 4096) (jb_data (j_bufs j ! i)) = concat blocks"

lemma length_concat_blocks: "\<forall>b \<in> set bs. length b = n \<Longrightarrow> length (concat bs) = length bs * n"
  by (induction bs) simp_all

lemma blocks_of_concat: "\<forall>b \<in> set bs. length b = 4096 \<Longrightarrow> blocks_of (concat bs) = bs"
proof (induction bs)
  case Nil
  show ?case
    by (simp add: blocks_of.simps)
next
  case (Cons b bs)
  have "blocks_of (b @ concat bs) = block_of (take 4096 (b @ concat bs)) # blocks_of (drop 4096 (b @ concat bs))"
    using Cons.prems by (subst blocks_of.simps) auto
  also have "\<dots> = b # bs"
    using Cons by (simp add: block_of_def JSET_BLOCK_SIZE_def)
  finally show ?case
    by simp
qed

lemma append_one_filled:
  assumes "filled i blocks j" and "small_batch cd x" and "length blocks < 8"
    and "journal_error_check j = None" and "wm_allows (wm_from_bits (j_watermark j)) Btree"
  defines "q \<equiv> jb_seq (j_bufs j ! i)"
  shows "\<exists>j'. journal_append cd io cb (fst x) (snd x) False j = Some (Inr q, j') \<and>
    filled i (blocks @ [serialize_padded (jset_for cd q j x)]) j' \<and> jb_seq (j_bufs j' ! i) = q \<and>
    j_sp j' = j_sp j \<and> j_dev j' = j_dev j \<and> jp_last_seq_ondisk j' = jp_last_seq_ondisk j \<and>
    j_error j' = j_error j \<and> j_watermark j' = j_watermark j"
proof -
  note e = entry_for_props[OF assms(2)]
  let ?off = "length blocks * 512" and ?b = "j_bufs j ! i"
  let ?bytes = "serialize_padded (jset_for cd q j x)"
  have f: "one_pending i ?off j" "\<forall>b \<in> set blocks. length b = 4096" "take (?off * 8) (jb_data ?b) = concat blocks"
    using assms(1) by (simp_all add: filled_def mult.commute)
  define J where "J = (\<lambda>w. j\<lparr>j_res := w,
      j_bufs := (j_bufs j)[i := ?b\<lparr>jb_data := take (?off * 8) (jb_data ?b) @ ?bytes @ drop (?off * 8 + 4096) (jb_data ?b)\<rparr>]\<rparr>)"
  obtain w where w: "append_entry io cb Btree (entry_for cd x) False j = Some (Inr q, J w)" and p: "one_pending i (?off + 512) (J w)"
    using append_entry_one[OF f(1) e(2,3) _ assms(4,5), of io cb] assms(3) by (auto simp: Let_def q_def jset_for_def J_def)
  have i: "i < length (j_bufs j)"
    using f(1) res_idx_less[of "j_res j"] by (auto simp: one_pending_def word_less_nat_alt)
  have len: "length ?bytes = 4096"
    using padded_len(3)[OF append_base_ok[OF e(2)]] one_block_len(2)[OF e(3)] by (simp add: jset_for_def)
  have "take (length (blocks @ [?bytes]) * 4096) (jb_data (j_bufs (J w) ! i)) = concat (blocks @ [?bytes])"
    using i len f(3) length_concat_blocks[OF f(2)] by (simp add: J_def)
  then have "filled i (blocks @ [?bytes]) (J w)"
    using p f(2) len by (simp add: filled_def add.commute)
  moreover have "journal_append cd io cb (fst x) (snd x) False j = Some (Inr q, J w)"
    using w e(1,4) by (simp add: journal_append_def)
  ultimately show ?thesis
    using i by (intro exI[of _ "J w"]) (simp add: q_def J_def)
qed

lemma append_all_filled:
  assumes "filled i blocks j" and "\<forall>x \<in> set xs. small_batch cd x" and "length blocks + length xs \<le> 8"
    and "journal_error_check j = None" and "wm_allows (wm_from_bits (j_watermark j)) Btree"
  defines "q \<equiv> jb_seq (j_bufs j ! i)"
  shows "\<exists>j'. append_all cd io cb xs j = Some j' \<and>
    filled i (blocks @ map (\<lambda>x. serialize_padded (jset_for cd q j x)) xs) j' \<and>
    j_sp j' = j_sp j \<and> j_dev j' = j_dev j"
  using assms(1-5) unfolding q_def
proof (induction xs arbitrary: j blocks)
  case Nil
  then show ?case
    by (simp add: append_all_def)
next
  case (Cons x xs)
  let ?q = "jb_seq (j_bufs j ! i)"
  obtain j1 where a: "journal_append cd io cb (fst x) (snd x) False j = Some (Inr ?q, j1)"
    "filled i (blocks @ [serialize_padded (jset_for cd ?q j x)]) j1" "jb_seq (j_bufs j1 ! i) = ?q"
    "j_sp j1 = j_sp j" "j_dev j1 = j_dev j" "jp_last_seq_ondisk j1 = jp_last_seq_ondisk j"
    "j_error j1 = j_error j" "j_watermark j1 = j_watermark j"
    using append_one_filled[OF Cons.prems(1), of cd x io cb] Cons.prems by auto
  have eq: "jset_for cd ?q j1 y = jset_for cd ?q j y" for y
    using a(6) by (simp add: jset_for_def append_base_def)
  obtain j' where j': "append_all cd io cb xs j1 = Some j'" "j_sp j' = j_sp j1" "j_dev j' = j_dev j1"
    "filled i ((blocks @ [serialize_padded (jset_for cd ?q j x)]) @ map (\<lambda>x. serialize_padded (jset_for cd ?q j1 x)) xs) j'"
    using Cons.IH[OF a(2)] Cons.prems a by (auto simp: journal_error_check_def)
  have "append_all cd io cb (x # xs) j = append_all cd io cb xs j1"
    using a(1) by (simp add: append_all_def)
  then show ?case
    using j' a(4,5) by (intro exI[of _ j']) (simp add: eq)
qed

lemma read_block_entry:
  assumes "codec_ok cd" "small_batch cd x" "jp_last_seq_ondisk j \<le> q" "rd a = ReadOk (serialize_padded (jset_for cd q j x))"
  shows "read_blocks cd legacy rd (a # as) = map_sum id ((#) (sealed (jset_for cd q j x))) (read_blocks cd legacy rd as)"
proof -
  note e = entry_for_props[OF assms(2)]
  let ?js = "jset_for cd q j x"
  have ok: "jset_ok ?js"
    using append_base_ok[OF e(2)] by (simp add: jset_for_def)
  have "dec_keys cd (re_payload (entry_for cd x)) \<noteq> None"
    using assms(1) e(4) by (auto simp: codec_ok_def)
  then have "jset_validate cd (sealed ?js)"
    using assms(3) e by (simp add: jset_validate_def sealed_def jset_for_def with_seq_def append_base_def CSUM_TYPE_NONE_def
        JSET_ENTRY_VERSION_def journal_entry_validate_def entry_type_from_u8_def btree_keys_validate_def)
  then show ?thesis
    using deserialize_sealed[OF ok, of legacy "[]"] verify_sealed[OF ok] assms(4) by simp
qed

lemma read_blocks_entries:
  assumes "codec_ok cd" "\<forall>x \<in> set xs. small_batch cd x" "jp_last_seq_ondisk j \<le> q"
    "\<And>k. k < length xs \<Longrightarrow> rd (start + of_nat (m + k)) = ReadOk (serialize_padded (jset_for cd q j (xs ! k)))"
    "m + length xs \<le> n"
  shows "read_blocks cd legacy rd (map (\<lambda>k. start + of_nat k) [m..<n]) =
    map_sum id ((@) (map (\<lambda>x. sealed (jset_for cd q j x)) xs))
      (read_blocks cd legacy rd (map (\<lambda>k. start + of_nat k) [m + length xs..<n]))"
  using assms(2,4,5)
proof (induction xs arbitrary: m)
  case Nil
  then show ?case
    by (cases "read_blocks cd legacy rd (map (\<lambda>k. start + of_nat k) [m..<n])") simp_all
next
  case (Cons x xs)
  have c: "[m..<n] = m # [Suc m..<n]"
    using Cons.prems(3) by (simp add: upt_conv_Cons)
  have "rd (start + of_nat (Suc m + k)) = ReadOk (serialize_padded (jset_for cd q j (xs ! k)))" if "k < length xs" for k
    using Cons.prems(2)[of "Suc k"] that by simp
  then have ih: "read_blocks cd legacy rd (map (\<lambda>k. start + of_nat k) [Suc m..<n]) =
    map_sum id ((@) (map (\<lambda>x. sealed (jset_for cd q j x)) xs))
      (read_blocks cd legacy rd (map (\<lambda>k. start + of_nat k) [Suc m + length xs..<n]))"
    using Cons.prems by (intro Cons.IH) auto
  have "rd (start + of_nat m) = ReadOk (serialize_padded (jset_for cd q j x))"
    using Cons.prems(2)[of 0] by simp
  then show ?case
    using read_block_entry[OF assms(1) _ assms(3), of x rd "start + of_nat m" legacy] Cons.prems(1) ih
    by (simp add: c sum.map_comp o_def del: read_blocks.simps upt_Suc)
qed

lemma read_blocks_end:
  "rd a = BlockNotFound \<or> (\<exists>z. rd a = ReadOk z \<and> deserialize legacy z = Inr None) \<Longrightarrow> read_blocks cd legacy rd (a # as) = Inr []"
  by auto

text \<open>What a reader sees of an entry: its sequence number, and each part's btree and keys.\<close>

definition jset_view :: "payload_codec \<Rightarrow> jset \<Rightarrow> u64 \<times> (u8 \<times> btree_entry list option) list" where
  "jset_view cd js = (js_seq js, map (\<lambda>e. (eh_btree_type (re_hdr e), dec_keys cd (re_payload e))) (js_entries js))"

text \<open> C11. What is appended is read back: up to eight batches, each of which fits one 4096-byte block,
  appended to a fresh entry at the start of a bucket and flushed are returned by \<open>bch2_journal_read\<close> of that bucket, in order,
  each with its btree, its keys and the entry's sequence number, if the device returns the
  blocks the flush wrote, which follow each other from the start of the bucket, and holds no
  older entry in the block after. Larger batches are not read back, as shown below.\<close>
theorem append_flush_read:
  assumes "codec_ok cd" and "\<forall>x \<in> set xs. small_batch cd x" and "length xs \<le> 8"
    and "one_pending i 0 j" and "at_block 0 (j_sp j)"
    and "journal_error_check j = None" and "wm_allows (wm_from_bits (j_watermark j)) Btree"
    and "jp_last_seq_ondisk j \<le> jb_seq (j_bufs j ! i)" and "\<And>l e. io l e"
  shows "\<exists>j1 j2 j3 blocks fl. append_all cd io cb xs j = Some j1 \<and> flush_begin j1 = Some j2 \<and>
    write_bufs_to_bucket io cb j2 = Some (Inr (), j3) \<and> set fl \<subseteq> {Flush} \<and> length blocks = length xs \<and>
    j_dev j3 = j_dev j @ writes_at (cur_addr (j_sp j)) 0 blocks @ fl \<and>
    (\<forall>rd. (\<forall>k < length xs. rd (cur_addr (j_sp j) + of_nat k) = ReadOk (blocks ! k)) \<and>
          (rd (cur_addr (j_sp j) + of_nat (length xs)) = BlockNotFound \<or>
           (\<exists>z. rd (cur_addr (j_sp j) + of_nat (length xs)) = ReadOk z \<and> deserialize legacy z = Inr None)) \<and>
          sp_current_bucket (j_sp j) < 2 ^ 32 \<longrightarrow>
      (\<exists>js. journal_read cd legacy rd (of_nat (sp_current_bucket (j_sp j))) j3 = Inr js \<and>
        map (jset_view cd) js = map (\<lambda>(bt, es). (jb_seq (j_bufs j ! i), [(btree_id_index bt, Some es)])) xs))"
proof -
  let ?q = "jb_seq (j_bufs j ! i)" and ?start = "cur_addr (j_sp j)"
  let ?bs = "map (\<lambda>x. serialize_padded (jset_for cd ?q j x)) xs"
  have f0: "filled i [] j"
    using assms(4) by (simp add: filled_def)
  obtain j1 where a: "append_all cd io cb xs j = Some j1" "filled i ?bs j1" "j_sp j1 = j_sp j" "j_dev j1 = j_dev j"
    using append_all_filled[OF f0 assms(2) _ assms(6,7), of io cb] assms(3) by auto
  have f: "one_pending i (length xs * 512) j1" "\<forall>b \<in> set ?bs. length b = 4096"
    "take (length xs * 512 * 8) (jb_data (j_bufs j1 ! i)) = concat ?bs"
    using a(2) by (simp_all add: filled_def mult.commute)
  have bl: "blocks_of (take (length xs * 512 * 8) (jb_data (j_bufs j1 ! i))) = ?bs"
    using blocks_of_concat[OF f(2)] f(3) by simp
  have room: "0 + length (blocks_of (take (length xs * 512 * 8) (jb_data (j_bufs j1 ! i)))) \<le> 256"
    unfolding bl using assms(3) by simp
  obtain j2 j3 where w: "flush_begin j1 = Some j2" "write_bufs_to_bucket io cb j2 = Some (Inr (), j3)"
    "j_dev j3 = j_dev j1 @ writes_at (cur_addr (j_sp j1)) 0 ?bs @ (if jb_must_flush (j_bufs j1 ! i) \<and> \<not> jb_no_flush (j_bufs j1 ! i) then [Flush] else [])"
    "sp_buckets (j_sp j3) = sp_buckets (j_sp j1)"
    using flush_writes_blocks[where io = io and cb = cb, OF f(1) assms(5)[folded a(3)] _ room assms(9)] bl by auto
  have cur: "sp_current_bucket (j_sp j) < length (sp_buckets (j_sp j))"
    using assms(5) by (simp add: at_block_def)
  have "\<exists>js. journal_read cd legacy rd (of_nat (sp_current_bucket (j_sp j))) j3 = Inr js \<and>
        map (jset_view cd) js = map (\<lambda>(bt, es). (?q, [(btree_id_index bt, Some es)])) xs"
    if rd: "\<forall>k < length xs. rd (?start + of_nat k) = ReadOk (?bs ! k)"
      and stop: "rd (?start + of_nat (length xs)) = BlockNotFound \<or>
           (\<exists>z. rd (?start + of_nat (length xs)) = ReadOk z \<and> deserialize legacy z = Inr None)"
      and fit: "sp_current_bucket (j_sp j) < 2 ^ 32" for rd
  proof -
    have "read_blocks cd legacy rd (map (\<lambda>k. ?start + of_nat k) [0..<256]) =
      map_sum id ((@) (map (\<lambda>x. sealed (jset_for cd ?q j x)) xs))
        (read_blocks cd legacy rd (map (\<lambda>k. ?start + of_nat k) [0 + length xs..<256]))"
      using rd assms(3) by (intro read_blocks_entries assms(1,2,8)) auto
    moreover have "read_blocks cd legacy rd (map (\<lambda>k. ?start + of_nat k) [0 + length xs..<256]) = Inr []"
      using stop assms(3) read_blocks_end[of rd "?start + of_nat (length xs)" legacy cd] by (simp add: upt_conv_Cons del: read_blocks.simps)
    moreover have "unat (of_nat (sp_current_bucket (j_sp j)) :: u32) = sp_current_bucket (j_sp j)"
      using fit by (simp add: unsigned_of_nat take_bit_nat_eq_self)
    ultimately have "journal_read cd legacy rd (of_nat (sp_current_bucket (j_sp j))) j3 = Inr (map (\<lambda>x. sealed (jset_for cd ?q j x)) xs)"
      using cur by (simp add: journal_read_def Let_def w(4) a(3) bucket_blocks_def BUCKET_BLOCKS_def cur_addr_def del: upt_Suc)
    moreover have "jset_view cd (sealed (jset_for cd ?q j x)) = (?q, [(btree_id_index (fst x), Some (snd x))])" if "x \<in> set xs" for x
    proof -
      note e = entry_for_props[OF bspec[OF assms(2) that]]
      have "dec_keys cd (re_payload (entry_for cd x)) = Some (snd x)"
        using assms(1) e(4) by (simp add: codec_ok_def)
      then show ?thesis
        using e(5) by (simp add: jset_view_def sealed_def jset_for_def with_seq_def append_base_def)
    qed
    ultimately show ?thesis
      by (auto simp: split_beta)
  qed
  moreover have "set (if jb_must_flush (j_bufs j1 ! i) \<and> \<not> jb_no_flush (j_bufs j1 ! i) then [Flush] else []) \<subseteq> {Flush}"
    by auto
  moreover have "length ?bs = length xs"
    by simp
  ultimately show ?thesis
    using a(1) w(1,2) w(3)[unfolded a(3,4)] by blast
qed

definition demo_fresh :: journal where
  "demo_fresh = demo_journal\<lparr>j_res := 4194304\<rparr>"

lemma demo_fresh_facts:
  "one_pending 1 0 demo_fresh" "at_block 0 (j_sp demo_fresh)" "journal_error_check demo_fresh = None"
  "wm_allows (wm_from_bits (j_watermark demo_fresh)) Btree" "codec_ok demo_codec"
  "small_batch demo_codec (bt, [])" "small_batch demo_codec (bt, [demo_key_entry])" "jb_seq (j_bufs demo_fresh ! 1) = 1" "jp_last_seq_ondisk demo_fresh = 0"
  "cur_addr (j_sp demo_fresh) = 100" "sp_current_bucket (j_sp demo_fresh) = 0"
proof -
  have "unat (res_idx 4194304) = 1" "buf_count 4194304 (res_idx 4194304) = 0" "unat (cur_entry_offset 4194304) = 0"
    by code_simp+
  then show "one_pending 1 0 demo_fresh"
    by (auto simp: one_pending_def demo_fresh_def demo_journal_def journal_blank_def reset_for_accepting_def jb_free_def
        nth_Cons' numeral_eq_Suc less_Suc_eq)
  show "at_block 0 (j_sp demo_fresh)"
    using demo_pending(2) by (simp add: demo_fresh_def)
  have "wm_allows (wm_from_bits 0) Btree"
    by code_simp
  then show "wm_allows (wm_from_bits (j_watermark demo_fresh)) Btree"
    by (simp add: demo_fresh_def demo_journal_def journal_blank_def)
  show "codec_ok demo_codec" "small_batch demo_codec (bt, [])" "small_batch demo_codec (bt, [demo_key_entry])"
    by (auto simp: codec_ok_def demo_codec_def small_batch_def split: if_splits)
qed (simp_all add: demo_fresh_def demo_journal_def journal_blank_def journal_error_check_def journal_error_of_code_def
    reset_for_accepting_def cur_addr_def sp_new_def)

theorem append_flush_read_witness:
  "\<exists>j3 rd js. journal_read demo_codec (\<lambda>_. None) rd 0 j3 = Inr js \<and>
     map (jset_view demo_codec) js = [(1, [(0, Some [demo_key_entry])]), (1, [(4, Some [])])]"
proof -
  let ?xs = "[(Extents, [demo_key_entry]), (Alloc, [])]"
  have b: "\<forall>x \<in> set ?xs. small_batch demo_codec x"
    using demo_fresh_facts(6,7) by simp
  obtain j3 blocks where r: "\<forall>rd. (\<forall>k < length ?xs. rd (100 + of_nat k) = ReadOk (blocks ! k)) \<and>
          (rd (100 + of_nat (length ?xs)) = BlockNotFound \<or>
           (\<exists>z. rd (100 + of_nat (length ?xs)) = ReadOk z \<and> deserialize (\<lambda>_. None) z = Inr None)) \<and> (0::nat) < 2 ^ 32 \<longrightarrow>
      (\<exists>js. journal_read demo_codec (\<lambda>_. None) rd 0 j3 = Inr js \<and>
        map (jset_view demo_codec) js = map (\<lambda>(bt, es). (1, [(btree_id_index bt, Some es)])) ?xs)"
    using append_flush_read[OF demo_fresh_facts(5) b _ demo_fresh_facts(1-4), of "\<lambda>_ _. True" "\<lambda>_ _ _. None" "\<lambda>_. None"]
    by (auto simp: demo_fresh_facts demo_fresh_facts(8)[simplified])
  let ?rd = "\<lambda>a :: u64. if a = 100 then ReadOk (blocks ! 0) else if a = 101 then ReadOk (blocks ! 1) else BlockNotFound"
  have "\<forall>k < length ?xs. ?rd (100 + of_nat k) = ReadOk (blocks ! k)"
    by (auto simp: less_Suc_eq)
  then obtain js where "journal_read demo_codec (\<lambda>_. None) ?rd 0 j3 = Inr js"
    "map (jset_view demo_codec) js = map (\<lambda>(bt, es). (1, [(btree_id_index bt, Some es)])) ?xs"
    using r[rule_format, of ?rd] by auto
  then show ?thesis
    by (intro exI[of _ j3] exI[of _ ?rd] exI[of _ js]) simp
qed

subsection \<open>What recovery loses\<close>

text \<open>An append keeps the open entry: the next one goes to the same buffer and gets its number.\<close>

lemma append_entry_seq:
  assumes "append_entry io cb wm e False j = Some (Inr q, j')"
  shows "q = jb_seq (j_bufs j ! unat (res_idx (j_res j)))" "res_idx (j_res j') = res_idx (j_res j)"
    "map jb_seq (j_bufs j') = map jb_seq (j_bufs j)"
proof -
  obtain res j1 j2 where a: "journal_res_get_fast wm (of_nat ((serialized_padded_len (append_base e j) + 7) div 8)) j = (Inr res, j1)"
    "add_entry (res\<lparr>jr_must_flush := False\<rparr>) (serialize_padded (with_seq (jr_seq res) (append_base e j))) j1 = Some j2"
    "q = jr_seq res" "j' = journal_res_put (res\<lparr>jr_must_flush := False\<rparr>) j2"
    using assms by (auto simp: append_entry_def Let_def split: prod.splits sum.splits option.splits)
  obtain w where t: "try_reserve (j_res j) (of_nat ((serialized_padded_len (append_base e j) + 7) div 8)) = Some (j_res j, w)"
    "j1 = j\<lparr>j_res := w\<rparr>" "jr_buf_idx res = res_idx (j_res j)" "jr_seq res = jb_seq (j_bufs j ! unat (res_idx (j_res j)))"
    using a(1) by (auto simp: journal_res_get_fast_def Let_def split: option.splits if_splits dest: try_reserve_fields(1))
  note f = try_reserve_fields[OF t(1)]
  have "buf_count w (res_idx (j_res j)) \<noteq> 0"
    using f(6) by auto
  note r = release_fields[OF res_idx_less[of "j_res j"] this]
  show "q = jb_seq (j_bufs j ! unat (res_idx (j_res j)))"
    by (simp add: a(3) t(4))
  have s2: "map jb_seq (j_bufs j2) = map jb_seq (j_bufs j)" "j_res j2 = w"
    using a(2) t(2) by (auto simp: add_entry_def Let_def upd_buf_def map_update list_update_same_conv split: if_splits;
      cases "unat (jr_buf_idx res) < length (j_bufs j)"; simp add: map_update list_update_same_conv list_update_beyond)+
  have u: "map jb_seq (j_bufs (upd_buf i (\<lambda>b. b\<lparr>jb_state := st\<rparr>) k)) = map jb_seq (j_bufs k)" for i st k
    by (cases "i < length (j_bufs k)") (simp_all add: upd_buf_def map_update list_update_same_conv list_update_beyond)
  show "res_idx (j_res j') = res_idx (j_res j)"
    using r(3) f(5) s2(2) by (cases "release w (res_idx (j_res j))") (simp add: a(4) t(3) journal_res_put_def Let_def upd_buf_def)
  show "map jb_seq (j_bufs j') = map jb_seq (j_bufs j)"
    using s2(1) u by (simp add: a(4) journal_res_put_def Let_def split: prod.splits)
qed

text \<open> C13. Of two appends to one open entry the second is never replayed: both get the entry's sequence
  number, and a replay of the data keys takes each number once, so its outcome is the same
  without the second entry, wherever that stands after the first.\<close>
theorem second_append_not_replayed:
  assumes "length (j_bufs j) = 4"
    and "journal_append cd io cb bt es False j = Some (Inr q, j')"
    and "journal_append cd io cb bt' es' False j' = Some (Inr q', j'')"
  shows "q' = q \<and> (\<forall>a b. js_seq a = q \<and> js_seq b = q' \<longrightarrow>
    replay_data cd ins (xs @ a # ys @ b # zs) rp eng = replay_data cd ins (xs @ a # ys @ zs) rp eng)"
proof -
  obtain e e' where e: "append_entry io cb Btree e False j = Some (Inr q, j')"
    "append_entry io cb Btree e' False j' = Some (Inr q', j'')"
    using assms(2,3) by (auto simp: journal_append_def split: option.splits)
  note a = append_entry_seq[OF e(1)] and b = append_entry_seq[OF e(2)]
  have "unat (res_idx (j_res j)) < 4" "length (j_bufs j') = 4"
    using res_idx_less[of "j_res j"] arg_cong[OF a(3), of length] assms(1) by (simp_all add: word_less_nat_alt)
  then have "jb_seq (j_bufs j' ! unat (res_idx (j_res j))) = jb_seq (j_bufs j ! unat (res_idx (j_res j)))"
    using a(3) assms(1) by (metis nth_map)
  then have "q' = q"
    using a(1,2) b(1) by simp
  then show ?thesis
    by (auto intro!: replay_data_same_seq)
qed

theorem second_append_not_replayed_witness:
  "\<exists>q j' j''. journal_append demo_codec (\<lambda>_ _. True) (\<lambda>_ _ _. None) Extents [] False demo_fresh = Some (Inr q, j') \<and>
     journal_append demo_codec (\<lambda>_ _. True) (\<lambda>_ _ _. None) Subvolumes [] False j' = Some (Inr q, j'')"
proof -
  let ?io = "\<lambda>_ _. True" and ?cb = "\<lambda>_ _ _. None"
  have f0: "filled 1 [] demo_fresh"
    using demo_fresh_facts(1) by (simp add: filled_def)
  obtain j1 where a: "append_all demo_codec ?io ?cb [(Extents, [])] demo_fresh = Some j1"
    using append_all_filled[OF f0, of "[(Extents, [])]" demo_codec ?io ?cb] demo_fresh_facts(3,4,6) by auto
  obtain j2 where b: "append_all demo_codec ?io ?cb [(Extents, []), (Subvolumes, [])] demo_fresh = Some j2"
    using append_all_filled[OF f0, of "[(Extents, []), (Subvolumes, [])]" demo_codec ?io ?cb] demo_fresh_facts(3,4,6) by auto
  obtain q where q: "journal_append demo_codec ?io ?cb Extents [] False demo_fresh = Some (Inr q, j1)"
    using a by (auto simp: append_all_def split: option.splits sum.splits)
  obtain q' where q': "journal_append demo_codec ?io ?cb Subvolumes [] False j1 = Some (Inr q', j2)"
    using b q by (auto simp: append_all_def split: option.splits sum.splits)
  have l: "length (j_bufs demo_fresh) = 4"
    by (simp add: demo_fresh_def demo_journal_def)
  have "q' = q"
    by (rule second_append_not_replayed[OF l q q', THEN conjunct1])
  then show ?thesis
    using q q' by blast
qed

lemma last_sorted_max: "sorted (map f xs) \<Longrightarrow> x \<in> set xs \<Longrightarrow> f x \<le> f (last xs)"
  for f :: "'a \<Rightarrow> 'b::linorder"
  by (induction xs rule: rev_induct) (auto simp: sorted_append)

text \<open>
  After an unclean shutdown recovery drops the newest entries, also those a synced write was
  waiting for: with no blacklist and a newest sequence number above 64, exactly the entries
  at least 64 below it are replayed, while after a clean shutdown all are.\<close>
theorem unclean_recovery_drops:
  assumes "extract_blacklist_entries cd (sort_key js_seq (map snd entries)) = []"
    and "m \<in> snd ` set entries" and "\<forall>js \<in> snd ` set entries. js_seq js \<le> js_seq m" and "64 < js_seq m"
  shows "set (recovery_jsets cd False entries) = {js \<in> snd ` set entries. unat (js_seq js) + 64 \<le> unat (js_seq m)} \<and>
    set (recovery_jsets cd True entries) = snd ` set entries"
proof -
  let ?s = "sort_key js_seq (map snd entries)"
  have st: "set ?s = snd ` set entries"
    by simp
  then have "?s \<noteq> []"
    using assms(2) by (metis empty_iff empty_set)
  note st = st this
  then have "js_seq m \<le> js_seq (last ?s)" "last ?s \<in> snd ` set entries"
    using last_sorted_max[of js_seq ?s m] assms(2) last_in_set[OF st(2)] by simp_all
  then have mx: "js_seq (last ?s) = js_seq m"
    using assms(3) order_antisym by blast
  have u: "64 < unat (js_seq m)" "unat (js_seq m - 64 + 1) = unat (js_seq m) - 63"
    using assms(4) by (simp_all add: word_less_nat_alt unat_word_ariths unat_sub word_le_nat_alt)
  have "js_seq js < js_seq m - UNCLEAN_SEQ_SKIP + 1 \<longleftrightarrow> unat (js_seq js) + 64 \<le> unat (js_seq m)" for js
    using u by (auto simp: word_less_nat_alt UNCLEAN_SEQ_SKIP_def)
  moreover have "recovery_jsets cd False entries = filter (\<lambda>js. js_seq js < js_seq m - UNCLEAN_SEQ_SKIP + 1) ?s"
    using assms(1,4) st(2) mx by (simp add: recovery_jsets_def Let_def UNCLEAN_SEQ_SKIP_def)
  moreover have "recovery_jsets cd True entries = ?s"
    using assms(1) by (simp add: recovery_jsets_def Let_def)
  ultimately show ?thesis
    using st(1) by auto
qed

theorem unclean_recovery_drops_witness:
  "set (recovery_jsets demo_codec False [(0, jset_new 70 1), (0, jset_new 5 1), (0, jset_new 71 1)]) = {jset_new 5 1}"
proof -
  let ?es = "[(0, jset_new 70 1), (0, jset_new 5 1), (0, jset_new 71 1)]"
  have n: "js_seq (jset_new q l) = q" "js_entries (jset_new q l) = []" for q l
    by (simp_all add: jset_new_def jset_with_magic_def)
  have "extract_blacklist_entries demo_codec (sort_key js_seq (map snd ?es)) = []"
    by (simp add: extract_blacklist_entries_def n)
  then show ?thesis
    using unclean_recovery_drops[of demo_codec ?es "jset_new 71 1"] by (auto simp: n)
qed

lemma read_blocks_stop:
  "rd a = ReadOk buf \<Longrightarrow> deserialize legacy buf = Inr None \<Longrightarrow>
   read_blocks cd legacy rd (as @ a # bs) = read_blocks cd legacy rd as"
  by (induction as) (auto split: read_result.splits sum.splits option.splits)

text \<open> C28. An entry that needs more than one block hides itself and the rest of its bucket: the
  reader looks at one block at a time, takes the first block of the longer entry for the end,
  and returns what stands before it.\<close>
theorem long_entry_hides_bucket:
  assumes "jset_ok js" and "4096 < data_size js" and "unat i < length (sp_buckets (j_sp j))" and "k < 256"
    and "rd (jd_addr (sp_buckets (j_sp j) ! unat i) + of_nat k) = ReadOk (take 4096 (serialize_padded js))"
  shows "journal_read cd legacy rd i j =
    read_blocks cd legacy rd (take k (bucket_blocks (jd_addr (sp_buckets (j_sp j) ! unat i))))"
proof -
  let ?a = "jd_addr (sp_buckets (j_sp j) ! unat i)"
  let ?bs = "bucket_blocks ?a"
  have "deserialize legacy (take 4096 (serialize_padded js)) = Inr None"
    using deserialize_prefix[OF assms(1) _ assms(2)] by simp
  moreover have "?bs = take k ?bs @ (?a + of_nat k) # drop (Suc k) ?bs"
    using id_take_nth_drop[of k ?bs] assms(4) by (simp add: bucket_blocks_def BUCKET_BLOCKS_def del: upt_Suc)
  ultimately have "read_blocks cd legacy rd ?bs = read_blocks cd legacy rd (take k ?bs)"
    using read_blocks_stop[of rd "?a + of_nat k" _ legacy cd, OF assms(5)] by metis
  then show ?thesis
    using assms(3) by (simp add: journal_read_def Let_def)
qed

definition demo_long :: jset where
  "demo_long = (jset_new 7 3)\<lparr>js_entries := [\<lparr>re_hdr = \<lparr>eh_btree_type = 0, eh_entry_type = 0,
     eh_version = 1, eh_flags = 0, eh_payload_len = 5000, eh_has_last = 0, eh_has_prev = 0\<rparr>, re_payload = replicate 5000 1\<rparr>]\<rparr>"

theorem long_entry_hides_bucket_witness:
  "journal_read demo_codec (\<lambda>_. None) (\<lambda>_. ReadOk (take 4096 (serialize_padded demo_long))) 0 demo_fresh = Inr []"
proof -
  have "jset_ok demo_long" "4096 < data_size demo_long"
    by (simp_all add: jset_ok_def demo_long_def jset_new_def jset_with_magic_def entry_ok_def JSET_VERSION_def
        JSET_ENTRY_VERSION_def data_size_eq)
  moreover have "0 < length (sp_buckets (j_sp demo_fresh))"
    by (simp add: demo_fresh_def demo_journal_def journal_blank_def sp_new_def)
  ultimately show ?thesis
    using long_entry_hides_bucket[of demo_long 0 demo_fresh 0 "\<lambda>_. ReadOk (take 4096 (serialize_padded demo_long))" demo_codec "\<lambda>_. None"]
    by simp
qed

text \<open>Reading backwards from an end that holds no entry finds nothing at all.\<close>

lemma read_reverse_empty:
  assumes "rd (jd_addr (sp_buckets (j_sp j) ! unat i) + 255) = ReadOk buf" "deserialize legacy buf = Inr None"
  shows "journal_read_reverse cd legacy rd i j = Inr []"
proof -
  have "[0..<256] = [0..<255] @ [255 :: nat]"
    using upt_Suc_append[of 0 255] by (simp del: upt_Suc)
  then have "rev (bucket_blocks a) = (a + 255) # rev (map (\<lambda>k. a + of_nat k) [0..<255])" for a
    by (simp add: bucket_blocks_def BUCKET_BLOCKS_def del: upt_Suc)
  then show ?thesis
    using assms by (simp add: journal_read_reverse_def Let_def)
qed

text \<open>A blacklist entry is replayed as if it held keys: if its payload is not a key list, replay
  stops with an error.\<close>

lemma replay_stops_at_blacklist:
  assumes "\<not> already_applied rp js" "js_entries js = [e]" "eh_entry_type (re_hdr e) = entry_type_u8 Blacklist"
    "eh_btree_type (re_hdr e) = 0" "re_payload e \<noteq> []" "dec_keys cd (re_payload e) = None"
  shows "data_loop cd ins (js # jss) n rp eng = (False, n, rp, eng)"
  using assms by (simp add: Let_def decode_payload_def)

end
