(* ===== verification/OpenBucketProps.thy ===== *)
theory OpenBucketProps
  imports OpenBucket
begin

text \<open>
  The pool of open buckets is well formed (\<open>pool_ok\<close>): the free list visits exactly the
  invalid entries and hash chain \<open>s\<close> exactly the valid entries whose bucket hashes to \<open>s\<close>.
  Every operation keeps it, so every walk ends, and \<open>lookup\<close> answers what a scan of the
  whole pool would. The locale \<open>open_pool\<close> states what the allocator relies on: a finite map
  from handles to buckets, with \<open>alloc\<close>, \<open>put\<close> and \<open>lookup\<close>.
\<close>

subsection \<open>Reading an updated pool\<close>

lemma ob_at_upd:
  "unat i < length (entries p) \<Longrightarrow> ob_at (ob_upd i f p) j = (if j = i then f (ob_at p i) else ob_at p j)"
  by (auto simp: ob_upd_def nth_list_update word_unat_eq_iff)

lemma ob_upd_simps [simp]:
  "length (entries (ob_upd i f p)) = length (entries p)" "freelist_head (ob_upd i f p) = freelist_head p"
  "nr_free (ob_upd i f p) = nr_free p" "hash_slots (ob_upd i f p) = hash_slots p"
  "partial_list (ob_upd i f p) = partial_list p" "nr_partial (ob_upd i f p) = nr_partial p"
  "in_pool j (ob_upd i f p) = in_pool j p"
  by (simp_all add: ob_upd_def in_pool_def)

text \<open>Which bucket a handle keeps open.\<close>

definition ob_view :: "open_buckets \<Rightarrow> u16 \<Rightarrow> (u32 \<times> u32) option" where
  "ob_view p i = (if in_pool i p \<and> ob_valid (ob_at p i) then Some (ob_group (ob_at p i), ob_bucket (ob_at p i)) else None)"

abbreviation free_link :: "open_buckets \<Rightarrow> u16 \<Rightarrow> u16" where
  "free_link p \<equiv> \<lambda>i. ob_freelist (ob_at p i)"

abbreviation hash_link :: "open_buckets \<Rightarrow> u16 \<Rightarrow> u16" where
  "hash_link p \<equiv> \<lambda>i. ob_hash (ob_at p i)"

abbreviation key_slot :: "open_buckets \<Rightarrow> u16 \<Rightarrow> nat" where
  "key_slot p i \<equiv> hash_slot (ob_group (ob_at p i)) (ob_bucket (ob_at p i))"

definition free_ok :: "u16 list \<Rightarrow> open_buckets \<Rightarrow> bool" where
  "free_ok fl p \<longleftrightarrow> chain (free_link p) (freelist_head p) fl \<and> distinct fl \<and>
     set fl = {i. in_pool i p \<and> \<not> ob_valid (ob_at p i)} \<and> nr_free p = of_nat (length fl)"

definition slot_ok :: "nat \<Rightarrow> u16 list \<Rightarrow> open_buckets \<Rightarrow> bool" where
  "slot_ok s hs p \<longleftrightarrow> chain (hash_link p) (hash_slots p ! s) hs \<and> distinct hs \<and>
     set hs = {i. in_pool i p \<and> ob_valid (ob_at p i) \<and> key_slot p i = s}"

definition pool_ok :: "open_buckets \<Rightarrow> bool" where
  "pool_ok p \<longleftrightarrow> length (entries p) = 129 \<and> length (hash_slots p) = 128 \<and>
     (\<exists>fl. free_ok fl p) \<and> (\<forall>s < 128. \<exists>hs. slot_ok s hs p)"

lemma pool_okD:
  assumes "pool_ok p"
  shows "length (entries p) = 129" "length (hash_slots p) = 128" "\<exists>fl. free_ok fl p" "s < 128 \<Longrightarrow> \<exists>hs. slot_ok s hs p"
  using assms by (simp_all add: pool_ok_def)

text \<open>An update that leaves validity, key and links alone keeps the pool well formed.\<close>

definition link_same :: "(open_bucket \<Rightarrow> open_bucket) \<Rightarrow> bool" where
  "link_same f \<longleftrightarrow> (\<forall>e. ob_valid (f e) = ob_valid e \<and> ob_group (f e) = ob_group e \<and> ob_bucket (f e) = ob_bucket e \<and>
     ob_freelist (f e) = ob_freelist e \<and> ob_hash (f e) = ob_hash e)"

lemma link_same_upd:
  assumes "link_same f" "in_pool i p"
  shows "pool_ok (ob_upd i f p) = pool_ok p" "ob_view (ob_upd i f p) = ob_view p"
proof -
  have r: "unat i < length (entries p)" using assms(2) by (simp add: in_pool_def)
  have e: "ob_valid (ob_at (ob_upd i f p) j) = ob_valid (ob_at p j)" "ob_group (ob_at (ob_upd i f p) j) = ob_group (ob_at p j)"
    "ob_bucket (ob_at (ob_upd i f p) j) = ob_bucket (ob_at p j)" "ob_freelist (ob_at (ob_upd i f p) j) = ob_freelist (ob_at p j)"
    "ob_hash (ob_at (ob_upd i f p) j) = ob_hash (ob_at p j)" for j
    using assms(1) by (simp_all add: ob_at_upd[OF r] link_same_def)
  show "pool_ok (ob_upd i f p) = pool_ok p" by (simp add: pool_ok_def free_ok_def slot_ok_def e)
  show "ob_view (ob_upd i f p) = ob_view p" by (rule ext) (simp add: ob_view_def e)
qed

lemma pool_ok_partial [simp]:
  "pool_ok (p\<lparr>partial_list := xs\<rparr>) = pool_ok p" "pool_ok (p\<lparr>nr_partial := n\<rparr>) = pool_ok p"
  "ob_view (p\<lparr>partial_list := xs\<rparr>) = ob_view p" "ob_view (p\<lparr>nr_partial := n\<rparr>) = ob_view p"
  by (simp_all add: pool_ok_def free_ok_def slot_ok_def in_pool_def ob_view_def fun_eq_iff)

subsection \<open>Walks\<close>

lemma chain_find_chain:
  assumes "chain nx c (xs @ idx # ys)" "idx \<notin> set xs" "\<forall>x \<in> set xs. unat x < n"
  shows "chain_find n nx idx prev c = Some (last (prev # xs), idx)"
  using assms
proof (induction xs arbitrary: c prev)
  case Nil
  then show ?case by (subst chain_find.simps) simp
next
  case (Cons x xs)
  then have "chain_find n nx idx x (nx x) = Some (last (x # xs), idx)" by simp
  moreover have "c = x" "x \<noteq> 0" "x \<noteq> idx" "unat x < n" using Cons.prems by auto
  ultimately show ?case using chain_find.simps[of n nx idx prev c] by (simp add: NULL_IDX_def)
qed

lemma lookup_from_chain:
  assumes "chain (hash_link p) c hs" "\<forall>x \<in> set hs. unat x < length (entries p)"
  shows "lookup_from p g b c =
    Some (List.find (\<lambda>i. ob_group (ob_at p i) = g \<and> ob_bucket (ob_at p i) = b \<and> ob_valid (ob_at p i)) hs)"
  using assms
proof (induction hs arbitrary: c)
  case Nil
  then show ?case by (subst lookup_from.simps) (simp add: NULL_IDX_def)
next
  case (Cons x xs)
  then show ?case by (subst lookup_from.simps) (simp add: NULL_IDX_def)
qed

definition ob_match :: "open_buckets \<Rightarrow> u32 \<Rightarrow> u32 \<Rightarrow> u16 \<Rightarrow> bool" where
  "ob_match p g b i \<longleftrightarrow> ob_group (ob_at p i) = g \<and> ob_bucket (ob_at p i) = b \<and> ob_valid (ob_at p i)"

lemma lookup_find:
  assumes "pool_ok p"
  shows "\<exists>hs. slot_ok (hash_slot g b) hs p \<and> ob_lookup g b p = Some (List.find (ob_match p g b) hs)"
proof -
  obtain hs where hs: "slot_ok (hash_slot g b) hs p" using pool_okD(4)[OF assms(1) hash_slot_less] by blast
  then have "ob_lookup g b p = Some (List.find (ob_match p g b) hs)"
    using lookup_from_chain[of p "hash_slots p ! hash_slot g b" hs g b]
    by (simp add: ob_lookup_def slot_ok_def ob_match_def[abs_def] in_pool_def)
  with hs show ?thesis by blast
qed

lemma lookup_Some:
  assumes "pool_ok p" "ob_lookup g b p = Some (Some i)"
  shows "ob_view p i = Some (g, b)"
proof -
  obtain hs where hs: "slot_ok (hash_slot g b) hs p" "ob_lookup g b p = Some (List.find (ob_match p g b) hs)"
    using lookup_find[OF assms(1)] by blast
  with assms(2) have "List.find (ob_match p g b) hs = Some i" by simp
  then have "i \<in> set hs" "ob_match p g b i" using find_Some_iff[of "ob_match p g b" hs i] nth_mem by blast+
  with hs show ?thesis by (simp add: slot_ok_def ob_view_def ob_match_def)
qed

lemma lookup_total: "pool_ok p \<Longrightarrow> ob_lookup g b p \<noteq> None"
  using lookup_find[of p g b] by auto

lemma lookup_None:
  assumes "pool_ok p"
  shows "ob_lookup g b p = Some None \<longleftrightarrow> (\<forall>i. ob_view p i \<noteq> Some (g, b))"
proof -
  obtain hs where hs: "slot_ok (hash_slot g b) hs p" "ob_lookup g b p = Some (List.find (ob_match p g b) hs)"
    using lookup_find[OF assms(1)] by blast
  then have "ob_lookup g b p = Some None \<longleftrightarrow> (\<forall>i \<in> set hs. \<not> ob_match p g b i)"
    by (auto simp: find_None_iff)
  also have "\<dots> \<longleftrightarrow> (\<forall>i. ob_view p i \<noteq> Some (g, b))"
    using hs(1) by (auto simp: slot_ok_def ob_view_def ob_match_def)
  finally show ?thesis .
qed

subsection \<open>Taking an entry\<close>

lemma alloc_cases:
  "freelist_head p = 0 \<Longrightarrow> ob_alloc g b sec gn p = (Inl (SpaceExhausted 128), p)"
  "freelist_head p \<noteq> 0 \<Longrightarrow> ob_alloc g b sec gn p =
     (Inr (freelist_head p),
      (ob_upd (freelist_head p) (\<lambda>e. e\<lparr>ob_pin := 1, ob_valid := True, ob_group := g, ob_bucket := b,
          ob_sectors := sec, ob_gen := gn, ob_hash := hash_slots p ! hash_slot g b\<rparr>) p)
        \<lparr>freelist_head := free_link p (freelist_head p),
         hash_slots := (hash_slots p)[hash_slot g b := freelist_head p], nr_free := nr_free p - 1\<rparr>)"
  by (simp_all add: ob_alloc_def NULL_IDX_def OPEN_BUCKETS_COUNT_def Let_def ob_upd_def)

lemma free_head:
  assumes "pool_ok p" "freelist_head p \<noteq> 0"
  obtains fl where "free_ok (freelist_head p # fl) p" "chain (free_link p) (free_link p (freelist_head p)) fl"
    "freelist_head p \<notin> set fl" "in_pool (freelist_head p) p" "\<not> ob_valid (ob_at p (freelist_head p))"
proof -
  obtain gl where g: "free_ok gl p" using pool_okD(3)[OF assms(1)] by blast
  then obtain fl where "gl = freelist_head p # fl" using assms(2) by (cases gl) (auto simp: free_ok_def)
  with g show ?thesis by (intro that[of fl]) (auto simp: free_ok_def)
qed

lemma alloc_ok:
  assumes ok: "pool_ok p" and a: "ob_alloc g b sec gn p = (Inr i, p')"
  shows "pool_ok p'" "ob_view p i = None" "ob_view p' = (ob_view p)(i \<mapsto> (g, b))" "i = freelist_head p" "i \<noteq> 0"
proof -
  have nz: "freelist_head p \<noteq> 0" using a alloc_cases(1)[of p] by fastforce
  let ?i = "freelist_head p" and ?s = "hash_slot g b"
  show i: "i = ?i" and "i \<noteq> 0" using a nz by (simp_all add: alloc_cases(2))
  have p': "p' = (ob_upd ?i (\<lambda>e. e\<lparr>ob_pin := 1, ob_valid := True, ob_group := g, ob_bucket := b,
          ob_sectors := sec, ob_gen := gn, ob_hash := hash_slots p ! ?s\<rparr>) p)
        \<lparr>freelist_head := free_link p ?i, hash_slots := (hash_slots p)[?s := ?i], nr_free := nr_free p - 1\<rparr>"
    using a unfolding alloc_cases(2)[OF nz] by auto
  obtain fl where fl: "free_ok (?i # fl) p" "chain (free_link p) (free_link p ?i) fl" "?i \<notin> set fl"
    "in_pool ?i p" "\<not> ob_valid (ob_at p ?i)" using free_head[OF ok nz] .
  have r: "unat ?i < length (entries p)" using fl(4) by (simp add: in_pool_def)
  have at: "ob_at p' j = (if j = ?i then (ob_at p ?i)\<lparr>ob_pin := 1, ob_valid := True, ob_group := g, ob_bucket := b,
          ob_sectors := sec, ob_gen := gn, ob_hash := hash_slots p ! ?s\<rparr> else ob_at p j)" for j
    unfolding p' using ob_at_upd[OF r] by simp
  have ip: "in_pool j p' = in_pool j p" for j by (simp add: p' in_pool_def)
  have fields: "freelist_head p' = free_link p ?i" "hash_slots p' = (hash_slots p)[?s := ?i]" "nr_free p' = nr_free p - 1"
    "length (entries p') = length (entries p)" by (simp_all add: p')
  have hl: "hash_link p' = (hash_link p)(?i := hash_slots p ! ?s)" and frl: "free_link p' = free_link p"
    by (auto simp: at)
  have "set fl = {j. in_pool j p' \<and> \<not> ob_valid (ob_at p' j)}"
    using fl(1,3) by (auto simp: free_ok_def ip at)
  then have "free_ok fl p'"
    using fl(1,2) unfolding free_ok_def frl by (simp add: fields)
  moreover have "\<exists>hs. slot_ok s hs p'" if s: "s < 128" for s
  proof -
    obtain hs where hs: "slot_ok s hs p" using pool_okD(4)[OF ok s] by blast
    then have ni: "?i \<notin> set hs" using fl(5) by (simp add: slot_ok_def)
    have "set (if s = ?s then ?i # hs else hs) = {j. in_pool j p' \<and> ob_valid (ob_at p' j) \<and> key_slot p' j = s}"
      using hs ni fl(4) by (auto simp: slot_ok_def ip at)
    moreover have "chain (hash_link p) (hash_slots p ! s) hs" "distinct hs" using hs by (simp_all add: slot_ok_def)
    then have "chain (hash_link p') (hash_slots p' ! s) (if s = ?s then ?i # hs else hs)"
      "distinct (if s = ?s then ?i # hs else hs)"
      using ni s nz pool_okD(2)[OF ok] unfolding hl by (auto simp: fields)
    ultimately have "slot_ok s (if s = ?s then ?i # hs else hs) p'" unfolding slot_ok_def by blast
    then show ?thesis by blast
  qed
  ultimately show "pool_ok p'" using pool_okD(1,2)[OF ok] by (auto simp: pool_ok_def fields)
  show "ob_view p i = None" using fl(5) i by (simp add: ob_view_def)
  show "ob_view p' = (ob_view p)(i \<mapsto> (g, b))" using fl(4) i by (auto simp: ob_view_def ip at fun_eq_iff)
qed

subsection \<open>Returning an entry\<close>

text \<open>What \<open>put\<close> changes, given the position of the entry in its chain.\<close>

lemma put_result:
  assumes ok: "pool_ok p" and v: "in_pool i p" "ob_valid (ob_at p i)" and
    h: "slot_ok (key_slot p i) (xs @ i # ys) p"
  obtains p' where "ob_put i p = Some p'" "length (entries p') = length (entries p)"
    "freelist_head p' = i" "nr_free p' = nr_free p + 1"
    "hash_slots p' = (if xs = [] then (hash_slots p)[key_slot p i := hash_link p i] else hash_slots p)"
    "\<And>j. ob_at p' j =
       (if j = i then (ob_at p i)\<lparr>ob_valid := False, ob_pin := 0, ob_partial := False, ob_freelist := freelist_head p\<rparr>
        else if xs \<noteq> [] \<and> j = last xs then (ob_at p j)\<lparr>ob_hash := hash_link p i\<rparr> else ob_at p j)"
proof -
  let ?s = "key_slot p i"
  define p1 where "p1 = ob_upd i (\<lambda>e. e\<lparr>ob_valid := False, ob_pin := 0, ob_partial := False\<rparr>) p"
  define p2 where "p2 = (if xs = [] then p1\<lparr>hash_slots := (hash_slots p1)[?s := hash_link p i]\<rparr>
      else ob_upd (last xs) (\<lambda>e. e\<lparr>ob_hash := hash_link p i\<rparr>) p1)"
  have ch: "chain (hash_link p) (hash_slots p ! ?s) (xs @ i # ys)" and d: "distinct (xs @ i # ys)"
    and set: "set (xs @ i # ys) = {j. in_pool j p \<and> ob_valid (ob_at p j) \<and> key_slot p j = ?s}"
    using h by (simp_all add: slot_ok_def)
  have r: "unat i < length (entries p)" using v(1) by (simp add: in_pool_def)
  have at1: "ob_at p1 j = (if j = i then (ob_at p i)\<lparr>ob_valid := False, ob_pin := 0, ob_partial := False\<rparr> else ob_at p j)" for j
    unfolding p1_def by (rule ob_at_upd[OF r])
  have hl1: "hash_link p1 = hash_link p" and k1: "key_slot p1 i = ?s" by (simp_all add: at1 fun_eq_iff)
  have l: "in_pool (last xs) p \<and> last xs \<noteq> i \<and> last xs \<noteq> 0" if "xs \<noteq> []"
  proof -
    have "last xs \<in> set xs" using that by simp
    then have "last xs \<in> set (xs @ i # ys)" "last xs \<noteq> i" using d by auto
    then show ?thesis unfolding set by (simp add: in_pool_def NULL_IDX_def)
  qed
  have cf: "chain_find (length (entries p1)) (hash_link p1) i NULL_IDX (hash_slots p1 ! ?s) = Some (last (NULL_IDX # xs), i)"
  proof -
    have "\<forall>x \<in> set xs. unat x < length (entries p)" using set by (auto simp: in_pool_def)
    moreover have "i \<notin> set xs" using d by simp
    ultimately show ?thesis unfolding hl1 using chain_find_chain[OF ch, of "length (entries p)" NULL_IDX] by (simp add: p1_def)
  qed
  have "hash_link p1 i = hash_link p i" using hl1 by (simp add: fun_eq_iff)
  then have res: "ob_put i p = Some ((ob_upd i (\<lambda>e. e\<lparr>ob_freelist := freelist_head p2\<rparr>) p2)
      \<lparr>freelist_head := i, nr_free := nr_free p2 + 1\<rparr>)"
    using v(1) l cf k1 unfolding ob_put_def p1_def[symmetric] p2_def
    by (simp add: Let_def NULL_IDX_def last.simps)
  have f2: "freelist_head p2 = freelist_head p" "nr_free p2 = nr_free p" "length (entries p2) = length (entries p)"
    "hash_slots p2 = (if xs = [] then (hash_slots p)[?s := hash_link p i] else hash_slots p)"
    by (simp_all add: p2_def p1_def)
  have at2: "ob_at p2 j = (if xs \<noteq> [] \<and> j = last xs then (ob_at p j)\<lparr>ob_hash := hash_link p i\<rparr> else ob_at p1 j)" for j
  proof (cases "xs = []")
    case False
    then have "unat (last xs) < length (entries p1)" using l by (simp add: p1_def in_pool_def)
    from ob_at_upd[OF this] False l show ?thesis by (simp add: p2_def at1)
  qed (simp add: p2_def)
  have "unat i < length (entries p2)" using r f2(3) by simp
  note ob_at_upd[OF this, of "\<lambda>e. e\<lparr>ob_freelist := freelist_head p\<rparr>"]
  then have at3: "ob_at (ob_upd i (\<lambda>e. e\<lparr>ob_freelist := freelist_head p\<rparr>) p2) j =
       (if j = i then (ob_at p i)\<lparr>ob_valid := False, ob_pin := 0, ob_partial := False, ob_freelist := freelist_head p\<rparr>
        else if xs \<noteq> [] \<and> j = last xs then (ob_at p j)\<lparr>ob_hash := hash_link p i\<rparr> else ob_at p j)" for j
    using l by (cases "j = i"; cases "xs = []") (auto simp: at1 at2)
  show ?thesis by (rule that[OF res]) (simp_all add: f2 at3)
qed

lemma put_ok:
  assumes ok: "pool_ok p" and v: "ob_view p i \<noteq> None"
  obtains p' where "ob_put i p = Some p'" "pool_ok p'" "ob_view p' = (ob_view p)(i := None)"
proof -
  let ?s = "key_slot p i"
  have iv: "in_pool i p" "ob_valid (ob_at p i)" using v by (auto simp: ob_view_def split: if_splits)
  obtain hs where hs: "slot_ok ?s hs p" using pool_okD(4)[OF ok hash_slot_less] by blast
  then have "i \<in> set hs" using iv by (simp add: slot_ok_def)
  then obtain xs ys where xy: "hs = xs @ i # ys" by (auto simp: in_set_conv_decomp)
  note h = hs[unfolded xy]
  obtain p' where p': "ob_put i p = Some p'" and len: "length (entries p') = length (entries p)"
    and hd: "freelist_head p' = i" and nf: "nr_free p' = nr_free p + 1"
    and sl: "hash_slots p' = (if xs = [] then (hash_slots p)[?s := hash_link p i] else hash_slots p)"
    and at: "\<And>j. ob_at p' j =
       (if j = i then (ob_at p i)\<lparr>ob_valid := False, ob_pin := 0, ob_partial := False, ob_freelist := freelist_head p\<rparr>
        else if xs \<noteq> [] \<and> j = last xs then (ob_at p j)\<lparr>ob_hash := hash_link p i\<rparr> else ob_at p j)"
    by (rule put_result[OF ok iv h], rule that) assumption+
  have ip: "in_pool j p' = in_pool j p" for j by (simp add: in_pool_def len)
  have nz: "i \<noteq> 0" using iv by (simp add: in_pool_def NULL_IDX_def)
  have valid: "ob_valid (ob_at p' j) \<longleftrightarrow> ob_valid (ob_at p j) \<and> j \<noteq> i" and key: "key_slot p' j = key_slot p j"
    "ob_group (ob_at p' j) = ob_group (ob_at p j)" "ob_bucket (ob_at p' j) = ob_bucket (ob_at p j)" for j
    using at[of j] by auto
  have ch: "chain (hash_link p) (hash_slots p ! ?s) (xs @ i # ys)" and d: "distinct (xs @ i # ys)"
    using h by (simp_all add: slot_ok_def)
  have lx: "last xs \<noteq> i" if "xs \<noteq> []" using d that last_in_set[OF that] by auto
  have frl: "free_link p' = (free_link p)(i := freelist_head p)" by (auto simp: at)
  have hl: "hash_link p' = (if xs = [] then hash_link p else (hash_link p)(last xs := hash_link p i))"
    using lx by (auto simp: at fun_eq_iff)
  obtain fl where fl: "free_ok fl p" using pool_okD(3)[OF ok] by blast
  have ni: "i \<notin> set fl" using fl iv by (simp add: free_ok_def)
  have "set (i # fl) = {j. in_pool j p' \<and> \<not> ob_valid (ob_at p' j)}"
    using fl iv by (auto simp: free_ok_def ip valid)
  moreover have "chain (free_link p') i (i # fl)" unfolding frl using fl ni nz by (simp add: free_ok_def)
  moreover have "nr_free p' = of_nat (length (i # fl))" using fl nf by (simp add: free_ok_def)
  moreover have "distinct (i # fl)" using fl ni by (simp add: free_ok_def)
  ultimately have "free_ok (i # fl) p'" unfolding free_ok_def hd by blast
  moreover have "\<exists>gs. slot_ok s gs p'" if s: "s < 128" for s
  proof (cases "s = ?s")
    case True
    have "set (xs @ ys) = {j. in_pool j p' \<and> ob_valid (ob_at p' j) \<and> key_slot p' j = s}"
    proof -
      have "set (xs @ ys) = set (xs @ i # ys) - {i}" using d by auto
      also have "\<dots> = {j. in_pool j p \<and> ob_valid (ob_at p j) \<and> key_slot p j = ?s} - {i}" using h by (simp add: slot_ok_def)
      finally show ?thesis by (auto simp: ip valid key True)
    qed
    moreover have "chain (hash_link p') (hash_slots p' ! s) (xs @ ys)"
    proof (cases "xs = []")
      case xs: True
      then show ?thesis unfolding hl using ch True s pool_okD(2)[OF ok] by (simp add: sl)
    next
      case False
      then obtain zs q where zs: "xs = zs @ [q]" by (cases xs rule: rev_cases) auto
      have "chain ((hash_link p)(q := hash_link p i)) (hash_slots p ! ?s) (zs @ q # ys)"
        using chain_unlink[of "hash_link p" "hash_slots p ! ?s" zs q i ys] ch d zs by simp
      then show ?thesis unfolding hl using True zs by (simp add: sl)
    qed
    moreover have "distinct (xs @ ys)" using d by simp
    ultimately show ?thesis unfolding slot_ok_def by blast
  next
    case False
    obtain gs where gs: "slot_ok s gs p" using pool_okD(4)[OF ok s] by blast
    have "last xs \<notin> set gs" if "xs \<noteq> []"
    proof -
      have "last xs \<in> set (xs @ i # ys)" using that by simp
      then have "key_slot p (last xs) = ?s" using h by (simp add: slot_ok_def del: set_append)
      then show ?thesis using gs False by (simp add: slot_ok_def)
    qed
    then have "chain (hash_link p') (hash_slots p' ! s) gs"
      unfolding hl using gs False s by (simp add: slot_ok_def sl)
    moreover have "set gs = {j. in_pool j p' \<and> ob_valid (ob_at p' j) \<and> key_slot p' j = s}"
      using gs False by (auto simp: slot_ok_def ip valid key)
    ultimately show ?thesis using gs unfolding slot_ok_def by blast
  qed
  ultimately have "pool_ok p'" using pool_okD(1,2)[OF ok] by (auto simp: pool_ok_def len sl)
  moreover have "ob_view p' = (ob_view p)(i := None)" by (auto simp: ob_view_def ip valid key fun_eq_iff)
  ultimately show ?thesis using p' that by blast
qed

subsection \<open>The empty pool\<close>

lemma new_at:
  assumes "0 < k" "k \<le> 128"
  shows "entries pool_new ! k = ob_new\<lparr>ob_freelist := if k < 128 then of_nat (k + 1) else 0\<rparr>"
  using assms by (cases "k = 128") (auto simp: pool_new_def OPEN_BUCKETS_COUNT_def nth_Cons' nth_append ob_new_def)

lemma new_at_0: "entries pool_new ! 0 = ob_new"
  by (simp add: pool_new_def)

lemma new_len: "length (entries pool_new) = 129"
  by (simp add: pool_new_def OPEN_BUCKETS_COUNT_def)

lemma idx_unat: "k < 129 \<Longrightarrow> unat (of_nat k :: u16) = k"
  by (simp add: unsigned_of_nat take_bit_nat_eq_self)

lemma new_invalid: "unat i < 129 \<Longrightarrow> \<not> ob_valid (ob_at pool_new i)"
  by (cases "unat i = 0") (simp_all add: new_at new_at_0 ob_new_def)

lemma new_free_chain:
  assumes "0 < k" "k \<le> 128"
  shows "chain (free_link pool_new) (of_nat k) (map of_nat [k..<129])"
  using assms
proof (induction "128 - k" arbitrary: k)
  case 0
  then have "k = 128" by simp
  moreover have "[128..<129] = [128::nat]" by (simp add: upt_rec)
  ultimately show ?case by (simp add: new_at)
next
  case (Suc n)
  then have "chain (free_link pool_new) (of_nat (k + 1)) (map of_nat [k + 1..<129])"
    using Suc.hyps(1)[of "k + 1"] Suc.prems by linarith
  moreover have "free_link pool_new (of_nat k) = of_nat (k + 1)"
    using Suc.prems Suc.hyps(2) by (simp add: idx_unat new_at)
  moreover have "[k..<129] = k # [k + 1..<129]" using Suc.prems by (simp add: upt_rec)
  moreover have "(of_nat k :: u16) \<noteq> 0"
    using idx_unat[of k] Suc.prems by auto
  ultimately show ?case by simp
qed

lemma pool_new_ok: "pool_ok pool_new" "ob_view pool_new = (\<lambda>_. None)" "partial_list pool_new = []"
proof -
  have d: "distinct (map of_nat [1..<129] :: u16 list)"
    by (auto simp: distinct_map inj_on_def) (metis idx_unat)
  have "set (map of_nat [1..<129] :: u16 list) = {i. in_pool i pool_new}"
  proof -
    have "i \<in> of_nat ` {1..<129}" if "in_pool i pool_new" for i :: u16
    proof (rule image_eqI)
      show "i = of_nat (unat i)" by simp
      show "unat i \<in> {1..<129}" using that by (simp add: in_pool_def new_len NULL_IDX_def Suc_leI unat_gt_0)
    qed
    moreover have "in_pool (of_nat k) pool_new" if "k \<in> {1..<129}" for k
      using that idx_unat[of k] by (auto simp: in_pool_def new_len NULL_IDX_def)
    ultimately show ?thesis by auto
  qed
  then have "free_ok (map of_nat [1..<129]) pool_new"
    using new_free_chain[of 1] d new_invalid by (auto simp: free_ok_def pool_new_def OPEN_BUCKETS_COUNT_def in_pool_def)
  moreover have "slot_ok s [] pool_new" if "s < 128" for s
    using that new_invalid by (auto simp: slot_ok_def in_pool_def new_len) (simp add: pool_new_def OPEN_BUCKETS_COUNT_def)
  moreover have "length (hash_slots pool_new) = 128" by (simp add: pool_new_def OPEN_BUCKETS_COUNT_def)
  ultimately show "pool_ok pool_new" unfolding pool_ok_def using new_len by blast
  show "ob_view pool_new = (\<lambda>_. None)" using new_invalid by (auto simp: ob_view_def in_pool_def new_len)
  show "partial_list pool_new = []" by (simp add: pool_new_def)
qed

subsection \<open>The contract of the pool\<close>

text \<open>
  What a client of the pool relies on: a finite map from handles to the buckets they keep open.
  \<open>exclusive\<close> says that no bucket is open under two handles.
\<close>

locale open_pool =
  fixes ok :: "'s \<Rightarrow> bool" and view :: "'s \<Rightarrow> 'h \<Rightarrow> 'k option"
    and take :: "'k \<Rightarrow> 's \<Rightarrow> ('h \<times> 's) option" and give :: "'h \<Rightarrow> 's \<Rightarrow> 's option"
    and find :: "'k \<Rightarrow> 's \<Rightarrow> 'h option option"
  assumes take_law: "ok s \<Longrightarrow> take k s = Some (h, s') \<Longrightarrow> ok s' \<and> view s h = None \<and> view s' = (view s)(h \<mapsto> k)"
    and give_law: "ok s \<Longrightarrow> view s h \<noteq> None \<Longrightarrow> \<exists>s'. give h s = Some s' \<and> ok s' \<and> view s' = (view s)(h := None)"
    and find_law: "ok s \<Longrightarrow> \<exists>r. find k s = Some r \<and> (r = None \<longleftrightarrow> k \<notin> ran (view s)) \<and> (\<forall>h. r = Some h \<longrightarrow> view s h = Some k)"
begin

definition exclusive :: "'s \<Rightarrow> bool" where
  "exclusive s \<longleftrightarrow> inj_on (view s) (dom (view s))"

lemma find_exclusive:
  assumes "ok s" "exclusive s"
  shows "find k s = Some (Some h) \<longleftrightarrow> view s h = Some k"
proof
  obtain r where r: "find k s = Some r" "r = None \<longleftrightarrow> k \<notin> ran (view s)" "\<forall>h. r = Some h \<longrightarrow> view s h = Some k"
    using find_law[OF assms(1)] by blast
  show "view s h = Some k" if "find k s = Some (Some h)" using that r by simp
  assume h: "view s h = Some k"
  then have "k \<in> ran (view s)" by (auto simp: ran_def)
  then obtain h' where "r = Some h'" using r(2) by auto
  moreover then have "h' = h" using r(3) h assms(2) unfolding exclusive_def by (metis domI inj_onD)
  ultimately show "find k s = Some (Some h)" using r(1) by simp
qed

lemma find_none: "ok s \<Longrightarrow> find k s = Some None \<longleftrightarrow> k \<notin> ran (view s)"
  using find_law[of s k] by auto

lemma take_exclusive:
  assumes "ok s" "exclusive s" "find k s = Some None" "take k s = Some (h, s')"
  shows "exclusive s'" "find k s' = Some (Some h)"
proof -
  have k: "k \<notin> ran (view s)" using find_none[OF assms(1)] assms(3) by simp
  have t: "ok s'" "view s' = (view s)(h \<mapsto> k)" using take_law[OF assms(1,4)] by simp_all
  show e: "exclusive s'"
    using assms(2) k unfolding exclusive_def t(2) inj_on_def by (auto simp: ran_def)
  show "find k s' = Some (Some h)" using find_exclusive[OF t(1) e] t(2) by simp
qed

lemma give_exclusive:
  assumes "ok s" "exclusive s" "view s h = Some k" "give h s = Some s'"
  shows "exclusive s'" "find k s' = Some None"
proof -
  obtain t where "give h s = Some t" "ok t" "view t = (view s)(h := None)"
    using give_law[OF assms(1), of h] assms(3) by auto
  then have t: "ok s'" "view s' = (view s)(h := None)" using assms(4) by simp_all
  show "exclusive s'" using assms(2) unfolding exclusive_def t(2) inj_on_def by auto
  have "k \<notin> ran (view s')"
    using assms(2,3) unfolding t(2) exclusive_def inj_on_def by (auto simp: ran_def dom_def split: if_splits)
  then show "find k s' = Some None" using find_none[OF t(1)] by simp
qed

lemma take_give:
  assumes "ok s" "take k s = Some (h, s')"
  shows "\<exists>s''. give h s' = Some s'' \<and> ok s'' \<and> view s'' = view s"
  using take_law[OF assms] give_law[of s' h] by (auto simp: fun_upd_idem)

end

text \<open>The pool with the freshly taken bucket's size and generation fixed.\<close>

definition ob_take :: "u32 \<Rightarrow> u32 \<Rightarrow> u32 \<times> u32 \<Rightarrow> open_buckets \<Rightarrow> (u16 \<times> open_buckets) option" where
  "ob_take sec gn k p = (case ob_alloc (fst k) (snd k) sec gn p of (Inl _, _) \<Rightarrow> None | (Inr i, p') \<Rightarrow> Some (i, p'))"

lemma ob_take_Some: "ob_take sec gn k p = Some (h, p') \<longleftrightarrow> ob_alloc (fst k) (snd k) sec gn p = (Inr h, p')"
  by (auto simp: ob_take_def split: prod.splits sum.splits)

definition ob_find :: "u32 \<times> u32 \<Rightarrow> open_buckets \<Rightarrow> u16 option option" where
  "ob_find k = ob_lookup (fst k) (snd k)"

interpretation obp: open_pool pool_ok ob_view "ob_take sec gn" ob_put ob_find for sec gn
proof
  show "pool_ok s' \<and> ob_view s h = None \<and> ob_view s' = (ob_view s)(h \<mapsto> k)"
    if "pool_ok s" "ob_take sec gn k s = Some (h, s')" for s k h s'
    using that(2) alloc_ok(1-3)[OF that(1), of "fst k" "snd k" sec gn h s'] by (simp add: ob_take_Some)
  show "\<exists>s'. ob_put h s = Some s' \<and> pool_ok s' \<and> ob_view s' = (ob_view s)(h := None)"
    if "pool_ok s" "ob_view s h \<noteq> None" for s h
    using put_ok[OF that] by blast
  show "\<exists>r. ob_find k s = Some r \<and> (r = None \<longleftrightarrow> k \<notin> ran (ob_view s)) \<and> (\<forall>h. r = Some h \<longrightarrow> ob_view s h = Some k)"
    if ok: "pool_ok s" for s k
  proof -
    obtain r where r: "ob_lookup (fst k) (snd k) s = Some r" using lookup_total[OF ok] by blast
    then show ?thesis using lookup_None[OF ok, of "fst k" "snd k"] lookup_Some[OF ok] by (auto simp: ob_find_def ran_def)
  qed
qed

subsection \<open>The remaining operations\<close>

definition pool_wf :: "open_buckets \<Rightarrow> bool" where
  "pool_wf p \<longleftrightarrow> pool_ok p \<and> (\<forall>i \<in> set (partial_list p). in_pool i p)"

lemma pool_wf_new: "pool_wf pool_new"
  by (simp add: pool_wf_def pool_new_ok)

lemma pin_link_same: "link_same (\<lambda>e. e\<lparr>ob_pin := f e\<rparr>)" "link_same (\<lambda>e. e\<lparr>ob_sectors := f e\<rparr>)"
  "link_same (\<lambda>e. e\<lparr>ob_partial := b\<rparr>)" "link_same (\<lambda>e. e\<lparr>ob_partial := b, ob_pin := f e\<rparr>)"
  by (simp_all add: link_same_def)

lemma upd_wf:
  "link_same f \<Longrightarrow> in_pool i p \<Longrightarrow> pool_wf p \<Longrightarrow> pool_wf (ob_upd i f p) \<and> ob_view (ob_upd i f p) = ob_view p"
  by (simp add: pool_wf_def link_same_upd)

lemma view_in_pool: "ob_view p i \<noteq> None \<Longrightarrow> in_pool i p \<and> ob_valid (ob_at p i)"
  by (auto simp: ob_view_def split: if_splits)

lemma put_partial_list: "ob_put i p = Some p' \<Longrightarrow> partial_list p' = partial_list p \<and> length (entries p') = length (entries p)"
  by (auto simp: ob_put_def Let_def split: if_splits option.splits prod.splits)

lemma alloc_partial_list:
  "ob_alloc g b sec gn p = (r, p') \<Longrightarrow> partial_list p' = partial_list p \<and> length (entries p') = length (entries p)"
  by (cases "freelist_head p = 0") (auto simp: alloc_cases)

lemma alloc_wf:
  assumes "pool_wf p" "ob_alloc g b sec gn p = (r, p')"
  shows "pool_wf p'"
proof (cases r)
  case (Inl e)
  then show ?thesis using assms by (cases "freelist_head p = 0") (simp_all add: alloc_cases)
next
  case (Inr i)
  then show ?thesis using assms alloc_ok(1)[of p] alloc_partial_list[OF assms(2)] by (auto simp: pool_wf_def in_pool_def)
qed

lemma put_wf:
  assumes "pool_wf p" "ob_view p i \<noteq> None"
  shows "\<exists>p'. ob_put i p = Some p' \<and> pool_wf p' \<and> ob_view p' = (ob_view p)(i := None)"
proof -
  obtain p' where "ob_put i p = Some p'" "pool_ok p'" "ob_view p' = (ob_view p)(i := None)"
    using put_ok assms by (metis pool_wf_def)
  then show ?thesis using put_partial_list[of i p p'] assms(1) by (auto simp: pool_wf_def in_pool_def)
qed

lemma dec_pin_wf:
  assumes "pool_wf p" "ob_view p i \<noteq> None"
  shows "\<exists>r p'. dec_pin_and_put i p = Some (r, p') \<and> pool_wf p' \<and> (r \<longleftrightarrow> ob_pin (ob_at p i) = 1) \<and>
     ob_view p' = (if r then (ob_view p)(i := None) else ob_view p)"
proof -
  let ?q = "ob_upd i (\<lambda>e. e\<lparr>ob_pin := ob_pin e - 1\<rparr>) p"
  have i: "in_pool i p" using view_in_pool[OF assms(2)] by simp
  have q: "pool_wf ?q" "ob_view ?q = ob_view p" using upd_wf[OF pin_link_same(1) i assms(1)] by simp_all
  obtain p' where "ob_put i ?q = Some p'" "pool_wf p'" "ob_view p' = (ob_view ?q)(i := None)"
    using put_wf[OF q(1)] q(2) assms(2) by auto
  then show ?thesis using i q by (auto simp: dec_pin_and_put_def Let_def in_pool_def)
qed

lemma take_loop_wf:
  assumes "pool_wf (p\<lparr>partial_list := rev xs\<rparr>)" "take_loop xs p = (r, p')"
  shows "pool_wf p' \<and> ob_view p' = ob_view p \<and>
    (\<forall>i g b. r = Some (i, g, b) \<longrightarrow> ob_view p i = Some (g, b) \<and> 0 < ob_sectors (ob_at p i) \<and> i \<in> set xs)"
  using assms
proof (induction xs arbitrary: p)
  case (Cons i rest)
  have i: "in_pool i p" and ok: "pool_ok p" and rest: "\<forall>j \<in> set rest. in_pool j p"
    using Cons.prems(1) by (auto simp: pool_wf_def in_pool_def)
  show ?case
  proof (cases "ob_valid (ob_at p i) \<and> 0 < ob_sectors (ob_at p i)")
    case True
    let ?q = "ob_upd i (\<lambda>e. e\<lparr>ob_partial := False, ob_pin := ob_pin e + 1\<rparr>) p"
    have "pool_ok ?q" "ob_view ?q = ob_view p" using link_same_upd[OF pin_link_same(4) i] ok by simp_all
    moreover have "ob_group (ob_at ?q i) = ob_group (ob_at p i)" "ob_bucket (ob_at ?q i) = ob_bucket (ob_at p i)"
      using i by (simp_all add: ob_at_upd in_pool_def)
    moreover have "r = Some (i, ob_group (ob_at p i), ob_bucket (ob_at p i))"
      "p' = ?q\<lparr>partial_list := rev rest, nr_partial := nr_partial p - 1\<rparr>"
      using True Cons.prems(2) calculation(3,4) by (auto simp: Let_def)
    moreover have "ob_view p i = Some (ob_group (ob_at p i), ob_bucket (ob_at p i))" using i True by (simp add: ob_view_def)
    ultimately show ?thesis using True rest by (simp add: pool_wf_def in_pool_def)
  next
    case False
    let ?q = "p\<lparr>nr_partial := nr_partial p - 1\<rparr>"
    have "pool_wf (?q\<lparr>partial_list := rev rest\<rparr>)" using ok rest by (auto simp: pool_wf_def in_pool_def)
    moreover have "take_loop rest ?q = (r, p')" using False Cons.prems(2) by (simp split: if_splits)
    ultimately show ?thesis using Cons.IH[of ?q] by (auto simp: ob_view_def in_pool_def)
  qed
qed (auto simp: pool_wf_def)

lemma take_wf:
  assumes "pool_wf p" "take_from_partial p = (r, p')"
  shows "pool_wf p'" "ob_view p' = ob_view p"
    "r = Some (i, g, b) \<Longrightarrow> ob_view p i = Some (g, b) \<and> 0 < ob_sectors (ob_at p i) \<and> i \<in> set (partial_list p)"
proof -
  have "pool_wf (p\<lparr>partial_list := rev (rev (partial_list p))\<rparr>)" using assms(1) by simp
  note t = take_loop_wf[OF this assms(2)[unfolded take_from_partial_def]]
  then show "pool_wf p'" "ob_view p' = ob_view p"
    "r = Some (i, g, b) \<Longrightarrow> ob_view p i = Some (g, b) \<and> 0 < ob_sectors (ob_at p i) \<and> i \<in> set (partial_list p)" by simp_all
qed

lemma find_reusable_wf:
  assumes "pool_wf p" "find_reusable need p = (r, p')"
  shows "pool_wf p' \<and> ob_view p' = ob_view p"
    "r = Some (i, g, b) \<Longrightarrow> ob_view p i = Some (g, b) \<and> need \<le> ob_sectors (ob_at p i)"
    "r = None \<longleftrightarrow> (\<forall>i. ob_view p i \<noteq> None \<longrightarrow> ob_sectors (ob_at p i) < need)"
proof -
  let ?P = "\<lambda>i. ob_valid (entries p ! i) \<and> need \<le> ob_sectors (entries p ! i)"
  have len: "length (entries p) = 129" using assms(1) by (simp add: pool_wf_def pool_ok_def)
  have some: "\<exists>k. List.find ?P [1..<129] = Some k \<and> 0 < k \<and> k < 129 \<and> ?P k" if nn: "List.find ?P [1..<129] \<noteq> None"
  proof -
    obtain k where k: "List.find ?P [1..<129] = Some k" using nn by auto
    then obtain j where "j < length [1..<129]" "?P ([1..<129] ! j)" "k = [1..<129] ! j" using iffD1[OF find_Some_iff k] by blast
    then show ?thesis using k by (simp add: nth_upt)
  qed
  have in_k: "in_pool (of_nat k) p" "unat (of_nat k :: u16) = k" if "0 < k" "k < 129" for k
    using that idx_unat[of k] by (auto simp: in_pool_def len NULL_IDX_def)
  show "pool_wf p' \<and> ob_view p' = ob_view p"
    using assms some in_k(1) upd_wf[OF pin_link_same(1) _ assms(1)]
    by (cases "List.find ?P [1..<129]") (auto simp: find_reusable_def len Let_def)
  show "ob_view p i = Some (g, b) \<and> need \<le> ob_sectors (ob_at p i)" if r: "r = Some (i, g, b)"
  proof -
    have "List.find ?P [1..<129] \<noteq> None" using assms(2) r by (auto simp: find_reusable_def len split: option.splits)
    then obtain k where "List.find ?P [1..<129] = Some k" "0 < k" "k < 129" "?P k" using some by blast
    then show ?thesis using assms(2) r in_k[of k] by (auto simp: find_reusable_def len Let_def ob_view_def)
  qed
  have "r = None \<longleftrightarrow> List.find ?P [1..<129] = None"
    using assms(2) by (auto simp: find_reusable_def len Let_def split: option.splits)
  also have "\<dots> \<longleftrightarrow> (\<forall>k. 0 < k \<and> k < 129 \<longrightarrow> \<not> ?P k)" by (auto simp: find_None_iff)
  also have "\<dots> \<longleftrightarrow> (\<forall>i. in_pool i p \<longrightarrow> \<not> ?P (unat i))"
  proof -
    have "\<not> ?P k" if "\<forall>i. in_pool i p \<longrightarrow> \<not> ?P (unat i)" "0 < k" "k < 129" for k using that in_k[of k] by metis
    moreover have "0 < unat i \<and> unat i < 129" if "in_pool i p" for i
      using that by (simp add: in_pool_def NULL_IDX_def len unat_gt_0)
    ultimately show ?thesis by blast
  qed
  finally show "r = None \<longleftrightarrow> (\<forall>i. ob_view p i \<noteq> None \<longrightarrow> ob_sectors (ob_at p i) < need)"
    by (auto simp: ob_view_def not_le)
qed

subsection \<open>Every reachable pool is well formed\<close>

datatype ob_op = OpAlloc u32 u32 u32 u32 | OpPut u16 | OpInc u16 | OpDec u16 | OpConsume u16 u32 | OpPartial u16 | OpTake | OpFind u32

fun pool_step :: "ob_op \<Rightarrow> open_buckets \<Rightarrow> open_buckets option" where
  "pool_step (OpAlloc g b sec gn) p = Some (snd (ob_alloc g b sec gn p))"
| "pool_step (OpPut i) p = ob_put i p"
| "pool_step (OpInc i) p = inc_pin i p"
| "pool_step (OpDec i) p = map_option snd (dec_pin_and_put i p)"
| "pool_step (OpConsume i n) p = Some (consume_free_sectors i n p)"
| "pool_step (OpPartial i) p = Some (add_to_partial i p)"
| "pool_step OpTake p = Some (snd (take_from_partial p))"
| "pool_step (OpFind n) p = Some (snd (find_reusable n p))"

text \<open>The callers' side: a handle is pinned, unpinned or put only while it keeps a bucket open.\<close>

fun op_allowed :: "ob_op \<Rightarrow> open_buckets \<Rightarrow> bool" where
  "op_allowed (OpPut i) p \<longleftrightarrow> ob_view p i \<noteq> None"
| "op_allowed (OpInc i) p \<longleftrightarrow> ob_view p i \<noteq> None"
| "op_allowed (OpDec i) p \<longleftrightarrow> ob_view p i \<noteq> None"
| "op_allowed _ p \<longleftrightarrow> True"

inductive pool_reach :: "open_buckets \<Rightarrow> bool" where
  start: "pool_reach pool_new"
| step: "pool_reach p \<Longrightarrow> op_allowed op p \<Longrightarrow> pool_step op p = Some p' \<Longrightarrow> pool_reach p'"

lemma inc_pin_wf:
  assumes "pool_wf p" "ob_view p i \<noteq> None"
  shows "\<exists>p'. inc_pin i p = Some p' \<and> pool_wf p' \<and> ob_view p' = ob_view p"
proof -
  have i: "in_pool i p" using view_in_pool[OF assms(2)] by simp
  then show ?thesis using upd_wf[OF pin_link_same(1) i assms(1)] by (simp add: inc_pin_def in_pool_def)
qed

lemma consume_wf: "pool_wf p \<Longrightarrow> pool_wf (consume_free_sectors i n p) \<and> ob_view (consume_free_sectors i n p) = ob_view p"
  using upd_wf[OF pin_link_same(2)] by (simp add: consume_free_sectors_def)

lemma add_partial_wf:
  assumes "pool_wf p" shows "pool_wf (add_to_partial i p)" "ob_view (add_to_partial i p) = ob_view p"
proof -
  have "pool_wf (add_to_partial i p) \<and> ob_view (add_to_partial i p) = ob_view p"
  proof (cases "in_pool i p \<and> ob_valid (ob_at p i)")
    case True
    let ?q = "ob_upd i (\<lambda>e. e\<lparr>ob_partial := True\<rparr>) p"
    have q: "pool_wf ?q" "ob_view ?q = ob_view p" using upd_wf[OF pin_link_same(3) _ assms] True by blast+
    have "add_to_partial i p = ?q\<lparr>partial_list := partial_list p @ [i], nr_partial := nr_partial p + 1\<rparr>"
      using True by (simp add: add_to_partial_def)
    moreover have "pool_ok ?q" "\<forall>j \<in> set (partial_list p). in_pool j ?q" "in_pool i ?q"
      using q(1) True assms by (simp_all add: pool_wf_def)
    ultimately show ?thesis using q(2) by (simp add: pool_wf_def in_pool_def)
  next
    case False
    then show ?thesis using assms by (simp add: add_to_partial_def)
  qed
  then show "pool_wf (add_to_partial i p)" "ob_view (add_to_partial i p) = ob_view p" by simp_all
qed

lemma pool_step_wf:
  assumes "pool_wf p" "op_allowed op p"
  shows "\<exists>p'. pool_step op p = Some p' \<and> pool_wf p'"
proof (cases op)
  case (OpAlloc g b sec gn)
  then show ?thesis using alloc_wf[OF assms(1)] by (metis pool_step.simps(1) prod.collapse)
next
  case (OpPut i)
  then show ?thesis using put_wf[of p i] assms by auto
next
  case (OpInc i)
  then show ?thesis using inc_pin_wf[of p i] assms by auto
next
  case (OpDec i)
  then show ?thesis using dec_pin_wf[of p i] assms by fastforce
next
  case (OpConsume i n)
  then show ?thesis using consume_wf[OF assms(1)] by simp
next
  case (OpPartial i)
  then show ?thesis using add_partial_wf[OF assms(1)] by simp
next
  case OpTake
  then show ?thesis using take_wf(1)[OF assms(1)] by (metis pool_step.simps(7) prod.collapse)
next
  case (OpFind n)
  then show ?thesis using find_reusable_wf(1)[OF assms(1)] by (metis pool_step.simps(8) prod.collapse)
qed

lemma reach_wf: "pool_reach p \<Longrightarrow> pool_wf p"
proof (induction rule: pool_reach.induct)
  case (step p op p')
  then show ?case using pool_step_wf[of p op] by auto
qed (rule pool_wf_new)

text \<open> C21. The open-bucket pool stays well formed and never hangs or panics. Starting from
  \<open>BchOpenBuckets::new\<close>, after any sequence of operations (alloc, put, pin, unpin, consume, partial
  list, reuse) whose callers pass only handles that are open: the free list is an acyclic chain
  through exactly the entries that are not valid, and \<open>nr_free\<close> is its length; each hash slot heads
  an acyclic chain through exactly the valid entries of its buckets; every next operation returns
  and keeps all of this; and \<open>lookup\<close> (hence \<open>is_open\<close>) returns for every bucket, answering exactly
  what a scan of the whole pool for a valid entry of that bucket would.\<close>

theorem open_bucket_pool_total:
  assumes "pool_reach p"
  shows "(\<exists>fl. chain (free_link p) (freelist_head p) fl \<and> distinct fl \<and>
        set fl = {i. in_pool i p \<and> \<not> ob_valid (ob_at p i)} \<and> nr_free p = of_nat (length fl)) \<and>
    (\<forall>s < 128. \<exists>hs. chain (hash_link p) (hash_slots p ! s) hs \<and> distinct hs \<and>
        set hs = {i. in_pool i p \<and> ob_valid (ob_at p i) \<and> key_slot p i = s}) \<and>
    (\<forall>op. op_allowed op p \<longrightarrow> (\<exists>p'. pool_step op p = Some p' \<and> pool_wf p')) \<and>
    (\<exists>r. ob_lookup g b p = Some r \<and> (r = None \<longleftrightarrow> (\<forall>i. ob_view p i \<noteq> Some (g, b))) \<and>
       (\<forall>i. r = Some i \<longrightarrow> ob_view p i = Some (g, b)))"
proof -
  have wf: "pool_wf p" using reach_wf[OF assms] .
  then have ok: "pool_ok p" by (simp add: pool_wf_def)
  obtain r where r: "ob_lookup g b p = Some r" using lookup_total[OF ok] by blast
  have "\<exists>fl. free_ok fl p" "\<forall>s < 128. \<exists>hs. slot_ok s hs p" using ok by (simp_all add: pool_ok_def)
  moreover have "\<forall>op. op_allowed op p \<longrightarrow> (\<exists>p'. pool_step op p = Some p' \<and> pool_wf p')" using pool_step_wf[OF wf] by blast
  moreover have "r = None \<longleftrightarrow> (\<forall>i. ob_view p i \<noteq> Some (g, b))" using lookup_None[OF ok, of g b] r by simp
  moreover have "\<forall>i. r = Some i \<longrightarrow> ob_view p i = Some (g, b)" using lookup_Some[OF ok, of g b] r by simp
  ultimately show ?thesis using r unfolding free_ok_def slot_ok_def by blast
qed

theorem open_bucket_pool_total_witness:
  "\<exists>r. ob_lookup 3 7 (snd (ob_alloc 3 7 256 1 pool_new)) = Some r"
proof -
  have "pool_reach (snd (ob_alloc 3 7 256 1 pool_new))"
    using pool_reach.step[OF pool_reach.start, of "OpAlloc 3 7 256 1"] by simp
  from open_bucket_pool_total[OF this, of 3 7] show ?thesis by blast
qed

subsection \<open>Handles used after their release\<close>

lemma chain_find_absent:
  "chain nx c xs \<Longrightarrow> idx \<notin> set xs \<Longrightarrow> \<forall>x \<in> set xs. unat x < n \<Longrightarrow> chain_find n nx idx prev c = Some (last (prev # xs), 0)"
proof (induction xs arbitrary: c prev)
  case Nil
  then show ?case using chain_find.simps[of n nx idx prev c] by (simp add: NULL_IDX_def)
next
  case (Cons x xs)
  then have "c = x" "x \<noteq> 0" "x \<noteq> idx" "unat x < n" "chain_find n nx idx x (nx x) = Some (last (x # xs), 0)" by auto
  then show ?case using chain_find.simps[of n nx idx prev c] by (simp add: NULL_IDX_def)
qed

text \<open>Putting an entry that is not open links it to the current head of the free list.\<close>

lemma put_invalid:
  assumes "pool_ok p" "in_pool i p" "\<not> ob_valid (ob_at p i)"
  shows "\<exists>p'. ob_put i p = Some p' \<and> freelist_head p' = i \<and> free_link p' i = freelist_head p \<and>
     length (entries p') = length (entries p)"
proof -
  let ?q = "ob_upd i (\<lambda>e. e\<lparr>ob_valid := False, ob_pin := 0, ob_partial := False\<rparr>) p"
  have r: "unat i < length (entries p)" using assms(2) by (simp add: in_pool_def)
  have at: "ob_at ?q j = (if j = i then (ob_at p i)\<lparr>ob_valid := False, ob_pin := 0, ob_partial := False\<rparr> else ob_at p j)" for j
    by (rule ob_at_upd[OF r])
  obtain hs where hs: "slot_ok (key_slot p i) hs p" using pool_okD(4)[OF assms(1) hash_slot_less] by blast
  then have "chain (hash_link p) (hash_slots p ! key_slot p i) hs" "i \<notin> set hs" "\<forall>x \<in> set hs. unat x < length (entries p)"
    using assms(3) by (simp_all add: slot_ok_def in_pool_def)
  moreover have "hash_link ?q = hash_link p" by (simp add: at fun_eq_iff)
  ultimately have "chain_find (length (entries ?q)) (hash_link ?q) i NULL_IDX (hash_slots ?q ! key_slot p i) = Some (last (NULL_IDX # hs), 0)"
    using chain_find_absent[of "hash_link p" _ hs i "length (entries p)" NULL_IDX] by simp
  moreover have "key_slot ?q i = key_slot p i" by (simp add: at)
  moreover have "i \<noteq> 0" using assms(2) by (simp add: in_pool_def NULL_IDX_def)
  ultimately have "ob_put i p = Some ((ob_upd i (\<lambda>e. e\<lparr>ob_freelist := freelist_head ?q\<rparr>) ?q)
      \<lparr>freelist_head := i, nr_free := nr_free ?q + 1\<rparr>)"
    using assms(2) by (simp add: ob_put_def Let_def)
  then show ?thesis using ob_at_upd[of i ?q "\<lambda>e. e\<lparr>ob_freelist := freelist_head p\<rparr>" i] r by simp
qed

lemma alloc_head:
  assumes "freelist_head p \<noteq> 0" "unat (freelist_head p) < length (entries p)"
  shows "\<exists>p'. ob_alloc g b sec gn p = (Inr (freelist_head p), p') \<and> freelist_head p' = free_link p (freelist_head p) \<and>
     ob_group (ob_at p' (freelist_head p)) = g \<and> ob_bucket (ob_at p' (freelist_head p)) = b \<and>
     ob_valid (ob_at p' (freelist_head p)) \<and> ob_sectors (ob_at p' (freelist_head p)) = sec \<and>
     free_link p' (freelist_head p) = free_link p (freelist_head p) \<and> length (entries p') = length (entries p) \<and>
     partial_list p' = partial_list p"
  using assms(2) by (simp add: alloc_cases(2)[OF assms(1)] ob_at_upd)

text \<open>
  A handle put twice is handed out twice. \<open>put\<close> does not test whether its entry is still
  valid, so after a second \<open>put\<close> of the same handle the free list loops on it: every later
  allocation returns that same handle, and the second one overwrites the first one's bucket
  while its owner still writes to it.\<close>

theorem double_put_aliases:
  assumes "pool_wf p" "ob_view p i \<noteq> None"
  shows "\<exists>p1 p2 p3 p4. ob_put i p = Some p1 \<and> ob_put i p1 = Some p2 \<and>
     ob_alloc g b sec gn p2 = (Inr i, p3) \<and> ob_alloc g' b' sec' gn' p3 = (Inr i, p4) \<and>
     ob_view p3 i = Some (g, b) \<and> ob_view p4 i = Some (g', b')"
proof -
  obtain p1 where p1: "ob_put i p = Some p1" "pool_wf p1" "ob_view p1 = (ob_view p)(i := None)"
    using put_wf[OF assms] by blast
  have i: "in_pool i p1" "i \<noteq> 0" using view_in_pool[OF assms(2)] put_partial_list[OF p1(1)] by (auto simp: in_pool_def NULL_IDX_def)
  moreover have "freelist_head p1 = i"
    using p1(1) view_in_pool[OF assms(2)] by (auto simp: ob_put_def Let_def split: option.splits prod.splits)
  moreover have "\<not> ob_valid (ob_at p1 i)" using p1(3) i(1) by (auto simp: ob_view_def fun_eq_iff split: if_splits)
  ultimately obtain p2 where p2: "ob_put i p1 = Some p2" "freelist_head p2 = i" "free_link p2 i = i"
    "length (entries p2) = length (entries p1)"
    using put_invalid[of p1 i] p1(2) by (auto simp: pool_wf_def)
  have r2: "unat i < length (entries p2)" using i p2(4) by (simp add: in_pool_def)
  obtain p3 where p3: "ob_alloc g b sec gn p2 = (Inr i, p3)" "freelist_head p3 = i" "ob_view p3 i = Some (g, b)"
    "unat i < length (entries p3)"
    using alloc_head[of p2 g b sec gn] p2 i r2 by (auto simp: ob_view_def in_pool_def)
  obtain p4 where "ob_alloc g' b' sec' gn' p3 = (Inr i, p4)" "ob_view p4 i = Some (g', b')"
    using alloc_head[of p3 g' b' sec' gn'] p3 i by (auto simp: ob_view_def in_pool_def)
  then show ?thesis using p1(1) p2(1) p3(1,3) by blast
qed

lemma first_alloc: "\<exists>p'. ob_alloc g b sec gn pool_new = (Inr 1, p') \<and> pool_wf p' \<and> ob_view p' 1 = Some (g, b)"
proof -
  have h: "freelist_head pool_new = 1" by (simp add: pool_new_def)
  then obtain p' where p: "ob_alloc g b sec gn pool_new = (Inr 1, p')"
    using alloc_cases(2)[of pool_new] by auto
  then show ?thesis using alloc_wf[OF pool_wf_new p] alloc_ok(3)[OF pool_new_ok(1) p] by auto
qed

theorem double_put_aliases_witness:
  "\<exists>p0 p1 p2 p3 p4. ob_alloc 0 5 256 0 pool_new = (Inr 1, p0) \<and> ob_put 1 p0 = Some p1 \<and> ob_put 1 p1 = Some p2 \<and>
     ob_alloc 0 6 256 0 p2 = (Inr 1, p3) \<and> ob_alloc 0 7 256 0 p3 = (Inr 1, p4) \<and>
     ob_view p3 1 = Some (0, 6) \<and> ob_view p4 1 = Some (0, 7)"
proof -
  obtain p0 where p0: "ob_alloc 0 5 256 0 pool_new = (Inr 1, p0)" "pool_wf p0" "ob_view p0 1 = Some (0, 5)"
    using first_alloc by blast
  from double_put_aliases[OF p0(2), of 1 0 6 256 0 0 7 256 0] p0 show ?thesis by auto
qed

text \<open> C40. A stale entry of the partial list hands out another writer's bucket. \<open>put\<close> clears
  \<open>on_partial_list\<close> but leaves the handle in the list; when the handle is allocated again,
  \<open>take_from_partial\<close> returns the new owner's bucket as one that nobody writes to.\<close>

theorem stale_partial_handle:
  assumes "pool_wf p" "ob_view p i \<noteq> None" "0 < sec"
  shows "\<exists>p1 p2 p3. ob_put i (add_to_partial i p) = Some p1 \<and> ob_alloc g b sec gn p1 = (Inr i, p2) \<and>
     take_from_partial p2 = (Some (i, g, b), p3)"
proof -
  let ?q = "add_to_partial i p"
  have i: "in_pool i p" "ob_valid (ob_at p i)" using view_in_pool[OF assms(2)] by simp_all
  have q: "pool_wf ?q" "ob_view ?q i \<noteq> None" using add_partial_wf[OF assms(1)] assms(2) by simp_all
  have pl: "partial_list ?q = partial_list p @ [i]" using i by (simp add: add_to_partial_def)
  obtain p1 where p1: "ob_put i ?q = Some p1" using put_wf[OF q] by blast
  have f: "freelist_head p1 = i" using p1 view_in_pool[OF q(2)] by (auto simp: ob_put_def Let_def split: option.splits prod.splits)
  have pl1: "partial_list p1 = partial_list p @ [i]" "length (entries p1) = length (entries p)"
    using put_partial_list[OF p1] pl i by (simp_all add: add_to_partial_def)
  have nz: "i \<noteq> 0" "unat i < length (entries p1)" using i pl1 by (simp_all add: in_pool_def NULL_IDX_def)
  then obtain p2 where p2: "ob_alloc g b sec gn p1 = (Inr i, p2)" "ob_group (ob_at p2 i) = g" "ob_bucket (ob_at p2 i) = b"
    "ob_valid (ob_at p2 i)" "ob_sectors (ob_at p2 i) = sec" "partial_list p2 = partial_list p @ [i]" "unat i < length (entries p2)"
    using alloc_head[of p1 g b sec gn] f pl1 by auto
  have "\<exists>p3. take_from_partial p2 = (Some (i, g, b), p3)"
    using p2 assms(3) by (simp add: take_from_partial_def Let_def ob_at_upd)
  then show ?thesis using p1 p2(1) by blast
qed

theorem stale_partial_handle_witness:
  "\<exists>p0 p1 p2 p3. ob_alloc 0 5 256 0 pool_new = (Inr 1, p0) \<and> ob_put 1 (add_to_partial 1 p0) = Some p1 \<and>
     ob_alloc 0 6 256 0 p1 = (Inr 1, p2) \<and> take_from_partial p2 = (Some (1, 0, 6), p3)"
proof -
  obtain p0 where p0: "ob_alloc 0 5 256 0 pool_new = (Inr 1, p0)" "pool_wf p0" "ob_view p0 1 = Some (0, 5)"
    using first_alloc by blast
  from stale_partial_handle[OF p0(2), of 1 256 0 6 0] p0 show ?thesis by auto
qed

end
