(* ===== verification/WritePoint.thy ===== *)
theory WritePoint
  imports OpenBucketProps
begin

text \<open>
  Write points (\<open>alloc/write_point.rs\<close>): a pool of at most 32 points that data streams share by
  a hash of their identity, with the least recently used one evicted, and three dedicated
  points. The clock is an argument, \<open>now\<close>. \<open>resolve\<close> hands out a mutable reference, which is a
  position (\<open>wp_ref\<close>) here.
\<close>

subsection \<open>Data\<close>

definition WRITE_POINT_MAX :: u16 where
  "WRITE_POINT_MAX = 32"

definition NUM_DEDICATED_WPS :: nat where
  "NUM_DEDICATED_WPS = 3"

datatype dedicated_wp = WpBTree | WpJournal | WpGC

fun dedicated_index :: "dedicated_wp \<Rightarrow> nat" where
  "dedicated_index WpBTree = 0"
| "dedicated_index WpJournal = 1"
| "dedicated_index WpGC = 2"

definition dedicated_all :: "dedicated_wp list" where
  "dedicated_all = [WpBTree, WpJournal, WpGC]"

fun dedicated_name :: "dedicated_wp \<Rightarrow> string" where
  "dedicated_name WpBTree = ''btree''"
| "dedicated_name WpJournal = ''journal''"
| "dedicated_name WpGC = ''gc''"

datatype wp_spec = Hashed u64 | Direct dedicated_wp

record write_point =
  wp_identity :: "u64 option"
  wp_last_used :: u64
  wp_sectors_free :: u64
  wp_prev_sectors_free :: u64
  wp_ptrs :: "u16 list"
  wp_hint :: u64

definition wp_new :: "u64 \<Rightarrow> write_point" where
  "wp_new h = \<lparr>wp_identity = None, wp_last_used = 0, wp_sectors_free = 0, wp_prev_sectors_free = 0,
     wp_ptrs = [], wp_hint = h\<rparr>"

definition wp_reassign :: "u64 \<Rightarrow> u64 \<Rightarrow> write_point \<Rightarrow> write_point" where
  "wp_reassign v now wp = wp\<lparr>wp_identity := Some v, wp_last_used := now\<rparr>"

text \<open>\<open>done\<close>: buckets that are not entirely free move to the partial list.\<close>

fun done_loop :: "u64 \<Rightarrow> u16 list \<Rightarrow> open_buckets \<Rightarrow> u16 list \<times> u16 list \<times> open_buckets" where
  "done_loop bsize [] ob = ([], [], ob)"
| "done_loop bsize (i # is) ob =
     (case get_entry i ob of
        Some e \<Rightarrow>
          if ucast (ob_sectors e) < bsize then
            let (kept, released, ob') = done_loop bsize is (add_to_partial i ob) in (kept, i # released, ob')
          else let (kept, released, ob') = done_loop bsize is ob in (i # kept, released, ob')
      | None \<Rightarrow> let (kept, released, ob') = done_loop bsize is ob in (i # kept, released, ob'))"

definition wp_done :: "u64 \<Rightarrow> write_point \<Rightarrow> open_buckets \<Rightarrow> u16 list \<times> write_point \<times> open_buckets" where
  "wp_done bsize wp ob =
     (let (kept, released, ob') = done_loop bsize (wp_ptrs wp) ob;
          free = sum_list (map (\<lambda>e. ucast (ob_sectors e)) (List.map_filter (\<lambda>i. get_entry i ob') kept))
      in (released, wp\<lparr>wp_prev_sectors_free := wp_sectors_free wp, wp_ptrs := kept, wp_sectors_free := free\<rparr>, ob'))"

record wp_pool =
  wpp_pool :: "write_point list"
  wpp_map :: "u64 \<Rightarrow> u16 option"
  wpp_dedicated :: "write_point list"
  wpp_active :: u16
  wpp_max :: u16

definition wp_pool_new :: "u16 \<Rightarrow> wp_pool" where
  "wp_pool_new max_wps =
     (let m = min (max max_wps 1) WRITE_POINT_MAX in
      \<lparr>wpp_pool = map (\<lambda>i. wp_new (of_nat i)) [0..<unat m], wpp_map = (\<lambda>_. None),
       wpp_dedicated = [wp_new (ucast m), wp_new (ucast m + 1), wp_new (ucast m + 2)],
       wpp_active = 0, wpp_max = m\<rparr>)"

subsection \<open>Resolving an identity\<close>

fun lru_scan :: "write_point list \<Rightarrow> nat \<Rightarrow> u16 \<Rightarrow> u64 \<Rightarrow> u16" where
  "lru_scan [] i best t = best"
| "lru_scan (wp # wps) i best t =
     (if wp_last_used wp < t then lru_scan wps (i + 1) (of_nat i) (wp_last_used wp) else lru_scan wps (i + 1) best t)"

definition find_lru :: "wp_pool \<Rightarrow> u16" where
  "find_lru p = lru_scan (drop 1 (take (unat (wpp_active p)) (wpp_pool p))) 1 0 (wp_last_used (wpp_pool p ! 0))"

definition resolve_hashed :: "u64 \<Rightarrow> u64 \<Rightarrow> wp_pool \<Rightarrow> u16 \<times> wp_pool" where
  "resolve_hashed now v p =
     (case wpp_map p v of
        Some i \<Rightarrow> (i, p\<lparr>wpp_pool := (wpp_pool p)[unat i := (wpp_pool p ! unat i)\<lparr>wp_last_used := now\<rparr>]\<rparr>)
      | None \<Rightarrow>
          let (i, p) =
            (if unat (wpp_active p) < length (wpp_pool p) then (wpp_active p, p\<lparr>wpp_active := wpp_active p + 1\<rparr>)
             else
               let i = find_lru p in
               (i, case wp_identity (wpp_pool p ! unat i) of
                     Some old \<Rightarrow> p\<lparr>wpp_map := (wpp_map p)(old := None)\<rparr>
                   | None \<Rightarrow> p))
          in (i, p\<lparr>wpp_pool := (wpp_pool p)[unat i := wp_reassign v now (wpp_pool p ! unat i)],
                   wpp_map := (wpp_map p)(v \<mapsto> i)\<rparr>))"

datatype wp_ref = PoolRef nat | DedicatedRef nat

definition wp_resolve :: "u64 \<Rightarrow> wp_spec \<Rightarrow> wp_pool \<Rightarrow> wp_ref \<times> wp_pool" where
  "wp_resolve now sp p =
     (case sp of
        Hashed v \<Rightarrow> let (i, p') = resolve_hashed now v p in (PoolRef (unat i), p')
      | Direct d \<Rightarrow> (DedicatedRef (dedicated_index d), p))"

fun wp_at :: "wp_pool \<Rightarrow> wp_ref \<Rightarrow> write_point" where
  "wp_at p (PoolRef i) = wpp_pool p ! i"
| "wp_at p (DedicatedRef i) = wpp_dedicated p ! i"

fun wp_set :: "wp_ref \<Rightarrow> write_point \<Rightarrow> wp_pool \<Rightarrow> wp_pool" where
  "wp_set (PoolRef i) w p = p\<lparr>wpp_pool := (wpp_pool p)[i := w]\<rparr>"
| "wp_set (DedicatedRef i) w p = p\<lparr>wpp_dedicated := (wpp_dedicated p)[i := w]\<rparr>"

definition resolve_hint :: "u64 \<Rightarrow> wp_spec \<Rightarrow> wp_pool \<Rightarrow> u64 \<times> wp_pool" where
  "resolve_hint now sp p =
     (let (r, p) = wp_resolve now sp p; wp = wp_at p r
      in (wp_hint wp, wp_set r (wp\<lparr>wp_hint := wp_hint wp + 1\<rparr>) p))"

subsection \<open>Reuse and shrinking\<close>

definition stranded_space :: "u64 \<Rightarrow> wp_pool \<Rightarrow> u64" where
  "stranded_space bsize p = (ucast (wpp_active p) + of_nat NUM_DEDICATED_WPS) * bsize"

definition too_many_writepoints :: "u64 \<Rightarrow> u64 \<Rightarrow> wp_pool \<Rightarrow> bool" where
  "too_many_writepoints bsize free p \<longleftrightarrow> free < stranded_space bsize p * 8"

text \<open>A pointer that is out of range ends the whole search (the \<open>?\<close> on \<open>get_entry\<close>).\<close>

fun reuse_loop :: "u32 \<Rightarrow> u16 list \<Rightarrow> open_buckets \<Rightarrow> (u16 \<times> u32 \<times> u32) option \<times> open_buckets" where
  "reuse_loop need [] ob = (None, ob)"
| "reuse_loop need (i # is) ob =
     (case get_entry i ob of
        None \<Rightarrow> (None, ob)
      | Some e \<Rightarrow>
          if need \<le> ob_sectors e then (Some (i, ob_group e, ob_bucket e), consume_free_sectors i need ob)
          else reuse_loop need is ob)"

definition try_reuse_current_wp ::
  "wp_spec \<Rightarrow> u32 \<Rightarrow> wp_pool \<Rightarrow> open_buckets \<Rightarrow> (u16 \<times> u32 \<times> u32) option \<times> open_buckets" where
  "try_reuse_current_wp sp need p ob =
     (case sp of
        Direct d \<Rightarrow> reuse_loop need (wp_ptrs (wpp_dedicated p ! dedicated_index d)) ob
      | Hashed v \<Rightarrow>
          (case wpp_map p v of
             None \<Rightarrow> (None, ob)
           | Some i \<Rightarrow> reuse_loop need (wp_ptrs (wpp_pool p ! unat i)) ob))"

fun release_ptrs :: "u16 list \<Rightarrow> open_buckets \<Rightarrow> open_buckets option" where
  "release_ptrs [] ob = Some ob"
| "release_ptrs (i # is) ob =
     (if (case get_entry i ob of None \<Rightarrow> False | Some e \<Rightarrow> 0 < ob_sectors e) then release_ptrs is (add_to_partial i ob)
      else case ob_put i ob of None \<Rightarrow> None | Some ob' \<Rightarrow> release_ptrs is ob')"

definition try_decrease ::
  "u64 \<Rightarrow> u64 \<Rightarrow> wp_pool \<Rightarrow> open_buckets \<Rightarrow> (bool \<times> wp_pool \<times> open_buckets) option" where
  "try_decrease bsize free p ob =
     (if wpp_active p \<le> 1 then Some (False, p, ob)
      else if \<not> too_many_writepoints bsize free p then Some (False, p, ob)
      else
        let p = p\<lparr>wpp_active := wpp_active p - 1\<rparr>; i = unat (wpp_active p); wp = wpp_pool p ! i;
            p = (case wp_identity wp of None \<Rightarrow> p | Some v \<Rightarrow> p\<lparr>wpp_map := (wpp_map p)(v := None)\<rparr>)
        in case release_ptrs (wp_ptrs wp) ob of
             None \<Rightarrow> None
           | Some ob' \<Rightarrow>
               Some (True, p\<lparr>wpp_pool := (wpp_pool p)[i := wp\<lparr>wp_identity := None, wp_ptrs := [], wp_sectors_free := 0\<rparr>]\<rparr>, ob'))"

subsection \<open>The identity map and the pool agree\<close>

definition wpp_ok :: "wp_pool \<Rightarrow> bool" where
  "wpp_ok p \<longleftrightarrow> length (wpp_pool p) = unat (wpp_max p) \<and> 1 \<le> wpp_max p \<and> length (wpp_dedicated p) = 3 \<and>
     wpp_active p \<le> wpp_max p \<and>
     (\<forall>v i. wpp_map p v = Some i \<longrightarrow> i < wpp_active p \<and> wp_identity (wpp_pool p ! unat i) = Some v) \<and>
     (\<forall>i < wpp_active p. \<exists>v. wp_identity (wpp_pool p ! unat i) = Some v \<and> wpp_map p v = Some i)"

lemma wpp_okD:
  assumes "wpp_ok p"
  shows "length (wpp_pool p) = unat (wpp_max p)" "1 \<le> wpp_max p" "length (wpp_dedicated p) = 3"
    "wpp_active p \<le> wpp_max p" "wpp_map p v = Some i \<Longrightarrow> i < wpp_active p \<and> wp_identity (wpp_pool p ! unat i) = Some v"
    "i < wpp_active p \<Longrightarrow> \<exists>v. wp_identity (wpp_pool p ! unat i) = Some v \<and> wpp_map p v = Some i"
  using assms by (simp_all add: wpp_ok_def)

lemma wp_pool_new_ok: "wpp_ok (wp_pool_new n)"
  by (simp add: wpp_ok_def wp_pool_new_def Let_def WRITE_POINT_MAX_def)

text \<open>The victim is the least recently used of the scanned points.\<close>

lemma lru_scan_min:
  assumes "k + length wps < 2 ^ 16" "0 < k" "unat best < k" "xs = pre @ wps" "length pre = k" "wp_last_used (xs ! unat best) = t"
    "\<forall>j < k. t \<le> wp_last_used (xs ! j)"
  shows "unat (lru_scan wps k best t) < length xs \<and> (\<forall>j < length xs. wp_last_used (xs ! unat (lru_scan wps k best t)) \<le> wp_last_used (xs ! j))"
  using assms
proof (induction wps arbitrary: k best t pre)
  case (Cons w wps)
  have k: "unat (of_nat k :: u16) = k" using Cons.prems(1) by (simp add: unsigned_of_nat take_bit_nat_eq_self)
  have w: "xs ! k = w" using Cons.prems(4,5) by (simp add: nth_append)
  have xs: "xs = (pre @ [w]) @ wps" "length (pre @ [w]) = k + 1" using Cons.prems by simp_all
  show ?case
  proof (cases "wp_last_used w < t")
    case True
    then have "\<forall>j < k + 1. wp_last_used w \<le> wp_last_used (xs ! j)"
      using Cons.prems(7) w by (auto simp: less_Suc_eq)
    then show ?thesis
      using Cons.IH[OF _ _ _ xs, of "of_nat k" "wp_last_used w"] Cons.prems True k w by simp
  next
    case False
    then have "\<forall>j < k + 1. t \<le> wp_last_used (xs ! j)" using Cons.prems(7) w by (auto simp: less_Suc_eq)
    then show ?thesis using Cons.IH[OF _ _ _ xs, of best t] Cons.prems False by simp
  qed
qed auto

lemma find_lru_min:
  assumes "wpp_ok p" "wpp_active p = wpp_max p"
  shows "find_lru p < wpp_active p \<and>
    (\<forall>j < length (wpp_pool p). wp_last_used (wpp_pool p ! unat (find_lru p)) \<le> wp_last_used (wpp_pool p ! j))"
proof -
  have l: "length (wpp_pool p) = unat (wpp_active p)" "0 < length (wpp_pool p)"
    using wpp_okD(1,2)[OF assms(1)] assms(2) by (simp_all add: word_le_nat_alt)
  then obtain w ws where ws: "wpp_pool p = w # ws" by (cases "wpp_pool p") auto
  have "unat (lru_scan ws 1 0 (wp_last_used w)) < length (wpp_pool p) \<and>
    (\<forall>j < length (wpp_pool p). wp_last_used (wpp_pool p ! unat (lru_scan ws 1 0 (wp_last_used w))) \<le> wp_last_used (wpp_pool p ! j))"
    using lru_scan_min[of 1 ws 0 "wpp_pool p" "[w]" "wp_last_used w"] ws l(1) unat16_less[of "wpp_active p"] by simp
  moreover have "find_lru p = lru_scan ws 1 0 (wp_last_used w)" using l ws by (simp add: find_lru_def)
  ultimately show ?thesis using l by (simp add: word_less_nat_alt)
qed

end
