(* ===== verification/WritePointProps.thy ===== *)
theory WritePointProps
  imports WritePoint
begin

text \<open>
  Resolving an identity yields a write point that carries it, two identities never share one,
  and only the least recently used identity loses its point. Shrinking the pool keeps the
  identity map and the open-bucket pool consistent.
\<close>

subsection \<open>Assigning a slot\<close>

definition assign_slot :: "u64 \<Rightarrow> u64 \<Rightarrow> u16 \<Rightarrow> wp_pool \<Rightarrow> wp_pool" where
  "assign_slot now v i p = p\<lparr>wpp_pool := (wpp_pool p)[unat i := wp_reassign v now (wpp_pool p ! unat i)],
     wpp_map := (wpp_map p)(v \<mapsto> i)\<rparr>"

lemma unat_active: "wpp_ok p \<Longrightarrow> i < wpp_active p \<Longrightarrow> unat i < length (wpp_pool p)"
  using wpp_okD(1,4)[of p] by (simp add: word_less_nat_alt word_le_nat_alt)

lemma map_inj:
  assumes "wpp_ok p" "wpp_map p v = Some i" "wpp_map p v' = Some i"
  shows "v = v'"
  using wpp_okD(5)[OF assms(1,2)] wpp_okD(5)[OF assms(1,3)] by simp

text \<open>A free slot: the next unused one, or the victim after its identity left the map.\<close>

lemma assign_fresh:
  assumes ok: "wpp_ok p" and v: "wpp_map p v = None" and lt: "unat (wpp_active p) < length (wpp_pool p)"
  shows "wpp_ok (assign_slot now v (wpp_active p) (p\<lparr>wpp_active := wpp_active p + 1\<rparr>))"
proof -
  let ?a = "wpp_active p"
  have a1: "unat (?a + 1) = unat ?a + 1" using lt wpp_okD(1)[OF ok] unat16_less[of "wpp_max p"]
    by (simp add: unat_word_ariths)
  have less: "i < ?a + 1 \<longleftrightarrow> i < ?a \<or> i = ?a" for i
    using a1 by (auto simp: word_less_nat_alt word_unat_eq_iff)
  have ne: "i < ?a \<Longrightarrow> unat i \<noteq> unat ?a" for i by (simp add: word_less_nat_alt)
  have m: "wpp_map p w = Some i \<Longrightarrow> i < ?a \<and> wp_identity (wpp_pool p ! unat i) = Some w" for w i
    using wpp_okD(5)[OF ok] .
  have bk: "\<exists>w. wp_identity (wpp_pool p ! unat i) = Some w \<and> wpp_map p w = Some i \<and> w \<noteq> v" if "i < ?a" for i
    using wpp_okD(6)[OF ok that] v by auto
  have "?a + 1 \<le> wpp_max p" using a1 lt wpp_okD(1)[OF ok] by (simp add: word_le_nat_alt)
  then show ?thesis
    using wpp_okD(1-3)[OF ok] lt m ne bk
    by (fastforce simp: wpp_ok_def assign_slot_def wp_reassign_def less nth_list_update)
qed

lemma assign_victim:
  assumes ok: "wpp_ok p" and v: "wpp_map p v = None" and i: "i < wpp_active p" "wpp_map p old = Some i"
  shows "wpp_ok (assign_slot now v i (p\<lparr>wpp_map := (wpp_map p)(old := None)\<rparr>))"
proof -
  have r: "unat i < length (wpp_pool p)" using unat_active[OF ok i(1)] .
  have m: "j < wpp_active p \<and> wp_identity (wpp_pool p ! unat j) = Some w \<and> unat j \<noteq> unat i"
    if "wpp_map p w = Some j" "w \<noteq> old" for w j
    using that wpp_okD(5)[OF ok that(1)] map_inj[OF ok _ i(2), of w] by (auto simp: word_unat_eq_iff[symmetric])
  have bk: "\<exists>w. wp_identity (wpp_pool p ! unat j) = Some w \<and> wpp_map p w = Some j \<and> w \<noteq> v \<and> w \<noteq> old"
    if "j < wpp_active p" "j \<noteq> i" for j
    using wpp_okD(6)[OF ok that(1)] v that(2) i(2) by auto
  show ?thesis
    using wpp_okD(1-4)[OF ok] r m bk i(1)
    by (fastforce simp: wpp_ok_def assign_slot_def wp_reassign_def nth_list_update word_unat_eq_iff[symmetric])
qed

lemma resolve_hashed_cases:
  assumes ok: "wpp_ok p" and r: "resolve_hashed now v p = (i, p')"
  shows "wpp_map p v = Some i \<and> p' = p\<lparr>wpp_pool := (wpp_pool p)[unat i := (wpp_pool p ! unat i)\<lparr>wp_last_used := now\<rparr>]\<rparr> \<or>
    wpp_map p v = None \<and> wpp_active p \<noteq> wpp_max p \<and> i = wpp_active p \<and> unat (wpp_active p) < length (wpp_pool p) \<and>
      p' = assign_slot now v i (p\<lparr>wpp_active := wpp_active p + 1\<rparr>) \<or>
    wpp_map p v = None \<and> wpp_active p = wpp_max p \<and> i = find_lru p \<and>
      (\<exists>old. wpp_map p old = Some i \<and> p' = assign_slot now v i (p\<lparr>wpp_map := (wpp_map p)(old := None)\<rparr>))"
proof (cases "wpp_map p v")
  case (Some j)
  then show ?thesis using r by (auto simp: resolve_hashed_def)
next
  case None
  show ?thesis
  proof (cases "unat (wpp_active p) < length (wpp_pool p)")
    case True
    then have "wpp_active p \<noteq> wpp_max p" using wpp_okD(1)[OF ok] by auto
    then show ?thesis using r None True by (auto simp: resolve_hashed_def assign_slot_def)
  next
    case False
    then have full: "wpp_active p = wpp_max p"
      using wpp_okD(1,4)[OF ok] by (simp add: word_unat_eq_iff word_le_nat_alt)
    obtain old where old: "wp_identity (wpp_pool p ! unat (find_lru p)) = Some old" "wpp_map p old = Some (find_lru p)"
      using wpp_okD(6)[OF ok] find_lru_min[OF ok full] by blast
    then show ?thesis using r None False full by (auto simp: resolve_hashed_def Let_def assign_slot_def)
  qed
qed

lemma touch_ok:
  assumes "wpp_ok p" "unat i < length (wpp_pool p)"
  shows "wpp_ok (p\<lparr>wpp_pool := (wpp_pool p)[unat i := (wpp_pool p ! unat i)\<lparr>wp_last_used := now\<rparr>]\<rparr>)"
    and "wpp_ok (p\<lparr>wpp_pool := (wpp_pool p)[unat i := (wpp_pool p ! unat i)\<lparr>wp_hint := h\<rparr>]\<rparr>)"
proof -
  have e: "wp_identity ((wpp_pool p)[unat i := (wpp_pool p ! unat i)\<lparr>wp_last_used := now\<rparr>] ! k) = wp_identity (wpp_pool p ! k)"
    "wp_identity ((wpp_pool p)[unat i := (wpp_pool p ! unat i)\<lparr>wp_hint := h\<rparr>] ! k) = wp_identity (wpp_pool p ! k)" for k
    using assms(2) by (simp_all add: nth_list_update)
  show "wpp_ok (p\<lparr>wpp_pool := (wpp_pool p)[unat i := (wpp_pool p ! unat i)\<lparr>wp_last_used := now\<rparr>]\<rparr>)"
    "wpp_ok (p\<lparr>wpp_pool := (wpp_pool p)[unat i := (wpp_pool p ! unat i)\<lparr>wp_hint := h\<rparr>]\<rparr>)"
    using assms(1) by (simp_all add: wpp_ok_def e)
qed

text \<open> C23. Resolving an identity is exclusive and evicts only the least recently used. The slot
  returned carries the identity and the map points to it; no other identity maps to it; every
  other identity keeps its slot, unless the pool was full and the identity held the slot that
  had been unused the longest.\<close>

theorem resolve_hashed_exclusive:
  assumes ok: "wpp_ok p" and r: "resolve_hashed now v p = (i, p')"
  shows "wpp_ok p' \<and> wp_identity (wpp_pool p' ! unat i) = Some v \<and> (\<forall>w. wpp_map p' w = Some i \<longleftrightarrow> w = v) \<and>
    (\<forall>w j. wpp_map p w = Some j \<longrightarrow> wpp_map p' w = Some j \<or>
       j = i \<and> wpp_active p = wpp_max p \<and>
       (\<forall>k < length (wpp_pool p). wp_last_used (wpp_pool p ! unat j) \<le> wp_last_used (wpp_pool p ! k)))"
  using resolve_hashed_cases[OF ok r]
proof (elim disjE conjE exE)
  assume m: "wpp_map p v = Some i" and p': "p' = p\<lparr>wpp_pool := (wpp_pool p)[unat i := (wpp_pool p ! unat i)\<lparr>wp_last_used := now\<rparr>]\<rparr>"
  have l: "unat i < length (wpp_pool p)" using unat_active[OF ok] wpp_okD(5)[OF ok m] by simp
  have "wpp_ok p'" using touch_ok(1)[OF ok l] by (simp add: p')
  moreover have "wpp_map p' = wpp_map p" "wp_identity (wpp_pool p' ! unat i) = Some v"
    using wpp_okD(5)[OF ok m] l by (simp_all add: p')
  moreover have "wpp_map p w = Some i \<longleftrightarrow> w = v" for w using map_inj[OF ok m, of w] m by blast
  ultimately show ?thesis by simp
next
  assume m: "wpp_map p v = None" and l: "unat (wpp_active p) < length (wpp_pool p)" and i: "i = wpp_active p"
    and p': "p' = assign_slot now v i (p\<lparr>wpp_active := wpp_active p + 1\<rparr>)"
  have "wpp_map p w \<noteq> Some i" for w using wpp_okD(5)[OF ok, of w i] i by auto
  moreover have "wpp_ok p'" using assign_fresh[OF ok m l] by (simp add: p' i)
  moreover have "wpp_map p' = (wpp_map p)(v \<mapsto> i)" "wp_identity (wpp_pool p' ! unat i) = Some v"
    using l by (simp_all add: p' i assign_slot_def wp_reassign_def)
  ultimately show ?thesis using m by simp
next
  fix old
  assume m: "wpp_map p v = None" and full: "wpp_active p = wpp_max p" and i: "i = find_lru p" and old: "wpp_map p old = Some i"
    and p': "p' = assign_slot now v i (p\<lparr>wpp_map := (wpp_map p)(old := None)\<rparr>)"
  note lru = find_lru_min[OF ok full, folded i]
  have l: "unat i < length (wpp_pool p)" using unat_active[OF ok] lru by simp
  have "wpp_ok p'" using assign_victim[OF ok m _ old] lru by (simp add: p')
  moreover have other: "wpp_map p w \<noteq> Some i" if "w \<noteq> old" for w using map_inj[OF ok _ old, of w] that by blast
  have map': "wpp_map p' = ((wpp_map p)(old := None))(v \<mapsto> i)" "wp_identity (wpp_pool p' ! unat i) = Some v"
    using l by (simp_all add: p' assign_slot_def wp_reassign_def)
  moreover have "\<forall>w. wpp_map p' w = Some i \<longleftrightarrow> w = v" using other by (simp add: map'(1))
  moreover have "wpp_map p' w = Some j \<or> j = i \<and> wpp_active p = wpp_max p \<and>
       (\<forall>k < length (wpp_pool p). wp_last_used (wpp_pool p ! unat j) \<le> wp_last_used (wpp_pool p ! k))"
    if w: "wpp_map p w = Some j" for w j
  proof (cases "w = old")
    case True
    then have "j = i" using old w by simp
    then show ?thesis using lru full by blast
  next
    case False
    moreover have "w \<noteq> v" using m w by auto
    ultimately show ?thesis using w by (simp add: map'(1))
  qed
  ultimately show ?thesis by blast
qed

theorem resolve_hashed_exclusive_witness:
  "wpp_ok (snd (resolve_hashed 9 7 (wp_pool_new 2))) \<and>
   wp_identity (wpp_pool (snd (resolve_hashed 9 7 (wp_pool_new 2))) ! 0) = Some 7"
proof -
  have "fst (resolve_hashed 9 7 (wp_pool_new 2)) = 0"
    by (simp add: resolve_hashed_def wp_pool_new_def Let_def WRITE_POINT_MAX_def)
  then show ?thesis
    using resolve_hashed_exclusive[OF wp_pool_new_ok[of 2] prod.collapse[symmetric], of 9 7] by simp
qed

lemma wp_resolve_ok:
  assumes "wpp_ok p" "wp_resolve now sp p = (r, p')"
  shows "wpp_ok p'" "r = PoolRef i \<Longrightarrow> i < length (wpp_pool p')" "r = DedicatedRef j \<Longrightarrow> j < length (wpp_dedicated p')"
proof -
  have *: "wpp_ok p' \<and> (r = PoolRef i \<longrightarrow> i < length (wpp_pool p')) \<and> (r = DedicatedRef j \<longrightarrow> j < length (wpp_dedicated p'))"
  proof (cases sp)
    case (Hashed v)
    obtain s q where s: "resolve_hashed now v p = (s, q)" by fastforce
    then have q: "wpp_ok q" "wpp_map q v = Some s" using resolve_hashed_cases[OF assms(1) s] resolve_hashed_cases[OF assms(1) s]
        touch_ok(1)[OF assms(1)] assign_fresh[OF assms(1)] assign_victim[OF assms(1)] unat_active[OF assms(1)] wpp_okD(5)[OF assms(1)]
      by (auto simp: assign_slot_def)
    then show ?thesis using assms(2) Hashed s unat_active[OF q(1)] wpp_okD(5)[OF q] by (auto simp: wp_resolve_def)
  next
    case (Direct d)
    then show ?thesis using assms wpp_okD(3)[OF assms(1)] by (cases d) (auto simp: wp_resolve_def)
  qed
  then show "wpp_ok p'" "r = PoolRef i \<Longrightarrow> i < length (wpp_pool p')" "r = DedicatedRef j \<Longrightarrow> j < length (wpp_dedicated p')" by simp_all
qed

lemma resolve_hint_ok:
  assumes "wpp_ok p" "resolve_hint now sp p = (h, p')"
  shows "wpp_ok p'"
proof -
  obtain r q where q: "wp_resolve now sp p = (r, q)" by fastforce
  note ok = wp_resolve_ok[OF assms(1) q]
  show ?thesis
  proof (cases r)
    case (PoolRef i)
    then have i: "i < length (wpp_pool q)" using ok(2) by simp
    then have u: "unat (of_nat i :: u16) = i" using wpp_okD(1)[OF ok(1)] unat16_less[of "wpp_max q"]
      by (simp add: unsigned_of_nat take_bit_nat_eq_self)
    show ?thesis using assms(2) q PoolRef i touch_ok(2)[OF ok(1), of "of_nat i :: u16", unfolded u, OF i]
      by (auto simp: resolve_hint_def Let_def)
  next
    case (DedicatedRef j)
    then show ?thesis using assms(2) q ok(1) by (auto simp: resolve_hint_def wpp_ok_def Let_def)
  qed
qed

subsection \<open>Shrinking the pool\<close>

lemma add_to_partial_sectors:
  "ob_sectors (ob_at (add_to_partial i p) j) = ob_sectors (ob_at p j)"
  by (auto simp: add_to_partial_def ob_at_upd in_pool_def)

lemma put_sectors:
  assumes "ob_put i p = Some p'" shows "ob_sectors (ob_at p' j) = ob_sectors (ob_at p j)"
proof -
  have upd: "(\<And>e. ob_sectors (f e) = ob_sectors e) \<Longrightarrow> ob_sectors (ob_at (ob_upd k f q) j) = ob_sectors (ob_at q j)" for k f q
    by (cases "unat k < length (entries q)") (auto simp: ob_at_upd, simp add: ob_upd_def list_update_beyond)
  show ?thesis using assms by (auto simp: ob_put_def Let_def upd split: if_splits option.splits prod.splits)
qed

text \<open>Released buckets that still have room stay open on the partial list; the others are closed.\<close>

lemma release_ptrs_ok:
  assumes "pool_wf ob" "distinct is" "\<forall>i \<in> set is. ob_view ob i \<noteq> None"
  shows "\<exists>ob'. release_ptrs is ob = Some ob' \<and> pool_wf ob' \<and>
    ob_view ob' = (\<lambda>i. if i \<in> set is \<and> ob_sectors (ob_at ob i) = 0 then None else ob_view ob i)"
  using assms
proof (induction "is" arbitrary: ob)
  case Nil
  then show ?case by simp
next
  case (Cons i "is")
  have i: "in_pool i ob" "ob_view ob i \<noteq> None" using Cons.prems view_in_pool by auto
  then have g: "get_entry i ob = Some (ob_at ob i)" by (simp add: get_entry_def in_pool_def NULL_IDX_def)
  have tl: "distinct is" "i \<notin> set is" "\<forall>j \<in> set is. ob_view ob j \<noteq> None" using Cons.prems by auto
  show ?case
  proof (cases "0 < ob_sectors (ob_at ob i)")
    case True
    let ?ob = "add_to_partial i ob"
    have w: "pool_wf ?ob" "ob_view ?ob = ob_view ob" using add_partial_wf[OF Cons.prems(1)] by simp_all
    then have "\<forall>j \<in> set is. ob_view ?ob j \<noteq> None" using tl(3) by simp
    from Cons.IH[OF w(1) tl(1) this] obtain ob' where "release_ptrs is ?ob = Some ob'" "pool_wf ob'"
      "ob_view ob' = (\<lambda>j. if j \<in> set is \<and> ob_sectors (ob_at ob j) = 0 then None else ob_view ob j)"
      unfolding w(2) add_to_partial_sectors by blast
    then show ?thesis using True g tl by (auto simp: fun_eq_iff)
  next
    case False
    then have z: "ob_sectors (ob_at ob i) = 0" by (simp add: word_gt_0)
    obtain q where q: "ob_put i ob = Some q" "pool_wf q" "ob_view q = (ob_view ob)(i := None)"
      using put_wf[OF Cons.prems(1) i(2)] by blast
    then have "\<forall>j \<in> set is. ob_view q j \<noteq> None" using tl by auto
    then obtain ob' where "release_ptrs is q = Some ob'" "pool_wf ob'"
      "ob_view ob' = (\<lambda>j. if j \<in> set is \<and> ob_sectors (ob_at q j) = 0 then None else ob_view q j)"
      using Cons.IH[OF q(2) tl(1)] by auto
    then show ?thesis using g z q tl by (auto simp: fun_eq_iff put_sectors[OF q(1)])
  qed
qed

lemma drop_last_slot:
  assumes ok: "wpp_ok p" and a: "1 < wpp_active p" and n: "wpp_active q = wpp_active p - 1" "wpp_max q = wpp_max p"
    "length (wpp_pool q) = length (wpp_pool p)" "wpp_dedicated q = wpp_dedicated p"
    and pool: "\<And>i. i < wpp_active p - 1 \<Longrightarrow> wpp_pool q ! unat i = wpp_pool p ! unat i"
    and v: "wp_identity (wpp_pool p ! unat (wpp_active p - 1)) = Some v" and m: "wpp_map q = (wpp_map p)(v := None)"
  shows "wpp_ok q"
proof -
  let ?l = "wpp_active p - 1"
  have u: "unat ?l = unat (wpp_active p) - 1" using a by (simp add: unat_minus_one word_less_nat_alt unat_eq_zero[symmetric] del: unat_eq_zero)
  have less: "i < wpp_active p \<longleftrightarrow> i < ?l \<or> i = ?l" for i
    using a u by (auto simp: word_less_nat_alt word_unat_eq_iff)
  have irr: "\<not> ?l < ?l" by simp
  have vm: "wpp_map p v = Some ?l" using wpp_okD(6)[OF ok, of ?l] less v by auto
  have other: "w \<noteq> v" if "wpp_map p w = Some i" "i < ?l" for w i using that vm by auto
  have other': "i \<noteq> ?l" if "wpp_map p w = Some i" "w \<noteq> v" for w i using that vm map_inj[OF ok, of w ?l v] by blast
  have "?l \<le> wpp_max p" using wpp_okD(4)[OF ok] u by (simp add: word_le_nat_alt)
  moreover have "i < ?l \<and> wp_identity (wpp_pool q ! unat i) = Some w" if "wpp_map q w = Some i" for w i
    using that wpp_okD(5)[OF ok, of w i] other'[of w i] pool[of i] less[of i] by (auto simp: m split: if_splits)
  moreover have "\<exists>w. wp_identity (wpp_pool q ! unat i) = Some w \<and> wpp_map q w = Some i" if "i < ?l" for i
    using wpp_okD(6)[OF ok, of i] less[of i] that pool[OF that] other[of _ i] by (auto simp: m)
  ultimately show ?thesis using wpp_okD(1-3)[OF ok] unfolding wpp_ok_def n by auto
qed

lemma try_decrease_ok:
  assumes ok: "wpp_ok p" and ob: "pool_wf ob" and
    ptrs: "distinct (wp_ptrs (wpp_pool p ! unat (wpp_active p - 1)))"
      "\<forall>i \<in> set (wp_ptrs (wpp_pool p ! unat (wpp_active p - 1))). ob_view ob i \<noteq> None"
  shows "\<exists>r p' ob'. try_decrease bsize free p ob = Some (r, p', ob') \<and> wpp_ok p' \<and> pool_wf ob' \<and>
    (r \<longleftrightarrow> 1 < wpp_active p \<and> too_many_writepoints bsize free p) \<and> (r \<longrightarrow> wpp_active p' = wpp_active p - 1)"
proof (cases "1 < wpp_active p \<and> too_many_writepoints bsize free p")
  case False
  then have "try_decrease bsize free p ob = Some (False, p, ob)" by (auto simp: try_decrease_def not_less)
  then show ?thesis using False ok ob by simp
next
  case True
  let ?l = "wpp_active p - 1" and ?i = "unat (wpp_active p - 1)"
  have a: "1 < wpp_active p" using True by simp
  have u: "?i = unat (wpp_active p) - 1" using a by (simp add: unat_minus_one word_less_nat_alt unat_eq_zero[symmetric] del: unat_eq_zero)
  then have l: "?l < wpp_active p" using a by (simp add: word_less_nat_alt)
  obtain v where v: "wp_identity (wpp_pool p ! ?i) = Some v" using wpp_okD(6)[OF ok l] by blast
  obtain ob' where ob': "release_ptrs (wp_ptrs (wpp_pool p ! ?i)) ob = Some ob'" "pool_wf ob'"
    using release_ptrs_ok[OF ob ptrs] by blast
  let ?wp = "(wpp_pool p ! ?i)\<lparr>wp_identity := None, wp_ptrs := [], wp_sectors_free := 0\<rparr>"
  let ?q = "p\<lparr>wpp_active := ?l, wpp_map := (wpp_map p)(v := None), wpp_pool := (wpp_pool p)[?i := ?wp]\<rparr>"
  have t: "try_decrease bsize free p ob = Some (True, ?q, ob')"
    using True v ob'(1) by (simp add: try_decrease_def Let_def not_le)
  have "wpp_ok ?q" by (rule drop_last_slot[OF ok a, where v = v]) (simp_all add: v word_less_nat_alt)
  then show ?thesis using t ob'(2) True by (intro exI[of _ True]) simp
qed

end
