(* ===== verification/AllocMeta.thy ===== *)
theory AllocMeta
  imports JournalSpace
begin

text \<open>
  The allocator's metadata: bucket states (\<open>alloc/bucket.rs\<close>), generation indices
  (\<open>alloc/bucket_gens.rs\<close>), the entries of the Alloc btree (\<open>alloc/btree.rs\<close>), the generation
  tracker and the GC bitmap (\<open>alloc/background.rs\<close>), and the choice of a group
  (\<open>alloc/foreground.rs\<close>). \<open>usize\<close> is 64 bits wide, so a bucket index read as \<open>usize\<close> is its
  \<open>unat\<close>. The bincode codec of an entry is a parameter of the definitions that use it.
\<close>

subsection \<open>Buckets\<close>

datatype bch_data_type =
    DFree | DSb | DJournal | DBtree | DUser | DCached | DParity | DStripe | DNeedGcGens | DNeedDiscard
  | DUnstriped | DReserved | DFreeDiscarded | DFreeAvailable | DSbOnly

record bucket =
  bk_state :: bch_data_type
  bk_dirty :: u32
  bk_cached :: u32
  bk_stripe :: u32
  bk_journal_seq :: u64
  bk_group :: u32
  bk_version :: u32
  bk_index :: u64
  bk_nocow :: bool

definition bucket_free :: "u32 \<Rightarrow> u64 \<Rightarrow> bucket" where
  "bucket_free g i = \<lparr>bk_state = DFree, bk_dirty = 0, bk_cached = 0, bk_stripe = 0, bk_journal_seq = 0,
     bk_group = g, bk_version = 0, bk_index = i, bk_nocow = False\<rparr>"

definition bucket_is_free :: "bucket \<Rightarrow> bool" where
  "bucket_is_free b \<longleftrightarrow> bk_state b = DFree"

definition mark_allocated :: "bucket \<Rightarrow> bucket" where
  "mark_allocated b = b\<lparr>bk_state := DUser, bk_version := bk_version b + 1\<rparr>"

definition mark_free :: "bucket \<Rightarrow> bucket" where
  "mark_free b = b\<lparr>bk_state := DFree, bk_version := bk_version b + 1\<rparr>"

definition mark_dirty :: "bucket \<Rightarrow> bucket" where
  "mark_dirty b = b\<lparr>bk_state := DNeedGcGens\<rparr>"

definition mark_reserved :: "bucket \<Rightarrow> bucket" where
  "mark_reserved b = b\<lparr>bk_state := DReserved\<rparr>"

definition transient_state :: "bch_data_type \<Rightarrow> bool" where
  "transient_state s \<longleftrightarrow> s \<in> {DNeedDiscard, DNeedGcGens, DFreeDiscarded, DReserved, DSbOnly, DFreeAvailable, DFree}"

definition derive_state :: "bucket \<Rightarrow> bch_data_type" where
  "derive_state b =
     (if 0 < bk_stripe b then DStripe
      else if 0 < bk_dirty b then (if transient_state (bk_state b) then DUser else bk_state b)
      else if 0 < bk_cached b then DCached
      else DFree)"

definition derive_data_type :: "u32 \<Rightarrow> u32 \<Rightarrow> u32 \<Rightarrow> bch_data_type \<Rightarrow> bch_data_type" where
  "derive_data_type dirty cached stripe ty =
     (if 0 < stripe then DStripe
      else if 0 < dirty then (if transient_state ty then DUser else ty)
      else if 0 < cached then DCached
      else DFree)"

text \<open>The method and the free function agree, and deriving again from the result changes nothing.\<close>

lemma derive_state_eq: "derive_state b = derive_data_type (bk_dirty b) (bk_cached b) (bk_stripe b) (bk_state b)"
  by (simp add: derive_state_def derive_data_type_def)

lemma derive_idempotent: "derive_data_type d c s (derive_data_type d c s ty) = derive_data_type d c s ty"
  by (auto simp: derive_data_type_def transient_state_def)

lemma derive_not_transient: "transient_state (derive_data_type d c s ty) \<longleftrightarrow> d = 0 \<and> c = 0 \<and> s = 0"
  by (auto simp: derive_data_type_def transient_state_def word_gt_0)

definition BUCKET_GENS_PER_KEY :: nat where
  "BUCKET_GENS_PER_KEY = 256"

definition bucket_gens_new :: "u8 list" where
  "bucket_gens_new = replicate BUCKET_GENS_PER_KEY 0"

definition bucket_gens_set :: "nat \<Rightarrow> u8 \<Rightarrow> u8 list \<Rightarrow> u8 list" where
  "bucket_gens_set i g gs = (if i < length gs then gs[i := g] else gs)"

subsection \<open>Entries of the Alloc btree\<close>

record alloc_entry =
  ae_journal_seq :: u64
  ae_dirty :: u32
  ae_cached :: u32
  ae_stripe :: u16
  ae_state :: bch_data_type
  ae_version :: u32
  ae_io_time_read :: u64
  ae_backpointers :: u32
  ae_group :: u32

definition alloc_entry_free :: "u32 \<Rightarrow> alloc_entry" where
  "alloc_entry_free g = \<lparr>ae_journal_seq = 0, ae_dirty = 0, ae_cached = 0, ae_stripe = 0, ae_state = DFree,
     ae_version = 0, ae_io_time_read = 0, ae_backpointers = 0, ae_group = g\<rparr>"

definition alloc_entry_is_free :: "alloc_entry \<Rightarrow> bool" where
  "alloc_entry_is_free e \<longleftrightarrow> ae_state e = DFree"

definition from_bucket :: "u32 \<Rightarrow> bch_data_type \<Rightarrow> u32 \<Rightarrow> alloc_entry" where
  "from_bucket g st v = \<lparr>ae_journal_seq = 0, ae_dirty = 0, ae_cached = 0, ae_stripe = 0, ae_state = st,
     ae_version = v, ae_io_time_read = 0, ae_backpointers = 0, ae_group = g\<rparr>"

definition from_bucket_with_journal_seq :: "u32 \<Rightarrow> bch_data_type \<Rightarrow> u32 \<Rightarrow> u64 \<Rightarrow> alloc_entry" where
  "from_bucket_with_journal_seq g st v q = \<lparr>ae_journal_seq = q, ae_dirty = 0, ae_cached = 0, ae_stripe = 0,
     ae_state = st, ae_version = v, ae_io_time_read = 0, ae_backpointers = 0, ae_group = g\<rparr>"

definition alloc_key :: "u64 \<Rightarrow> btree_key" where
  "alloc_key i = btree_key_from_bpos (Bpos 0 i 0) key_type.Normal"

text \<open>The old layout has no read time and no back pointers.\<close>

record legacy_alloc_entry =
  le_journal_seq :: u64
  le_dirty :: u32
  le_cached :: u32
  le_stripe :: u16
  le_state :: bch_data_type
  le_version :: u32
  le_group :: u32

text \<open>bincode's codecs of the two layouts.\<close>

record alloc_codec =
  enc_entry :: "alloc_entry \<Rightarrow> u8 list option"
  dec_entry :: "u8 list \<Rightarrow> alloc_entry option"
  dec_legacy_entry :: "u8 list \<Rightarrow> legacy_alloc_entry option"

definition alloc_codec_ok :: "alloc_codec \<Rightarrow> bool" where
  "alloc_codec_ok cd \<longleftrightarrow> (\<forall>e bs. enc_entry cd e = Some bs \<longrightarrow> dec_entry cd bs = Some e)"

definition serialize_alloc_entry :: "alloc_codec \<Rightarrow> alloc_entry \<Rightarrow> u8 list option" where
  "serialize_alloc_entry cd e = enc_entry cd e"

definition deserialize_alloc_entry :: "alloc_codec \<Rightarrow> u8 list \<Rightarrow> alloc_entry option" where
  "deserialize_alloc_entry cd bs =
     (case dec_entry cd bs of
        Some e \<Rightarrow> Some e
      | None \<Rightarrow>
          (case dec_legacy_entry cd bs of
             Some l \<Rightarrow> Some \<lparr>ae_journal_seq = le_journal_seq l, ae_dirty = le_dirty l, ae_cached = le_cached l,
                ae_stripe = le_stripe l, ae_state = le_state l, ae_version = le_version l,
                ae_io_time_read = 0, ae_backpointers = 0, ae_group = le_group l\<rparr>
           | None \<Rightarrow> None))"

definition alloc_key_v2 ::
  "alloc_codec \<Rightarrow> u64 \<Rightarrow> u64 \<Rightarrow> u32 \<Rightarrow> u32 \<Rightarrow> u16 \<Rightarrow> bch_data_type \<Rightarrow> u32 \<Rightarrow> u32 \<Rightarrow> u8 list" where
  "alloc_key_v2 cd i q d c s ty v g =
     (case serialize_alloc_entry cd \<lparr>ae_journal_seq = q, ae_dirty = d, ae_cached = c, ae_stripe = s, ae_state = ty,
        ae_version = v, ae_io_time_read = 0, ae_backpointers = 0, ae_group = g\<rparr> of
        Some bs \<Rightarrow> bs | None \<Rightarrow> [])"

lemma alloc_entry_roundtrip:
  "alloc_codec_ok cd \<Longrightarrow> serialize_alloc_entry cd e = Some bs \<Longrightarrow> deserialize_alloc_entry cd bs = Some e"
  by (simp add: alloc_codec_ok_def serialize_alloc_entry_def deserialize_alloc_entry_def)

subsection \<open>Lazily written generations\<close>

definition BUCKET_GENS_DIRTY_THRESHOLD :: nat where
  "BUCKET_GENS_DIRTY_THRESHOLD = 64"

record gens_tracker =
  gt_gens :: "u32 list"
  gt_dirty :: "u64 list"
  gt_dirty_count :: nat

definition gens_new :: "u64 \<Rightarrow> gens_tracker" where
  "gens_new n = \<lparr>gt_gens = replicate (unat n) 0, gt_dirty = [], gt_dirty_count = 0\<rparr>"

definition get_gen :: "u64 \<Rightarrow> gens_tracker \<Rightarrow> u32" where
  "get_gen i t = (if unat i < length (gt_gens t) then gt_gens t ! unat i else 0)"

definition inc_gen :: "u64 \<Rightarrow> gens_tracker \<Rightarrow> (u32 \<times> bool) \<times> gens_tracker" where
  "inc_gen i t =
     (if length (gt_gens t) \<le> unat i then ((0, False), t)
      else
        let new = gt_gens t ! unat i + 1;
            t = t\<lparr>gt_gens := (gt_gens t)[unat i := new]\<rparr>;
            t = (if i \<in> set (gt_dirty t) then t
                 else t\<lparr>gt_dirty := gt_dirty t @ [i], gt_dirty_count := gt_dirty_count t + 1\<rparr>)
        in ((new, BUCKET_GENS_DIRTY_THRESHOLD \<le> gt_dirty_count t), t))"

definition flush_dirty :: "gens_tracker \<Rightarrow> (u64 \<times> u32) list \<times> gens_tracker" where
  "flush_dirty t = (map (\<lambda>i. (i, gt_gens t ! unat i)) (gt_dirty t), t\<lparr>gt_dirty := [], gt_dirty_count := 0\<rparr>)"

definition set_gen :: "u64 \<Rightarrow> u32 \<Rightarrow> gens_tracker \<Rightarrow> gens_tracker" where
  "set_gen i g t = (if unat i < length (gt_gens t) then t\<lparr>gt_gens := (gt_gens t)[unat i := g]\<rparr> else t)"

subsection \<open>The bitmap of buckets whose generation needs GC\<close>

record gc_bitmap =
  gb_words :: "u64 list"
  gb_scan_pos :: nat

definition gc_bitmap_new :: "u64 \<Rightarrow> gc_bitmap" where
  "gc_bitmap_new n = \<lparr>gb_words = replicate (max 1 ((unat n + 63) div 64)) 0, gb_scan_pos = 0\<rparr>"

definition mark_need_gc :: "u64 \<Rightarrow> gc_bitmap \<Rightarrow> gc_bitmap" where
  "mark_need_gc i m =
     (let w = unat i div 64 in
      if w < length (gb_words m) then m\<lparr>gb_words := (gb_words m)[w := gb_words m ! w OR push_bit (unat i mod 64) 1]\<rparr> else m)"

definition mark_gc_done :: "u64 \<Rightarrow> gc_bitmap \<Rightarrow> gc_bitmap" where
  "mark_gc_done i m =
     (let w = unat i div 64 in
      if w < length (gb_words m) then m\<lparr>gb_words := (gb_words m)[w := gb_words m ! w AND NOT (push_bit (unat i mod 64) 1)]\<rparr> else m)"

definition needs_gc :: "u64 \<Rightarrow> gc_bitmap \<Rightarrow> bool" where
  "needs_gc i m =
     (let w = unat i div 64 in
      w < length (gb_words m) \<and> drop_bit (unat i mod 64) (gb_words m ! w) AND 1 \<noteq> 0)"

text \<open>\<open>trailing_zeros\<close>, and the loop that takes the lowest bit of a word until none is left.\<close>

definition trailing_zeros :: "u64 \<Rightarrow> nat" where
  "trailing_zeros w = length (takeWhile (\<lambda>i. \<not> bit w i) [0..<64])"

lemma clear_lowest_less: "w \<noteq> 0 \<Longrightarrow> w AND (w - 1) < w" for w :: u64
proof -
  assume "w \<noteq> 0"
  then have "unat (w - 1) < unat w" by (simp add: unat_minus_one unat_gt_0)
  moreover have "w AND (w - 1) \<le> w - 1" by (rule word_and_le1)
  ultimately show ?thesis by (simp add: word_less_nat_alt word_le_nat_alt)
qed

function scan_word :: "u64 \<Rightarrow> nat list" where
  "scan_word w = (if w = 0 then [] else trailing_zeros w # scan_word (w AND (w - 1)))"
  by auto

termination scan_word
  by (relation "measure unat") (simp_all add: word_less_nat_alt[symmetric] clear_lowest_less)

declare scan_word.simps [simp del]

text \<open>\<open>start + batch_size\<close> does not overflow: it is bounded by the two lengths the callers use.\<close>

definition scan_full_range :: "nat \<Rightarrow> gc_bitmap \<Rightarrow> u64 list \<times> gc_bitmap" where
  "scan_full_range batch m =
     (if gb_words m = [] then ([], m)
      else
        let start = gb_scan_pos m;
            fin = min (start + batch) (length (gb_words m))
        in (concat (map (\<lambda>w. map (\<lambda>b. of_nat (w * 64 + b)) (scan_word (gb_words m ! w))) [start..<fin]),
            m\<lparr>gb_scan_pos := (if length (gb_words m) \<le> fin then 0 else fin)\<rparr>))"

definition reset_scan :: "gc_bitmap \<Rightarrow> gc_bitmap" where
  "reset_scan m = m\<lparr>gb_scan_pos := 0\<rparr>"

definition gc_is_idle :: "gc_bitmap \<Rightarrow> bool" where
  "gc_is_idle m \<longleftrightarrow> (\<forall>w \<in> set (gb_words m). w = 0)"

subsection \<open>Bucket 0 and the LRU indices\<close>

fun ensure_bucket0_marked :: "bucket list \<Rightarrow> bucket list" where
  "ensure_bucket0_marked [] = []"
| "ensure_bucket0_marked (b # bs) =
     (if bk_state b = DFree \<or> bk_state b = DFreeAvailable then b\<lparr>bk_state := DSb\<rparr> # bs else b # bs)"

definition LRU_TIME_MAX :: u64 where
  "LRU_TIME_MAX = push_bit 48 1 - 1"

definition FRAGMENTATION_LRU_SCALE :: u64 where
  "FRAGMENTATION_LRU_SCALE = push_bit 31 1"

definition data_type_movable :: "bch_data_type \<Rightarrow> bool" where
  "data_type_movable t \<longleftrightarrow> t \<in> {DBtree, DUser, DStripe}"

definition alloc_lru_idx_read :: "alloc_entry \<Rightarrow> u64" where
  "alloc_lru_idx_read e = (if ae_state e = DCached then ae_io_time_read e AND LRU_TIME_MAX else 0)"

definition saturating_mul :: "u64 \<Rightarrow> u64 \<Rightarrow> u64" where
  "saturating_mul a b = (if unat a * unat b < 2 ^ 64 then a * b else - 1)"

definition alloc_lru_idx_fragmentation :: "alloc_entry \<Rightarrow> u64 \<Rightarrow> u64" where
  "alloc_lru_idx_fragmentation e sz =
     (if sz = 0 \<or> \<not> data_type_movable (ae_state e) then 0
      else
        let used = ucast (ae_dirty e) :: u64 in
        if used = 0 then 0
        else saturating_mul (min used sz) FRAGMENTATION_LRU_SCALE div sz)"

definition alloc_nr_external_backpointers :: "alloc_entry \<Rightarrow> u32" where
  "alloc_nr_external_backpointers e = ae_backpointers e"

subsection \<open>Choosing the first group\<close>

datatype prio_hint = Unspecified | System | Meta | User

definition prio_from_watermark :: "watermark \<Rightarrow> prio_hint" where
  "prio_from_watermark w =
     (case w of Stripe \<Rightarrow> User | Normal \<Rightarrow> User | CopyGC \<Rightarrow> System | Reclaim \<Rightarrow> System
      | Btree \<Rightarrow> Meta | BtreeCopyGC \<Rightarrow> Meta | InteriorUpdate \<Rightarrow> System)"

fun priority_value :: "prio_hint \<Rightarrow> u8" where
  "priority_value Unspecified = 0"
| "priority_value System = 1"
| "priority_value Meta = 2"
| "priority_value User = 3"

record alloc_target =
  at_target :: u32
  at_hint :: prio_hint
  at_type :: bch_data_type

definition target_from_request :: "u32 \<Rightarrow> watermark \<Rightarrow> bch_data_type \<Rightarrow> alloc_target" where
  "target_from_request t w ty =
     \<lparr>at_target = t, at_hint = (if t = 0 then prio_from_watermark w else Unspecified), at_type = ty\<rparr>"

definition resolve_alloc_group :: "alloc_target \<Rightarrow> u64 \<Rightarrow> u64 \<Rightarrow> u64" where
  "resolve_alloc_group t n rr =
     (if 0 < at_target t \<and> ucast (at_target t) < n then ucast (at_target t)
      else (rr + (if at_hint t \<noteq> Unspecified then ucast (priority_value (at_hint t)) else 0)) mod n)"

end
