(* ===== verification/Reservation.thy ===== *)
theory Reservation
  imports AllocMeta
begin

text \<open>
  Sector reservations (\<open>alloc/reservation.rs\<close>). The tracker holds two numbers, the budget and
  what has been reserved from it; a reservation is a record its owner passes to every call.
  The theorem \<open>reservations_conserved\<close> relates the two over any interleaving of calls: the
  tracker's total is the sum of the outstanding reservations.
\<close>

subsection \<open>Operations\<close>

definition SECTORS_PER_BLOCK :: u64 where
  "SECTORS_PER_BLOCK = 8"

datatype reservation_flags = RNone | RNofail | RPartial

record disk_reservation =
  dr_sectors :: u64
  dr_replicas :: u32
  dr_type :: bch_data_type

definition reservation_init :: "u32 \<Rightarrow> disk_reservation" where
  "reservation_init n = \<lparr>dr_sectors = 0, dr_replicas = n, dr_type = DFree\<rparr>"

definition reservation_new :: "u64 \<Rightarrow> bch_data_type \<Rightarrow> disk_reservation" where
  "reservation_new s ty = \<lparr>dr_sectors = s, dr_replicas = 1, dr_type = ty\<rparr>"

definition reservation_is_valid :: "disk_reservation \<Rightarrow> bool" where
  "reservation_is_valid r \<longleftrightarrow> 0 < dr_sectors r"

definition reservation_is_empty :: "disk_reservation \<Rightarrow> bool" where
  "reservation_is_empty r \<longleftrightarrow> dr_sectors r = 0"

record reservation_tracker =
  rt_total :: u64
  rt_max :: u64

definition tracker_new :: "u64 \<Rightarrow> u64 \<Rightarrow> reservation_tracker" where
  "tracker_new tot margin = \<lparr>rt_total = 0, rt_max = saturating_sub tot margin\<rparr>"

definition res_available :: "reservation_tracker \<Rightarrow> u64" where
  "res_available t = saturating_sub (rt_max t) (rt_total t)"

definition max_reservable :: "reservation_tracker \<Rightarrow> u64" where
  "max_reservable t = rt_max t"

definition reservation_grant :: "u64 \<Rightarrow> bch_data_type \<Rightarrow> disk_reservation \<Rightarrow> disk_reservation" where
  "reservation_grant s ty r = r\<lparr>dr_sectors := dr_sectors r + s, dr_type := ty\<rparr>"

definition reservation_add ::
  "disk_reservation \<Rightarrow> u64 \<Rightarrow> bch_data_type \<Rightarrow> reservation_flags \<Rightarrow> reservation_tracker
    \<Rightarrow> (storage_error + unit) \<times> disk_reservation \<times> reservation_tracker" where
  "reservation_add r s ty fl t =
     (if s = 0 then (Inr (), r, t)
      else
        let current = rt_total t; t1 = t\<lparr>rt_total := current + s\<rparr>; would_be = current + s in
        if rt_max t < would_be then
          (case fl of
             RNofail \<Rightarrow> (Inr (), reservation_grant s ty r, t1)
           | RPartial \<Rightarrow>
               let avail = saturating_sub (rt_max t) current; t2 = t1\<lparr>rt_total := rt_total t1 - s\<rparr> in
               if avail = 0 then (Inl (SpaceExhausted (rt_max t)), r, t2)
               else (Inr (), reservation_grant avail ty r, t2\<lparr>rt_total := rt_total t2 + avail\<rparr>)
           | RNone \<Rightarrow> (Inl (SpaceExhausted (rt_max t)), r, t1\<lparr>rt_total := rt_total t1 - s\<rparr>))
        else (Inr (), reservation_grant s ty r, t1))"

definition reservation_get ::
  "u64 \<Rightarrow> u32 \<Rightarrow> bch_data_type \<Rightarrow> reservation_flags \<Rightarrow> reservation_tracker
    \<Rightarrow> (storage_error + disk_reservation) \<times> reservation_tracker" where
  "reservation_get s n ty fl t =
     (case reservation_add (reservation_init n) (s * ucast n) ty fl t of
        (Inl e, _, t') \<Rightarrow> (Inl e, t')
      | (Inr _, r, t') \<Rightarrow> (Inr r, t'))"

definition reservation_commit :: "disk_reservation \<Rightarrow> u64 \<Rightarrow> reservation_tracker \<Rightarrow> disk_reservation \<times> reservation_tracker" where
  "reservation_commit r used t =
     (if used = 0 \<or> dr_sectors r = 0 then (r, t)
      else
        let actual = min used (dr_sectors r)
        in (r\<lparr>dr_sectors := dr_sectors r - actual\<rparr>, t\<lparr>rt_total := rt_total t - actual\<rparr>))"

definition reservation_put :: "disk_reservation \<Rightarrow> reservation_tracker \<Rightarrow> disk_reservation \<times> reservation_tracker" where
  "reservation_put r t =
     (if dr_sectors r = 0 then (r, t)
      else (r\<lparr>dr_sectors := 0\<rparr>, t\<lparr>rt_total := rt_total t - dr_sectors r\<rparr>))"

subsection \<open>What each call grants\<close>

text \<open>No overflow: the total and the request fit 64 bits.\<close>

definition add_fits :: "u64 \<Rightarrow> reservation_tracker \<Rightarrow> bool" where
  "add_fits s t \<longleftrightarrow> unat (rt_total t) + unat s < 2 ^ 64"

definition granted :: "u64 \<Rightarrow> reservation_flags \<Rightarrow> reservation_tracker \<Rightarrow> u64 option" where
  "granted s fl t =
     (let free = unat (rt_max t) - unat (rt_total t) in
      if unat (rt_total t) + unat s \<le> unat (rt_max t) \<or> fl = RNofail \<or> s = 0 then Some s
      else if fl = RPartial \<and> 0 < free then Some (rt_max t - rt_total t)
      else None)"

lemma unat_fits: "add_fits s t \<Longrightarrow> unat (rt_total t + s) = unat (rt_total t) + unat s"
  by (simp add: add_fits_def unat_word_ariths)

lemma add_granted:
  assumes "add_fits s t"
  shows "reservation_add r s ty fl t =
    (case granted s fl t of
       None \<Rightarrow> (Inl (SpaceExhausted (rt_max t)), r, t)
     | Some g \<Rightarrow> (Inr (), if s = 0 then r else reservation_grant g ty r, t\<lparr>rt_total := rt_total t + g\<rparr>))"
proof -
  have lt: "rt_max t < rt_total t + s \<longleftrightarrow> unat (rt_max t) < unat (rt_total t) + unat s"
    using unat_fits[OF assms] by (simp add: word_less_nat_alt)
  have z: "saturating_sub (rt_max t) (rt_total t) = 0 \<longleftrightarrow> unat (rt_max t) \<le> unat (rt_total t)"
    by (simp add: word_unat_eq_iff)
  have n: "\<not> unat (rt_max t) \<le> unat (rt_total t) \<Longrightarrow> saturating_sub (rt_max t) (rt_total t) = rt_max t - rt_total t"
    by (simp add: saturating_sub_def word_less_nat_alt)
  show ?thesis
    by (cases fl) (auto simp: reservation_add_def Let_def granted_def lt z n not_less not_le)
qed

subsection \<open>Conservation\<close>

definition outstanding :: "disk_reservation list \<Rightarrow> nat" where
  "outstanding rs = sum_list (map (unat \<circ> dr_sectors) rs)"

lemma outstanding_update:
  assumes "i < length rs"
  shows "outstanding (rs[i := r]) + unat (dr_sectors (rs ! i)) = outstanding rs + unat (dr_sectors r)"
  using assms sum_list_update_nat[of i "map (unat \<circ> dr_sectors) rs" "unat (dr_sectors r)"]
  by (simp add: outstanding_def map_update)

lemma outstanding_ge: "i < length rs \<Longrightarrow> unat (dr_sectors (rs ! i)) \<le> outstanding rs"
  using outstanding_update[of i rs "(rs ! i)\<lparr>dr_sectors := 0\<rparr>"] by simp

text \<open>
  Interleavings of calls on one tracker. The flag says whether \<open>NOFAIL\<close> is used; the guards on
  the sizes exclude the overflow of the 64-bit total.
\<close>

inductive res_reach :: "bool \<Rightarrow> reservation_tracker \<Rightarrow> disk_reservation list \<Rightarrow> bool" where
  start: "res_reach nf (tracker_new tot margin) []"
| add: "res_reach nf t rs \<Longrightarrow> i < length rs \<Longrightarrow> fl = RNofail \<longrightarrow> nf \<Longrightarrow> add_fits s t \<Longrightarrow>
    reservation_add (rs ! i) s ty fl t = (res, r', t') \<Longrightarrow> res_reach nf t' (rs[i := r'])"
| get: "res_reach nf t rs \<Longrightarrow> fl = RNofail \<longrightarrow> nf \<Longrightarrow> add_fits (s * ucast n) t \<Longrightarrow>
    reservation_get s n ty fl t = (Inr r', t') \<Longrightarrow> res_reach nf t' (rs @ [r'])"
| get_fail: "res_reach nf t rs \<Longrightarrow> fl = RNofail \<longrightarrow> nf \<Longrightarrow> add_fits (s * ucast n) t \<Longrightarrow>
    reservation_get s n ty fl t = (Inl err, t') \<Longrightarrow> res_reach nf t' rs"
| commit: "res_reach nf t rs \<Longrightarrow> i < length rs \<Longrightarrow> reservation_commit (rs ! i) used t = (r', t') \<Longrightarrow>
    res_reach nf t' (rs[i := r'])"
| put: "res_reach nf t rs \<Longrightarrow> i < length rs \<Longrightarrow> reservation_put (rs ! i) t = (r', t') \<Longrightarrow>
    res_reach nf t' (rs[i := r'])"

definition conserved :: "bool \<Rightarrow> reservation_tracker \<Rightarrow> disk_reservation list \<Rightarrow> bool" where
  "conserved nf t rs \<longleftrightarrow> unat (rt_total t) = outstanding rs \<and> (\<not> nf \<longrightarrow> rt_total t \<le> rt_max t)"

text \<open>A grant of \<open>g\<close> sectors raises the total by \<open>g\<close>, and stays in the budget without \<open>NOFAIL\<close>.\<close>

lemma granted_total:
  assumes "add_fits s t" "granted s fl t = Some g"
  shows "unat (rt_total t + g) = unat (rt_total t) + unat g"
    "fl \<noteq> RNofail \<Longrightarrow> rt_total t \<le> rt_max t \<Longrightarrow> rt_total t + g \<le> rt_max t"
proof -
  have *: "unat (rt_total t + g) = unat (rt_total t) + unat g \<and>
    (fl \<noteq> RNofail \<longrightarrow> rt_total t \<le> rt_max t \<longrightarrow> rt_total t + g \<le> rt_max t)"
  proof (cases "unat (rt_total t) + unat s \<le> unat (rt_max t) \<or> fl = RNofail \<or> s = 0")
    case True
    then have "g = s" using assms(2) by (auto simp: granted_def Let_def)
    then show ?thesis using True unat_fits[OF assms(1)] by (auto simp: word_le_nat_alt)
  next
    case False
    then have g: "g = rt_max t - rt_total t" "unat (rt_total t) < unat (rt_max t)"
      using assms(2) by (auto simp: granted_def Let_def split: if_splits)
    then show ?thesis by (simp add: unat_sub word_le_nat_alt)
  qed
  then show "unat (rt_total t + g) = unat (rt_total t) + unat g"
    "fl \<noteq> RNofail \<Longrightarrow> rt_total t \<le> rt_max t \<Longrightarrow> rt_total t + g \<le> rt_max t" by simp_all
qed

lemma conserved_add:
  assumes c: "conserved nf t rs" and i: "i < length rs" and nf: "fl = RNofail \<longrightarrow> nf" and fits: "add_fits s t"
    and r: "reservation_add (rs ! i) s ty fl t = (res, r', t')"
  shows "conserved nf t' (rs[i := r'])"
proof (cases "granted s fl t")
  case None
  then have "r' = rs ! i" "t' = t" using r add_granted[OF fits, of "rs ! i" ty fl] by simp_all
  then show ?thesis using c i by simp
next
  case (Some g)
  note tot = granted_total[OF fits Some]
  have t': "t' = t\<lparr>rt_total := rt_total t + g\<rparr>" and r': "r' = (if s = 0 then rs ! i else reservation_grant g ty (rs ! i))"
    using r Some add_granted[OF fits, of "rs ! i" ty fl] by simp_all
  have g0: "s = 0 \<Longrightarrow> g = 0" using Some by (simp add: granted_def Let_def)
  have "unat (dr_sectors (rs ! i)) \<le> unat (rt_total t)" using outstanding_ge[OF i] c by (simp add: conserved_def)
  then have "unat (dr_sectors (rs ! i) + g) = unat (dr_sectors (rs ! i)) + unat g"
    using tot(1) unat64_less[of "rt_total t + g"] by (simp add: unat_word_ariths)
  then have "unat (dr_sectors r') = unat (dr_sectors (rs ! i)) + unat g"
    using g0 by (simp add: r' reservation_grant_def)
  then have "outstanding (rs[i := r']) = outstanding rs + unat g" using outstanding_update[OF i, of r'] by simp
  then show ?thesis using c tot nf by (auto simp: conserved_def t')
qed

lemma conserved_take:
  assumes c: "conserved nf t rs" and i: "i < length rs" and a: "a \<le> dr_sectors (rs ! i)"
  shows "conserved nf (t\<lparr>rt_total := rt_total t - a\<rparr>) (rs[i := (rs ! i)\<lparr>dr_sectors := dr_sectors (rs ! i) - a\<rparr>])"
proof -
  have le: "unat a \<le> unat (dr_sectors (rs ! i))" "unat (dr_sectors (rs ! i)) \<le> unat (rt_total t)"
    using a outstanding_ge[OF i] c by (simp_all add: conserved_def word_le_nat_alt)
  then have "unat (rt_total t - a) = unat (rt_total t) - unat a"
    "unat (dr_sectors (rs ! i) - a) = unat (dr_sectors (rs ! i)) - unat a"
    by (simp_all add: unat_sub word_le_nat_alt)
  moreover have "outstanding (rs[i := (rs ! i)\<lparr>dr_sectors := dr_sectors (rs ! i) - a\<rparr>]) + unat a = outstanding rs"
  proof -
    define r where "r = (rs ! i)\<lparr>dr_sectors := dr_sectors (rs ! i) - a\<rparr>"
    have d: "dr_sectors r = dr_sectors (rs ! i) - a" by (simp add: r_def)
    from outstanding_update[OF i, of r, unfolded d] le calculation(2) have "outstanding (rs[i := r]) + unat a = outstanding rs"
      by linarith
    then show ?thesis by (simp add: r_def)
  qed
  ultimately show ?thesis using c by (auto simp: conserved_def word_le_nat_alt)
qed

lemma reach_conserved: "res_reach nf t rs \<Longrightarrow> conserved nf t rs"
proof (induction rule: res_reach.induct)
  case (start nf tot margin)
  then show ?case by (simp add: conserved_def tracker_new_def outstanding_def)
next
  case (add nf t rs i fl s ty res r' t')
  then show ?case using conserved_add by blast
next
  case (get nf t rs fl s n ty r' t')
  let ?rs = "rs @ [reservation_init n]"
  have "conserved nf t ?rs" using get.IH by (simp add: conserved_def outstanding_def reservation_init_def)
  moreover obtain u where u: "reservation_add (?rs ! length rs) (s * ucast n) ty fl t = (Inr u, r', t')"
    using get(4) by (auto simp: reservation_get_def split: prod.splits sum.splits)
  ultimately have "conserved nf t' (?rs[length rs := r'])" using get(2,3) conserved_add by (metis length_append_singleton lessI)
  then show ?case by simp
next
  case (get_fail nf t rs fl s n ty err t')
  then have "t' = t" using add_granted[OF get_fail(3), of "reservation_init n" ty fl]
    by (auto simp: reservation_get_def split: option.splits prod.splits sum.splits)
  then show ?case using get_fail by simp
next
  case (commit nf t rs i used r' t')
  then show ?case using conserved_take[OF commit.IH commit(2), of "min used (dr_sectors (rs ! i))"]
    by (auto simp: reservation_commit_def Let_def split: if_splits)
next
  case (put nf t rs i r' t')
  then show ?case using conserved_take[OF put.IH put(2), of "dr_sectors (rs ! i)"]
    by (auto simp: reservation_put_def split: if_splits)
qed

text \<open> C22. Reservations are conserved. After any interleaving of \<open>add\<close>, \<open>get\<close>, \<open>commit\<close> and
  \<open>put\<close> on any reservations, successful or not, the tracker's total is the sum of the sectors
  outstanding; as long as \<open>NOFAIL\<close> is not used it is within the budget, so \<open>available\<close> and the
  outstanding reservations always add up to the budget.\<close>

theorem reservations_conserved:
  assumes "res_reach nf t rs"
  shows "unat (rt_total t) = outstanding rs \<and>
    (\<not> nf \<longrightarrow> rt_total t \<le> rt_max t \<and> unat (res_available t) + outstanding rs = unat (rt_max t))"
  using reach_conserved[OF assms] by (auto simp: conserved_def res_available_def word_le_nat_alt)

theorem reservations_conserved_witness:
  "\<exists>t r. reservation_get 30 2 DUser RPartial (tracker_new 50 10) = (Inr r, t) \<and> unat (rt_total t) = outstanding [r]"
proof -
  have r: "reservation_get 30 2 DUser RPartial (tracker_new 50 10) =
      (Inr \<lparr>dr_sectors = 40, dr_replicas = 2, dr_type = DUser\<rparr>, \<lparr>rt_total = 40, rt_max = 40\<rparr>)"
    by (simp add: reservation_get_def reservation_add_def tracker_new_def saturating_sub_def Let_def
        reservation_grant_def reservation_init_def)
  have "res_reach False \<lparr>rt_total = 40, rt_max = 40\<rparr> ([] @ [\<lparr>dr_sectors = 40, dr_replicas = 2, dr_type = DUser\<rparr>])"
    by (rule res_reach.get[OF res_reach.start[of False 50 10] _ _ r]) (simp_all add: add_fits_def tracker_new_def)
  from reservations_conserved[OF this] r show ?thesis by auto
qed

text \<open>
  The plain addition behind the budget check wraps in a release build: a request that overflows
  the total passes the check and is granted in full.
\<close>

lemma add_overflow_granted:
  "reservation_add (reservation_init 1) (- 1) DUser RNone \<lparr>rt_total = 1, rt_max = 10\<rparr> =
     (Inr (), \<lparr>dr_sectors = - 1, dr_replicas = 1, dr_type = DUser\<rparr>, \<lparr>rt_total = 0, rt_max = 10\<rparr>)"
  by (simp add: reservation_add_def Let_def reservation_grant_def reservation_init_def)

end
