(* ===== verification/AllocMetaProps.thy ===== *)
theory AllocMetaProps
  imports AllocMeta
begin

text \<open>
  The generation tracker writes back exactly what changed; the GC bitmap is scanned completely,
  in ascending order, whatever the batch size; the indices derived from an entry stay in range.
\<close>

subsection \<open>The lowest bit of a word\<close>

lemma tz_bit:
  assumes "w \<noteq> (0 :: u64)"
  shows "trailing_zeros w < 64" "bit w (trailing_zeros w)" "i < trailing_zeros w \<Longrightarrow> \<not> bit w i"
proof -
  let ?P = "\<lambda>i. \<not> bit w i"
  have "\<exists>i < 64. bit w i"
    using assms bit_eq_iff[of w 0] by (auto simp: bit_imp_le_length dest: bit_imp_le_length)
  then have "takeWhile ?P [0..<64] \<noteq> [0..<64]" by (auto simp: takeWhile_eq_all_conv)
  moreover have "length (takeWhile ?P [0..<64]) \<le> 64" using length_takeWhile_le[of ?P "[0..<64]"] by simp
  moreover have "takeWhile ?P [0..<64] = take (length (takeWhile ?P [0..<64])) [0..<64]"
    by (rule takeWhile_eq_take)
  ultimately show l: "trailing_zeros w < 64" unfolding trailing_zeros_def
    by (metis le_eq_less_or_eq length_upt minus_nat.diff_0 take_all)
  then show "bit w (trailing_zeros w)"
    using nth_length_takeWhile[of ?P "[0..<64]"] by (simp add: trailing_zeros_def)
  show "\<not> bit w i" if "i < trailing_zeros w"
    using that l nth_mem[of i "takeWhile ?P [0..<64]"] takeWhile_nth[of i ?P "[0..<64]"] set_takeWhileD[of i ?P "[0..<64]"]
    by (simp add: trailing_zeros_def)
qed

lemma bit_clear_lowest:
  assumes "w \<noteq> (0 :: u64)"
  shows "bit (w AND (w - 1)) i \<longleftrightarrow> bit w i \<and> i \<noteq> trailing_zeros w"
proof -
  define t where "t = trailing_zeros w"
  define v where "v = unset_bit t w"
  note tz = tz_bit[OF assms, folded t_def]
  have bv: "bit v j \<longleftrightarrow> bit w j \<and> j \<noteq> t" for j by (auto simp: v_def bit_unset_bit_iff)
  have low: "\<not> bit v j" if "j \<le> t" for j using that tz(3)[of j] bv by (cases "j = t") auto
  have "w = v OR 2 ^ t"
    using tz by (intro bit_word_eqI) (auto simp: bit_or_iff bv bit_exp_iff)
  moreover have "v AND 2 ^ t = 0" by (intro bit_word_eqI) (auto simp: bit_and_iff bv bit_exp_iff)
  ultimately have "w = v + 2 ^ t" by (simp add: disjunctive_add_eq_or)
  then have "w - 1 = v + mask t" by (simp add: mask_eq_exp_minus_1)
  also have "v AND mask t = 0" using low by (intro bit_word_eqI) (auto simp: bit_and_iff bit_mask_iff)
  then have "v + mask t = v OR mask t" by (rule disjunctive_add_eq_or)
  finally have "bit (w - 1) i \<longleftrightarrow> bit v i \<or> bit (mask t :: u64) i" by (simp add: bit_or_iff)
  then show ?thesis using low[of i] tz(3)[of i] bv[of i] by (auto simp: bit_and_iff bit_mask_iff t_def[symmetric])
qed

lemma scan_word_bits: "scan_word w = filter (bit w) [0..<64]"
proof (induction w rule: scan_word.induct)
  case (1 w)
  show ?case
  proof (cases "w = 0")
    case True
    then show ?thesis by (simp add: scan_word.simps)
  next
    case False
    let ?t = "trailing_zeros w"
    note tz = tz_bit[OF False]
    have "[0..<64] = [0..<?t] @ ?t # [Suc ?t..<64]" using tz(1) by (metis le_add1 less_imp_le_nat upt_add_eq_append upt_conv_Cons
        le_add_diff_inverse add.left_neutral)
    then have "filter (bit w) [0..<64] = ?t # filter (bit w) [Suc ?t..<64]"
      and "filter (bit (w AND (w - 1))) [0..<64] = filter (bit w) [Suc ?t..<64]"
      using tz by (auto simp: bit_clear_lowest[OF False] filter_empty_conv intro!: filter_cong)
    then show ?thesis using 1 False scan_word.simps[of w] by simp
  qed
qed

subsection \<open>A full round of the GC bitmap\<close>

text \<open>The marked buckets of the words \<open>s\<close> to \<open>e\<close>, as the scan lists them.\<close>

definition marked_range :: "u64 list \<Rightarrow> nat \<Rightarrow> nat \<Rightarrow> u64 list" where
  "marked_range ws s e = concat (map (\<lambda>w. map (\<lambda>b. of_nat (w * 64 + b)) (filter (bit (ws ! w)) [0..<64])) [s..<e])"

lemma marked_range_append:
  assumes "s \<le> m" "m \<le> e"
  shows "marked_range ws s m @ marked_range ws m e = marked_range ws s e"
proof -
  have "[s..<e] = [s..<m] @ [m..<e]" using assms upt_add_eq_append[of s m "e - m"] by simp
  then show ?thesis by (simp add: marked_range_def)
qed

lemma marked_range_filter:
  "marked_range ws 0 n = map of_nat (filter (\<lambda>k. bit (ws ! (k div 64)) (k mod 64)) [0..<64 * n])"
proof (induction n)
  case 0
  then show ?case by (simp add: marked_range_def)
next
  case (Suc n)
  have "marked_range ws 0 (Suc n) = marked_range ws 0 n @ marked_range ws n (Suc n)"
    by (simp add: marked_range_append)
  moreover have "[0..<64 * Suc n] = [0..<64 * n] @ map (\<lambda>b. n * 64 + b) [0..<64]"
    by (rule nth_equalityI) (auto simp: nth_append)
  moreover have "filter (\<lambda>b. bit (ws ! ((n * 64 + b) div 64)) ((n * 64 + b) mod 64)) [0..<64] = filter (bit (ws ! n)) [0..<64]"
    by (rule filter_cong) auto
  moreover have "marked_range ws n (Suc n) = map (\<lambda>b. of_nat (n * 64 + b)) (filter (bit (ws ! n)) [0..<64])"
    by (simp add: marked_range_def)
  ultimately show ?case using Suc by (simp add: filter_map o_def del: upt_Suc upt_rec_numeral)
qed

fun scan_rounds :: "nat \<Rightarrow> nat \<Rightarrow> gc_bitmap \<Rightarrow> u64 list \<times> gc_bitmap" where
  "scan_rounds 0 batch m = ([], m)"
| "scan_rounds (Suc n) batch m =
     (let (xs, m1) = scan_full_range batch m; (ys, m2) = scan_rounds n batch m1 in (xs @ ys, m2))"

lemma scan_rounds_end:
  assumes "0 < batch" "gb_scan_pos m < length (gb_words m)"
    "gb_scan_pos m + n * batch < length (gb_words m)" "length (gb_words m) \<le> gb_scan_pos m + Suc n * batch"
  shows "scan_rounds (Suc n) batch m =
    (marked_range (gb_words m) (gb_scan_pos m) (length (gb_words m)), m\<lparr>gb_scan_pos := 0\<rparr>)"
  using assms
proof (induction n arbitrary: m)
  case 0
  then have "gb_words m \<noteq> []" by auto
  then show ?case using 0 by (simp add: scan_full_range_def Let_def marked_range_def scan_word_bits min_def)
next
  case (Suc n)
  let ?L = "length (gb_words m)" and ?e = "gb_scan_pos m + batch"
  let ?m = "m\<lparr>gb_scan_pos := ?e\<rparr>"
  have e: "?e < ?L" using Suc.prems by simp
  then have "gb_words m \<noteq> []" by auto
  then have s: "scan_full_range batch m = (marked_range (gb_words m) (gb_scan_pos m) ?e, ?m)"
    using e by (simp add: scan_full_range_def Let_def marked_range_def scan_word_bits min_def)
  have "scan_rounds (Suc n) batch ?m = (marked_range (gb_words m) ?e ?L, m\<lparr>gb_scan_pos := 0\<rparr>)"
    using Suc.IH[of ?m] Suc.prems e by simp
  then show ?case using s e marked_range_append[of "gb_scan_pos m" ?e ?L "gb_words m"]
    by (simp del: scan_rounds.simps add: scan_rounds.simps(2)[of "Suc n"])
qed

lemma needs_gc_bit:
  assumes "k < 64 * length (gb_words m)" "64 * length (gb_words m) \<le> 2 ^ 64"
  shows "needs_gc (of_nat k) m \<longleftrightarrow> bit (gb_words m ! (k div 64)) (k mod 64)"
proof -
  have "unat (of_nat k :: u64) = k" using assms by (simp add: unsigned_of_nat take_bit_nat_eq_self)
  moreover have "k div 64 < length (gb_words m)" using assms(1) by (simp add: less_mult_imp_div_less mult.commute)
  ultimately show ?thesis by (simp add: needs_gc_def Let_def and_one_eq bit_iff_odd_drop_bit odd_iff_mod_2_eq_one)
qed

text \<open> C30. A round of \<open>scan_full_range\<close> is complete. Starting at word 0, \<open>\<lceil>words / batch\<rceil>\<close> calls
  return every bucket marked by \<open>mark_need_gc\<close> exactly once, in ascending order, and leave the
  scan at word 0 again, for every batch size above 0.\<close>

theorem gc_scan_complete:
  assumes "gb_words m \<noteq> []" "64 * length (gb_words m) \<le> 2 ^ 64" "gb_scan_pos m = 0" "0 < batch"
  shows "scan_rounds (Suc ((length (gb_words m) - 1) div batch)) batch m =
    (filter (\<lambda>i. needs_gc i m) (map of_nat [0..<64 * length (gb_words m)]), m)"
proof -
  let ?L = "length (gb_words m)" and ?n = "(length (gb_words m) - 1) div batch"
  have L: "0 < ?L" using assms(1) by simp
  have "?n * batch \<le> ?L - 1" "?L - 1 < Suc ?n * batch" using assms(4) by (simp_all add: dividend_less_div_times)
  then have "?n * batch < ?L" "?L \<le> Suc ?n * batch" using L by linarith+
  then have "scan_rounds (Suc ?n) batch m = (marked_range (gb_words m) 0 ?L, m\<lparr>gb_scan_pos := 0\<rparr>)"
    using scan_rounds_end[of batch m ?n] assms(3,4) L by (simp del: scan_rounds.simps)
  moreover have "m\<lparr>gb_scan_pos := 0\<rparr> = m" using assms(3) by simp
  moreover have "marked_range (gb_words m) 0 ?L = filter (\<lambda>i. needs_gc i m) (map of_nat [0..<64 * ?L])"
    unfolding marked_range_filter filter_map o_def
    by (rule arg_cong[where f = "map of_nat"], rule filter_cong) (auto simp: needs_gc_bit[OF _ assms(2)])
  ultimately show ?thesis by simp
qed

theorem gc_scan_complete_witness:
  "scan_rounds 2 1 (mark_need_gc 70 (mark_need_gc 3 (gc_bitmap_new 100))) =
     (filter (\<lambda>i. needs_gc i (mark_need_gc 70 (mark_need_gc 3 (gc_bitmap_new 100)))) (map of_nat [0..<128]),
      mark_need_gc 70 (mark_need_gc 3 (gc_bitmap_new 100)))"
  using gc_scan_complete[of "mark_need_gc 70 (mark_need_gc 3 (gc_bitmap_new 100))" 1]
  by (simp add: gc_bitmap_new_def mark_need_gc_def Let_def del: scan_rounds.simps upt_Suc upt_rec_numeral filter.simps) (simp add: numeral_2_eq_2)

subsection \<open>Lazy write-back of generations\<close>

text \<open>
  \<open>base\<close> is what the Alloc btree holds: the generations as of the last write-back. Buckets
  outside the dirty list have not changed since.
\<close>

definition gens_ok :: "u32 list \<Rightarrow> gens_tracker \<Rightarrow> bool" where
  "gens_ok base t \<longleftrightarrow> length (gt_gens t) = length base \<and> distinct (gt_dirty t) \<and> gt_dirty_count t = length (gt_dirty t) \<and>
     (\<forall>i \<in> set (gt_dirty t). unat i < length base) \<and>
     (\<forall>k < length base. (\<forall>i \<in> set (gt_dirty t). unat i \<noteq> k) \<longrightarrow> gt_gens t ! k = base ! k)"

lemma gens_ok_new: "gens_ok (replicate (unat n) 0) (gens_new n)"
  by (simp add: gens_ok_def gens_new_def)

lemma gens_ok_inc:
  assumes "gens_ok base t"
  shows "gens_ok base (snd (inc_gen i t))"
proof (cases "unat i < length (gt_gens t)")
  case True
  then show ?thesis using assms
    by (auto simp: inc_gen_def Let_def gens_ok_def nth_list_update)
qed (use assms in \<open>simp add: inc_gen_def\<close>)

lemma gens_ok_set:
  "gens_ok base t \<Longrightarrow> gens_ok (if unat i < length base then base[unat i := g] else base) (set_gen i g t)"
  by (auto simp: gens_ok_def set_gen_def nth_list_update)

text \<open>Applying a list of written generations to what the btree held.\<close>

definition apply_gens :: "(u64 \<times> u32) list \<Rightarrow> u32 list \<Rightarrow> u32 list" where
  "apply_gens ws base = fold (\<lambda>(i, g) xs. xs[unat i := g]) ws base"

lemma apply_gens_nth:
  "length (apply_gens (map (\<lambda>i. (i, f i)) ds) base) = length base \<and>
   (k < length base \<longrightarrow> distinct ds \<longrightarrow> apply_gens (map (\<lambda>i. (i, f i)) ds) base ! k =
      (if \<exists>i \<in> set ds. unat i = k then f (of_nat k) else base ! k))"
proof (induction ds arbitrary: base)
  case (Cons d ds)
  have "apply_gens (map (\<lambda>i. (i, f i)) (d # ds)) base = apply_gens (map (\<lambda>i. (i, f i)) ds) (base[unat d := f d])"
    by (simp add: apply_gens_def)
  moreover have "\<not> (\<exists>i \<in> set ds. unat i = unat d)" if "distinct (d # ds)" using that by (auto simp: word_unat_eq_iff[symmetric])
  ultimately show ?case using Cons.IH[of "base[unat d := f d]"] by (auto simp: nth_list_update)
qed (simp add: apply_gens_def)

fun inc_all :: "u64 list \<Rightarrow> gens_tracker \<Rightarrow> gens_tracker" where
  "inc_all [] t = t"
| "inc_all (i # is) t = inc_all is (snd (inc_gen i t))"

lemma gens_ok_inc_all: "gens_ok base t \<Longrightarrow> gens_ok base (inc_all is t)"
  by (induction "is" arbitrary: t) (auto simp: gens_ok_inc)

text \<open>
  Lazy write-back loses no generation. After any number of \<open>inc_gen\<close> calls, the list
  \<open>flush_dirty\<close> returns names each bucket at most once, and writing it over the generations of
  the last write-back gives exactly the current ones; the tracker is clean afterwards.\<close>

theorem gens_writeback:
  assumes "gens_ok base t" "inc_all is t = t'" "flush_dirty t' = (ws, t'')"
  shows "distinct (map fst ws) \<and> apply_gens ws base = gt_gens t' \<and> gens_ok (gt_gens t') t'' \<and> gt_gens t'' = gt_gens t'"
proof -
  have ok: "gens_ok base t'" using gens_ok_inc_all[OF assms(1), of "is"] assms(2) by simp
  then have d: "distinct (gt_dirty t')" and l: "length (gt_gens t') = length base" by (simp_all add: gens_ok_def)
  let ?f = "\<lambda>i. gt_gens t' ! unat i"
  have ws: "ws = map (\<lambda>i. (i, ?f i)) (gt_dirty t')" and t'': "t'' = t'\<lparr>gt_dirty := [], gt_dirty_count := 0\<rparr>"
    using assms(3) by (simp_all add: flush_dirty_def)
  have "apply_gens ws base ! k = gt_gens t' ! k" if k: "k < length base" for k
  proof (cases "\<exists>i \<in> set (gt_dirty t'). unat i = k")
    case True
    then have "unat (of_nat k :: u64) = k" by (auto simp: word_unat_eq_iff[symmetric])
    then show ?thesis using True k d unfolding ws by (simp add: apply_gens_nth)
  next
    case False
    then show ?thesis using k d ok unfolding ws by (simp add: apply_gens_nth gens_ok_def)
  qed
  then have "apply_gens ws base = gt_gens t'"
    using l apply_gens_nth unfolding ws by (intro nth_equalityI) simp_all
  moreover have "distinct (map fst ws)" using d unfolding ws by (simp add: o_def)
  ultimately show ?thesis by (simp add: t'' gens_ok_def)
qed

theorem gens_writeback_witness:
  "apply_gens (fst (flush_dirty (inc_all [1, 2, 1] (gens_new 4)))) [0, 0, 0, 0] = [0, 2, 1, 0]"
proof -
  have "unat (4 :: u64) = Suc (Suc (Suc (Suc 0)))" by simp
  then have n: "replicate (unat (4 :: u64)) 0 = [0, 0, 0, 0 :: u32]" by (simp only: replicate.simps)
  have "gt_gens (inc_all [1, 2, 1] (gens_new 4)) = [0, 2, 1, 0]"
    unfolding gens_new_def n by (simp add: inc_gen_def Let_def)
  then show ?thesis
    using gens_writeback[OF gens_ok_new[of 4] refl prod.collapse[symmetric], of "[1, 2, 1]"] n by simp
qed

subsection \<open>Bounds\<close>

text \<open>The product of the fragmentation index never saturates, and the index is at most \<open>2 ^ 31\<close>.\<close>

lemma fragmentation_exact:
  assumes "sz \<noteq> 0" "data_type_movable (ae_state e)"
  shows "unat (alloc_lru_idx_fragmentation e sz) = min (unat (ae_dirty e)) (unat sz) * 2 ^ 31 div unat sz"
proof -
  let ?u = "ucast (ae_dirty e) :: u64"
  have u: "unat ?u = unat (ae_dirty e)" by (simp add: unsigned_ucast_eq take_bit_nat_eq_self order_less_le_trans[OF unat32_less])
  have s: "unat FRAGMENTATION_LRU_SCALE = 2 ^ 31" by (simp add: FRAGMENTATION_LRU_SCALE_def)
  have m: "unat (min ?u sz) = min (unat (ae_dirty e)) (unat sz)" using u by (simp add: min_def word_le_nat_alt)
  have lt: "min (unat (ae_dirty e)) (unat sz) * 2 ^ 31 < (2 :: nat) ^ 64"
    using unat32_less[of "ae_dirty e"] by (simp add: min_def)
  have "unat (saturating_mul (min ?u sz) FRAGMENTATION_LRU_SCALE) = min (unat (ae_dirty e)) (unat sz) * 2 ^ 31"
    using lt m s by (simp add: saturating_mul_def unat_word_ariths)
  then show ?thesis using assms u by (simp add: alloc_lru_idx_fragmentation_def Let_def unat_div word_unat_eq_iff)
qed

lemma fragmentation_bounds:
  "unat (alloc_lru_idx_fragmentation e sz) \<le> 2 ^ 31"
proof (cases "sz = 0 \<or> \<not> data_type_movable (ae_state e)")
  case False
  have "unat sz > 0" using False by (simp add: unat_gt_0)
  moreover have "min (unat (ae_dirty e)) (unat sz) * 2 ^ 31 div unat sz \<le> unat sz * 2 ^ 31 div unat sz"
    by (rule div_le_mono) simp
  ultimately show ?thesis using fragmentation_exact[of sz e] False by simp
qed (simp add: alloc_lru_idx_fragmentation_def)

text \<open>The first group to try always exists, and an explicit target wins when it does.\<close>

lemma resolve_group_bounds:
  "0 < n \<Longrightarrow> resolve_alloc_group t n rr < n"
  "0 < at_target t \<Longrightarrow> ucast (at_target t) < n \<Longrightarrow> resolve_alloc_group t n rr = ucast (at_target t)"
  by (simp_all add: resolve_alloc_group_def word_mod_less_divisor)

end
