(* ===== verification/Allocator.thy ===== *)
theory Allocator
  imports WritePointProps Reservation AllocMetaProps
begin

text \<open>
  The block allocator (\<open>alloc/mod.rs\<close>): groups of 1 MiB buckets, allocation with its fallback
  levels, release in two steps (\<open>NeedDiscard\<close>, then \<open>Free\<close> after the trim), and the triggers that
  keep the Alloc and Freespace btrees in step. Every group's mutex is held for a whole step, so
  a step is one change of the record \<open>allocator\<close>.

  The btree engine is a state of any type with three operations, \<open>engine_ops\<close>: the raw insertion,
  the lookup and the listing of a btree. The entry codec is the argument \<open>cd\<close>, the clock of the
  write points \<open>now\<close>.
\<close>

subsection \<open>State\<close>

record 'e engine_ops =
  eng_insert :: "btree_id \<Rightarrow> btree_entry \<Rightarrow> 'e \<Rightarrow> 'e"
  eng_get :: "btree_id \<Rightarrow> bpos \<Rightarrow> 'e \<Rightarrow> btree_entry option"
  eng_each :: "btree_id \<Rightarrow> 'e \<Rightarrow> btree_entry list"

datatype alloc_error =
    ReserveExhausted u32 u64
  | AddressSpaceExhausted u64
  | OpenBucketExhausted
  | IncompatibleTarget bch_data_type u32
  | SerializationFailed

fun storage_error_of_alloc :: "alloc_error \<Rightarrow> storage_error" where
  "storage_error_of_alloc (ReserveExhausted g n) = SpaceExhausted n"
| "storage_error_of_alloc (AddressSpaceExhausted n) = SpaceExhausted n"
| "storage_error_of_alloc OpenBucketExhausted = SpaceExhausted 0"
| "storage_error_of_alloc (IncompatibleTarget ty t) = TransactionErr"
| "storage_error_of_alloc SerializationFailed = SerializationErr"

datatype bitmap_filter = FilterNo | FilterYes | FilterAny

record alloc_request =
  rq_watermark :: watermark
  rq_type :: bch_data_type
  rq_target :: u32
  rq_replicas :: u32
  rq_reservation :: "disk_reservation option"
  rq_prefer_reuse :: bool
  rq_bitmap :: bitmap_filter
  rq_journal_seq :: u64

definition BLOCKS_PER_BUCKET :: u64 where
  "BLOCKS_PER_BUCKET = 1024 * 1024 div 4096"

definition request_new :: "watermark \<Rightarrow> bch_data_type \<Rightarrow> alloc_request" where
  "request_new wm ty = \<lparr>rq_watermark = wm, rq_type = ty, rq_target = 0, rq_replicas = 1, rq_reservation = None,
     rq_prefer_reuse = False, rq_bitmap = FilterAny, rq_journal_seq = 0\<rparr>"

definition request_with_reservation :: "watermark \<Rightarrow> bch_data_type \<Rightarrow> disk_reservation \<Rightarrow> alloc_request" where
  "request_with_reservation wm ty r = \<lparr>rq_watermark = wm, rq_type = ty, rq_target = 0, rq_replicas = 1,
     rq_reservation = Some r, rq_prefer_reuse = True, rq_bitmap = FilterAny, rq_journal_seq = 0\<rparr>"

definition with_journal_seq :: "u64 \<Rightarrow> alloc_request \<Rightarrow> alloc_request" where
  "with_journal_seq q rq = rq\<lparr>rq_journal_seq := q\<rparr>"

definition needed_sectors :: "alloc_request \<Rightarrow> u64" where
  "needed_sectors rq = ucast (rq_replicas rq) * BLOCKS_PER_BUCKET * SECTORS_PER_BLOCK"

record alloc_group =
  ag_id :: u32
  ag_start :: u64
  ag_blocks :: u64
  ag_buckets :: "bucket list"
  ag_free :: u64
  ag_total :: u64
  ag_free_list :: "u32 list"
  ag_bitmap :: "u64 list"

record allocator =
  al_groups :: "alloc_group list"
  al_total :: u64
  al_allocated :: u64
  al_hint :: u64
  al_wps :: "wp_pool option"
  al_open :: open_buckets
  al_res :: reservation_tracker

definition may_alloc_bucket :: "bucket \<Rightarrow> u64 \<Rightarrow> bool" where
  "may_alloc_bucket b q \<longleftrightarrow> q = 0 \<or> bk_journal_seq b = 0 \<or> bk_journal_seq b \<le> q"

subsection \<open>Construction\<close>

definition div_ceil :: "u64 \<Rightarrow> u64 \<Rightarrow> u64" where
  "div_ceil a b = (if 0 < a mod b then a div b + 1 else a div b)"

definition group_new :: "u64 \<Rightarrow> u64 \<Rightarrow> u64 \<Rightarrow> u64 \<Rightarrow> alloc_group" where
  "group_new tot gsize sb i =
     (let start = sb + i * gsize; count = min gsize (tot - start); n = div_ceil count BLOCKS_PER_BUCKET
      in \<lparr>ag_id = ucast i, ag_start = start, ag_blocks = count,
          ag_buckets = map (\<lambda>bi. (bucket_free (ucast i) (of_nat bi))) [0..<unat n],
          ag_free = n, ag_total = n, ag_free_list = rev (map of_nat [0..<unat (ucast n :: u32)]),
          ag_bitmap = replicate (unat (div_ceil n 64)) 0\<rparr>)"

text \<open>\<open>None\<close>: a group size of 0 divides by zero.\<close>

definition with_config :: "u64 \<Rightarrow> u64 \<Rightarrow> u64 \<Rightarrow> u16 \<Rightarrow> allocator option" where
  "with_config tot gsize sb max_wps =
     (if gsize = 0 then None
      else
        let eff = saturating_sub tot sb; n = div_ceil eff gsize; sectors = eff * SECTORS_PER_BLOCK
        in Some \<lparr>al_groups = map (\<lambda>i. group_new tot gsize sb (of_nat i)) [0..<unat n],
             al_total = tot, al_allocated = 0, al_hint = 0,
             al_wps = (if 1 < max_wps then Some (wp_pool_new max_wps) else None),
             al_open = pool_new, al_res = tracker_new sectors (sectors * 5 div 100)\<rparr>)"

definition allocator_new :: "u64 \<Rightarrow> u64 \<Rightarrow> u64 \<Rightarrow> allocator option" where
  "allocator_new tot gsize sb = with_config tot gsize sb 1"

definition total_blocks :: "allocator \<Rightarrow> u64" where
  "total_blocks a = al_total a"

definition allocated_blocks :: "allocator \<Rightarrow> u64" where
  "allocated_blocks a = al_allocated a"

definition free_blocks :: "allocator \<Rightarrow> u64" where
  "free_blocks a = saturating_sub (al_total a) (al_allocated a)"

subsection \<open>Marks on buckets\<close>

text \<open>The index of a bucket is not made local to a group: every group's bitmap is changed.\<close>

definition btree_bitmap_mark :: "u64 \<Rightarrow> allocator \<Rightarrow> allocator" where
  "btree_bitmap_mark i a =
     (let w = unat i div 64 in
      a\<lparr>al_groups := map (\<lambda>g. if w < length (ag_bitmap g)
          then g\<lparr>ag_bitmap := (ag_bitmap g)[w := ag_bitmap g ! w OR push_bit (unat i mod 64) 1]\<rparr> else g) (al_groups a)\<rparr>)"

definition btree_bitmap_clear :: "u64 \<Rightarrow> allocator \<Rightarrow> allocator" where
  "btree_bitmap_clear i a =
     (let w = unat i div 64 in
      a\<lparr>al_groups := map (\<lambda>g. if w < length (ag_bitmap g)
          then g\<lparr>ag_bitmap := (ag_bitmap g)[w := ag_bitmap g ! w AND NOT (push_bit (unat i mod 64) 1)]\<rparr> else g) (al_groups a)\<rparr>)"

definition btree_bitmap_test :: "alloc_group \<Rightarrow> u32 \<Rightarrow> bool" where
  "btree_bitmap_test g bi =
     (let w = unat bi div 64 in
      w < length (ag_bitmap g) \<and> drop_bit (unat bi mod 64) (ag_bitmap g ! w) AND 1 \<noteq> 0)"

definition nocow_is_locked :: "alloc_group \<Rightarrow> u32 \<Rightarrow> bool" where
  "nocow_is_locked g bi \<longleftrightarrow> unat bi < length (ag_buckets g) \<and> bk_nocow (ag_buckets g ! unat bi)"

text \<open>The group that holds a block address, and the bucket of the address in it.\<close>

definition group_of_block :: "u64 \<Rightarrow> allocator \<Rightarrow> nat option" where
  "group_of_block addr a =
     List.find (\<lambda>gi. let g = al_groups a ! gi in ag_start g \<le> addr \<and> addr < ag_start g + ag_blocks g) [0..<length (al_groups a)]"

definition bucket_of_block :: "u64 \<Rightarrow> alloc_group \<Rightarrow> nat" where
  "bucket_of_block addr g = unat ((addr - ag_start g) div BLOCKS_PER_BUCKET)"

definition upd_group :: "nat \<Rightarrow> (alloc_group \<Rightarrow> alloc_group) \<Rightarrow> allocator \<Rightarrow> allocator" where
  "upd_group gi f a = a\<lparr>al_groups := (al_groups a)[gi := f (al_groups a ! gi)]\<rparr>"

definition set_bucket :: "nat \<Rightarrow> bucket \<Rightarrow> alloc_group \<Rightarrow> alloc_group" where
  "set_bucket bi b g = g\<lparr>ag_buckets := (ag_buckets g)[bi := b]\<rparr>"

definition nocow_trylock :: "u64 \<Rightarrow> allocator \<Rightarrow> bool \<times> allocator" where
  "nocow_trylock addr a =
     (if al_total a \<le> addr then (False, a)
      else case group_of_block addr a of
        None \<Rightarrow> (False, a)
      | Some gi \<Rightarrow>
          let g = al_groups a ! gi; bi = bucket_of_block addr g in
          if bi < length (ag_buckets g) \<and> \<not> bk_nocow (ag_buckets g ! bi)
          then (True, upd_group gi (set_bucket bi ((ag_buckets g ! bi)\<lparr>bk_nocow := True\<rparr>)) a)
          else (False, a))"

definition nocow_unlock :: "u64 \<Rightarrow> allocator \<Rightarrow> allocator" where
  "nocow_unlock addr a =
     (if al_total a \<le> addr then a
      else case group_of_block addr a of
        None \<Rightarrow> a
      | Some gi \<Rightarrow>
          let g = al_groups a ! gi; bi = bucket_of_block addr g in
          if bi < length (ag_buckets g) then upd_group gi (set_bucket bi ((ag_buckets g ! bi)\<lparr>bk_nocow := False\<rparr>)) a else a)"

subsection \<open>Allocating one bucket\<close>

definition group_eligible :: "watermark \<Rightarrow> allocator \<Rightarrow> alloc_group \<Rightarrow> bool" where
  "group_eligible wm a g \<longleftrightarrow>
     \<not> ag_free g \<le> reserved_buckets wm (ag_total g) + ucast (nr_open (al_open a)) div of_nat (length (al_groups a))"

definition bucket_allowed :: "alloc_request \<Rightarrow> alloc_group \<Rightarrow> u32 \<Rightarrow> bool" where
  "bucket_allowed rq g bi \<longleftrightarrow>
     (case rq_bitmap rq of FilterNo \<Rightarrow> \<not> btree_bitmap_test g bi | FilterYes \<Rightarrow> btree_bitmap_test g bi | FilterAny \<Rightarrow> True) \<and>
     \<not> nocow_is_locked g bi \<and> may_alloc_bucket (ag_buckets g ! unat bi) (rq_journal_seq rq)"

definition entry_raw :: "bpos \<Rightarrow> key_type \<Rightarrow> u8 list \<Rightarrow> btree_entry" where
  "entry_raw ps kt bs = \<lparr>pos = ps, ekey_type = kt, evalue = Raw bs\<rparr>"

text \<open>
  The part both phases share, from the bucket's change of state on. \<open>None\<close>: the open-bucket pool
  was full, the bucket's state and version are put back. A failing encoder leaves the bucket
  allocated and its handle open.
\<close>

definition claim_bucket ::
  "alloc_codec \<Rightarrow> 'e engine_ops \<Rightarrow> alloc_request \<Rightarrow> nat \<Rightarrow> nat \<Rightarrow> 'e \<Rightarrow> allocator \<Rightarrow> (alloc_error + u64) option \<times> 'e \<times> allocator" where
  "claim_bucket cd ops rq gi bi eng a =
     (let g = al_groups a ! gi; b = ag_buckets g ! bi; v = bk_version b + 1;
          b = b\<lparr>bk_state := DUser, bk_version := v,
                bk_journal_seq := (if 0 < rq_journal_seq rq then rq_journal_seq rq else bk_journal_seq b)\<rparr>;
          addr = ag_start g + of_nat bi * BLOCKS_PER_BUCKET
      in case ob_alloc (ag_id g) (of_nat bi) (ucast BLOCKS_PER_BUCKET) v (al_open a) of
           (Inl _, _) \<Rightarrow> (None, eng, upd_group gi (set_bucket bi (b\<lparr>bk_state := DFree, bk_version := v - 1\<rparr>)) a)
         | (Inr _, ob) \<Rightarrow>
             let a = (upd_group gi (\<lambda>g. (set_bucket bi b g)\<lparr>ag_free := ag_free g - 1\<rparr>) a)
                       \<lparr>al_open := ob, al_allocated := al_allocated a + BLOCKS_PER_BUCKET\<rparr>;
                 idx = addr div BLOCKS_PER_BUCKET
             in case serialize_alloc_entry cd (from_bucket_with_journal_seq (ag_id g) DUser v (rq_journal_seq rq)) of
                  None \<Rightarrow> (Some (Inl SerializationFailed), eng, a)
                | Some bytes \<Rightarrow>
                    (Some (Inr addr),
                     eng_insert ops Freespace (entry_raw (Bpos 0 idx v) Deleted [])
                       (eng_insert ops Alloc (entry_raw (Bpos 0 idx 0) key_type.Normal bytes) eng), a))"

text \<open>Phase 1 pops the top of a group's free list, and pushes it back when it is not allowed.\<close>

fun alloc_phase1 ::
  "alloc_codec \<Rightarrow> 'e engine_ops \<Rightarrow> alloc_request \<Rightarrow> nat list \<Rightarrow> 'e \<Rightarrow> allocator \<Rightarrow> (alloc_error + u64) option \<times> 'e \<times> allocator" where
  "alloc_phase1 cd ops rq [] eng a = (None, eng, a)"
| "alloc_phase1 cd ops rq (gi # gis) eng a =
     (let g = al_groups a ! gi in
      if \<not> group_eligible (rq_watermark rq) a g then alloc_phase1 cd ops rq gis eng a
      else if ag_free_list g = [] then alloc_phase1 cd ops rq gis eng a
      else
        let bi = last (ag_free_list g) in
        if \<not> bucket_allowed rq g bi then alloc_phase1 cd ops rq gis eng a
        else
          case claim_bucket cd ops rq gi (unat bi) eng (upd_group gi (\<lambda>g. g\<lparr>ag_free_list := butlast (ag_free_list g)\<rparr>) a) of
            (None, eng', a') \<Rightarrow> alloc_phase1 cd ops rq gis eng' a'
          | r \<Rightarrow> r)"

text \<open>Phase 2 scans the buckets of each group for a free one; it does not touch the free list.\<close>

fun alloc_phase2 ::
  "alloc_codec \<Rightarrow> 'e engine_ops \<Rightarrow> alloc_request \<Rightarrow> nat list \<Rightarrow> 'e \<Rightarrow> allocator \<Rightarrow> (alloc_error + u64) option \<times> 'e \<times> allocator" where
  "alloc_phase2 cd ops rq [] eng a = (None, eng, a)"
| "alloc_phase2 cd ops rq (gi # gis) eng a =
     (let g = al_groups a ! gi in
      if \<not> group_eligible (rq_watermark rq) a g then alloc_phase2 cd ops rq gis eng a
      else
        case List.find (\<lambda>bi. bk_state (ag_buckets g ! bi) = DFree \<and> bucket_allowed rq g (of_nat bi)) [0..<length (ag_buckets g)] of
          None \<Rightarrow> alloc_phase2 cd ops rq gis eng a
        | Some bi \<Rightarrow>
            (case claim_bucket cd ops rq gi bi eng a of
               (None, eng', a') \<Rightarrow> alloc_phase2 cd ops rq gis eng' a'
             | r \<Rightarrow> r))"

definition start_group :: "u64 \<Rightarrow> alloc_request \<Rightarrow> wp_spec option \<Rightarrow> allocator \<Rightarrow> u64 \<times> allocator" where
  "start_group now rq sp a =
     (let n = of_nat (length (al_groups a)); rr = al_hint a; a = a\<lparr>al_hint := al_hint a + 1\<rparr>
      in case (al_wps a, sp) of
           (Some p, Some s) \<Rightarrow> let (h, p') = resolve_hint now s p in (h mod n, a\<lparr>al_wps := Some p'\<rparr>)
         | _ \<Rightarrow> (resolve_alloc_group (target_from_request (rq_target rq) (rq_watermark rq) (rq_type rq)) n rr mod n, a))"

definition group_order :: "u64 \<Rightarrow> nat \<Rightarrow> nat list" where
  "group_order start n = map (\<lambda>k. unat ((start + of_nat k) mod of_nat n)) [0..<n]"

definition allocate_bucket_inner ::
  "alloc_codec \<Rightarrow> 'e engine_ops \<Rightarrow> u64 \<Rightarrow> alloc_request \<Rightarrow> wp_spec option \<Rightarrow> 'e \<Rightarrow> allocator \<Rightarrow> (alloc_error + u64) \<times> 'e \<times> allocator" where
  "allocate_bucket_inner cd ops now rq sp eng a =
     (if al_groups a = [] then (Inl (AddressSpaceExhausted (al_total a)), eng, a)
      else
        let (start, a) = start_group now rq sp a; gis = group_order start (length (al_groups a))
        in case alloc_phase1 cd ops rq gis eng a of
             (Some r, eng, a) \<Rightarrow> (r, eng, a)
           | (None, eng, a) \<Rightarrow>
               (case alloc_phase2 cd ops rq gis eng a of
                  (Some r, eng, a) \<Rightarrow> (r, eng, a)
                | (None, eng, a) \<Rightarrow> (Inl (AddressSpaceExhausted (al_total a)), eng, a)))"

text \<open>The reservation is a cell of the request, so the request is returned with it updated.\<close>

definition commit_reservation :: "u64 \<Rightarrow> alloc_request \<Rightarrow> allocator \<Rightarrow> alloc_request \<times> allocator" where
  "commit_reservation n rq a =
     (case rq_reservation rq of
        None \<Rightarrow> (rq, a)
      | Some r \<Rightarrow> let (r', t') = reservation_commit r n (al_res a) in (rq\<lparr>rq_reservation := Some r'\<rparr>, a\<lparr>al_res := t'\<rparr>))"

definition bucket_alloc_new_fs ::
  "alloc_codec \<Rightarrow> 'e engine_ops \<Rightarrow> u64 \<Rightarrow> alloc_request \<Rightarrow> wp_spec option \<Rightarrow> 'e \<Rightarrow> allocator
    \<Rightarrow> (alloc_error + u64) \<times> alloc_request \<times> 'e \<times> allocator" where
  "bucket_alloc_new_fs cd ops now rq sp eng a =
     (case allocate_bucket_inner cd ops now rq sp eng a of
        (Inl e, eng, a) \<Rightarrow> (Inl e, rq, eng, a)
      | (Inr addr, eng, a) \<Rightarrow>
          let (rq', a) = commit_reservation (BLOCKS_PER_BUCKET * SECTORS_PER_BLOCK) rq a in (Inr addr, rq', eng, a))"

subsection \<open>Allocation with its fallbacks\<close>

definition group_bucket_to_block_addr :: "u32 \<Rightarrow> u32 \<Rightarrow> allocator \<Rightarrow> u64 option" where
  "group_bucket_to_block_addr gid bi a =
     map_option (\<lambda>g. ag_start g + ucast bi * BLOCKS_PER_BUCKET)
       (List.find (\<lambda>g. ag_id g = gid \<and> unat bi < length (ag_buckets g)) (al_groups a))"

text \<open>\<open>None\<close>: a \<open>put\<close> that does not end.\<close>

definition try_reuse_open_bucket :: "allocator \<Rightarrow> (u64 option \<times> allocator) option" where
  "try_reuse_open_bucket a =
     (let scan = (\<lambda>a.
            case find_reusable (ucast BLOCKS_PER_BUCKET) (al_open a) of
              (None, ob) \<Rightarrow> (None, a\<lparr>al_open := ob\<rparr>)
            | (Some (i, gid, bi), ob) \<Rightarrow>
                (case group_bucket_to_block_addr gid bi a of
                   Some addr \<Rightarrow> (Some addr, a\<lparr>al_open := consume_free_sectors i (ucast BLOCKS_PER_BUCKET) ob\<rparr>)
                 | None \<Rightarrow> (None, a\<lparr>al_open := ob\<rparr>)))
      in case take_from_partial (al_open a) of
           (None, ob) \<Rightarrow> Some (scan (a\<lparr>al_open := ob\<rparr>))
         | (Some (i, gid, bi), ob) \<Rightarrow>
             (case group_bucket_to_block_addr gid bi a of
                Some addr \<Rightarrow> Some (Some addr, a\<lparr>al_open := consume_free_sectors i (ucast BLOCKS_PER_BUCKET) ob\<rparr>)
              | None \<Rightarrow>
                  (case ob_put i ob of
                     None \<Rightarrow> None
                   | Some ob' \<Rightarrow> Some (scan (a\<lparr>al_open := ob'\<rparr>)))))"

definition open_bucket_free_unused :: "u16 \<Rightarrow> allocator \<Rightarrow> allocator" where
  "open_bucket_free_unused i a = a\<lparr>al_open := add_to_partial i (al_open a)\<rparr>"

text \<open>Step 2, the reuse of a bucket the write point already holds.\<close>

definition reuse_write_point :: "wp_spec option \<Rightarrow> u32 \<Rightarrow> allocator \<Rightarrow> u64 option \<times> allocator" where
  "reuse_write_point sp need a =
     (case (al_wps a, sp) of
        (Some p, Some s) \<Rightarrow>
          (case try_reuse_current_wp s need p (al_open a) of
             (Some (i, gid, bi), ob) \<Rightarrow> (group_bucket_to_block_addr gid bi a, a\<lparr>al_open := ob\<rparr>)
           | (None, ob) \<Rightarrow> (None, a\<lparr>al_open := ob\<rparr>))
      | _ \<Rightarrow> (None, a))"

definition shrink_write_points :: "wp_spec option \<Rightarrow> allocator \<Rightarrow> allocator option" where
  "shrink_write_points sp a =
     (case (al_wps a, sp) of
        (Some p, Some _) \<Rightarrow>
          (case try_decrease (BLOCKS_PER_BUCKET * SECTORS_PER_BLOCK) (free_blocks a * SECTORS_PER_BLOCK) p (al_open a) of
             None \<Rightarrow> None
           | Some (_, p', ob) \<Rightarrow> Some (a\<lparr>al_wps := Some p', al_open := ob\<rparr>))
      | _ \<Rightarrow> Some a)"

text \<open>
  The retry loop: levels 0 to 3, so four rounds at most. Levels 2 and 3 are announced as lower
  watermarks, but the request is the same in every round. \<open>None\<close> is a
  call that does not return.
\<close>

function alloc_rounds ::
  "alloc_codec \<Rightarrow> 'e engine_ops \<Rightarrow> u64 \<Rightarrow> u64 \<Rightarrow> nat \<Rightarrow> alloc_request \<Rightarrow> wp_spec option \<Rightarrow> 'e \<Rightarrow> allocator
    \<Rightarrow> ((alloc_error + u64) \<times> alloc_request \<times> 'e \<times> allocator) option" where
  "alloc_rounds cd ops now need lvl rq sp eng a =
     (case reuse_write_point sp (ucast need) a of
        (Some addr, a1) \<Rightarrow> let (rq', a2) = commit_reservation need rq a1 in Some (Inr addr, rq', eng, a2)
      | (None, a1) \<Rightarrow>
          (case (if rq_prefer_reuse rq then try_reuse_open_bucket a1 else Some (None, a1)) of
             None \<Rightarrow> None
           | Some (Some addr, a2) \<Rightarrow> let (rq', a3) = commit_reservation need rq a2 in Some (Inr addr, rq', eng, a3)
           | Some (None, a2) \<Rightarrow>
               (case bucket_alloc_new_fs cd ops now rq sp eng a2 of
                  (Inr addr, rq', eng', a3) \<Rightarrow> Some (Inr addr, rq', eng', a3)
                | (Inl e, rq', eng', a3) \<Rightarrow>
                    if lvl < 3 then
                      (case (if lvl = 0 then shrink_write_points sp a3 else Some a3) of
                         None \<Rightarrow> None
                       | Some a4 \<Rightarrow> alloc_rounds cd ops now need (lvl + 1) rq' sp eng' a4)
                    else Some (Inl e, rq', eng', a3))))"

  by pat_completeness auto

termination alloc_rounds
  by (relation "measure (\<lambda>(cd, ops, now, need, lvl, _). 3 - lvl)") auto

declare alloc_rounds.simps [simp del]

definition alloc_sectors_start_trans ::
  "alloc_codec \<Rightarrow> 'e engine_ops \<Rightarrow> u64 \<Rightarrow> u64 \<Rightarrow> alloc_request \<Rightarrow> wp_spec option \<Rightarrow> 'e \<Rightarrow> allocator
    \<Rightarrow> ((alloc_error + u64) \<times> alloc_request \<times> 'e \<times> allocator) option" where
  "alloc_sectors_start_trans cd ops now count rq sp eng a =
     (let need = count * BLOCKS_PER_BUCKET * SECTORS_PER_BLOCK in
      if (case rq_reservation rq of None \<Rightarrow> False | Some r \<Rightarrow> dr_sectors r < need)
      then Some (Inl (ReserveExhausted 0 (max_reservable (al_res a))), rq, eng, a)
      else alloc_rounds cd ops now need 0 rq sp eng a)"

fun alloc_buckets ::
  "alloc_codec \<Rightarrow> 'e engine_ops \<Rightarrow> u64 \<Rightarrow> nat \<Rightarrow> alloc_request \<Rightarrow> wp_spec option \<Rightarrow> 'e \<Rightarrow> allocator
    \<Rightarrow> (storage_error + u64 list) \<times> alloc_request \<times> 'e \<times> allocator" where
  "alloc_buckets cd ops now 0 rq sp eng a = (Inr [], rq, eng, a)"
| "alloc_buckets cd ops now (Suc n) rq sp eng a =
     (case bucket_alloc_new_fs cd ops now rq sp eng a of
        (Inl e, rq, eng, a) \<Rightarrow> (Inl (storage_error_of_alloc e), rq, eng, a)
      | (Inr addr, rq, eng, a) \<Rightarrow>
          (case alloc_buckets cd ops now n rq sp eng a of
             (Inl e, r) \<Rightarrow> (Inl e, r)
           | (Inr addrs, r) \<Rightarrow> (Inr (addr # addrs), r)))"

subsection \<open>Release\<close>

definition open_bucket_put :: "u64 \<Rightarrow> allocator \<Rightarrow> allocator option" where
  "open_bucket_put addr a =
     (if al_total a \<le> addr then Some a
      else case group_of_block addr a of
        None \<Rightarrow> Some a
      | Some gi \<Rightarrow>
          let g = al_groups a ! gi in
          (case ob_lookup (ag_id g) (of_nat (bucket_of_block addr g)) (al_open a) of
             None \<Rightarrow> None
           | Some None \<Rightarrow> Some a
           | Some (Some i) \<Rightarrow> map_option (\<lambda>ob. a\<lparr>al_open := ob\<rparr>) (ob_put i (al_open a))))"

text \<open>\<open>bch2_bucket_free\<close>: the open handle is put back, the bucket waits for its trim.\<close>

definition bucket_release ::
  "alloc_codec \<Rightarrow> 'e engine_ops \<Rightarrow> u64 \<Rightarrow> 'e \<Rightarrow> allocator \<Rightarrow> ((storage_error + unit) \<times> 'e \<times> allocator) option" where
  "bucket_release cd ops addr eng a =
     (if al_total a \<le> addr then Some (Inr (), eng, a)
      else case group_of_block addr a of
        None \<Rightarrow> Some (Inr (), eng, a)
      | Some gi \<Rightarrow>
          let g = al_groups a ! gi; bi = bucket_of_block addr g in
          if \<not> (bi < length (ag_buckets g) \<and> bk_state (ag_buckets g ! bi) \<noteq> DFree) then Some (Inr (), eng, a)
          else
            case (case ob_lookup (ag_id g) (of_nat bi) (al_open a) of
                    None \<Rightarrow> None | Some None \<Rightarrow> Some (al_open a) | Some (Some i) \<Rightarrow> ob_put i (al_open a)) of
              None \<Rightarrow> None
            | Some ob \<Rightarrow>
                let b = ag_buckets g ! bi; v = bk_version b + 1;
                    a = (upd_group gi (set_bucket bi (b\<lparr>bk_state := DNeedDiscard, bk_version := v\<rparr>)) a)\<lparr>al_open := ob\<rparr>
                in (case serialize_alloc_entry cd (from_bucket (ag_id g) DNeedDiscard v) of
                      None \<Rightarrow> Some (Inl TransactionErr, eng, a)
                    | Some bytes \<Rightarrow>
                        Some (Inr (), eng_insert ops Alloc (entry_raw (Bpos 0 (addr div BLOCKS_PER_BUCKET) 0) key_type.Normal bytes) eng, a)))"

definition bucket_do_trim ::
  "alloc_codec \<Rightarrow> 'e engine_ops \<Rightarrow> u64 \<Rightarrow> 'e \<Rightarrow> allocator \<Rightarrow> (storage_error + unit) \<times> 'e \<times> allocator" where
  "bucket_do_trim cd ops addr eng a =
     (if al_total a \<le> addr then (Inr (), eng, a)
      else case group_of_block addr a of
        None \<Rightarrow> (Inr (), eng, a)
      | Some gi \<Rightarrow>
          let g = al_groups a ! gi; bi = bucket_of_block addr g in
          if \<not> (bi < length (ag_buckets g) \<and> bk_state (ag_buckets g ! bi) = DNeedDiscard) then (Inr (), eng, a)
          else
            let b = ag_buckets g ! bi; v = bk_version b;
                a = (upd_group gi (\<lambda>g. (set_bucket bi (b\<lparr>bk_state := DFree\<rparr>) g)
                        \<lparr>ag_free := ag_free g + 1, ag_free_list := ag_free_list g @ [of_nat bi]\<rparr>) a)
                      \<lparr>al_allocated := al_allocated a - BLOCKS_PER_BUCKET\<rparr>;
                idx = addr div BLOCKS_PER_BUCKET
            in case serialize_alloc_entry cd (from_bucket (ag_id g) DFree v) of
                 None \<Rightarrow> (Inl TransactionErr, eng, a)
               | Some bytes \<Rightarrow>
                   (Inr (), eng_insert ops Freespace (entry_raw (Bpos 0 idx v) key_type.Normal [])
                      (eng_insert ops Alloc (entry_raw (Bpos 0 idx 0) key_type.Normal bytes) eng), a))"

end
