(* ===== verification/AllocBtree.thy ===== *)
theory AllocBtree
  imports Allocator
begin

text \<open>
  The allocator's side of the Alloc and Freespace btrees (\<open>alloc/mod.rs\<close>): loading the bucket
  states at start-up, the trigger that turns an inserted or deleted extent into an update of its
  bucket's entry, the trigger that keeps the Freespace btree in step, and its rebuild.
\<close>

subsection \<open>Loading\<close>

text \<open>The last decodable entry of every bucket, in the order the btree lists them.\<close>

definition entry_alloc :: "alloc_codec \<Rightarrow> btree_entry \<Rightarrow> alloc_entry option" where
  "entry_alloc cd e = (case evalue e of Raw bs \<Rightarrow> deserialize_alloc_entry cd bs | _ \<Rightarrow> None)"

definition latest_entries :: "alloc_codec \<Rightarrow> btree_entry list \<Rightarrow> u64 \<Rightarrow> alloc_entry option" where
  "latest_entries cd es =
     fold (\<lambda>e m. case entry_alloc cd e of Some x \<Rightarrow> m(offset (pos e) \<mapsto> x) | None \<Rightarrow> m) es (\<lambda>_. None)"

definition group_first :: "alloc_group \<Rightarrow> nat" where
  "group_first g = unat (ag_start g div BLOCKS_PER_BUCKET)"

definition load_entry :: "u64 \<Rightarrow> alloc_entry \<Rightarrow> allocator \<Rightarrow> allocator" where
  "load_entry i e a =
     (if ae_state e = DFree then a
      else
        case List.find (\<lambda>gi. let g = al_groups a ! gi in
               group_first g \<le> unat i \<and> unat i < group_first g + length (ag_buckets g)) [0..<length (al_groups a)] of
          None \<Rightarrow> a
        | Some gi \<Rightarrow>
            let g = al_groups a ! gi; bi = unat i - group_first g in
            if bk_state (ag_buckets g ! bi) = DFree then
              (upd_group gi (\<lambda>g. (set_bucket bi ((ag_buckets g ! bi)\<lparr>bk_state := ae_state e, bk_version := ae_version e\<rparr>) g)
                  \<lparr>ag_free := ag_free g - 1\<rparr>) a)\<lparr>al_allocated := al_allocated a + BLOCKS_PER_BUCKET\<rparr>
            else a)"

definition rebuild_free_list :: "alloc_group \<Rightarrow> alloc_group" where
  "rebuild_free_list g =
     (let fl = map of_nat (filter (\<lambda>i. bk_state (ag_buckets g ! i) = DFree) [0..<length (ag_buckets g)])
      in g\<lparr>ag_free_list := fl, ag_free := of_nat (length fl)\<rparr>)"

text \<open>The hash map is visited in an order of its own: \<open>order\<close> lists its keys.\<close>

definition alloc_read :: "alloc_codec \<Rightarrow> 'e engine_ops \<Rightarrow> u64 list \<Rightarrow> 'e \<Rightarrow> allocator \<Rightarrow> allocator" where
  "alloc_read cd ops order eng a =
     (let latest = latest_entries cd (eng_each ops Alloc eng);
          a = fold (\<lambda>i a. case latest i of Some e \<Rightarrow> load_entry i e a | None \<Rightarrow> a) order a
      in a\<lparr>al_groups := map rebuild_free_list (al_groups a)\<rparr>)"

subsection \<open>Triggers\<close>

definition trigger_extent ::
  "alloc_codec \<Rightarrow> 'e engine_ops \<Rightarrow> u8 list option \<Rightarrow> u8 list option \<Rightarrow> 'e \<Rightarrow> (storage_error + unit) \<times> 'e" where
  "trigger_extent cd ops old_val new_val eng =
     (case (case new_val of Some bs \<Rightarrow> Some bs | None \<Rightarrow> old_val) of
        None \<Rightarrow> (Inr (), eng)
      | Some bs \<Rightarrow>
          if length bs < 8 then (Inr (), eng)
          else
            let pa = le_word (take 8 bs) :: u64 in
            if pa = 0 then (Inr (), eng)
            else if addr48_max < pa then (Inl TransactionErr, eng)
            else
              let idx = pa div BLOCKS_PER_BUCKET;
                  v = (if 10 \<le> length bs then ucast (le_word (take 2 (drop 8 bs)) :: u16) else 0);
                  ps = Bpos 0 idx 0;
                  old = (case eng_get ops Alloc ps eng of Some e \<Rightarrow> entry_alloc cd e | None \<Rightarrow> None);
                  dirty = (case old of Some o' \<Rightarrow> ucast (ae_dirty o') | None \<Rightarrow> 0) :: u64;
                  cached = (case old of Some o' \<Rightarrow> ucast (ae_cached o') | None \<Rightarrow> 0) :: u64;
                  q = (case old of Some o' \<Rightarrow> ae_journal_seq o' | None \<Rightarrow> 0);
                  (st, d, c) = (if new_val \<noteq> None then (DUser, dirty + SECTORS_PER_BLOCK, cached)
                                else (DFree, saturating_sub dirty SECTORS_PER_BLOCK, cached))
              in case serialize_alloc_entry cd \<lparr>ae_journal_seq = q, ae_dirty = ucast d, ae_cached = ucast c, ae_stripe = 0,
                        ae_state = st, ae_version = v, ae_io_time_read = 0, ae_backpointers = 0, ae_group = 0\<rparr> of
                   None \<Rightarrow> (Inl TransactionErr, eng)
                 | Some bytes \<Rightarrow>
                     let eng = (if old_val \<noteq> None then eng_insert ops Alloc (entry_raw ps Deleted []) eng else eng)
                     in (Inr (), eng_insert ops Alloc (entry_raw ps key_type.Normal bytes) eng))"

definition freespace_insert :: "'e engine_ops \<Rightarrow> u64 \<Rightarrow> u32 \<Rightarrow> 'e \<Rightarrow> 'e" where
  "freespace_insert ops i gn eng = eng_insert ops Freespace (entry_raw (Bpos 0 i gn) key_type.Normal []) eng"

definition freespace_delete :: "'e engine_ops \<Rightarrow> u64 \<Rightarrow> u32 \<Rightarrow> 'e \<Rightarrow> 'e" where
  "freespace_delete ops i gn eng = eng_insert ops Freespace (entry_raw (Bpos 0 i gn) Deleted []) eng"

definition trigger_alloc_freespace ::
  "alloc_codec \<Rightarrow> 'e engine_ops \<Rightarrow> u8 list \<Rightarrow> u8 list option \<Rightarrow> u8 list option \<Rightarrow> 'e \<Rightarrow> 'e" where
  "trigger_alloc_freespace cd ops key old_val new_val eng =
     (if length key < 16 then eng
      else
        let i = le_word (take 8 (drop 8 key)) :: u64;
            dec = (\<lambda>v. case v of None \<Rightarrow> None | Some bs \<Rightarrow> deserialize_alloc_entry cd bs);
            was_free = (case dec old_val of Some e \<Rightarrow> ae_state e = DFree | None \<Rightarrow> False);
            is_free = (case dec new_val of Some e \<Rightarrow> ae_state e = DFree | None \<Rightarrow> False);
            gn = (case dec new_val of Some e \<Rightarrow> ae_version e
                  | None \<Rightarrow> (case dec old_val of Some e \<Rightarrow> ae_version e | None \<Rightarrow> 0))
        in if was_free \<and> \<not> is_free then freespace_delete ops i gn eng
           else if \<not> was_free \<and> is_free then freespace_insert ops i gn eng
           else eng)"

text \<open>\<open>bch2_trigger_gc\<close> runs the extent trigger once more.\<close>

definition trigger_gc ::
  "alloc_codec \<Rightarrow> 'e engine_ops \<Rightarrow> u8 list option \<Rightarrow> u8 list option \<Rightarrow> 'e \<Rightarrow> (storage_error + unit) \<times> 'e" where
  "trigger_gc cd ops old_val new_val eng = trigger_extent cd ops old_val new_val eng"

subsection \<open>Rebuilding the Freespace btree\<close>

text \<open>The holes between consecutive buckets are taken as free with generation 0.\<close>

fun rebuild_scan :: "u64 option \<Rightarrow> (u64 \<times> alloc_entry) list \<Rightarrow> (u64 \<times> u32) list" where
  "rebuild_scan prev [] = []"
| "rebuild_scan prev ((i, e) # es) =
     (case prev of
        None \<Rightarrow> []
      | Some p \<Rightarrow> if p + 1 < i then map (\<lambda>k. (of_nat k, 0)) [unat (p + 1)..<unat i] else []) @
     (if ae_state e = DFree then [(i, ae_version e)] else []) @ rebuild_scan (Some i) es"

definition decoded_entries :: "alloc_codec \<Rightarrow> btree_entry list \<Rightarrow> (u64 \<times> alloc_entry) list" where
  "decoded_entries cd es = List.map_filter (\<lambda>e. map_option (Pair (offset (pos e))) (entry_alloc cd e)) es"

definition rebuild_freespace :: "alloc_codec \<Rightarrow> 'e engine_ops \<Rightarrow> 'e \<Rightarrow> 'e" where
  "rebuild_freespace cd ops eng =
     fold (\<lambda>(i, gn). freespace_insert ops i gn)
       (rebuild_scan None (sort_key fst (decoded_entries cd (eng_each ops Alloc eng)))) eng"

end
