(* ===== verification/AllocatorInv.thy ===== *)
theory AllocatorInv
  imports AllocBtree
begin

text \<open>
  The allocator's invariant: in every group the free list names free buckets, each at most once,
  and the counter is the number of free buckets; the groups' address ranges are disjoint; the open-bucket pool is
  well formed and every open handle belongs to a bucket in use. From it follows the
  contract of an allocator over the set \<open>held\<close> of the addresses given out.
\<close>

subsection \<open>Groups\<close>

lemma bpb_256: "BLOCKS_PER_BUCKET = 256"
  by (simp add: BLOCKS_PER_BUCKET_def)

definition bucket_addr :: "alloc_group \<Rightarrow> nat \<Rightarrow> nat" where
  "bucket_addr g bi = unat (ag_start g) + bi * 256"

definition group_wf :: "alloc_group \<Rightarrow> bool" where
  "group_wf g \<longleftrightarrow> length (ag_buckets g) < 2 ^ 32 \<and>
     (\<forall>bi < length (ag_buckets g). bucket_addr g bi < unat (ag_start g) + unat (ag_blocks g)) \<and>
     unat (ag_start g) + unat (ag_blocks g) < 2 ^ 64"

definition free_set :: "alloc_group \<Rightarrow> nat set" where
  "free_set g = {bi. bi < length (ag_buckets g) \<and> bk_state (ag_buckets g ! bi) = DFree}"

definition free_list_ok :: "alloc_group \<Rightarrow> bool" where
  "free_list_ok g \<longleftrightarrow> distinct (ag_free_list g) \<and> unat ` set (ag_free_list g) \<subseteq> free_set g \<and>
     ag_free g = of_nat (card (free_set g))"

definition groups_disjoint :: "alloc_group list \<Rightarrow> bool" where
  "groups_disjoint gs \<longleftrightarrow> (\<forall>i < length gs. \<forall>j < length gs. i \<noteq> j \<longrightarrow>
     ag_id (gs ! i) \<noteq> ag_id (gs ! j) \<and>
     (unat (ag_start (gs ! i)) + unat (ag_blocks (gs ! i)) \<le> unat (ag_start (gs ! j)) \<or>
      unat (ag_start (gs ! j)) + unat (ag_blocks (gs ! j)) \<le> unat (ag_start (gs ! i))))"

text \<open>The bucket an open handle stands for holds user data.\<close>

definition opens_ok :: "open_buckets \<Rightarrow> alloc_group list \<Rightarrow> bool" where
  "opens_ok ob gs \<longleftrightarrow> (\<forall>i g b. ob_view ob i = Some (g, b) \<longrightarrow>
     (\<exists>gi < length gs. ag_id (gs ! gi) = g \<and> unat b < length (ag_buckets (gs ! gi)) \<and>
        bk_state (ag_buckets (gs ! gi) ! unat b) = DUser))"

definition alloc_inv :: "allocator \<Rightarrow> bool" where
  "alloc_inv a \<longleftrightarrow> (\<forall>g \<in> set (al_groups a). group_wf g \<and> free_list_ok g) \<and> groups_disjoint (al_groups a) \<and>
     (\<forall>g \<in> set (al_groups a). unat (ag_start g) + unat (ag_blocks g) \<le> unat (al_total a)) \<and>
     length (al_groups a) < 2 ^ 32 \<and> pool_wf (al_open a) \<and> obp.exclusive (al_open a) \<and> opens_ok (al_open a) (al_groups a) \<and>
     (\<forall>p. al_wps a = Some p \<longrightarrow> wpp_ok p)"

definition held :: "allocator \<Rightarrow> nat set" where
  "held a = {bucket_addr (al_groups a ! gi) bi | gi bi. gi < length (al_groups a) \<and>
     bi < length (ag_buckets (al_groups a ! gi)) \<and> bk_state (ag_buckets (al_groups a ! gi) ! bi) \<noteq> DFree}"

lemma alloc_invD:
  assumes "alloc_inv a" "gi < length (al_groups a)"
  shows "group_wf (al_groups a ! gi)" "free_list_ok (al_groups a ! gi)"
    "unat (ag_start (al_groups a ! gi)) + unat (ag_blocks (al_groups a ! gi)) \<le> unat (al_total a)"
  using assms by (auto simp: alloc_inv_def)

lemma unat_bucket_addr:
  assumes "group_wf g" "bi < length (ag_buckets g)"
  shows "unat (ag_start g + of_nat bi * BLOCKS_PER_BUCKET) = bucket_addr g bi"
proof -
  have lt: "bucket_addr g bi < 2 ^ 64" using assms by (fastforce simp: group_wf_def)
  then have "bi * 256 < 2 ^ 64" by (simp add: bucket_addr_def)
  then have "unat (of_nat bi * BLOCKS_PER_BUCKET :: u64) = bi * 256"
    by (simp add: bpb_256 unat_word_ariths unsigned_of_nat take_bit_eq_mod mod_mult_left_eq)
  then show ?thesis using lt by (simp add: unat_word_ariths bucket_addr_def)
qed

lemma bucket_addr_inj:
  assumes inv: "alloc_inv a" and i: "gi < length (al_groups a)" "bi < length (ag_buckets (al_groups a ! gi))"
    and j: "gj < length (al_groups a)" "bj < length (ag_buckets (al_groups a ! gj))"
    and eq: "bucket_addr (al_groups a ! gi) bi = bucket_addr (al_groups a ! gj) bj"
  shows "gi = gj \<and> bi = bj"
proof (cases "gi = gj")
  case True
  then show ?thesis using eq by (simp add: bucket_addr_def)
next
  case False
  let ?g = "al_groups a ! gi" and ?h = "al_groups a ! gj"
  have "bucket_addr ?g bi < unat (ag_start ?g) + unat (ag_blocks ?g)" "bucket_addr ?h bj < unat (ag_start ?h) + unat (ag_blocks ?h)"
    using alloc_invD(1)[OF inv] i j by (auto simp: group_wf_def)
  moreover have "unat (ag_start ?g) \<le> bucket_addr ?g bi" "unat (ag_start ?h) \<le> bucket_addr ?h bj" by (simp_all add: bucket_addr_def)
  moreover have "unat (ag_start ?g) + unat (ag_blocks ?g) \<le> unat (ag_start ?h) \<or> unat (ag_start ?h) + unat (ag_blocks ?h) \<le> unat (ag_start ?g)"
    using inv i(1) j(1) False by (auto simp: alloc_inv_def groups_disjoint_def)
  ultimately show ?thesis using eq by linarith
qed

lemma held_iff:
  assumes "alloc_inv a" "gi < length (al_groups a)" "bi < length (ag_buckets (al_groups a ! gi))"
  shows "bucket_addr (al_groups a ! gi) bi \<in> held a \<longleftrightarrow> bk_state (ag_buckets (al_groups a ! gi) ! bi) \<noteq> DFree"
proof
  assume "bucket_addr (al_groups a ! gi) bi \<in> held a"
  then obtain gj bj where j: "gj < length (al_groups a)" "bj < length (ag_buckets (al_groups a ! gj))"
    "bucket_addr (al_groups a ! gi) bi = bucket_addr (al_groups a ! gj) bj" "bk_state (ag_buckets (al_groups a ! gj) ! bj) \<noteq> DFree"
    by (auto simp: held_def)
  then show "bk_state (ag_buckets (al_groups a ! gi) ! bi) \<noteq> DFree" using bucket_addr_inj[OF assms j(1-3)] by simp
qed (use assms in \<open>auto simp: held_def\<close>)

subsection \<open>One group changes\<close>

text \<open>An update of one bucket of one group, with the free list adjusted to match.\<close>

definition same_frame :: "alloc_group \<Rightarrow> alloc_group \<Rightarrow> bool" where
  "same_frame g g' \<longleftrightarrow> ag_id g' = ag_id g \<and> ag_start g' = ag_start g \<and> ag_blocks g' = ag_blocks g \<and>
     length (ag_buckets g') = length (ag_buckets g)"

lemma same_frame_wf: "same_frame g g' \<Longrightarrow> group_wf g \<Longrightarrow> group_wf g'"
  by (simp add: same_frame_def group_wf_def bucket_addr_def)

lemma same_frame_refl [simp]: "same_frame g g"
  by (simp add: same_frame_def)

lemma same_frame_trans: "same_frame g h \<Longrightarrow> same_frame h k \<Longrightarrow> same_frame g k"
  by (simp add: same_frame_def)

text \<open>The same groups, bucket contents apart.\<close>

abbreviation same_frames :: "allocator \<Rightarrow> allocator \<Rightarrow> bool" where
  "same_frames a a' \<equiv> list_all2 same_frame (al_groups a) (al_groups a')"

lemma same_frames_refl [simp]: "list_all2 same_frame gs gs"
  by (rule list_all2_refl) simp

lemma same_frames_trans: "list_all2 same_frame xs ys \<Longrightarrow> list_all2 same_frame ys zs \<Longrightarrow> list_all2 same_frame xs zs"
  by (rule list_all2_trans[of same_frame same_frame same_frame]) (auto intro: same_frame_trans)

lemma same_frames_upd: "same_frame (gs ! gi) g' \<Longrightarrow> list_all2 same_frame gs (gs[gi := g'])"
  by (cases "gi < length gs") (auto simp: list_all2_conv_all_nth nth_list_update list_update_beyond)

lemma same_frame_addr: "same_frame g g' \<Longrightarrow> bucket_addr g' = bucket_addr g"
  by (simp add: same_frame_def bucket_addr_def fun_eq_iff)

lemma groups_disjoint_upd:
  "groups_disjoint gs \<Longrightarrow> same_frame (gs ! gi) g' \<Longrightarrow> groups_disjoint (gs[gi := g'])"
  by (cases "gi < length gs") (auto simp: groups_disjoint_def same_frame_def nth_list_update list_update_beyond)

text \<open>
  The state after group \<open>gi\<close> becomes \<open>g'\<close>, which differs in bucket \<open>bi\<close> only, and the pool
  becomes \<open>ob'\<close>.
\<close>

lemma inv_upd:
  assumes inv: "alloc_inv a" and gi: "gi < length (al_groups a)" and fr: "same_frame (al_groups a ! gi) g'"
    and fl: "free_list_ok g'"
    and a': "al_groups a' = (al_groups a)[gi := g']" "al_total a' = al_total a" "al_wps a' = al_wps a"
    and ob: "pool_wf (al_open a')" "obp.exclusive (al_open a')" "opens_ok (al_open a') ((al_groups a)[gi := g'])"
  shows "alloc_inv a'"
proof -
  have "group_wf g \<and> free_list_ok g \<and> unat (ag_start g) + unat (ag_blocks g) \<le> unat (al_total a)"
    if "g \<in> set ((al_groups a)[gi := g'])" for g
  proof -
    from that have "g \<in> insert g' (set (al_groups a))" using set_update_subset_insert by fast
    moreover have "group_wf g'" using same_frame_wf[OF fr] alloc_invD(1)[OF inv gi] by simp
    moreover have "unat (ag_start g') + unat (ag_blocks g') \<le> unat (al_total a)"
      using fr alloc_invD(3)[OF inv gi] by (simp add: same_frame_def)
    ultimately show ?thesis using inv fl by (auto simp: alloc_inv_def)
  qed
  moreover have "groups_disjoint ((al_groups a)[gi := g'])"
    using groups_disjoint_upd[OF _ fr] inv by (simp add: alloc_inv_def)
  ultimately show ?thesis using inv ob unfolding alloc_inv_def a' length_list_update by blast
qed

lemma held_upd:
  assumes inv: "alloc_inv a" and gi: "gi < length (al_groups a)" and fr: "same_frame (al_groups a ! gi) g'"
    and bi: "bi < length (ag_buckets (al_groups a ! gi))"
    and oth: "\<And>k. k < length (ag_buckets g') \<Longrightarrow> k \<noteq> bi \<Longrightarrow> bk_state (ag_buckets g' ! k) = bk_state (ag_buckets (al_groups a ! gi) ! k)"
    and a': "al_groups a' = (al_groups a)[gi := g']"
  shows "held a' = (if bk_state (ag_buckets g' ! bi) = DFree then held a - {bucket_addr (al_groups a ! gi) bi}
     else insert (bucket_addr (al_groups a ! gi) bi) (held a))"
proof -
  let ?g = "al_groups a ! gi" and ?x = "bucket_addr (al_groups a ! gi) bi"
  have len: "length (ag_buckets g') = length (ag_buckets ?g)" using fr by (simp add: same_frame_def)
  have at: "al_groups a' ! gj = (if gj = gi then g' else al_groups a ! gj)" if "gj < length (al_groups a)" for gj
    using that gi by (simp add: a')
  have la: "length (al_groups a') = length (al_groups a)" by (simp add: a')
  have "x \<in> held a' \<longleftrightarrow> (if x = ?x then bk_state (ag_buckets g' ! bi) \<noteq> DFree else x \<in> held a)" for x
  proof -
    have "x \<in> held a' \<longleftrightarrow> (\<exists>gj bj. gj < length (al_groups a) \<and> bj < length (ag_buckets (al_groups a ! gj)) \<and>
        x = bucket_addr (al_groups a ! gj) bj \<and>
        (if gj = gi \<and> bj = bi then bk_state (ag_buckets g' ! bi) \<noteq> DFree else bk_state (ag_buckets (al_groups a ! gj) ! bj) \<noteq> DFree))"
    proof -
      have b: "length (ag_buckets (al_groups a' ! gj)) = length (ag_buckets (al_groups a ! gj))"
        "bucket_addr (al_groups a' ! gj) = bucket_addr (al_groups a ! gj)" if "gj < length (al_groups a)" for gj
        using at[OF that] len same_frame_addr[OF fr] by simp_all
      have st: "bk_state (ag_buckets (al_groups a' ! gj) ! bj) \<noteq> DFree \<longleftrightarrow>
          (if gj = gi \<and> bj = bi then bk_state (ag_buckets g' ! bi) \<noteq> DFree else bk_state (ag_buckets (al_groups a ! gj) ! bj) \<noteq> DFree)"
        if "gj < length (al_groups a)" "bj < length (ag_buckets (al_groups a ! gj))" for gj bj
        using at[OF that(1)] oth[of bj] that(2) len by auto
      have "x \<in> held a' \<longleftrightarrow> (\<exists>gj bj. x = bucket_addr (al_groups a' ! gj) bj \<and> gj < length (al_groups a) \<and>
          bj < length (ag_buckets (al_groups a' ! gj)) \<and> bk_state (ag_buckets (al_groups a' ! gj) ! bj) \<noteq> DFree)"
        by (simp add: held_def la)
      then show ?thesis using b st by metis
    qed
    also have "\<dots> \<longleftrightarrow> (if x = ?x then bk_state (ag_buckets g' ! bi) \<noteq> DFree else x \<in> held a)"
    proof (cases "x = ?x")
      case True
      have u: "gj = gi \<and> bj = bi" if "gj < length (al_groups a)" "bj < length (ag_buckets (al_groups a ! gj))"
        "x = bucket_addr (al_groups a ! gj) bj" for gj bj
        using bucket_addr_inj[OF inv gi bi that(1,2)] that(3) True by simp
      have "(\<exists>gj bj. gj < length (al_groups a) \<and> bj < length (ag_buckets (al_groups a ! gj)) \<and>
        x = bucket_addr (al_groups a ! gj) bj \<and> Q gj bj) \<longleftrightarrow> Q gi bi" for Q
        using u gi bi True by blast
      then show ?thesis using True by simp
    next
      case False
      then show ?thesis unfolding held_def by (auto split: if_splits)
    qed
    finally show ?thesis .
  qed
  then show ?thesis by (intro set_eqI) simp
qed

subsection \<open>Claiming a free bucket\<close>

text \<open>\<open>bincode\<close> encodes every entry: the record has no part that can fail.\<close>

definition codec_total :: "alloc_codec \<Rightarrow> bool" where
  "codec_total cd \<longleftrightarrow> (\<forall>e. enc_entry cd e \<noteq> None)"

definition pool_free :: "allocator \<Rightarrow> bool" where
  "pool_free a \<longleftrightarrow> freelist_head (al_open a) \<noteq> 0"

lemma id_unique:
  "alloc_inv a \<Longrightarrow> i < length (al_groups a) \<Longrightarrow> j < length (al_groups a) \<Longrightarrow> ag_id (al_groups a ! i) = ag_id (al_groups a ! j) \<Longrightarrow> i = j"
  by (auto simp: alloc_inv_def groups_disjoint_def)

lemma free_not_open:
  assumes inv: "alloc_inv a" and gi: "gi < length (al_groups a)" and bi: "bk_state (ag_buckets (al_groups a ! gi) ! unat bi) = DFree"
  shows "(ag_id (al_groups a ! gi), bi) \<notin> ran (ob_view (al_open a))"
proof
  assume "(ag_id (al_groups a ! gi), bi) \<in> ran (ob_view (al_open a))"
  then obtain i where "ob_view (al_open a) i = Some (ag_id (al_groups a ! gi), bi)" by (auto simp: ran_def)
  moreover have "opens_ok (al_open a) (al_groups a)" using inv by (simp add: alloc_inv_def)
  ultimately obtain gj where "gj < length (al_groups a)" "ag_id (al_groups a ! gj) = ag_id (al_groups a ! gi)"
    "bk_state (ag_buckets (al_groups a ! gj) ! unat bi) = DUser"
    unfolding opens_ok_def by blast
  moreover then have "gj = gi" using id_unique[OF inv _ gi] by blast
  ultimately show False using bi by simp
qed

lemma opens_ok_upd:
  assumes op: "opens_ok ob gs" and fr: "same_frame (gs ! gi) g'"
    and st: "\<And>bi. bi < length (ag_buckets g') \<Longrightarrow> bk_state (ag_buckets (gs ! gi) ! bi) = DUser \<Longrightarrow> bk_state (ag_buckets g' ! bi) = DUser"
  shows "opens_ok ob (gs[gi := g'])"
  unfolding opens_ok_def
proof (intro allI impI)
  fix i g b
  assume "ob_view ob i = Some (g, b)"
  then obtain gj where j: "gj < length gs" "ag_id (gs ! gj) = g" "unat b < length (ag_buckets (gs ! gj))"
    "bk_state (ag_buckets (gs ! gj) ! unat b) = DUser" using op unfolding opens_ok_def by blast
  then have "ag_id (gs[gi := g'] ! gj) = g \<and> unat b < length (ag_buckets (gs[gi := g'] ! gj)) \<and>
      bk_state (ag_buckets (gs[gi := g'] ! gj) ! unat b) = DUser"
    using fr st by (cases "gi = gj") (auto simp: same_frame_def)
  then show "\<exists>gj < length (gs[gi := g']). ag_id (gs[gi := g'] ! gj) = g \<and> unat b < length (ag_buckets (gs[gi := g'] ! gj)) \<and>
      bk_state (ag_buckets (gs[gi := g'] ! gj) ! unat b) = DUser" using j(1) by auto
qed

text \<open>The group after one of its buckets was claimed, and after its list was popped.\<close>

definition claimed_bucket :: "alloc_request \<Rightarrow> bucket \<Rightarrow> bucket" where
  "claimed_bucket rq b = b\<lparr>bk_state := DUser, bk_version := bk_version b + 1,
     bk_journal_seq := (if 0 < rq_journal_seq rq then rq_journal_seq rq else bk_journal_seq b)\<rparr>"

definition claimed_group :: "alloc_request \<Rightarrow> nat \<Rightarrow> alloc_group \<Rightarrow> alloc_group" where
  "claimed_group rq bi g = g\<lparr>ag_buckets := (ag_buckets g)[bi := claimed_bucket rq (ag_buckets g ! bi)], ag_free := ag_free g - 1\<rparr>"

definition pop_group :: "alloc_group \<Rightarrow> alloc_group" where
  "pop_group g = g\<lparr>ag_free_list := butlast (ag_free_list g)\<rparr>"

lemma free_set_fin: "finite (free_set g)" "free_set g \<subseteq> {0..<length (ag_buckets g)}"
  by (auto simp: free_set_def intro: finite_subset[of _ "{0..<length (ag_buckets g)}"])

lemma free_set_claimed:
  "bi < length (ag_buckets g) \<Longrightarrow> free_set (claimed_group rq bi g) = free_set g - {bi}"
  by (auto simp: free_set_def claimed_group_def claimed_bucket_def nth_list_update)

lemma claimed_group_ok:
  assumes "free_list_ok g" "bi \<in> free_set g" "bi \<notin> unat ` set (ag_free_list g)"
  shows "free_list_ok (claimed_group rq bi g)" "same_frame g (claimed_group rq bi g)"
proof -
  have bi: "bi < length (ag_buckets g)" using assms(2) by (simp add: free_set_def)
  have "0 < card (free_set g)" using assms(2) free_set_fin(1) by (auto simp: card_gt_0_iff)
  then have "(of_nat (card (free_set g - {bi})) :: u64) = of_nat (card (free_set g)) - 1"
    using assms(2) by (simp add: card_Diff_singleton of_nat_diff)
  then show "free_list_ok (claimed_group rq bi g)"
    using assms free_set_claimed[OF bi, of rq] by (auto simp: free_list_ok_def claimed_group_def[of rq bi g])
  show "same_frame g (claimed_group rq bi g)" by (simp add: same_frame_def claimed_group_def)
qed

lemma pop_group_ok: "free_list_ok g \<Longrightarrow> free_list_ok (pop_group g)" "same_frame g (pop_group g)"
  "free_set (pop_group g) = free_set g" "ag_buckets (pop_group g) = ag_buckets g"
proof -
  have f: "free_set (pop_group g) = free_set g" by (simp add: free_set_def pop_group_def)
  then show "free_set (pop_group g) = free_set g" .
  show "free_list_ok (pop_group g)" if "free_list_ok g"
    using that f in_set_butlastD[of _ "ag_free_list g"] by (auto simp: free_list_ok_def pop_group_def distinct_butlast)
qed (simp_all add: same_frame_def pop_group_def)

lemma inv_pop:
  assumes inv: "alloc_inv a" and gi: "gi < length (al_groups a)"
  shows "alloc_inv (upd_group gi pop_group a)" "held (upd_group gi pop_group a) = held a"
proof -
  note pg = pop_group_ok(1)[OF alloc_invD(2)[OF inv gi]] pop_group_ok(2)[of "al_groups a ! gi"] pop_group_ok(4)[of "al_groups a ! gi"]
  have op: "pool_wf (al_open a)" "obp.exclusive (al_open a)" "opens_ok (al_open a) (al_groups a)"
    using inv by (simp_all add: alloc_inv_def)
  show "alloc_inv (upd_group gi pop_group a)"
    by (rule inv_upd[OF inv gi pg(2,1)]) (use op opens_ok_upd[OF op(3) pg(2)] pg(3) in \<open>simp_all add: upd_group_def\<close>)
  have "al_groups a ! gi = al_groups a ! gi" ..
  show "held (upd_group gi pop_group a) = held a"
  proof (rule set_eqI)
    fix x
    have e: "ag_buckets ((al_groups a)[gi := pop_group (al_groups a ! gi)] ! gj) = ag_buckets (al_groups a ! gj)"
      "bucket_addr ((al_groups a)[gi := pop_group (al_groups a ! gi)] ! gj) = bucket_addr (al_groups a ! gj)" for gj
      using gi pg(3) same_frame_addr[OF pg(2)] by (cases "gj = gi"; simp)+
    show "x \<in> held (upd_group gi pop_group a) \<longleftrightarrow> x \<in> held a" by (simp add: held_def upd_group_def e)
  qed
qed

text \<open>
  A claim of a free bucket that is not on the free list: with a free entry in the open-bucket
  pool it succeeds, otherwise the bucket is as before.
\<close>

lemma claim_ok:
  fixes a :: allocator
  assumes inv: "alloc_inv a" and gi: "gi < length (al_groups a)" and bi: "bi \<in> free_set (al_groups a ! gi)"
    and nl: "bi \<notin> unat ` set (ag_free_list (al_groups a ! gi))" and pf: "pool_free a" and cd: "codec_total cd"
  defines "g \<equiv> al_groups a ! gi"
  shows "\<exists>eng' a' addr. claim_bucket cd ops rq gi bi eng a = (Some (Inr addr), eng', a') \<and> unat addr = bucket_addr g bi \<and>
    al_groups a' = (al_groups a)[gi := claimed_group rq bi g] \<and> alloc_inv a' \<and>
    held a' = insert (bucket_addr g bi) (held a) \<and> bucket_addr g bi \<notin> held a \<and> al_allocated a' = al_allocated a + 256 \<and>
    ran (ob_view (al_open a')) = insert (ag_id g, of_nat bi) (ran (ob_view (al_open a)))"
proof -
  let ?i = "freelist_head (al_open a)" and ?b = "ag_buckets g ! bi" and ?k = "(ag_id g, of_nat bi :: u32)"
  note wfg = alloc_invD(1,2)[OF inv gi, folded g_def]
  note cg = claimed_group_ok[OF wfg(2) bi[folded g_def] nl[folded g_def], of rq]
  have b: "bi < length (ag_buckets g)" "bk_state ?b = DFree" using bi by (simp_all add: g_def free_set_def)
  have ub: "unat (of_nat bi :: u32) = bi" using b(1) wfg(1) by (simp add: group_wf_def unsigned_of_nat take_bit_nat_eq_self)
  have wf: "pool_wf (al_open a)" "obp.exclusive (al_open a)" "opens_ok (al_open a) (al_groups a)"
    using inv by (simp_all add: alloc_inv_def)
  then have ok: "pool_ok (al_open a)" by (simp add: pool_wf_def)
  have fresh: "?k \<notin> ran (ob_view (al_open a))"
    unfolding g_def by (rule free_not_open[OF inv gi]) (use b ub in \<open>simp add: g_def\<close>)
  obtain ob where ob: "ob_alloc (ag_id g) (of_nat bi) 256 (bk_version ?b + 1) (al_open a) = (Inr ?i, ob)"
    using alloc_cases(2)[of "al_open a"] pf by (auto simp: pool_free_def)
  have view: "ob_view ob = (ob_view (al_open a))(?i \<mapsto> ?k)" "ob_view (al_open a) ?i = None"
    using alloc_ok[OF ok ob] by simp_all
  obtain bytes where bytes: "enc_entry cd (from_bucket_with_journal_seq (ag_id g) DUser (bk_version ?b + 1) (rq_journal_seq rq)) = Some bytes"
    using cd by (auto simp: codec_total_def)
  define a' where "a' = a\<lparr>al_groups := (al_groups a)[gi := claimed_group rq bi g], al_open := ob, al_allocated := al_allocated a + 256\<rparr>"
  have c: "\<exists>eng'. claim_bucket cd ops rq gi bi eng a = (Some (Inr (ag_start g + of_nat bi * BLOCKS_PER_BUCKET)), eng', a')"
    using gi ob bytes
    by (simp add: claim_bucket_def upd_group_def g_def[symmetric] Let_def set_bucket_def serialize_alloc_entry_def
        a'_def claimed_group_def claimed_bucket_def bpb_256)
  have "obp.exclusive ob"
  proof (rule obp.take_exclusive(1)[OF ok wf(2)])
    show "ob_find ?k (al_open a) = Some None" using obp.find_none[OF ok] fresh by simp
    show "ob_take 256 (bk_version ?b + 1) ?k (al_open a) = Some (?i, ob)" using ob by (simp add: ob_take_Some)
  qed
  moreover have "pool_wf ob" using alloc_wf[OF wf(1) ob] .
  moreover have "opens_ok ob ((al_groups a)[gi := claimed_group rq bi g])"
  proof -
    have st: "bk_state (ag_buckets (claimed_group rq bi g) ! k) = DUser"
      if "k < length (ag_buckets (claimed_group rq bi g))" "bk_state (ag_buckets g ! k) = DUser \<or> k = bi" for k
      using that b(1) by (auto simp: claimed_group_def nth_list_update claimed_bucket_def)
    have "opens_ok (al_open a) ((al_groups a)[gi := claimed_group rq bi g])"
      using opens_ok_upd[OF wf(3), of gi "claimed_group rq bi g"] cg(2) st by (simp add: g_def[symmetric])
    moreover have "\<exists>gj < length (al_groups a). ag_id ((al_groups a)[gi := claimed_group rq bi g] ! gj) = ag_id g \<and>
        unat (of_nat bi :: u32) < length (ag_buckets ((al_groups a)[gi := claimed_group rq bi g] ! gj)) \<and>
        bk_state (ag_buckets ((al_groups a)[gi := claimed_group rq bi g] ! gj) ! unat (of_nat bi :: u32)) = DUser"
      using gi cg(2) b st[of bi] by (intro exI[of _ gi]) (simp add: same_frame_def ub)
    ultimately show ?thesis unfolding opens_ok_def view(1) by (auto split: if_splits)
  qed
  ultimately have "alloc_inv a'"
    by (intro inv_upd[OF inv gi cg(2)[unfolded g_def] cg(1)[unfolded g_def]]) (simp_all add: a'_def g_def)
  moreover have "held a' = insert (bucket_addr g bi) (held a)"
  proof -
    have "bk_state (ag_buckets (claimed_group rq bi g) ! bi) \<noteq> DFree"
      using b by (simp add: claimed_group_def claimed_bucket_def)
    then show ?thesis
      using held_upd[OF inv gi cg(2)[unfolded g_def], where bi = bi and a' = a'] b
      by (simp add: a'_def g_def[symmetric]) (simp add: g_def claimed_group_def nth_list_update)
  qed
  moreover have "bucket_addr g bi \<notin> held a" using held_iff[OF inv gi, of bi] b by (simp add: g_def)
  moreover have "ran (ob_view (al_open a')) = insert ?k (ran (ob_view (al_open a)))"
    using view by (simp add: a'_def ran_map_upd)
  moreover have "unat (ag_start g + of_nat bi * BLOCKS_PER_BUCKET) = bucket_addr g bi" by (rule unat_bucket_addr[OF wfg(1) b(1)])
  ultimately show ?thesis using c by (auto simp: a'_def)
qed

text \<open>With the pool full only the bucket's journal sequence number can change.\<close>

lemma claim_full:
  assumes inv: "alloc_inv a" and gi: "gi < length (al_groups a)" and bi: "bi \<in> free_set (al_groups a ! gi)"
    and pf: "\<not> pool_free a" and rq: "rq_journal_seq rq = 0"
  shows "claim_bucket cd ops rq gi bi eng a = (None, eng, a)"
proof -
  let ?b = "ag_buckets (al_groups a ! gi) ! bi"
  have "bk_state ?b = DFree" using bi by (simp add: free_set_def)
  then have "?b\<lparr>bk_state := DFree, bk_version := bk_version ?b + 1 - 1, bk_journal_seq := bk_journal_seq ?b\<rparr> = ?b" by simp
  moreover have "upd_group gi (set_bucket bi ?b) a = a" by (simp add: upd_group_def set_bucket_def)
  ultimately show ?thesis
    using alloc_cases(1)[of "al_open a"] pf rq by (simp add: claim_bucket_def pool_free_def Let_def)
qed

end
