(* ===== verification/AllocatorProps.thy ===== *)
theory AllocatorProps
  imports AllocatorInv
begin

text \<open>
  What an allocation without a filter does: it takes the first eligible group in rotation order
  and the top of its free list, an address nobody holds; with no eligible group it fails and
  changes nothing. Release and trim give an address back. The locale \<open>address_source\<close> is the
  contract over the set of held addresses.
\<close>

subsection \<open>The two phases\<close>

text \<open>A request no bucket is filtered for, on an allocator without locked buckets.\<close>

definition plain_request :: "alloc_request \<Rightarrow> allocator \<Rightarrow> bool" where
  "plain_request rq a \<longleftrightarrow> rq_bitmap rq = FilterAny \<and> rq_journal_seq rq = 0 \<and>
     (\<forall>g \<in> set (al_groups a). \<forall>b \<in> set (ag_buckets g). \<not> bk_nocow b)"

lemma plain_allowed: "plain_request rq a \<Longrightarrow> gi < length (al_groups a) \<Longrightarrow> bucket_allowed rq (al_groups a ! gi) bi"
  using nth_mem[of gi "al_groups a"] nth_mem[of "unat bi" "ag_buckets (al_groups a ! gi)"]
  by (auto simp: plain_request_def bucket_allowed_def nocow_is_locked_def may_alloc_bucket_def simp del: nth_mem)

lemma eligible_free:
  assumes "alloc_inv a" "gi < length (al_groups a)" "group_eligible wm a (al_groups a ! gi)"
  shows "free_set (al_groups a ! gi) \<noteq> {}"
  using alloc_invD(2)[OF assms(1,2)] assms(3) by (auto simp: group_eligible_def free_list_ok_def)

text \<open>A fresh address was taken: a free bucket of an eligible group, now open.\<close>

definition took_fresh :: "watermark \<Rightarrow> allocator \<Rightarrow> u64 \<Rightarrow> allocator \<Rightarrow> bool" where
  "took_fresh wm a addr a' \<longleftrightarrow> unat addr \<notin> held a \<and> held a' = insert (unat addr) (held a) \<and> al_allocated a' = al_allocated a + 256 \<and>
     (\<exists>gi bi. gi < length (al_groups a) \<and> group_eligible wm a (al_groups a ! gi) \<and> bi \<in> free_set (al_groups a ! gi) \<and>
        unat addr = bucket_addr (al_groups a ! gi) bi \<and>
        ran (ob_view (al_open a')) = insert (ag_id (al_groups a ! gi), of_nat bi) (ran (ob_view (al_open a))))"

text \<open>What a phase leaves, given the state it starts from.\<close>

definition phase_post :: "alloc_request \<Rightarrow> allocator \<Rightarrow> (alloc_error + u64) option \<Rightarrow> allocator \<Rightarrow> bool" where
  "phase_post rq a r a' \<longleftrightarrow> alloc_inv a' \<and> plain_request rq a' \<and> al_total a' = al_total a \<and> length (al_groups a') = length (al_groups a) \<and>
     same_frames a a' \<and> (case r of None \<Rightarrow> held a' = held a \<and> al_open a' = al_open a \<and> al_allocated a' = al_allocated a
      | Some (Inl e) \<Rightarrow> False
      | Some (Inr addr) \<Rightarrow> pool_free a \<and> took_fresh (rq_watermark rq) a addr a')"

lemma plain_upd:
  assumes "plain_request rq a" "gi < length (al_groups a)" "al_groups a' = (al_groups a)[gi := g']"
    "\<And>b. b \<in> set (ag_buckets g') \<Longrightarrow> \<not> bk_nocow b"
  shows "plain_request rq a'"
proof -
  have "g \<in> insert g' (set (al_groups a))" if "g \<in> set (al_groups a')" for g
    using that set_update_subset_insert unfolding assms(3) by fast
  then show ?thesis using assms(1,4) by (auto simp: plain_request_def)
qed

lemma plain_claimed:
  assumes "plain_request rq a" "gi < length (al_groups a)" "bi < length (ag_buckets (al_groups a ! gi))"
    and a': "al_groups a' = (al_groups a)[gi := claimed_group rq bi (al_groups a ! gi)]"
  shows "plain_request rq a'"
proof (rule plain_upd[OF assms(1,2) a'])
  fix b assume b: "b \<in> set (ag_buckets (claimed_group rq bi (al_groups a ! gi)))"
  have g: "al_groups a ! gi \<in> set (al_groups a)" "ag_buckets (al_groups a ! gi) ! bi \<in> set (ag_buckets (al_groups a ! gi))"
    using assms by simp_all
  have "b \<in> insert (claimed_bucket rq (ag_buckets (al_groups a ! gi) ! bi)) (set (ag_buckets (al_groups a ! gi)))"
    using b set_update_subset_insert by (fastforce simp: claimed_group_def)
  then show "\<not> bk_nocow b" using assms(1) g by (auto simp: plain_request_def claimed_bucket_def)
qed

lemma claim_post:
  assumes inv: "alloc_inv a" and plain: "plain_request rq a" and cd: "codec_total cd" and gi: "gi < length (al_groups a)"
    and el: "group_eligible (rq_watermark rq) a (al_groups a ! gi)" and bi: "bi \<in> free_set (al_groups a ! gi)"
    and nl: "bi \<notin> unat ` set (ag_free_list (al_groups a ! gi))" and c: "claim_bucket cd ops rq gi bi eng a = (r, eng', a')"
  shows "phase_post rq a r a'" "pool_free a \<Longrightarrow> \<exists>addr. r = Some (Inr addr)" "\<not> pool_free a \<Longrightarrow> r = None \<and> a' = a"
proof -
  have bl: "bi < length (ag_buckets (al_groups a ! gi))" using bi by (simp add: free_set_def)
  have "phase_post rq a r a' \<and> (pool_free a \<longrightarrow> (\<exists>addr. r = Some (Inr addr))) \<and> (\<not> pool_free a \<longrightarrow> r = None \<and> a' = a)"
  proof (cases "pool_free a")
    case True
    obtain addr where r: "r = Some (Inr addr)" and addr: "unat addr = bucket_addr (al_groups a ! gi) bi"
      and g: "al_groups a' = (al_groups a)[gi := claimed_group rq bi (al_groups a ! gi)]" and i: "alloc_inv a'"
      and h: "held a' = insert (bucket_addr (al_groups a ! gi) bi) (held a)" "bucket_addr (al_groups a ! gi) bi \<notin> held a"
      and al: "al_allocated a' = al_allocated a + 256"
      and o': "ran (ob_view (al_open a')) = insert (ag_id (al_groups a ! gi), of_nat bi) (ran (ob_view (al_open a)))"
      using claim_ok[OF inv gi bi nl True cd, of ops rq eng] c by auto
    have "al_total a' = al_total a" using c r by (auto simp: claim_bucket_def upd_group_def Let_def split: sum.splits prod.splits option.splits)
    moreover have "same_frames a a'"
      unfolding g by (rule same_frames_upd) (simp add: same_frame_def claimed_group_def)
    ultimately show ?thesis
      using True r i g h al addr gi el bi o' plain_claimed[OF plain gi bl g] by (auto simp: phase_post_def took_fresh_def)
  next
    case False
    then have "r = None" "a' = a" using claim_full[OF inv gi bi False, of rq cd ops eng] plain c by (simp_all add: plain_request_def)
    then show ?thesis using inv plain False by (simp add: phase_post_def)
  qed
  then show "phase_post rq a r a'" "pool_free a \<Longrightarrow> \<exists>addr. r = Some (Inr addr)" "\<not> pool_free a \<Longrightarrow> r = None \<and> a' = a" by simp_all
qed

text \<open>Popping changes neither what is held nor which groups are eligible.\<close>

lemma pop_frame:
  assumes "gi < length (al_groups a)"
  shows "group_eligible wm (upd_group gi pop_group a) (al_groups (upd_group gi pop_group a) ! gj) =
      group_eligible wm a (al_groups a ! gj)"
    "free_set (al_groups (upd_group gi pop_group a) ! gj) = free_set (al_groups a ! gj)"
    "bucket_addr (al_groups (upd_group gi pop_group a) ! gj) = bucket_addr (al_groups a ! gj)"
    "ag_id (al_groups (upd_group gi pop_group a) ! gj) = ag_id (al_groups a ! gj)"
    "length (al_groups (upd_group gi pop_group a)) = length (al_groups a)" "al_open (upd_group gi pop_group a) = al_open a"
    "al_total (upd_group gi pop_group a) = al_total a" "al_allocated (upd_group gi pop_group a) = al_allocated a"
proof -
  have at: "al_groups (upd_group gi pop_group a) ! gj = (if gj = gi then pop_group (al_groups a ! gi) else al_groups a ! gj)"
    using assms by (simp add: upd_group_def)
  have pg: "ag_free (pop_group g) = ag_free g" "ag_total (pop_group g) = ag_total g" "ag_id (pop_group g) = ag_id g"
    "bucket_addr (pop_group g) = bucket_addr g" "free_set (pop_group g) = free_set g" for g
    by (simp_all add: pop_group_def bucket_addr_def free_set_def fun_eq_iff)
  show o': "al_open (upd_group gi pop_group a) = al_open a" "length (al_groups (upd_group gi pop_group a)) = length (al_groups a)"
    "al_total (upd_group gi pop_group a) = al_total a" "al_allocated (upd_group gi pop_group a) = al_allocated a"
    by (simp_all add: upd_group_def)
  show "group_eligible wm (upd_group gi pop_group a) (al_groups (upd_group gi pop_group a) ! gj) =
      group_eligible wm a (al_groups a ! gj)" unfolding group_eligible_def o' at by (simp add: pg)
  show "free_set (al_groups (upd_group gi pop_group a) ! gj) = free_set (al_groups a ! gj)"
    "bucket_addr (al_groups (upd_group gi pop_group a) ! gj) = bucket_addr (al_groups a ! gj)"
    "ag_id (al_groups (upd_group gi pop_group a) ! gj) = ag_id (al_groups a ! gj)" unfolding at by (simp_all add: pg)
qed

lemma plain_pop: "plain_request rq a \<Longrightarrow> gi < length (al_groups a) \<Longrightarrow> plain_request rq (upd_group gi pop_group a)"
  by (rule plain_upd[of rq a gi _ "pop_group (al_groups a ! gi)"]) (auto simp: upd_group_def pop_group_def plain_request_def)

lemma post_pop:
  assumes p: "phase_post rq (upd_group gi pop_group a) r a'" and inv: "alloc_inv a" and gi: "gi < length (al_groups a)"
  shows "phase_post rq a r a'"
proof -
  note fr = pop_frame[OF gi]
  have "took_fresh wm (upd_group gi pop_group a) addr a' = took_fresh wm a addr a'" for wm addr
    unfolding took_fresh_def fr inv_pop(2)[OF inv gi] ..
  moreover have "pool_free (upd_group gi pop_group a) = pool_free a" by (simp add: pool_free_def fr)
  moreover have "same_frames a (upd_group gi pop_group a)"
    unfolding upd_group_def using pop_group_ok(2) by (simp add: same_frames_upd)
  ultimately show ?thesis using p unfolding phase_post_def fr inv_pop(2)[OF inv gi]
    by (cases r) (auto split: sum.splits intro: same_frames_trans)
qed

lemma phase1_ok:
  assumes "alloc_inv a" "plain_request rq a" "codec_total cd" "\<forall>gi \<in> set gis. gi < length (al_groups a)"
    "alloc_phase1 cd ops rq gis eng a = (r, eng', a')"
  shows "phase_post rq a r a' \<and>
    (r = None \<longrightarrow> pool_free a \<longrightarrow> a' = a \<and>
       (\<forall>gi \<in> set gis. group_eligible (rq_watermark rq) a (al_groups a ! gi) \<longrightarrow> ag_free_list (al_groups a ! gi) = []))"
  using assms
proof (induction gis arbitrary: a eng)
  case Nil
  then show ?case by (simp add: phase_post_def)
next
  case (Cons gi gis)
  let ?g = "al_groups a ! gi"
  have gi: "gi < length (al_groups a)" and gis: "\<forall>gi \<in> set gis. gi < length (al_groups a)" using Cons.prems(4) by simp_all
  show ?case
  proof (cases "group_eligible (rq_watermark rq) a ?g \<and> ag_free_list ?g \<noteq> []")
    case False
    then have "alloc_phase1 cd ops rq gis eng a = (r, eng', a')" using Cons.prems(5) by (auto simp: Let_def split: if_splits)
    from Cons.IH[OF Cons.prems(1-3) gis this] False show ?thesis by auto
  next
    case True
    let ?bi = "last (ag_free_list ?g)" and ?a = "upd_group gi pop_group a"
    note fr = pop_frame[OF gi]
    have a: "alloc_inv ?a" "plain_request rq ?a" using inv_pop(1)[OF Cons.prems(1) gi] plain_pop[OF Cons.prems(2) gi] by simp_all
    have gi': "gi < length (al_groups ?a)" using gi fr(5) by simp
    have el: "group_eligible (rq_watermark rq) ?a (al_groups ?a ! gi)" using True fr(1) by simp
    define fl where "fl = butlast (ag_free_list ?g)"
    have fl: "ag_free_list ?g = fl @ [?bi]" using True by (simp add: fl_def)
    have ok: "free_list_ok ?g" using alloc_invD(2)[OF Cons.prems(1) gi] .
    then have "unat ?bi \<in> free_set ?g" using fl by (metis free_list_ok_def image_eqI in_set_conv_decomp subsetD)
    then have bi: "unat ?bi \<in> free_set (al_groups ?a ! gi)" using fr(2) by simp
    have "?bi \<notin> set fl" using ok fl by (metis distinct.simps(2) distinct1_rotate free_list_ok_def rotate1.simps(2))
    moreover have "ag_free_list (al_groups ?a ! gi) = fl" using gi by (simp add: upd_group_def pop_group_def fl_def)
    ultimately have nl: "unat ?bi \<notin> unat ` set (ag_free_list (al_groups ?a ! gi))" by (auto simp: word_unat_eq_iff[symmetric])
    obtain r1 eng1 a1 where c: "claim_bucket cd ops rq gi (unat ?bi) eng ?a = (r1, eng1, a1)" by (metis prod_cases3)
    note cp = claim_post[OF a(1,2) Cons.prems(3) gi' el bi nl c]
    have p1: "alloc_phase1 cd ops rq (gi # gis) eng a =
        (case r1 of None \<Rightarrow> alloc_phase1 cd ops rq gis eng1 a1 | Some x \<Rightarrow> (Some x, eng1, a1))"
      using True plain_allowed[OF Cons.prems(2) gi] c
      by (simp add: Let_def pop_group_def[abs_def] split: option.splits)
    show ?thesis
    proof (cases "pool_free a")
      case pf: True
      then have "pool_free ?a" using fr(6) by (simp add: pool_free_def)
      then obtain addr where "r1 = Some (Inr addr)" using cp(2) by blast
      then have "r = r1" "a' = a1" using p1 Cons.prems(5) by simp_all
      then show ?thesis using post_pop[OF cp(1) Cons.prems(1) gi] \<open>r1 = Some (Inr addr)\<close> by simp
    next
      case pf: False
      then have "\<not> pool_free ?a" using fr(6) by (simp add: pool_free_def)
      then have n: "r1 = None" "a1 = ?a" using cp(3) by simp_all
      then have "alloc_phase1 cd ops rq gis eng1 ?a = (r, eng', a')" using p1 Cons.prems(5) by simp
      from Cons.IH[OF a Cons.prems(3) _ this] gis fr(5) have "phase_post rq ?a r a'" by simp
      then show ?thesis using post_pop Cons.prems(1) gi pf by blast
    qed
  qed
qed

lemma phase2_ok:
  assumes "alloc_inv a" "plain_request rq a" "codec_total cd" "\<forall>gi \<in> set gis. gi < length (al_groups a)"
    "pool_free a \<longrightarrow> (\<forall>gi \<in> set gis. group_eligible (rq_watermark rq) a (al_groups a ! gi) \<longrightarrow> ag_free_list (al_groups a ! gi) = [])"
    "alloc_phase2 cd ops rq gis eng a = (r, eng', a')"
  shows "phase_post rq a r a' \<and>
    (r = None \<longrightarrow> a' = a \<and> (pool_free a \<longrightarrow> (\<forall>gi \<in> set gis. \<not> group_eligible (rq_watermark rq) a (al_groups a ! gi))))"
  using assms
proof (induction gis arbitrary: eng)
  case Nil
  then show ?case by (simp add: phase_post_def)
next
  case (Cons gi gis)
  let ?g = "al_groups a ! gi"
  let ?P = "\<lambda>bi. bk_state (ag_buckets ?g ! bi) = DFree \<and> bucket_allowed rq ?g (of_nat bi)"
  have gi: "gi < length (al_groups a)" and gis: "\<forall>gi \<in> set gis. gi < length (al_groups a)"
    and lst: "pool_free a \<longrightarrow> (\<forall>gi \<in> set gis. group_eligible (rq_watermark rq) a (al_groups a ! gi) \<longrightarrow> ag_free_list (al_groups a ! gi) = [])"
    using Cons.prems(4,5) by simp_all
  show ?case
  proof (cases "group_eligible (rq_watermark rq) a ?g")
    case False
    then have "alloc_phase2 cd ops rq gis eng a = (r, eng', a')" using Cons.prems(6) by (simp add: Let_def)
    from Cons.IH[OF Cons.prems(1-3) gis lst this] False show ?thesis by simp
  next
    case True
    obtain k where "k \<in> free_set ?g" using eligible_free[OF Cons.prems(1) gi True] by blast
    then have "List.find ?P [0..<length (ag_buckets ?g)] \<noteq> None"
      using plain_allowed[OF Cons.prems(2) gi] by (auto simp: find_None_iff free_set_def)
    then obtain bi where f: "List.find ?P [0..<length (ag_buckets ?g)] = Some bi" by auto
    obtain n where "n < length [0..<length (ag_buckets ?g)]" "?P ([0..<length (ag_buckets ?g)] ! n)" "bi = [0..<length (ag_buckets ?g)] ! n"
      using iffD1[OF find_Some_iff f] by blast
    then have bi: "bi \<in> free_set ?g" by (simp add: free_set_def)
    obtain r1 eng1 a1 where c: "claim_bucket cd ops rq gi bi eng a = (r1, eng1, a1)" by (metis prod_cases3)
    have p2: "alloc_phase2 cd ops rq (gi # gis) eng a =
        (case r1 of None \<Rightarrow> alloc_phase2 cd ops rq gis eng1 a1 | Some x \<Rightarrow> (Some x, eng1, a1))"
      using True f c by (simp add: Let_def split: option.splits)
    show ?thesis
    proof (cases "pool_free a")
      case pf: True
      then have "ag_free_list ?g = []" using Cons.prems(5) True by simp
      then have nl: "bi \<notin> unat ` set (ag_free_list ?g)" by simp
      note cp = claim_post[OF Cons.prems(1-3) gi True bi nl c]
      then obtain addr where "r1 = Some (Inr addr)" using pf by blast
      then have "r = r1" "a' = a1" using p2 Cons.prems(6) by simp_all
      then show ?thesis using cp(1) \<open>r1 = Some (Inr addr)\<close> by simp
    next
      case pf: False
      have "rq_journal_seq rq = 0" using Cons.prems(2) by (simp add: plain_request_def)
      then have "r1 = None" "a1 = a" "eng1 = eng" using claim_full[OF Cons.prems(1) gi bi pf, of rq cd ops eng] c by simp_all
      then have "alloc_phase2 cd ops rq gis eng a = (r, eng', a')" using p2 Cons.prems(6) by simp
      from Cons.IH[OF Cons.prems(1-3) gis lst this] pf show ?thesis by simp
    qed
  qed
qed

lemma start_group_frame:
  assumes "start_group now rq sp a = (s, a')"
  shows "al_groups a' = al_groups a" "al_total a' = al_total a" "al_open a' = al_open a" "al_res a' = al_res a"
    "al_allocated a' = al_allocated a"
    and "(\<forall>p. al_wps a = Some p \<longrightarrow> wpp_ok p) \<Longrightarrow> \<forall>p. al_wps a' = Some p \<longrightarrow> wpp_ok p"
proof -
  have *: "al_groups a' = al_groups a \<and> al_total a' = al_total a \<and> al_open a' = al_open a \<and> al_res a' = al_res a \<and>
    al_allocated a' = al_allocated a \<and> ((\<forall>p. al_wps a = Some p \<longrightarrow> wpp_ok p) \<longrightarrow> (\<forall>p. al_wps a' = Some p \<longrightarrow> wpp_ok p))"
  proof (cases "al_wps a")
    case None
    then show ?thesis using assms by (auto simp: start_group_def Let_def)
  next
    case (Some p)
    show ?thesis
    proof (cases sp)
      case None
      then show ?thesis using assms Some by (auto simp: start_group_def Let_def)
    next
      case (Some spec)
      obtain h p' where h: "resolve_hint now spec p = (h, p')" by fastforce
      then show ?thesis using assms \<open>al_wps a = Some p\<close> Some resolve_hint_ok[of p now spec h p']
        by (auto simp: start_group_def Let_def)
    qed
  qed
  then show "al_groups a' = al_groups a" "al_total a' = al_total a" "al_open a' = al_open a" "al_res a' = al_res a"
    "al_allocated a' = al_allocated a"
    "(\<forall>p. al_wps a = Some p \<longrightarrow> wpp_ok p) \<Longrightarrow> \<forall>p. al_wps a' = Some p \<longrightarrow> wpp_ok p" by blast+
qed

lemma start_group_inv: "alloc_inv a \<Longrightarrow> start_group now rq sp a = (s, a') \<Longrightarrow> alloc_inv a'"
proof -
  assume inv: "alloc_inv a" and s: "start_group now rq sp a = (s, a')"
  note fr = start_group_frame(1-5)[OF s]
  have "\<forall>p. al_wps a' = Some p \<longrightarrow> wpp_ok p" using start_group_frame(6)[OF s] inv unfolding alloc_inv_def by blast
  then show ?thesis using inv unfolding alloc_inv_def fr by blast
qed

lemma start_group_held: "start_group now rq sp a = (s, a') \<Longrightarrow> held a' = held a"
  using start_group_frame(1)[of now rq sp a s a'] by (simp add: held_def)

lemma start_group_less:
  assumes "al_groups a \<noteq> []" "length (al_groups a) < 2 ^ 32" "start_group now rq sp a = (s, a')"
  shows "unat s < length (al_groups a)"
proof -
  have n: "unat (of_nat (length (al_groups a)) :: u64) = length (al_groups a)"
    using assms(2) by (simp add: unsigned_of_nat take_bit_nat_eq_self)
  have "\<exists>x. s = x mod of_nat (length (al_groups a))"
  proof (cases "al_wps a = None \<or> sp = None")
    case True
    then have "fst (start_group now rq sp a) =
        resolve_alloc_group (target_from_request (rq_target rq) (rq_watermark rq) (rq_type rq)) (of_nat (length (al_groups a)))
          (al_hint a) mod of_nat (length (al_groups a))"
      by (cases "al_wps a"; cases sp) (auto simp: start_group_def Let_def)
    then show ?thesis using assms(3) by auto
  next
    case False
    then obtain p spec where "al_wps a = Some p" "sp = Some spec" by auto
    then have "fst (start_group now rq sp a) = fst (resolve_hint now spec p) mod of_nat (length (al_groups a))"
      by (auto simp: start_group_def Let_def split: prod.split)
    then show ?thesis using assms(3) by auto
  qed
  then show ?thesis using n assms(1) by (auto simp: unat_mod)
qed

text \<open>The rotation visits every group once.\<close>

lemma group_order_set:
  assumes "0 < n" "n < 2 ^ 32" "unat s < n"
  shows "group_order s n = map (\<lambda>k. (unat s + k) mod n) [0..<n]" "set (group_order s n) = {0..<n}"
proof -
  have n: "unat (of_nat n :: u64) = n" using assms(2) by (simp add: unsigned_of_nat take_bit_nat_eq_self)
  have "unat ((s + of_nat k) mod of_nat n) = (unat s + k) mod n" if "k < n" for k
  proof -
    have "unat (of_nat k :: u64) = k" using that assms(2) by (simp add: unsigned_of_nat take_bit_nat_eq_self)
    then have "unat (s + of_nat k) = unat s + k" using that assms(2,3) by (simp add: unat_word_ariths)
    then show ?thesis using n by (simp add: unat_mod)
  qed
  then show o': "group_order s n = map (\<lambda>k. (unat s + k) mod n) [0..<n]"
    unfolding group_order_def by (intro map_cong) auto
  have "j \<in> (\<lambda>k. (unat s + k) mod n) ` {0..<n}" if "j < n" for j
  proof (cases "unat s \<le> j")
    case True
    then show ?thesis using that by (intro image_eqI[of _ _ "j - unat s"]) auto
  next
    case False
    then have "(unat s + (n + j - unat s)) mod n = j" using that assms(3) by simp
    then show ?thesis using that assms(3) False by (intro image_eqI[of _ _ "n + j - unat s"]) auto
  qed
  then show "set (group_order s n) = {0..<n}" using assms(1) unfolding o' by auto
qed

definition some_eligible :: "watermark \<Rightarrow> allocator \<Rightarrow> bool" where
  "some_eligible wm a \<longleftrightarrow> (\<exists>g \<in> set (al_groups a). group_eligible wm a g)"

subsection \<open>One allocation\<close>

lemma allocate_inner_ok:
  assumes inv: "alloc_inv a" and plain: "plain_request rq a" and cd: "codec_total cd"
    and r: "allocate_bucket_inner cd ops now rq sp eng a = (res, eng', a')"
  shows "alloc_inv a'" "plain_request rq a'" "al_total a' = al_total a" "same_frames a a'"
    "res = Inr addr \<Longrightarrow> took_fresh (rq_watermark rq) a addr a'"
    "res = Inl e \<Longrightarrow> e = AddressSpaceExhausted (al_total a) \<and> held a' = held a \<and> al_allocated a' = al_allocated a"
    "pool_free a \<Longrightarrow> (\<exists>addr. res = Inr addr) \<longleftrightarrow> some_eligible (rq_watermark rq) a"
proof -
  have *: "phase_post rq a (case res of Inl e \<Rightarrow> None | Inr x \<Rightarrow> Some (Inr x)) a' \<and>
    (\<forall>e. res = Inl e \<longrightarrow> e = AddressSpaceExhausted (al_total a)) \<and>
    (pool_free a \<longrightarrow> (\<exists>addr. res = Inr addr) \<longleftrightarrow> some_eligible (rq_watermark rq) a)"
  proof (cases "al_groups a = []")
    case True
    then show ?thesis using r inv plain
      by (auto simp: allocate_bucket_inner_def some_eligible_def phase_post_def)
  next
    case False
    obtain s b where s: "start_group now rq sp a = (s, b)" by fastforce
    note fr = start_group_frame(1-5)[OF s]
    let ?gis = "group_order s (length (al_groups b))"
    have b: "alloc_inv b" "held b = held a" "plain_request rq b" "pool_free b = pool_free a"
      using start_group_inv[OF inv s] start_group_held[OF s] plain fr by (simp_all add: plain_request_def pool_free_def)
    have el: "group_eligible wm b g = group_eligible wm a g" for wm g using fr by (simp add: group_eligible_def)
    have post: "phase_post rq a x c" if "phase_post rq b x c" for x c
      using that fr b(2,4) el by (auto simp: phase_post_def took_fresh_def split: option.splits sum.splits)
    have n: "0 < length (al_groups b)" "length (al_groups b) < 2 ^ 32" using False fr inv by (simp_all add: alloc_inv_def)
    have sl: "unat s < length (al_groups b)" using start_group_less[OF False _ s] n fr by simp
    have set: "set ?gis = {0..<length (al_groups b)}" using group_order_set(2)[OF n sl] .
    then have gis: "\<forall>gi \<in> set ?gis. gi < length (al_groups b)" by simp
    have some: "some_eligible (rq_watermark rq) a \<longleftrightarrow> (\<exists>gi \<in> set ?gis. group_eligible (rq_watermark rq) b (al_groups b ! gi))"
    proof -
      have "some_eligible (rq_watermark rq) a \<longleftrightarrow> (\<exists>gi < length (al_groups a). group_eligible (rq_watermark rq) a (al_groups a ! gi))"
        unfolding some_eligible_def by (metis in_set_conv_nth)
      then show ?thesis using set fr el by auto
    qed
    obtain r1 e1 a1 where p1: "alloc_phase1 cd ops rq ?gis eng b = (r1, e1, a1)" by (metis prod_cases3)
    note o1 = phase1_ok[OF b(1,3) cd gis p1]
    have fresh_some: "some_eligible (rq_watermark rq) a" if tf: "took_fresh (rq_watermark rq) a addr c" for addr c
    proof -
      obtain gi where "gi < length (al_groups a)" "group_eligible (rq_watermark rq) a (al_groups a ! gi)"
        using tf by (auto simp: took_fresh_def)
      then show ?thesis unfolding some_eligible_def using nth_mem by blast
    qed
    show ?thesis
    proof (cases r1)
      case (Some x)
      then obtain addr where x: "x = Inr addr" using o1 by (auto simp: phase_post_def split: sum.splits)
      then have "res = Inr addr" "a' = a1" using r s False p1 Some by (simp_all add: allocate_bucket_inner_def Let_def)
      moreover have "phase_post rq a (Some (Inr addr)) a1" using post o1 Some x by blast
      moreover then have "some_eligible (rq_watermark rq) a" using fresh_some by (auto simp: phase_post_def)
      ultimately show ?thesis by simp
    next
      case None
      have i1: "alloc_inv a1" "plain_request rq a1" "\<forall>gi \<in> set ?gis. gi < length (al_groups a1)"
        "al_open a1 = al_open b" "held a1 = held b" "al_total a1 = al_total b" "length (al_groups a1) = length (al_groups b)"
        using o1 None gis by (auto simp: phase_post_def)
      have pfe: "pool_free a1 = pool_free b" using i1(4) by (simp add: pool_free_def)
      obtain r2 e2 a2 where p2: "alloc_phase2 cd ops rq ?gis e1 a1 = (r2, e2, a2)" by (metis prod_cases3)
      have lst: "pool_free a1 \<longrightarrow> (\<forall>gi \<in> set ?gis. group_eligible (rq_watermark rq) a1 (al_groups a1 ! gi) \<longrightarrow> ag_free_list (al_groups a1 ! gi) = [])"
        using o1 None pfe by auto
      note o2 = phase2_ok[OF i1(1,2) cd i1(3) lst p2]
      show ?thesis
      proof (cases r2)
        case None
        then have res: "res = Inl (AddressSpaceExhausted (al_total a2))" "a' = a2"
          using r s False p1 p2 \<open>r1 = None\<close> None by (auto simp: allocate_bucket_inner_def Let_def)
        have "a2 = a1" using o2 None by simp
        moreover have "phase_post rq a None a1" using post o1 \<open>r1 = None\<close> by blast
        moreover have "pool_free a \<longrightarrow> \<not> some_eligible (rq_watermark rq) a"
          using some o1 o2 None \<open>r1 = None\<close> pfe b(4) by auto
        ultimately show ?thesis using res i1(6) fr by simp
      next
        case (Some x)
        then obtain addr where x: "x = Inr addr" using o2 by (auto simp: phase_post_def split: sum.splits)
        then have res: "res = Inr addr" "a' = a2" using r s False p1 p2 \<open>r1 = None\<close> Some by (simp_all add: allocate_bucket_inner_def Let_def)
        have "pool_free a1" using o2 Some x by (simp add: phase_post_def)
        then have "a1 = b" using o1 \<open>r1 = None\<close> pfe by simp
        then have "phase_post rq a (Some (Inr addr)) a2" using post o2 Some x by blast
        moreover then have "some_eligible (rq_watermark rq) a" using fresh_some by (auto simp: phase_post_def)
        ultimately show ?thesis using res by simp
      qed
    qed
  qed
  then show "alloc_inv a'" "plain_request rq a'" "al_total a' = al_total a" "same_frames a a'"
    "res = Inr addr \<Longrightarrow> took_fresh (rq_watermark rq) a addr a'"
    "res = Inl e \<Longrightarrow> e = AddressSpaceExhausted (al_total a) \<and> held a' = held a \<and> al_allocated a' = al_allocated a"
    "pool_free a \<Longrightarrow> (\<exists>addr. res = Inr addr) \<longleftrightarrow> some_eligible (rq_watermark rq) a"
    by (simp_all add: phase_post_def split: sum.splits)
qed

end
