(* ===== verification/AllocatorFree.thy ===== *)
theory AllocatorFree
  imports AllocatorProps
begin

text \<open>
  Giving a bucket back: \<open>bch2_bucket_free\<close> closes its handle and marks it for discard,
  \<open>bch2_bucket_do_trim\<close> makes it free again. Also the invariant of a new allocator, and the
  contract \<open>address_source\<close> with its client \<open>bch2_alloc_buckets\<close>.
\<close>

subsection \<open>The bucket of an address\<close>

lemma group_of_block_Some:
  assumes "group_of_block addr a = Some gi"
  shows "gi < length (al_groups a)" "ag_start (al_groups a ! gi) \<le> addr" "addr < ag_start (al_groups a ! gi) + ag_blocks (al_groups a ! gi)"
  using iffD1[OF find_Some_iff assms[unfolded group_of_block_def]] by (auto simp: Let_def)

lemma group_of_block_eq:
  assumes inv: "alloc_inv a" and gi: "gi < length (al_groups a)"
    and r: "unat (ag_start (al_groups a ! gi)) \<le> unat addr" "unat addr < unat (ag_start (al_groups a ! gi)) + unat (ag_blocks (al_groups a ! gi))"
  shows "group_of_block addr a = Some gi"
proof -
  have sum: "unat (ag_start (al_groups a ! gj) + ag_blocks (al_groups a ! gj)) = unat (ag_start (al_groups a ! gj)) + unat (ag_blocks (al_groups a ! gj))"
    if "gj < length (al_groups a)" for gj
    using alloc_invD(1)[OF inv that] by (simp add: group_wf_def unat_word_ariths)
  let ?P = "\<lambda>gj. ag_start (al_groups a ! gj) \<le> addr \<and> addr < ag_start (al_groups a ! gj) + ag_blocks (al_groups a ! gj)"
  have p: "?P gj \<longleftrightarrow> unat (ag_start (al_groups a ! gj)) \<le> unat addr \<and>
      unat addr < unat (ag_start (al_groups a ! gj)) + unat (ag_blocks (al_groups a ! gj))" if "gj < length (al_groups a)" for gj
    using sum[OF that] by (simp add: word_le_nat_alt word_less_nat_alt)
  have only: "gj = gi" if "gj < length (al_groups a)" "?P gj" for gj
  proof (rule ccontr)
    assume "gj \<noteq> gi"
    then have "unat (ag_start (al_groups a ! gj)) + unat (ag_blocks (al_groups a ! gj)) \<le> unat (ag_start (al_groups a ! gi)) \<or>
        unat (ag_start (al_groups a ! gi)) + unat (ag_blocks (al_groups a ! gi)) \<le> unat (ag_start (al_groups a ! gj))"
      using inv gi that(1) by (auto simp: alloc_inv_def groups_disjoint_def)
    then show False using p[OF that(1)] that(2) r by linarith
  qed
  have here: "?P gi" using p[OF gi] r by blast
  have before: "\<not> ?P j" if "j < gi" for j using only[of j] that gi by force
  have "List.find ?P [0..<length (al_groups a)] = Some gi"
    unfolding find_Some_iff using gi here before by (intro exI[of _ gi]) simp
  then show ?thesis by (simp add: group_of_block_def Let_def)
qed

lemma addr_bucket:
  assumes inv: "alloc_inv a" and gi: "gi < length (al_groups a)" and bi: "bi < length (ag_buckets (al_groups a ! gi))"
    and addr: "unat addr = bucket_addr (al_groups a ! gi) bi"
  shows "addr < al_total a" "group_of_block addr a = Some gi" "bucket_of_block addr (al_groups a ! gi) = bi"
    "al_total a \<le> addr \<longleftrightarrow> False"
proof -
  let ?g = "al_groups a ! gi"
  have lt: "bucket_addr ?g bi < unat (ag_start ?g) + unat (ag_blocks ?g)" using alloc_invD(1)[OF inv gi] bi by (auto simp: group_wf_def)
  then show t: "addr < al_total a" using alloc_invD(3)[OF inv gi] addr by (simp add: word_less_nat_alt)
  then show "al_total a \<le> addr \<longleftrightarrow> False" by simp
  show "group_of_block addr a = Some gi" by (rule group_of_block_eq[OF inv gi]) (use lt addr in \<open>simp_all add: bucket_addr_def\<close>)
  have "unat (addr - ag_start ?g) = bi * 256" using addr by (simp add: unat_sub word_le_nat_alt bucket_addr_def)
  then show "bucket_of_block addr ?g = bi" by (simp add: bucket_of_block_def bpb_256 unat_div)
qed

subsection \<open>Release\<close>

text \<open>The handle of a bucket is closed, if it has one.\<close>

lemma close_handle:
  assumes wf: "pool_wf ob" "obp.exclusive ob"
  shows "\<exists>ob'. (case ob_lookup g b ob of None \<Rightarrow> None | Some None \<Rightarrow> Some ob | Some (Some i) \<Rightarrow> ob_put i ob) = Some ob' \<and>
    pool_wf ob' \<and> obp.exclusive ob' \<and> ran (ob_view ob') = ran (ob_view ob) - {(g, b)} \<and>
    (\<forall>i k. ob_view ob' i = Some k \<longrightarrow> ob_view ob i = Some k)"
proof -
  have ok: "pool_ok ob" using wf(1) by (simp add: pool_wf_def)
  obtain r where r: "ob_lookup g b ob = Some r" using lookup_total[OF ok] by blast
  show ?thesis
  proof (cases r)
    case None
    then have "(g, b) \<notin> ran (ob_view ob)" using lookup_None[OF ok, of g b] r by (simp add: ran_def)
    then show ?thesis using r None wf by simp
  next
    case (Some i)
    then have v: "ob_view ob i = Some (g, b)" using lookup_Some[OF ok] r by simp
    then obtain ob' where p: "ob_put i ob = Some ob'" "pool_wf ob'" "ob_view ob' = (ob_view ob)(i := None)"
      using put_wf[OF wf(1), of i] by auto
    have e: "obp.exclusive ob'" using obp.give_exclusive(1)[OF ok wf(2) v p(1)] .
    have only: "j = i" if "ob_view ob j = Some (g, b)" for j
      using wf(2) v that unfolding obp.exclusive_def by (metis domI inj_onD)
    have "ran (ob_view ob') = ran (ob_view ob) - {(g, b)}"
    proof (intro set_eqI iffI)
      fix k assume "k \<in> ran (ob_view ob')"
      then obtain j where "j \<noteq> i" "ob_view ob j = Some k" by (auto simp: p(3) ran_def split: if_splits)
      then show "k \<in> ran (ob_view ob) - {(g, b)}" using only[of j] by (auto simp: ran_def)
    next
      fix k assume "k \<in> ran (ob_view ob) - {(g, b)}"
      then obtain j where "ob_view ob j = Some k" "k \<noteq> (g, b)" by (auto simp: ran_def)
      moreover then have "j \<noteq> i" using v by auto
      ultimately show "k \<in> ran (ob_view ob')" by (auto simp: p(3) ran_def)
    qed
    then show ?thesis using r Some p e by (auto split: if_splits)
  qed
qed

definition released_bucket :: "bucket \<Rightarrow> bucket" where
  "released_bucket b = b\<lparr>bk_state := DNeedDiscard, bk_version := bk_version b + 1\<rparr>"

lemma release_held:
  assumes inv: "alloc_inv a" and cd: "codec_total cd" and gi: "gi < length (al_groups a)" and bi: "bi < length (ag_buckets (al_groups a ! gi))"
    and st: "bk_state (ag_buckets (al_groups a ! gi) ! bi) \<noteq> DFree" and addr: "unat addr = bucket_addr (al_groups a ! gi) bi"
  defines "g \<equiv> al_groups a ! gi"
  shows "\<exists>eng' a'. bucket_release cd ops addr eng a = Some (Inr (), eng', a') \<and> alloc_inv a' \<and> held a' = held a \<and>
    al_groups a' = (al_groups a)[gi := set_bucket bi (released_bucket (ag_buckets g ! bi)) g] \<and> al_total a' = al_total a \<and>
    al_allocated a' = al_allocated a \<and>
    ran (ob_view (al_open a')) = ran (ob_view (al_open a)) - {(ag_id g, of_nat bi)}"
proof -
  note ab = addr_bucket[OF inv gi bi addr, folded g_def]
  have wfg: "group_wf g" "free_list_ok g" using alloc_invD(1,2)[OF inv gi] by (simp_all add: g_def)
  have b: "bi < length (ag_buckets g)" "bk_state (ag_buckets g ! bi) \<noteq> DFree" using bi st by (simp_all add: g_def)
  have ub: "unat (of_nat bi :: u32) = bi" using b(1) wfg(1) by (simp add: group_wf_def unsigned_of_nat take_bit_nat_eq_self)
  have wf: "pool_wf (al_open a)" "obp.exclusive (al_open a)" "opens_ok (al_open a) (al_groups a)"
    using inv by (simp_all add: alloc_inv_def)
  obtain ob where ob: "(case ob_lookup (ag_id g) (of_nat bi) (al_open a) of None \<Rightarrow> None | Some None \<Rightarrow> Some (al_open a)
      | Some (Some i) \<Rightarrow> ob_put i (al_open a)) = Some ob" "pool_wf ob" "obp.exclusive ob"
    "ran (ob_view ob) = ran (ob_view (al_open a)) - {(ag_id g, of_nat bi)}"
    "\<forall>i k. ob_view ob i = Some k \<longrightarrow> ob_view (al_open a) i = Some k"
    using close_handle[OF wf(1,2)] by blast
  let ?g' = "set_bucket bi (released_bucket (ag_buckets g ! bi)) g"
  obtain bytes where bytes: "enc_entry cd (from_bucket (ag_id g) DNeedDiscard (bk_version (ag_buckets g ! bi) + 1)) = Some bytes"
    using cd by (auto simp: codec_total_def)
  define a' where "a' = a\<lparr>al_groups := (al_groups a)[gi := ?g'], al_open := ob\<rparr>"
  have r: "\<exists>eng'. bucket_release cd ops addr eng a = Some (Inr (), eng', a')"
    using ab b ob(1) bytes
    by (simp add: bucket_release_def g_def[symmetric] Let_def serialize_alloc_entry_def a'_def upd_group_def released_bucket_def)
  have fs: "free_set ?g' = free_set g"
    using b by (auto simp: free_set_def set_bucket_def released_bucket_def nth_list_update)
  have fr: "same_frame g ?g'" by (simp add: same_frame_def set_bucket_def)
  have fl: "free_list_ok ?g'" using wfg(2) fs by (simp add: free_list_ok_def set_bucket_def)
  have "opens_ok ob ((al_groups a)[gi := ?g'])"
    unfolding opens_ok_def
  proof (intro allI impI)
    fix i gid k
    assume v: "ob_view ob i = Some (gid, k)"
    then have "ob_view (al_open a) i = Some (gid, k)" and nk: "(gid, k) \<noteq> (ag_id g, of_nat bi)" using ob(4,5) by (auto simp: ran_def)
    then obtain gj where j: "gj < length (al_groups a)" "ag_id (al_groups a ! gj) = gid" "unat k < length (ag_buckets (al_groups a ! gj))"
      "bk_state (ag_buckets (al_groups a ! gj) ! unat k) = DUser" using wf(3) unfolding opens_ok_def by blast
    have "gj = gi \<Longrightarrow> unat k \<noteq> bi" using nk j(2) ub by (auto simp: g_def)
    then have "ag_id ((al_groups a)[gi := ?g'] ! gj) = gid \<and> unat k < length (ag_buckets ((al_groups a)[gi := ?g'] ! gj)) \<and>
        bk_state (ag_buckets ((al_groups a)[gi := ?g'] ! gj) ! unat k) = DUser"
      using j by (cases "gj = gi") (auto simp: g_def set_bucket_def)
    then show "\<exists>gj < length ((al_groups a)[gi := ?g']). ag_id ((al_groups a)[gi := ?g'] ! gj) = gid \<and>
        unat k < length (ag_buckets ((al_groups a)[gi := ?g'] ! gj)) \<and> bk_state (ag_buckets ((al_groups a)[gi := ?g'] ! gj) ! unat k) = DUser"
      using j(1) by auto
  qed
  then have "alloc_inv a'"
    by (intro inv_upd[OF inv gi fr[unfolded g_def] fl[unfolded g_def]]) (simp_all add: a'_def g_def ob(2,3))
  moreover have "held a' = held a"
  proof -
    have "held a' = (if bk_state (ag_buckets ?g' ! bi) = DFree then held a - {bucket_addr g bi} else insert (bucket_addr g bi) (held a))"
      using held_upd[OF inv gi fr[unfolded g_def] bi, of a'] by (simp add: a'_def g_def set_bucket_def)
    moreover have "bucket_addr g bi \<in> held a" using held_iff[OF inv gi bi] st by (simp add: g_def)
    ultimately show ?thesis using b(1) by (simp add: set_bucket_def released_bucket_def insert_absorb)
  qed
  ultimately show ?thesis using r ob(4) by (auto simp: a'_def)
qed

subsection \<open>Trim\<close>

definition trimmed_group :: "nat \<Rightarrow> alloc_group \<Rightarrow> alloc_group" where
  "trimmed_group bi g = (set_bucket bi ((ag_buckets g ! bi)\<lparr>bk_state := DFree\<rparr>) g)
     \<lparr>ag_free := ag_free g + 1, ag_free_list := ag_free_list g @ [of_nat bi]\<rparr>"

lemma trim_held:
  assumes inv: "alloc_inv a" and cd: "codec_total cd" and gi: "gi < length (al_groups a)" and bi: "bi < length (ag_buckets (al_groups a ! gi))"
    and st: "bk_state (ag_buckets (al_groups a ! gi) ! bi) = DNeedDiscard" and addr: "unat addr = bucket_addr (al_groups a ! gi) bi"
  defines "g \<equiv> al_groups a ! gi"
  shows "\<exists>eng' a'. bucket_do_trim cd ops addr eng a = (Inr (), eng', a') \<and> alloc_inv a' \<and> held a' = held a - {unat addr} \<and>
    al_groups a' = (al_groups a)[gi := trimmed_group bi g] \<and> al_total a' = al_total a \<and> al_allocated a' = al_allocated a - 256 \<and>
    al_open a' = al_open a"
proof -
  note ab = addr_bucket[OF inv gi bi addr, folded g_def]
  have wfg: "group_wf g" "free_list_ok g" using alloc_invD(1,2)[OF inv gi] by (simp_all add: g_def)
  have b: "bi < length (ag_buckets g)" "bk_state (ag_buckets g ! bi) = DNeedDiscard" using bi st by (simp_all add: g_def)
  have ub: "unat (of_nat bi :: u32) = bi" using b(1) wfg(1) by (simp add: group_wf_def unsigned_of_nat take_bit_nat_eq_self)
  have wf: "pool_wf (al_open a)" "obp.exclusive (al_open a)" "opens_ok (al_open a) (al_groups a)"
    using inv by (simp_all add: alloc_inv_def)
  let ?g' = "trimmed_group bi g"
  obtain bytes where bytes: "enc_entry cd (from_bucket (ag_id g) DFree (bk_version (ag_buckets g ! bi))) = Some bytes"
    using cd by (auto simp: codec_total_def)
  define a' where "a' = a\<lparr>al_groups := (al_groups a)[gi := ?g'], al_allocated := al_allocated a - 256\<rparr>"
  have r: "\<exists>eng'. bucket_do_trim cd ops addr eng a = (Inr (), eng', a')"
    using ab b bytes
    by (simp add: bucket_do_trim_def g_def[symmetric] Let_def serialize_alloc_entry_def a'_def upd_group_def trimmed_group_def bpb_256)
  have fs: "free_set ?g' = insert bi (free_set g)" "bi \<notin> free_set g"
    using b by (auto simp: free_set_def set_bucket_def trimmed_group_def nth_list_update)
  have fr: "same_frame g ?g'" by (simp add: same_frame_def set_bucket_def trimmed_group_def)
  have "(of_nat bi :: u32) \<notin> set (ag_free_list g)" using wfg(2) fs(2) ub by (metis free_list_ok_def imageI subsetD)
  then have fl: "free_list_ok ?g'"
    using wfg(2) fs ub free_set_fin(1)[of g] by (auto simp: free_list_ok_def trimmed_group_def set_bucket_def)
  have "opens_ok (al_open a) ((al_groups a)[gi := ?g'])"
  proof (rule opens_ok_upd[OF wf(3)])
    show "same_frame (al_groups a ! gi) ?g'" using fr by (simp add: g_def)
    fix k assume "k < length (ag_buckets ?g')" "bk_state (ag_buckets (al_groups a ! gi) ! k) = DUser"
    moreover then have "k \<noteq> bi" using st by auto
    ultimately show "bk_state (ag_buckets ?g' ! k) = DUser" by (simp add: trimmed_group_def set_bucket_def g_def)
  qed
  then have "alloc_inv a'"
    by (intro inv_upd[OF inv gi fr[unfolded g_def] fl[unfolded g_def]]) (simp_all add: a'_def g_def wf(1,2))
  moreover have "held a' = held a - {unat addr}"
  proof -
    have "held a' = (if bk_state (ag_buckets ?g' ! bi) = DFree then held a - {bucket_addr g bi} else insert (bucket_addr g bi) (held a))"
      using held_upd[OF inv gi fr[unfolded g_def] bi, of a'] by (simp add: a'_def g_def trimmed_group_def set_bucket_def)
    then show ?thesis using b(1) addr by (simp add: trimmed_group_def set_bucket_def g_def)
  qed
  ultimately show ?thesis using r by (auto simp: a'_def)
qed

end
