(* ===== verification/AllocatorNew.thy ===== *)
theory AllocatorNew
  imports AllocatorFree
begin

text \<open>
  The allocator \<open>with_config\<close> builds satisfies the invariant: every bucket free, every bucket on
  its group's free list, nothing held and no write point or open bucket in use.
\<close>

lemma div_ceil_less:
  assumes "0 < b"
  shows "i < unat (div_ceil a b) \<longleftrightarrow> i * unat b < unat a"
proof -
  let ?a = "unat a" and ?b = "unat b"
  have b: "0 < ?b" using assms by (simp add: unat_gt_0 word_gt_0)
  have "?a div ?b < 2 ^ 64" by (rule order_le_less_trans[OF div_le_dividend]) (use unat64_less[of a] in simp)
  have u: "unat (div_ceil a b) = (if 0 < ?a mod ?b then ?a div ?b + 1 else ?a div ?b)"
  proof (cases "0 < a mod b")
    case True
    then have m: "0 < ?a mod ?b" by (metis unat_gt_0 unat_mod word_gt_0)
    have "?a div ?b + 1 < 2 ^ 64"
    proof (cases "?b = 1")
      case True
      then show ?thesis using m by simp
    next
      case False
      then have "?a div ?b \<le> ?a div 2" using b by (intro div_le_mono2) auto
      then show ?thesis using unat64_less[of a] by simp
    qed
    then show ?thesis using True m by (simp add: div_ceil_def unat_word_ariths unat_div)
  next
    case False
    then have "?a mod ?b = 0" by (metis unat_0 unat_mod word_gt_0)
    then show ?thesis using False by (simp add: div_ceil_def unat_div)
  qed
  have d: "?a = ?a div ?b * ?b + ?a mod ?b" by simp
  show ?thesis
  proof (cases "0 < ?a mod ?b")
    case True
    have "i < ?a div ?b + 1 \<longleftrightarrow> i * ?b < ?a"
    proof
      assume "i < ?a div ?b + 1"
      then have "i * ?b \<le> ?a div ?b * ?b" by simp
      then show "i * ?b < ?a" using d True by linarith
    next
      assume "i * ?b < ?a"
      then have "i \<le> ?a div ?b" using b by (simp add: less_eq_div_iff_mult_less_eq)
      then show "i < ?a div ?b + 1" by simp
    qed
    then show ?thesis using u True by simp
  next
    case False
    have "i < ?a div ?b \<longleftrightarrow> i * ?b < ?a" using d False b by (metis add.right_neutral gr0I mult_less_cancel2)
    then show ?thesis using u False by simp
  qed
qed

text \<open>The sizes a configuration may have: the superblock lies inside the device, and the numbers of groups and buckets fit 32 bits.\<close>

definition config_ok :: "u64 \<Rightarrow> u64 \<Rightarrow> u64 \<Rightarrow> bool" where
  "config_ok tot gsize sb \<longleftrightarrow> 0 < gsize \<and> sb \<le> tot \<and> unat gsize < 2 ^ 32 \<and> unat (div_ceil (tot - sb) gsize) < 2 ^ 32"

lemma group_new_start:
  assumes c: "config_ok tot gsize sb" and i: "i < unat (div_ceil (tot - sb) gsize)"
  shows "unat (ag_start (group_new tot gsize sb (of_nat i))) = unat sb + i * unat gsize"
    "unat (ag_blocks (group_new tot gsize sb (of_nat i))) = min (unat gsize) (unat tot - (unat sb + i * unat gsize))"
    "unat sb + i * unat gsize < unat tot"
proof -
  have g: "0 < gsize" "sb \<le> tot" using c by (simp_all add: config_ok_def)
  have "i * unat gsize < unat (tot - sb)" using i div_ceil_less[OF g(1)] by simp
  then have lt: "i * unat gsize < unat tot - unat sb" using g(2) by (simp add: unat_sub)
  then show t: "unat sb + i * unat gsize < unat tot" by linarith
  then have b: "unat sb + i * unat gsize < 2 ^ 64" using unat64_less[of tot] by simp
  have "i * 1 \<le> i * unat gsize" using g(1) by (intro mult_le_mono2) (simp add: Suc_leI unat_gt_0 word_gt_0)
  then have "i < 2 ^ 64" using b by linarith
  then have "unat (of_nat i * gsize :: u64) = i * unat gsize"
    using b by (simp add: unat_word_ariths unsigned_of_nat take_bit_nat_eq_self)
  then have s: "unat (sb + of_nat i * gsize :: u64) = unat sb + i * unat gsize" using b by (simp add: unat_word_ariths)
  then show "unat (ag_start (group_new tot gsize sb (of_nat i))) = unat sb + i * unat gsize"
    by (simp add: group_new_def Let_def)
  have "sb + of_nat i * gsize \<le> tot" using s t by (simp add: word_le_nat_alt)
  then have "unat (tot - (sb + of_nat i * gsize)) = unat tot - (unat sb + i * unat gsize)" using s by (simp add: unat_sub)
  then show "unat (ag_blocks (group_new tot gsize sb (of_nat i))) = min (unat gsize) (unat tot - (unat sb + i * unat gsize))"
    by (simp add: group_new_def Let_def min_def word_le_nat_alt)
qed

lemma group_new_ok:
  assumes c: "config_ok tot gsize sb" and i: "i < unat (div_ceil (tot - sb) gsize)"
  defines "g \<equiv> group_new tot gsize sb (of_nat i)"
  shows "group_wf g" "free_list_ok g" "free_set g = {0..<length (ag_buckets g)}" "b \<in> set (ag_buckets g) \<Longrightarrow> \<not> bk_nocow b"
    "length (ag_buckets g) = unat (div_ceil (ag_blocks g) 256)" "ag_free g = of_nat (length (ag_buckets g))"
proof -
  note st = group_new_start[OF c i, folded g_def]
  let ?n = "div_ceil (ag_blocks g) 256"
  have fields: "ag_buckets g = map (\<lambda>bi. bucket_free (ucast (of_nat i :: u64)) (of_nat bi)) [0..<unat ?n]"
    "ag_free g = ?n" "ag_free_list g = rev (map of_nat [0..<unat (ucast ?n :: u32)])"
    by (simp_all add: g_def group_new_def Let_def bpb_256)
  show len: "length (ag_buckets g) = unat ?n" by (simp add: fields)
  have small: "unat (ag_blocks g) < 2 ^ 32" using st(2) c by (simp add: config_ok_def min_def)
  have addr: "k < unat ?n \<longleftrightarrow> k * 256 < unat (ag_blocks g)" for k using div_ceil_less[of 256 k "ag_blocks g"] by simp
  have "\<not> 2 ^ 32 < unat ?n"
  proof
    assume "2 ^ 32 < unat ?n"
    then have "2 ^ 32 * 256 < unat (ag_blocks g)" using addr by blast
    then show False using small by simp
  qed
  moreover have "unat ?n \<noteq> 2 ^ 32"
  proof
    assume "unat ?n = 2 ^ 32"
    then have "(2 ^ 32 - 1) * 256 < unat (ag_blocks g)" using addr[of "2 ^ 32 - 1"] by simp
    then show False using small by simp
  qed
  ultimately have n: "unat ?n < 2 ^ 32" by linarith
  show "group_wf g" using n len addr st(1-3) unat64_less[of tot] by (auto simp: group_wf_def bucket_addr_def)
  show fs: "free_set g = {0..<length (ag_buckets g)}" by (auto simp: free_set_def fields bucket_free_def)
  show "b \<in> set (ag_buckets g) \<Longrightarrow> \<not> bk_nocow b" by (auto simp: fields bucket_free_def)
  show "ag_free g = of_nat (length (ag_buckets g))" by (simp add: fields)
  have u: "unat (ucast ?n :: u32) = unat ?n" using n by (simp add: unsigned_ucast_eq take_bit_nat_eq_self)
  have inj: "unat (of_nat k :: u32) = k" if "k < unat ?n" for k using that n by (simp add: unsigned_of_nat take_bit_nat_eq_self)
  have "distinct (map of_nat [0..<unat ?n] :: u32 list)" using inj by (auto simp: distinct_map inj_on_def) (metis atLeastLessThan_iff inj)
  moreover have "unat ` set (map of_nat [0..<unat ?n] :: u32 list) = {0..<unat ?n}" using inj by (auto simp: image_image)
  ultimately show "free_list_ok g" using fs len u by (simp add: free_list_ok_def fields)
qed

lemma with_config_ok:
  assumes c: "config_ok tot gsize sb"
  obtains a where "with_config tot gsize sb mx = Some a" "alloc_inv a" "held a = {}" "pool_free a"
    "\<And>rq. rq_bitmap rq = FilterAny \<Longrightarrow> rq_journal_seq rq = 0 \<Longrightarrow> plain_request rq a"
    "al_groups a = map (\<lambda>i. group_new tot gsize sb (of_nat i)) [0..<unat (div_ceil (tot - sb) gsize)]" "al_open a = pool_new" "al_allocated a = 0"
proof -
  let ?n = "unat (div_ceil (tot - sb) gsize)"
  let ?gs = "map (\<lambda>i. group_new tot gsize sb (of_nat i)) [0..<?n]"
  have g0: "gsize \<noteq> 0" "saturating_sub tot sb = tot - sb" using c by (auto simp: config_ok_def saturating_sub_def)
  obtain a where a: "with_config tot gsize sb mx = Some a" "al_groups a = ?gs" "al_total a = tot" "al_open a = pool_new"
    "al_wps a = (if 1 < mx then Some (wp_pool_new mx) else None)" "al_allocated a = 0"
    using g0 by (simp add: with_config_def Let_def)
  note ok = group_new_ok[OF c] and st = group_new_start[OF c]
  have el: "\<exists>i < ?n. g = group_new tot gsize sb (of_nat i)" if "g \<in> set (al_groups a)" for g using that a(2) by auto
  have at: "al_groups a ! i = group_new tot gsize sb (of_nat i)" if "i < ?n" for i using that a(2) by simp
  have len: "length (al_groups a) = ?n" by (simp add: a(2))
  have n: "?n < 2 ^ 32" using c by (simp add: config_ok_def)
  have "groups_disjoint (al_groups a)"
    unfolding groups_disjoint_def len
  proof (intro allI impI)
    fix i j assume i: "i < ?n" and j: "j < ?n" and ne: "i \<noteq> j"
    have id: "unat (ag_id (group_new tot gsize sb (of_nat k))) = k" if "k < ?n" for k
      using that n by (simp add: group_new_def Let_def unsigned_ucast_eq unsigned_of_nat take_bit_nat_eq_self)
    have "unat (ag_start (group_new tot gsize sb (of_nat k))) + unat (ag_blocks (group_new tot gsize sb (of_nat k))) \<le>
        unat (ag_start (group_new tot gsize sb (of_nat m)))" if "k < m" "k < ?n" "m < ?n" for k m
    proof -
      have "(k + 1) * unat gsize \<le> m * unat gsize" using that(1) by (intro mult_le_mono1) simp
      then show ?thesis using st(1,2)[OF that(2)] st(1)[OF that(3)] by (simp add: algebra_simps)
    qed
    then show "ag_id (al_groups a ! i) \<noteq> ag_id (al_groups a ! j) \<and>
      (unat (ag_start (al_groups a ! i)) + unat (ag_blocks (al_groups a ! i)) \<le> unat (ag_start (al_groups a ! j)) \<or>
       unat (ag_start (al_groups a ! j)) + unat (ag_blocks (al_groups a ! j)) \<le> unat (ag_start (al_groups a ! i)))"
      using id[OF i] id[OF j] ne i j at by (metis linorder_neq_iff)
  qed
  moreover have "unat (ag_start g) + unat (ag_blocks g) \<le> unat (al_total a)" if "g \<in> set (al_groups a)" for g
    using el[OF that] st a(3) by fastforce
  moreover have "group_wf g \<and> free_list_ok g" if "g \<in> set (al_groups a)" for g using el[OF that] ok(1,2) by blast
  moreover have "opens_ok (al_open a) (al_groups a)" using pool_new_ok(2) by (simp add: opens_ok_def a(4))
  moreover have "obp.exclusive (al_open a)" using pool_new_ok(2) by (simp add: obp.exclusive_def a(4))
  ultimately have inv: "alloc_inv a" using pool_wf_new wp_pool_new_ok n len by (simp add: alloc_inv_def a(4,5))
  have "bk_state (ag_buckets (al_groups a ! gi) ! bi) = DFree" if "gi < length (al_groups a)" "bi < length (ag_buckets (al_groups a ! gi))" for gi bi
  proof -
    have "gi < ?n" using that(1) len by simp
    then have "bi \<in> free_set (al_groups a ! gi)" using ok(3) at that(2) by simp
    then show ?thesis by (simp add: free_set_def)
  qed
  then have h: "held a = {}" unfolding held_def by blast
  have "\<And>rq. rq_bitmap rq = FilterAny \<Longrightarrow> rq_journal_seq rq = 0 \<Longrightarrow> plain_request rq a"
    using el ok(4) by (fastforce simp: plain_request_def)
  then show ?thesis using that a inv h by (simp add: pool_free_def pool_new_def)
qed

end
