(* ===== verification/AllocatorClaims.thy ===== *)
theory AllocatorClaims
  imports AllocatorNew
begin

text \<open>
  The properties of the block allocator: what one allocation gives, the contract
  \<open>address_source\<close> and its client \<open>bch2_alloc_buckets\<close>, and the round trip through release and
  trim.
\<close>

subsection \<open>One allocation\<close>

lemma commit_frame:
  assumes "commit_reservation n rq a = (rq', a')"
  shows "al_groups a' = al_groups a" "al_total a' = al_total a" "al_open a' = al_open a" "al_wps a' = al_wps a"
    "al_allocated a' = al_allocated a" "plain_request rq' a' = plain_request rq a" "rq_watermark rq' = rq_watermark rq"
  using assms by (auto simp: commit_reservation_def plain_request_def split: option.splits prod.splits)

lemma inv_cong:
  assumes "al_groups a' = al_groups a" "al_total a' = al_total a" "al_open a' = al_open a" "al_wps a' = al_wps a"
  shows "alloc_inv a' = alloc_inv a" "held a' = held a" "pool_free a' = pool_free a"
  using assms by (simp_all add: alloc_inv_def held_def pool_free_def)

lemma bucket_alloc_ok:
  assumes inv: "alloc_inv a" and plain: "plain_request rq a" and cd: "codec_total cd"
    and r: "bucket_alloc_new_fs cd ops now rq sp eng a = (res, rq', eng', a')"
  shows "alloc_inv a'" "plain_request rq' a'" "al_total a' = al_total a" "same_frames a a'" "rq_watermark rq' = rq_watermark rq"
    "res = Inr addr \<Longrightarrow> took_fresh (rq_watermark rq) a addr a'"
    "res = Inl e \<Longrightarrow> e = AddressSpaceExhausted (al_total a) \<and> held a' = held a \<and> al_allocated a' = al_allocated a"
    "pool_free a \<Longrightarrow> (\<exists>addr. res = Inr addr) \<longleftrightarrow> some_eligible (rq_watermark rq) a"
proof -
  obtain res1 eng1 a1 where r1: "allocate_bucket_inner cd ops now rq sp eng a = (res1, eng1, a1)" by (metis prod_cases3)
  note ok = allocate_inner_ok[OF inv plain cd r1]
  have "res = res1 \<and> alloc_inv a' \<and> plain_request rq' a' \<and> al_groups a' = al_groups a1 \<and> al_total a' = al_total a1 \<and>
      held a' = held a1 \<and> al_open a' = al_open a1 \<and> al_allocated a' = al_allocated a1 \<and> rq_watermark rq' = rq_watermark rq"
  proof (cases res1)
    case (Inl e)
    then show ?thesis using r r1 ok by (simp add: bucket_alloc_new_fs_def)
  next
    case (Inr addr)
    obtain rq2 a2 where c: "commit_reservation (BLOCKS_PER_BUCKET * SECTORS_PER_BLOCK) rq a1 = (rq2, a2)" by fastforce
    then have "rq' = rq2" "a' = a2" "res = res1" using r r1 Inr by (simp_all add: bucket_alloc_new_fs_def)
    then show ?thesis using commit_frame[OF c] inv_cong[OF commit_frame(1-4)[OF c]] ok(1,2) by simp
  qed
  then show "alloc_inv a'" "plain_request rq' a'" "al_total a' = al_total a" "same_frames a a'" "rq_watermark rq' = rq_watermark rq"
    "res = Inr addr \<Longrightarrow> took_fresh (rq_watermark rq) a addr a'"
    "res = Inl e \<Longrightarrow> e = AddressSpaceExhausted (al_total a) \<and> held a' = held a \<and> al_allocated a' = al_allocated a"
    "pool_free a \<Longrightarrow> (\<exists>addr. res = Inr addr) \<longleftrightarrow> some_eligible (rq_watermark rq) a"
    using ok by (simp_all add: took_fresh_def)
qed

lemma held_below:
  assumes "alloc_inv a" "x \<in> held a"
  shows "x < unat (al_total a)" "\<exists>gi bi. gi < length (al_groups a) \<and> bi < length (ag_buckets (al_groups a ! gi)) \<and>
    x = bucket_addr (al_groups a ! gi) bi \<and> bk_state (ag_buckets (al_groups a ! gi) ! bi) \<noteq> DFree"
proof -
  obtain gi bi where g: "gi < length (al_groups a)" "bi < length (ag_buckets (al_groups a ! gi))"
    "x = bucket_addr (al_groups a ! gi) bi" "bk_state (ag_buckets (al_groups a ! gi) ! bi) \<noteq> DFree"
    using assms(2) by (auto simp: held_def)
  then show "\<exists>gi bi. gi < length (al_groups a) \<and> bi < length (ag_buckets (al_groups a ! gi)) \<and>
    x = bucket_addr (al_groups a ! gi) bi \<and> bk_state (ag_buckets (al_groups a ! gi) ! bi) \<noteq> DFree" by blast
  have "x < unat (ag_start (al_groups a ! gi)) + unat (ag_blocks (al_groups a ! gi))"
    using alloc_invD(1)[OF assms(1) g(1)] g(2,3) by (simp add: group_wf_def)
  then show "x < unat (al_total a)" using alloc_invD(3)[OF assms(1) g(1)] by linarith
qed

text \<open> C7. A plain request, one without a bitmap filter and without a journal sequence number to wait
  for, made while no bucket is nocow-locked, is given an address inside the device that nobody
  holds and makes it held, nothing else; when it fails, the error says that the address space is
  exhausted and nothing is held that was not; and with a free entry in the open-bucket pool it
  succeeds exactly when some group is eligible at the request's watermark. The allocator's
  invariant is kept. \<close>

theorem allocation_fresh:
  assumes "alloc_inv a" "plain_request rq a" "codec_total cd"
    "bucket_alloc_new_fs cd ops now rq sp eng a = (res, rq', eng', a')"
  shows "alloc_inv a' \<and>
    (case res of
       Inr addr \<Rightarrow> addr < al_total a \<and> unat addr \<notin> held a \<and> held a' = insert (unat addr) (held a) \<and>
         al_allocated a' = al_allocated a + BLOCKS_PER_BUCKET
     | Inl e \<Rightarrow> e = AddressSpaceExhausted (al_total a) \<and> held a' = held a \<and> al_allocated a' = al_allocated a) \<and>
    (pool_free a \<longrightarrow> (\<exists>addr. res = Inr addr) \<longleftrightarrow> some_eligible (rq_watermark rq) a)"
proof -
  note ok = bucket_alloc_ok[OF assms]
  show ?thesis
  proof (cases res)
    case (Inl e)
    then show ?thesis using ok(1) ok(7)[OF Inl] ok(8) by simp
  next
    case (Inr addr)
    have "unat addr \<in> held a'" using ok(6)[OF Inr] by (simp add: took_fresh_def)
    then have "addr < al_total a" using held_below(1)[OF ok(1)] ok(3) by (simp add: word_less_nat_alt)
    then show ?thesis using ok(1) ok(6)[OF Inr] ok(8) Inr by (simp add: took_fresh_def bpb_256)
  qed
qed

text \<open>A concrete codec and engine: the fields in order, little-endian; a log of insertions.\<close>

definition data_types :: "bch_data_type list" where
  "data_types = [DFree, DSb, DJournal, DBtree, DUser, DCached, DParity, DStripe, DNeedGcGens, DNeedDiscard,
     DUnstriped, DReserved, DFreeDiscarded, DFreeAvailable, DSbOnly]"

definition type_index :: "bch_data_type \<Rightarrow> nat" where
  "type_index ty = length (takeWhile (\<lambda>t. t \<noteq> ty) data_types)"

definition flat_codec :: alloc_codec where
  "flat_codec = \<lparr>enc_entry = (\<lambda>e. Some (le_bytes 8 (ae_journal_seq e) @ le_bytes 4 (ae_dirty e) @ le_bytes 4 (ae_cached e) @
        le_bytes 2 (ae_stripe e) @ [of_nat (type_index (ae_state e))] @ le_bytes 4 (ae_version e) @ le_bytes 8 (ae_io_time_read e) @
        le_bytes 4 (ae_backpointers e) @ le_bytes 4 (ae_group e))),
     dec_entry = (\<lambda>bs. if length bs = 39 then
        Some \<lparr>ae_journal_seq = le_word (take 8 bs), ae_dirty = le_word (take 4 (drop 8 bs)), ae_cached = le_word (take 4 (drop 12 bs)),
          ae_stripe = le_word (take 2 (drop 16 bs)), ae_state = data_types ! unat (bs ! 18), ae_version = le_word (take 4 (drop 19 bs)),
          ae_io_time_read = le_word (take 8 (drop 23 bs)), ae_backpointers = le_word (take 4 (drop 31 bs)),
          ae_group = le_word (take 4 (drop 35 bs))\<rparr>
        else None),
     dec_legacy_entry = (\<lambda>_. None)\<rparr>"

definition log_ops :: "(btree_id \<times> btree_entry) list engine_ops" where
  "log_ops = \<lparr>eng_insert = (\<lambda>t e l. (t, e) # l),
     eng_get = (\<lambda>t p l. map_option snd (List.find (\<lambda>(u, e). u = t \<and> pos e = p) l)),
     eng_each = (\<lambda>t l. map snd (filter (\<lambda>(u, e). u = t) (rev l)))\<rparr>"

lemma type_index: "data_types ! type_index ty = ty" "type_index ty < 15"
  by (cases ty; simp add: type_index_def data_types_def)+

lemma flat_codec_ok: "codec_total flat_codec" "alloc_codec_ok flat_codec"
proof -
  have "unat (of_nat (type_index ty) :: u8) = type_index ty" for ty
    using type_index(2)[of ty] by (simp add: unsigned_of_nat take_bit_nat_eq_self)
  then show "alloc_codec_ok flat_codec"
    by (simp add: alloc_codec_ok_def flat_codec_def le_word_le_bytes_full type_index nth_append)
  show "codec_total flat_codec" by (simp add: codec_total_def flat_codec_def)
qed

text \<open>A device of eight buckets in one group, all of them free.\<close>

lemma demo_device:
  obtains a where "with_config 2048 2048 0 1 = Some a" "alloc_inv a" "held a = {}" "pool_free a"
    "plain_request (request_new Reclaim DUser) a" "some_eligible Reclaim a"
proof -
  have c: "config_ok 2048 2048 0" by (simp add: config_ok_def div_ceil_def)
  obtain a where a: "with_config 2048 2048 0 1 = Some a" "alloc_inv a" "held a = {}" "pool_free a"
    "plain_request (request_new Reclaim DUser) a"
    "al_groups a = map (\<lambda>i. group_new 2048 2048 0 (of_nat i)) [0..<unat (div_ceil (2048 - 0) 2048)]" "al_open a = pool_new"
    by (rule with_config_ok[OF c, where mx = 1]) (simp add: request_new_def)
  have "al_groups a = [group_new 2048 2048 0 0]" using a(6) by (simp add: div_ceil_def)
  then have "some_eligible Reclaim a" using a(7)
    by (simp add: some_eligible_def group_eligible_def group_new_def Let_def bpb_256 div_ceil_def nr_open_def pool_new_def
        reserved_buckets_def OPEN_BUCKETS_COUNT_def saturating_sub_def word_le_nat_alt)
  then show ?thesis using that a by blast
qed

theorem allocation_fresh_witness:
  "\<exists>a res rq' eng' a'. with_config 2048 2048 0 1 = Some a \<and>
     bucket_alloc_new_fs flat_codec log_ops 0 (request_new Reclaim DUser) None [] a = (res, rq', eng', a') \<and> held a = {} \<and> alloc_inv a'"
proof -
  obtain a where a: "with_config 2048 2048 0 1 = Some a" "alloc_inv a" "held a = {}"
    "plain_request (request_new Reclaim DUser) a"
    using demo_device by blast
  obtain res rq' eng' a' where r: "bucket_alloc_new_fs flat_codec log_ops 0 (request_new Reclaim DUser) None [] a = (res, rq', eng', a')"
    by (metis prod_cases4)
  show ?thesis using a r allocation_fresh[OF a(2,4) flat_codec_ok(1) r] by blast
qed

subsection \<open>A source of addresses\<close>

text \<open>
  The contract the allocator keeps with its callers: a set of held addresses, from which a
  successful call takes a fresh one and which a failing call leaves alone.
\<close>

locale address_source =
  fixes ok :: "'s \<Rightarrow> bool" and owned :: "'s \<Rightarrow> 'x set" and get :: "'s \<Rightarrow> ('e + 'x) \<times> 's"
    and exhausted :: "'s \<Rightarrow> 'e"
  assumes get_fresh: "ok s \<Longrightarrow> get s = (Inr x, s') \<Longrightarrow> ok s' \<and> x \<notin> owned s \<and> owned s' = insert x (owned s) \<and> exhausted s' = exhausted s"
    and get_fail: "ok s \<Longrightarrow> get s = (Inl e, s') \<Longrightarrow> ok s' \<and> owned s' = owned s \<and> e = exhausted s"
begin

fun get_many :: "nat \<Rightarrow> 's \<Rightarrow> ('e + 'x list) \<times> 's" where
  "get_many 0 s = (Inr [], s)"
| "get_many (Suc n) s =
     (case get s of
        (Inl e, s') \<Rightarrow> (Inl e, s')
      | (Inr x, s') \<Rightarrow> (case get_many n s' of (Inl e, s'') \<Rightarrow> (Inl e, s'') | (Inr xs, s'') \<Rightarrow> (Inr (x # xs), s'')))"

text \<open>What was taken is distinct and fresh; after an error it stays taken.\<close>

lemma get_many_fresh:
  assumes "ok s" "get_many n s = (r, s')"
  shows "ok s' \<and> (\<exists>xs. distinct xs \<and> set xs \<inter> owned s = {} \<and> owned s' = owned s \<union> set xs \<and>
    (case r of Inr ys \<Rightarrow> ys = xs \<and> length xs = n | Inl e \<Rightarrow> e = exhausted s \<and> length xs < n))"
  using assms
proof (induction n arbitrary: s r s')
  case 0
  then show ?case by (auto intro: exI[of _ "[]"])
next
  case (Suc n)
  obtain r1 s1 where g: "get s = (r1, s1)" by fastforce
  show ?case
  proof (cases r1)
    case (Inl e)
    then have "r = Inl e" "s' = s1" using g Suc.prems(2) by simp_all
    then show ?thesis using get_fail[OF Suc.prems(1), of e s1] g Inl by (auto intro: exI[of _ "[]"])
  next
    case (Inr x)
    note f = get_fresh[OF Suc.prems(1), of x s1] g Inr
    obtain r2 s2 where m: "get_many n s1 = (r2, s2)" by fastforce
    have s2: "s' = s2" "r = map_sum id (Cons x) r2" using g Inr m Suc.prems(2) by (auto split: sum.splits)
    obtain xs where xs: "ok s2" "distinct xs" "set xs \<inter> owned s1 = {}" "owned s2 = owned s1 \<union> set xs"
      "case r2 of Inr ys \<Rightarrow> ys = xs \<and> length xs = n | Inl e \<Rightarrow> e = exhausted s1 \<and> length xs < n"
      using Suc.IH[OF _ m] f by blast
    have "distinct (x # xs) \<and> set (x # xs) \<inter> owned s = {} \<and> owned s' = owned s \<union> set (x # xs) \<and>
        (case r of Inr ys \<Rightarrow> ys = x # xs \<and> length (x # xs) = Suc n | Inl e \<Rightarrow> e = exhausted s \<and> length (x # xs) < Suc n)"
      using xs f s2 by (auto split: sum.splits)
    then show ?thesis using xs(1) s2(1) by blast
  qed
qed

end

text \<open>The allocator as such a source: its state, with the request and the engine a call threads through.\<close>

definition source_ok :: "alloc_codec \<Rightarrow> alloc_request \<times> 'e \<times> allocator \<Rightarrow> bool" where
  "source_ok cd s \<longleftrightarrow> codec_total cd \<and> alloc_inv (snd (snd s)) \<and> plain_request (fst s) (snd (snd s))"

definition source_owned :: "alloc_request \<times> 'e \<times> allocator \<Rightarrow> u64 set" where
  "source_owned s = {x. unat x \<in> held (snd (snd s))}"

definition source_get ::
  "alloc_codec \<Rightarrow> 'e engine_ops \<Rightarrow> u64 \<Rightarrow> wp_spec option \<Rightarrow> alloc_request \<times> 'e \<times> allocator \<Rightarrow> (alloc_error + u64) \<times> alloc_request \<times> 'e \<times> allocator" where
  "source_get cd ops now sp s = bucket_alloc_new_fs cd ops now (fst s) sp (fst (snd s)) (snd (snd s))"

definition source_full :: "alloc_request \<times> 'e \<times> allocator \<Rightarrow> alloc_error" where
  "source_full s = AddressSpaceExhausted (al_total (snd (snd s)))"

interpretation asrc: address_source "source_ok cd" source_owned "source_get cd ops now sp" source_full
  for cd and ops :: "'e engine_ops" and now sp
proof
  fix s s' :: "alloc_request \<times> 'e \<times> allocator" and x e
  assume ok: "source_ok cd s"
  then have a: "alloc_inv (snd (snd s))" "plain_request (fst s) (snd (snd s))" "codec_total cd" by (simp_all add: source_ok_def)
  show "source_ok cd s' \<and> x \<notin> source_owned s \<and> source_owned s' = insert x (source_owned s) \<and> source_full s' = source_full s"
    if "source_get cd ops now sp s = (Inr x, s')"
  proof -
    obtain rq' eng' a' where s': "s' = (rq', eng', a')" by (metis prod_cases3)
    have r: "bucket_alloc_new_fs cd ops now (fst s) sp (fst (snd s)) (snd (snd s)) = (Inr x, rq', eng', a')"
      using that s' by (simp add: source_get_def)
    show ?thesis using bucket_alloc_ok(1-3)[OF a r] bucket_alloc_ok(6)[OF a r refl] a(3) unfolding s'
      by (auto simp: source_ok_def source_owned_def source_full_def took_fresh_def word_unat_eq_iff)
  qed
  show "source_ok cd s' \<and> source_owned s' = source_owned s \<and> e = source_full s" if "source_get cd ops now sp s = (Inl e, s')"
  proof -
    obtain rq' eng' a' where s': "s' = (rq', eng', a')" by (metis prod_cases3)
    have r: "bucket_alloc_new_fs cd ops now (fst s) sp (fst (snd s)) (snd (snd s)) = (Inl e, rq', eng', a')"
      using that s' by (simp add: source_get_def)
    show ?thesis using bucket_alloc_ok(1,2)[OF a r] bucket_alloc_ok(7)[OF a r refl] a(3) unfolding s'
      by (simp add: source_ok_def source_owned_def source_full_def)
  qed
qed

lemma alloc_buckets_get_many:
  assumes "alloc_buckets cd ops now n rq sp eng a = (r, rq', eng', a')"
  shows "\<exists>r0. asrc.get_many cd ops now sp n (rq, eng, a) = (r0, (rq', eng', a')) \<and> r = map_sum storage_error_of_alloc id r0"
  using assms
proof (induction n arbitrary: rq eng a r)
  case 0
  then show ?case by auto
next
  case (Suc n)
  obtain r1 rq1 eng1 a1 where g: "bucket_alloc_new_fs cd ops now rq sp eng a = (r1, rq1, eng1, a1)" by (metis prod_cases4)
  then have sg: "source_get cd ops now sp (rq, eng, a) = (r1, rq1, eng1, a1)" by (simp add: source_get_def)
  show ?case
  proof (cases r1)
    case (Inl e)
    then show ?thesis using g sg Suc.prems by (auto intro: exI[of _ "Inl e"])
  next
    case (Inr x)
    obtain r2 s2 where m: "alloc_buckets cd ops now n rq1 sp eng1 a1 = (r2, s2)" by (metis surj_pair)
    have s2: "s2 = (rq', eng', a')" "r = map_sum id (Cons x) r2" using g Inr m Suc.prems by (auto split: sum.splits)
    obtain r0 where "asrc.get_many cd ops now sp n (rq1, eng1, a1) = (r0, (rq', eng', a'))" "r2 = map_sum storage_error_of_alloc id r0"
      using Suc.IH m s2(1) by blast
    then show ?thesis using sg Inr s2(2) by (cases r0) auto
  qed
qed

text \<open> C9. \<open>bch2_alloc_buckets(n)\<close> returns \<open>n\<close> different addresses, none of them held before,
  and afterwards exactly these are held in addition. When it fails, the buckets it had already
  taken, fewer than \<open>n\<close>, stay held although the caller gets only the error. \<close>

theorem alloc_buckets_distinct:
  assumes "alloc_inv a" "plain_request rq a" "codec_total cd"
    "alloc_buckets cd ops now n rq sp eng a = (r, rq', eng', a')"
  shows "alloc_inv a' \<and> (\<exists>xs. distinct xs \<and> (\<forall>x \<in> set xs. unat x \<notin> held a) \<and> held a' = held a \<union> unat ` set xs \<and>
    (case r of Inr ys \<Rightarrow> ys = xs \<and> length xs = n | Inl e \<Rightarrow> e = SpaceExhausted (al_total a) \<and> length xs < n))"
proof -
  obtain r0 where g: "asrc.get_many cd ops now sp n (rq, eng, a) = (r0, (rq', eng', a'))" "r = map_sum storage_error_of_alloc id r0"
    using alloc_buckets_get_many[OF assms(4)] by blast
  have ok: "source_ok cd (rq, eng, a)" using assms(1-3) by (simp add: source_ok_def)
  obtain xs where xs: "source_ok cd (rq', eng', a')" "distinct xs" "set xs \<inter> source_owned (rq, eng, a) = {}"
    "source_owned (rq', eng', a') = source_owned (rq, eng, a) \<union> set xs"
    "case r0 of Inr ys \<Rightarrow> ys = xs \<and> length xs = n | Inl e \<Rightarrow> e = source_full (rq, eng, a) \<and> length xs < n"
    using asrc.get_many_fresh[OF ok g(1)] by blast
  have inv': "alloc_inv a'" using xs(1) by (simp add: source_ok_def)
  have word: "y \<in> held b \<longleftrightarrow> (\<exists>x :: u64. y = unat x \<and> unat x \<in> held b)" if "alloc_inv b" for y b
  proof
    assume "y \<in> held b"
    then have "y < 2 ^ 64" using held_below(1)[OF that] unat64_less[of "al_total b"] by fastforce
    then show "\<exists>x :: u64. y = unat x \<and> unat x \<in> held b"
      using \<open>y \<in> held b\<close> by (intro exI[of _ "of_nat y"]) (simp add: unsigned_of_nat take_bit_nat_eq_self)
  qed blast
  have mem: "unat x \<in> held a' \<longleftrightarrow> unat x \<in> held a \<or> x \<in> set xs" for x :: u64 using xs(4) by (auto simp: source_owned_def)
  have "held a' = held a \<union> unat ` set xs"
  proof (rule set_eqI)
    fix y show "y \<in> held a' \<longleftrightarrow> y \<in> held a \<union> unat ` set xs"
      using word[OF inv', of y] word[OF assms(1), of y] mem by auto
  qed
  moreover have "\<forall>x \<in> set xs. unat x \<notin> held a" using xs(3) by (auto simp: source_owned_def)
  ultimately show ?thesis using inv' xs(2,5) g(2) by (cases r0) (auto simp: source_full_def)
qed

theorem alloc_buckets_distinct_witness:
  "\<exists>a r rq' eng' a'. with_config 2048 2048 0 1 = Some a \<and>
     alloc_buckets flat_codec log_ops 0 3 (request_new Reclaim DUser) None [] a = (r, rq', eng', a') \<and> alloc_inv a' \<and>
     (\<exists>xs :: u64 list. distinct xs \<and> held a' = unat ` set xs \<and> length xs \<le> 3)"
proof -
  obtain a where a: "with_config 2048 2048 0 1 = Some a" "alloc_inv a" "held a = {}"
    "plain_request (request_new Reclaim DUser) a"
    using demo_device by blast
  obtain r rq' eng' a' where r: "alloc_buckets flat_codec log_ops 0 3 (request_new Reclaim DUser) None [] a = (r, rq', eng', a')"
    by (metis prod_cases4)
  show ?thesis using a r alloc_buckets_distinct[OF a(2,4) flat_codec_ok(1) r]
    by (cases r) (auto 4 4 intro: less_imp_le)
qed

subsection \<open>Allocation, release, trim\<close>

text \<open>What is held determines the free buckets of every group, and so its counter.\<close>

lemma held_free_set:
  assumes inv: "alloc_inv a" "alloc_inv a'" and fr: "same_frames a a'" and h: "held a' = held a" and gi: "gi < length (al_groups a)"
  shows "free_set (al_groups a' ! gi) = free_set (al_groups a ! gi)" "ag_free (al_groups a' ! gi) = ag_free (al_groups a ! gi)"
proof -
  have f: "same_frame (al_groups a ! gi) (al_groups a' ! gi)" "gi < length (al_groups a')"
    using fr gi by (auto simp: list_all2_conv_all_nth)
  have len: "length (ag_buckets (al_groups a' ! gi)) = length (ag_buckets (al_groups a ! gi))" using f(1) by (simp add: same_frame_def)
  have "k \<in> free_set (al_groups a' ! gi) \<longleftrightarrow> k \<in> free_set (al_groups a ! gi)" for k
    using held_iff[OF inv(1) gi, of k] held_iff[OF inv(2) f(2), of k] same_frame_addr[OF f(1)] len h by (auto simp: free_set_def)
  then show fs: "free_set (al_groups a' ! gi) = free_set (al_groups a ! gi)" by blast
  show "ag_free (al_groups a' ! gi) = ag_free (al_groups a ! gi)"
    using alloc_invD(2)[OF inv(1) gi] alloc_invD(2)[OF inv(2) f(2)] fs by (simp add: free_list_ok_def)
qed

lemma same_frames_groups:
  "al_groups a' = (al_groups a)[gi := g'] \<Longrightarrow> same_frame (al_groups a ! gi) g' \<Longrightarrow> same_frames a a'"
  by (simp add: same_frames_upd)

text \<open> C8. A bucket given back is free again: after an allocation, \<open>bch2_bucket_free\<close> and
  \<open>bch2_bucket_do_trim\<close> of its address both succeed; the first leaves the address held (it waits
  for its discard) and closes its handle, the second makes the held set, the allocated count and
  every group's free count what they were before the allocation. \<close>

theorem release_trim_roundtrip:
  assumes inv: "alloc_inv a" and plain: "plain_request rq a" and cd: "codec_total cd"
    and al: "bucket_alloc_new_fs cd ops now rq sp eng a = (Inr addr, rq', eng1, a1)"
  shows "\<exists>eng2 a2 eng3 a3. bucket_release cd ops addr eng1 a1 = Some (Inr (), eng2, a2) \<and>
    held a2 = held a1 \<and> ran (ob_view (al_open a2)) = ran (ob_view (al_open a)) \<and>
    bucket_do_trim cd ops addr eng2 a2 = (Inr (), eng3, a3) \<and> alloc_inv a3 \<and> held a3 = held a \<and>
    al_allocated a3 = al_allocated a \<and> map ag_free (al_groups a3) = map ag_free (al_groups a)"
proof -
  note ok = bucket_alloc_ok[OF inv plain cd al] and tf = bucket_alloc_ok(6)[OF inv plain cd al refl]
  obtain gi bi where gb: "gi < length (al_groups a)" "bi \<in> free_set (al_groups a ! gi)" "unat addr = bucket_addr (al_groups a ! gi) bi"
    "ran (ob_view (al_open a1)) = insert (ag_id (al_groups a ! gi), of_nat bi) (ran (ob_view (al_open a)))"
    using tf by (auto simp: took_fresh_def)
  have fr1: "same_frame (al_groups a ! gi) (al_groups a1 ! gi)" "gi < length (al_groups a1)"
    using ok(4) gb(1) by (auto simp: list_all2_conv_all_nth)
  have bi: "bi < length (ag_buckets (al_groups a1 ! gi))" "unat addr = bucket_addr (al_groups a1 ! gi) bi"
    "ag_id (al_groups a1 ! gi) = ag_id (al_groups a ! gi)"
    using gb fr1(1) same_frame_addr[OF fr1(1)] by (simp_all add: same_frame_def free_set_def)
  have st: "bk_state (ag_buckets (al_groups a1 ! gi) ! bi) \<noteq> DFree"
    using held_iff[OF ok(1) fr1(2) bi(1)] tf bi(2) by (auto simp: took_fresh_def)
  obtain eng2 a2 where r: "bucket_release cd ops addr eng1 a1 = Some (Inr (), eng2, a2)" "alloc_inv a2" "held a2 = held a1"
    "al_groups a2 = (al_groups a1)[gi := set_bucket bi (released_bucket (ag_buckets (al_groups a1 ! gi) ! bi)) (al_groups a1 ! gi)]"
    "al_total a2 = al_total a1" "al_allocated a2 = al_allocated a1"
    "ran (ob_view (al_open a2)) = ran (ob_view (al_open a1)) - {(ag_id (al_groups a1 ! gi), of_nat bi)}"
    by (rule exE[OF release_held[OF ok(1) cd fr1(2) bi(1) st bi(2), where ops = ops and eng = eng1]], elim exE conjE, rule that)
  have fr2: "same_frame (al_groups a1 ! gi) (al_groups a2 ! gi)" "gi < length (al_groups a2)" "same_frames a1 a2"
    using r(4) fr1(2) by (simp_all add: same_frame_def set_bucket_def same_frames_upd)
  have bi2: "bi < length (ag_buckets (al_groups a2 ! gi))" "unat addr = bucket_addr (al_groups a2 ! gi) bi"
    using bi fr2(1) same_frame_addr[OF fr2(1)] by (simp_all add: same_frame_def)
  have st2: "bk_state (ag_buckets (al_groups a2 ! gi) ! bi) = DNeedDiscard"
    using r(4) fr1(2) bi(1) by (simp add: set_bucket_def released_bucket_def)
  obtain eng3 a3 where t: "bucket_do_trim cd ops addr eng2 a2 = (Inr (), eng3, a3)" "alloc_inv a3" "held a3 = held a2 - {unat addr}"
    "al_groups a3 = (al_groups a2)[gi := trimmed_group bi (al_groups a2 ! gi)]" "al_total a3 = al_total a2" "al_allocated a3 = al_allocated a2 - 256" "al_open a3 = al_open a2"
    by (rule exE[OF trim_held[OF r(2) cd fr2(2) bi2(1) st2 bi2(2), where ops = ops and eng = eng2]], elim exE conjE, rule that)
  have fr3: "same_frames a2 a3" unfolding t(4) by (rule same_frames_upd) (simp add: same_frame_def trimmed_group_def set_bucket_def)
  have fr: "same_frames a a3" using same_frames_trans[OF same_frames_trans[OF ok(4) fr2(3)] fr3] .
  have h: "held a3 = held a" using t(3) r(3) tf by (auto simp: took_fresh_def)
  have "map ag_free (al_groups a3) = map ag_free (al_groups a)"
    using held_free_set(2)[OF inv t(2) fr h] list_all2_lengthD[OF fr] by (intro nth_equalityI) simp_all
  moreover have "(ag_id (al_groups a ! gi), of_nat bi) \<notin> ran (ob_view (al_open a))"
  proof -
    have b: "bi < length (ag_buckets (al_groups a ! gi))" "bk_state (ag_buckets (al_groups a ! gi) ! bi) = DFree"
      using gb(2) by (simp_all add: free_set_def)
    then have "unat (of_nat bi :: u32) = bi"
      using alloc_invD(1)[OF inv gb(1)] by (simp add: group_wf_def unsigned_of_nat take_bit_nat_eq_self)
    then show ?thesis using free_not_open[OF inv gb(1), of "of_nat bi"] b by simp
  qed
  then have "ran (ob_view (al_open a2)) = ran (ob_view (al_open a))" using r(7) gb(4) bi(3) by auto
  moreover have "al_allocated a3 = al_allocated a" using t(6) r(6) tf by (simp add: took_fresh_def)
  ultimately show ?thesis using r(1,3) t(1,2) h by blast
qed

theorem release_trim_roundtrip_witness:
  "\<exists>a addr rq' eng1 a1 eng2 a2 eng3 a3. with_config 2048 2048 0 1 = Some a \<and>
     bucket_alloc_new_fs flat_codec log_ops 0 (request_new Reclaim DUser) None [] a = (Inr addr, rq', eng1, a1) \<and>
     bucket_release flat_codec log_ops addr eng1 a1 = Some (Inr (), eng2, a2) \<and>
     bucket_do_trim flat_codec log_ops addr eng2 a2 = (Inr (), eng3, a3) \<and> held a3 = {}"
proof -
  obtain a where a: "with_config 2048 2048 0 1 = Some a" "alloc_inv a" "held a = {}" "pool_free a"
    "plain_request (request_new Reclaim DUser) a" "some_eligible Reclaim a"
    using demo_device by blast
  obtain res rq' eng1 a1 where r: "bucket_alloc_new_fs flat_codec log_ops 0 (request_new Reclaim DUser) None [] a = (res, rq', eng1, a1)"
    by (metis prod_cases4)
  have "\<exists>addr. res = Inr addr"
    using bucket_alloc_ok(8)[OF a(2,5) flat_codec_ok(1) r a(4)] a(6) by (simp add: request_new_def)
  then obtain addr where "res = Inr addr" ..
  with release_trim_roundtrip[OF a(2,5) flat_codec_ok(1)] r a(1,3) show ?thesis by fastforce
qed

end
