(* ===== verification/AllocatorFlaws.thy ===== *)
theory AllocatorFlaws
  imports AllocatorClaims
begin

text \<open>
  Two ways a bucket in use is handed out again. The scan of the second phase takes a free bucket
  without taking it off the group's free list, where a later allocation finds it; and the extent
  trigger sets a bucket to \<open>Free\<close> when one of the extents in it is deleted, whatever its
  count of sectors still says.
\<close>

subsection \<open>Claiming without the invariant\<close>

lemma pool_room: "pool_ok p \<Longrightarrow> nr_free p \<noteq> 0 \<Longrightarrow> freelist_head p \<noteq> 0"
  by (auto simp: pool_ok_def free_ok_def)

lemma alloc_nr_free: "ob_alloc g b sec gn p = (Inr i, p') \<Longrightarrow> nr_free p' = nr_free p - 1"
  by (auto simp: ob_alloc_def Let_def split: if_splits)

lemma alloc_sectors:
  assumes "pool_ok p" "ob_alloc g b sec gn p = (Inr i, p')"
  shows "ob_sectors (ob_at p' i) = sec"
proof -
  have "in_pool i p" using alloc_ok(2,3)[OF assms] view_in_pool[of p' i] assms(2)
    by (auto simp: ob_alloc_def Let_def in_pool_def ob_upd_def split: if_splits)
  then show ?thesis using assms(2) by (auto simp: ob_alloc_def Let_def in_pool_def ob_upd_def split: if_splits)
qed

text \<open>Some open bucket counts 256 free sectors.\<close>

definition full_handle :: "allocator \<Rightarrow> bool" where
  "full_handle a \<longleftrightarrow> (\<exists>i. ob_view (al_open a) i \<noteq> None \<and> ob_sectors (ob_at (al_open a) i) = 256)"

text \<open>A claim does not look at the bucket's state: it succeeds as long as the pool has room.\<close>

lemma claim_any:
  assumes ok: "pool_ok (al_open a)" and nf: "nr_free (al_open a) \<noteq> 0" and cd: "codec_total cd" and gi: "gi < length (al_groups a)"
  defines "g \<equiv> al_groups a ! gi"
  shows "\<exists>eng' a'. claim_bucket cd ops rq gi bi eng a = (Some (Inr (ag_start g + of_nat bi * 256)), eng', a') \<and>
    al_groups a' = (al_groups a)[gi := claimed_group rq bi g] \<and> al_wps a' = al_wps a \<and>
    pool_ok (al_open a') \<and> nr_free (al_open a') = nr_free (al_open a) - 1 \<and> full_handle a'"
proof -
  let ?b = "ag_buckets g ! bi"
  obtain ob where ob: "ob_alloc (ag_id g) (of_nat bi) 256 (bk_version ?b + 1) (al_open a) = (Inr (freelist_head (al_open a)), ob)"
    using alloc_cases(2)[of "al_open a"] pool_room[OF ok nf] by (auto simp: pool_free_def)
  obtain bytes where bytes: "enc_entry cd (from_bucket_with_journal_seq (ag_id g) DUser (bk_version ?b + 1) (rq_journal_seq rq)) = Some bytes"
    using cd by (auto simp: codec_total_def)
  define a' where "a' = a\<lparr>al_groups := (al_groups a)[gi := claimed_group rq bi g], al_open := ob, al_allocated := al_allocated a + 256\<rparr>"
  have "\<exists>eng'. claim_bucket cd ops rq gi bi eng a = (Some (Inr (ag_start g + of_nat bi * 256)), eng', a')"
    using gi ob bytes
    by (simp add: claim_bucket_def upd_group_def g_def[symmetric] Let_def set_bucket_def serialize_alloc_entry_def
        a'_def claimed_group_def claimed_bucket_def bpb_256)
  moreover have "pool_ok ob" using alloc_ok(1)[OF ok ob] .
  moreover have "full_handle a'"
    using alloc_ok(3)[OF ok ob] alloc_sectors[OF ok ob] by (auto simp: full_handle_def a'_def)
  ultimately show ?thesis using alloc_nr_free[OF ob] by (auto simp: a'_def)
qed

text \<open>An allocator of one group and no write points: the phases look at that group only.\<close>

definition one_group :: "alloc_group \<Rightarrow> nat \<Rightarrow> allocator \<Rightarrow> bool" where
  "one_group g n a \<longleftrightarrow> al_groups a = [g] \<and> al_wps a = None \<and> pool_ok (al_open a) \<and> nr_free (al_open a) = of_nat n"

lemma one_group_inner:
  assumes "al_groups a = [g]" "al_wps a = None"
  shows "allocate_bucket_inner cd ops now rq sp eng a =
    (let b = a\<lparr>al_hint := al_hint a + 1\<rparr> in
     case alloc_phase1 cd ops rq [0] eng b of
       (Some r, eng, c) \<Rightarrow> (r, eng, c)
     | (None, eng, c) \<Rightarrow> (case alloc_phase2 cd ops rq [0] eng c of (Some r, eng, d) \<Rightarrow> (r, eng, d) | (None, eng, d) \<Rightarrow> (Inl (AddressSpaceExhausted (al_total d)), eng, d)))"
proof -
  have "start_group now rq sp a = (0, a\<lparr>al_hint := al_hint a + 1\<rparr>)"
    using assms by (cases sp) (simp_all add: start_group_def Let_def)
  moreover have "group_order 0 1 = [0]" by (simp add: group_order_def)
  ultimately show ?thesis using assms by (simp add: allocate_bucket_inner_def Let_def del: alloc_phase1.simps alloc_phase2.simps split: option.split prod.split)
qed

lemma no_reservation: "rq_reservation rq = None \<Longrightarrow> bucket_alloc_new_fs cd ops now rq sp eng a =
    (case allocate_bucket_inner cd ops now rq sp eng a of (r, eng', a') \<Rightarrow> (r, rq, eng', a'))"
  by (simp add: bucket_alloc_new_fs_def commit_reservation_def split: prod.splits sum.splits)

lemma of_nat_nonzero: "0 < n \<Longrightarrow> n < 2 ^ 32 \<Longrightarrow> (of_nat n :: u32) \<noteq> 0"
proof
  assume n: "0 < n" "n < 2 ^ 32" "(of_nat n :: u32) = 0"
  have "unat (of_nat n :: u32) = n" using n(2) by (simp add: unsigned_of_nat take_bit_nat_eq_self)
  then show False using n(1,3) by simp
qed

text \<open>The pop of phase 1: the top of the list is handed out, whatever the state of the bucket.\<close>

lemma pop_claims:
  assumes og: "one_group g n a" "0 < n" "n < 2 ^ 32" and cd: "codec_total cd" and fl: "ag_free_list g = xs @ [bi]"
    and el: "\<not> ag_free g \<le> reserved_buckets (rq_watermark rq) (ag_total g) + ucast (128 - of_nat n :: u32)"
    and al: "bucket_allowed rq g bi" and rq: "rq_reservation rq = None"
  shows "\<exists>eng' a'. bucket_alloc_new_fs cd ops now rq sp eng a = (Inr (ag_start g + ucast bi * 256), rq, eng', a') \<and>
    one_group (claimed_group rq (unat bi) (pop_group g)) (n - 1) a' \<and> full_handle a'"
proof -
  let ?b = "a\<lparr>al_hint := al_hint a + 1\<rparr>" and ?c = "a\<lparr>al_hint := al_hint a + 1, al_groups := [pop_group g]\<rparr>"
  have a: "al_groups a = [g]" "al_wps a = None" "pool_ok (al_open a)" "nr_free (al_open a) = of_nat n"
    using og(1) by (simp_all add: one_group_def)
  have nf: "(of_nat n :: u32) \<noteq> 0" using of_nat_nonzero[OF og(2,3)] .
  obtain eng' a' where c: "claim_bucket cd ops rq 0 (unat bi) eng ?c = (Some (Inr (ag_start g + ucast bi * 256)), eng', a')"
    "al_groups a' = [claimed_group rq (unat bi) (pop_group g)]" "al_wps a' = None" "pool_ok (al_open a')"
    "nr_free (al_open a') = of_nat n - 1" "full_handle a'"
    using claim_any[of ?c cd 0 ops rq "unat bi" eng] a nf cd by (auto simp: pop_group_def)
  have "group_eligible (rq_watermark rq) ?b g" using el a by (simp add: group_eligible_def nr_open_def OPEN_BUCKETS_COUNT_def)
  then have "alloc_phase1 cd ops rq [0] eng ?b = (Some (Inr (ag_start g + ucast bi * 256)), eng', a')"
    using a fl al c(1) by (simp add: Let_def upd_group_def pop_group_def)
  then have "bucket_alloc_new_fs cd ops now rq sp eng a = (Inr (ag_start g + ucast bi * 256), rq, eng', a')"
    using rq by (simp add: no_reservation one_group_inner[OF a(1,2)] Let_def del: alloc_phase1.simps alloc_phase2.simps)
  moreover have "(of_nat n - 1 :: u32) = of_nat (n - 1)" using og(2) by (simp add: of_nat_diff)
  ultimately show ?thesis using c by (auto simp: one_group_def)
qed

text \<open>The scan of phase 2, after a top that is not allowed: the list stays as it is.\<close>

lemma scan_claims:
  assumes og: "one_group g n a" "0 < n" "n < 2 ^ 32" and cd: "codec_total cd" and fl: "ag_free_list g = xs @ [tp]"
    and el: "\<not> ag_free g \<le> reserved_buckets (rq_watermark rq) (ag_total g) + ucast (128 - of_nat n :: u32)"
    and al: "\<not> bucket_allowed rq g tp"
    and f: "List.find (\<lambda>bi. bk_state (ag_buckets g ! bi) = DFree \<and> bucket_allowed rq g (of_nat bi)) [0..<length (ag_buckets g)] = Some bi"
    and rq: "rq_reservation rq = None"
  shows "\<exists>eng' a'. bucket_alloc_new_fs cd ops now rq sp eng a = (Inr (ag_start g + of_nat bi * 256), rq, eng', a') \<and>
    one_group (claimed_group rq bi g) (n - 1) a'"
proof -
  let ?b = "a\<lparr>al_hint := al_hint a + 1\<rparr>"
  have a: "al_groups a = [g]" "al_wps a = None" "pool_ok (al_open a)" "nr_free (al_open a) = of_nat n"
    using og(1) by (simp_all add: one_group_def)
  have nf: "(of_nat n :: u32) \<noteq> 0" using of_nat_nonzero[OF og(2,3)] .
  obtain eng' a' where c: "claim_bucket cd ops rq 0 bi eng ?b = (Some (Inr (ag_start g + of_nat bi * 256)), eng', a')"
    "al_groups a' = [claimed_group rq bi g]" "al_wps a' = None" "pool_ok (al_open a')"
    "nr_free (al_open a') = of_nat n - 1"
    using claim_any[of ?b cd 0 ops rq bi eng] a nf cd by auto
  have e: "group_eligible (rq_watermark rq) ?b g" using el a by (simp add: group_eligible_def nr_open_def OPEN_BUCKETS_COUNT_def)
  have "alloc_phase1 cd ops rq [0] eng ?b = (None, eng, ?b)" using e a fl al by (simp add: Let_def)
  moreover have "alloc_phase2 cd ops rq [0] eng ?b = (Some (Inr (ag_start g + of_nat bi * 256)), eng', a')"
    using e a f c(1) by (simp add: Let_def)
  ultimately have "bucket_alloc_new_fs cd ops now rq sp eng a = (Inr (ag_start g + of_nat bi * 256), rq, eng', a')"
    using rq by (simp add: no_reservation one_group_inner[OF a(1,2)] Let_def del: alloc_phase1.simps alloc_phase2.simps)
  moreover have "(of_nat n - 1 :: u32) = of_nat (n - 1)" using og(2) by (simp add: of_nat_diff)
  ultimately show ?thesis using c by (auto simp: one_group_def)
qed

subsection \<open>A bucket handed out twice\<close>

definition filtered_request :: "bitmap_filter \<Rightarrow> alloc_request" where
  "filtered_request f = (request_new Reclaim DUser)\<lparr>rq_bitmap := f\<rparr>"

text \<open> C16. A bucket can be handed out twice. On a device of eight buckets whose bucket 0 is
  marked as holding btree nodes, a request that avoids marked buckets is refused the top of the
  free list, and the scan gives it bucket 1 (address 256) without taking it off the list. The next
  two requests, without a filter, pop buckets 0 and 1, so the address 256 is returned again
  while it is still in use. \<close>

theorem filter_then_double_allocation:
  assumes "codec_total cd" "with_config 2048 2048 0 1 = Some a0"
  shows "\<exists>e1 a1 e2 a2 e3 a3.
    bucket_alloc_new_fs cd ops now (filtered_request FilterNo) None eng (btree_bitmap_mark 0 a0) = (Inr 256, filtered_request FilterNo, e1, a1) \<and>
    bucket_alloc_new_fs cd ops now (filtered_request FilterAny) None e1 a1 = (Inr 0, filtered_request FilterAny, e2, a2) \<and>
    bucket_alloc_new_fs cd ops now (filtered_request FilterAny) None e2 a2 = (Inr 256, filtered_request FilterAny, e3, a3)"
proof -
  let ?g0 = "(group_new 2048 2048 0 0)\<lparr>ag_bitmap := [1]\<rparr>" and ?no = "filtered_request FilterNo" and ?any = "filtered_request FilterAny"
  have a0: "al_groups a0 = [group_new 2048 2048 0 0]" "al_wps a0 = None" "al_open a0 = pool_new"
    using assms(2) by (auto simp: with_config_def Let_def saturating_sub_def div_ceil_def)
  have g: "ag_start ?g0 = 0" "ag_free ?g0 = 8" "ag_total ?g0 = 8" "ag_free_list ?g0 = map of_nat [7,6,5,4,3,2] @ [1, 0]"
    "ag_buckets ?g0 = map (\<lambda>bi. bucket_free 0 (of_nat bi)) [0..<8]" "ag_bitmap ?g0 = [1]"
    by (simp_all add: group_new_def Let_def bpb_256 div_ceil_def upt_rec)
  have og: "one_group ?g0 128 (btree_bitmap_mark 0 a0)"
    using a0 pool_new_ok(1)
    by (simp add: one_group_def btree_bitmap_mark_def Let_def group_new_def bpb_256 div_ceil_def pool_new_def OPEN_BUCKETS_COUNT_def)
  have res: "reserved_buckets Reclaim 8 = 0" by (simp add: reserved_buckets_def Let_def saturating_sub_def word_le_nat_alt)
  have rq: "rq_watermark ?no = Reclaim" "rq_watermark ?any = Reclaim" "rq_reservation ?no = None" "rq_reservation ?any = None"
    "rq_journal_seq ?no = 0" "rq_journal_seq ?any = 0" "rq_bitmap ?no = FilterNo" "rq_bitmap ?any = FilterAny"
    by (simp_all add: filtered_request_def request_new_def)
  have b0: "ag_buckets ?g0 ! k = bucket_free 0 (of_nat k)" if "k < 8" for k using that g(5) by simp
  have not0: "\<not> bucket_allowed ?no ?g0 0" by (simp add: bucket_allowed_def btree_bitmap_test_def Let_def rq)
  have ok1: "bucket_allowed ?no ?g0 1"
    using b0[of 1] by (simp add: bucket_allowed_def btree_bitmap_test_def Let_def rq nocow_is_locked_def may_alloc_bucket_def bucket_free_def)
  have "List.find (\<lambda>bi. bk_state (ag_buckets ?g0 ! bi) = DFree \<and> bucket_allowed ?no ?g0 (of_nat bi)) [0..<length (ag_buckets ?g0)] = Some 1"
  proof -
    have "[0..<length (ag_buckets ?g0)] = [0, 1] @ [2..<8]" using g(5) by (simp add: upt_rec)
    then show ?thesis using not0 ok1 b0[of 1] by (simp add: bucket_free_def)
  qed
  then obtain e1 a1 where s1: "bucket_alloc_new_fs cd ops now ?no None eng (btree_bitmap_mark 0 a0) = (Inr (ag_start ?g0 + of_nat 1 * 256), ?no, e1, a1)"
    "one_group (claimed_group ?no 1 ?g0) (128 - 1) a1"
    using scan_claims[OF og _ _ assms(1), where rq = ?no and bi = 1 and tp = 0 and xs = "map of_nat [7,6,5,4,3,2] @ [1]" and ops = ops and now = now and sp = None and eng = eng] not0 g rq res by auto
  define g1 where "g1 = claimed_group ?no 1 ?g0"
  have g1: "ag_start g1 = 0" "ag_free g1 = 7" "ag_total g1 = 8" "ag_free_list g1 = (map of_nat [7,6,5,4,3,2] @ [1]) @ [0]" 
    "length (ag_buckets g1) = 8" using g by (simp_all add: g1_def claimed_group_def)
  have nn: "\<not> bk_nocow (ag_buckets g1 ! k)" "bk_journal_seq (ag_buckets g1 ! k) = 0" if "k < 8" for k
    using b0[OF that] g(5) that by (cases "k = 1"; simp add: g1_def claimed_group_def claimed_bucket_def bucket_free_def rq)+
  have any1: "bucket_allowed ?any g1 0"
    using nn[of 0] by (simp add: bucket_allowed_def rq nocow_is_locked_def may_alloc_bucket_def)
  have og1: "one_group g1 127 a1" using s1(2) by (simp add: g1_def)
  obtain e2 a2 where s2: "bucket_alloc_new_fs cd ops now ?any None e1 a1 = (Inr (ag_start g1 + ucast (0 :: u32) * 256), ?any, e2, a2)"
    "one_group (claimed_group ?any 0 (pop_group g1)) (127 - 1) a2"
    using pop_claims[OF og1 _ _ assms(1) g1(4) _ any1 rq(4), where ops = ops and now = now and sp = None and eng = e1] g1 rq res by (auto simp: word_le_nat_alt)
  define g2 where "g2 = claimed_group ?any 0 (pop_group g1)"
  have g2: "ag_start g2 = 0" "ag_free g2 = 6" "ag_total g2 = 8" "ag_free_list g2 = map of_nat [7,6,5,4,3,2] @ [1]" "length (ag_buckets g2) = 8"
    using g1 by (simp_all add: g2_def claimed_group_def pop_group_def)
  have any2: "bucket_allowed ?any g2 1"
    using nn[of 1] g1(5) by (simp add: bucket_allowed_def rq nocow_is_locked_def may_alloc_bucket_def g2_def claimed_group_def pop_group_def)
  have og2: "one_group g2 126 a2" using s2(2) by (simp add: g2_def)
  obtain e3 a3 where s3: "bucket_alloc_new_fs cd ops now ?any None e2 a2 = (Inr (ag_start g2 + ucast (1 :: u32) * 256), ?any, e3, a3)"
    using pop_claims[OF og2 _ _ assms(1) g2(4) _ any2 rq(4), where ops = ops and now = now and sp = None and eng = e2] g2 rq res by (auto simp: word_le_nat_alt)
  show ?thesis using s1(1) s2(1) s3 g g1(1) g2(1) by auto
qed

theorem filter_then_double_allocation_witness:
  "\<exists>a0 e1 a1 e2 a2 e3 a3. with_config 2048 2048 0 1 = Some a0 \<and>
    bucket_alloc_new_fs flat_codec log_ops 0 (filtered_request FilterNo) None [] (btree_bitmap_mark 0 a0) = (Inr 256, filtered_request FilterNo, e1, a1) \<and>
    bucket_alloc_new_fs flat_codec log_ops 0 (filtered_request FilterAny) None e1 a1 = (Inr 0, filtered_request FilterAny, e2, a2) \<and>
    bucket_alloc_new_fs flat_codec log_ops 0 (filtered_request FilterAny) None e2 a2 = (Inr 256, filtered_request FilterAny, e3, a3)"
proof -
  obtain a0 where a0: "with_config 2048 2048 0 1 = Some a0" using demo_device by blast
  from filter_then_double_allocation[OF flat_codec_ok(1) a0, of log_ops 0 "[]"] a0 show ?thesis by blast
qed

subsection \<open>A bucket shared by two extents\<close>

definition extent_value :: "u64 \<Rightarrow> u16 \<Rightarrow> u8 list" where
  "extent_value pa v = le_bytes 8 pa @ le_bytes 2 v"

definition bucket_entry :: "alloc_codec \<Rightarrow> 'e engine_ops \<Rightarrow> u64 \<Rightarrow> 'e \<Rightarrow> alloc_entry option" where
  "bucket_entry cd ops i eng = (case eng_get ops Alloc (Bpos 0 i 0) eng of Some e \<Rightarrow> entry_alloc cd e | None \<Rightarrow> None)"

text \<open>The bucket entry the trigger leaves in place of \<open>x\<close>, for an extent written or deleted.\<close>

definition triggered_entry :: "bool \<Rightarrow> u16 \<Rightarrow> alloc_entry \<Rightarrow> alloc_entry" where
  "triggered_entry written v x =
     \<lparr>ae_journal_seq = ae_journal_seq x,
      ae_dirty = ucast (if written then ucast (ae_dirty x) + SECTORS_PER_BLOCK else saturating_sub (ucast (ae_dirty x)) SECTORS_PER_BLOCK),
      ae_cached = ae_cached x, ae_stripe = 0, ae_state = (if written then DUser else DFree), ae_version = ucast v,
      ae_io_time_read = 0, ae_backpointers = 0, ae_group = 0\<rparr>"

text \<open>A 32-bit count widened to 64 bits and back.\<close>

lemma ucast_u32_u64: "ucast (ucast w :: u64) = (w :: u32)" "unat (ucast w :: u64) = unat w"
proof -
  show "ucast (ucast w :: u64) = w" by (rule bit_word_eqI) (auto simp: bit_simps)
  have "unat w < 2 ^ 64" using unsigned_less[of w, where ?'a = nat] by simp
  then show "unat (ucast w :: u64) = unat w" by (simp add: unsigned_ucast_eq take_bit_nat_eq_self)
qed

lemma saturating_block:
  assumes "8 < (w :: u32)"
  shows "ucast (saturating_sub (ucast w) (8 :: u64)) = w - 8"
proof -
  have l: "(8 :: u64) < ucast w" using assms by (simp add: word_less_nat_alt ucast_u32_u64)
  then have "ucast w - 8 = (ucast (w - 8) :: u64)" using assms unat_sub[of 8 w] unat_sub[of 8 "ucast w :: u64"]
    by (simp add: word_unat_eq_iff ucast_u32_u64)
  with l show ?thesis by (simp add: saturating_sub_def ucast_u32_u64 not_less[symmetric] less_not_sym)
qed

text \<open>One call of the trigger with one value, whatever the engine: what it looks up and inserts.\<close>

lemma trigger_entry:
  assumes cd: "codec_total cd" "alloc_codec_ok cd" and pa: "pa \<noteq> 0" "pa \<le> addr48_max"
    and x: "bucket_entry cd ops (pa div 256) eng = Some x"
  shows "\<exists>bytes. deserialize_alloc_entry cd bytes = Some (triggered_entry (nv \<noteq> None) vr x) \<and>
    ((ov = None \<and> nv = Some (extent_value pa vr)) \<or> (ov = Some (extent_value pa vr) \<and> nv = None) \<longrightarrow>
      trigger_extent cd ops ov nv eng = (Inr (), eng_insert ops Alloc (entry_raw (Bpos 0 (pa div 256) 0) key_type.Normal bytes)
        (if ov = None then eng else eng_insert ops Alloc (entry_raw (Bpos 0 (pa div 256) 0) Deleted []) eng)))"
proof -
  let ?val = "extent_value pa vr"
  have bs: "length ?val = 10" "le_word (take 8 ?val) = pa" "le_word (take 2 (drop 8 ?val)) = vr"
    by (simp_all add: extent_value_def le_word_le_bytes_full)
  obtain bytes where enc: "enc_entry cd (triggered_entry (nv \<noteq> None) vr x) = Some bytes"
    using cd(1) by (auto simp: codec_total_def)
  have dec: "deserialize_alloc_entry cd bytes = Some (triggered_entry (nv \<noteq> None) vr x)"
    using alloc_entry_roundtrip[OF cd(2)] enc by (simp add: serialize_alloc_entry_def)
  have nle: "\<not> addr48_max < pa" using pa(2) by simp
  have "trigger_extent cd ops ov nv eng = (Inr (), eng_insert ops Alloc (entry_raw (Bpos 0 (pa div 256) 0) key_type.Normal bytes)
        (if ov = None then eng else eng_insert ops Alloc (entry_raw (Bpos 0 (pa div 256) 0) Deleted []) eng))"
    if "(ov = None \<and> nv = Some ?val) \<or> (ov = Some ?val \<and> nv = None)"
    using that
  proof
    assume a: "ov = None \<and> nv = Some ?val"
    show ?thesis using enc x unfolding trigger_extent_def bpb_256 bucket_entry_def
      using a bs pa(1) nle by (simp add: Let_def serialize_alloc_entry_def triggered_entry_def ucast_u32_u64)
  next
    assume a: "ov = Some ?val \<and> nv = None"
    show ?thesis using enc x unfolding trigger_extent_def bpb_256 bucket_entry_def
      using a bs pa(1) nle by (simp add: Let_def serialize_alloc_entry_def triggered_entry_def ucast_u32_u64)
  qed
  then show ?thesis using dec by blast
qed

text \<open> C17. The extent trigger frees a bucket that still holds data. When an extent is deleted whose bucket
  the engine reports with more than one block of dirty sectors, so that other extents remain in it, the
  entry the trigger inserts for the bucket has the state \<open>Free\<close> with dirty sectors left, and loading
  that entry leaves the bucket free to be allocated. \<close>

theorem shared_bucket_freed:
  assumes "codec_total cd" "alloc_codec_ok cd" "pa \<noteq> 0" "pa \<le> addr48_max"
    "eng_get ops Alloc (Bpos 0 (pa div BLOCKS_PER_BUCKET) 0) eng = Some e" "entry_alloc cd e = Some x" "8 < ae_dirty x"
  shows "\<exists>bytes y. trigger_extent cd ops (Some (extent_value pa v)) None eng =
      (Inr (), eng_insert ops Alloc (entry_raw (Bpos 0 (pa div BLOCKS_PER_BUCKET) 0) key_type.Normal bytes)
        (eng_insert ops Alloc (entry_raw (Bpos 0 (pa div BLOCKS_PER_BUCKET) 0) Deleted []) eng)) \<and>
    deserialize_alloc_entry cd bytes = Some y \<and> ae_state y = DFree \<and> ae_dirty y = ae_dirty x - 8 \<and> 0 < ae_dirty y \<and>
    (\<forall>a. load_entry (pa div BLOCKS_PER_BUCKET) y a = a)"
proof -
  have x: "bucket_entry cd ops (pa div 256) eng = Some x" using assms(5,6) by (simp add: bucket_entry_def bpb_256)
  obtain bytes where b: "deserialize_alloc_entry cd bytes = Some (triggered_entry False v x)"
    "trigger_extent cd ops (Some (extent_value pa v)) None eng =
      (Inr (), eng_insert ops Alloc (entry_raw (Bpos 0 (pa div 256) 0) key_type.Normal bytes)
        (eng_insert ops Alloc (entry_raw (Bpos 0 (pa div 256) 0) Deleted []) eng))"
    using trigger_entry[OF assms(1-4) x, of None v "Some (extent_value pa v)"] by auto
  have d: "ae_dirty (triggered_entry False v x) = ae_dirty x - 8"
    using saturating_block[OF assms(7)] by (simp add: triggered_entry_def SECTORS_PER_BLOCK_def)
  have "0 < ae_dirty x - 8" using assms(7) by (simp add: word_gt_0)
  then show ?thesis using b d unfolding bpb_256
    by (intro exI[of _ bytes] exI[of _ "triggered_entry False v x"]) (simp add: triggered_entry_def load_entry_def)
qed

theorem shared_bucket_freed_witness:
  "\<exists>bytes eng' y. trigger_extent flat_codec log_ops (Some (extent_value 256 1)) None
      [(Alloc, entry_raw (Bpos 0 1 0) key_type.Normal (the (enc_entry flat_codec
        \<lparr>ae_journal_seq = 0, ae_dirty = 16, ae_cached = 0, ae_stripe = 0, ae_state = DUser, ae_version = 1, ae_io_time_read = 0,
         ae_backpointers = 0, ae_group = 0\<rparr>)))] = (Inr (), eng') \<and>
    deserialize_alloc_entry flat_codec bytes = Some y \<and> ae_state y = DFree \<and> ae_dirty y = 8"
proof -
  let ?x = "\<lparr>ae_journal_seq = 0, ae_dirty = 16, ae_cached = 0, ae_stripe = 0, ae_state = DUser, ae_version = 1, ae_io_time_read = 0,
         ae_backpointers = 0, ae_group = 0\<rparr>"
  let ?b = "the (enc_entry flat_codec ?x)"
  let ?eng = "[(Alloc, entry_raw (Bpos 0 1 0) key_type.Normal ?b)]"
  have "serialize_alloc_entry flat_codec ?x = Some ?b"
    using flat_codec_ok(1) by (auto simp: codec_total_def serialize_alloc_entry_def)
  then have "deserialize_alloc_entry flat_codec ?b = Some ?x" by (rule alloc_entry_roundtrip[OF flat_codec_ok(2)])
  then have d: "entry_alloc flat_codec (entry_raw (Bpos 0 1 0) key_type.Normal ?b) = Some ?x"
    by (simp add: entry_alloc_def entry_raw_def)
  have g: "eng_get log_ops Alloc (Bpos 0 (256 div BLOCKS_PER_BUCKET) 0) ?eng = Some (entry_raw (Bpos 0 1 0) key_type.Normal ?b)"
    by (simp add: log_ops_def bpb_256 entry_raw_def)
  from shared_bucket_freed[OF flat_codec_ok _ _ g d, of 1] show ?thesis
    by (auto simp: addr48_max_def bpb_256 log_ops_def word_le_nat_alt)
qed

subsection \<open>Reuse of an open bucket\<close>

text \<open>An open handle names a bucket of some group, and its address is held.\<close>

lemma open_addr_held:
  assumes inv: "alloc_inv a" and v: "ob_view (al_open a) i = Some (g, b)"
  shows "\<exists>addr. group_bucket_to_block_addr g b a = Some addr \<and> unat addr \<in> held a"
proof -
  have "opens_ok (al_open a) (al_groups a)" using inv by (simp add: alloc_inv_def)
  then obtain gi where gi: "gi < length (al_groups a)" "ag_id (al_groups a ! gi) = g" "unat b < length (ag_buckets (al_groups a ! gi))"
    "bk_state (ag_buckets (al_groups a ! gi) ! unat b) = DUser"
    using v unfolding opens_ok_def by blast
  let ?P = "\<lambda>g'. ag_id g' = g \<and> unat b < length (ag_buckets g')"
  have "List.find ?P (al_groups a) \<noteq> None" using gi nth_mem[OF gi(1)] by (auto simp: find_None_iff)
  then obtain h where h: "List.find ?P (al_groups a) = Some h" by auto
  then obtain hi where hi: "hi < length (al_groups a)" "?P (al_groups a ! hi)" "h = al_groups a ! hi" using iffD1[OF find_Some_iff h] by blast
  then have "hi = gi" using id_unique[OF inv hi(1) gi(1)] gi(2) by simp
  then have g': "h = al_groups a ! gi" using hi(3) by simp
  have "unat (ag_start h + ucast b * BLOCKS_PER_BUCKET) = bucket_addr h (unat b)"
    using unat_bucket_addr[OF alloc_invD(1)[OF inv gi(1)] gi(3)] g' by simp
  moreover have "bucket_addr h (unat b) \<in> held a" using held_iff[OF inv gi(1,3)] gi(4) g' by simp
  ultimately show ?thesis using h by (simp add: group_bucket_to_block_addr_def)
qed

lemma take_none_entries: "take_from_partial p = (None, p') \<Longrightarrow> entries p' = entries p"
proof -
  have "take_loop xs p = (None, p') \<Longrightarrow> entries p' = entries p" for xs and p :: open_buckets
    by (induction xs arbitrary: p) (auto simp: Let_def split: if_splits)
  then show "take_from_partial p = (None, p') \<Longrightarrow> entries p' = entries p" unfolding take_from_partial_def by blast
qed

lemma reuse_held:
  assumes inv: "alloc_inv a" and v: "ob_view (al_open a) i \<noteq> None" "256 \<le> ob_sectors (ob_at (al_open a) i)"
  shows "\<exists>addr a'. try_reuse_open_bucket a = Some (Some addr, a') \<and> unat addr \<in> held a \<and> al_groups a' = al_groups a"
proof -
  have wf: "pool_wf (al_open a)" using inv by (simp add: alloc_inv_def)
  have n256: "ucast BLOCKS_PER_BUCKET = (256 :: u32)" by (simp add: bpb_256)
  have gb: "group_bucket_to_block_addr g b (a\<lparr>al_open := ob\<rparr>) = group_bucket_to_block_addr g b a" for g b ob
    by (simp add: group_bucket_to_block_addr_def)
  obtain r ob where t: "take_from_partial (al_open a) = (r, ob)" by fastforce
  note tw = take_wf[OF wf t]
  show ?thesis
  proof (cases r)
    case (Some x)
    obtain j g b where x: "x = (j, g, b)" by (metis prod_cases3)
    have "ob_view (al_open a) j = Some (g, b)" using tw(3) Some x by simp
    then obtain addr where "group_bucket_to_block_addr g b a = Some addr" "unat addr \<in> held a" using open_addr_held[OF inv] by blast
    then show ?thesis using t Some x by (simp add: try_reuse_open_bucket_def Let_def)
  next
    case None
    have e: "entries ob = entries (al_open a)" using t None take_none_entries by blast
    obtain r2 ob2 where f: "find_reusable 256 ob = (r2, ob2)" by fastforce
    note fw = find_reusable_wf[OF tw(1) f]
    have "r2 \<noteq> None" using fw(3) tw(2) v e by (auto simp: not_less)
    then obtain j g b where r2: "r2 = Some (j, g, b)" by (metis not_None_eq prod_cases3)
    then have "ob_view (al_open a) j = Some (g, b)" using fw(2) tw(2) by simp
    then obtain addr where "group_bucket_to_block_addr g b a = Some addr" "unat addr \<in> held a" using open_addr_held[OF inv] by blast
    then show ?thesis using t None f r2 by (simp add: try_reuse_open_bucket_def Let_def n256 gb)
  qed
qed

text \<open> C15. A request made with a reservation prefers reuse, and reuse hands out a bucket that is in
  use: while some open bucket still counts 256 free sectors, as every bucket does right after its
  allocation, the request gets the start address of a bucket that is already held, and no new bucket
  is taken. \<close>

theorem reuse_returns_held:
  assumes "alloc_inv a" "al_wps a = None" "rq_reservation rq = Some r" "rq_prefer_reuse rq"
    "count * BLOCKS_PER_BUCKET * SECTORS_PER_BLOCK \<le> dr_sectors r"
    "ob_view (al_open a) i \<noteq> None" "256 \<le> ob_sectors (ob_at (al_open a) i)"
  shows "\<exists>addr rq' a'. alloc_sectors_start_trans cd ops now count rq sp eng a = Some (Inr addr, rq', eng, a') \<and>
    unat addr \<in> held a \<and> held a' = held a"
proof -
  let ?need = "count * BLOCKS_PER_BUCKET * SECTORS_PER_BLOCK"
  obtain addr a1 where t: "try_reuse_open_bucket a = Some (Some addr, a1)" "unat addr \<in> held a" "al_groups a1 = al_groups a"
    using reuse_held[OF assms(1,6,7)] by blast
  obtain rq' a' where c: "commit_reservation ?need rq a1 = (rq', a')" by fastforce
  have "reuse_write_point sp (ucast ?need) a = (None, a)" using assms(2) by (simp add: reuse_write_point_def)
  then have "alloc_rounds cd ops now ?need 0 rq sp eng a = Some (Inr addr, rq', eng, a')"
    using assms(4) t(1) c by (subst alloc_rounds.simps) simp
  moreover have "\<not> dr_sectors r < ?need" using assms(5) by simp
  ultimately have "alloc_sectors_start_trans cd ops now count rq sp eng a = Some (Inr addr, rq', eng, a')"
    using assms(3) by (simp add: alloc_sectors_start_trans_def)
  moreover have "held a' = held a" using commit_frame(1)[OF c] t(3) by (simp add: held_def)
  ultimately show ?thesis using t(2) by blast
qed

theorem reuse_returns_held_witness:
  "\<exists>a0 a1 e1 rq1 addr rq' a'. with_config 2048 2048 0 1 = Some a0 \<and>
    bucket_alloc_new_fs flat_codec log_ops 0 (request_new Reclaim DUser) None [] a0 = (Inr 0, rq1, e1, a1) \<and>
    alloc_sectors_start_trans flat_codec log_ops 0 1 (request_with_reservation Reclaim DUser (reservation_new 2048 DUser)) None e1 a1
      = Some (Inr addr, rq', e1, a') \<and> unat addr \<in> held a1 \<and> held a' = held a1"
proof -
  let ?rq = "request_new Reclaim DUser" and ?g = "group_new 2048 2048 0 0"
  obtain a0 where a0: "with_config 2048 2048 0 1 = Some a0" "alloc_inv a0" "plain_request ?rq a0" using demo_device by blast
  have f: "al_groups a0 = [?g]" "al_wps a0 = None" "al_open a0 = pool_new"
    using a0(1) by (auto simp: with_config_def Let_def saturating_sub_def div_ceil_def)
  have g: "ag_start ?g = 0" "ag_free ?g = 8" "ag_total ?g = 8" "ag_free_list ?g = map of_nat [7,6,5,4,3,2,1] @ [0]"
    by (simp_all add: group_new_def Let_def bpb_256 div_ceil_def upt_rec)
  have og: "one_group ?g 128 a0" using f pool_new_ok(1) by (simp add: one_group_def pool_new_def OPEN_BUCKETS_COUNT_def)
  have "bucket_allowed ?rq ?g 0" using plain_allowed[OF a0(3), of 0 0] f by simp
  then obtain e1 a1 where r: "bucket_alloc_new_fs flat_codec log_ops 0 ?rq None [] a0 = (Inr 0, ?rq, e1, a1)"
    "one_group (claimed_group ?rq 0 (pop_group ?g)) 127 a1" "full_handle a1"
    using pop_claims[OF og _ _ flat_codec_ok(1) g(4), where rq = ?rq and ops = log_ops and now = 0 and sp = None and eng = "[]"] g
    by (auto simp: request_new_def reserved_buckets_def Let_def saturating_sub_def word_le_nat_alt)
  have inv: "alloc_inv a1" using bucket_alloc_ok(1)[OF a0(2,3) flat_codec_ok(1) r(1)] .
  obtain i where i: "ob_view (al_open a1) i \<noteq> None" "ob_sectors (ob_at (al_open a1) i) = 256" using r(3) by (auto simp: full_handle_def)
  from reuse_returns_held[OF inv, of "request_with_reservation Reclaim DUser (reservation_new 2048 DUser)" "reservation_new 2048 DUser" 1 i
      flat_codec log_ops 0 None e1] r(1,2) i a0(1)
  show ?thesis by (auto simp: one_group_def request_with_reservation_def reservation_new_def bpb_256 SECTORS_PER_BLOCK_def)
qed

end
