(* ===== verification/Spec2Isabelle.thy ===== *)
theory Spec2Isabelle
  imports NodeClaims2 SixLockProps Deadlock SnapTable JournalWedge JournalReadProps AllocatorFlaws
begin

text \<open>
  A verification development for volmount, a copy-on-write block storage engine in Rust
  modelled on bcachefs (repository root \<open>src/\<close>, core crate \<open>src/crates/volmount-core/src\<close>).

  The program. Volumes are ranges of virtual block addresses; every mapping and all metadata
  live in a set of B+trees keyed by a position (inode, offset, snapshot) whose keys are stored
  bit-packed in nodes; trees are changed by transactions that take six locks on nodes, are made
  durable by a journal, and share blocks between snapshots that form a tree. This development
  models the key layer, the btree nodes, the lock layer, the snapshot layer, the journal and the
  block allocator; the theories follow the files:

  \<^item> Prelude: Rust's machine integers, comparison results, little-endian bytes, loops that may
    fail.
  \<^item> Keys (\<open>btree/key.rs\<close>, \<open>btree/types.rs\<close>): positions \<open>Bpos\<close> and their order, successor and
    predecessor; the legacy \<open>BtreeKey\<close>; values, entries, and the 16-byte node pointer codec.
  \<^item> KeyPack (\<open>btree/key.rs\<close>): the bit-packed key format, \<open>set_inc_field\<close> / \<open>get_inc_field\<close> over
    words from the top down, packing, unpacking and field-wise comparison. The proofs read a
    word list as one bit stream and show where each field lies in it.
  \<^item> NodeData, Node, NodeOps, NodeRecord (\<open>btree/node.rs\<close>): a btree node as a byte buffer with
    three sets of packed entries, its sorted and Eytzinger search arrays, and the log of records
    it is on disk. NodeData reads and writes single entries, Node inserts, deletes and compacts,
    NodeOps searches, splits, merges and iterates, NodeRecord encodes and decodes records.
  \<^item> NodeLive, NodeInsert, NodeCompact, NodeSearch, NodeDelete, NodeSplit, NodeScan,
    NodeRecordProps, NodeAbsorb: \<open>node_wf n xs ys\<close> says which list of entries each set of a node
    holds, and \<open>node_map\<close> what they stand for, the last write of each (offset, snapshot) slot
    unless it is a tombstone. Each theory relates one group of operations to these two.
    NodeClaims and NodeClaims2 draw the properties, and the theorems behind the findings: lookup
    before a compaction, deletion of a rewritten key, merges that cut values, Eytzinger arrays.
  \<^item> WaitFifo (\<open>lock/wait_fifo.rs\<close>): the fixed-size queue of parked lock waiters. The locale
    \<open>waiter_bag\<close> states the queue as a bag and is interpreted on the code's slot array.
  \<^item> SixLock, SixLockInv, SixLockProps (\<open>lock/six.rs\<close>): the read/intent/write lock. SixLock has
    one definition per method, on the record \<open>six\<close> (state word, sequence number, owners,
    recursion counts, wait queue, per-thread read counters). SixLockInv shows how the 26-bit
    reader count and the flag bits of the word behave, defines the invariant \<open>six_inv\<close> and the
    step relation \<open>six_step\<close> of the non-blocking methods called by disciplined threads on a
    standard-mode lock (try, relock, unlock, downgrade, try-upgrade, convert, increment; not the
    read-to-write upgrade, which breaks the invariant), and
    proves the invariant for every reachable state. SixLockProps draws the properties: mutual
    exclusion, handoff to the oldest writer, mass wake-up of readers, sequence numbers, and two
    executions that break what the lock promises.
  \<^item> Deadlock (\<open>lock/deadlock.rs\<close>): the wait-for cycle search, with its depth limit of 64. The
    search is total without fuel: each turn settles, pops or pushes a transaction.
  \<^item> Snapshot, SnapshotInv, SnapshotProps (\<open>snap/meta.rs\<close>, \<open>snap/snapshot.rs\<close>): snapshot nodes
    and every operation on the Snapshots and SnapshotTrees btrees: ancestor walk over skip
    list and bitmap, creation, logical and physical deletion, the sweeps, reconstruction,
    traversals, the id bitmap and the subtree registry. SnapshotInv defines when a tree is
    well formed and relates the walk to the parent-chain relation \<open>ancestor\<close>.
  \<^item> SnapTable (\<open>snap/table.rs\<close>): the in-memory table rebuilt from the btree and its three-stage
    ancestor query, proved to agree with the stored tree.
  \<^item> JournalRes (\<open>journal/types.rs\<close>, \<open>JournalResState\<close>): the reservation word of the journal, a
    22-bit offset, a buffer index and four 10-bit counts; every operation is described field by
    field, and an interleaving model shows that writers never overlap and that the drain count
    is exact.
  \<^item> PinList, JournalPin, JournalPinInv (\<open>journal/reclaim.rs\<close>): the intrusive rings of pins as
    pointer code, with the locale \<open>deque_contract\<close> interpreted on it; the ring of 128 pin lists,
    with the locale \<open>bounded_queue\<close>; setting, copying, dropping and flushing pins. The invariant
    \<open>pin_inv\<close> shows that an active pin holds back the reclaimed sequence number, in every run from
    a \<open>last_seq_ondisk\<close> that is a multiple of 128, such as that of a new journal. JournalPin represents the
    rings by the lists that PinList proves they hold.
  \<^item> JournalSpace (\<open>journal/types.rs\<close>, \<open>types.rs\<close>): the four indices over the ring of journal
    buckets, space accounting, utilization and watermarks, and the discard walk.
  \<^item> Journal, JournalProps, JournalWedge (\<open>journal/types.rs\<close>, \<open>Journal\<close>): the four staging buffers,
    opening and closing entries, the fast and slow reservation paths, flush, bucket rotation
    and foreground reclaim, errors. The properties say what a flush writes and follow three
    executions that lose data or stop the journal; JournalWedge also relates the two
    constructors to the pin runs.
  \<^item> Jset (\<open>journal/jset.rs\<close>, \<open>journal/validate.rs\<close>): the on-disk form of a journal entry. The
    table-driven CRC32C is shown to be eight division steps per byte, hence injective in every
    byte; encoding and decoding are inverse; the start of an entry alone is refused.
  \<^item> JournalRead, JournalReadProps (\<open>journal/types.rs\<close>, \<open>journal/replay.rs\<close>,
    \<open>recovery/passes/journal_read.rs\<close> and \<open>journal_replay.rs\<close>): appending, reading a bucket back,
    choosing what to replay, replay. The properties compose them: what is appended and flushed
    is read back, a replay is idempotent, and three ways to lose entries that reached the disk.
  \<^item> OpenBucket, OpenBucketProps (\<open>alloc/open_bucket.rs\<close>): the pool of 128 open-bucket entries,
    threaded on a free list and on hash chains of indices. The invariant \<open>pool_wf\<close> holds on every
    reachable pool, so no walk of a chain runs forever; the locale \<open>open_pool\<close> states the pool as a
    finite map from handles to buckets and is interpreted on it.
  \<^item> WritePoint, WritePointProps (\<open>alloc/write_point.rs\<close>): hashed and dedicated write points, the
    replacement of the least recently used one, the shrinking of the pool.
  \<^item> AllocMeta, AllocMetaProps, Reservation (\<open>alloc/bucket.rs\<close>, \<open>bucket_gens.rs\<close>, \<open>btree.rs\<close>,
    \<open>background.rs\<close>, \<open>foreground.rs\<close>, \<open>reservation.rs\<close>): bucket states, Alloc entries, the
    generation tracker, the GC bitmap and its scan, group choice, sector reservations.
  \<^item> Allocator, AllocBtree (\<open>alloc/mod.rs\<close>): groups of 1 MiB buckets, the two-phase allocation
    and its fallback levels, release and trim, loading and the btree triggers. AllocatorInv
    defines the invariant \<open>alloc_inv\<close> and the set \<open>held\<close> of addresses given out; AllocatorProps,
    AllocatorFree and AllocatorNew relate each operation to them; AllocatorClaims states the
    contract \<open>address_source\<close>, interprets it on the allocator and draws the properties;
    AllocatorFlaws follows three ways in which a bucket in use is handed out again.

  How the model reads the code. A struct is a record, an enum a datatype, an integer a word of
  its width with the release build's wrap-around; a panic or an out-of-range access is \<open>None\<close>
  or a fault value. A loop that may run forever is a \<open>partial_function\<close> into \<open>option\<close>, and
  where the code is meant to return, a theorem says that it does; the recursive traversals
  carry the call depth the stack allows, and the traversal theorem shows that the root's id
  bounds it. Concurrency is interleaving of whole lock methods: a compare-exchange loop is its
  uninterrupted run, and the blocking path is split where the thread parks. The Snapshots
  btree appears through its point operations (the entry written last at a position is the one
  found, whiteouts hide it from ordinary lookups), as an association list in descending id;
  bincode is taken to return what it stored, and random draws, clock readings, hash map order
  and the number of inserts the btree accepts are arguments. The journal's device is the log of
  the requests made to it, with an argument that decides which of them succeed; the callbacks
  that pin owners register are an argument too, as are bincode's codecs, the result of reading a
  block, and the raw insertion of the engine that replay and the allocator feed. The clock the
  write points read is an argument.

  Not modelled, with the plan for it: the journal's background tasks, the tree above the nodes (search and iterators over levels),
  btree transactions and interior updates, write buffer and key cache, the other recovery passes; and, being I/O and glue, block
  devices, the NBD and HTTP servers and the command line.
\<close>

end
